(* ===== verification/Prelude.thy ===== *)
theory Prelude
  imports Main "HOL-Library.Word" "HOL-Library.Char_ord" "HOL-Library.List_Lexorder"
    "HOL-Library.Monad_Syntax" "HOL-Library.Multiset"
begin

text \<open>
  Shared vocabulary of the development: the C types of the program (bytes, 64-bit
  unsigned integers, pointers, C strings), the memory image of a 64-bit integer on a
  little-endian host, the string functions of the C library that the sources call, and
  the generic lemmas the component theories use.

  Modelling conventions.
  \<^item> A byte of memory is a HOL \<open>char\<close>, so that a C string is a HOL \<open>string\<close> without its
    terminating NUL and a memory buffer is a \<open>string\<close> too.
  \<^item> A pointer is an \<open>option\<close>; \<open>None\<close> is \<open>NULL\<close>.
  \<^item> A function of the source whose execution can be undefined (a NULL or dangling pointer
    is dereferenced, an uninitialised variable is read) or can fail to return has an
    \<open>option\<close> result, and \<open>None\<close> stands for that; theorems always show that the result is
    \<open>Some\<close>.
\<close>

section \<open>Collections of rules\<close>

named_theorems heap_simps "symbolic execution of heap programs"
named_theorems net_simps "evaluation of process programs"

section \<open>Types\<close>

type_synonym byte = char
type_synonym u64 = "64 word"
type_synonym ptr = "nat option"

abbreviation NULL :: "'a option" where
  "NULL \<equiv> None"

section \<open>Integers in memory\<close>

text \<open>
  The eight bytes of a 64-bit integer as a little-endian host stores them, and the
  integer that eight bytes of memory hold.
\<close>

fun le_bytes :: "nat \<Rightarrow> nat \<Rightarrow> byte list" where
  "le_bytes 0 n = []"
| "le_bytes (Suc k) n = char_of (n mod 256) # le_bytes k (n div 256)"

fun le_value :: "byte list \<Rightarrow> nat" where
  "le_value [] = 0"
| "le_value (b # bs) = of_char b + 256 * le_value bs"

definition mem_u64 :: "u64 \<Rightarrow> byte list" where
  "mem_u64 w = le_bytes 8 (unat w)"

definition load_u64 :: "byte list \<Rightarrow> u64" where
  "load_u64 bs = word_of_nat (le_value (take 8 bs))"

lemma unat_word_of_nat_u64: "n < 2 ^ 64 \<Longrightarrow> unat (word_of_nat n :: u64) = n"
  by (simp add: unat_of_nat)

lemma length_le_bytes [simp]: "length (le_bytes k n) = k"
  by (induction k arbitrary: n) auto

lemma le_value_le_bytes: "le_value (le_bytes k n) = n mod 256 ^ k"
  by (induction k arbitrary: n) (simp_all add: mod_mult2_eq)

lemma of_char_less_256': "of_char (c :: char) < (256 :: nat)"
  by simp

lemma le_value_bound: "le_value bs < 256 ^ length bs"
proof (induction bs)
  case (Cons b bs)
  have "(of_char b :: nat) \<le> 255"
    using of_char_less_256' [of b] by linarith
  moreover have "256 * le_value bs + 256 \<le> 256 * 256 ^ length bs"
    using Cons by simp
  ultimately show ?case by simp
qed simp

lemma le_bytes_le_value: "le_bytes (length bs) (le_value bs) = bs"
  by (induction bs) auto

lemma length_mem_u64 [simp]: "length (mem_u64 w) = 8"
  by (simp add: mem_u64_def)

lemma load_mem_u64 [simp]: "load_u64 (mem_u64 w @ bs) = w"
proof -
  have "unat w < 256 ^ 8"
    using unsigned_less [of w] by simp
  then show ?thesis
    by (simp add: load_u64_def mem_u64_def le_value_le_bytes)
qed

lemma load_mem_u64_Nil [simp]: "load_u64 (mem_u64 w) = w"
  using load_mem_u64 [of w "[]"] by simp

lemma mem_load_u64: "length bs = 8 \<Longrightarrow> mem_u64 (load_u64 bs) = bs"
  using le_value_bound [of bs] le_bytes_le_value [of bs]
  by (simp add: load_u64_def mem_u64_def unat_of_nat)

text \<open>The byte-swapping macro \<open>bswap_64\<close> of \<open>byteswap.h\<close>.\<close>

definition bswap_64 :: "u64 \<Rightarrow> u64" where
  "bswap_64 w = load_u64 (rev (mem_u64 w))"

lemma mem_bswap_64: "mem_u64 (bswap_64 w) = rev (mem_u64 w)"
  by (simp add: bswap_64_def mem_load_u64)

lemma bswap_64_involution [simp]: "bswap_64 (bswap_64 w) = w"
proof -
  have "mem_u64 (bswap_64 (bswap_64 w)) = mem_u64 w"
    by (simp add: mem_bswap_64)
  then show ?thesis
    by (metis load_mem_u64_Nil)
qed

section \<open>C strings\<close>

abbreviation NUL :: byte where
  "NUL \<equiv> CHR 0x00"

text \<open>A HOL string is the content of a C string when it holds no NUL.\<close>

definition cstring :: "string \<Rightarrow> bool" where
  "cstring s \<longleftrightarrow> NUL \<notin> set s"

text \<open>The bytes of a C string in memory, and the string that starts at a memory position
  (\<open>strlen\<close> and the copying functions stop at the first NUL).\<close>

definition mem_str :: "string \<Rightarrow> byte list" where
  "mem_str s = s @ [NUL]"

definition load_str :: "byte list \<Rightarrow> string" where
  "load_str bs = takeWhile (\<lambda>c. c \<noteq> NUL) bs"

text \<open>\<open>strlen(s) + 1\<close> as a \<open>size_t\<close>.\<close>

definition str_size :: "string \<Rightarrow> u64" where
  "str_size s = word_of_nat (length s + 1)"

fun strcmp :: "string \<Rightarrow> string \<Rightarrow> int" where
  "strcmp [] [] = 0"
| "strcmp [] (b # bs) = - of_char b"
| "strcmp (a # as) [] = of_char a"
| "strcmp (a # as) (b # bs) = (if a = b then strcmp as bs else of_char a - of_char b)"

lemma cstring_Cons [simp]: "cstring (c # s) \<longleftrightarrow> c \<noteq> NUL \<and> cstring s"
  by (auto simp: cstring_def)

lemma cstring_Nil [simp]: "cstring []"
  by (simp add: cstring_def)

lemma length_mem_str [simp]: "length (mem_str s) = length s + 1"
  by (simp add: mem_str_def)

lemma load_mem_str: "cstring s \<Longrightarrow> load_str (mem_str s @ bs) = s"
  by (induction s) (auto simp: load_str_def mem_str_def)

lemma of_char_pos: "c \<noteq> NUL \<Longrightarrow> 0 < (of_char c :: int)"
  by (cases c) auto

lemma strcmp_sign:
  assumes "cstring s" "cstring t"
  shows "(strcmp s t = 0 \<longleftrightarrow> s = t) \<and> (strcmp s t < 0 \<longleftrightarrow> s < t) \<and> (strcmp s t > 0 \<longleftrightarrow> t < s)"
  using assms
proof (induction s t rule: strcmp.induct)
  case (4 a as b bs)
  have "(of_char a :: int) < of_char b \<longleftrightarrow> a < b" and "(of_char b :: int) < of_char a \<longleftrightarrow> b < a"
    by (simp_all only: less_char_def of_nat_less_iff
        flip: of_nat_of_char [of a, where ?'a = int] of_nat_of_char [of b, where ?'a = int])
  with 4 show ?case by auto
qed (use of_char_pos in \<open>force+\<close>)

lemma strcmp_eq_0 [simp]: "cstring s \<Longrightarrow> cstring t \<Longrightarrow> strcmp s t = 0 \<longleftrightarrow> s = t"
  using strcmp_sign by blast

lemma strcmp_neg [simp]: "cstring s \<Longrightarrow> cstring t \<Longrightarrow> strcmp s t < 0 \<longleftrightarrow> s < t"
  using strcmp_sign by blast

lemma strcmp_pos [simp]: "cstring s \<Longrightarrow> cstring t \<Longrightarrow> 0 < strcmp s t \<longleftrightarrow> t < s"
  using strcmp_sign by blast

lemma strcmp_refl [simp]: "strcmp s s = 0"
  by (induction s) auto

end
