(* ===== verification/Util.thy ===== *)
theory Util
  imports Prelude
begin

text \<open>
  The helper functions of \<open>src/src/spawn_util.c\<close>: byte order of packed 64-bit integers,
  the allocation wrappers and the release of memory. The printing functions \<open>spawn_err\<close>
  and \<open>spawn_dbg\<close> only write to standard error and are not modelled.
\<close>

section \<open>Model\<close>

text \<open>The macros \<open>spawn_hton64\<close> and \<open>spawn_ntoh64\<close> on a little-endian host.\<close>

definition spawn_hton64 :: "u64 \<Rightarrow> u64" where
  "spawn_hton64 x = bswap_64 x"

definition spawn_ntoh64 :: "u64 \<Rightarrow> u64" where
  "spawn_ntoh64 x = bswap_64 x"

text \<open>The bytes \<open>spawn_pack_uint64\<close> writes at \<open>buf\<close>; it returns their number, 8.\<close>

definition spawn_pack_uint64 :: "u64 \<Rightarrow> byte list" where
  "spawn_pack_uint64 val = (let val_net = spawn_hton64 val in mem_u64 val_net)"

text \<open>The value \<open>spawn_unpack_uint64\<close> stores in \<open>val\<close>, and the 8 it returns.\<close>

definition spawn_unpack_uint64 :: "byte list \<Rightarrow> u64 \<times> nat" where
  "spawn_unpack_uint64 buf =
     (let val_net = load_u64 (take 8 buf) in (spawn_ntoh64 val_net, 8))"

text \<open>
  \<open>exit\<close> ends the process; every other result is returned to the caller. The allocator
  of the C library is a parameter: \<open>None\<close> is its failure.
\<close>

datatype 'a outcome = Exit int | Return 'a

definition spawn_exit :: "int \<Rightarrow> 'a outcome" where
  "spawn_exit code = Exit code"

definition spawn_malloc :: "(nat \<Rightarrow> nat option) \<Rightarrow> nat \<Rightarrow> ptr outcome" where
  "spawn_malloc malloc nbytes =
     (if nbytes > 0 then
        (case malloc nbytes of
           None \<Rightarrow> spawn_exit 1
         | Some p \<Rightarrow> Return (Some p))
      else Return NULL)"

definition spawn_strdup :: "(string \<Rightarrow> nat option) \<Rightarrow> string option \<Rightarrow> ptr outcome" where
  "spawn_strdup strdup origstr =
     (case origstr of
        None \<Rightarrow> Return NULL
      | Some s \<Rightarrow>
          (case strdup s of
             None \<Rightarrow> spawn_exit 1
           | Some p \<Rightarrow> Return (Some p)))"

text \<open>
  \<open>vsnprintf\<close> is a parameter: \<open>None\<close> is its error return, \<open>Some s\<close> the formatted string.
\<close>

definition spawn_strdupf ::
  "(nat \<Rightarrow> nat option) \<Rightarrow> ('f \<Rightarrow> 'a \<Rightarrow> string option) \<Rightarrow> 'f option \<Rightarrow> 'a \<Rightarrow> (nat \<times> string) option outcome"
  where
  "spawn_strdupf malloc vsnprintf format args =
     (case format of
        None \<Rightarrow> Return NULL
      | Some f \<Rightarrow>
          (case vsnprintf f args of
             None \<Rightarrow> Return NULL
           | Some s \<Rightarrow>
               (case spawn_malloc malloc (length s + 1) of
                  Exit c \<Rightarrow> Exit c
                | Return None \<Rightarrow> Return NULL
                | Return (Some p) \<Rightarrow> Return (Some (p, s)))))"

text \<open>
  \<open>spawn_free\<close> releases the block a pointer variable refers to and resets the variable.
  The memory is the map from addresses to blocks; the outer \<open>option\<close> of the argument is
  the pointer to the variable.
\<close>

definition spawn_free :: "(nat \<rightharpoonup> 'b) \<Rightarrow> ptr option \<Rightarrow> (nat \<rightharpoonup> 'b) \<times> ptr option" where
  "spawn_free mem pptr =
     (case pptr of
        None \<Rightarrow> (mem, None)
      | Some p \<Rightarrow>
          (case p of
             None \<Rightarrow> (mem, Some NULL)
           | Some a \<Rightarrow> (mem(a := None), Some NULL)))"

section \<open>Properties\<close>

lemma length_pack_uint64 [simp]: "length (spawn_pack_uint64 v) = 8"
  by (simp add: spawn_pack_uint64_def)

lemma pack_uint64_network_order: "spawn_pack_uint64 v = rev (mem_u64 v)"
  by (simp add: spawn_pack_uint64_def spawn_hton64_def mem_bswap_64)

lemma unpack_pack_uint64 [simp]:
  "spawn_unpack_uint64 (spawn_pack_uint64 v @ rest) = (v, 8)"
  by (simp add: spawn_unpack_uint64_def spawn_pack_uint64_def spawn_hton64_def
      spawn_ntoh64_def)

lemma unpack_pack_uint64_Nil [simp]: "spawn_unpack_uint64 (spawn_pack_uint64 v) = (v, 8)"
  using unpack_pack_uint64 [of v "[]"] by simp

lemma pack_unpack_uint64:
  "length buf = 8 \<Longrightarrow> spawn_pack_uint64 (fst (spawn_unpack_uint64 buf)) = buf"
  by (simp add: spawn_unpack_uint64_def spawn_pack_uint64_def spawn_hton64_def
      spawn_ntoh64_def mem_load_u64)

end
