(* ===== verification/Strmap.thy ===== *)
theory Strmap
  imports Util
begin

text \<open>
  The string map of \<open>src/src/strmap.c\<close>: an AVL tree of heap nodes with parent pointers.
  This theory holds the model only. The heap is explicit: a node is a record at an address,
  every pointer of the C structure is a field of that record, and every assignment through
  a pointer is an update of the heap, in the order of the source. Dereferencing NULL or an
  address that is not allocated gives \<open>None\<close>. The structure \<open>strmap\<close> is passed and returned
  by value; \<open>None\<close> is a NULL map pointer.

  A fresh node is placed at the address \<open>brk\<close>, so the allocator never returns an address in
  use; an allocation that fails ends the process (\<open>Util.spawn_malloc\<close>) and is not continued
  here. The strings of a node are owned by it and stored in its fields.
\<close>

section \<open>Data\<close>

record strmap_node =
  sn_key :: "string option"
  sn_key_len :: u64
  sn_value :: "string option"
  sn_value_len :: u64
  sn_height :: int
  sn_parent :: ptr
  sn_left :: ptr
  sn_right :: ptr

record strmap =
  sm_root :: ptr
  sm_len :: u64

record heap =
  cells :: "nat \<rightharpoonup> strmap_node"
  brk :: nat

definition STRMAP_SUCCESS :: int where "STRMAP_SUCCESS = 0"
definition STRMAP_FAILURE :: int where "STRMAP_FAILURE = 1"

definition AVL_CHILD_LEFT :: int where "AVL_CHILD_LEFT = 0"
definition AVL_CHILD_RIGHT :: int where "AVL_CHILD_RIGHT = 1"

text \<open>Reading a field through a pointer, and assigning through a pointer.\<close>

definition rd :: "heap \<Rightarrow> ptr \<Rightarrow> (strmap_node \<Rightarrow> 'a) \<Rightarrow> 'a option" where
  "rd h p f = (case p of None \<Rightarrow> None | Some a \<Rightarrow> map_option f (cells h a))"

definition wr :: "ptr \<Rightarrow> (strmap_node \<Rightarrow> strmap_node) \<Rightarrow> heap \<Rightarrow> heap option" where
  "wr p f h = (case p of None \<Rightarrow> None
     | Some a \<Rightarrow> (case cells h a of None \<Rightarrow> None
         | Some n \<Rightarrow> Some (h\<lparr>cells := (cells h)(a \<mapsto> f n)\<rparr>)))"

section \<open>Allocating and deleting maps\<close>

definition strmap_node_new :: "string option \<Rightarrow> string option \<Rightarrow> heap \<Rightarrow> ptr \<times> heap" where
  "strmap_node_new key val h =
     (let node = \<lparr>sn_key = key,
            sn_key_len = (case key of None \<Rightarrow> 0 | Some k \<Rightarrow> str_size k),
            sn_value = val,
            sn_value_len = (case val of None \<Rightarrow> 0 | Some v \<Rightarrow> str_size v),
            sn_height = 1, sn_parent = NULL, sn_left = NULL, sn_right = NULL\<rparr>
      in (Some (brk h), h\<lparr>cells := (cells h)(brk h \<mapsto> node), brk := Suc (brk h)\<rparr>))"

partial_function (option) strmap_node_delete :: "ptr \<Rightarrow> heap \<Rightarrow> (int \<times> heap) option" where
  "strmap_node_delete node h =
     (if node \<noteq> NULL then do {
        l \<leftarrow> rd h node sn_left;
        (rc, h) \<leftarrow> strmap_node_delete l h;
        h \<leftarrow> wr node (sn_left_update (\<lambda>_. NULL)) h;
        r \<leftarrow> rd h node sn_right;
        (rc, h) \<leftarrow> strmap_node_delete r h;
        h \<leftarrow> wr node (sn_right_update (\<lambda>_. NULL)) h;
        h \<leftarrow> wr node (sn_value_update (\<lambda>_. NULL)) h;
        h \<leftarrow> wr node (sn_key_update (\<lambda>_. NULL)) h;
        let (mem, pp) = spawn_free (cells h) (Some node);
        Some (STRMAP_SUCCESS, h\<lparr>cells := mem\<rparr>)
      } else Some (STRMAP_SUCCESS, h))"

definition strmap_new :: "strmap" where
  "strmap_new = \<lparr>sm_root = NULL, sm_len = 0\<rparr>"

text \<open>The argument is the caller's variable, NULL when the caller passes no variable.\<close>

definition strmap_delete ::
  "strmap option option \<Rightarrow> heap \<Rightarrow> (strmap option option \<times> heap) option" where
  "strmap_delete ptree h =
     (case ptree of
        None \<Rightarrow> Some (None, h)
      | Some None \<Rightarrow> Some (Some NULL, h)
      | Some (Some tree) \<Rightarrow> do {
          (rc, h) \<leftarrow> strmap_node_delete (sm_root tree) h;
          Some (Some NULL, h)
        })"

section \<open>Walking the tree\<close>

text \<open>The two loops of \<open>leftmost\<close> and \<open>rightmost\<close>, and of \<open>root\<close>.\<close>

partial_function (option) root_loop :: "heap \<Rightarrow> ptr \<Rightarrow> ptr option" where
  "root_loop h target = do {
     p \<leftarrow> rd h target sn_parent;
     if p \<noteq> NULL then root_loop h p else Some target
   }"

definition strmap_node_root :: "heap \<Rightarrow> ptr \<Rightarrow> ptr option" where
  "strmap_node_root h node = (if node = NULL then Some NULL else root_loop h node)"

partial_function (option) leftmost_loop :: "heap \<Rightarrow> ptr \<Rightarrow> ptr option" where
  "leftmost_loop h target = do {
     l \<leftarrow> rd h target sn_left;
     if l \<noteq> NULL then leftmost_loop h l else Some target
   }"

definition strmap_node_leftmost :: "heap \<Rightarrow> ptr \<Rightarrow> ptr option" where
  "strmap_node_leftmost h node = (if node = NULL then Some NULL else leftmost_loop h node)"

partial_function (option) rightmost_loop :: "heap \<Rightarrow> ptr \<Rightarrow> ptr option" where
  "rightmost_loop h target = do {
     r \<leftarrow> rd h target sn_right;
     if r \<noteq> NULL then rightmost_loop h r else Some target
   }"

definition strmap_node_rightmost :: "heap \<Rightarrow> ptr \<Rightarrow> ptr option" where
  "strmap_node_rightmost h node = (if node = NULL then Some NULL else rightmost_loop h node)"

section \<open>Heights and rotations\<close>

definition strmap_node_set_height :: "ptr \<Rightarrow> heap \<Rightarrow> heap option" where
  "strmap_node_set_height node h =
     (if node \<noteq> NULL then do {
        l \<leftarrow> rd h node sn_left;
        height \<leftarrow> (if l \<noteq> NULL then rd h l sn_height else Some 0);
        r \<leftarrow> rd h node sn_right;
        height \<leftarrow> (if r \<noteq> NULL then do {
            right_height \<leftarrow> rd h r sn_height;
            Some (if right_height > height then right_height else height)
          } else Some height);
        wr node (sn_height_update (\<lambda>_. height + 1)) h
      } else Some h)"

text \<open>The pointer of the parent that referred to \<open>node\<close> is redirected to \<open>target\<close>.\<close>

definition replace_child :: "ptr \<Rightarrow> ptr \<Rightarrow> ptr \<Rightarrow> heap \<Rightarrow> heap option" where
  "replace_child par node target h = do {
     pl \<leftarrow> rd h par sn_left;
     if pl = node then wr par (sn_left_update (\<lambda>_. target)) h
     else wr par (sn_right_update (\<lambda>_. target)) h
   }"

text \<open>
  Two statements that both rotations share: the parent pointer of a node is set if the node
  exists, and the parent of a rotated node, if any, gets its new child and height.
\<close>

definition set_parent :: "ptr \<Rightarrow> ptr \<Rightarrow> heap \<Rightarrow> heap option" where
  "set_parent node par h =
     (if node \<noteq> NULL then wr node (sn_parent_update (\<lambda>_. par)) h else Some h)"

definition relink_parent :: "ptr \<Rightarrow> ptr \<Rightarrow> ptr \<Rightarrow> heap \<Rightarrow> heap option" where
  "relink_parent par node target h =
     (if par \<noteq> NULL then do {
        h \<leftarrow> replace_child par node target h;
        strmap_node_set_height par h
      } else Some h)"

definition strmap_node_rotate_left :: "ptr \<Rightarrow> heap \<Rightarrow> (ptr \<times> heap) option" where
  "strmap_node_rotate_left node h =
     (if node = NULL then Some (NULL, h) else do {
        target \<leftarrow> rd h node sn_right;
        if target \<noteq> NULL then do {
          par \<leftarrow> rd h node sn_parent;
          tl \<leftarrow> rd h target sn_left;
          h \<leftarrow> wr node (sn_right_update (\<lambda>_. tl)) h;
          h \<leftarrow> wr node (sn_parent_update (\<lambda>_. target)) h;
          tl \<leftarrow> rd h target sn_left;
          h \<leftarrow> set_parent tl node h;
          h \<leftarrow> strmap_node_set_height node h;
          h \<leftarrow> wr target (sn_left_update (\<lambda>_. node)) h;
          h \<leftarrow> wr target (sn_parent_update (\<lambda>_. par)) h;
          h \<leftarrow> strmap_node_set_height target h;
          h \<leftarrow> relink_parent par node target h;
          Some (target, h)
        } else Some (NULL, h)
      })"

definition strmap_node_rotate_right :: "ptr \<Rightarrow> heap \<Rightarrow> (ptr \<times> heap) option" where
  "strmap_node_rotate_right node h =
     (if node = NULL then Some (NULL, h) else do {
        target \<leftarrow> rd h node sn_left;
        if target \<noteq> NULL then do {
          par \<leftarrow> rd h node sn_parent;
          tr \<leftarrow> rd h target sn_right;
          h \<leftarrow> wr node (sn_left_update (\<lambda>_. tr)) h;
          h \<leftarrow> wr node (sn_parent_update (\<lambda>_. target)) h;
          tr \<leftarrow> rd h target sn_right;
          h \<leftarrow> set_parent tr node h;
          h \<leftarrow> strmap_node_set_height node h;
          h \<leftarrow> wr target (sn_right_update (\<lambda>_. node)) h;
          h \<leftarrow> wr target (sn_parent_update (\<lambda>_. par)) h;
          h \<leftarrow> strmap_node_set_height target h;
          h \<leftarrow> relink_parent par node target h;
          Some (target, h)
        } else Some (NULL, h)
      })"

section \<open>Search\<close>

definition strcmp_ptr :: "string option \<Rightarrow> string option \<Rightarrow> int option" where
  "strcmp_ptr a b = (case (a, b) of (Some s, Some t) \<Rightarrow> Some (strcmp s t) | _ \<Rightarrow> None)"

text \<open>
  The result is the returned node with the two output parameters: the parent, and which
  child of the parent the node is or would be (\<open>None\<close> when the search does not set it).
\<close>

partial_function (option) strmap_node_search ::
  "heap \<Rightarrow> ptr \<Rightarrow> string option \<Rightarrow> (ptr \<times> ptr \<times> int option) option" where
  "strmap_node_search h node key =
     (if node \<noteq> NULL then do {
        k \<leftarrow> rd h node sn_key;
        cmp \<leftarrow> strcmp_ptr key k;
        if cmp = 0 then Some (node, NULL, None)
        else if cmp < 0 then do {
          l \<leftarrow> rd h node sn_left;
          if l = NULL then Some (NULL, node, Some AVL_CHILD_LEFT)
          else do {
            lk \<leftarrow> rd h l sn_key;
            cmp_child \<leftarrow> strcmp_ptr key lk;
            if cmp_child = 0 then Some (l, node, Some AVL_CHILD_LEFT)
            else strmap_node_search h l key
          }
        }
        else do {
          r \<leftarrow> rd h node sn_right;
          if r = NULL then Some (NULL, node, Some AVL_CHILD_RIGHT)
          else do {
            rk \<leftarrow> rd h r sn_key;
            cmp_child \<leftarrow> strcmp_ptr key rk;
            if cmp_child = 0 then Some (r, node, Some AVL_CHILD_RIGHT)
            else strmap_node_search h r key
          }
        }
      } else Some (NULL, NULL, None))"

section \<open>Rebalancing\<close>

definition strmap_node_balance_factor :: "heap \<Rightarrow> ptr \<Rightarrow> int option" where
  "strmap_node_balance_factor h node =
     (if node = NULL then Some 0 else do {
        l \<leftarrow> rd h node sn_left;
        r \<leftarrow> rd h node sn_right;
        lh \<leftarrow> (if l \<noteq> NULL then rd h l sn_height else Some 0);
        rh \<leftarrow> (if r \<noteq> NULL then rd h r sn_height else Some 0);
        Some (lh - rh)
      })"

text \<open>The part of \<open>strmap_node_rebalance\<close> that works on one level of the tree.\<close>

definition rebalance_node :: "ptr \<Rightarrow> heap \<Rightarrow> (ptr \<times> heap) option" where
  "rebalance_node node h = do {
     factor \<leftarrow> strmap_node_balance_factor h node;
     if factor < -1 then do {
       target \<leftarrow> rd h node sn_right;
       target_factor \<leftarrow> strmap_node_balance_factor h target;
       h \<leftarrow> (if target_factor > 0 then do {
            (x, h) \<leftarrow> strmap_node_rotate_right target h;
            Some h
          } else Some h);
       strmap_node_rotate_left node h
     }
     else if factor > 1 then do {
       target \<leftarrow> rd h node sn_left;
       target_factor \<leftarrow> strmap_node_balance_factor h target;
       h \<leftarrow> (if target_factor < 0 then do {
            (x, h) \<leftarrow> strmap_node_rotate_left target h;
            Some h
          } else Some h);
       strmap_node_rotate_right node h
     }
     else do {
       h \<leftarrow> strmap_node_set_height node h;
       Some (node, h)
     }
   }"

partial_function (option) strmap_node_rebalance :: "ptr \<Rightarrow> heap \<Rightarrow> (ptr \<times> heap) option" where
  "strmap_node_rebalance node h =
     (if node = NULL then Some (NULL, h) else do {
        par \<leftarrow> rd h node sn_parent;
        (top, h) \<leftarrow> rebalance_node node h;
        if par \<noteq> NULL then strmap_node_rebalance par h else Some (top, h)
      })"

definition strmap_height :: "heap \<Rightarrow> strmap option \<Rightarrow> int option" where
  "strmap_height h tree =
     (case tree of None \<Rightarrow> Some 0
      | Some t \<Rightarrow> (if sm_root t \<noteq> NULL then rd h (sm_root t) sn_height else Some 0))"

definition strmap_node_extract_single :: "ptr \<Rightarrow> heap \<Rightarrow> (ptr \<times> heap) option" where
  "strmap_node_extract_single node h =
     (if node \<noteq> NULL then do {
        l \<leftarrow> rd h node sn_left;
        r \<leftarrow> rd h node sn_right;
        let child = (if l \<noteq> NULL then l else if r \<noteq> NULL then r else NULL);
        par \<leftarrow> rd h node sn_parent;
        h \<leftarrow> set_parent child par h;
        h \<leftarrow> (if par \<noteq> NULL then replace_child par node child h else Some h);
        Some (child, h)
      } else Some (NULL, h))"

section \<open>Iteration\<close>

definition strmap_node_first :: "heap \<Rightarrow> strmap option \<Rightarrow> ptr option" where
  "strmap_node_first h tree =
     (case tree of None \<Rightarrow> Some NULL | Some t \<Rightarrow> strmap_node_leftmost h (sm_root t))"

definition strmap_node_last :: "heap \<Rightarrow> strmap option \<Rightarrow> ptr option" where
  "strmap_node_last h tree =
     (case tree of None \<Rightarrow> Some NULL | Some t \<Rightarrow> strmap_node_rightmost h (sm_root t))"

partial_function (option) previous_loop :: "heap \<Rightarrow> ptr \<Rightarrow> ptr \<Rightarrow> ptr option" where
  "previous_loop h current par =
     (if par \<noteq> NULL then do {
        r \<leftarrow> rd h par sn_right;
        if r = current then Some par
        else do {
          par' \<leftarrow> rd h par sn_parent;
          previous_loop h par par'
        }
      } else Some NULL)"

definition strmap_node_previous :: "heap \<Rightarrow> ptr \<Rightarrow> ptr option" where
  "strmap_node_previous h node =
     (if node = NULL then Some NULL else do {
        l \<leftarrow> rd h node sn_left;
        target \<leftarrow> strmap_node_rightmost h l;
        if target \<noteq> NULL then Some target
        else do {
          par \<leftarrow> rd h node sn_parent;
          previous_loop h node par
        }
      })"

partial_function (option) next_loop :: "heap \<Rightarrow> ptr \<Rightarrow> ptr \<Rightarrow> ptr option" where
  "next_loop h current par =
     (if par \<noteq> NULL then do {
        l \<leftarrow> rd h par sn_left;
        if l = current then Some par
        else do {
          par' \<leftarrow> rd h par sn_parent;
          next_loop h par par'
        }
      } else Some NULL)"

definition strmap_node_next :: "heap \<Rightarrow> ptr \<Rightarrow> ptr option" where
  "strmap_node_next h node =
     (if node = NULL then Some NULL else do {
        r \<leftarrow> rd h node sn_right;
        target \<leftarrow> strmap_node_leftmost h r;
        if target \<noteq> NULL then Some target
        else do {
          par \<leftarrow> rd h node sn_parent;
          next_loop h node par
        }
      })"

definition strmap_node_key :: "heap \<Rightarrow> ptr \<Rightarrow> string option option" where
  "strmap_node_key h node = (if node \<noteq> NULL then rd h node sn_key else Some NULL)"

definition strmap_node_value :: "heap \<Rightarrow> ptr \<Rightarrow> string option option" where
  "strmap_node_value h node = (if node \<noteq> NULL then rd h node sn_value else Some NULL)"

section \<open>Set, get, unset\<close>

definition strmap_set ::
  "strmap option \<Rightarrow> string option \<Rightarrow> string option \<Rightarrow> heap \<Rightarrow> (int \<times> strmap option \<times> heap) option"
  where
  "strmap_set tree key val h =
     (case tree of
        None \<Rightarrow> Some (STRMAP_SUCCESS, tree, h)
      | Some t \<Rightarrow> do {
          (node, par, child) \<leftarrow> strmap_node_search h (sm_root t) key;
          if node = NULL then do {
            let (node, h) = strmap_node_new key val h;
            kl \<leftarrow> rd h node sn_key_len;
            vl \<leftarrow> rd h node sn_value_len;
            let t = t\<lparr>sm_len := sm_len t + (kl + vl)\<rparr>;
            if par \<noteq> NULL then do {
              h \<leftarrow> wr node (sn_parent_update (\<lambda>_. par)) h;
              c \<leftarrow> child;
              h \<leftarrow> (if c = AVL_CHILD_LEFT then wr par (sn_left_update (\<lambda>_. node)) h
                   else wr par (sn_right_update (\<lambda>_. node)) h);
              (root, h) \<leftarrow> strmap_node_rebalance par h;
              Some (STRMAP_SUCCESS, Some (t\<lparr>sm_root := root\<rparr>), h)
            } else Some (STRMAP_SUCCESS, Some (t\<lparr>sm_root := node\<rparr>), h)
          }
          else do {
            vl \<leftarrow> rd h node sn_value_len;
            let t = t\<lparr>sm_len := sm_len t - vl\<rparr>;
            h \<leftarrow> wr node (sn_value_update (\<lambda>_. NULL)) h;
            h \<leftarrow> wr node (sn_value_len_update (\<lambda>_. 0)) h;
            h \<leftarrow> (case val of None \<Rightarrow> Some h
                 | Some v \<Rightarrow> do {
                     h \<leftarrow> wr node (sn_value_update (\<lambda>_. Some v)) h;
                     wr node (sn_value_len_update (\<lambda>_. str_size v)) h
                   });
            vl \<leftarrow> rd h node sn_value_len;
            Some (STRMAP_SUCCESS, Some (t\<lparr>sm_len := sm_len t + vl\<rparr>), h)
          }
        })"

text \<open>
  The \<open>printf\<close>-style operations take the format and its arguments; \<open>vsnprintf\<close> is a
  parameter that gives the formatted string, or \<open>None\<close> for its error return. \<open>strsep\<close>
  cuts the string at the first \<open>'='\<close>; without one the value is NULL and the source returns
  a variable it never assigned, so the result is undefined.
\<close>

definition strsep :: "string \<Rightarrow> char \<Rightarrow> string \<times> string option" where
  "strsep str delim =
     (takeWhile (\<lambda>c. c \<noteq> delim) str,
      (case dropWhile (\<lambda>c. c \<noteq> delim) str of [] \<Rightarrow> NULL | d # rest \<Rightarrow> Some rest))"

definition strmap_setf ::
  "('f \<Rightarrow> 'a \<Rightarrow> string option) \<Rightarrow> strmap option \<Rightarrow> 'f option \<Rightarrow> 'a \<Rightarrow> heap
     \<Rightarrow> (int \<times> strmap option \<times> heap) option" where
  "strmap_setf vsnprintf smap format args h =
     (case format of
        None \<Rightarrow> Some (STRMAP_FAILURE, smap, h)
      | Some f \<Rightarrow>
          (case vsnprintf f args of
             None \<Rightarrow> Some (STRMAP_FAILURE, smap, h)
           | Some str \<Rightarrow>
               (let (key, val) = strsep str (CHR ''='') in
                if val \<noteq> NULL then strmap_set smap (Some key) val h else None)))"

definition strmap_get :: "heap \<Rightarrow> strmap option \<Rightarrow> string option \<Rightarrow> string option option" where
  "strmap_get h tree key =
     (case tree of
        None \<Rightarrow> Some NULL
      | Some t \<Rightarrow> do {
          (node, par, child) \<leftarrow> strmap_node_search h (sm_root t) key;
          if node \<noteq> NULL then rd h node sn_value else Some NULL
        })"

definition strmap_getf ::
  "('f \<Rightarrow> 'a \<Rightarrow> string option) \<Rightarrow> heap \<Rightarrow> strmap option \<Rightarrow> 'f option \<Rightarrow> 'a
     \<Rightarrow> string option option" where
  "strmap_getf vsnprintf h smap format args =
     (case format of
        None \<Rightarrow> strmap_get h smap NULL
      | Some f \<Rightarrow>
          (case vsnprintf f args of
             None \<Rightarrow> strmap_get h smap NULL
           | Some str \<Rightarrow> strmap_get h smap (Some str)))"

text \<open>
  The three parts of \<open>strmap_unset\<close>. The first two belong to a node with two children: the
  rightmost node of its left subtree is cut out and takes the left subtree, unless it is the
  left child itself; then it takes the right subtree and the place below the parent. The
  former parent of the replacement is returned.
\<close>

definition take_left :: "ptr \<Rightarrow> ptr \<Rightarrow> heap \<Rightarrow> heap option" where
  "take_left node replacement h = do {
     l \<leftarrow> rd h node sn_left;
     if replacement \<noteq> l then do {
       (x, h) \<leftarrow> strmap_node_extract_single replacement h;
       nl \<leftarrow> rd h node sn_left;
       h \<leftarrow> wr replacement (sn_left_update (\<lambda>_. nl)) h;
       nl \<leftarrow> rd h node sn_left;
       wr nl (sn_parent_update (\<lambda>_. replacement)) h
     } else Some h
   }"

definition take_place :: "ptr \<Rightarrow> ptr \<Rightarrow> ptr \<Rightarrow> int option \<Rightarrow> heap \<Rightarrow> (ptr \<times> heap) option" where
  "take_place node replacement par child h = do {
     nr \<leftarrow> rd h node sn_right;
     h \<leftarrow> wr replacement (sn_right_update (\<lambda>_. nr)) h;
     nr \<leftarrow> rd h node sn_right;
     h \<leftarrow> wr nr (sn_parent_update (\<lambda>_. replacement)) h;
     replacement_parent \<leftarrow> rd h replacement sn_parent;
     h \<leftarrow> wr replacement (sn_parent_update (\<lambda>_. par)) h;
     h \<leftarrow> (if par \<noteq> NULL then do {
         c \<leftarrow> child;
         if c = AVL_CHILD_LEFT then wr par (sn_left_update (\<lambda>_. replacement)) h
         else wr par (sn_right_update (\<lambda>_. replacement)) h
       } else Some h);
     Some (replacement_parent, h)
   }"

definition unset_two :: "ptr \<Rightarrow> ptr \<Rightarrow> int option \<Rightarrow> heap \<Rightarrow> (ptr \<times> heap) option" where
  "unset_two node par child h = do {
     l \<leftarrow> rd h node sn_left;
     replacement \<leftarrow> strmap_node_rightmost h l;
     h \<leftarrow> take_left node replacement h;
     (replacement_parent, h) \<leftarrow> take_place node replacement par child h;
     if replacement_parent \<noteq> node then strmap_node_rebalance replacement_parent h
     else strmap_node_rebalance replacement h
   }"

definition unset_one :: "ptr \<Rightarrow> ptr \<Rightarrow> heap \<Rightarrow> (ptr \<times> heap) option" where
  "unset_one node par h = do {
     (newnode, h) \<leftarrow> strmap_node_extract_single node h;
     if par \<noteq> NULL then strmap_node_rebalance par h else Some (newnode, h)
   }"

definition strmap_unset ::
  "strmap option \<Rightarrow> string option \<Rightarrow> heap \<Rightarrow> (int \<times> strmap option \<times> heap) option" where
  "strmap_unset tree key h =
     (case tree of
        None \<Rightarrow> Some (STRMAP_SUCCESS, tree, h)
      | Some t \<Rightarrow> do {
          (node, par, child) \<leftarrow> strmap_node_search h (sm_root t) key;
          if node \<noteq> NULL then do {
            kl \<leftarrow> rd h node sn_key_len;
            vl \<leftarrow> rd h node sn_value_len;
            let t = t\<lparr>sm_len := sm_len t - (kl + vl)\<rparr>;
            l \<leftarrow> rd h node sn_left;
            r \<leftarrow> rd h node sn_right;
            (root, h) \<leftarrow> (if l \<noteq> NULL \<and> r \<noteq> NULL then unset_two node par child h
                          else unset_one node par h);
            let t = t\<lparr>sm_root := root\<rparr>;
            h \<leftarrow> wr node (\<lambda>n. n\<lparr>sn_height := 1, sn_parent := NULL, sn_left := NULL,
                               sn_right := NULL\<rparr>) h;
            (rc, h) \<leftarrow> strmap_node_delete node h;
            Some (STRMAP_SUCCESS, Some t, h)
          }
          else Some (STRMAP_SUCCESS, tree, h)
        })"

definition strmap_unsetf ::
  "('f \<Rightarrow> 'a \<Rightarrow> string option) \<Rightarrow> strmap option \<Rightarrow> 'f option \<Rightarrow> 'a \<Rightarrow> heap
     \<Rightarrow> (int \<times> strmap option \<times> heap) option" where
  "strmap_unsetf vsnprintf smap format args h =
     (case format of
        None \<Rightarrow> strmap_unset smap NULL h
      | Some f \<Rightarrow>
          (case vsnprintf f args of
             None \<Rightarrow> strmap_unset smap NULL h
           | Some str \<Rightarrow> strmap_unset smap (Some str) h))"

section \<open>Merging, packing, printing\<close>

partial_function (option) merge_loop ::
  "ptr \<Rightarrow> strmap option \<Rightarrow> heap \<Rightarrow> (strmap option \<times> heap) option" where
  "merge_loop node dst h =
     (if node \<noteq> NULL then do {
        key \<leftarrow> strmap_node_key h node;
        val \<leftarrow> strmap_node_value h node;
        (rc, dst, h) \<leftarrow> strmap_set dst key val h;
        node \<leftarrow> strmap_node_next h node;
        merge_loop node dst h
      } else Some (dst, h))"

definition strmap_merge ::
  "strmap option \<Rightarrow> strmap option \<Rightarrow> heap \<Rightarrow> (strmap option \<times> heap) option" where
  "strmap_merge dst src h = do {
     node \<leftarrow> strmap_node_first h src;
     merge_loop node dst h
   }"

definition strmap_pack_size :: "strmap option \<Rightarrow> u64" where
  "strmap_pack_size tree = (case tree of None \<Rightarrow> 8 | Some t \<Rightarrow> 8 + sm_len t)"

text \<open>\<open>memcpy(ptr, str, n)\<close>: the bytes copied from the memory of a string.\<close>

definition memcpy_str :: "string option \<Rightarrow> nat \<Rightarrow> byte list option" where
  "memcpy_str str n =
     (if n = 0 then Some []
      else case str of None \<Rightarrow> None
        | Some s \<Rightarrow> if n \<le> length (mem_str s) then Some (take n (mem_str s)) else None)"

partial_function (option) pack_loop :: "heap \<Rightarrow> ptr \<Rightarrow> byte list \<Rightarrow> byte list option" where
  "pack_loop h current out =
     (if current \<noteq> NULL then do {
        key_len \<leftarrow> rd h current sn_key_len;
        key \<leftarrow> rd h current sn_key;
        kbytes \<leftarrow> memcpy_str key (unat key_len);
        value_len \<leftarrow> rd h current sn_value_len;
        val \<leftarrow> rd h current sn_value;
        vbytes \<leftarrow> memcpy_str val (unat value_len);
        current \<leftarrow> strmap_node_next h current;
        pack_loop h current (out @ kbytes @ vbytes)
      } else Some out)"

text \<open>The bytes written at \<open>buf\<close>, and the size returned.\<close>

definition strmap_pack :: "heap \<Rightarrow> strmap option \<Rightarrow> (byte list \<times> u64) option" where
  "strmap_pack h tree = do {
     let psize = strmap_pack_size tree;
     current \<leftarrow> strmap_node_first h tree;
     out \<leftarrow> pack_loop h current (spawn_pack_uint64 psize);
     Some (out, psize)
   }"

text \<open>
  The loop of \<open>strmap_unpack\<close>; \<open>pos\<close> is the offset of \<open>ptr\<close> from \<open>buf\<close>. A string that is not
  terminated inside the buffer would be read past its end, which is undefined.
\<close>

definition str_at :: "byte list \<Rightarrow> nat \<Rightarrow> string option" where
  "str_at buf pos = (if NUL \<in> set (drop pos buf) then Some (load_str (drop pos buf)) else None)"

partial_function (option) unpack_loop ::
  "byte list \<Rightarrow> nat \<Rightarrow> nat \<Rightarrow> strmap option \<Rightarrow> heap \<Rightarrow> (strmap option \<times> heap) option" where
  "unpack_loop buf pos end_pos tree h =
     (if pos < end_pos then do {
        key \<leftarrow> str_at buf pos;
        let pos = pos + length key + 1;
        val \<leftarrow> str_at buf pos;
        let pos = pos + length val + 1;
        (rc, tree, h) \<leftarrow> strmap_set tree (Some key) (Some val) h;
        unpack_loop buf pos end_pos tree h
      } else Some (tree, h))"

definition strmap_unpack ::
  "byte list \<Rightarrow> strmap option \<Rightarrow> heap \<Rightarrow> (u64 \<times> strmap option \<times> heap) option" where
  "strmap_unpack buf tree h = do {
     let (psize, n) = spawn_unpack_uint64 buf;
     (tree, h) \<leftarrow> unpack_loop buf n (unat psize) tree h;
     Some (psize, tree, h)
   }"

text \<open>What \<open>strmap_print\<close> prints: the numbered entries, their number and the packed size.\<close>

partial_function (option) print_loop ::
  "heap \<Rightarrow> ptr \<Rightarrow> (nat \<times> string option \<times> string option) list
     \<Rightarrow> (nat \<times> string option \<times> string option) list option" where
  "print_loop h node out =
     (if node \<noteq> NULL then do {
        key \<leftarrow> strmap_node_key h node;
        val \<leftarrow> strmap_node_value h node;
        node \<leftarrow> strmap_node_next h node;
        print_loop h node (out @ [(length out, key, val)])
      } else Some out)"

definition strmap_print ::
  "heap \<Rightarrow> strmap option
     \<Rightarrow> ((nat \<times> string option \<times> string option) list \<times> nat \<times> u64) option" where
  "strmap_print h smap = do {
     node \<leftarrow> strmap_node_first h smap;
     lines \<leftarrow> print_loop h node [];
     Some (lines, length lines, strmap_pack_size smap)
   }"

text \<open>The equations of the loops are their code equations.\<close>

declare strmap_node_delete.simps [code]
  root_loop.simps [code]
  leftmost_loop.simps [code]
  rightmost_loop.simps [code]
  strmap_node_search.simps [code]
  strmap_node_rebalance.simps [code]
  previous_loop.simps [code]
  next_loop.simps [code]
  merge_loop.simps [code]
  pack_loop.simps [code]
  unpack_loop.simps [code]
  print_loop.simps [code]

end
