(* ===== verification/Strmap_Tree.thy ===== *)
theory Strmap_Tree
  imports Strmap
begin

text \<open>
  The abstract view of the tree of \<open>strmap.c\<close>: a binary tree whose nodes carry the address
  of the heap node they stand for, and a context (the path from a subtree to the root) that
  stands for following parent pointers. The theory defines the balancing operations on this
  view and proves that they keep the AVL invariant and the order of the entries. No heap
  occurs here; \<open>Strmap_Refine\<close> connects this view with the code.
\<close>

section \<open>Trees and contexts\<close>

datatype stree = Tip | Bin stree nat string "string option" int stree

datatype frame = FL nat string "string option" stree | FR stree nat string "string option"

fun addrs :: "stree \<Rightarrow> nat list" where
  "addrs Tip = []"
| "addrs (Bin l a k v n r) = addrs l @ a # addrs r"

fun root_ptr :: "stree \<Rightarrow> ptr" where
  "root_ptr Tip = NULL"
| "root_ptr (Bin l a k v n r) = Some a"

fun ht :: "stree \<Rightarrow> int" where
  "ht Tip = 0"
| "ht (Bin l a k v n r) = n"

fun inord :: "stree \<Rightarrow> (string \<times> string option) list" where
  "inord Tip = []"
| "inord (Bin l a k v n r) = inord l @ (k, v) # inord r"

fun avl :: "stree \<Rightarrow> bool" where
  "avl Tip = True"
| "avl (Bin l a k v n r) \<longleftrightarrow>
     n = 1 + max (ht l) (ht r) \<and> \<bar>ht l - ht r\<bar> \<le> 1 \<and> avl l \<and> avl r"

definition mkn :: "stree \<Rightarrow> nat \<Rightarrow> string \<Rightarrow> string option \<Rightarrow> stree \<Rightarrow> stree" where
  "mkn l a k v r = Bin l a k v (1 + max (ht l) (ht r)) r"

fun plug :: "stree \<Rightarrow> frame list \<Rightarrow> stree" where
  "plug t [] = t"
| "plug t (FL a k v r # fs) = plug (mkn t a k v r) fs"
| "plug t (FR l a k v # fs) = plug (mkn l a k v t) fs"

fun cpar :: "frame list \<Rightarrow> ptr" where
  "cpar [] = NULL"
| "cpar (FL a k v r # fs) = Some a"
| "cpar (FR l a k v # fs) = Some a"

fun caddrs :: "frame list \<Rightarrow> nat list" where
  "caddrs [] = []"
| "caddrs (FL a k v r # fs) = a # addrs r @ caddrs fs"
| "caddrs (FR l a k v # fs) = a # addrs l @ caddrs fs"

text \<open>The entries before and after the hole of a context.\<close>

fun cbefore :: "frame list \<Rightarrow> (string \<times> string option) list" where
  "cbefore [] = []"
| "cbefore (FL a k v r # fs) = cbefore fs"
| "cbefore (FR l a k v # fs) = cbefore fs @ inord l @ [(k, v)]"

fun cafter :: "frame list \<Rightarrow> (string \<times> string option) list" where
  "cafter [] = []"
| "cafter (FL a k v r # fs) = (k, v) # inord r @ cafter fs"
| "cafter (FR l a k v # fs) = cafter fs"

text \<open>A context that is balanced around a hole of height \<open>h\<close>.\<close>

fun cavl :: "int \<Rightarrow> frame list \<Rightarrow> bool" where
  "cavl h [] = True"
| "cavl h (FL a k v r # fs) \<longleftrightarrow> avl r \<and> \<bar>h - ht r\<bar> \<le> 1 \<and> cavl (1 + max h (ht r)) fs"
| "cavl h (FR l a k v # fs) \<longleftrightarrow> avl l \<and> \<bar>ht l - h\<bar> \<le> 1 \<and> cavl (1 + max (ht l) h) fs"

section \<open>Balancing\<close>

fun rotl :: "stree \<Rightarrow> stree" where
  "rotl (Bin A a k v n (Bin B b k' v' m C)) = mkn (mkn A a k v B) b k' v' C"
| "rotl t = t"

fun rotr :: "stree \<Rightarrow> stree" where
  "rotr (Bin (Bin A a k v n B) b k' v' m C) = mkn A a k v (mkn B b k' v' C)"
| "rotr t = t"

fun bfactor :: "stree \<Rightarrow> int" where
  "bfactor Tip = 0"
| "bfactor (Bin l a k v n r) = ht l - ht r"

definition bal :: "stree \<Rightarrow> nat \<Rightarrow> string \<Rightarrow> string option \<Rightarrow> stree \<Rightarrow> stree" where
  "bal l a k v r =
     (if ht l - ht r < -1 then rotl (mkn l a k v (if bfactor r > 0 then rotr r else r))
      else if ht l - ht r > 1 then rotr (mkn (if bfactor l < 0 then rotl l else l) a k v r)
      else mkn l a k v r)"

fun rebal :: "stree \<Rightarrow> frame list \<Rightarrow> stree" where
  "rebal t [] = t"
| "rebal t (FL a k v r # fs) = rebal (bal t a k v r) fs"
| "rebal t (FR l a k v # fs) = rebal (bal l a k v t) fs"

section \<open>The operations\<close>

fun descend :: "string \<Rightarrow> stree \<Rightarrow> frame list \<Rightarrow> stree \<times> frame list" where
  "descend k Tip fs = (Tip, fs)"
| "descend k (Bin l a k' v n r) fs =
     (if k = k' then (Bin l a k' v n r, fs)
      else if k < k' then descend k l (FL a k' v r # fs)
      else descend k r (FR l a k' v # fs))"

definition insert_tree :: "nat \<Rightarrow> string \<Rightarrow> string option \<Rightarrow> stree \<Rightarrow> stree" where
  "insert_tree new k v t =
     (case descend k t [] of
        (Tip, fs) \<Rightarrow> rebal (Bin Tip new k v 1 Tip) fs
      | (Bin l a k' v' n r, fs) \<Rightarrow> plug (Bin l a k' v n r) fs)"

text \<open>The rightmost node of a nonempty tree: its entry, its left subtree and its context.\<close>

fun rmost :: "stree \<Rightarrow> frame list \<Rightarrow> (stree \<times> nat \<times> string \<times> string option) \<times> frame list" where
  "rmost (Bin l a k v n Tip) fs = ((l, a, k, v), fs)"
| "rmost (Bin l a k v n r) fs = rmost r (FR l a k v # fs)"
| "rmost Tip fs = undefined"

definition delete_tree :: "string \<Rightarrow> stree \<Rightarrow> stree" where
  "delete_tree k t =
     (case descend k t [] of
        (Tip, fs) \<Rightarrow> t
      | (Bin l a k' v' n r, fs) \<Rightarrow>
          (if l \<noteq> Tip \<and> r \<noteq> Tip then
             (case rmost l [] of ((l2, a2, k2, v2), gs) \<Rightarrow> rebal l2 (gs @ FL a2 k2 v2 r # fs))
           else rebal (if l \<noteq> Tip then l else r) fs))"

section \<open>Order of the entries\<close>

lemma inord_mkn [simp]: "inord (mkn l a k v r) = inord l @ (k, v) # inord r"
  by (simp add: mkn_def)

lemma inord_rotl [simp]: "inord (rotl t) = inord t"
  by (induction t rule: rotl.induct) auto

lemma inord_rotr [simp]: "inord (rotr t) = inord t"
  by (induction t rule: rotr.induct) auto

lemma inord_bal [simp]: "inord (bal l a k v r) = inord l @ (k, v) # inord r"
  by (simp add: bal_def)

lemma inord_plug: "inord (plug t fs) = cbefore fs @ inord t @ cafter fs"
  by (induction t fs rule: plug.induct) auto

lemma inord_rebal: "inord (rebal t fs) = cbefore fs @ inord t @ cafter fs"
  by (induction t fs rule: rebal.induct) auto

section \<open>The AVL invariant\<close>

lemma avl_ht_nonneg: "avl t \<Longrightarrow> 0 \<le> ht t"
  by (induction t) auto

lemma avl_ht_0_iff: "avl t \<Longrightarrow> ht t = 0 \<longleftrightarrow> t = Tip"
  using avl_ht_nonneg by (cases t) fastforce+

lemma ht_mkn [simp]: "ht (mkn l a k v r) = 1 + max (ht l) (ht r)"
  by (simp add: mkn_def)

lemma avl_mkn [simp]: "avl (mkn l a k v r) \<longleftrightarrow> \<bar>ht l - ht r\<bar> \<le> 1 \<and> avl l \<and> avl r"
  by (auto simp: mkn_def)

lemma avl_unfold: "avl (Bin l a k v n r) \<Longrightarrow> Bin l a k v n r = mkn l a k v r"
  by (simp add: mkn_def)

lemma avl_bal_right:
  assumes "avl l" "avl r" "ht r = ht l + 2"
  shows "avl (bal l a k v r) \<and> ht (bal l a k v r) \<in> {ht r, ht r + 1}"
proof -
  obtain B b k' v' m C where r: "r = Bin B b k' v' m C"
    using assms avl_ht_nonneg [of l] by (cases r) auto
  show ?thesis
  proof (cases "ht B > ht C")
    case True
    then obtain B1 b1 k1 v1 m1 B2 where B: "B = Bin B1 b1 k1 v1 m1 B2"
      using assms r avl_ht_nonneg [of C] by (cases B) auto
    show ?thesis using assms True by (auto simp: r B bal_def mkn_def)
  next
    case False
    then show ?thesis using assms by (auto simp: r bal_def mkn_def)
  qed
qed

lemma avl_bal_left:
  assumes "avl l" "avl r" "ht l = ht r + 2"
  shows "avl (bal l a k v r) \<and> ht (bal l a k v r) \<in> {ht l, ht l + 1}"
proof -
  obtain A b k' v' m B where l: "l = Bin A b k' v' m B"
    using assms avl_ht_nonneg [of r] by (cases l) auto
  show ?thesis
  proof (cases "ht A < ht B")
    case True
    then obtain B1 b1 k1 v1 m1 B2 where B: "B = Bin B1 b1 k1 v1 m1 B2"
      using assms l avl_ht_nonneg [of A] by (cases B) auto
    show ?thesis using assms True by (auto simp: l B bal_def mkn_def)
  next
    case False
    then show ?thesis using assms by (auto simp: l bal_def mkn_def)
  qed
qed

lemma avl_bal_even:
  assumes "avl l" "avl r" "\<bar>ht l - ht r\<bar> \<le> 1"
  shows "avl (bal l a k v r)" "ht (bal l a k v r) = 1 + max (ht l) (ht r)"
  using assms by (auto simp: bal_def)

lemma avl_bal:
  assumes "avl l" "avl r" "\<bar>ht l - ht r\<bar> \<le> 2"
  shows "avl (bal l a k v r)"
    and "ht (bal l a k v r) \<in> {max (ht l) (ht r), 1 + max (ht l) (ht r)}"
proof -
  consider "ht r = ht l + 2" | "ht l = ht r + 2" | "\<bar>ht l - ht r\<bar> \<le> 1"
    using assms(3) by linarith
  then have "avl (bal l a k v r)
    \<and> ht (bal l a k v r) \<in> {max (ht l) (ht r), 1 + max (ht l) (ht r)}"
  proof cases
    case 1
    with avl_bal_right [OF assms(1,2) 1, of a k v] show ?thesis by auto
  next
    case 2
    with avl_bal_left [OF assms(1,2) 2, of a k v] show ?thesis by auto
  next
    case 3
    with avl_bal_even [OF assms(1,2) 3, of a k v] show ?thesis by simp
  qed
  then show "avl (bal l a k v r)"
    and "ht (bal l a k v r) \<in> {max (ht l) (ht r), 1 + max (ht l) (ht r)}"
    by auto
qed

text \<open>
  One level of rebalancing: when the subtree in the hole is at most one off the height \<open>h\<close>
  the context was balanced for, the same holds one level up.
\<close>

lemma bal_level_left:
  assumes "avl t" "avl r" "\<bar>h - ht r\<bar> \<le> 1" "\<bar>ht t - h\<bar> \<le> 1"
  shows "avl (bal t a k v r)" "\<bar>ht (bal t a k v r) - (1 + max h (ht r))\<bar> \<le> 1"
proof -
  have d: "\<bar>ht t - ht r\<bar> \<le> 2" using assms by auto
  show "avl (bal t a k v r)" using avl_bal(1) [OF assms(1,2) d] .
  show "\<bar>ht (bal t a k v r) - (1 + max h (ht r))\<bar> \<le> 1"
    using avl_bal(2) [OF assms(1,2) d, of a k v] avl_bal_even(2) [of t r a k v] assms
    by (cases "\<bar>ht t - ht r\<bar> \<le> 1") auto
qed

lemma bal_level_right:
  assumes "avl l" "avl t" "\<bar>ht l - h\<bar> \<le> 1" "\<bar>ht t - h\<bar> \<le> 1"
  shows "avl (bal l a k v t)" "\<bar>ht (bal l a k v t) - (1 + max (ht l) h)\<bar> \<le> 1"
proof -
  have d: "\<bar>ht l - ht t\<bar> \<le> 2" using assms by auto
  show "avl (bal l a k v t)" using avl_bal(1) [OF assms(1,2) d] .
  show "\<bar>ht (bal l a k v t) - (1 + max (ht l) h)\<bar> \<le> 1"
    using avl_bal(2) [OF assms(1,2) d, of a k v] avl_bal_even(2) [of l t a k v] assms
    by (cases "\<bar>ht l - ht t\<bar> \<le> 1") auto
qed

text \<open>
  Rebalancing on the way to the root restores the invariant whenever the subtree in the hole
  is balanced and its height is at most one off the height the context was balanced for: this
  covers insertion (one higher) and deletion (one lower).
\<close>

lemma avl_rebal:
  assumes "avl t" "cavl h fs" "\<bar>ht t - h\<bar> \<le> 1"
  shows "avl (rebal t fs)"
  using assms
proof (induction t fs arbitrary: h rule: rebal.induct)
  case (2 t a k v r fs)
  then show ?case using bal_level_left [of t r h a k v] by auto
next
  case (3 t l a k v fs)
  then show ?case using bal_level_right [of l t h a k v] by auto
qed simp

lemma avl_plug: "avl (plug t fs) \<longleftrightarrow> avl t \<and> cavl (ht t) fs"
  by (induction t fs rule: plug.induct) auto

section \<open>Search trees\<close>

abbreviation keys :: "(string \<times> string option) list \<Rightarrow> string list" where
  "keys \<equiv> map fst"

definition bst :: "stree \<Rightarrow> bool" where
  "bst t \<longleftrightarrow> sorted_wrt (<) (keys (inord t))"

lemma descend_inord:
  "descend k t fs = (t', fs') \<Longrightarrow>
     cbefore fs' @ inord t' @ cafter fs' = cbefore fs @ inord t @ cafter fs"
  by (induction k t fs rule: descend.induct) (auto split: if_splits)

lemma descend_found: "descend k t fs = (Bin l a k' v n r, fs') \<Longrightarrow> k' = k"
  by (induction k t fs rule: descend.induct) (auto split: if_splits)

lemma descend_avl:
  "descend k t fs = (t', fs') \<Longrightarrow> avl t \<Longrightarrow> cavl (ht t) fs \<Longrightarrow> avl t' \<and> cavl (ht t') fs'"
  by (induction k t fs rule: descend.induct) (auto split: if_splits)

lemma descend_plug: "descend k t fs = (t', fs') \<Longrightarrow> avl t \<Longrightarrow> plug t' fs' = plug t fs"
proof (induction k t fs rule: descend.induct)
  case (2 k l a k' v n r fs)
  then show ?case
    using avl_unfold [of l a k' v n r] by (auto split: if_splits)
qed auto

lemma descend_addrs:
  "descend k t fs = (t', fs') \<Longrightarrow> mset (addrs t' @ caddrs fs') = mset (addrs t @ caddrs fs)"
  by (induction k t fs rule: descend.induct) (auto split: if_splits)

lemma descend_bounds:
  assumes "descend k t fs = (t', fs')" "bst t"
    and "\<forall>x\<in>set (keys (cbefore fs)). x < k" "\<forall>x\<in>set (keys (cafter fs)). k < x"
  shows "(\<forall>x\<in>set (keys (cbefore fs')). x < k) \<and> (\<forall>x\<in>set (keys (cafter fs')). k < x)"
  using assms
proof (induction k t fs rule: descend.induct)
  case (2 k l a k' v n r fs)
  have sub: "bst l" "bst r" and lt: "\<forall>x\<in>set (keys (inord l)). x < k'"
    and gt: "\<forall>x\<in>set (keys (inord r)). k' < x"
    using "2.prems"(2) by (auto simp: bst_def sorted_wrt_append)
  consider "k = k'" | "k < k'" | "k' < k" by fastforce
  then show ?case
  proof cases
    case 2
    with gt have "\<forall>x\<in>set (keys (inord r)). k < x" by fastforce
    moreover have "k \<noteq> k'" using 2 by simp
    ultimately show ?thesis using 2 "2.prems" sub by (intro "2.IH"(1)) auto
  next
    case 3
    with lt have "\<forall>x\<in>set (keys (inord l)). x < k" by fastforce
    moreover have "k \<noteq> k'" "\<not> k < k'" using 3 by auto
    ultimately show ?thesis using 3 "2.prems" sub by (intro "2.IH"(2)) auto
  qed (use "2.prems" in auto)
qed auto

text \<open>The entries of a search tree, cut at the position of a key.\<close>

lemma descend_split:
  assumes "descend k t [] = (t', fs)" "bst t"
  shows "inord t = cbefore fs @ inord t' @ cafter fs"
    and "k \<notin> set (keys (cbefore fs))" "k \<notin> set (keys (cafter fs))"
    and "\<forall>x\<in>set (keys (cbefore fs)). x < k" "\<forall>x\<in>set (keys (cafter fs)). k < x"
  using descend_inord [OF assms(1)] descend_bounds [OF assms(1,2)] by auto

lemma lookup_found:
  assumes "bst t" "descend k t [] = (Bin l a k' v n r, fs)"
  shows "map_of (inord t) k = Some v"
proof -
  have sp: "inord t = cbefore fs @ (inord l @ (k, v) # inord r) @ cafter fs"
    using descend_split(1) [OF assms(2,1)] descend_found [OF assms(2)] by simp
  have "distinct (keys (inord t))"
    using assms(1) strict_sorted_iff by (auto simp: bst_def)
  moreover have "(k, v) \<in> set (inord t)" using sp by simp
  ultimately show ?thesis by (rule map_of_is_SomeI)
qed

lemma lookup_missing:
  assumes "bst t" "descend k t [] = (Tip, fs)"
  shows "map_of (inord t) k = None"
  using descend_split [OF assms(2,1)] by (auto simp: map_of_eq_None_iff)

section \<open>Insertion\<close>

lemma insert_tree_inord:
  assumes "bst t" "avl t"
  obtains xs ys where "inord (insert_tree new k v t) = xs @ (k, v) # ys"
    and "inord t = xs @ ys \<or> (\<exists>w. inord t = xs @ (k, w) # ys)"
    and "\<forall>x\<in>set (keys xs). x < k" "\<forall>x\<in>set (keys ys). k < x"
proof -
  obtain t' fs where f: "descend k t [] = (t', fs)" by fastforce
  note sp = descend_split [OF f assms(1)]
  show ?thesis
  proof (cases t')
    case Tip
    then show ?thesis
      using that [of "cbefore fs" "cafter fs"] sp f by (simp add: insert_tree_def inord_rebal)
  next
    case (Bin l a k' w n r)
    have "k' = k" using descend_found f Bin by blast
    have srt: "sorted_wrt (<) (keys (cbefore fs @ inord l @ (k, w) # inord r @ cafter fs))"
      using sp(1) assms(1) Bin \<open>k' = k\<close> by (simp add: bst_def)
    show ?thesis
    proof (rule that [of "cbefore fs @ inord l" "inord r @ cafter fs"])
      show "inord (insert_tree new k v t) = (cbefore fs @ inord l) @ (k, v) # inord r @ cafter fs"
        using f Bin \<open>k' = k\<close> by (simp add: insert_tree_def inord_plug)
    qed (use sp Bin \<open>k' = k\<close> srt in \<open>auto simp: sorted_wrt_append\<close>)
  qed
qed

lemma sorted_around:
  assumes "sorted_wrt (<) (keys xs)" "sorted_wrt (<) (keys ys)"
    and "\<forall>x\<in>set (keys xs). x < k" "\<forall>x\<in>set (keys ys). k < x"
  shows "sorted_wrt (<) (keys (xs @ (k, v) # ys))"
  using assms by (fastforce simp: sorted_wrt_append)

lemma bst_insert_tree:
  assumes "bst t" "avl t"
  shows "bst (insert_tree new k v t)"
proof (rule insert_tree_inord [OF assms, of new k v])
  fix xs ys
  assume i: "inord (insert_tree new k v t) = xs @ (k, v) # ys"
    and t: "inord t = xs @ ys \<or> (\<exists>w. inord t = xs @ (k, w) # ys)"
    and b: "\<forall>x\<in>set (keys xs). x < k" "\<forall>x\<in>set (keys ys). k < x"
  have "sorted_wrt (<) (keys xs)" "sorted_wrt (<) (keys ys)"
    using t assms(1) by (auto simp: bst_def sorted_wrt_append)
  then show ?thesis using b i by (simp only: bst_def sorted_around)
qed

lemma map_of_insert_tree:
  assumes "bst t" "avl t"
  shows "map_of (inord (insert_tree new k v t)) = (map_of (inord t))(k \<mapsto> v)"
proof (rule insert_tree_inord [OF assms, of new k v])
  fix xs ys
  assume i: "inord (insert_tree new k v t) = xs @ (k, v) # ys"
    and t: "inord t = xs @ ys \<or> (\<exists>w. inord t = xs @ (k, w) # ys)"
    and b: "\<forall>x\<in>set (keys xs). x < k" "\<forall>x\<in>set (keys ys). k < x"
  have "map_of xs k = None" using b(1) by (auto simp: map_of_eq_None_iff)
  moreover have "map_of ys k = None" using b(2) by (auto simp: map_of_eq_None_iff)
  ultimately show ?thesis using i t
    by (auto simp: fun_eq_iff map_add_def split: option.splits)
qed

lemma avl_insert_tree: "avl t \<Longrightarrow> avl (insert_tree new k v t)"
  using descend_avl [of k t "[]"]
  by (auto simp: insert_tree_def avl_plug split: prod.splits stree.splits
      intro!: avl_rebal [where h = 0])

section \<open>Deletion\<close>

lemma rmost_append:
  "t \<noteq> Tip \<Longrightarrow> rmost t (gs @ fs) = (fst (rmost t gs), snd (rmost t gs) @ fs)"
  by (induction t gs rule: rmost.induct) auto

lemma rmost_inord:
  "rmost t fs = ((l2, a2, k2, v2), gs) \<Longrightarrow> t \<noteq> Tip \<Longrightarrow>
     cbefore gs @ inord l2 @ [(k2, v2)] = cbefore fs @ inord t \<and> cafter gs = cafter fs"
  by (induction t fs rule: rmost.induct) auto

lemma rmost_avl:
  "rmost t fs = ((l2, a2, k2, v2), gs) \<Longrightarrow> t \<noteq> Tip \<Longrightarrow> avl t \<Longrightarrow> cavl (ht t) fs \<Longrightarrow>
     avl l2 \<and> cavl (1 + ht l2) gs"
  by (induction t fs rule: rmost.induct) (auto simp: max_def dest: avl_ht_nonneg split: if_splits)

lemma rmost_addrs:
  "rmost t fs = ((l2, a2, k2, v2), gs) \<Longrightarrow> t \<noteq> Tip \<Longrightarrow>
     mset (addrs l2 @ a2 # caddrs gs) = mset (addrs t @ caddrs fs)"
  by (induction t fs rule: rmost.induct) auto

lemma cbefore_append: "cbefore (gs @ fs) = cbefore fs @ cbefore gs"
  by (induction gs rule: cbefore.induct) auto

lemma cafter_append: "cafter (gs @ fs) = cafter gs @ cafter fs"
  by (induction gs rule: cafter.induct) auto

lemma caddrs_append: "caddrs (gs @ fs) = caddrs gs @ caddrs fs"
  by (induction gs rule: caddrs.induct) auto

lemma avl_single_child:
  assumes "avl (Bin l a k v n r)" "\<not> (l \<noteq> Tip \<and> r \<noteq> Tip)"
  shows "avl (if l \<noteq> Tip then l else r) \<and> ht (if l \<noteq> Tip then l else r) = n - 1"
  using assms avl_ht_nonneg [of l] avl_ht_nonneg [of r] by auto

lemma avl_delete_tree:
  assumes "avl t"
  shows "avl (delete_tree k t)"
proof -
  obtain t' fs where f: "descend k t [] = (t', fs)" by fastforce
  have a: "avl t'" "cavl (ht t') fs" using descend_avl [OF f] assms by auto
  show ?thesis
  proof (cases t')
    case Tip
    then show ?thesis using f assms by (simp add: delete_tree_def)
  next
    case (Bin l a' k' v' n r)
    show ?thesis
    proof (cases "l \<noteq> Tip \<and> r \<noteq> Tip")
      case True
      obtain l2 a2 k2 v2 gs where rm: "rmost l [] = ((l2, a2, k2, v2), gs)"
        by (metis prod.exhaust)
      have rm': "rmost l (FL a2 k2 v2 r # fs) = ((l2, a2, k2, v2), gs @ FL a2 k2 v2 r # fs)"
        using rmost_append [of l "[]" "FL a2 k2 v2 r # fs"] True rm by simp
      have "cavl (ht l) (FL a2 k2 v2 r # fs)" "avl l"
        using a Bin by auto
      then have "avl l2" "cavl (1 + ht l2) (gs @ FL a2 k2 v2 r # fs)"
        using rmost_avl [OF rm'] True by auto
      then show ?thesis
        using f Bin True rm avl_rebal [of l2 "1 + ht l2"] by (simp add: delete_tree_def)
    next
      case False
      have "delete_tree k t = rebal (if l \<noteq> Tip then l else r) fs"
        using f Bin False by (auto simp: delete_tree_def)
      moreover have "avl (rebal (if l \<noteq> Tip then l else r) fs)"
        using avl_single_child [OF _ False, of a' k' v' n] a Bin
        by (intro avl_rebal [where h = n]) auto
      ultimately show ?thesis by simp
    qed
  qed
qed

lemma delete_tree_inord:
  assumes "bst t"
  shows "inord (delete_tree k t) = filter (\<lambda>e. fst e \<noteq> k) (inord t)"
proof -
  obtain t' fs where f: "descend k t [] = (t', fs)" by fastforce
  note sp = descend_split [OF f assms]
  have keep: "filter (\<lambda>e. fst e \<noteq> k) (cbefore fs) = cbefore fs"
    "filter (\<lambda>e. fst e \<noteq> k) (cafter fs) = cafter fs"
    using sp by (auto simp: filter_id_conv)
  show ?thesis
  proof (cases t')
    case Tip
    then show ?thesis using f sp keep by (simp add: delete_tree_def)
  next
    case (Bin l a' k' v' n r)
    have "k' = k" using descend_found f Bin by blast
    have "sorted_wrt (<) (keys (inord l @ (k, v') # inord r))"
      using sp(1) assms Bin \<open>k' = k\<close> by (simp add: bst_def sorted_wrt_append)
    then have kl: "filter (\<lambda>e. fst e \<noteq> k) (inord l) = inord l"
      "filter (\<lambda>e. fst e \<noteq> k) (inord r) = inord r"
      by (auto simp: filter_id_conv sorted_wrt_append)
    have rest: "filter (\<lambda>e. fst e \<noteq> k) (inord t) = cbefore fs @ inord l @ inord r @ cafter fs"
      using sp(1) Bin \<open>k' = k\<close> keep kl by simp
    show ?thesis
    proof (cases "l \<noteq> Tip \<and> r \<noteq> Tip")
      case True
      obtain l2 a2 k2 v2 gs where rm: "rmost l [] = ((l2, a2, k2, v2), gs)"
        by (metis prod.exhaust)
      then show ?thesis
        using rmost_inord [OF rm] True f Bin rest
        by (simp add: delete_tree_def inord_rebal cbefore_append cafter_append)
    next
      case False
      then show ?thesis using f Bin rest by (auto simp: delete_tree_def inord_rebal)
    qed
  qed
qed

lemma bst_delete_tree: "bst t \<Longrightarrow> bst (delete_tree k t)"
  by (simp add: bst_def delete_tree_inord sorted_wrt_filter sorted_wrt_map)

lemma map_of_delete_tree: "bst t \<Longrightarrow> map_of (inord (delete_tree k t)) = (map_of (inord t))(k := None)"
proof -
  assume "bst t"
  have "map_of (filter (\<lambda>e. fst e \<noteq> k) xs) = (map_of xs)(k := None)" for xs :: "(string \<times> string option) list"
    by (induction xs) auto
  then show ?thesis using \<open>bst t\<close> by (simp add: delete_tree_inord)
qed

section \<open>Heights are logarithmic\<close>

text \<open>The number of nodes of a balanced tree grows with the Fibonacci numbers.\<close>

fun min_nodes :: "nat \<Rightarrow> nat" where
  "min_nodes 0 = 0"
| "min_nodes (Suc 0) = 1"
| "min_nodes (Suc (Suc n)) = 1 + min_nodes (Suc n) + min_nodes n"

lemma min_nodes_mono: "m \<le> n \<Longrightarrow> min_nodes m \<le> min_nodes n"
proof (rule lift_Suc_mono_le [of min_nodes])
  show "min_nodes i \<le> min_nodes (Suc i)" for i
    by (induction i rule: min_nodes.induct) auto
qed

lemma min_nodes_exp: "2 ^ n \<le> (min_nodes (2 * n) + 1)"
proof (induction n)
  case (Suc n)
  have "min_nodes (2 * n) \<le> min_nodes (Suc (2 * n))" by (rule min_nodes_mono) simp
  then show ?case using Suc by simp
qed simp

lemma avl_min_nodes: "avl t \<Longrightarrow> min_nodes (nat (ht t)) \<le> length (inord t)"
proof (induction t)
  case (Bin l a k v n r)
  have nn: "0 \<le> ht l" "0 \<le> ht r" using Bin.prems avl_ht_nonneg by auto
  define m where "m = max (nat (ht l)) (nat (ht r))"
  have n: "nat n = Suc m" using Bin.prems nn by (auto simp: m_def max_def)
  have IH: "min_nodes (nat (ht l)) \<le> length (inord l)" "min_nodes (nat (ht r)) \<le> length (inord r)"
    using Bin by auto
  have lo: "m - 1 \<le> nat (ht l)" "m - 1 \<le> nat (ht r)" "m = nat (ht l) \<or> m = nat (ht r)"
    using Bin.prems by (auto simp: m_def)
  have "min_nodes (Suc m) \<le> 1 + min_nodes m + min_nodes (m - 1)"
    by (cases m) auto
  also have "\<dots> \<le> 1 + length (inord l) + length (inord r)"
    using IH lo min_nodes_mono [OF lo(1)] min_nodes_mono [OF lo(2)] by fastforce
  finally show ?case by (simp add: n)
qed simp

lemma avl_height_log:
  assumes "avl t"
  shows "2 ^ (nat (ht t) div 2) \<le> length (inord t) + 1"
proof -
  have "2 ^ (nat (ht t) div 2) \<le> min_nodes (2 * (nat (ht t) div 2)) + 1"
    by (rule min_nodes_exp)
  also have "\<dots> \<le> min_nodes (nat (ht t)) + 1"
    using min_nodes_mono [of "2 * (nat (ht t) div 2)" "nat (ht t)"] by simp
  also have "\<dots> \<le> length (inord t) + 1"
    using avl_min_nodes [OF assms] by simp
  finally show ?thesis .
qed

end
