(* ===== verification/Strmap_Refine.thy ===== *)
theory Strmap_Refine
  imports Strmap_Tree
begin

text \<open>
  The heap programs of \<open>Strmap\<close> implement the tree operations of \<open>Strmap_Tree\<close>: when the
  heap represents a tree, every operation of the code returns, changes only nodes of that
  tree, and leaves a heap that represents the tree the abstract operation computes.
\<close>

section \<open>Trees in the heap\<close>

definition mk_node ::
  "string \<Rightarrow> string option \<Rightarrow> int \<Rightarrow> ptr \<Rightarrow> ptr \<Rightarrow> ptr \<Rightarrow> strmap_node" where
  "mk_node k v n par l r = \<lparr>sn_key = Some k, sn_key_len = str_size k, sn_value = v,
     sn_value_len = (case v of None \<Rightarrow> 0 | Some s \<Rightarrow> str_size s), sn_height = n,
     sn_parent = par, sn_left = l, sn_right = r\<rparr>"

fun tree_at :: "(nat \<rightharpoonup> strmap_node) \<Rightarrow> ptr \<Rightarrow> stree \<Rightarrow> bool" where
  "tree_at m par Tip = True"
| "tree_at m par (Bin l a k v n r) \<longleftrightarrow>
     m a = Some (mk_node k v n par (root_ptr l) (root_ptr r)) \<and>
     tree_at m (Some a) l \<and> tree_at m (Some a) r"

text \<open>
  The nodes on the path from a subtree to the root, with their other subtrees. The height
  field of a node on the path is not constrained: it is rewritten when the rebalancing
  reaches the node.
\<close>

fun ctx_at :: "(nat \<rightharpoonup> strmap_node) \<Rightarrow> ptr \<Rightarrow> frame list \<Rightarrow> bool" where
  "ctx_at m p [] = True"
| "ctx_at m p (FL a k v r # fs) \<longleftrightarrow>
     (\<exists>n. m a = Some (mk_node k v n (cpar fs) p (root_ptr r))) \<and>
     tree_at m (Some a) r \<and> ctx_at m (Some a) fs"
| "ctx_at m p (FR l a k v # fs) \<longleftrightarrow>
     (\<exists>n. m a = Some (mk_node k v n (cpar fs) (root_ptr l) p)) \<and>
     tree_at m (Some a) l \<and> ctx_at m (Some a) fs"

definition zip_at :: "heap \<Rightarrow> stree \<Rightarrow> frame list \<Rightarrow> bool" where
  "zip_at h t fs \<longleftrightarrow> tree_at (cells h) (cpar fs) t \<and> ctx_at (cells h) (root_ptr t) fs
     \<and> distinct (addrs t @ caddrs fs)"

definition same_except :: "nat set \<Rightarrow> heap \<Rightarrow> heap \<Rightarrow> bool" where
  "same_except A h h' \<longleftrightarrow> brk h' = brk h \<and> (\<forall>x. x \<notin> A \<longrightarrow> cells h' x = cells h x)"

section \<open>Symbolic execution\<close>

definition runs :: "'a option \<Rightarrow> ('a \<Rightarrow> bool) \<Rightarrow> bool" where
  "runs c P \<longleftrightarrow> (\<exists>x. c = Some x \<and> P x)"

lemma runs_Some [heap_simps]: "runs (Some x) P = P x"
  by (simp add: runs_def)

lemma runs_bind [heap_simps]: "runs (Option.bind c f) P = runs c (\<lambda>x. runs (f x) P)"
  by (cases c) (auto simp: runs_def)

lemma runs_if [heap_simps]: "runs (if b then c else d) P = (if b then runs c P else runs d P)"
  by simp

lemma runs_rd [heap_simps]: "cells h a = Some n \<Longrightarrow> runs (rd h (Some a) f) P = P (f n)"
  by (simp add: rd_def runs_def)

lemma runs_wr [heap_simps]:
  "cells h a = Some n \<Longrightarrow> runs (wr (Some a) g h) P = P (h\<lparr>cells := (cells h)(a \<mapsto> g n)\<rparr>)"
  by (simp add: wr_def runs_def)

lemma runs_mono: "runs c P \<Longrightarrow> (\<And>x. P x \<Longrightarrow> Q x) \<Longrightarrow> runs c Q"
  by (auto simp: runs_def)

lemma mk_node_sel [simp]:
  "sn_key (mk_node k v n p l r) = Some k"
  "sn_key_len (mk_node k v n p l r) = str_size k"
  "sn_value (mk_node k v n p l r) = v"
  "sn_value_len (mk_node k v n p l r) = (case v of None \<Rightarrow> 0 | Some s \<Rightarrow> str_size s)"
  "sn_height (mk_node k v n p l r) = n"
  "sn_parent (mk_node k v n p l r) = p"
  "sn_left (mk_node k v n p l r) = l"
  "sn_right (mk_node k v n p l r) = r"
  by (simp_all add: mk_node_def)

lemma mk_node_upd [simp]:
  "mk_node k v n p l r\<lparr>sn_height := n'\<rparr> = mk_node k v n' p l r"
  "mk_node k v n p l r\<lparr>sn_parent := p'\<rparr> = mk_node k v n p' l r"
  "mk_node k v n p l r\<lparr>sn_left := l'\<rparr> = mk_node k v n p l' r"
  "mk_node k v n p l r\<lparr>sn_right := r'\<rparr> = mk_node k v n p l r'"
  by (simp_all add: mk_node_def)

lemma tree_at_upd [simp]: "a \<notin> set (addrs t) \<Longrightarrow> tree_at (m(a := x)) p t = tree_at m p t"
  by (induction t arbitrary: p) auto

lemma ctx_at_upd [simp]: "a \<notin> set (caddrs fs) \<Longrightarrow> ctx_at (m(a := x)) p fs = ctx_at m p fs"
  by (induction fs arbitrary: p rule: caddrs.induct) auto

lemma root_ptr_addrs [simp]:
  "a \<notin> set (addrs t) \<Longrightarrow> root_ptr t \<noteq> Some a" "a \<notin> set (addrs t) \<Longrightarrow> Some a \<noteq> root_ptr t"
  by (cases t; auto)+

text \<open>The height a pointer leads to, 0 for NULL.\<close>

definition hgt :: "(nat \<rightharpoonup> strmap_node) \<Rightarrow> ptr \<Rightarrow> int" where
  "hgt m p = (case p of None \<Rightarrow> 0
     | Some a \<Rightarrow> (case m a of None \<Rightarrow> 0 | Some n \<Rightarrow> sn_height n))"

definition valid_ptr :: "(nat \<rightharpoonup> strmap_node) \<Rightarrow> ptr \<Rightarrow> bool" where
  "valid_ptr m p \<longleftrightarrow> (case p of None \<Rightarrow> True | Some a \<Rightarrow> m a \<noteq> None)"

lemma hgt_upd [simp]: "p \<noteq> Some a \<Longrightarrow> hgt (m(a := x)) p = hgt m p"
  by (auto simp: hgt_def split: option.splits)

lemma hgt_upd_same [simp]: "hgt (m(a \<mapsto> n)) (Some a) = sn_height n"
  by (simp add: hgt_def)

lemma valid_ptr_upd [simp]: "valid_ptr m p \<Longrightarrow> valid_ptr (m(a \<mapsto> x)) p"
  by (auto simp: valid_ptr_def split: option.splits)

lemma valid_ptr_same [simp]: "valid_ptr (m(a \<mapsto> x)) (Some a)"
  by (simp add: valid_ptr_def)

lemma valid_ptr_Some: "m a = Some x \<Longrightarrow> valid_ptr m (Some a)"
  by (simp add: valid_ptr_def)

lemma tree_at_hgt: "tree_at m p t \<Longrightarrow> hgt m (root_ptr t) = ht t"
  by (cases t) (auto simp: hgt_def)

lemma tree_at_valid: "tree_at m p t \<Longrightarrow> valid_ptr m (root_ptr t)"
  by (cases t) (auto simp: valid_ptr_def)

lemma runs_set_height [heap_simps]:
  assumes "cells h a = Some n" "valid_ptr (cells h) (sn_left n)" "valid_ptr (cells h) (sn_right n)"
    and "0 \<le> hgt (cells h) (sn_left n)"
  shows "runs (strmap_node_set_height (Some a) h) P =
    P (h\<lparr>cells := (cells h)(a \<mapsto>
        n\<lparr>sn_height := 1 + max (hgt (cells h) (sn_left n)) (hgt (cells h) (sn_right n))\<rparr>)\<rparr>)"
  using assms
  by (auto simp: strmap_node_set_height_def runs_def rd_def wr_def hgt_def valid_ptr_def max_def
      add.commute split: option.splits)

lemma runs_balance_factor [heap_simps]:
  assumes "cells h a = Some n" "valid_ptr (cells h) (sn_left n)" "valid_ptr (cells h) (sn_right n)"
  shows "runs (strmap_node_balance_factor h (Some a)) P =
    P (hgt (cells h) (sn_left n) - hgt (cells h) (sn_right n))"
  using assms
  by (auto simp: strmap_node_balance_factor_def runs_def rd_def hgt_def valid_ptr_def
      split: option.splits)

text \<open>Redirecting the parent pointer of the root of a subtree.\<close>

lemma runs_set_parent:
  assumes "tree_at (cells h) p t" "distinct (addrs t)"
    and "\<And>m'. tree_at m' q t \<Longrightarrow> (\<And>x. root_ptr t \<noteq> Some x \<Longrightarrow> m' x = cells h x)
      \<Longrightarrow> P (h\<lparr>cells := m'\<rparr>)"
  shows "runs (set_parent (root_ptr t) q h) P"
proof (cases t)
  case Tip
  then show ?thesis using assms(3) [of "cells h"] by (simp add: heap_simps set_parent_def)
next
  case (Bin l a k v n r)
  with assms(1,2) have "cells h a = Some (mk_node k v n p (root_ptr l) (root_ptr r))"
    "tree_at ((cells h)(a \<mapsto> mk_node k v n q (root_ptr l) (root_ptr r))) q t"
    by auto
  with assms(3) Bin show ?thesis by (simp add: heap_simps set_parent_def)
qed


section \<open>Rotations\<close>

lemma zip_at_facts:
  assumes "tree_at m p t"
  shows "hgt m (root_ptr t) = ht t" "valid_ptr m (root_ptr t)"
  using assms tree_at_hgt tree_at_valid by auto

lemma tree_at_frame:
  "tree_at m p t \<Longrightarrow> (\<And>x. x \<notin> S \<Longrightarrow> m' x = m x) \<Longrightarrow> set (addrs t) \<inter> S = {} \<Longrightarrow> tree_at m' p t"
  by (induction t arbitrary: p) auto

lemma ctx_at_frame:
  "ctx_at m p fs \<Longrightarrow> (\<And>x. x \<notin> S \<Longrightarrow> m' x = m x) \<Longrightarrow> set (caddrs fs) \<inter> S = {} \<Longrightarrow> ctx_at m' p fs"
  by (induction fs arbitrary: p rule: caddrs.induct)
    (auto intro: tree_at_frame [where S = S and m = m])

text \<open>All subtrees beside the path are balanced.\<close>

fun savl :: "frame list \<Rightarrow> bool" where
  "savl [] = True"
| "savl (FL a k v r # fs) \<longleftrightarrow> avl r \<and> savl fs"
| "savl (FR l a k v # fs) \<longleftrightarrow> avl l \<and> savl fs"

lemma cavl_savl: "cavl z fs \<Longrightarrow> savl fs"
  by (induction z fs rule: cavl.induct) auto

lemma cpar_caddrs: "set_option (cpar fs) \<subseteq> set (caddrs fs)"
  by (cases fs rule: cpar.cases) auto

text \<open>The end of both rotations: the parent of the rotated node, if any, gets its new child.\<close>

lemma runs_relink_parent:
  assumes t: "tree_at (cells h) (cpar fs) t" "root_ptr t = Some b" "0 \<le> ht t"
    and c: "ctx_at (cells h) (Some a) fs" "savl fs"
    and d: "a \<notin> set (caddrs fs)" "distinct (addrs t @ caddrs fs)"
    and P: "\<And>h'. zip_at h' t fs \<Longrightarrow> same_except (set_option (cpar fs)) h h' \<Longrightarrow> P h'"
  shows "runs (relink_parent (cpar fs) (Some a) (Some b) h) P"
proof -
  have fin: "P h'" if "ctx_at (cells h') (Some b) fs" "same_except (set_option (cpar fs)) h h'" for h'
  proof (rule P)
    have "tree_at (cells h') (cpar fs) t"
      by (rule tree_at_frame [OF t(1), of "set (caddrs fs)"])
        (use that(2) d(2) cpar_caddrs [of fs] in \<open>auto simp: same_except_def\<close>)
    then show "zip_at h' t fs" using that(1) t(2) d(2) by (simp add: zip_at_def)
  qed (rule that(2))
  have b: "valid_ptr (cells h) (Some b)" "hgt (cells h) (Some b) = ht t" "b \<notin> set (caddrs fs)"
    using tree_at_valid [OF t(1)] tree_at_hgt [OF t(1)] t(2) d(2) by (cases t; auto)+
  show ?thesis
  proof (cases fs rule: cpar.cases)
    case 1
    then show ?thesis using fin [of h] by (simp add: heap_simps relink_parent_def same_except_def)
  next
    case (2 e k v r gs)
    have r: "hgt (cells h) (root_ptr r) = ht r" "valid_ptr (cells h) (root_ptr r)"
      using zip_at_facts [of "cells h" "Some e" r] c 2 by auto
    obtain n where n: "cells h e = Some (mk_node k v n (cpar gs) (Some a) (root_ptr r))"
      using c 2 by auto
    show ?thesis
      using b c d n r t 2
      by (auto simp: heap_simps relink_parent_def replace_child_def same_except_def intro!: fin)
  next
    case (3 l e k v gs)
    have l: "hgt (cells h) (root_ptr l) = ht l" "valid_ptr (cells h) (root_ptr l)" "0 \<le> ht l"
      using zip_at_facts [of "cells h" "Some e" l] avl_ht_nonneg [of l] c 3 by auto
    obtain n where n: "cells h e = Some (mk_node k v n (cpar gs) (root_ptr l) (Some a))"
      using c 3 by auto
    show ?thesis
      using b c d n l t 3
      by (auto simp: heap_simps relink_parent_def replace_child_def same_except_def intro!: fin)
  qed
qed

lemma same_except_trans:
  "same_except A h h' \<Longrightarrow> same_except B h' h'' \<Longrightarrow> A \<union> B \<subseteq> C \<Longrightarrow> same_except C h h''"
  unfolding same_except_def by (metis Un_iff subset_iff)

lemma same_except_mono: "same_except A h h' \<Longrightarrow> A \<subseteq> B \<Longrightarrow> same_except B h h'"
  by (auto simp: same_except_def)

definition zip_set :: "stree \<Rightarrow> frame list \<Rightarrow> nat set" where
  "zip_set t fs = set (addrs t) \<union> set (caddrs fs)"

text \<open>The result of a rebalancing step on the subtree \<open>t\<close> of heap \<open>h\<close>: the subtree is \<open>t'\<close>.\<close>

definition rebalanced :: "heap \<Rightarrow> stree \<Rightarrow> frame list \<Rightarrow> stree \<Rightarrow> ptr \<times> heap \<Rightarrow> bool" where
  "rebalanced h t fs t' ph \<longleftrightarrow> fst ph = root_ptr t' \<and> zip_at (snd ph) t' fs
     \<and> same_except (zip_set t fs) h (snd ph)"

lemma rebalancedE:
  assumes "rebalanced h t fs t' ph"
  obtains h' where "ph = (root_ptr t', h')" "zip_at h' t' fs" "same_except (zip_set t fs) h h'"
  using assms by (cases ph) (auto simp: rebalanced_def)

lemma rebalanced_trans:
  assumes "same_except (zip_set t1 fs1) h h1" "rebalanced h1 t2 fs2 t' ph"
    and "zip_set t1 fs1 = zip_set t fs2" "zip_set t2 fs2 = zip_set t fs2"
  shows "rebalanced h t fs2 t' ph"
  using assms same_except_trans by (fastforce simp: rebalanced_def)

lemma rotate_left_at:
  assumes z: "zip_at h (Bin A a k v n (Bin B b k' v' m C)) fs"
    and av: "0 \<le> ht A" "0 \<le> ht B" "0 \<le> ht C" "savl fs"
  shows "runs (strmap_node_rotate_left (Some a) h) 
    (rebalanced h (Bin A a k v n (Bin B b k' v' m C)) fs (mkn (mkn A a k v B) b k' v' C))"
proof -
  have ca: "cells h a = Some (mk_node k v n (cpar fs) (root_ptr A) (Some b))"
    and cb: "cells h b = Some (mk_node k' v' m (Some a) (root_ptr B) (root_ptr C))"
    and tr: "tree_at (cells h) (Some a) A" "tree_at (cells h) (Some b) B" "tree_at (cells h) (Some b) C"
    and cx: "ctx_at (cells h) (Some a) fs"
    and d: "distinct (addrs A @ a # addrs B @ b # addrs C @ caddrs fs)"
    using z by (auto simp: zip_at_def)
  have ab: "a \<noteq> b" "b \<noteq> a" using d by auto
  let ?m = "(cells h)(a \<mapsto> mk_node k v n (Some b) (root_ptr A) (root_ptr B))"
  have B: "tree_at ?m (Some b) B" "distinct (addrs B)" using tr d by auto
  show ?thesis
    unfolding strmap_node_rotate_left_def
    apply (simp add: runs_bind runs_rd runs_wr ca cb ab)
    apply (rule runs_set_parent [where h = "h\<lparr>cells := ?m\<rparr>" and t = B and p = "Some b"])
      apply (simp add: B)
     apply (rule B)
    subgoal premises prem for m'
    proof -
      have ma: "m' a = ?m a" "m' b = cells h b"
        using prem(2) [of a] prem(2) [of b] d ab by auto
      have same: "m' x = cells h x" if "x \<notin> set (a # addrs B)" for x
        using prem(2) [of x] that by simp
      have T: "tree_at m' (Some a) A" "tree_at m' (Some b) C" "ctx_at m' (Some a) fs"
        by (rule tree_at_frame ctx_at_frame, (rule tr cx), erule same, use d in auto)+
      note zf = zip_at_facts [OF T(1)] zip_at_facts [OF T(2)] zip_at_facts [OF prem(1)] av
      show ?thesis
        using d ab zf
        apply (simp add: runs_bind runs_rd runs_wr ma ca cb runs_set_height)
        apply (rule runs_relink_parent [where t = "mkn (mkn A a k v B) b k' v' C"])
        using T av prem(1) same cpar_caddrs [of fs]
        apply (auto simp: runs_Some mkn_def same_except_def rebalanced_def zip_set_def)
        done
    qed
    done
qed

lemma rotate_right_at:
  assumes z: "zip_at h (Bin (Bin A a k v n B) b k' v' m C) fs"
    and av: "0 \<le> ht A" "0 \<le> ht B" "0 \<le> ht C" "savl fs"
  shows "runs (strmap_node_rotate_right (Some b) h) 
    (rebalanced h (Bin (Bin A a k v n B) b k' v' m C) fs (mkn A a k v (mkn B b k' v' C)))"
proof -
  have cb: "cells h b = Some (mk_node k' v' m (cpar fs) (Some a) (root_ptr C))"
    and ca: "cells h a = Some (mk_node k v n (Some b) (root_ptr A) (root_ptr B))"
    and tr: "tree_at (cells h) (Some a) A" "tree_at (cells h) (Some a) B" "tree_at (cells h) (Some b) C"
    and cx: "ctx_at (cells h) (Some b) fs"
    and d: "distinct (addrs A @ a # addrs B @ b # addrs C @ caddrs fs)"
    using z by (auto simp: zip_at_def)
  have ab: "a \<noteq> b" "b \<noteq> a" using d by auto
  let ?m = "(cells h)(b \<mapsto> mk_node k' v' m (Some a) (root_ptr B) (root_ptr C))"
  have B: "tree_at ?m (Some a) B" "distinct (addrs B)" using tr d by auto
  show ?thesis
    unfolding strmap_node_rotate_right_def
    apply (simp add: runs_bind runs_rd runs_wr ca cb ab)
    apply (rule runs_set_parent [where h = "h\<lparr>cells := ?m\<rparr>" and t = B and p = "Some a"])
      apply (simp add: B)
     apply (rule B)
    subgoal premises prem for m'
    proof -
      have ma: "m' b = ?m b" "m' a = cells h a"
        using prem(2) [of a] prem(2) [of b] d ab by auto
      have same: "m' x = cells h x" if "x \<notin> set (b # addrs B)" for x
        using prem(2) [of x] that by simp
      have T: "tree_at m' (Some a) A" "tree_at m' (Some b) C" "ctx_at m' (Some b) fs"
        by (rule tree_at_frame ctx_at_frame, (rule tr cx), erule same, use d in auto)+
      note zf = zip_at_facts [OF T(1)] zip_at_facts [OF T(2)] zip_at_facts [OF prem(1)] av
      show ?thesis
        using d ab zf
        apply (simp add: runs_bind runs_rd runs_wr ma ca cb runs_set_height)
        apply (rule runs_relink_parent [where t = "mkn A a k v (mkn B b k' v' C)"])
        using T av prem(1) same cpar_caddrs [of fs]
        apply (auto simp: runs_Some mkn_def same_except_def rebalanced_def zip_set_def)
        done
    qed
    done
qed

section \<open>Rebalancing\<close>

lemma zip_down_left: "zip_at h (Bin l a k v n r) fs \<Longrightarrow> zip_at h l (FL a k v r # fs)"
  by (auto simp: zip_at_def)

lemma zip_down_right: "zip_at h (Bin l a k v n r) fs \<Longrightarrow> zip_at h r (FR l a k v # fs)"
  by (auto simp: zip_at_def)

lemma zip_up_left: "zip_at h l (FL a k v r # fs) \<Longrightarrow> \<exists>n. zip_at h (Bin l a k v n r) fs"
  by (auto simp: zip_at_def)

lemma zip_up_right: "zip_at h r (FR l a k v # fs) \<Longrightarrow> \<exists>n. zip_at h (Bin l a k v n r) fs"
  by (auto simp: zip_at_def)

lemma rebalance_right_heavy:
  assumes z: "zip_at h (Bin l a k v n r) fs"
    and av: "avl l" "avl r" "savl fs" and lt: "ht l - ht r < -1"
  shows "runs (rebalance_node (Some a) h) (rebalanced h (Bin l a k v n r) fs (bal l a k v r))"
proof -
  have ca: "cells h a = Some (mk_node k v n (cpar fs) (root_ptr l) (root_ptr r))"
    and tr: "tree_at (cells h) (Some a) l" "tree_at (cells h) (Some a) r"
    using z by (auto simp: zip_at_def)
  note f = zip_at_facts [OF tr(1)] zip_at_facts [OF tr(2)]
  have nn: "0 \<le> ht l" using av avl_ht_nonneg by auto
  obtain B b k' v' m C where r: "r = Bin B b k' v' m C"
    using nn lt by (cases r) auto
  have cb: "cells h b = Some (mk_node k' v' m (Some a) (root_ptr B) (root_ptr C))"
    and tb: "tree_at (cells h) (Some b) B" "tree_at (cells h) (Some b) C"
    and nB: "0 \<le> ht B" "0 \<le> ht C" "avl B"
    using tr r av avl_ht_nonneg by auto
  note g = zip_at_facts [OF tb(1)] zip_at_facts [OF tb(2)]
  show ?thesis
  proof (cases "ht B > ht C")
    case False
    have step: "runs (rebalance_node (Some a) h) P = runs (strmap_node_rotate_left (Some a) h) P" for P
      using lt False f g r by (simp add: rebalance_node_def heap_simps ca cb)
    have e: "bal l a k v r = mkn (mkn l a k v B) b k' v' C"
      using lt False r by (simp add: bal_def mkn_def)
    show ?thesis
      unfolding step
      using rotate_left_at [OF z [unfolded r] nn nB(1,2) av(3)] by (simp add: e [unfolded r] r)
  next
    case True
    then obtain B1 b1 k1 v1 m1 B2 where B: "B = Bin B1 b1 k1 v1 m1 B2"
      using nB by (cases B) auto
    have z1: "zip_at h (Bin (Bin B1 b1 k1 v1 m1 B2) b k' v' m C) (FR l a k v # fs)"
      using zip_down_right [OF z] r B by simp
    have n1: "0 \<le> ht B1" "0 \<le> ht B2" "savl (FR l a k v # fs)"
      using nB av B avl_ht_nonneg by auto
    have e: "bal l a k v r = mkn (mkn l a k v B1) b1 k1 v1 (mkn B2 b k' v' C)"
      using lt True r B by (simp add: bal_def mkn_def)
    have step: "runs (rebalance_node (Some a) h) P =
        runs (strmap_node_rotate_right (Some b) h)
          (\<lambda>x. runs (strmap_node_rotate_left (Some a) (snd x)) P)" for P
      using lt True f g r by (simp add: rebalance_node_def heap_simps ca cb case_prod_unfold)
    show ?thesis
      unfolding step
    proof (rule runs_mono [OF rotate_right_at [OF z1 n1(1,2) nB(2) n1(3)]], erule rebalancedE)
      fix x h1
      assume x: "x = (root_ptr (mkn B1 b1 k1 v1 (mkn B2 b k' v' C)), h1)"
        and h1: "zip_at h1 (mkn B1 b1 k1 v1 (mkn B2 b k' v' C)) (FR l a k v # fs)"
        and s1: "same_except (zip_set (Bin (Bin B1 b1 k1 v1 m1 B2) b k' v' m C) (FR l a k v # fs)) h h1"
      obtain n1 where z2: "zip_at h1 (Bin l a k v n1 (mkn B1 b1 k1 v1 (mkn B2 b k' v' C))) fs"
        using zip_up_right [OF h1] by auto
      have n2: "0 \<le> ht (mkn B2 b k' v' C)" using n1 nB by simp
      show "runs (strmap_node_rotate_left (Some a) (snd x)) (rebalanced h (Bin l a k v n r) fs (bal l a k v r))"
        unfolding x snd_conv e
        by (rule runs_mono [OF rotate_left_at [OF z2 [unfolded mkn_def [of B1]] nn n1(1) n2 av(3)]],
            erule rebalanced_trans [OF s1]) (auto simp: zip_set_def r B mkn_def)
    qed
  qed
qed

lemma rebalance_left_heavy:
  assumes z: "zip_at h (Bin l a k v n r) fs"
    and av: "avl l" "avl r" "savl fs" and gt: "ht l - ht r > 1"
  shows "runs (rebalance_node (Some a) h) (rebalanced h (Bin l a k v n r) fs (bal l a k v r))"
proof -
  have ca: "cells h a = Some (mk_node k v n (cpar fs) (root_ptr l) (root_ptr r))"
    and tr: "tree_at (cells h) (Some a) l" "tree_at (cells h) (Some a) r"
    using z by (auto simp: zip_at_def)
  note f = zip_at_facts [OF tr(1)] zip_at_facts [OF tr(2)]
  have nn: "0 \<le> ht r" using av avl_ht_nonneg by auto
  obtain A b k' v' m B where l: "l = Bin A b k' v' m B"
    using nn gt by (cases l) auto
  have cb: "cells h b = Some (mk_node k' v' m (Some a) (root_ptr A) (root_ptr B))"
    and tb: "tree_at (cells h) (Some b) A" "tree_at (cells h) (Some b) B"
    and nB: "0 \<le> ht A" "0 \<le> ht B" "avl B"
    using tr l av avl_ht_nonneg by auto
  note g = zip_at_facts [OF tb(1)] zip_at_facts [OF tb(2)]
  show ?thesis
  proof (cases "ht A < ht B")
    case False
    have step: "runs (rebalance_node (Some a) h) P = runs (strmap_node_rotate_right (Some a) h) P" for P
      using gt False f g l by (simp add: rebalance_node_def heap_simps ca cb)
    have e: "bal l a k v r = mkn A b k' v' (mkn B a k v r)"
      using gt False l by (simp add: bal_def mkn_def)
    show ?thesis
      unfolding step
      using rotate_right_at [OF z [unfolded l] nB(1,2) nn av(3)] by (simp add: e [unfolded l] l)
  next
    case True
    then obtain B1 b1 k1 v1 m1 B2 where B: "B = Bin B1 b1 k1 v1 m1 B2"
      using nB by (cases B) auto
    have z1: "zip_at h (Bin A b k' v' m (Bin B1 b1 k1 v1 m1 B2)) (FL a k v r # fs)"
      using zip_down_left [OF z] l B by simp
    have n1: "0 \<le> ht B1" "0 \<le> ht B2" "savl (FL a k v r # fs)"
      using nB av B avl_ht_nonneg by auto
    have e: "bal l a k v r = mkn (mkn A b k' v' B1) b1 k1 v1 (mkn B2 a k v r)"
      using gt True l B by (simp add: bal_def mkn_def)
    have step: "runs (rebalance_node (Some a) h) P =
        runs (strmap_node_rotate_left (Some b) h)
          (\<lambda>x. runs (strmap_node_rotate_right (Some a) (snd x)) P)" for P
      using gt True f g l by (simp add: rebalance_node_def heap_simps ca cb case_prod_unfold)
    show ?thesis
      unfolding step
    proof (rule runs_mono [OF rotate_left_at [OF z1 nB(1) n1(1,2,3)]], erule rebalancedE)
      fix x h1
      assume x: "x = (root_ptr (mkn (mkn A b k' v' B1) b1 k1 v1 B2), h1)"
        and h1: "zip_at h1 (mkn (mkn A b k' v' B1) b1 k1 v1 B2) (FL a k v r # fs)"
        and s1: "same_except (zip_set (Bin A b k' v' m (Bin B1 b1 k1 v1 m1 B2)) (FL a k v r # fs)) h h1"
      obtain n1 where z2: "zip_at h1 (Bin (mkn (mkn A b k' v' B1) b1 k1 v1 B2) a k v n1 r) fs"
        using zip_up_left [OF h1] by auto
      have n2: "0 \<le> ht (mkn A b k' v' B1)" using n1 nB by simp
      show "runs (strmap_node_rotate_right (Some a) (snd x)) (rebalanced h (Bin l a k v n r) fs (bal l a k v r))"
        unfolding x snd_conv e
        by (rule runs_mono [OF rotate_right_at [OF z2 [unfolded mkn_def [of "mkn A b k' v' B1"]] n2 n1(2) nn av(3)]],
            erule rebalanced_trans [OF s1]) (auto simp: zip_set_def l B mkn_def)
    qed
  qed
qed

lemma rebalance_node_at:
  assumes z: "zip_at h (Bin l a k v n r) fs" and av: "avl l" "avl r" "savl fs"
  shows "runs (rebalance_node (Some a) h) (rebalanced h (Bin l a k v n r) fs (bal l a k v r))"
proof -
  consider "ht l - ht r < -1" | "ht l - ht r > 1" | "\<bar>ht l - ht r\<bar> \<le> 1" by linarith
  then show ?thesis
  proof cases
    case 3
    have ca: "cells h a = Some (mk_node k v n (cpar fs) (root_ptr l) (root_ptr r))"
      and tr: "tree_at (cells h) (Some a) l" "tree_at (cells h) (Some a) r"
      using z by (auto simp: zip_at_def)
    show ?thesis
      using 3 zip_at_facts [OF tr(1)] zip_at_facts [OF tr(2)] avl_ht_nonneg [OF av(1)] z
      by (auto simp: rebalance_node_def heap_simps ca bal_def mkn_def zip_at_def
          same_except_def zip_set_def rebalanced_def)
  qed (use rebalance_right_heavy [OF assms] rebalance_left_heavy [OF assms] in auto)
qed

text \<open>
  The recursion along the parent pointers ends at the root with the fully rebalanced tree.
\<close>

lemma bal_Bin: "\<exists>l' a' k' v' n' r'. bal l a k v r = Bin l' a' k' v' n' r'"
proof -
  have "inord (bal l a k v r) \<noteq> []" by simp
  then show ?thesis by (cases "bal l a k v r") auto
qed

lemma addrs_rotl [simp]: "addrs (rotl t) = addrs t"
  by (induction t rule: rotl.induct) (auto simp: mkn_def)

lemma addrs_rotr [simp]: "addrs (rotr t) = addrs t"
  by (induction t rule: rotr.induct) (auto simp: mkn_def)

lemma addrs_bal [simp]: "addrs (bal l a k v r) = addrs l @ a # addrs r"
  by (simp add: bal_def mkn_def)

lemma mset_addrs_rebal: "mset (addrs (rebal t fs)) = mset (addrs t) + mset (caddrs fs)"
  by (induction t fs rule: rebal.induct) auto

lemma mset_addrs_plug: "mset (addrs (plug t fs)) = mset (addrs t) + mset (caddrs fs)"
  by (induction t fs rule: plug.induct) (auto simp: mkn_def)

lemma zip_set_rebal: "zip_set (rebal t fs) [] = zip_set t fs"
  using arg_cong [OF mset_addrs_rebal, of set_mset t fs] by (simp add: zip_set_def)

lemma runs_rebalance_step:
  assumes "zip_at h (Bin l a k v n r) fs" "avl l" "avl r" "savl fs"
    and "\<And>h'. zip_at h' (bal l a k v r) fs \<Longrightarrow> same_except (zip_set (Bin l a k v n r) fs) h h' \<Longrightarrow>
      runs (if cpar fs \<noteq> NULL then strmap_node_rebalance (cpar fs) h'
            else Some (root_ptr (bal l a k v r), h')) P"
  shows "runs (strmap_node_rebalance (Some a) h) P"
proof -
  have ca: "cells h a = Some (mk_node k v n (cpar fs) (root_ptr l) (root_ptr r))"
    using assms(1) by (simp add: zip_at_def)
  show ?thesis
    apply (subst strmap_node_rebalance.simps)
    apply (simp add: runs_bind runs_rd ca del: not_None_eq cong: if_cong)
    apply (rule runs_mono [OF rebalance_node_at [OF assms(1-4)]])
    using assms(5) by (auto elim!: rebalancedE simp del: not_None_eq)
qed

lemma rebalance_at:
  assumes "zip_at h t fs" "fs \<noteq> []" "avl t" "cavl z fs" "\<bar>ht t - z\<bar> \<le> 1"
  shows "runs (strmap_node_rebalance (cpar fs) h) (rebalanced h (rebal t fs) [] (rebal t fs))"
  using assms
proof (induction fs arbitrary: t h z)
  case (Cons f fs)
  have tail: "runs (if cpar fs \<noteq> NULL then strmap_node_rebalance (cpar fs) h'
      else Some (root_ptr t', h')) (rebalanced h (rebal t (f # fs)) [] (rebal t (f # fs)))"
    if z': "zip_at h' t' fs" and s': "same_except (zip_set (rebal t (f # fs)) []) h h'"
      and t': "rebal t (f # fs) = rebal t' fs" "avl t'" "cavl z' fs" "\<bar>ht t' - z'\<bar> \<le> 1"
    for h' t' z'
  proof (cases "fs = []")
    case True
    with z' s' t'(1) show ?thesis by (simp add: runs_Some rebalanced_def)
  next
    case False
    then have "cpar fs \<noteq> NULL" by (cases fs rule: cpar.cases) auto
    with Cons.IH [OF z' False t'(2-4)] show ?thesis
      using s' t'(1) by (auto elim!: runs_mono rebalanced_trans)
  qed
  show ?case
  proof (cases f)
    case (FL a k v r)
    obtain n where z: "zip_at h (Bin t a k v n r) fs"
      using Cons.prems(1) FL zip_up_left by blast
    note lev = bal_level_left [of t r z a k v]
    have zs: "zip_set (Bin t a k v n r) fs = zip_set (rebal t (f # fs)) []"
      using zip_set_rebal [of t "f # fs"] FL by (auto simp: zip_set_def)
    have c: "avl t" "avl r" "cavl (1 + max z (ht r)) fs" "savl fs"
      using Cons.prems(3,4) FL cavl_savl by auto
    have "runs (strmap_node_rebalance (Some a) h) (rebalanced h (rebal t (f # fs)) [] (rebal t (f # fs)))"
    proof (rule runs_rebalance_step [OF z])
      fix h'
      assume "zip_at h' (bal t a k v r) fs" "same_except (zip_set (Bin t a k v n r) fs) h h'"
      then show "runs (if cpar fs \<noteq> NULL then strmap_node_rebalance (cpar fs) h'
          else Some (root_ptr (bal t a k v r), h')) (rebalanced h (rebal t (f # fs)) [] (rebal t (f # fs)))"
        by (intro tail [OF _ _ _ _ c(3)]) (use c Cons.prems(4,5) FL lev zs in auto)
    qed (use c in auto)
    then show ?thesis using FL by simp
  next
    case (FR l a k v)
    obtain n where z: "zip_at h (Bin l a k v n t) fs"
      using Cons.prems(1) FR zip_up_right by blast
    note lev = bal_level_right [of l t z a k v]
    have zs: "zip_set (Bin l a k v n t) fs = zip_set (rebal t (f # fs)) []"
      using zip_set_rebal [of t "f # fs"] FR by (auto simp: zip_set_def)
    have c: "avl t" "avl l" "cavl (1 + max (ht l) z) fs" "savl fs"
      using Cons.prems(3,4) FR cavl_savl by auto
    have "runs (strmap_node_rebalance (Some a) h) (rebalanced h (rebal t (f # fs)) [] (rebal t (f # fs)))"
    proof (rule runs_rebalance_step [OF z])
      fix h'
      assume "zip_at h' (bal l a k v t) fs" "same_except (zip_set (Bin l a k v n t) fs) h h'"
      then show "runs (if cpar fs \<noteq> NULL then strmap_node_rebalance (cpar fs) h'
          else Some (root_ptr (bal l a k v t), h')) (rebalanced h (rebal t (f # fs)) [] (rebal t (f # fs)))"
        by (intro tail [OF _ _ _ _ c(3)]) (use c Cons.prems(4,5) FR lev zs in auto)
    qed (use c in auto)
    then show ?thesis using FR by simp
  qed
qed simp

end
