(* ===== verification/Strmap_Ops.thy ===== *)
theory Strmap_Ops
  imports Strmap_Refine
begin

text \<open>
  The public operations of \<open>strmap.c\<close> on a heap that represents a map: search, lookup,
  insertion and removal. The invariant \<open>strmap_at\<close> collects everything the code relies on:
  the tree is in the heap with consistent parent pointers, it is a balanced search tree, and
  the length field holds the packed size of the entries.
\<close>

section \<open>The invariant of a map\<close>

definition val_size :: "string option \<Rightarrow> u64" where
  "val_size v = (case v of None \<Rightarrow> 0 | Some s \<Rightarrow> str_size s)"

definition entry_size :: "string \<times> string option \<Rightarrow> u64" where
  "entry_size e = str_size (fst e) + val_size (snd e)"

definition val_ok :: "string option \<Rightarrow> bool" where
  "val_ok v = (case v of None \<Rightarrow> True | Some s \<Rightarrow> cstring s)"

definition entries_ok :: "(string \<times> string option) list \<Rightarrow> bool" where
  "entries_ok es \<longleftrightarrow> (\<forall>e\<in>set es. cstring (fst e) \<and> val_ok (snd e))"

definition strmap_at :: "heap \<Rightarrow> strmap \<Rightarrow> stree \<Rightarrow> bool" where
  "strmap_at h t T \<longleftrightarrow> sm_root t = root_ptr T \<and> zip_at h T [] \<and> (\<forall>a\<in>set (addrs T). a < brk h)
     \<and> avl T \<and> bst T \<and> entries_ok (inord T)
     \<and> sm_len t = sum_list (map entry_size (inord T))"

text \<open>Nothing that was allocated outside the map is touched.\<close>

definition outside_same :: "stree \<Rightarrow> heap \<Rightarrow> heap \<Rightarrow> bool" where
  "outside_same T h h' \<longleftrightarrow> brk h \<le> brk h'
     \<and> (\<forall>x. x < brk h \<and> x \<notin> set (addrs T) \<longrightarrow> cells h' x = cells h x)"

lemma entries_ok_simps [simp]:
  "entries_ok []" "entries_ok (e # es) \<longleftrightarrow> cstring (fst e) \<and> val_ok (snd e) \<and> entries_ok es"
  "entries_ok (xs @ ys) \<longleftrightarrow> entries_ok xs \<and> entries_ok ys"
  by (auto simp: entries_ok_def)

section \<open>Search\<close>

fun side :: "frame list \<Rightarrow> int option" where
  "side [] = None"
| "side (FL a k v r # fs) = Some AVL_CHILD_LEFT"
| "side (FR l a k v # fs) = Some AVL_CHILD_RIGHT"

lemma strcmp_ptr_Some [simp]: "strcmp_ptr (Some s) (Some t) = Some (strcmp s t)"
  by (simp add: strcmp_ptr_def)

lemma rd_Some: "cells h a = Some n \<Longrightarrow> rd h (Some a) f = Some (f n)"
  by (simp add: rd_def)

lemma search_at:
  assumes "tree_at (cells h) p t" "entries_ok (inord t)" "cstring k"
    and "fs = [] \<or> (\<forall>l a v n r. t \<noteq> Bin l a k v n r)" and "t = Tip \<Longrightarrow> fs = []"
    and "descend k t fs = (t', fs')"
  shows "strmap_node_search h (root_ptr t) (Some k) = Some (root_ptr t', cpar fs', side fs')"
  using assms
proof (induction k t fs arbitrary: p rule: descend.induct)
  case (1 k fs)
  then show ?case by (simp add: strmap_node_search.simps)
next
  case (2 k l a k' v n r fs)
  have ca: "cells h a = Some (mk_node k' v n p (root_ptr l) (root_ptr r))"
    and tl: "tree_at (cells h) (Some a) l" and tr: "tree_at (cells h) (Some a) r"
    using "2.prems"(1) by auto
  have ok: "entries_ok (inord l)" "entries_ok (inord r)" "cstring k'"
    using "2.prems"(2) by auto
  consider "k = k'" | "k < k'" | "k' < k" by fastforce
  then show ?case
  proof cases
    case 1
    with "2.prems" ca show ?thesis
      by (auto simp: strmap_node_search.simps rd_Some)
  next
    case 2
    then have ne: "k \<noteq> k'" by simp
    have d: "descend k l (FL a k' v r # fs) = (t', fs')" using "2.prems"(6) 2 ne by simp
    show ?thesis
    proof (cases l)
      case Tip
      with d ca 2 ne ok "2.prems"(3) show ?thesis
        by (auto simp: strmap_node_search.simps rd_Some)
    next
      case (Bin ll la lk lv ln lr)
      with "2.IH"(1) [OF ne 2 tl ok(1) "2.prems"(3) _ _ d] tl d ca 2 ne ok "2.prems"(3)
      show ?thesis
        by (subst strmap_node_search.simps) (auto simp: rd_Some split: if_splits)
    qed
  next
    case 3
    then have ne: "k \<noteq> k'" "\<not> k < k'" by auto
    have d: "descend k r (FR l a k' v # fs) = (t', fs')" using "2.prems"(6) ne by simp
    show ?thesis
    proof (cases r)
      case Tip
      with d ca ne ok "2.prems"(3) show ?thesis
        by (auto simp: strmap_node_search.simps rd_Some)
    next
      case (Bin rl ra rk rv rn rr)
      with "2.IH"(2) [OF ne tr ok(2) "2.prems"(3) _ _ d] tr d ca ne ok "2.prems"(3)
      show ?thesis
        by (subst strmap_node_search.simps) (auto simp: rd_Some split: if_splits)
    qed
  qed
qed

lemma descend_zip: "zip_at h t fs \<Longrightarrow> descend k t fs = (t', fs') \<Longrightarrow> zip_at h t' fs'"
proof (induction k t fs rule: descend.induct)
  case (2 k l a k' v n r fs)
  then show ?case
    using zip_down_left [OF "2.prems"(1)] zip_down_right [OF "2.prems"(1)] by (auto split: if_splits)
qed auto

lemma strmap_search:
  assumes "strmap_at h t T" "cstring k" "descend k T [] = (t', fs)"
  shows "strmap_node_search h (sm_root t) (Some k) = Some (root_ptr t', cpar fs, side fs)"
    and "zip_at h t' fs" "avl t'" "cavl (ht t') fs"
  using assms search_at [of h NULL T k "[]" t' fs] descend_zip [of h T "[]" k] descend_avl [of k T "[]"]
  by (auto simp: strmap_at_def zip_at_def)

text \<open>Lookup returns the value of the key, NULL when there is none.\<close>

lemma strmap_get_at:
  assumes "strmap_at h t T" "cstring k"
  shows "strmap_get h (Some t) (Some k) =
    Some (case map_of (inord T) k of None \<Rightarrow> NULL | Some v \<Rightarrow> v)"
proof -
  obtain t' fs where d: "descend k T [] = (t', fs)" by fastforce
  note sr = strmap_search [OF assms d]
  have b: "bst T" using assms(1) by (simp add: strmap_at_def)
  show ?thesis
  proof (cases t')
    case Tip
    then show ?thesis using sr(1) lookup_missing [OF b] d by (simp add: strmap_get_def)
  next
    case (Bin l a k' v n r)
    then show ?thesis
      using sr(1,2) lookup_found [OF b] d by (auto simp: strmap_get_def zip_at_def rd_Some)
  qed
qed

section \<open>Insertion\<close>

text \<open>Linking a new leaf below the node where the search ended.\<close>

lemma link_leaf:
  assumes "zip_at h Tip fs" "new \<notin> set (caddrs fs)" "fs \<noteq> []"
    and h1_def: "h1 = h\<lparr>brk := b, cells := (cells h)(new \<mapsto> mk_node k v 1 (cpar fs) NULL NULL)\<rparr>"
  shows "runs (if the (side fs) = AVL_CHILD_LEFT
      then wr (cpar fs) (sn_left_update (\<lambda>_. Some new)) h1
      else wr (cpar fs) (sn_right_update (\<lambda>_. Some new)) h1)
    (\<lambda>h2. zip_at h2 (Bin Tip new k v 1 Tip) fs \<and> brk h2 = b
       \<and> (\<forall>x. x \<noteq> new \<and> x \<notin> set (caddrs fs) \<longrightarrow> cells h2 x = cells h x))"
proof (cases fs rule: cpar.cases)
  case (2 a k' v' r gs)
  then show ?thesis
    using assms by (auto simp: h1_def heap_simps zip_at_def AVL_CHILD_LEFT_def)
next
  case (3 l a k' v' gs)
  then show ?thesis
    using assms by (auto simp: h1_def heap_simps zip_at_def AVL_CHILD_LEFT_def AVL_CHILD_RIGHT_def)
qed (use assms in auto)

lemma sum_entry_insert:
  assumes "bst T" "avl T" "descend k T [] = (Tip, fs)"
  shows "sum_list (map entry_size (inord (rebal (Bin Tip new k v 1 Tip) fs))) =
    sum_list (map entry_size (inord T)) + (str_size k + val_size v)"
  using descend_split(1) [OF assms(3,1)]
  by (simp add: inord_rebal entry_size_def algebra_simps)

lemma strmap_node_new_mk:
  "strmap_node_new (Some k) v h =
     (Some (brk h), h\<lparr>cells := (cells h)(brk h \<mapsto> mk_node k v 1 NULL NULL NULL), brk := Suc (brk h)\<rparr>)"
  by (simp add: strmap_node_new_def mk_node_def)

lemma plug_subtree: "tree_at m NULL (plug t fs) \<Longrightarrow> tree_at m (cpar fs) t"
  by (induction t fs rule: plug.induct) (auto simp: mkn_def)

lemma plug_root_cong: "root_ptr t = root_ptr t' \<Longrightarrow> root_ptr (plug t fs) = root_ptr (plug t' fs)"
  by (induction t fs arbitrary: t' rule: plug.induct) (auto simp: mkn_def)

lemma plug_replace:
  assumes "tree_at m NULL (plug t fs)" "distinct (addrs (plug t fs))"
    and "tree_at m' (cpar fs) t2" "ht t2 = ht t" "root_ptr t2 = root_ptr t"
    and "\<And>x. x \<notin> set (addrs t) \<Longrightarrow> m' x = m x"
  shows "tree_at m' NULL (plug t2 fs)"
  using assms
proof (induction t fs arbitrary: t2 rule: plug.induct)
  case (2 t a k v r fs)
  have m: "tree_at m (cpar fs) (mkn t a k v r)" using plug_subtree "2.prems"(1) by simp
  have d: "distinct (addrs (mkn t a k v r))"
    using "2.prems"(2) mset_addrs_plug [of "mkn t a k v r" fs]
    by (metis distinct_append mset_append mset_eq_imp_distinct_iff plug.simps(2))
  have "tree_at m' (Some a) r"
    by (rule tree_at_frame [of m _ _ "set (addrs t)"]) (use m d "2.prems"(6) in \<open>auto simp: mkn_def\<close>)
  then have "tree_at m' (cpar fs) (mkn t2 a k v r)"
    using m d "2.prems" by (auto simp: mkn_def)
  then show ?case using "2.IH" [of "mkn t2 a k v r"] "2.prems" by (auto simp: mkn_def)
next
  case (3 t l a k v fs)
  have m: "tree_at m (cpar fs) (mkn l a k v t)" using plug_subtree "3.prems"(1) by simp
  have d: "distinct (addrs (mkn l a k v t))"
    using "3.prems"(2) mset_addrs_plug [of "mkn l a k v t" fs]
    by (metis distinct_append mset_append mset_eq_imp_distinct_iff plug.simps(3))
  have "tree_at m' (Some a) l"
    by (rule tree_at_frame [of m _ _ "set (addrs t)"]) (use m d "3.prems"(6) in \<open>auto simp: mkn_def\<close>)
  then have "tree_at m' (cpar fs) (mkn l a k v t2)"
    using m d "3.prems" by (auto simp: mkn_def)
  then show ?case using "3.IH" [of "mkn l a k v t2"] "3.prems" by (auto simp: mkn_def)
qed simp

lemma entries_ok_insert:
  assumes "bst T" "avl T" "entries_ok (inord T)" "cstring k" "val_ok v"
  shows "entries_ok (inord (insert_tree new k v T))"
  by (rule insert_tree_inord [OF assms(1,2), of new k v]) (use assms in auto)

lemma strmap_at_insertI:
  assumes "strmap_at h t T" "cstring k" "val_ok v" "zip_at h' (insert_tree new k v T) []"
    and "\<forall>a\<in>set (addrs (insert_tree new k v T)). a < brk h'"
    and "sm_root u = root_ptr (insert_tree new k v T)"
    and "sm_len u = sum_list (map entry_size (inord (insert_tree new k v T)))"
  shows "strmap_at h' u (insert_tree new k v T)"
  using assms bst_insert_tree avl_insert_tree entries_ok_insert by (simp add: strmap_at_def)

abbreviation set_post :: "heap \<Rightarrow> string \<Rightarrow> string option \<Rightarrow> stree \<Rightarrow> int \<times> strmap option \<times> heap \<Rightarrow> bool" where
  "set_post h k v T \<equiv> \<lambda>(rc, t', h'). rc = STRMAP_SUCCESS
     \<and> (\<exists>u. t' = Some u \<and> strmap_at h' u (insert_tree (brk h) k v T)) \<and> outside_same T h h'"

lemma strmap_set_new:
  assumes "strmap_at h t T" "cstring k" "val_ok v" "descend k T [] = (Tip, fs)"
  shows "runs (strmap_set (Some t) (Some k) v h) (set_post h k v T)"
proof -
  note sr = strmap_search [OF assms(1,2,4)]
  have T: "bst T" "avl T" "entries_ok (inord T)" "\<forall>a\<in>set (addrs T). a < brk h" "distinct (addrs T)"
    and len: "sm_len t = sum_list (map entry_size (inord T))"
    using assms(1) by (auto simp: strmap_at_def zip_at_def)
  have ins: "insert_tree (brk h) k v T = rebal (Bin Tip (brk h) k v 1 Tip) fs"
    using assms(4) by (simp add: insert_tree_def)
  have ca: "mset (caddrs fs) = mset (addrs T)"
    using descend_addrs [OF assms(4)] by simp
  then have sa: "set (caddrs fs) = set (addrs T)" by (metis set_mset_mset)
  have fresh: "brk h \<notin> set (caddrs fs)" using T(4) sa by auto
  have good: "strmap_at h' u (insert_tree (brk h) k v T)"
    if "zip_at h' (insert_tree (brk h) k v T) []" "brk h' = Suc (brk h)"
      "sm_root u = root_ptr (insert_tree (brk h) k v T)"
      "sm_len u = sm_len t + (str_size k + val_size v)" for h' u
  proof -
    have "set (addrs (insert_tree (brk h) k v T)) = insert (brk h) (set (addrs T))"
      using arg_cong [OF mset_addrs_rebal [of "Bin Tip (brk h) k v 1 Tip" fs], of set_mset] ins sa by simp
    moreover have "sm_len u = sum_list (map entry_size (inord (insert_tree (brk h) k v T)))"
      using sum_entry_insert [OF T(1,2) assms(4), of "brk h" v] that(4) len by (simp add: ins)
    ultimately show ?thesis
      using that T(4) by (intro strmap_at_insertI [OF assms(1-3)]) (auto simp: less_Suc_eq)
  qed
  show ?thesis
  proof (cases "fs = []")
    case True
    then have "T = Tip" using sa by (cases T) auto
    let ?h' = "h\<lparr>cells := (cells h)(brk h \<mapsto> mk_node k v 1 NULL NULL NULL), brk := Suc (brk h)\<rparr>"
    have "zip_at ?h' (insert_tree (brk h) k v T) []" using True ins by (simp add: zip_at_def)
    then show ?thesis
      using sr(1) True ins good [of ?h'] \<open>T = Tip\<close>
      by (auto simp: strmap_set_def heap_simps strmap_node_new_mk outside_same_def val_size_def)
  next
    case False
    obtain sd where c: "cpar fs \<noteq> NULL" "side fs = Some sd"
      using False by (cases fs rule: cpar.cases) auto
    let ?h1 = "h\<lparr>brk := Suc (brk h), cells := (cells h)(brk h \<mapsto> mk_node k v 1 (cpar fs) NULL NULL)\<rparr>"
    have step: "runs (strmap_set (Some t) (Some k) v h) P =
      runs (if the (side fs) = AVL_CHILD_LEFT
          then wr (cpar fs) (sn_left_update (\<lambda>_. Some (brk h))) ?h1
          else wr (cpar fs) (sn_right_update (\<lambda>_. Some (brk h))) ?h1)
        (\<lambda>h2. runs (strmap_node_rebalance (cpar fs) h2)
           (\<lambda>x. P (STRMAP_SUCCESS, Some (t\<lparr>sm_len := sm_len t + (str_size k + val_size v),
              sm_root := fst x\<rparr>), snd x)))" for P
      using sr(1) c
      by (simp add: strmap_set_def heap_simps strmap_node_new_mk val_size_def case_prod_unfold
          del: not_None_eq cong: if_cong)
    show ?thesis
      unfolding step
      apply (rule runs_mono [OF link_leaf [OF sr(2) fresh False refl]])
      apply (rule runs_mono [OF rebalance_at [where z = 0]])
      using False sr(4) ins good zip_set_rebal [of "Bin Tip (brk h) k v 1 Tip" fs] sa
      by (auto simp: rebalanced_def outside_same_def same_except_def zip_set_def)
  qed
qed

lemma sum_entry_update:
  assumes "bst T" "descend k T [] = (Bin l a k' w n r, fs)"
  shows "sum_list (map entry_size (inord (plug (Bin l a k' v n r) fs))) =
    sum_list (map entry_size (inord T)) - val_size w + val_size v"
  using descend_split(1) [OF assms(2,1)] by (simp add: inord_plug entry_size_def algebra_simps)

lemma mk_node_value:
  "mk_node k w n p l r\<lparr>sn_value := v, sn_value_len := val_size v\<rparr> = mk_node k v n p l r"
  by (simp add: mk_node_def val_size_def)

lemma strmap_set_existing:
  assumes "strmap_at h t T" "cstring k" "val_ok v" "descend k T [] = (Bin l a k' w n r, fs)"
  shows "runs (strmap_set (Some t) (Some k) v h) (set_post h k v T)"
proof -
  note sr = strmap_search [OF assms(1,2,4)]
  have T: "bst T" "avl T" "tree_at (cells h) NULL T" "distinct (addrs T)" "\<forall>a\<in>set (addrs T). a < brk h"
    and len: "sm_len t = sum_list (map entry_size (inord T))"
    using assms(1) by (auto simp: strmap_at_def zip_at_def)
  have ins: "insert_tree (brk h) k v T = plug (Bin l a k' v n r) fs"
    using assms(4) by (simp add: insert_tree_def)
  have pl: "plug (Bin l a k' w n r) fs = T"
    using descend_plug [OF assms(4) T(2)] by simp
  have ms: "mset (addrs (plug (Bin l a k' v n r) fs)) = mset (addrs T)"
    using mset_addrs_plug [of "Bin l a k' w n r" fs] mset_addrs_plug [of "Bin l a k' v n r" fs] pl by simp
  then have sa: "set (addrs (plug (Bin l a k' v n r) fs)) = set (addrs T)" by (metis set_mset_mset)
  have ca: "cells h a = Some (mk_node k' w n (cpar fs) (root_ptr l) (root_ptr r))"
    and d: "distinct (addrs (Bin l a k' w n r))" and t': "tree_at (cells h) (cpar fs) (Bin l a k' w n r)"
    using sr(2) by (auto simp: zip_at_def)
  let ?h' = "h\<lparr>cells := (cells h)(a \<mapsto> mk_node k' v n (cpar fs) (root_ptr l) (root_ptr r))\<rparr>"
  let ?u = "t\<lparr>sm_len := sm_len t - val_size w + val_size v\<rparr>"
  have z: "zip_at ?h' (insert_tree (brk h) k v T) []"
    unfolding zip_at_def ins
    using plug_replace [of "cells h" "Bin l a k' w n r" fs "cells ?h'" "Bin l a k' v n r"] pl T d t'
      mset_eq_imp_distinct_iff [OF ms] by auto
  have root: "root_ptr (plug (Bin l a k' v n r) fs) = root_ptr (plug (Bin l a k' w n r) fs)"
    by (rule plug_root_cong) simp
  have "strmap_at ?h' ?u (insert_tree (brk h) k v T)"
    using strmap_at_insertI [OF assms(1-3) z, of ?u] T sa ins root pl len assms(1)
      sum_entry_update [OF T(1) assms(4), of v]
    by (auto simp: strmap_at_def)
  moreover have "a \<in> set (addrs T)" using sa pl ms mset_addrs_plug [of "Bin l a k' v n r" fs]
    by (metis Un_iff addrs.simps(2) in_set_conv_decomp mset_append set_append set_mset_mset set_mset_union)
  moreover have "strmap_set (Some t) (Some k) v h = Some (STRMAP_SUCCESS, Some ?u, ?h')"
    using sr(1) ca by (cases v) (simp_all add: strmap_set_def rd_def wr_def val_size_def mk_node_def)
  ultimately show ?thesis by (auto simp: runs_Some outside_same_def)
qed

lemma strmap_set_at:
  assumes "strmap_at h t T" "cstring k" "val_ok v"
  shows "runs (strmap_set (Some t) (Some k) v h) (set_post h k v T)"
proof -
  obtain t' fs where "descend k T [] = (t', fs)" by fastforce
  then show ?thesis
    using strmap_set_new [OF assms, of fs] strmap_set_existing [OF assms] by (cases t') blast+
qed

end
