(* ===== verification/Strmap_Unset.thy ===== *)
theory Strmap_Unset
  imports Strmap_Ops
begin

text \<open>
  Removal of a key from the map. A node with at most one child is spliced out of the tree; a
  node with two children is replaced by the rightmost node of its left subtree. Both are
  followed by rebalancing from the lowest node whose subtree changed.
\<close>

section \<open>Releasing the removed node\<close>

lemma delete_single_node:
  assumes "cells h a = Some n" "sn_left n = NULL" "sn_right n = NULL"
  shows "strmap_node_delete (Some a) h =
    Some (STRMAP_SUCCESS, h\<lparr>cells := (cells h)(a := None)\<rparr>)"
  using assms
  by (simp add: strmap_node_delete.simps [of "Some a"] strmap_node_delete.simps [of NULL]
      rd_def wr_def spawn_free_def)

section \<open>Linking a subtree to the parent\<close>

lemma mk_node_eq [simp]: "mk_node k v n p l r = mk_node k' v' n' p' l' r' \<longleftrightarrow>
    k = k' \<and> v = v' \<and> n = n' \<and> p = p' \<and> l = l' \<and> r = r'"
  by (auto simp: mk_node_def)

definition link_child :: "ptr \<Rightarrow> int option \<Rightarrow> ptr \<Rightarrow> heap \<Rightarrow> heap option" where
  "link_child par child node h =
     (if par \<noteq> NULL then do {
        c \<leftarrow> child;
        if c = AVL_CHILD_LEFT then wr par (sn_left_update (\<lambda>_. node)) h
        else wr par (sn_right_update (\<lambda>_. node)) h
      } else Some h)"

lemma runs_link_child:
  assumes c: "ctx_at (cells h) p fs" "distinct (caddrs fs)"
    and P: "\<And>h'. ctx_at (cells h') q fs \<Longrightarrow> same_except (set_option (cpar fs)) h h' \<Longrightarrow> P h'"
  shows "runs (link_child (cpar fs) (side fs) q h) P"
proof (cases fs rule: cpar.cases)
  case 1
  then show ?thesis using P [of h] by (simp add: link_child_def runs_Some same_except_def)
next
  case (2 a k v r gs)
  then show ?thesis
    using c by (auto simp: link_child_def heap_simps same_except_def intro!: P)
next
  case (3 l a k v gs)
  then show ?thesis
    using c by (auto simp: link_child_def heap_simps same_except_def AVL_CHILD_LEFT_def
        AVL_CHILD_RIGHT_def intro!: P)
qed

lemma runs_replace_child:
  assumes c: "ctx_at (cells h) (Some a) fs" "distinct (caddrs fs)" "a \<notin> set (caddrs fs)" "fs \<noteq> []"
    and P: "\<And>h'. ctx_at (cells h') q fs \<Longrightarrow> same_except (set_option (cpar fs)) h h' \<Longrightarrow> P h'"
  shows "runs (replace_child (cpar fs) (Some a) q h) P"
proof (cases fs rule: cpar.cases)
  case (2 b k v r gs)
  then show ?thesis
    using c by (auto simp: replace_child_def heap_simps same_except_def intro!: P)
next
  case (3 l b k v gs)
  then show ?thesis
    using c by (auto simp: replace_child_def heap_simps same_except_def intro!: P)
qed (use c(4) in simp)

section \<open>Splicing out a node with at most one child\<close>

lemma extract_single_at:
  assumes z: "zip_at h (Bin l a k v n r) fs" and one: "l = Tip \<or> r = Tip"
    and c: "c = (if l \<noteq> Tip then l else r)"
  shows "runs (strmap_node_extract_single (Some a) h)
    (\<lambda>x. fst x = root_ptr c \<and> zip_at (snd x) c fs
       \<and> same_except (set (addrs c) \<union> set_option (cpar fs)) h (snd x))"
proof -
  have ca: "cells h a = Some (mk_node k v n (cpar fs) (root_ptr l) (root_ptr r))"
    and cx: "ctx_at (cells h) (Some a) fs" and tc: "tree_at (cells h) (Some a) c"
    and d: "distinct (addrs c)" "distinct (caddrs fs)" "set (addrs c) \<inter> set (caddrs fs) = {}"
      "a \<notin> set (addrs c)" "a \<notin> set (caddrs fs)"
    using z c by (auto simp: zip_at_def)
  have rc: "(if root_ptr l \<noteq> NULL then root_ptr l else if root_ptr r \<noteq> NULL then root_ptr r else NULL)
      = root_ptr c"
    using c by (cases l; cases r) auto
  show ?thesis
    unfolding strmap_node_extract_single_def
    apply (simp only: runs_bind runs_rd ca mk_node_sel rc Let_def if_True option.distinct simp_thms)
    apply (rule runs_set_parent [OF tc d(1)])
    subgoal premises prem for m'
    proof -
      have same: "m' x = cells h x" if "x \<notin> set (addrs c)" for x
        using prem(2) [of x] that by simp
      have cx': "ctx_at m' (Some a) fs"
        by (rule ctx_at_frame [OF cx, of "set (addrs c)"]) (use same d in auto)
      have fin: "zip_at h' c fs \<and> same_except (set (addrs c) \<union> set_option (cpar fs)) h h'"
        if "ctx_at (cells h') (root_ptr c) fs" "same_except (set_option (cpar fs)) (h\<lparr>cells := m'\<rparr>) h'" for h'
      proof -
        have "tree_at (cells h') (cpar fs) c"
          by (rule tree_at_frame [OF prem(1), of "set (caddrs fs)"])
            (use that(2) d cpar_caddrs [of fs] in \<open>auto simp: same_except_def\<close>)
        then show ?thesis
          using that d same by (auto simp: zip_at_def same_except_def)
      qed
      show ?thesis
      proof (cases "fs = []")
        case True
        then show ?thesis
          using prem(1) d same by (auto simp: runs_Some zip_at_def same_except_def)
      next
        case False
        then have "cpar fs \<noteq> NULL" by (cases fs rule: cpar.cases) auto
        then show ?thesis
          using False cx' d fin
          by (auto simp: runs_Some simp del: not_None_eq intro!: runs_replace_child [where a = a])
      qed
    qed
    done
qed

section \<open>A node with at most one child\<close>

lemma unset_one_at:
  assumes z: "zip_at h (Bin l a k v n r) fs" and av: "avl (Bin l a k v n r)" "cavl n fs"
    and one: "\<not> (l \<noteq> Tip \<and> r \<noteq> Tip)" and c: "c = (if l \<noteq> Tip then l else r)"
  shows "runs (unset_one (Some a) (cpar fs) h) (rebalanced h (rebal c fs) [] (rebal c fs))"
proof -
  have cc: "avl c" "ht c = n - 1" using avl_single_child [OF av(1) one] c by auto
  have one': "l = Tip \<or> r = Tip" using one by auto
  have zs: "zip_set (rebal c fs) [] = zip_set c fs" by (rule zip_set_rebal)
  show ?thesis
    unfolding unset_one_def runs_bind case_prod_unfold
  proof (rule runs_mono [OF extract_single_at [OF z one' c]], elim conjE)
    fix x assume x: "fst x = root_ptr c" "zip_at (snd x) c fs"
      and s: "same_except (set (addrs c) \<union> set_option (cpar fs)) h (snd x)"
    have s': "same_except (zip_set c fs) h (snd x)"
      by (rule same_except_mono [OF s]) (use cpar_caddrs [of fs] in \<open>auto simp: zip_set_def\<close>)
    show "runs (if cpar fs \<noteq> NULL then strmap_node_rebalance (cpar fs) (snd x)
        else Some (fst x, snd x)) (rebalanced h (rebal c fs) [] (rebal c fs))"
    proof (cases "fs = []")
      case True
      then show ?thesis using x s' by (simp add: runs_Some rebalanced_def)
    next
      case False
      then have "cpar fs \<noteq> NULL" by (cases fs rule: cpar.cases) auto
      then show ?thesis
        using rebalance_at [OF x(2) False cc(1) av(2)] cc(2) s' zs
        by (auto elim!: runs_mono rebalanced_trans simp del: not_None_eq)
    qed
  qed
qed

section \<open>A node with two children\<close>

lemma rightmost_at:
  assumes "tree_at (cells h) p t" "t \<noteq> Tip" "rmost t gs = ((l2, a2, k2, v2), gs')"
  shows "strmap_node_rightmost h (root_ptr t) = Some (Some a2)"
proof -
  have "rightmost_loop h (root_ptr t) = Some (Some a2)"
    using assms
  proof (induction t gs arbitrary: p rule: rmost.induct)
    case (1 l a k v n fs)
    then show ?case by (subst rightmost_loop.simps) (auto simp: rd_Some)
  next
    case (2 l a k v n rl ra rk rv rn rr fs)
    have "rightmost_loop h (Some a) = rightmost_loop h (Some ra)"
      using "2.prems"(1) by (subst rightmost_loop.simps) (auto simp: rd_Some)
    then show ?case using "2.IH" [of "Some a"] "2.prems" by auto
  qed simp
  then show ?thesis using assms(2) by (cases t) (auto simp: strmap_node_rightmost_def)
qed

lemma rmost_zip:
  "zip_at h t fs \<Longrightarrow> t \<noteq> Tip \<Longrightarrow> rmost t fs = ((l2, a2, k2, v2), gs) \<Longrightarrow>
     \<exists>n2. zip_at h (Bin l2 a2 k2 v2 n2 Tip) gs"
proof (induction t fs rule: rmost.induct)
  case (2 l a k v n rl ra rk rv rn rr fs)
  show ?case
    using "2.IH" zip_down_right [OF "2.prems"(1)] "2.prems"(3) by simp
qed auto

text \<open>
  A subtree and the frames directly above it are a tree again; what is known of that tree in
  another heap, below another context, is known of the subtree.
\<close>

lemma zip_up_all:
  "zip_at h t (gs @ G) \<Longrightarrow>
     \<exists>L. zip_at h L G \<and> (gs \<noteq> [] \<longrightarrow> L \<noteq> Tip) \<and> set (addrs L) = zip_set t gs
       \<and> (\<forall>h' G'. zip_at h' L G' \<longrightarrow> zip_at h' t (gs @ G'))"
proof (induction gs arbitrary: t)
  case Nil
  then show ?case by (auto simp: zip_set_def)
next
  case (Cons f gs)
  obtain t' where t': "zip_at h t' (gs @ G)" "t' \<noteq> Tip"
      "set (addrs t') \<union> set (caddrs gs) = zip_set t (f # gs)"
      "\<And>h' G'. zip_at h' t' G' \<Longrightarrow> zip_at h' t (f # G')"
  proof (cases f)
    case (FL a k v r)
    then obtain n where "zip_at h (Bin t a k v n r) (gs @ G)"
      using zip_up_left Cons.prems by fastforce
    then show ?thesis
      using that [of "Bin t a k v n r"] zip_down_left FL by (auto simp: zip_set_def)
  next
    case (FR l a k v)
    then obtain n where "zip_at h (Bin l a k v n t) (gs @ G)"
      using zip_up_right Cons.prems by fastforce
    then show ?thesis
      using that [of "Bin l a k v n t"] zip_down_right FR by (auto simp: zip_set_def)
  qed
  obtain L where L: "zip_at h L G" "set (addrs L) = zip_set t' gs"
      "\<And>h' G'. zip_at h' L G' \<Longrightarrow> zip_at h' t' (gs @ G')"
    using Cons.IH [OF t'(1)] by auto
  have "L \<noteq> Tip" using L(2) t'(2) by (cases t') (auto simp: zip_set_def)
  then show ?case
    using L t'(3,4) by (intro exI [of _ L]) (auto simp: zip_set_def)
qed

text \<open>The replacement takes the right subtree and the place of the removed node.\<close>

lemma wr_parent_set_parent:
  "t \<noteq> Tip \<Longrightarrow> wr (root_ptr t) (sn_parent_update (\<lambda>_. p)) h = set_parent (root_ptr t) p h"
  by (cases t) (simp_all add: set_parent_def)

lemma take_place_at:
  assumes ca: "cells h a = Some (mk_node k v n (cpar fs) x (root_ptr r))"
    and cb: "cells h b = Some (mk_node k2 v2 n2 q (root_ptr L) y)"
    and t: "tree_at (cells h) (Some b) L" "tree_at (cells h) (Some a) r" "r \<noteq> Tip"
    and c: "ctx_at (cells h) (Some a) fs"
    and d: "distinct (a # b # addrs L @ addrs r @ caddrs fs)"
  shows "runs (take_place (Some a) (Some b) (cpar fs) (side fs) h)
    (\<lambda>x. fst x = q \<and> zip_at (snd x) (Bin L b k2 v2 n2 r) fs
       \<and> same_except (zip_set (Bin L b k2 v2 n2 r) fs) h (snd x))"
proof -
  let ?h1 = "h\<lparr>cells := (cells h)(b \<mapsto> mk_node k2 v2 n2 q (root_ptr L) (root_ptr r))\<rparr>"
  have ab: "a \<noteq> b" "b \<noteq> a" using d by auto
  have r1: "tree_at (cells ?h1) (Some a) r" "distinct (addrs r)" using t d by auto
  have eq: "runs (take_place (Some a) (Some b) (cpar fs) (side fs) h) P =
    runs (set_parent (root_ptr r) (Some b) ?h1) (\<lambda>h. runs (rd h (Some b) sn_parent)
      (\<lambda>rp. runs (wr (Some b) (sn_parent_update (\<lambda>_. cpar fs)) h)
        (\<lambda>h. runs (link_child (cpar fs) (side fs) (Some b) h) (\<lambda>h. P (rp, h)))))" for P
    using ab by (simp add: take_place_def link_child_def runs_bind runs_rd runs_wr ca cb runs_Some
        wr_parent_set_parent [OF t(3)])
  show ?thesis
    unfolding eq
  proof (rule runs_set_parent [OF r1])
    fix m' assume m': "tree_at m' (Some b) r" "\<And>x. root_ptr r \<noteq> Some x \<Longrightarrow> m' x = cells ?h1 x"
    have mb: "m' b = Some (mk_node k2 v2 n2 q (root_ptr L) (root_ptr r))"
      using m'(2) [of b] d by simp
    let ?m2 = "m'(b \<mapsto> mk_node k2 v2 n2 (cpar fs) (root_ptr L) (root_ptr r))"
    have same: "?m2 x = cells h x" if "x \<notin> set (b # addrs r)" for x
      using m'(2) [of x] that by simp
    have c2: "ctx_at ?m2 (Some a) fs"
      by (rule ctx_at_frame [OF c same], assumption) (use d in auto)
    have L2: "tree_at ?m2 (Some b) L"
      by (rule tree_at_frame [OF t(1) same], assumption) (use d in auto)
    have r2: "tree_at ?m2 (Some b) r" using m'(1) d by simp
    show "runs (rd (?h1\<lparr>cells := m'\<rparr>) (Some b) sn_parent)
      (\<lambda>rp. runs (wr (Some b) (sn_parent_update (\<lambda>_. cpar fs)) (?h1\<lparr>cells := m'\<rparr>))
        (\<lambda>h'. runs (link_child (cpar fs) (side fs) (Some b) h')
          (\<lambda>h'. fst (rp, h') = q \<and> zip_at (snd (rp, h')) (Bin L b k2 v2 n2 r) fs
            \<and> same_except (zip_set (Bin L b k2 v2 n2 r) fs) h (snd (rp, h')))))"
      apply (simp add: runs_rd runs_wr mb)
      apply (rule runs_link_child [where p = "Some a"])
      using c2 apply simp
      using d apply simp
      subgoal premises prem for h'
      proof -
        have fr: "x \<notin> set (caddrs fs) \<Longrightarrow> cells h' x = ?m2 x" for x
          using prem(2) cpar_caddrs [of fs] by (auto simp: same_except_def)
        have "tree_at (cells h') (Some b) L"
          by (rule tree_at_frame [OF L2 fr], assumption) (use d in auto)
        moreover have "tree_at (cells h') (Some b) r"
          by (rule tree_at_frame [OF r2 fr], assumption) (use d in auto)
        moreover have "same_except (zip_set (Bin L b k2 v2 n2 r) fs) h h'"
          using prem(2) same cpar_caddrs [of fs] by (auto simp: same_except_def zip_set_def)
        ultimately show ?thesis
          using prem(1) d fr [of b] by (auto simp: zip_at_def)
      qed
      done
  qed
qed

text \<open>The replacement is cut out of the left subtree and takes what is left of it.\<close>

lemma rmost_in: "rmost t fs = ((l2, a2, k2, v2), gs) \<Longrightarrow> t \<noteq> Tip \<Longrightarrow> a2 \<in> set (addrs t)"
  by (induction t fs rule: rmost.induct) auto

lemma rmost_here:
  assumes "rmost l [] = ((l2, a2, k2, v2), gs)" "l \<noteq> Tip" "distinct (addrs l)"
  shows "if gs = [] then \<exists>n2. l = Bin l2 a2 k2 v2 n2 Tip else root_ptr l \<noteq> Some a2"
proof -
  obtain ll b k v n lr where l: "l = Bin ll b k v n lr" using assms(2) by (cases l) auto
  show ?thesis
  proof (cases lr)
    case Tip
    then show ?thesis using assms(1) l by auto
  next
    case (Bin rl ra rk rv rn rr)
    then have r: "rmost lr [FR ll b k v] = ((l2, a2, k2, v2), gs)" "lr \<noteq> Tip" using assms(1) l by auto
    then have "gs \<noteq> []" using rmost_append [of lr "[]" "[FR ll b k v]"] by auto
    moreover have "a2 \<in> set (addrs lr)" using rmost_in [OF r] .
    ultimately show ?thesis using assms(3) l by auto
  qed
qed

definition left_taken where
  "left_taken h h' l2 gs fs r a k v a2 k2 v2 n2 L \<longleftrightarrow>
    (\<exists>n x. cells h' a = Some (mk_node k v n (cpar fs) x (root_ptr r)))
    \<and> cells h' a2 = Some (mk_node k2 v2 n2 (if gs = [] then Some a else cpar gs) (root_ptr L) NULL)
    \<and> tree_at (cells h') (Some a2) L \<and> tree_at (cells h') (Some a) r \<and> ctx_at (cells h') (Some a) fs
    \<and> distinct (a # a2 # addrs L @ addrs r @ caddrs fs) \<and> set (addrs L) = zip_set l2 gs
    \<and> same_except (insert a2 (zip_set l2 gs)) h h'
    \<and> (\<forall>h'' G. zip_at h'' L G \<longrightarrow> zip_at h'' l2 (gs @ G))"

lemma take_left_child:
  assumes z: "zip_at h (Bin (Bin l2 a2 k2 v2 n2 Tip) a k v n r) fs"
  shows "runs (take_left (Some a) (Some a2) h)
    (\<lambda>h'. left_taken h h' l2 [] fs r a k v a2 k2 v2 n2 l2)"
  using z by (auto simp: left_taken_def take_left_def zip_at_def runs_bind runs_rd runs_Some zip_set_def same_except_def)

lemma cpar_append: "gs \<noteq> [] \<Longrightarrow> cpar (gs @ fs) = cpar gs"
  by (cases gs rule: cpar.cases) auto

lemma take_left_deep:
  assumes z: "zip_at h (Bin l a k v n r) fs" and l: "root_ptr l \<noteq> Some a2"
    and z2: "zip_at h (Bin l2 a2 k2 v2 n2 Tip) (gs @ FL a k v r # fs)" and gs: "gs \<noteq> []"
  shows "runs (take_left (Some a) (Some a2) h)
    (\<lambda>h'. \<exists>L. left_taken h h' l2 gs fs r a k v a2 k2 v2 n2 L)"
proof -
  have ca: "cells h a = Some (mk_node k v n (cpar fs) (root_ptr l) (root_ptr r))"
    using z by (simp add: zip_at_def)
  have cb: "cells h a2 = Some (mk_node k2 v2 n2 (cpar gs) (root_ptr l2) NULL)"
    and d: "a2 \<notin> set (addrs l2)" "a2 \<noteq> a" "a2 \<notin> set (caddrs gs)" "a \<notin> set (addrs l2)"
      "a \<notin> set (caddrs gs)" "a2 \<notin> set (addrs r)" "a2 \<notin> set (caddrs fs)"
    using z2 gs by (auto simp: zip_at_def caddrs_append cpar_append)
  show ?thesis
    unfolding take_left_def
    apply (simp add: runs_bind runs_rd ca l [symmetric] del: not_None_eq)
    apply (simp add: case_prod_unfold)
    apply (rule runs_mono [OF extract_single_at [OF z2 _ refl]])
     apply simp
    subgoal premises prem for x
    proof -
      define h1 where "h1 = snd x"
      have z1: "zip_at h1 l2 (gs @ FL a k v r # fs)"
        and s1: "same_except (set (addrs l2) \<union> set_option (cpar gs)) h h1"
        using prem gs by (auto simp: h1_def cpar_append split: if_splits)
      have ca1: "cells h1 a = cells h a" "cells h1 a2 = cells h a2"
        using s1 d cpar_caddrs [of gs] by (auto simp: same_except_def)
      obtain L where L: "zip_at h1 L (FL a k v r # fs)" "L \<noteq> Tip" "set (addrs L) = zip_set l2 gs"
          "\<And>h' G'. zip_at h' L G' \<Longrightarrow> zip_at h' l2 (gs @ G')"
        using zip_up_all [OF z1] gs by blast
      have rl: "root_ptr L = root_ptr l" using L(1) ca1 ca by (auto simp: zip_at_def)
      let ?h2 = "h1\<lparr>cells := (cells h1)(a2 \<mapsto> mk_node k2 v2 n2 (cpar gs) (root_ptr L) NULL)\<rparr>"
      have a2L: "a2 \<notin> set (addrs L)" using L(3) d by (auto simp: zip_set_def)
      have tL: "tree_at (cells ?h2) (Some a) L" "distinct (addrs L)"
        using L(1) a2L by (auto simp: zip_at_def)
      have "runs (set_parent (root_ptr L) (Some a2) ?h2)
          (\<lambda>h'. \<exists>L. left_taken h h' l2 gs fs r a k v a2 k2 v2 n2 L)"
      proof (rule runs_set_parent [OF tL], rule exI [of _ L])
        fix m' assume m': "tree_at m' (Some a2) L" "\<And>x. root_ptr L \<noteq> Some x \<Longrightarrow> m' x = cells ?h2 x"
        have same: "m' x = cells h1 x" if "x \<notin> set (a2 # addrs L)" for x
          using m'(2) [of x] that by simp
        have dd: "distinct (a # a2 # addrs L @ addrs r @ caddrs fs)"
          using L(1) d a2L by (auto simp: zip_at_def)
        have "tree_at m' (Some a) r"
          by (rule tree_at_frame [of "cells h1" _ _ "set (a2 # addrs L)"])
            (use L(1) same dd in \<open>auto simp: zip_at_def\<close>)
        moreover have "ctx_at m' (Some a) fs"
          by (rule ctx_at_frame [of "cells h1" _ _ "set (a2 # addrs L)"])
            (use L(1) same dd in \<open>auto simp: zip_at_def\<close>)
        moreover have "same_except (insert a2 (zip_set l2 gs)) h (?h2\<lparr>cells := m'\<rparr>)"
          using s1 same L(3) cpar_caddrs [of gs] by (auto simp: same_except_def zip_set_def)
        moreover have "m' a2 = Some (mk_node k2 v2 n2 (cpar gs) (root_ptr L) NULL)"
          using m'(2) [of a2] a2L by simp
        moreover have "m' a = cells h a" using same [of a] dd ca1 by auto
        ultimately show "left_taken h (?h2\<lparr>cells := m'\<rparr>) l2 gs fs r a k v a2 k2 v2 n2 L"
          using m'(1) dd L(3,4) gs ca by (simp add: left_taken_def)
      qed
      then show ?thesis
        using d ca ca1 cb rl
        by (simp add: h1_def [symmetric] runs_bind runs_rd runs_wr
            wr_parent_set_parent [OF L(2), unfolded rl])
    qed
    done
qed

lemma unset_two_rest:
  assumes lt: "left_taken h h' l2 gs fs r a k v a2 k2 v2 n2 L" and r: "r \<noteq> Tip"
    and av: "avl l2" "cavl (1 + ht l2) (gs @ FL a2 k2 v2 r # fs)"
    and D: "D = rebal l2 (gs @ FL a2 k2 v2 r # fs)"
  shows "runs (take_place (Some a) (Some a2) (cpar fs) (side fs) h')
    (\<lambda>x. runs (if fst x \<noteq> Some a then strmap_node_rebalance (fst x) (snd x)
       else strmap_node_rebalance (Some a2) (snd x)) (rebalanced h D [] D))"
proof -
  obtain n x where ca: "cells h' a = Some (mk_node k v n (cpar fs) x (root_ptr r))"
    using lt by (auto simp: left_taken_def)
  note lt' = lt [unfolded left_taken_def]
  have zs: "zip_set D [] = insert a2 (set (addrs L) \<union> set (addrs r) \<union> set (caddrs fs))"
    using zip_set_rebal [of l2 "gs @ FL a2 k2 v2 r # fs"] lt'
    by (auto simp: D zip_set_def caddrs_append)
  show ?thesis
  proof (rule runs_mono [OF take_place_at [OF ca]], (use lt' r in blast)+, elim conjE)
    fix x assume x: "fst x = (if gs = [] then Some a else cpar gs)" "zip_at (snd x) (Bin L a2 k2 v2 n2 r) fs"
      "same_except (zip_set (Bin L a2 k2 v2 n2 r) fs) h' (snd x)"
    have "zip_at (snd x) l2 (gs @ FL a2 k2 v2 r # fs)"
      using lt' zip_down_left [OF x(2)] by blast
    then have rb: "runs (strmap_node_rebalance (cpar (gs @ FL a2 k2 v2 r # fs)) (snd x))
        (rebalanced (snd x) D [] D)"
      unfolding D by (rule rebalance_at [OF _ _ av]) auto
    have s: "same_except (zip_set D []) h (snd x)"
      by (rule same_except_trans [of "insert a2 (zip_set l2 gs)" h h', OF _ x(3)])
        (use lt' zs in \<open>auto simp: zip_set_def\<close>)
    have na: "cpar gs \<noteq> Some a"
      using lt' cpar_caddrs [of gs] by (auto simp: zip_set_def)
    have eq: "(if fst x \<noteq> Some a then strmap_node_rebalance (fst x) (snd x)
       else strmap_node_rebalance (Some a2) (snd x))
      = strmap_node_rebalance (cpar (gs @ FL a2 k2 v2 r # fs)) (snd x)"
      using x(1) na by (auto simp: cpar_append)
    show "runs (if fst x \<noteq> Some a then strmap_node_rebalance (fst x) (snd x)
       else strmap_node_rebalance (Some a2) (snd x)) (rebalanced h D [] D)"
      unfolding eq by (rule runs_mono [OF rb]) (use s in \<open>auto elim!: rebalanced_trans\<close>)
  qed
qed

lemma unset_two_at:
  assumes z: "zip_at h (Bin l a k v n r) fs" and av: "avl (Bin l a k v n r)" "cavl n fs"
    and lr: "l \<noteq> Tip" "r \<noteq> Tip" and rm: "rmost l [] = ((l2, a2, k2, v2), gs)"
    and D: "D = rebal l2 (gs @ FL a2 k2 v2 r # fs)"
  shows "runs (unset_two (Some a) (cpar fs) (side fs) h) (rebalanced h D [] D)"
proof -
  have ca: "cells h a = Some (mk_node k v n (cpar fs) (root_ptr l) (root_ptr r))"
    and tl: "tree_at (cells h) (Some a) l" and dl: "distinct (addrs l)"
    using z by (auto simp: zip_at_def)
  have app: "rmost l fs' = ((l2, a2, k2, v2), gs @ fs')" for fs'
    using rmost_append [OF lr(1), of "[]" fs'] rm by simp
  have cl: "avl l" "cavl (ht l) (FL a2 k2 v2 r # fs)" using av by auto
  note av2 = rmost_avl [OF app lr(1) cl]
  have "runs (take_left (Some a) (Some a2) h)
    (\<lambda>h'. \<exists>L n2. left_taken h h' l2 gs fs r a k v a2 k2 v2 n2 L)"
  proof (cases "gs = []")
    case True
    then obtain n2 where "l = Bin l2 a2 k2 v2 n2 Tip"
      using rmost_here [OF rm lr(1) dl] by auto
    then show ?thesis
      using True z by (auto intro!: runs_mono [OF take_left_child])
  next
    case False
    obtain n2 where z2: "zip_at h (Bin l2 a2 k2 v2 n2 Tip) (gs @ FL a k v r # fs)"
      using rmost_zip [OF zip_down_left [OF z] lr(1) app] by auto
    have "root_ptr l \<noteq> Some a2" using rmost_here [OF rm lr(1) dl] False by auto
    then show ?thesis
      by (rule runs_mono [OF take_left_deep [OF z _ z2 False]]) blast
  qed
  then have "runs (take_left (Some a) (Some a2) h)
    (\<lambda>h'. runs (take_place (Some a) (Some a2) (cpar fs) (side fs) h')
      (\<lambda>x. runs (if fst x \<noteq> Some a then strmap_node_rebalance (fst x) (snd x)
         else strmap_node_rebalance (Some a2) (snd x)) (rebalanced h D [] D)))"
    by (rule runs_mono) (use unset_two_rest [OF _ lr(2) _ _ D] av2 in blast)
  then show ?thesis
    by (simp add: unset_two_def runs_bind runs_rd ca runs_Some rightmost_at [OF tl lr(1) rm]
        case_prod_unfold)
qed

section \<open>The operation\<close>

abbreviation unset_post ::
  "heap \<Rightarrow> string \<Rightarrow> stree \<Rightarrow> int \<times> strmap option \<times> heap \<Rightarrow> bool" where
  "unset_post h k T \<equiv> \<lambda>(rc, t', h'). rc = STRMAP_SUCCESS
     \<and> (\<exists>u. t' = Some u \<and> strmap_at h' u (delete_tree k T))
     \<and> (\<forall>x. x \<in> set (addrs T) - set (addrs (delete_tree k T)) \<longrightarrow> cells h' x = None)
     \<and> outside_same T h h'"

lemma mset_addrs_delete:
  assumes "descend k T [] = (Bin l a k' v n r, fs)"
  shows "mset (addrs T) = add_mset a (mset (addrs (delete_tree k T)))"
proof -
  have T: "mset (addrs T) = add_mset a (mset (addrs l) + mset (addrs r) + mset (caddrs fs))"
    using descend_addrs [OF assms] by (simp add: ac_simps)
  show ?thesis
  proof (cases "l \<noteq> Tip \<and> r \<noteq> Tip")
    case True
    obtain l2 a2 k2 v2 gs where rm: "rmost l [] = ((l2, a2, k2, v2), gs)" by (metis prod.exhaust)
    show ?thesis
      using rmost_addrs [OF rm] True T assms rm
      by (auto simp: delete_tree_def mset_addrs_rebal caddrs_append ac_simps)
  next
    case False
    then show ?thesis
      using T assms by (auto simp: delete_tree_def mset_addrs_rebal)
  qed
qed

lemma filter_key_out:
  "distinct (keys (xs @ (k, v) # ys)) \<Longrightarrow> filter (\<lambda>e. fst e \<noteq> k) (xs @ (k, v) # ys) = xs @ ys"
  by (force simp: filter_id_conv intro!: arg_cong2 [of _ _ _ _ "(@)"])

lemma sum_entry_delete:
  assumes "bst T" "descend k T [] = (Bin l a k' v n r, fs)"
  shows "sum_list (map entry_size (inord (delete_tree k T))) =
    sum_list (map entry_size (inord T)) - (str_size k' + val_size v)"
proof -
  have k: "k' = k" using descend_found [OF assms(2)] .
  have "inord T = (cbefore fs @ inord l) @ (k, v) # (inord r @ cafter fs)" (is "_ = ?xs @ _ # ?ys")
    using descend_split(1) [OF assms(2,1)] k by simp
  moreover have "distinct (keys (inord T))" using assms(1) strict_sorted_iff by (auto simp: bst_def)
  ultimately have "inord (delete_tree k T) = ?xs @ ?ys"
    using delete_tree_inord [OF assms(1), of k] filter_key_out [of ?xs k v ?ys] by metis
  then show ?thesis
    using \<open>inord T = ?xs @ _ # ?ys\<close> k by (simp add: entry_size_def algebra_simps)
qed

lemma strmap_unset_missing:
  assumes "strmap_at h t T" "cstring k" "descend k T [] = (Tip, fs)"
  shows "runs (strmap_unset (Some t) (Some k) h) (unset_post h k T)"
  using strmap_search(1) [OF assms] assms(1,3)
  by (simp add: strmap_unset_def runs_Some delete_tree_def outside_same_def)

lemma unset_tree_at:
  assumes "zip_at h (Bin l a k v n r) fs" "avl (Bin l a k v n r)" "cavl n fs"
    and "D = (if l \<noteq> Tip \<and> r \<noteq> Tip
      then (case rmost l [] of ((l2, a2, k2, v2), gs) \<Rightarrow> rebal l2 (gs @ FL a2 k2 v2 r # fs))
      else rebal (if l \<noteq> Tip then l else r) fs)"
  shows "runs (if root_ptr l \<noteq> NULL \<and> root_ptr r \<noteq> NULL
      then unset_two (Some a) (cpar fs) (side fs) h else unset_one (Some a) (cpar fs) h)
    (rebalanced h D [] D)"
proof (cases "l \<noteq> Tip \<and> r \<noteq> Tip")
  case True
  obtain l2 a2 k2 v2 gs where rm: "rmost l [] = ((l2, a2, k2, v2), gs)" by (metis prod.exhaust)
  have "root_ptr l \<noteq> NULL" "root_ptr r \<noteq> NULL" using True by (cases l; cases r; simp)+
  then show ?thesis
    using unset_two_at [OF assms(1-3) _ _ rm] True assms(4) rm by (simp del: not_None_eq)
next
  case False
  have "\<not> (root_ptr l \<noteq> NULL \<and> root_ptr r \<noteq> NULL)" using False by (cases l; cases r) simp_all
  moreover have "D = rebal (if l \<noteq> Tip then l else r) fs" using assms(4) False by (simp only: if_False)
  ultimately show ?thesis
    using unset_one_at [OF assms(1-3) False refl] by (simp only: if_False)
qed

lemma strmap_unset_found:
  assumes "strmap_at h t T" "cstring k" "descend k T [] = (Bin l a k' v n r, fs)"
  shows "runs (strmap_unset (Some t) (Some k) h) (unset_post h k T)"
proof -
  note sr = strmap_search [OF assms]
  let ?D = "delete_tree k T"
  have T: "bst T" "avl T" "\<forall>a\<in>set (addrs T). a < brk h" "distinct (addrs T)" "entries_ok (inord T)"
    and len: "sm_len t = sum_list (map entry_size (inord T))"
    using assms(1) by (auto simp: strmap_at_def zip_at_def)
  have ca: "cells h a = Some (mk_node k' v n (cpar fs) (root_ptr l) (root_ptr r))"
    using sr(2) by (simp add: zip_at_def)
  have ms: "mset (addrs T) = add_mset a (mset (addrs ?D))" by (rule mset_addrs_delete [OF assms(3)])
  have aD: "a \<notin> set (addrs ?D)" "set (addrs T) = insert a (set (addrs ?D))"
    using mset_eq_imp_distinct_iff [of "addrs T" "a # addrs ?D"] ms T(4)
    by (simp, metis ms set_mset_add_mset_insert set_mset_mset)
  let ?mid = "if root_ptr l \<noteq> NULL \<and> root_ptr r \<noteq> NULL
      then unset_two (Some a) (cpar fs) (side fs) h else unset_one (Some a) (cpar fs) h"
  let ?t = "t\<lparr>sm_len := sm_len t - (str_size k' + val_size v)\<rparr>"
  have eq: "runs (strmap_unset (Some t) (Some k) h) P = runs ?mid
      (\<lambda>x. runs (wr (Some a) (\<lambda>n. n\<lparr>sn_height := 1, sn_parent := NULL, sn_left := NULL,
          sn_right := NULL\<rparr>) (snd x))
        (\<lambda>h. runs (strmap_node_delete (Some a) h)
          (\<lambda>y. P (STRMAP_SUCCESS, Some (?t\<lparr>sm_root := fst x\<rparr>), snd y))))" for P
    using sr(1) by (simp add: strmap_unset_def rd_Some ca val_size_def runs_bind runs_Some
        case_prod_unfold del: not_None_eq cong: if_cong)
  have mid: "runs ?mid (rebalanced h ?D [] ?D)"
    by (rule unset_tree_at [OF sr(2)]) (use sr(3,4) assms(3) in \<open>simp_all add: delete_tree_def\<close>)
  show ?thesis
    unfolding eq
  proof (rule runs_mono [OF mid])
    fix x assume "rebalanced h ?D [] ?D x"
    then obtain h1 where x: "x = (root_ptr ?D, h1)" and z: "zip_at h1 ?D []"
      and s: "same_except (set (addrs ?D)) h h1"
      by (auto elim!: rebalancedE simp: zip_set_def)
    have ca1: "cells h1 a = Some (mk_node k' v n (cpar fs) (root_ptr l) (root_ptr r))" "brk h1 = brk h"
      using s ca aD(1) by (auto simp: same_except_def)
    let ?h2 = "h1\<lparr>cells := (cells h1)(a \<mapsto> mk_node k' v 1 NULL NULL NULL)\<rparr>"
    have del: "strmap_node_delete (Some a) ?h2 = Some (STRMAP_SUCCESS, h1\<lparr>cells := (cells h1)(a := None)\<rparr>)"
      using delete_single_node [of ?h2 a] by simp
    have "strmap_at (h1\<lparr>cells := (cells h1)(a := None)\<rparr>) (?t\<lparr>sm_root := root_ptr ?D\<rparr>) ?D"
      using z aD T ca1 len sum_entry_delete [OF T(1) assms(3)] bst_delete_tree [OF T(1)]
        avl_delete_tree [OF T(2)] delete_tree_inord [OF T(1)]
      by (auto simp: strmap_at_def zip_at_def entries_ok_def)
    then show "runs (wr (Some a) (\<lambda>n. n\<lparr>sn_height := 1, sn_parent := NULL, sn_left := NULL,
        sn_right := NULL\<rparr>) (snd x))
      (\<lambda>h'. runs (strmap_node_delete (Some a) h')
        (\<lambda>y. unset_post h k T (STRMAP_SUCCESS, Some (?t\<lparr>sm_root := fst x\<rparr>), snd y)))"
      using x ca1 del s aD(2) by (auto simp: runs_wr runs_Some outside_same_def same_except_def)
  qed
qed

lemma strmap_unset_at:
  assumes "strmap_at h t T" "cstring k"
  shows "runs (strmap_unset (Some t) (Some k) h) (unset_post h k T)"
proof -
  obtain t' fs where "descend k T [] = (t', fs)" by fastforce
  then show ?thesis
    using strmap_unset_missing [OF assms, of fs] strmap_unset_found [OF assms] by (cases t') blast+
qed

end
