(* ===== verification/Strmap_Iter.thy ===== *)
theory Strmap_Iter
  imports Strmap_Unset
begin

text \<open>
  Iteration over the map. The first and next functions of the code walk the nodes by pointers
  only; here they are shown to visit the entries in the order of the keys, each once, and the
  loops built on them (printing, merging, deleting) are shown to do their work on every entry.
\<close>

section \<open>The nodes in order\<close>

type_synonym entry = "nat \<times> string \<times> string option"

fun nodes :: "stree \<Rightarrow> entry list" where
  "nodes Tip = []"
| "nodes (Bin l a k v n r) = nodes l @ (a, k, v) # nodes r"

fun nbefore :: "frame list \<Rightarrow> entry list" where
  "nbefore [] = []"
| "nbefore (FL a k v r # fs) = nbefore fs"
| "nbefore (FR l a k v # fs) = nbefore fs @ nodes l @ [(a, k, v)]"

fun nafter :: "frame list \<Rightarrow> entry list" where
  "nafter [] = []"
| "nafter (FL a k v r # fs) = (a, k, v) # nodes r @ nafter fs"
| "nafter (FR l a k v # fs) = nafter fs"

fun first_ptr :: "entry list \<Rightarrow> ptr" where
  "first_ptr [] = NULL"
| "first_ptr ((a, e) # xs) = Some a"

abbreviation last_ptr :: "entry list \<Rightarrow> ptr" where
  "last_ptr xs \<equiv> first_ptr (rev xs)"

lemma nodes_addrs: "map fst (nodes t) = addrs t"
  by (induction t) auto

lemma nodes_inord: "map snd (nodes t) = inord t"
  by (induction t) auto

lemma nafter_append: "nafter (gs @ fs) = nafter gs @ nafter fs"
  by (induction gs rule: nafter.induct) auto

lemma nbefore_append: "nbefore (gs @ fs) = nbefore fs @ nbefore gs"
  by (induction gs rule: nbefore.induct) auto

lemma nodes_Nil [simp]: "nodes t = [] \<longleftrightarrow> t = Tip" "[] = nodes t \<longleftrightarrow> t = Tip"
  by (cases t; auto)+

lemma first_ptr_append: "first_ptr (xs @ ys) = (if xs = [] then first_ptr ys else first_ptr xs)"
  by (cases xs) auto

lemma first_ptr_NULL [simp]: "first_ptr xs = NULL \<longleftrightarrow> xs = []"
  by (cases xs) auto

lemma first_ptr_Some: "first_ptr xs = Some a \<Longrightarrow> a \<in> fst ` set xs"
  by (cases xs) auto

section \<open>Outermost nodes\<close>

lemma leftmost_at:
  assumes "tree_at (cells h) p t"
  shows "strmap_node_leftmost h (root_ptr t) = Some (first_ptr (nodes t))"
  using assms
proof (induction t arbitrary: p)
  case (Bin l a k v n r)
  have ca: "cells h a = Some (mk_node k v n p (root_ptr l) (root_ptr r))" using Bin.prems by simp
  have l: "strmap_node_leftmost h (root_ptr l) = Some (first_ptr (nodes l))"
    using Bin by auto
  show ?case
    using l by (subst strmap_node_leftmost_def, subst leftmost_loop.simps, cases l)
      (auto simp: rd_Some [OF ca] first_ptr_append strmap_node_leftmost_def)
qed (simp add: strmap_node_leftmost_def)

lemma rightmost_last:
  assumes "tree_at (cells h) p t"
  shows "strmap_node_rightmost h (root_ptr t) = Some (last_ptr (nodes t))"
  using assms
proof (induction t arbitrary: p)
  case (Bin l a k v n r)
  have ca: "cells h a = Some (mk_node k v n p (root_ptr l) (root_ptr r))" using Bin.prems by simp
  have r: "strmap_node_rightmost h (root_ptr r) = Some (last_ptr (nodes r))"
    using Bin by auto
  show ?case
    using r by (subst strmap_node_rightmost_def, subst rightmost_loop.simps, cases r)
      (auto simp: rd_Some [OF ca] first_ptr_append strmap_node_rightmost_def)
qed (simp add: strmap_node_rightmost_def)

section \<open>Neighbours\<close>

lemma next_loop_at:
  assumes "ctx_at (cells h) (Some a) fs" "a \<notin> set (caddrs fs)" "distinct (caddrs fs)"
  shows "next_loop h (Some a) (cpar fs) = Some (first_ptr (nafter fs))"
  using assms
proof (induction fs arbitrary: a)
  case (Cons f fs)
  then show ?case
    by (subst next_loop.simps, cases f) (auto simp: rd_Some)
qed (simp add: next_loop.simps)

lemma previous_loop_at:
  assumes "ctx_at (cells h) (Some a) fs" "a \<notin> set (caddrs fs)" "distinct (caddrs fs)"
  shows "previous_loop h (Some a) (cpar fs) = Some (last_ptr (nbefore fs))"
  using assms
proof (induction fs arbitrary: a)
  case (Cons f fs)
  then show ?case
    by (subst previous_loop.simps, cases f) (auto simp: rd_Some)
qed (simp add: previous_loop.simps)

lemma next_zip:
  assumes "zip_at h (Bin l a k v n r) fs"
  shows "strmap_node_next h (Some a) = Some (first_ptr (nodes r @ nafter fs))"
proof -
  have ca: "cells h a = Some (mk_node k v n (cpar fs) (root_ptr l) (root_ptr r))"
    and r: "tree_at (cells h) (Some a) r"
    and c: "ctx_at (cells h) (Some a) fs" "a \<notin> set (caddrs fs)" "distinct (caddrs fs)"
    using assms by (auto simp: zip_at_def)
  show ?thesis
    using next_loop_at [OF c] leftmost_at [OF r]
    by (auto simp: strmap_node_next_def rd_Some [OF ca] first_ptr_append)
qed

lemma previous_zip:
  assumes "zip_at h (Bin l a k v n r) fs"
  shows "strmap_node_previous h (Some a) = Some (last_ptr (nbefore fs @ nodes l))"
proof -
  have ca: "cells h a = Some (mk_node k v n (cpar fs) (root_ptr l) (root_ptr r))"
    and l: "tree_at (cells h) (Some a) l"
    and c: "ctx_at (cells h) (Some a) fs" "a \<notin> set (caddrs fs)" "distinct (caddrs fs)"
    using assms by (auto simp: zip_at_def)
  show ?thesis
    using previous_loop_at [OF c] rightmost_last [OF l]
    by (auto simp: strmap_node_previous_def rd_Some [OF ca] first_ptr_append)
qed

text \<open>Every position in the list of nodes is a position in the tree.\<close>

lemma focus:
  "zip_at h t G \<Longrightarrow> nodes t = xs @ (a, k, v) # ys \<Longrightarrow>
     \<exists>l n r fs. zip_at h (Bin l a k v n r) fs
       \<and> nbefore fs @ nodes l = nbefore G @ xs \<and> nodes r @ nafter fs = ys @ nafter G"
proof (induction t arbitrary: G xs ys)
  case (Bin l b k' v' n r)
  have "nodes l @ (b, k', v') # nodes r = xs @ (a, k, v) # ys" using Bin.prems(2) by simp
  then consider us where "xs = nodes l @ (b, k', v') # us" "nodes r = us @ (a, k, v) # ys"
    | "xs = nodes l" "(a, k, v) = (b, k', v')" "ys = nodes r"
    | us where "nodes l = xs @ (a, k, v) # us" "ys = us @ (b, k', v') # nodes r"
    by (force simp: append_eq_append_conv2 Cons_eq_append_conv append_eq_Cons_conv)
  then show ?case
  proof cases
    case 1
    then show ?thesis using Bin.IH(2) [OF zip_down_right [OF Bin.prems(1)] 1(2)] by auto
  next
    case 2
    then show ?thesis using Bin.prems(1) by blast
  next
    case 3
    then show ?thesis using Bin.IH(1) [OF zip_down_left [OF Bin.prems(1)] 3(1)] by auto
  qed
qed simp

lemma visit:
  assumes "zip_at h T []" "nodes T = xs @ (a, k, v) # ys"
  shows "strmap_node_next h (Some a) = Some (first_ptr ys)"
    and "strmap_node_previous h (Some a) = Some (last_ptr xs)"
    and "rd h (Some a) sn_key = Some (Some k)" "rd h (Some a) sn_value = Some v"
    and "rd h (Some a) sn_key_len = Some (str_size k)"
    and "rd h (Some a) sn_value_len = Some (val_size v)"
proof -
  obtain l n r fs where z: "zip_at h (Bin l a k v n r) fs"
    and e: "nbefore fs @ nodes l = xs" "nodes r @ nafter fs = ys"
    using focus [OF assms] by auto
  have ca: "cells h a = Some (mk_node k v n (cpar fs) (root_ptr l) (root_ptr r))"
    using z by (simp add: zip_at_def)
  show "strmap_node_next h (Some a) = Some (first_ptr ys)"
    "strmap_node_previous h (Some a) = Some (last_ptr xs)"
    using next_zip [OF z] previous_zip [OF z] e by auto
  show "rd h (Some a) sn_key = Some (Some k)" "rd h (Some a) sn_value = Some v"
    "rd h (Some a) sn_key_len = Some (str_size k)" "rd h (Some a) sn_value_len = Some (val_size v)"
    by (simp_all add: rd_Some [OF ca] val_size_def)
qed

lemma first_last_at:
  assumes "strmap_at h t T"
  shows "strmap_node_first h (Some t) = Some (first_ptr (nodes T))"
    and "strmap_node_last h (Some t) = Some (last_ptr (nodes T))"
  using assms leftmost_at [of h NULL T] rightmost_last [of h NULL T]
  by (auto simp: strmap_node_first_def strmap_node_last_def strmap_at_def zip_at_def)

section \<open>Printing\<close>

lemma print_loop_at:
  assumes "zip_at h T []" "nodes T = xs @ ys"
  shows "print_loop h (first_ptr ys) out = Some (out @
    map (\<lambda>(i, a, k, v). (i, Some k, v)) (zip [length out..<length out + length ys] ys))"
  using assms
proof (induction ys arbitrary: xs out)
  case (Cons e ys)
  obtain a k v where e: "e = (a, k, v)" by (cases e) auto
  note v = visit [OF Cons.prems(1) Cons.prems(2) [unfolded e]]
  have "nodes T = (xs @ [e]) @ ys" using Cons.prems(2) by simp
  note IH = Cons.IH [OF Cons.prems(1) this, of "out @ [(length out, Some k, v)]"]
  have "[length out..<length out + length (e # ys)] = length out # [Suc (length out)..<Suc (length out) + length ys]"
    by (simp add: upt_rec)
  then show ?case
    using IH v by (subst print_loop.simps) (auto simp: e strmap_node_key_def strmap_node_value_def)
qed (simp add: print_loop.simps)

lemma strmap_print_at:
  assumes "strmap_at h t T"
  shows "strmap_print h (Some t) = Some (map (\<lambda>(i, a, k, v). (i, Some k, v)) (enumerate 0 (nodes T)),
    length (inord T), 8 + sum_list (map entry_size (inord T)))"
proof -
  have z: "zip_at h T []" "sm_len t = sum_list (map entry_size (inord T))"
    using assms by (auto simp: strmap_at_def)
  show ?thesis
    using print_loop_at [OF z(1), of "[]" "nodes T" "[]"] first_last_at [OF assms] z(2)
      arg_cong [OF nodes_inord [of T], of length]
    by (simp add: strmap_print_def strmap_pack_size_def enumerate_eq_zip)
qed

section \<open>Deleting the map\<close>

lemma node_delete_at:
  assumes "tree_at (cells h) p t" "distinct (addrs t)"
  shows "strmap_node_delete (root_ptr t) h =
    Some (STRMAP_SUCCESS, h\<lparr>cells := (\<lambda>x. if x \<in> set (addrs t) then None else cells h x)\<rparr>)"
  using assms
proof (induction t arbitrary: h p)
  case (Bin l a k v n r)
  have ca: "cells h a = Some (mk_node k v n p (root_ptr l) (root_ptr r))" and d: "a \<notin> set (addrs l)"
    "a \<notin> set (addrs r)" "set (addrs l) \<inter> set (addrs r) = {}"
    using Bin.prems by auto
  let ?h1 = "h\<lparr>cells := (\<lambda>x. if x \<in> set (addrs l) then None else cells h x)\<rparr>"
  let ?h2 = "?h1\<lparr>cells := (cells ?h1)(a \<mapsto> mk_node k v n p NULL (root_ptr r))\<rparr>"
  have l: "strmap_node_delete (root_ptr l) h = Some (STRMAP_SUCCESS, ?h1)"
    using Bin.IH(1) Bin.prems by auto
  have "tree_at (cells ?h2) (Some a) r"
    by (rule tree_at_frame [of "cells h" _ _ "insert a (set (addrs l))"]) (use Bin.prems in auto)
  then have r: "strmap_node_delete (root_ptr r) ?h2 =
      Some (STRMAP_SUCCESS, ?h2\<lparr>cells := (\<lambda>x. if x \<in> set (addrs r) then None else cells ?h2 x)\<rparr>)"
    by (rule Bin.IH(2)) (use Bin.prems in simp)
  show ?case
    using l r ca d
    by (subst strmap_node_delete.simps) (auto simp: rd_def wr_def spawn_free_def fun_eq_iff)
qed (simp add: strmap_node_delete.simps)

lemma strmap_delete_at:
  assumes "strmap_at h t T"
  shows "strmap_delete (Some (Some t)) h =
    Some (Some NULL, h\<lparr>cells := (\<lambda>x. if x \<in> set (addrs T) then None else cells h x)\<rparr>)"
  using assms node_delete_at [of h NULL T] by (auto simp: strmap_delete_def strmap_at_def zip_at_def)

end
