(* ===== verification/Strmap_Pack.thy ===== *)
theory Strmap_Pack
  imports Strmap_Iter
begin

text \<open>
  Merging one map into another, and the packed form of a map: the bytes \<open>strmap_pack\<close> writes,
  and the round trip through \<open>strmap_unpack\<close>.
\<close>

section \<open>Maps that grow\<close>

text \<open>
  After insertions into the tree \<open>T\<close> the map is \<open>T'\<close>: its nodes are those of \<open>T\<close> and fresh
  ones, and nothing else that was allocated has changed.
\<close>

definition grown :: "heap \<Rightarrow> stree \<Rightarrow> heap \<Rightarrow> strmap \<Rightarrow> stree \<Rightarrow> bool" where
  "grown h T h' u T' \<longleftrightarrow> strmap_at h' u T' \<and> outside_same T h h'
     \<and> set (addrs T') \<subseteq> set (addrs T) \<union> {brk h..<brk h'}"

lemma addrs_insert_tree:
  assumes "avl T"
  shows "set (addrs (insert_tree new k v T)) \<subseteq> insert new (set (addrs T))"
proof -
  obtain t' fs where d: "descend k T [] = (t', fs)" by fastforce
  have "set (addrs t') \<union> set (caddrs fs) = set (addrs T)"
    using arg_cong [OF descend_addrs [OF d], of set_mset] by simp
  moreover have "set (addrs (rebal (Bin Tip new k v 1 Tip) fs)) = insert new (set (caddrs fs))"
    using arg_cong [OF mset_addrs_rebal [of "Bin Tip new k v 1 Tip" fs], of set_mset] by simp
  moreover have "set (addrs (plug (Bin l a k' v n r) fs)) = set (addrs (Bin l a k' v n r)) \<union> set (caddrs fs)"
    for l a k' n r
    using arg_cong [OF mset_addrs_plug [of "Bin l a k' v n r" fs], of set_mset] by auto
  ultimately show ?thesis
    using d by (cases t') (auto simp: insert_tree_def)
qed

lemma set_grown:
  assumes "strmap_at h t T" "cstring k" "val_ok v"
  shows "runs (strmap_set (Some t) (Some k) v h) (\<lambda>(rc, t', h'). \<exists>u T'. t' = Some u \<and> grown h T h' u T'
    \<and> map_of (inord T') = (map_of (inord T))(k \<mapsto> v))"
proof (rule runs_mono [OF strmap_set_at [OF assms]], clarsimp)
  fix h' u
  assume s: "strmap_at h' u (insert_tree (brk h) k v T)" and o: "outside_same T h h'"
  have T: "avl T" "bst T" using assms(1) by (auto simp: strmap_at_def)
  have "set (addrs (insert_tree (brk h) k v T)) \<subseteq> set (addrs T) \<union> {brk h..<brk h'}"
    using addrs_insert_tree [OF T(1), of "brk h" k v] s by (fastforce simp: strmap_at_def)
  then show "\<exists>T'. grown h T h' u T' \<and> map_of (inord T') = (map_of (inord T))(k \<mapsto> v)"
    using s o map_of_insert_tree [OF T(2,1)] by (auto simp: grown_def)
qed

lemma grown_refl: "strmap_at h t T \<Longrightarrow> grown h T h t T"
  by (simp add: grown_def outside_same_def)

lemma grown_trans:
  assumes "grown h T h1 t1 T1" "grown h1 T1 h2 t2 T2"
  shows "grown h T h2 t2 T2"
proof -
  have b: "brk h \<le> brk h1" "brk h1 \<le> brk h2" using assms by (auto simp: grown_def outside_same_def)
  have "cells h2 x = cells h x" if "x < brk h" "x \<notin> set (addrs T)" for x
  proof -
    have "x \<notin> set (addrs T1)" using that assms(1) by (auto simp: grown_def)
    then show ?thesis using that b assms by (auto simp: grown_def outside_same_def)
  qed
  moreover have "set (addrs T2) \<subseteq> set (addrs T) \<union> {brk h..<brk h2}"
    using assms b unfolding grown_def by fastforce
  ultimately show ?thesis using assms b by (auto simp: grown_def outside_same_def)
qed

lemma map_add_upd_rev: "m(k \<mapsto> v) ++ map_of (rev es) = m ++ map_of (rev ((k, v) # es))"
  by (auto simp: fun_eq_iff map_add_def split: option.splits)

lemma map_of_rev: "distinct (map fst es) \<Longrightarrow> map_of (rev es) = map_of es"
  by (metis distinct_map distinct_rev map_of_inject_set rev_map set_rev)

text \<open>The outcome of inserting a list of entries, later ones overriding earlier ones.\<close>

definition inserted ::
  "heap \<Rightarrow> stree \<Rightarrow> (string \<times> string option) list \<Rightarrow> strmap option \<times> heap \<Rightarrow> bool" where
  "inserted h T es x \<longleftrightarrow> (\<exists>u T'. fst x = Some u \<and> grown h T (snd x) u T'
     \<and> map_of (inord T') = map_of (inord T) ++ map_of (rev es))"

lemma inserted_Nil: "strmap_at h t T \<Longrightarrow> inserted h T [] (Some t, h)"
  by (auto simp: inserted_def intro: grown_refl)

lemma inserted_Cons:
  assumes "grown h T h1 t1 T1" "map_of (inord T1) = (map_of (inord T))(k \<mapsto> v)" "inserted h1 T1 es x"
  shows "inserted h T ((k, v) # es) x"
  using assms(3) grown_trans [OF assms(1)] map_add_upd_rev [of "map_of (inord T)" k v es]
  unfolding inserted_def assms(2) by metis

section \<open>Merging\<close>

text \<open>Two maps in one heap.\<close>

definition apart :: "heap \<Rightarrow> strmap \<Rightarrow> stree \<Rightarrow> strmap \<Rightarrow> stree \<Rightarrow> bool" where
  "apart h t T u U \<longleftrightarrow> strmap_at h t T \<and> strmap_at h u U \<and> set (addrs T) \<inter> set (addrs U) = {}"

lemma strmap_at_frame:
  assumes "strmap_at h u U" "outside_same T h h'" "set (addrs T) \<inter> set (addrs U) = {}"
  shows "strmap_at h' u U"
proof -
  have same: "cells h' x = cells h x" if "x \<in> set (addrs U)" for x
    using that assms by (auto simp: strmap_at_def outside_same_def)
  have "tree_at (cells h') NULL U"
    by (rule tree_at_frame [of "(cells h) |` set (addrs U)" _ _ "- set (addrs U)"])
      (use assms(1) same tree_at_frame [of "cells h" NULL U "- set (addrs U)" "(cells h) |` set (addrs U)"]
        in \<open>auto simp: strmap_at_def zip_at_def restrict_map_def\<close>)
  then show ?thesis
    using assms by (force simp: strmap_at_def zip_at_def outside_same_def)
qed

lemma grown_apart:
  assumes "apart h t T u U" "grown h T h' t' T'"
  shows "apart h' t' T' u U"
proof -
  have "\<forall>a\<in>set (addrs U). a < brk h" using assms by (simp add: apart_def strmap_at_def)
  then show ?thesis
    using assms strmap_at_frame [of h u U T h'] by (force simp: apart_def grown_def)
qed

lemma merge_loop_at:
  assumes "apart h t T u U" "nodes U = xs @ ys"
  shows "runs (merge_loop (first_ptr ys) (Some t) h) (inserted h T (map snd ys))"
  using assms
proof (induction ys arbitrary: h t T xs)
  case Nil
  then show ?case
    by (auto simp: merge_loop.simps runs_Some apart_def intro: inserted_Nil)
next
  case (Cons e ys)
  obtain a k v where e: "e = (a, k, v)" by (cases e) auto
  have T: "strmap_at h t T" and zu: "zip_at h U []" "entries_ok (inord U)"
    using Cons.prems(1) by (auto simp: apart_def strmap_at_def)
  have "(k, v) \<in> set (inord U)" using nodes_inord [of U] Cons.prems(2) e
    by (metis in_set_conv_decomp list.set_map rev_image_eqI snd_conv)
  then have kv: "cstring k" "val_ok v" using zu(2) by (auto simp: entries_ok_def)
  note v = visit [OF zu(1) Cons.prems(2) [unfolded e]]
  have eq: "runs (merge_loop (Some a) (Some t) h) P = runs (strmap_set (Some t) (Some k) v h)
      (\<lambda>x. runs (strmap_node_next (snd (snd x)) (Some a))
        (\<lambda>nx. runs (merge_loop nx (fst (snd x)) (snd (snd x))) P))" for P
    using v by (subst merge_loop.simps) (simp add: strmap_node_key_def strmap_node_value_def runs_bind
        runs_Some case_prod_unfold)
  show ?case
    unfolding e first_ptr.simps eq
  proof (rule runs_mono [OF set_grown [OF T kv]], clarsimp)
    fix h1 t1 T1
    assume g: "grown h T h1 t1 T1" and m: "map_of (inord T1) = (map_of (inord T))(k \<mapsto> v)"
    have ap: "apart h1 t1 T1 u U" using grown_apart [OF Cons.prems(1) g] .
    have n: "strmap_node_next h1 (Some a) = Some (first_ptr ys)"
      by (rule visit(1) [OF _ Cons.prems(2) [unfolded e]]) (use ap in \<open>simp add: apart_def strmap_at_def\<close>)
    have "nodes U = (xs @ [e]) @ ys" using Cons.prems(2) by simp
    note IH = Cons.IH [OF ap this]
    show "runs (strmap_node_next h1 (Some a)) (\<lambda>nx. runs (merge_loop nx (Some t1) h1)
      (inserted h T ((k, v) # map snd ys)))"
      unfolding n runs_Some by (rule runs_mono [OF IH], rule inserted_Cons [OF g m])
  qed
qed

lemma strmap_merge_at:
  assumes "apart h t T u U"
  shows "runs (strmap_merge (Some t) (Some u) h) (\<lambda>(t', h'). \<exists>w T'. t' = Some w \<and> grown h T h' w T'
    \<and> apart h' w T' u U \<and> map_of (inord T') = map_of (inord T) ++ map_of (inord U))"
proof -
  have u: "strmap_at h u U" using assms by (simp add: apart_def)
  have d: "map_of (rev (inord U)) = map_of (inord U)"
    using u strict_sorted_iff by (intro map_of_rev) (auto simp: strmap_at_def bst_def)
  have "runs (merge_loop (first_ptr (nodes U)) (Some t) h) (inserted h T (inord U))"
    using merge_loop_at [OF assms, of "[]" "nodes U"] by (simp add: nodes_inord)
  then show ?thesis
    unfolding strmap_merge_def first_last_at(1) [OF u] bind.bind_lunit inserted_def d
    by (rule runs_mono) (use grown_apart [OF assms] in \<open>simp add: case_prod_unfold, metis\<close>)
qed

section \<open>The packed form\<close>

definition entry_len :: "string \<times> string option \<Rightarrow> nat" where
  "entry_len e = length (fst e) + 1 + (case snd e of None \<Rightarrow> 0 | Some s \<Rightarrow> length s + 1)"

definition entry_bytes :: "string \<times> string option \<Rightarrow> byte list" where
  "entry_bytes e = mem_str (fst e) @ (case snd e of None \<Rightarrow> [] | Some s \<Rightarrow> mem_str s)"

definition packed_len :: "(string \<times> string option) list \<Rightarrow> nat" where
  "packed_len es = 8 + sum_list (map entry_len es)"

definition packed :: "(string \<times> string option) list \<Rightarrow> byte list" where
  "packed es = spawn_pack_uint64 (word_of_nat (packed_len es)) @ concat (map entry_bytes es)"

lemma length_entry_bytes [simp]: "length (entry_bytes e) = entry_len e"
  by (auto simp: entry_bytes_def entry_len_def split: option.splits)

lemma length_packed: "length (packed es) = packed_len es"
  by (simp add: packed_def packed_len_def length_concat comp_def)

lemma entry_size_len: "entry_size e = word_of_nat (entry_len e)"
  by (auto simp: entry_size_def entry_len_def str_size_def val_size_def split: option.splits)

lemma sum_entry_size: "sum_list (map entry_size es) = word_of_nat (sum_list (map entry_len es))"
  by (induction es) (auto simp: entry_size_len)

lemma pack_size_at:
  assumes "strmap_at h t T"
  shows "strmap_pack_size (Some t) = word_of_nat (packed_len (inord T))"
  using assms by (simp add: strmap_pack_size_def strmap_at_def sum_entry_size packed_len_def)

lemma memcpy_str_all:
  "length s + 1 < 2 ^ 64 \<Longrightarrow> memcpy_str (Some s) (unat (str_size s)) = Some (mem_str s)"
  unfolding str_size_def unat_word_of_nat_u64 by (simp add: memcpy_str_def)

lemma memcpy_value:
  "entry_len (k, v) < 2 ^ 64 \<Longrightarrow>
     memcpy_str v (unat (val_size v)) = Some (case v of None \<Rightarrow> [] | Some s \<Rightarrow> mem_str s)"
  using memcpy_str_all by (auto simp: val_size_def entry_len_def memcpy_str_def [of None] split: option.splits)

lemma pack_loop_at:
  assumes "zip_at h T []" "nodes T = xs @ ys" "\<forall>e\<in>set (inord T). entry_len e < 2 ^ 64"
  shows "pack_loop h (first_ptr ys) out = Some (out @ concat (map (entry_bytes \<circ> snd) ys))"
  using assms
proof (induction ys arbitrary: xs out)
  case (Cons e ys)
  obtain a k v where e: "e = (a, k, v)" by (cases e) auto
  note vs = visit [OF Cons.prems(1) Cons.prems(2) [unfolded e]]
  have "(k, v) \<in> set (inord T)" using nodes_inord [of T] Cons.prems(2) e
    by (metis in_set_conv_decomp list.set_map rev_image_eqI snd_conv)
  then have len: "entry_len (k, v) < 2 ^ 64" using Cons.prems(3) by auto
  then have "memcpy_str (Some k) (unat (str_size k)) = Some (mem_str k)"
    by (intro memcpy_str_all) (simp add: entry_len_def)
  moreover have "nodes T = (xs @ [e]) @ ys" using Cons.prems(2) by simp
  note Cons.IH [OF Cons.prems(1) this Cons.prems(3), of "out @ entry_bytes (k, v)"]
  ultimately show ?case
    using vs memcpy_value [OF len] by (subst pack_loop.simps) (simp add: e comp_def entry_bytes_def [of "(k, v)"])
qed (simp add: pack_loop.simps)

lemma strmap_pack_at:
  assumes "strmap_at h t T" "packed_len (inord T) < 2 ^ 64"
  shows "strmap_pack h (Some t) = Some (packed (inord T), word_of_nat (packed_len (inord T)))"
proof -
  have "entry_len e < 2 ^ 64" if "e \<in> set (inord T)" for e
    using member_le_sum_list [of "entry_len e" "map entry_len (inord T)"] that assms(2)
    by (auto simp: packed_len_def)
  then show ?thesis
    using pack_loop_at [of h T "[]" "nodes T"] assms(1) first_last_at(1) [OF assms(1)]
      pack_size_at [OF assms(1)]
    by (simp add: strmap_pack_def packed_def strmap_at_def nodes_inord Let_def flip: map_map)
qed

section \<open>Unpacking\<close>

lemma str_at_mem: "cstring s \<Longrightarrow> drop pos buf = mem_str s @ rest \<Longrightarrow> str_at buf pos = Some s"
  using load_mem_str [of s rest] by (simp add: str_at_def mem_str_def)

lemma unpack_loop_at:
  assumes "strmap_at h t T" "entries_ok es" "\<forall>e\<in>set es. snd e \<noteq> NULL"
    and "drop pos buf = concat (map entry_bytes es) @ rest"
    and "end_pos = pos + sum_list (map entry_len es)"
  shows "runs (unpack_loop buf pos end_pos (Some t) h) (inserted h T es)"
  using assms
proof (induction es arbitrary: h t T pos)
  case Nil
  then show ?case by (auto simp: unpack_loop.simps runs_Some intro: inserted_Nil)
next
  case (Cons e es)
  obtain k v where e: "e = (k, Some v)" using Cons.prems(3) by (cases e) auto
  have ok: "cstring k" "cstring v" "val_ok (Some v)"
    using Cons.prems(2) e by (auto simp: val_ok_def)
  let ?p1 = "pos + length k + 1" and ?p2 = "pos + length k + 1 + length v + 1"
  have d0: "drop pos buf = mem_str k @ mem_str v @ concat (map entry_bytes es) @ rest"
    using Cons.prems(4) e by (simp add: entry_bytes_def [of "(k, Some v)"])
  have d1: "drop ?p1 buf = mem_str v @ concat (map entry_bytes es) @ rest"
    using arg_cong [OF d0, of "drop (length k + 1)"] by (simp add: add.commute)
  have d2: "drop ?p2 buf = concat (map entry_bytes es) @ rest"
    using arg_cong [OF d1, of "drop (length v + 1)"] by (simp add: add.commute)
  have en: "pos < end_pos" "end_pos = ?p2 + sum_list (map entry_len es)"
    using Cons.prems(5) e by (auto simp: entry_len_def [of "(k, Some v)"])
  have eq: "runs (unpack_loop buf pos end_pos (Some t) h) P = runs (strmap_set (Some t) (Some k) (Some v) h)
      (\<lambda>x. runs (unpack_loop buf ?p2 end_pos (fst (snd x)) (snd (snd x))) P)" for P
    using str_at_mem [OF ok(1) d0] str_at_mem [OF ok(2) d1] en(1)
    by (subst unpack_loop.simps) (simp add: runs_bind runs_Some case_prod_unfold)
  show ?case
    unfolding eq e
  proof (rule runs_mono [OF set_grown [OF Cons.prems(1) ok(1,3)]], clarsimp)
    fix h1 t1 T1
    assume g: "grown h T h1 t1 T1" and m: "map_of (inord T1) = (map_of (inord T))(k \<mapsto> Some v)"
    then have "strmap_at h1 t1 T1" by (simp add: grown_def)
    from Cons.IH [OF this _ _ d2 en(2)] Cons.prems
    have "runs (unpack_loop buf ?p2 end_pos (Some t1) h1) (inserted h1 T1 es)" by simp
    then have "runs (unpack_loop buf ?p2 end_pos (Some t1) h1) (inserted h T ((k, Some v) # es))"
      by (rule runs_mono) (rule inserted_Cons [OF g m])
    then show "runs (unpack_loop buf (Suc (Suc (pos + length k + length v))) end_pos (Some t1) h1)
        (inserted h T ((k, Some v) # es))" by simp
  qed
qed

lemma strmap_unpack_at:
  assumes "strmap_at h t T" "entries_ok es" "\<forall>e\<in>set es. snd e \<noteq> NULL" "packed_len es < 2 ^ 64"
  shows "runs (strmap_unpack (packed es @ rest) (Some t) h)
    (\<lambda>(n, t', h'). n = word_of_nat (packed_len es) \<and> inserted h T es (t', h'))"
proof -
  have "unat (word_of_nat (packed_len es) :: u64) = 8 + sum_list (map entry_len es)"
    unfolding unat_word_of_nat_u64 [OF assms(4)] by (simp add: packed_len_def)
  then show ?thesis
    using unpack_loop_at [OF assms(1-3), of 8 "packed es @ rest" rest]
    by (simp add: strmap_unpack_def packed_def runs_bind runs_Some case_prod_unfold)
qed

text \<open>A strictly sorted list of entries is determined by its map.\<close>

lemma sorted_entries_unique:
  assumes "sorted_wrt (<) (keys xs)" "sorted_wrt (<) (keys ys)" "map_of xs = map_of ys"
  shows "xs = ys"
proof -
  have rebuild: "zs = map (\<lambda>k. (k, the (map_of zs k))) (keys zs)"
    if "distinct (keys zs)" for zs :: "(string \<times> string option) list"
  proof (rule nth_equalityI)
    fix i assume "i < length zs"
    then have "map_of zs (fst (zs ! i)) = Some (snd (zs ! i))"
      by (intro map_of_is_SomeI [OF that]) simp
    then show "zs ! i = map (\<lambda>k. (k, the (map_of zs k))) (keys zs) ! i"
      using \<open>i < length zs\<close> by simp
  qed simp
  have "set (keys xs) = set (keys ys)" using assms(3) by (metis dom_map_of_conv_image_fst list.set_map)
  then have k: "keys xs = keys ys" using assms(1,2) strict_sorted_equal by blast
  have d: "distinct (keys xs)" "distinct (keys ys)" using assms(1,2) strict_sorted_iff by auto
  have "xs = map (\<lambda>k. (k, the (map_of ys k))) (keys ys)"
    using rebuild [OF d(1)] by (simp only: assms(3) k)
  then show ?thesis using rebuild [OF d(2)] by (rule trans [OF _ sym])
qed

lemma strmap_at_new: "strmap_at h strmap_new Tip"
  by (simp add: strmap_at_def strmap_new_def zip_at_def bst_def)

end
