(* ===== verification/Strmap_Spec.thy ===== *)
theory Strmap_Spec
  imports Strmap_Pack
begin

text \<open>
  What \<open>strmap.c\<close> promises to its callers. The abstract state of a map is a partial function
  from keys to values; the locale \<open>string_map\<close> states the contract of insertion, removal and
  lookup over it, and is interpreted with the operations of the code. The properties of the
  component follow.
\<close>

section \<open>The abstraction\<close>

definition strmap_rep :: "heap \<Rightarrow> strmap \<Rightarrow> (string \<rightharpoonup> string option) \<Rightarrow> bool" where
  "strmap_rep h t m \<longleftrightarrow> (\<exists>T. strmap_at h t T \<and> m = map_of (inord T))"

text \<open>The entries of a represented map in the order of their keys.\<close>

definition strmap_entries :: "heap \<Rightarrow> strmap \<Rightarrow> (string \<times> string option) list \<Rightarrow> bool" where
  "strmap_entries h t es \<longleftrightarrow> (\<exists>T. strmap_at h t T \<and> es = inord T)"

text \<open>Two maps that share no node.\<close>

definition two_maps :: "heap \<Rightarrow> strmap \<Rightarrow> (string \<rightharpoonup> string option) \<Rightarrow> strmap \<Rightarrow> (string \<rightharpoonup> string option) \<Rightarrow> bool"
  where
  "two_maps h t m u n \<longleftrightarrow>
     (\<exists>T U. apart h t T u U \<and> m = map_of (inord T) \<and> n = map_of (inord U))"

lemma strmap_repI: "strmap_at h t T \<Longrightarrow> map_of (inord T) = m \<Longrightarrow> strmap_rep h t m"
  by (auto simp: strmap_rep_def)

lemma two_mapsI:
  "apart h t T u U \<Longrightarrow> map_of (inord T) = m \<Longrightarrow> map_of (inord U) = n \<Longrightarrow> two_maps h t m u n"
  by (auto simp: two_maps_def)

section \<open>The contract\<close>

text \<open>Sequences of operations, of an implementation and of the abstract map.\<close>

datatype ('k, 'v) map_op = Put 'k 'v | Remove 'k

fun apply_ops :: "('k \<Rightarrow> 'v \<Rightarrow> 's \<Rightarrow> 's option) \<Rightarrow> ('k \<Rightarrow> 's \<Rightarrow> 's option)
    \<Rightarrow> ('k, 'v) map_op list \<Rightarrow> 's \<Rightarrow> 's option" where
  "apply_ops put remove [] s = Some s"
| "apply_ops put remove (Put k v # ops) s = do { s \<leftarrow> put k v s; apply_ops put remove ops s }"
| "apply_ops put remove (Remove k # ops) s = do { s \<leftarrow> remove k s; apply_ops put remove ops s }"

fun spec_ops :: "('k, 'v) map_op list \<Rightarrow> ('k \<rightharpoonup> 'v) \<Rightarrow> ('k \<rightharpoonup> 'v)" where
  "spec_ops [] m = m"
| "spec_ops (Put k v # ops) m = spec_ops ops (m(k \<mapsto> v))"
| "spec_ops (Remove k # ops) m = spec_ops ops (m(k := None))"

fun op_ok :: "('k \<Rightarrow> bool) \<Rightarrow> ('v \<Rightarrow> bool) \<Rightarrow> ('k, 'v) map_op \<Rightarrow> bool" where
  "op_ok key_ok value_ok (Put k v) \<longleftrightarrow> key_ok k \<and> value_ok v"
| "op_ok key_ok value_ok (Remove k) \<longleftrightarrow> key_ok k"

locale string_map =
  fixes inv :: "'s \<Rightarrow> ('k \<rightharpoonup> 'v) \<Rightarrow> bool"
    and key_ok :: "'k \<Rightarrow> bool"
    and value_ok :: "'v \<Rightarrow> bool"
    and put :: "'k \<Rightarrow> 'v \<Rightarrow> 's \<Rightarrow> 's option"
    and remove :: "'k \<Rightarrow> 's \<Rightarrow> 's option"
    and lookup :: "'k \<Rightarrow> 's \<Rightarrow> 'v option"
    and missing :: 'v
  assumes put_ok: "inv s m \<Longrightarrow> key_ok k \<Longrightarrow> value_ok v \<Longrightarrow> runs (put k v s) (\<lambda>s'. inv s' (m(k \<mapsto> v)))"
    and remove_ok: "inv s m \<Longrightarrow> key_ok k \<Longrightarrow> runs (remove k s) (\<lambda>s'. inv s' (m(k := None)))"
    and lookup_ok: "inv s m \<Longrightarrow> key_ok k \<Longrightarrow>
      lookup k s = Some (case m k of None \<Rightarrow> missing | Some v \<Rightarrow> v)"
begin

text \<open>Clients see a map: whatever the sequence of operations, it succeeds and lookups agree.\<close>

lemma apply_ops_ok:
  assumes "inv s m" "\<forall>p\<in>set ops. op_ok key_ok value_ok p"
  shows "runs (apply_ops put remove ops s) (\<lambda>s'. inv s' (spec_ops ops m))"
  using assms
proof (induction ops arbitrary: s m)
  case (Cons p ops)
  then show ?case
    by (cases p) (auto simp: runs_bind intro!: runs_mono [OF put_ok] runs_mono [OF remove_ok])
qed (simp add: runs_Some)

lemma lookup_after_ops:
  assumes "inv s m" "\<forall>p\<in>set ops. op_ok key_ok value_ok p" "key_ok k"
  shows "\<exists>s'. apply_ops put remove ops s = Some s' \<and>
    lookup k s' = Some (case spec_ops ops m k of None \<Rightarrow> missing | Some v \<Rightarrow> v)"
  using apply_ops_ok [OF assms(1,2)] lookup_ok [OF _ assms(3)] by (auto simp: runs_def)

end

section \<open>The code meets the contract\<close>

text \<open>The state is the caller's map structure with the heap; a failing return code is \<open>None\<close>.\<close>

definition do_set :: "string \<Rightarrow> string option \<Rightarrow> strmap \<times> heap \<Rightarrow> (strmap \<times> heap) option" where
  "do_set k v s = do {
     (rc, t, h) \<leftarrow> strmap_set (Some (fst s)) (Some k) v (snd s);
     t \<leftarrow> t;
     if rc = STRMAP_SUCCESS then Some (t, h) else None
   }"

definition do_unset :: "string \<Rightarrow> strmap \<times> heap \<Rightarrow> (strmap \<times> heap) option" where
  "do_unset k s = do {
     (rc, t, h) \<leftarrow> strmap_unset (Some (fst s)) (Some k) (snd s);
     t \<leftarrow> t;
     if rc = STRMAP_SUCCESS then Some (t, h) else None
   }"

definition do_get :: "string \<Rightarrow> strmap \<times> heap \<Rightarrow> string option option" where
  "do_get k s = strmap_get (snd s) (Some (fst s)) (Some k)"

lemma set_rep:
  assumes "strmap_rep h t m" "cstring k" "val_ok v"
  shows "runs (strmap_set (Some t) (Some k) v h) (\<lambda>(rc, t', h'). rc = STRMAP_SUCCESS
    \<and> (\<exists>u. t' = Some u \<and> strmap_rep h' u (m(k \<mapsto> v))))"
proof -
  obtain T where T: "strmap_at h t T" "m = map_of (inord T)"
    using assms(1) by (auto simp: strmap_rep_def)
  have "map_of (inord (insert_tree (brk h) k v T)) = m(k \<mapsto> v)"
    using T by (auto simp: strmap_at_def intro: map_of_insert_tree)
  then show ?thesis
    by (intro runs_mono [OF strmap_set_at [OF T(1) assms(2,3)]]) (auto intro: strmap_repI)
qed

lemma unset_rep:
  assumes "strmap_rep h t m" "cstring k"
  shows "runs (strmap_unset (Some t) (Some k) h) (\<lambda>(rc, t', h'). rc = STRMAP_SUCCESS
    \<and> (\<exists>u. t' = Some u \<and> strmap_rep h' u (m(k := None))))"
proof -
  obtain T where T: "strmap_at h t T" "m = map_of (inord T)"
    using assms(1) by (auto simp: strmap_rep_def)
  have "map_of (inord (delete_tree k T)) = m(k := None)"
    using T map_of_delete_tree by (auto simp: strmap_at_def)
  then show ?thesis
    by (intro runs_mono [OF strmap_unset_at [OF T(1) assms(2)]]) (auto intro: strmap_repI)
qed

interpretation avl_map: string_map "\<lambda>s. strmap_rep (snd s) (fst s)" cstring val_ok do_set do_unset
  do_get NULL
proof (unfold_locales, goal_cases)
  case (1 s m k v)
  show ?case
    unfolding do_set_def runs_bind
    by (rule runs_mono [OF set_rep [OF 1]]) (auto simp: runs_Some case_prod_unfold runs_bind)
next
  case (2 s m k)
  show ?case
    unfolding do_unset_def runs_bind
    by (rule runs_mono [OF unset_rep [OF 2]]) (auto simp: runs_Some case_prod_unfold runs_bind)
next
  case (3 s m k)
  then show ?case using strmap_get_at by (auto simp: do_get_def strmap_rep_def)
qed


lemma two_maps_set:
  assumes "two_maps h t m u n" "cstring k" "val_ok v"
  shows "runs (strmap_set (Some t) (Some k) v h) (\<lambda>(rc, t', h'). rc = STRMAP_SUCCESS
    \<and> (\<exists>w. t' = Some w \<and> two_maps h' w (m(k \<mapsto> v)) u n))"
proof -
  obtain T U where T: "apart h t T u U" "m = map_of (inord T)" "n = map_of (inord U)"
    using assms(1) by (auto simp: two_maps_def)
  then have t: "strmap_at h t T" "avl T" by (auto simp: apart_def strmap_at_def)
  have ins: "map_of (inord (insert_tree (brk h) k v T)) = m(k \<mapsto> v)"
    using T t by (auto simp: strmap_at_def intro: map_of_insert_tree)
  have g: "grown h T h' w (insert_tree (brk h) k v T)"
    if "strmap_at h' w (insert_tree (brk h) k v T)" "outside_same T h h'" for h' w
    using that addrs_insert_tree [OF t(2), of "brk h" k v] by (force simp: grown_def strmap_at_def)
  show ?thesis
    by (rule runs_mono [OF strmap_set_at [OF t(1) assms(2,3)]])
      (use T ins grown_apart [OF T(1) g] in \<open>auto intro!: two_mapsI\<close>)
qed

lemma two_maps_unset:
  assumes "two_maps h t m u n" "cstring k"
  shows "runs (strmap_unset (Some t) (Some k) h) (\<lambda>(rc, t', h'). rc = STRMAP_SUCCESS
    \<and> (\<exists>w. t' = Some w \<and> two_maps h' w (m(k := None)) u n))"
proof -
  obtain T U where T: "apart h t T u U" "m = map_of (inord T)" "n = map_of (inord U)"
    using assms(1) by (auto simp: two_maps_def)
  then have t: "strmap_at h t T" by (auto simp: apart_def)
  have del: "map_of (inord (delete_tree k T)) = m(k := None)"
    using T t map_of_delete_tree by (auto simp: strmap_at_def)
  have sub: "set (addrs (delete_tree k T)) \<subseteq> set (addrs T)"
  proof -
    obtain t' fs where d: "descend k T [] = (t', fs)" by fastforce
    show ?thesis
    proof (cases t')
      case (Bin l a k' v n' r)
      then show ?thesis
        using mset_addrs_delete [of k T l a k' v n' r fs] d
        by (metis set_mset_add_mset_insert set_mset_mset subset_insertI)
    qed (use d in \<open>simp add: delete_tree_def\<close>)
  qed
  have "apart h' w (delete_tree k T) u U"
    if "strmap_at h' w (delete_tree k T)" "outside_same T h h'" for h' w
    using that T(1) sub strmap_at_frame [of h u U T h'] by (auto simp: apart_def)
  then show ?thesis
    using T del by (intro runs_mono [OF strmap_unset_at [OF t assms(2)]]) (auto intro!: two_mapsI)
qed

section \<open>Properties\<close>

text \<open>A map of two entries, built at addresses 4 and 5, used as a concrete input below.\<close>

definition sample_heap :: heap where
  "sample_heap = \<lparr>cells = [4 \<mapsto> mk_node ''a'' (Some ''1'') 2 NULL NULL (Some 5),
     5 \<mapsto> mk_node ''b'' (Some ''2'') 1 (Some 4) NULL NULL], brk = 6\<rparr>"

definition sample_map :: strmap where
  "sample_map = \<lparr>sm_root = Some 4, sm_len = 8\<rparr>"

abbreviation sample_tree :: stree where
  "sample_tree \<equiv> Bin Tip 4 ''a'' (Some ''1'') 2 (Bin Tip 5 ''b'' (Some ''2'') 1 Tip)"

lemma sample_at: "strmap_at sample_heap sample_map sample_tree"
  by (simp add: strmap_at_def sample_heap_def sample_map_def zip_at_def bst_def entries_ok_def
      cstring_def val_ok_def entry_size_def str_size_def val_size_def)

lemma sample_entries: "strmap_entries sample_heap sample_map [(''a'', Some ''1''), (''b'', Some ''2'')]"
  using sample_at by (auto simp: strmap_entries_def)

lemma sample_two:
  "two_maps sample_heap sample_map [''a'' \<mapsto> Some ''1'', ''b'' \<mapsto> Some ''2''] strmap_new Map.empty"
  by (rule two_mapsI [of _ _ sample_tree _ Tip])
    (auto simp: apart_def sample_at strmap_at_new)

text \<open>
  C1. A history of insertions and removals on a new map always runs to completion with the
  success code, without a memory error, and a lookup afterwards returns what the abstract map
  that went through the same history holds: the last value set for the key, or NULL when the
  key was never set or was removed since.
\<close>

theorem strmap_history:
  assumes "\<forall>p\<in>set ops. op_ok cstring val_ok p" "cstring k"
  shows "\<exists>s'. apply_ops do_set do_unset ops (strmap_new, h) = Some s' \<and>
    do_get k s' = Some (case spec_ops ops Map.empty k of None \<Rightarrow> NULL | Some v \<Rightarrow> v)"
proof (rule avl_map.lookup_after_ops [OF _ assms])
  show "strmap_rep (snd (strmap_new, h)) (fst (strmap_new, h)) Map.empty"
    using strmap_at_new [of h] by (auto intro: strmap_repI)
qed

theorem strmap_history_witness:
  "\<exists>s'. apply_ops do_set do_unset [Put ''x'' (Some ''1''), Put ''y'' (Some ''2''), Remove ''x'']
      (strmap_new, \<lparr>cells = Map.empty, brk = 0\<rparr>) = Some s' \<and> do_get ''y'' s' = Some (Some ''2'')"
  using strmap_history [of "[Put ''x'' (Some ''1''), Put ''y'' (Some ''2''), Remove ''x'']" "''y''"
      "\<lparr>cells = Map.empty, brk = 0\<rparr>"]
  by (simp add: cstring_def val_ok_def)

text \<open>
  C2. \<open>strmap_set\<close> returns success, leaves the AVL invariant of the map intact, changes the map
  at the given key only, and leaves every other map in the heap as it was.
\<close>

theorem strmap_set_correct:
  assumes "two_maps h t m u n" "cstring k" "val_ok v"
  shows "\<exists>t' h'. strmap_set (Some t) (Some k) v h = Some (STRMAP_SUCCESS, Some t', h')
    \<and> two_maps h' t' (m(k \<mapsto> v)) u n"
  using two_maps_set [OF assms] by (auto simp: runs_def)

theorem strmap_set_correct_witness:
  "\<exists>t' h'. strmap_set (Some sample_map) (Some ''c'') (Some ''3'') sample_heap = Some (STRMAP_SUCCESS, Some t', h')
    \<and> two_maps h' t' ([''a'' \<mapsto> Some ''1'', ''b'' \<mapsto> Some ''2'', ''c'' \<mapsto> Some ''3'']) strmap_new Map.empty"
  using strmap_set_correct [OF sample_two, of "''c''" "Some ''3''"] by (simp add: cstring_def val_ok_def)

text \<open>
  C3. \<open>strmap_unset\<close> returns success, keeps the AVL invariant, removes exactly the given key and
  leaves every other map in the heap as it was.
\<close>

theorem strmap_unset_correct:
  assumes "two_maps h t m u n" "cstring k"
  shows "\<exists>t' h'. strmap_unset (Some t) (Some k) h = Some (STRMAP_SUCCESS, Some t', h')
    \<and> two_maps h' t' (m(k := None)) u n"
  using two_maps_unset [OF assms] by (auto simp: runs_def)

theorem strmap_unset_correct_witness:
  "\<exists>t' h'. strmap_unset (Some sample_map) (Some ''a'') sample_heap = Some (STRMAP_SUCCESS, Some t', h')
    \<and> two_maps h' t' [''b'' \<mapsto> Some ''2''] strmap_new Map.empty"
proof -
  have "[''a'' \<mapsto> Some ''1'', ''b'' \<mapsto> Some ''2''](''a'' := None) = [''b'' \<mapsto> Some ''2'']" by auto
  then show ?thesis using strmap_unset_correct [OF sample_two, of "''a''"] by (simp add: cstring_def)
qed

text \<open>
  C4. Packing a map and unpacking the bytes into a new map, in any heap and with any bytes
  after the packed ones, gives a map with the same entries; both functions return the number
  of bytes of the packed form. The total must fit in 64 bits and every value must be present.
\<close>

theorem strmap_pack_unpack:
  assumes "strmap_entries h t es" "\<forall>e\<in>set es. snd e \<noteq> NULL" "packed_len es < 2 ^ 64"
  shows "\<exists>bytes n u h''. strmap_pack h (Some t) = Some (bytes, n) \<and> unat n = length bytes
    \<and> strmap_unpack (bytes @ rest) (Some strmap_new) h' = Some (n, Some u, h'') \<and> strmap_entries h'' u es"
proof -
  obtain T where T: "strmap_at h t T" "es = inord T" using assms(1) by (auto simp: strmap_entries_def)
  have ok: "entries_ok es" "sorted_wrt (<) (keys es)" using T by (auto simp: strmap_at_def bst_def)
  have pk: "strmap_pack h (Some t) = Some (packed es, word_of_nat (packed_len es))"
    using strmap_pack_at [OF T(1)] assms(3) T(2) by simp
  have len: "unat (word_of_nat (packed_len es) :: u64) = length (packed es)"
    using unat_word_of_nat_u64 [OF assms(3)] length_packed by simp
  obtain u h'' where un: "strmap_unpack (packed es @ rest) (Some strmap_new) h' =
      Some (word_of_nat (packed_len es), Some u, h'')" and ins: "inserted h' Tip es (Some u, h'')"
    using strmap_unpack_at [OF strmap_at_new [of h'] ok(1) assms(2,3), of rest]
    by (auto simp: runs_def inserted_def)
  obtain T' where T': "strmap_at h'' u T'" "map_of (inord T') = map_of (rev es)"
    using ins by (auto simp: inserted_def grown_def)
  have "inord T' = es"
    using T' ok(2) map_of_rev [of es] strict_sorted_iff
    by (intro sorted_entries_unique) (auto simp: strmap_at_def bst_def)
  then have "strmap_entries h'' u es" using T'(1) by (auto simp: strmap_entries_def)
  then show ?thesis using pk len un by auto
qed

theorem strmap_pack_unpack_witness:
  "\<exists>bytes n u h''. strmap_pack sample_heap (Some sample_map) = Some (bytes, n) \<and> unat n = length bytes
    \<and> strmap_unpack (bytes @ ''tail'') (Some strmap_new) sample_heap = Some (n, Some u, h'')
    \<and> strmap_entries h'' u [(''a'', Some ''1''), (''b'', Some ''2'')]"
  by (rule strmap_pack_unpack [OF sample_entries]) (auto simp: packed_len_def entry_len_def)

text \<open>
  C8. \<open>strmap_merge\<close> adds every entry of the source map to the destination, the source winning
  on common keys, and leaves the source map as it was.
\<close>

theorem strmap_merge_correct:
  assumes "two_maps h t m u n"
  shows "\<exists>t' h'. strmap_merge (Some t) (Some u) h = Some (Some t', h') \<and> two_maps h' t' (m ++ n) u n"
proof -
  obtain T U where T: "apart h t T u U" "m = map_of (inord T)" "n = map_of (inord U)"
    using assms by (auto simp: two_maps_def)
  show ?thesis
    using strmap_merge_at [OF T(1)] T(2,3) by (auto simp: runs_def intro!: two_mapsI)
qed

theorem strmap_merge_correct_witness:
  "\<exists>t' h'. strmap_merge (Some sample_map) (Some strmap_new) sample_heap = Some (Some t', h')
    \<and> two_maps h' t' ([''a'' \<mapsto> Some ''1'', ''b'' \<mapsto> Some ''2''] ++ Map.empty) strmap_new Map.empty"
  by (rule strmap_merge_correct [OF sample_two])

text \<open>
  C9. The iteration of \<open>strmap_print\<close> visits every entry exactly once, in strictly ascending
  order of the keys, and ends.
\<close>

theorem strmap_print_correct:
  assumes "strmap_entries h t es"
  shows "sorted_wrt (<) (map fst es)
    \<and> strmap_print h (Some t) = Some (map (\<lambda>(i, k, v). (i, Some k, v)) (enumerate 0 es),
        length es, word_of_nat (packed_len es))"
proof -
  obtain T where T: "strmap_at h t T" "es = inord T" using assms(1) by (auto simp: strmap_entries_def)
  have "map (\<lambda>(i, a, k, v). (i, Some k, v)) (enumerate 0 (nodes T)) =
      map (\<lambda>(i, k, v). (i, Some k, v)) (enumerate 0 (map snd (nodes T)))"
    by (auto simp: enumerate_eq_zip zip_map2 comp_def case_prod_unfold)
  then show ?thesis
    using strmap_print_at [OF T(1)] T by (simp add: strmap_at_def bst_def nodes_inord sum_entry_size packed_len_def)
qed

theorem strmap_print_correct_witness:
  "strmap_print sample_heap (Some sample_map) =
    Some ([(0, Some ''a'', Some ''1''), (1, Some ''b'', Some ''2'')], 2, 16)"
  using strmap_print_correct [OF sample_entries]
  by (simp add: enumerate_eq_zip packed_len_def entry_len_def)

text \<open>
  C10. \<open>strmap_delete\<close> frees every node of the map exactly once, frees nothing else, and resets
  the caller's variable.
\<close>

theorem strmap_delete_correct:
  assumes "strmap_at h t T"
  shows "strmap_delete (Some (Some t)) h =
    Some (Some NULL, h\<lparr>cells := (\<lambda>x. if x \<in> set (addrs T) then None else cells h x)\<rparr>)"
  by (rule strmap_delete_at [OF assms])

theorem strmap_delete_correct_witness:
  "strmap_delete (Some (Some sample_map)) sample_heap = Some (Some NULL, \<lparr>cells = Map.empty, brk = 6\<rparr>)"
  using strmap_delete_correct [OF sample_at] by (auto simp: sample_heap_def fun_eq_iff)

text \<open>
  C11. The height of a map is logarithmic in the number of its entries, and \<open>strmap_height\<close>
  returns it: a map of \<open>n\<close> entries has a height \<open>h\<close> with \<open>2 ^ (h div 2) \<le> n + 1\<close>.
\<close>

theorem strmap_height_log:
  assumes "strmap_entries h t es"
  shows "\<exists>n. strmap_height h (Some t) = Some n \<and> 0 \<le> n \<and> 2 ^ (nat n div 2) \<le> length es + 1"
proof -
  obtain T where T: "strmap_at h t T" "es = inord T" using assms(1) by (auto simp: strmap_entries_def)
  have "strmap_height h (Some t) = Some (ht T)"
    using T(1) by (cases T) (auto simp: strmap_height_def strmap_at_def zip_at_def rd_Some)
  moreover have "avl T" using T(1) by (simp add: strmap_at_def)
  ultimately show ?thesis using T(2) avl_height_log avl_ht_nonneg by auto
qed

theorem strmap_height_log_witness:
  "\<exists>n. strmap_height sample_heap (Some sample_map) = Some n \<and> 0 \<le> n \<and> 2 ^ (nat n div 2) \<le> (3 :: nat)"
  using strmap_height_log [OF sample_entries] by (simp add: numeral_3_eq_3)

text \<open>
  The formatted operations agree: after \<open>strmap_setf\<close> with a format that prints
  \<open>key=value\<close>, \<open>strmap_getf\<close> with a format that prints the key returns the value. The value is
  what follows the first equals sign, and may contain more of them.
\<close>

theorem strmap_setf_getf:
  assumes "strmap_rep h t m" "cstring k" "cstring v" "CHR ''='' \<notin> set k"
    and "vsnprintf f args = Some (k @ ''='' @ v)" "vsnprintf g args' = Some k"
  shows "\<exists>t' h'. strmap_setf vsnprintf (Some t) (Some f) args h = Some (STRMAP_SUCCESS, Some t', h')
    \<and> strmap_getf vsnprintf h' (Some t') (Some g) args' = Some (Some v)"
proof -
  have tw: "takeWhile (\<lambda>c. c \<noteq> CHR ''='') (k @ ''='' @ v) = k"
    "dropWhile (\<lambda>c. c \<noteq> CHR ''='') (k @ ''='' @ v) = ''='' @ v"
    using assms(4) by (auto simp: takeWhile_append dropWhile_append)
  have eq: "strmap_setf vsnprintf (Some t) (Some f) args h = strmap_set (Some t) (Some k) (Some v) h"
    using assms(5) tw by (simp add: strmap_setf_def strsep_def)
  obtain t' h' where s: "strmap_set (Some t) (Some k) (Some v) h = Some (STRMAP_SUCCESS, Some t', h')"
    and r: "strmap_rep h' t' (m(k \<mapsto> Some v))"
    using set_rep [OF assms(1,2), of "Some v"] assms(3) by (auto simp: runs_def val_ok_def)
  have "strmap_get h' (Some t') (Some k) = Some (Some v)"
    using avl_map.lookup_ok [of "(t', h')", OF _ assms(2)] r by (simp add: do_get_def)
  then show ?thesis using eq s assms(6) by (simp add: strmap_getf_def)
qed

theorem strmap_setf_getf_witness:
  "\<exists>t' h'. strmap_setf (\<lambda>f a. Some (if f then ''k=v=w'' else ''k'')) (Some sample_map) (Some True) () sample_heap
      = Some (STRMAP_SUCCESS, Some t', h')
    \<and> strmap_getf (\<lambda>f a. Some (if f then ''k=v=w'' else ''k'')) h' (Some t') (Some False) () = Some (Some ''v=w'')"
  by (rule strmap_setf_getf [where k = "''k''"]) (auto simp: cstring_def intro: strmap_repI [OF sample_at])

end
