(* ===== verification/Net.thy ===== *)
theory Net
  imports Prelude
begin

text \<open>
  Processes that communicate over reliable byte streams. A process of the library is a
  program that writes bytes to a channel, reads a given number of bytes from a channel, or
  has returned a value; \<open>spawn_net_read\<close> blocks until the bytes are there. A network is one
  program per process with the bytes in flight, and a step lets any one process that can
  move do its next action, so the steps from a state are all the interleavings.

  There are two readings of a write. In \<open>nstep\<close> a channel holds any number of bytes, so a write
  never waits: this is right for messages that fit in the buffers of the kernel. In \<open>bstep\<close> a
  channel holds at most a given number of bytes, a write waits when it is full, and bytes move
  one at a time, so that a long message passes through a small buffer only while the other end
  reads.

  The first part shows that the interleaving does not matter: if one schedule brings all
  processes to their end then every schedule does, in the same number of steps and with the
  same results, and no schedule gets stuck. The second part is a calculus to show that there
  is such a schedule.
\<close>

section \<open>Processes\<close>

datatype 'a proc = Ret 'a | Send nat "byte list" "'a proc" | Recv nat nat "byte list option \<Rightarrow> 'a proc"

primrec pbind :: "'a proc \<Rightarrow> ('a \<Rightarrow> 'b proc) \<Rightarrow> 'b proc" where
  "pbind (Ret x) k = k x"
| "pbind (Send h bs p) k = Send h bs (pbind p k)"
| "pbind (Recv h n f) k = Recv h n (\<lambda>r. pbind (f r) k)"

lemma pbind_assoc: "pbind (pbind p k) l = pbind p (\<lambda>x. pbind (k x) l)"
  by (induction p) auto

lemma pbind_Ret [simp]: "pbind p Ret = p"
  by (induction p) auto

text \<open>
  Writing and reading on a channel; \<open>NULL\<close> is the null channel, on which both do nothing, so
  that a read leaves the buffer as it was. A read gives a return code and the new content of
  the buffer; a failed read gives no bytes.
\<close>

definition SPAWN_SUCCESS :: int where "SPAWN_SUCCESS = 0"
definition SPAWN_FAILURE :: int where "SPAWN_FAILURE = 1"

definition net_write :: "nat option \<Rightarrow> byte list \<Rightarrow> unit proc" where
  "net_write ch bs = (case ch of None \<Rightarrow> Ret () | Some h \<Rightarrow> Send h bs (Ret ()))"

definition net_read :: "nat option \<Rightarrow> byte list \<Rightarrow> nat \<Rightarrow> (int \<times> byte list) proc" where
  "net_read ch buf n = (case ch of None \<Rightarrow> Ret (SPAWN_SUCCESS, buf)
     | Some h \<Rightarrow> Recv h n (\<lambda>r. case r of None \<Rightarrow> Ret (SPAWN_FAILURE, buf)
                                     | Some bs \<Rightarrow> Ret (SPAWN_SUCCESS, bs)))"

section \<open>Networks\<close>

type_synonym queues = "nat \<times> nat \<Rightarrow> byte list"
type_synonym 'a net = "(nat \<Rightarrow> 'a proc) \<times> queues"

text \<open>
  A channel end is a process with a local handle; \<open>peer\<close> gives the other end of its channel.
  The bytes written at one end arrive in the queue of the other. The channels are reliable:
  a read waits until the bytes are there and does not fail. \<open>S\<close> is the set of processes
  that may move.
\<close>

inductive nstep :: "(nat \<times> nat \<Rightarrow> nat \<times> nat) \<Rightarrow> nat set \<Rightarrow> 'a net \<Rightarrow> 'a net \<Rightarrow> bool"
  for peer :: "nat \<times> nat \<Rightarrow> nat \<times> nat" and S :: "nat set" where
  send: "i \<in> S \<Longrightarrow> ps i = Send h bs p \<Longrightarrow>
    nstep peer S (ps, q) (ps(i := p), q(peer (i, h) := q (peer (i, h)) @ bs))"
| recv: "i \<in> S \<Longrightarrow> ps i = Recv h n f \<Longrightarrow> n \<le> length (q (i, h)) \<Longrightarrow>
    nstep peer S (ps, q) (ps(i := f (Some (take n (q (i, h))))), q((i, h) := drop n (q (i, h))))"

inductive_cases nstepE: "nstep peer S c c'"

text \<open>The step of one process is a function of the state.\<close>

definition pstep :: "(nat \<times> nat \<Rightarrow> nat \<times> nat) \<Rightarrow> nat \<Rightarrow> 'a net \<Rightarrow> 'a net option" where
  "pstep peer i c = (case fst c i of
      Ret x \<Rightarrow> None
    | Send h bs p \<Rightarrow> Some ((fst c)(i := p), (snd c)(peer (i, h) := snd c (peer (i, h)) @ bs))
    | Recv h n f \<Rightarrow> if n \<le> length (snd c (i, h))
        then Some ((fst c)(i := f (Some (take n (snd c (i, h))))), (snd c)((i, h) := drop n (snd c (i, h))))
        else None)"

lemma nstep_pstep: "nstep peer S c c' \<longleftrightarrow> (\<exists>i\<in>S. pstep peer i c = Some c')"
proof
  assume "nstep peer S c c'"
  then show "\<exists>i\<in>S. pstep peer i c = Some c'"
  proof (cases rule: nstep.cases)
    case (send i ps h bs p q)
    then show ?thesis by (intro bexI [of _ i]) (simp_all add: pstep_def)
  next
    case (recv i ps h n f q)
    then show ?thesis by (intro bexI [of _ i]) (simp_all add: pstep_def)
  qed
next
  assume "\<exists>i\<in>S. pstep peer i c = Some c'"
  then obtain i where i: "i \<in> S" "pstep peer i c = Some c'" by blast
  obtain ps q where c: "c = (ps, q)" by fastforce
  show "nstep peer S c c'"
  proof (cases "ps i")
    case (Send h bs p)
    then show ?thesis using i nstep.send [of i S ps h bs p peer q] by (simp add: pstep_def c)
  next
    case (Recv h n f)
    then show ?thesis using i nstep.recv [of i S ps h n f q peer]
      by (simp add: pstep_def c split: if_splits)
  qed (use i c in \<open>simp add: pstep_def\<close>)
qed

section \<open>Channels of bounded capacity\<close>

text \<open>
  The step of one process when a channel holds at most \<open>b\<close> bytes in each direction: \<open>write\<close> and
  \<open>read\<close> transfer what they can and are called again for the rest, here one byte at a time.
\<close>

definition bpstep :: "nat \<Rightarrow> (nat \<times> nat \<Rightarrow> nat \<times> nat) \<Rightarrow> nat \<Rightarrow> 'a net \<Rightarrow> 'a net option" where
  "bpstep b peer i c = (case fst c i of
      Ret x \<Rightarrow> None
    | Send h bs p \<Rightarrow> (case bs of [] \<Rightarrow> Some ((fst c)(i := p), snd c)
        | x # bs' \<Rightarrow> if length (snd c (peer (i, h))) < b
            then Some ((fst c)(i := Send h bs' p), (snd c)(peer (i, h) := snd c (peer (i, h)) @ [x]))
            else None)
    | Recv h n f \<Rightarrow> (case n of 0 \<Rightarrow> Some ((fst c)(i := f (Some [])), snd c)
        | Suc m \<Rightarrow> (case snd c (i, h) of [] \<Rightarrow> None
            | x # r \<Rightarrow> Some ((fst c)(i := Recv h m (\<lambda>rest. f (map_option ((#) x) rest))), (snd c)((i, h) := r)))))"

definition bstep :: "nat \<Rightarrow> (nat \<times> nat \<Rightarrow> nat \<times> nat) \<Rightarrow> nat set \<Rightarrow> 'a net \<Rightarrow> 'a net \<Rightarrow> bool" where
  "bstep b peer S c c' \<longleftrightarrow> (\<exists>i\<in>S. bpstep b peer i c = Some c')"

text \<open>Both kinds of step, with the capacity \<open>None\<close> for channels without a bound.\<close>

definition cpstep :: "nat option \<Rightarrow> (nat \<times> nat \<Rightarrow> nat \<times> nat) \<Rightarrow> nat \<Rightarrow> 'a net \<Rightarrow> 'a net option" where
  "cpstep cap peer = (case cap of None \<Rightarrow> pstep peer | Some b \<Rightarrow> bpstep b peer)"

definition cstep :: "nat option \<Rightarrow> (nat \<times> nat \<Rightarrow> nat \<times> nat) \<Rightarrow> nat set \<Rightarrow> 'a net \<Rightarrow> 'a net \<Rightarrow> bool" where
  "cstep cap peer S c c' \<longleftrightarrow> (\<exists>i\<in>S. cpstep cap peer i c = Some c')"

lemma cstep_None: "cstep None peer S = nstep peer S"
  by (intro ext) (simp add: cstep_def cpstep_def nstep_pstep)

lemma cstep_Some: "cstep (Some b) peer S = bstep b peer S"
  by (intro ext) (simp add: cstep_def cpstep_def bstep_def)

section \<open>The interleaving does not matter\<close>

lemma pstep_diamond:
  assumes "inj peer" "i \<noteq> j" "pstep peer i c = Some a" "pstep peer j c = Some b"
  shows "\<exists>d. pstep peer j a = Some d \<and> pstep peer i b = Some d"
proof -
  obtain ps q where c: "c = (ps, q)" by fastforce
  have inj: "peer (i, h) \<noteq> peer (j, h')" for h h' using assms(1,2) by (auto dest: injD)
  show ?thesis
    using assms(2-4) inj
    by (auto simp: pstep_def c fun_upd_twist split: proc.splits if_splits)
qed

text \<open>What a step does and what it depends on.\<close>

lemma bpstepE:
  assumes "bpstep b peer i (ps, q) = Some a"
  obtains (quiet) p where "a = (ps(i := p), q)"
      "\<And>ps' q'. ps' i = ps i \<Longrightarrow> bpstep b peer i (ps', q') = Some (ps'(i := p), q')"
  | (put) p h x where "a = (ps(i := p), q(peer (i, h) := q (peer (i, h)) @ [x]))" "length (q (peer (i, h))) < b"
      "\<And>ps' q'. ps' i = ps i \<Longrightarrow> length (q' (peer (i, h))) < b \<Longrightarrow>
        bpstep b peer i (ps', q') = Some (ps'(i := p), q'(peer (i, h) := q' (peer (i, h)) @ [x]))"
  | (get) p h x r where "a = (ps(i := p), q((i, h) := r))" "q (i, h) = x # r"
      "\<And>ps' q' r'. ps' i = ps i \<Longrightarrow> q' (i, h) = x # r' \<Longrightarrow>
        bpstep b peer i (ps', q') = Some (ps'(i := p), q'((i, h) := r'))"
proof (cases "ps i")
  case (Send h bs p)
  show ?thesis
  proof (cases bs)
    case Nil
    then show ?thesis using assms Send by (intro quiet [of p]) (auto simp: bpstep_def)
  next
    case (Cons x bs')
    then show ?thesis using assms Send
      by (intro put [of "Send h bs' p" h x]) (auto simp: bpstep_def split: if_splits)
  qed
next
  case (Recv h n f)
  show ?thesis
  proof (cases n)
    case 0
    then show ?thesis using assms Recv by (intro quiet [of "f (Some [])"]) (auto simp: bpstep_def)
  next
    case (Suc m)
    then obtain x r where "q (i, h) = x # r" using assms Recv by (auto simp: bpstep_def split: list.splits)
    then show ?thesis using assms Recv Suc
      by (intro get [of "Recv h m (\<lambda>rest. f (map_option ((#) x) rest))" h r x]) (auto simp: bpstep_def)
  qed
qed (use assms in \<open>simp add: bpstep_def\<close>)

lemma put_get_commute:
  assumes "i \<noteq> j" "length (q k) < b" "q (j, g) = y # r"
    and put: "\<And>ps' q'. ps' i = ps i \<Longrightarrow> length (q' k) < b \<Longrightarrow> bpstep b peer i (ps', q') = Some (ps'(i := p), q'(k := q' k @ [x]))"
    and get: "\<And>ps' q' r'. ps' j = ps j \<Longrightarrow> q' (j, g) = y # r' \<Longrightarrow> bpstep b peer j (ps', q') = Some (ps'(j := p'), q'((j, g) := r'))"
  shows "\<exists>e. bpstep b peer j (ps(i := p), q(k := q k @ [x])) = Some e \<and> bpstep b peer i (ps(j := p'), q((j, g) := r)) = Some e"
proof (cases "k = (j, g)")
  case True
  have "bpstep b peer j (ps(i := p), q(k := q k @ [x])) = Some (ps(i := p, j := p'), q(k := r @ [x]))"
    using get [of "ps(i := p)" "q(k := q k @ [x])" "r @ [x]"] assms(1,3) True by simp
  moreover have "bpstep b peer i (ps(j := p'), q((j, g) := r)) = Some (ps(j := p', i := p), q(k := r @ [x]))"
    using put [of "ps(j := p')" "q((j, g) := r)"] assms(1-3) True by simp
  ultimately show ?thesis using assms(1) by (simp add: fun_upd_twist)
next
  case False
  then show ?thesis
    using get [of "ps(i := p)" "q(k := q k @ [x])" r] put [of "ps(j := p')" "q((j, g) := r)"] assms(1-3)
    by (simp add: fun_upd_twist)
qed

lemma bpstep_diamond:
  assumes "inj peer" "i \<noteq> j" "bpstep b peer i c = Some a" "bpstep b peer j c = Some d"
  shows "\<exists>e. bpstep b peer j a = Some e \<and> bpstep b peer i d = Some e"
proof -
  obtain ps q where c: "c = (ps, q)" by fastforce
  have inj: "peer (i, h) \<noteq> peer (j, h')" "peer (j, h) \<noteq> peer (i, h')" for h h'
    using assms(1,2) by (auto dest: injD)
  show ?thesis
    using assms(3) unfolding c
  proof (cases rule: bpstepE)
    case i: quiet
    show ?thesis
      using assms(4) unfolding c by (cases rule: bpstepE) (use i assms(2) in \<open>simp_all add: fun_upd_twist\<close>)
  next
    case i: put
    show ?thesis
      using assms(4) unfolding c
    proof (cases rule: bpstepE)
      case j: get
      show ?thesis using put_get_commute [OF assms(2) i(2) j(2) i(3) j(3)] i(1) j(1) by blast
    qed (use i assms(2) inj in \<open>simp_all add: fun_upd_twist\<close>)
  next
    case i: get
    show ?thesis
      using assms(4) unfolding c
    proof (cases rule: bpstepE)
      case j: put
      show ?thesis using put_get_commute [OF not_sym [OF assms(2)] j(2) i(2) j(3) i(3)] i(1) j(1) by blast
    qed (use i assms(2) inj in \<open>simp_all add: fun_upd_twist\<close>)
  qed
qed

lemma cstep_diamond:
  assumes "inj peer" "cstep cap peer S c a" "cstep cap peer S c b" "a \<noteq> b"
  shows "\<exists>d. cstep cap peer S a d \<and> cstep cap peer S b d"
proof -
  obtain i j where i: "i \<in> S" "cpstep cap peer i c = Some a" and j: "j \<in> S" "cpstep cap peer j c = Some b"
    using assms(2,3) by (auto simp: cstep_def)
  then have ne: "i \<noteq> j" using assms(4) by auto
  have "\<exists>d. cpstep cap peer j a = Some d \<and> cpstep cap peer i b = Some d"
  proof (cases cap)
    case None
    then show ?thesis using pstep_diamond [OF assms(1) ne] i(2) j(2) by (simp add: cpstep_def)
  next
    case (Some n)
    then show ?thesis using bpstep_diamond [OF assms(1) ne] i(2) j(2) by (simp add: cpstep_def)
  qed
  then show ?thesis using i(1) j(1) by (auto simp: cstep_def)
qed

definition final :: "nat set \<Rightarrow> 'a net \<Rightarrow> bool" where
  "final S c \<longleftrightarrow> (\<forall>i\<in>S. \<exists>x. fst c i = Ret x)"

lemma final_stuck: "final S c \<Longrightarrow> \<not> cstep cap peer S c c'"
  by (force simp: final_def cstep_def cpstep_def pstep_def bpstep_def split: option.splits)

lemma one_step_less:
  assumes "inj peer" "(cstep cap peer S ^^ n) c f" "final S f" "cstep cap peer S c b"
  shows "\<exists>m. n = Suc m \<and> (cstep cap peer S ^^ m) b f"
  using assms(2,4)
proof (induction n arbitrary: c b)
  case 0
  then show ?case using final_stuck [OF assms(3)] by auto
next
  case (Suc n)
  obtain a where a: "cstep cap peer S c a" "(cstep cap peer S ^^ n) a f"
    using relpowp_Suc_D2 [OF Suc.prems(1)] by blast
  show ?case
  proof (cases "a = b")
    case True
    then show ?thesis using a by blast
  next
    case False
    then obtain d where d: "cstep cap peer S a d" "cstep cap peer S b d"
      using cstep_diamond [OF assms(1) a(1) Suc.prems(2)] by blast
    obtain m where "n = Suc m" "(cstep cap peer S ^^ m) d f" using Suc.IH [OF a(2) d(1)] by blast
    then show ?thesis using relpowp_Suc_I2 [of "cstep cap peer S" b d] d(2) by blast
  qed
qed

lemma any_run_ends:
  assumes "inj peer" "(cstep cap peer S ^^ n) c f" "final S f" "(cstep cap peer S ^^ m) c b"
  shows "m \<le> n \<and> (cstep cap peer S ^^ (n - m)) b f"
  using assms(4)
proof (induction m arbitrary: b)
  case 0
  then show ?case using assms(2) by simp
next
  case (Suc m)
  then obtain a where a: "(cstep cap peer S ^^ m) c a" "cstep cap peer S a b" by auto
  have IH: "m \<le> n" "(cstep cap peer S ^^ (n - m)) a f" using Suc.IH [OF a(1)] by auto
  obtain k where "n - m = Suc k" "(cstep cap peer S ^^ k) b f"
    using one_step_less [OF assms(1) IH(2) assms(3) a(2)] by blast
  then show ?case using IH(1) by (auto simp: diff_Suc split: nat.splits)
qed

text \<open>
  All processes of \<open>S\<close> surely return the results \<open>rs\<close>: every schedule takes the same number of
  steps, no schedule gets stuck before all have returned, and the results are always the same.
\<close>

definition surely_return :: "(nat \<times> nat \<Rightarrow> nat \<times> nat) \<Rightarrow> nat set \<Rightarrow> (nat \<Rightarrow> 'a proc) \<Rightarrow> (nat \<Rightarrow> 'a) \<Rightarrow> bool"
  where
  "surely_return peer S ps rs \<longleftrightarrow> (\<exists>n. \<forall>m c. (nstep peer S ^^ m) (ps, \<lambda>_. []) c \<longrightarrow>
     m \<le> n \<and> (m = n \<longrightarrow> (\<forall>i\<in>S. fst c i = Ret (rs i)) \<and> snd c = (\<lambda>_. []))
       \<and> (m < n \<longrightarrow> (\<exists>c'. nstep peer S c c')))"

text \<open>The same when a channel holds at most \<open>b\<close> bytes.\<close>

definition surely_return_within ::
  "nat \<Rightarrow> (nat \<times> nat \<Rightarrow> nat \<times> nat) \<Rightarrow> nat set \<Rightarrow> (nat \<Rightarrow> 'a proc) \<Rightarrow> (nat \<Rightarrow> 'a) \<Rightarrow> bool" where
  "surely_return_within b peer S ps rs \<longleftrightarrow> (\<exists>n. \<forall>m c. (bstep b peer S ^^ m) (ps, \<lambda>_. []) c \<longrightarrow>
     m \<le> n \<and> (m = n \<longrightarrow> (\<forall>i\<in>S. fst c i = Ret (rs i)) \<and> snd c = (\<lambda>_. []))
       \<and> (m < n \<longrightarrow> (\<exists>c'. bstep b peer S c c')))"

lemma all_runs_end:
  assumes "inj peer" "(cstep cap peer S)\<^sup>*\<^sup>* (ps, \<lambda>_. []) (ps', \<lambda>_. [])" "\<forall>i\<in>S. ps' i = Ret (rs i)"
  shows "\<exists>n. \<forall>m c. (cstep cap peer S ^^ m) (ps, \<lambda>_. []) c \<longrightarrow>
     m \<le> n \<and> (m = n \<longrightarrow> (\<forall>i\<in>S. fst c i = Ret (rs i)) \<and> snd c = (\<lambda>_. []))
       \<and> (m < n \<longrightarrow> (\<exists>c'. cstep cap peer S c c'))"
proof -
  obtain n where n: "(cstep cap peer S ^^ n) (ps, \<lambda>_. []) (ps', \<lambda>_. [])"
    using assms(2) by (auto simp: rtranclp_power)
  have f: "final S (ps', \<lambda>_. [])" using assms(3) by (auto simp: final_def)
  show ?thesis
  proof (rule exI [of _ n], intro allI impI conjI ballI)
    fix m c assume "(cstep cap peer S ^^ m) (ps, \<lambda>_. []) c"
    note r = any_run_ends [OF assms(1) n f this]
    show "m \<le> n" using r by simp
    show "fst c i = Ret (rs i)" if "m = n" "i \<in> S" for i using r assms(3) that by auto
    show "snd c = (\<lambda>_. [])" if "m = n" using r that by auto
    show "\<exists>c'. cstep cap peer S c c'" if "m < n"
    proof -
      have "n - m = Suc (n - m - 1)" using that by simp
      then have "(cstep cap peer S ^^ Suc (n - m - 1)) c (ps', \<lambda>_. [])" using r by simp
      then show ?thesis using relpowp_Suc_D2 by metis
    qed
  qed
qed


section \<open>Running a set of processes\<close>

text \<open>
  \<open>completes cap peer S ps rs\<close>: when nothing is in flight towards the processes of \<open>S\<close>, they can
  run by themselves until each process \<open>i\<close> has returned \<open>rs i\<close> and nothing is in flight again.
  What the other processes do and what is in flight to them does not matter.
\<close>

definition quiet :: "nat set \<Rightarrow> queues \<Rightarrow> bool" where
  "quiet S q \<longleftrightarrow> (\<forall>i\<in>S. \<forall>h. q (i, h) = [])"

definition completes :: "nat option \<Rightarrow> (nat \<times> nat \<Rightarrow> nat \<times> nat) \<Rightarrow> nat set \<Rightarrow> (nat \<Rightarrow> 'a proc) \<Rightarrow> (nat \<Rightarrow> 'a) \<Rightarrow> bool"
  where
  "completes cap peer S ps rs \<longleftrightarrow> (\<forall>ps' q. (\<forall>i\<in>S. ps' i = ps i) \<longrightarrow> quiet S q \<longrightarrow>
     (cstep cap peer S)\<^sup>*\<^sup>* (ps', q) (\<lambda>i. if i \<in> S then Ret (rs i) else ps' i, q))"

lemma completesD:
  "completes cap peer S ps rs \<Longrightarrow> (\<And>i. i \<in> S \<Longrightarrow> ps' i = ps i) \<Longrightarrow> quiet S q \<Longrightarrow>
     (cstep cap peer S)\<^sup>*\<^sup>* (ps', q) (\<lambda>i. if i \<in> S then Ret (rs i) else ps' i, q)"
  by (simp add: completes_def)

lemma cstep_mono: "cstep cap peer S c c' \<Longrightarrow> S \<subseteq> T \<Longrightarrow> cstep cap peer T c c'"
  by (auto simp: cstep_def)

lemma csteps_mono: "(cstep cap peer S)\<^sup>*\<^sup>* c c' \<Longrightarrow> S \<subseteq> T \<Longrightarrow> (cstep cap peer T)\<^sup>*\<^sup>* c c'"
  by (induction rule: rtranclp_induct) (auto intro: cstep_mono rtranclp.rtrancl_into_rtrancl)

lemma completes_cong:
  "completes cap peer S ps rs \<Longrightarrow> (\<And>i. i \<in> S \<Longrightarrow> ps' i = ps i) \<Longrightarrow> (\<And>i. i \<in> S \<Longrightarrow> rs' i = rs i) \<Longrightarrow>
     completes cap peer S ps' rs'"
  by (simp add: completes_def cong: if_cong)

lemma completes_Ret: "completes cap peer S (\<lambda>i. Ret (rs i)) rs"
proof -
  have "(\<lambda>i. if i \<in> S then Ret (rs i) else ps' i) = ps'" if "\<forall>i\<in>S. ps' i = Ret (rs i)" for ps'
    using that by auto
  then show ?thesis by (simp add: completes_def)
qed

lemma completes_RetI: "(\<And>i. i \<in> S \<Longrightarrow> ps i = Ret (rs i)) \<Longrightarrow> completes cap peer S ps rs"
  by (rule completes_cong [OF completes_Ret]) auto

text \<open>Two sets of processes that do not communicate with each other.\<close>

lemma completes_Un:
  assumes "completes cap peer S ps rs" "completes cap peer T ps rs" "S \<inter> T = {}"
  shows "completes cap peer (S \<union> T) ps rs"
  unfolding completes_def
proof (intro allI impI)
  fix ps' q assume ps': "\<forall>i\<in>S \<union> T. ps' i = ps i" and q: "quiet (S \<union> T) q"
  let ?p1 = "\<lambda>i. if i \<in> S then Ret (rs i) else ps' i"
  have q': "quiet S q" "quiet T q" using q by (auto simp: quiet_def)
  have "(cstep cap peer S)\<^sup>*\<^sup>* (ps', q) (?p1, q)"
    using assms(1) ps' q'(1) by (simp add: completes_def)
  then have "(cstep cap peer (S \<union> T))\<^sup>*\<^sup>* (ps', q) (?p1, q)" by (rule csteps_mono) simp
  moreover have "(cstep cap peer T)\<^sup>*\<^sup>* (?p1, q) (\<lambda>i. if i \<in> T then Ret (rs i) else ?p1 i, q)"
    by (rule completesD [OF assms(2) _ q'(2)]) (use ps' assms(3) in auto)
  then have "(cstep cap peer (S \<union> T))\<^sup>*\<^sup>* (?p1, q) (\<lambda>i. if i \<in> T then Ret (rs i) else ?p1 i, q)"
    by (rule csteps_mono) simp
  ultimately have "(cstep cap peer (S \<union> T))\<^sup>*\<^sup>* (ps', q) (\<lambda>i. if i \<in> T then Ret (rs i) else ?p1 i, q)"
    by (rule rtranclp_trans)
  also have "(\<lambda>i. if i \<in> T then Ret (rs i) else ?p1 i) = (\<lambda>i. if i \<in> S \<union> T then Ret (rs i) else ps' i)"
    by auto
  finally show "(cstep cap peer (S \<union> T))\<^sup>*\<^sup>* (ps', q) (\<lambda>i. if i \<in> S \<union> T then Ret (rs i) else ps' i, q)" .
qed

lemma completes_UNION:
  assumes "finite I" "\<And>x. x \<in> I \<Longrightarrow> completes cap peer (A x) ps rs"
    and "\<And>x y. x \<in> I \<Longrightarrow> y \<in> I \<Longrightarrow> x \<noteq> y \<Longrightarrow> A x \<inter> A y = {}"
  shows "completes cap peer (\<Union>x\<in>I. A x) ps rs"
  using assms
proof (induction rule: finite_induct)
  case empty
  then show ?case using completes_RetI [of "{}"] by simp
next
  case (insert x I)
  have "A x \<inter> (\<Union>y\<in>I. A y) = {}" using insert.prems(2) insert.hyps(2) by auto
  then show ?case using insert by (auto intro!: completes_Un)
qed

text \<open>One after the other.\<close>

lemma pstep_bind:
  assumes "pstep peer i (ps, q) = Some (ps', q')"
  shows "pstep peer i (\<lambda>j. pbind (ps j) (ks j), q) = Some (\<lambda>j. pbind (ps' j) (ks j), q')"
proof (cases "ps i")
  case (Send h bs p)
  then show ?thesis using assms by (auto simp: pstep_def)
next
  case (Recv h n f)
  then show ?thesis using assms by (auto simp: pstep_def split: if_splits)
qed (use assms in \<open>simp add: pstep_def\<close>)

lemma bpstep_bind:
  assumes "bpstep b peer i (ps, q) = Some (ps', q')"
  shows "bpstep b peer i (\<lambda>j. pbind (ps j) (ks j), q) = Some (\<lambda>j. pbind (ps' j) (ks j), q')"
proof (cases "ps i")
  case (Send h bs p)
  then show ?thesis using assms by (auto simp: bpstep_def split: list.splits if_splits)
next
  case (Recv h n f)
  then show ?thesis using assms by (auto simp: bpstep_def split: nat.splits list.splits)
qed (use assms in \<open>simp add: bpstep_def\<close>)

lemma csteps_bind:
  assumes "(cstep cap peer S)\<^sup>*\<^sup>* (ps, q) (ps', q')"
  shows "(cstep cap peer S)\<^sup>*\<^sup>* (\<lambda>j. pbind (ps j) (ks j), q) (\<lambda>j. pbind (ps' j) (ks j), q')"
  using assms
proof (induction rule: rtranclp_induct2)
  case (step ps1 q1 ps2 q2)
  then have "cstep cap peer S (\<lambda>j. pbind (ps1 j) (ks j), q1) (\<lambda>j. pbind (ps2 j) (ks j), q2)"
    using pstep_bind bpstep_bind by (fastforce simp: cstep_def cpstep_def split: option.splits)
  then show ?case using step.IH by simp
qed simp

lemma completes_bind:
  assumes "completes cap peer S ps rs" "completes cap peer S (\<lambda>i. ks i (rs i)) rs'"
  shows "completes cap peer S (\<lambda>i. pbind (ps i) (ks i)) rs'"
  unfolding completes_def
proof (intro allI impI)
  fix ps' q assume ps': "\<forall>i\<in>S. ps' i = pbind (ps i) (ks i)" and q: "quiet S q"
  let ?k = "\<lambda>i. if i \<in> S then ks i else (\<lambda>_. ps' i)"
  let ?p = "\<lambda>i. if i \<in> S then ps i else Ret (rs i)"
  have "(cstep cap peer S)\<^sup>*\<^sup>* (?p, q) (\<lambda>i. if i \<in> S then Ret (rs i) else ?p i, q)"
    using assms(1) q by (auto simp: completes_def)
  from csteps_bind [OF this, of ?k]
  have "(cstep cap peer S)\<^sup>*\<^sup>* (\<lambda>i. pbind (?p i) (?k i), q) (\<lambda>i. if i \<in> S then ks i (rs i) else ps' i, q)"
    by (simp add: if_distrib [of "\<lambda>x. pbind x _"] if_distrib [of "\<lambda>f. f _"] cong: if_cong)
  also have "(\<lambda>i. pbind (?p i) (?k i)) = ps'" using ps' by auto
  also have "(cstep cap peer S)\<^sup>*\<^sup>* (\<lambda>i. if i \<in> S then ks i (rs i) else ps' i, q)
      (\<lambda>i. if i \<in> S then Ret (rs' i) else (if i \<in> S then ks i (rs i) else ps' i), q)"
    using assms(2) q by (auto simp: completes_def)
  finally show "(cstep cap peer S)\<^sup>*\<^sup>* (ps', q) (\<lambda>i. if i \<in> S then Ret (rs' i) else ps' i, q)"
    by (simp cong: if_cong)
qed

lemma completes_run:
  "completes cap peer S ps rs \<Longrightarrow>
     (cstep cap peer S)\<^sup>*\<^sup>* (ps, \<lambda>_. []) (\<lambda>i. if i \<in> S then Ret (rs i) else ps i, \<lambda>_. [])"
  by (simp add: completes_def quiet_def)

lemma completes_surely:
  assumes "inj peer" "completes None peer S ps rs"
  shows "surely_return peer S ps rs"
  using all_runs_end [OF assms(1) completes_run [OF assms(2)], of rs] by (simp add: surely_return_def cstep_None)

lemma completes_surely_within:
  assumes "inj peer" "completes (Some b) peer S ps rs"
  shows "surely_return_within b peer S ps rs"
  using all_runs_end [OF assms(1) completes_run [OF assms(2)], of rs] by (simp add: surely_return_within_def cstep_Some)

end
