(* ===== verification/Net_Exchange.thy ===== *)
theory Net_Exchange
  imports Net
begin

text \<open>
  The two forms in which the processes of a group exchange messages: every process first
  writes to some of its channels and then reads from some of them, or the processes form pairs
  in which one writes first and the other reads first. For both, the processes are shown to
  complete with what was sent.
\<close>

section \<open>Writing and reading\<close>

primrec sends :: "(nat \<times> byte list) list \<Rightarrow> 'a proc \<Rightarrow> 'a proc" where
  "sends [] p = p"
| "sends (x # xs) p = Send (fst x) (snd x) (sends xs p)"

text \<open>A process that only reads, run on the bytes that wait at its handles.\<close>

primrec drain :: "'a proc \<Rightarrow> (nat \<Rightarrow> byte list) \<Rightarrow> ('a \<times> (nat \<Rightarrow> byte list)) option" where
  "drain (Ret x) q = Some (x, q)"
| "drain (Send h bs p) q = None"
| "drain (Recv h n f) q =
     (if n \<le> length (q h) then drain (f (Some (take n (q h)))) (q(h := drop n (q h))) else None)"

text \<open>The process reads exactly \<open>bs\<close> at the handle \<open>h\<close> and returns \<open>x\<close>.\<close>

definition reads :: "'a proc \<Rightarrow> nat \<Rightarrow> byte list \<Rightarrow> 'a \<Rightarrow> bool" where
  "reads p h bs x \<longleftrightarrow> (\<forall>q rest. q h = bs @ rest \<longrightarrow> drain p q = Some (x, q(h := rest)))"

lemma drain_bind: "drain (pbind p k) q = Option.bind (drain p q) (\<lambda>(x, q). drain (k x) q)"
  by (induction p arbitrary: q) auto

lemma sends_bind: "pbind (sends xs p) k = sends xs (pbind p k)"
  by (induction xs) auto

lemma sends_append: "sends (xs @ ys) p = sends xs (sends ys p)"
  by (induction xs) auto

lemma reads_drain: "reads p h bs x \<Longrightarrow> q h = bs \<Longrightarrow> drain p q = Some (x, q(h := []))"
  by (simp add: reads_def)

lemma reads_Ret: "reads (Ret x) h [] x"
  by (auto simp: reads_def)

lemma reads_bind: "reads p h bs x \<Longrightarrow> reads (k x) h bs' y \<Longrightarrow> reads (pbind p k) h (bs @ bs') y"
  by (auto simp: reads_def drain_bind)

lemma reads_net_read: "length bs = n \<Longrightarrow> reads (net_read (Some h) buf n) h bs (SPAWN_SUCCESS, bs)"
  by (auto simp: reads_def net_read_def)

lemma sends_net_write: "net_write (Some h) bs = sends [(h, bs)] (Ret ())"
  by (simp add: net_write_def)

text \<open>What process \<open>i\<close> sends to the channel end \<open>k\<close>.\<close>

definition arrive :: "(nat \<times> nat \<Rightarrow> nat \<times> nat) \<Rightarrow> nat \<Rightarrow> (nat \<times> byte list) list \<Rightarrow> nat \<times> nat \<Rightarrow> byte list" where
  "arrive peer i xs k = concat (map snd (filter (\<lambda>x. peer (i, fst x) = k) xs))"

text \<open>A message fits in a channel of the given capacity.\<close>

definition fits :: "nat option \<Rightarrow> nat \<Rightarrow> bool" where
  "fits cap n \<longleftrightarrow> (case cap of None \<Rightarrow> True | Some b \<Rightarrow> n \<le> b)"

lemma fits_None [simp]: "fits None n"
  by (simp add: fits_def)

lemma fits_Some [simp]: "fits (Some b) n \<longleftrightarrow> n \<le> b"
  by (simp add: fits_def)

lemma fits_mono: "fits cap n \<Longrightarrow> m \<le> n \<Longrightarrow> fits cap m"
  by (cases cap) auto

lemma cstepI: "i \<in> S \<Longrightarrow> cpstep cap peer i c = Some c' \<Longrightarrow> cstep cap peer S c c'"
  by (auto simp: cstep_def)

lemma bsend_run:
  "i \<in> S \<Longrightarrow> length (q (peer (i, h))) + length bs \<le> b \<Longrightarrow>
     (cstep (Some b) peer S)\<^sup>*\<^sup>* (ps(i := Send h bs p), q) (ps(i := p), q(peer (i, h) := q (peer (i, h)) @ bs))"
proof (induction bs arbitrary: q)
  case Nil
  then have "cstep (Some b) peer S (ps(i := Send h [] p), q) (ps(i := p), q)"
    by (intro cstepI [of i]) (simp_all add: cpstep_def bpstep_def)
  then show ?case by (simp add: r_into_rtranclp del: fun_upd_apply)
next
  case (Cons x bs)
  let ?q = "q(peer (i, h) := q (peer (i, h)) @ [x])"
  have "cstep (Some b) peer S (ps(i := Send h (x # bs) p), q) (ps(i := Send h bs p), ?q)"
    using Cons.prems by (intro cstepI [of i]) (simp_all add: cpstep_def bpstep_def)
  moreover have "(cstep (Some b) peer S)\<^sup>*\<^sup>* (ps(i := Send h bs p), ?q) (ps(i := p), q(peer (i, h) := q (peer (i, h)) @ x # bs))"
  proof -
    have "length (?q (peer (i, h))) + length bs \<le> b" using Cons.prems by simp
    from Cons.IH [of ?q, OF Cons.prems(1) this] show ?thesis by (simp add: fun_upd_same del: fun_upd_apply)
  qed
  ultimately show ?case by (rule converse_rtranclp_into_rtranclp)
qed

lemma send_run:
  assumes "i \<in> S" "bs \<noteq> [] \<Longrightarrow> fits cap (length (q (peer (i, h))) + length bs)"
  shows "(cstep cap peer S)\<^sup>*\<^sup>* (ps(i := Send h bs p), q) (ps(i := p), q(peer (i, h) := q (peer (i, h)) @ bs))"
proof (cases cap)
  case None
  have "cstep None peer S (ps(i := Send h bs p), q) (ps(i := p), q(peer (i, h) := q (peer (i, h)) @ bs))"
    using assms(1) by (intro cstepI [of i]) (simp_all add: cpstep_def pstep_def)
  then show ?thesis using None by simp
next
  case (Some b)
  show ?thesis
  proof (cases bs)
    case Nil
    have "cstep cap peer S (ps(i := Send h bs p), q) (ps(i := p), q)"
      using assms(1) Some Nil by (intro cstepI [of i]) (simp_all add: cpstep_def bpstep_def)
    then show ?thesis using Nil by (simp add: r_into_rtranclp del: fun_upd_apply)
  next
    case (Cons x bs')
    then show ?thesis using assms bsend_run [where q = q and h = h and bs = bs] Some by simp
  qed
qed

lemma brecv_run:
  "i \<in> S \<Longrightarrow> q (i, h) = m @ r \<Longrightarrow>
     (cstep (Some b) peer S)\<^sup>*\<^sup>* (ps(i := Recv h (length m) f), q) (ps(i := f (Some m)), q((i, h) := r))"
proof (induction m arbitrary: q f)
  case Nil
  then have "cstep (Some b) peer S (ps(i := Recv h 0 f), q) (ps(i := f (Some [])), q)"
    by (intro cstepI [of i]) (simp_all add: cpstep_def bpstep_def)
  then show ?case using Nil fun_upd_triv [of q "(i, h)"] by (simp add: r_into_rtranclp del: fun_upd_apply)
next
  case (Cons x m)
  let ?q = "q((i, h) := m @ r)" and ?f = "\<lambda>rest. f (map_option ((#) x) rest)"
  have "cstep (Some b) peer S (ps(i := Recv h (Suc (length m)) f), q) (ps(i := Recv h (length m) ?f), ?q)"
    using Cons.prems by (intro cstepI [of i]) (simp_all add: cpstep_def bpstep_def)
  moreover have "(cstep (Some b) peer S)\<^sup>*\<^sup>* (ps(i := Recv h (length m) ?f), ?q) (ps(i := f (Some (x # m))), q((i, h) := r))"
  proof -
    have "?q (i, h) = m @ r" by simp
    from Cons.IH [of ?q ?f, OF Cons.prems(1) this] show ?thesis by (simp del: fun_upd_apply)
  qed
  ultimately have "(cstep (Some b) peer S)\<^sup>*\<^sup>* (ps(i := Recv h (Suc (length m)) f), q) (ps(i := f (Some (x # m))), q((i, h) := r))"
    by (rule converse_rtranclp_into_rtranclp)
  then show ?case by (simp del: fun_upd_apply)
qed

lemma recv_run:
  assumes "i \<in> S" "q (i, h) = m @ r" "length m = n"
  shows "(cstep cap peer S)\<^sup>*\<^sup>* (ps(i := Recv h n f), q) (ps(i := f (Some m)), q((i, h) := r))"
proof (cases cap)
  case None
  have "cstep None peer S (ps(i := Recv h n f), q) (ps(i := f (Some m)), q((i, h) := r))"
    using assms by (intro cstepI [of i]) (auto simp: cpstep_def pstep_def)
  then show ?thesis using None by simp
qed (use assms brecv_run in auto)

lemma sends_run:
  assumes "i \<in> S" "\<And>k. arrive peer i xs k \<noteq> [] \<Longrightarrow> fits cap (length (q k) + length (arrive peer i xs k))"
  shows "(cstep cap peer S)\<^sup>*\<^sup>* (ps(i := sends xs p), q) (ps(i := p), \<lambda>k. q k @ arrive peer i xs k)"
  using assms(2)
proof (induction xs arbitrary: q)
  case (Cons x xs)
  let ?k = "peer (i, fst x)"
  let ?q = "q(?k := q ?k @ snd x)"
  have eq: "(\<lambda>k. ?q k @ arrive peer i xs k) = (\<lambda>k. q k @ arrive peer i (x # xs) k)"
    by (auto simp: arrive_def fun_eq_iff)
  have len: "length (?q k) + length (arrive peer i xs k) = length (q k) + length (arrive peer i (x # xs) k)" for k
    by (simp add: arrive_def)
  have "fits cap (length (q ?k) + length (snd x))" if "snd x \<noteq> []"
    by (rule fits_mono [OF Cons.prems [of ?k]]) (use that in \<open>simp_all add: arrive_def\<close>)
  then have "(cstep cap peer S)\<^sup>*\<^sup>* (ps(i := sends (x # xs) p), q) (ps(i := sends xs p), ?q)"
    using send_run [where i = i and S = S and h = "fst x" and bs = "snd x" and q = q and cap = cap and peer = peer] assms(1)
    by simp
  moreover have "(cstep cap peer S)\<^sup>*\<^sup>* (ps(i := sends xs p), ?q) (ps(i := p), \<lambda>k. ?q k @ arrive peer i xs k)"
  proof (rule Cons.IH)
    fix k assume "arrive peer i xs k \<noteq> []"
    then have "arrive peer i (x # xs) k \<noteq> []" by (auto simp: arrive_def)
    then show "fits cap (length (?q k) + length (arrive peer i xs k))" unfolding len by (rule Cons.prems)
  qed
  ultimately show ?case unfolding eq by (rule rtranclp_trans)
qed (simp add: arrive_def)

lemma drain_run_bind:
  assumes "i \<in> S" "drain p (\<lambda>h. q (i, h)) = Some (x, q')"
  shows "(cstep cap peer S)\<^sup>*\<^sup>* (ps(i := pbind p k), q) (ps(i := k x), \<lambda>k. if fst k = i then q' (snd k) else q k)"
  using assms(2)
proof (induction p arbitrary: q)
  case (Ret y)
  then have "(\<lambda>k. if fst k = i then q' (snd k) else q k) = q" by (auto simp: fun_eq_iff)
  then show ?case using Ret by simp
next
  case (Recv h n f)
  let ?q = "q((i, h) := drop n (q (i, h)))" and ?f = "f (Some (take n (q (i, h))))"
  have n: "n \<le> length (q (i, h))" using Recv.prems by (simp split: if_splits)
  have "(\<lambda>h'. ?q (i, h')) = (\<lambda>h'. q (i, h'))(h := drop n (q (i, h)))" by auto
  then have d: "drain ?f (\<lambda>h'. ?q (i, h')) = Some (x, q')" using Recv.prems n by simp
  have s1: "(cstep cap peer S)\<^sup>*\<^sup>* (ps(i := pbind (Recv h n f) k), q) (ps(i := pbind ?f k), ?q)"
    using recv_run [of i S q h "take n (q (i, h))" "drop n (q (i, h))" n cap peer ps "\<lambda>b. pbind (f b) k"] assms(1) n
    by simp
  have eq: "(\<lambda>k. if fst k = i then q' (snd k) else ?q k) = (\<lambda>k. if fst k = i then q' (snd k) else q k)"
    by auto
  have s2: "(cstep cap peer S)\<^sup>*\<^sup>* (ps(i := pbind ?f k), ?q)
      (ps(i := k x), \<lambda>k. if fst k = i then q' (snd k) else q k)"
    using Recv.IH [OF rangeI d] unfolding eq .
  from s1 s2 show ?case by (rule rtranclp_trans)
qed simp

lemma drain_run:
  assumes "i \<in> S" "drain p (\<lambda>h. q (i, h)) = Some (x, q')"
  shows "(cstep cap peer S)\<^sup>*\<^sup>* (ps(i := p), q) (ps(i := Ret x), \<lambda>k. if fst k = i then q' (snd k) else q k)"
  using drain_run_bind [OF assms, of cap peer ps Ret] by simp

lemma reads_run:
  assumes "i \<in> S" "reads p h (q (i, h)) x"
  shows "(cstep cap peer S)\<^sup>*\<^sup>* (ps(i := pbind p k), q) (ps(i := k x), q((i, h) := []))"
proof -
  have "drain p (\<lambda>h. q (i, h)) = Some (x, (\<lambda>h. q (i, h))(h := []))" by (rule reads_drain [OF assms(2)]) simp
  note run = drain_run_bind [OF assms(1) this, of cap peer ps k]
  have "(\<lambda>k. if fst k = i then ((\<lambda>h. q (i, h))(h := [])) (snd k) else q k) = q((i, h) := [])"
    by (auto simp: fun_eq_iff)
  then show ?thesis using run by (simp only:)
qed

text \<open>All processes of a list, one after the other.\<close>

lemma all_sends:
  assumes "set il \<subseteq> S" "distinct il" "\<And>i. i \<in> set il \<Longrightarrow> ps i = sends (outs i) (rest i)"
    and "\<And>k. concat (map (\<lambda>i. arrive peer i (outs i) k) il) \<noteq> [] \<Longrightarrow>
      fits cap (length (q k) + length (concat (map (\<lambda>i. arrive peer i (outs i) k) il)))"
  shows "(cstep cap peer S)\<^sup>*\<^sup>* (ps, q) (\<lambda>i. if i \<in> set il then rest i else ps i,
    \<lambda>k. q k @ concat (map (\<lambda>i. arrive peer i (outs i) k) il))"
  using assms
proof (induction il arbitrary: ps q)
  case (Cons i il)
  let ?ps = "ps(i := rest i)" and ?q = "\<lambda>k. q k @ arrive peer i (outs i) k"
  have room: "fits cap (length (q k) + length (arrive peer i (outs i) k) + length (concat (map (\<lambda>i. arrive peer i (outs i) k) il)))"
    if "arrive peer i (outs i) k \<noteq> [] \<or> concat (map (\<lambda>i. arrive peer i (outs i) k) il) \<noteq> []" for k
    using Cons.prems(4) [of k] that by (simp del: concat_eq_Nil_conv add: add.assoc)
  have "ps(i := sends (outs i) (rest i)) = ps" using Cons.prems(3) by auto
  moreover have "(cstep cap peer S)\<^sup>*\<^sup>* (ps(i := sends (outs i) (rest i)), q) (?ps, ?q)"
  proof (rule sends_run)
    show "fits cap (length (q k) + length (arrive peer i (outs i) k))" if "arrive peer i (outs i) k \<noteq> []" for k
      by (rule fits_mono [OF room]) (use that in auto)
  qed (use Cons.prems(1) in simp)
  ultimately have "(cstep cap peer S)\<^sup>*\<^sup>* (ps, q) (?ps, ?q)" by simp
  moreover have "(cstep cap peer S)\<^sup>*\<^sup>* (?ps, ?q) (\<lambda>j. if j \<in> set il then rest j else ?ps j,
      \<lambda>k. ?q k @ concat (map (\<lambda>i. arrive peer i (outs i) k) il))"
    by (rule Cons.IH) (use Cons.prems room in \<open>auto simp del: concat_eq_Nil_conv\<close>)
  moreover have "(\<lambda>j. if j \<in> set il then rest j else ?ps j) = (\<lambda>j. if j \<in> set (i # il) then rest j else ps j)"
    by auto
  ultimately show ?case by simp
qed simp

lemma concat_single:
  "distinct xs \<Longrightarrow> i \<in> set xs \<Longrightarrow> (\<And>j. j \<in> set xs \<Longrightarrow> j \<noteq> i \<Longrightarrow> g j = []) \<Longrightarrow> concat (map g xs) = g i"
proof (induction xs)
  case (Cons x xs)
  show ?case
  proof (cases "x = i")
    case True
    then have "\<forall>j\<in>set xs. g j = []" using Cons.prems by auto
    then show ?thesis using True by (simp add: concat_eq_Nil_conv)
  next
    case False
    then show ?thesis using Cons by auto
  qed
qed simp

lemma arrive_none: "(\<And>x. x \<in> set xs \<Longrightarrow> peer (i, fst x) \<noteq> k) \<Longrightarrow> arrive peer i xs k = []"
  by (simp add: arrive_def filter_empty_conv)

lemma arrive_one:
  assumes "inj peer" "distinct (map fst xs)" "(h, bs) \<in> set xs"
  shows "arrive peer i xs (peer (i, h)) = bs"
proof -
  have "filter (\<lambda>x. peer (i, fst x) = peer (i, h)) xs = filter (\<lambda>x. fst x = h) xs"
    using assms(1) by (auto dest: injD intro: filter_cong)
  also have "\<dots> = [(h, bs)]"
    using assms(2,3) by (induction xs) (force simp: filter_empty_conv)+
  finally show ?thesis by (simp add: arrive_def)
qed

lemma all_drain:
  assumes "set il \<subseteq> S" "distinct il"
    and "\<And>i. i \<in> set il \<Longrightarrow> drain (ps i) (\<lambda>h. q (i, h)) = Some (rs i, q' i)"
  shows "(cstep cap peer S)\<^sup>*\<^sup>* (ps, q) (\<lambda>i. if i \<in> set il then Ret (rs i) else ps i,
    \<lambda>k. if fst k \<in> set il then q' (fst k) (snd k) else q k)"
  using assms
proof (induction il arbitrary: ps q)
  case (Cons i il)
  let ?ps = "ps(i := Ret (rs i))"
  let ?q = "\<lambda>k. if fst k = i then q' i (snd k) else q k"
  have "(cstep cap peer S)\<^sup>*\<^sup>* (ps, q) (?ps, ?q)"
    using drain_run [of i S "ps i" q "rs i" "q' i" cap peer ps] Cons.prems by simp
  moreover have "(cstep cap peer S)\<^sup>*\<^sup>* (?ps, ?q) (\<lambda>j. if j \<in> set il then Ret (rs j) else ?ps j,
      \<lambda>k. if fst k \<in> set il then q' (fst k) (snd k) else ?q k)"
  proof (rule Cons.IH)
    fix j assume "j \<in> set il"
    moreover have "j \<noteq> i" using Cons.prems(2) \<open>j \<in> set il\<close> by auto
    ultimately show "drain (?ps j) (\<lambda>h. ?q (j, h)) = Some (rs j, q' j)" using Cons.prems(3) by simp
  qed (use Cons.prems in auto)
  moreover have "(\<lambda>j. if j \<in> set il then Ret (rs j) else ?ps j) = (\<lambda>j. if j \<in> set (i # il) then Ret (rs j) else ps j)"
    by auto
  moreover have "(\<lambda>k. if fst k \<in> set il then q' (fst k) (snd k) else ?q k) =
      (\<lambda>k. if fst k \<in> set (i # il) then q' (fst k) (snd k) else q k)"
    by auto
  ultimately show ?case by (simp only: rtranclp_trans)
qed simp

section \<open>All write, then all read\<close>

text \<open>The bytes that the processes of a list send to the handle \<open>h\<close> of process \<open>i\<close>.\<close>

definition incoming ::
  "(nat \<times> nat \<Rightarrow> nat \<times> nat) \<Rightarrow> nat list \<Rightarrow> (nat \<Rightarrow> (nat \<times> byte list) list) \<Rightarrow> nat \<Rightarrow> nat \<Rightarrow> byte list"
  where
  "incoming peer il outs i h = concat (map (\<lambda>j. arrive peer j (outs j) (i, h)) il)"

lemma completes_phase:
  assumes il: "set il = S" "distinct il"
    and ps: "\<And>i. i \<in> S \<Longrightarrow> ps i = sends (outs i) (r i)"
    and fit: "\<And>i h. i \<in> S \<Longrightarrow> fits cap (length (incoming peer il outs i h))"
    and into: "\<And>i x. i \<in> S \<Longrightarrow> x \<in> set (outs i) \<Longrightarrow> fst (peer (i, fst x)) \<in> S"
    and dr: "\<And>i. i \<in> S \<Longrightarrow> drain (r i) (incoming peer il outs i) = Some (rs i, \<lambda>_. [])"
  shows "completes cap peer S ps rs"
  unfolding completes_def
proof (intro allI impI)
  fix ps' q assume ps': "\<forall>i\<in>S. ps' i = ps i" and q: "quiet S q"
  let ?ps1 = "\<lambda>i. if i \<in> set il then r i else ps' i"
  let ?q1 = "\<lambda>k. q k @ concat (map (\<lambda>j. arrive peer j (outs j) k) il)"
  let ?q2 = "\<lambda>k. if fst k \<in> set il then [] else ?q1 k"
  have "(cstep cap peer S)\<^sup>*\<^sup>* (ps', q) (?ps1, ?q1)"
  proof (rule all_sends)
    fix k assume ne: "concat (map (\<lambda>i. arrive peer i (outs i) k) il) \<noteq> []"
    then obtain j where "j \<in> S" "arrive peer j (outs j) k \<noteq> []" using il by auto
    then have "fst k \<in> S" using into arrive_none [of "outs j" peer j k] by metis
    then show "fits cap (length (q k) + length (concat (map (\<lambda>i. arrive peer i (outs i) k) il)))"
      using fit [of "fst k" "snd k"] q by (cases k) (simp add: incoming_def quiet_def)
  qed (use il ps ps' in auto)
  moreover have "(cstep cap peer S)\<^sup>*\<^sup>* (?ps1, ?q1) (\<lambda>i. if i \<in> set il then Ret (rs i) else ?ps1 i, ?q2)"
    using il q dr
    by (intro all_drain [where q' = "\<lambda>_ _. []"]) (auto simp: quiet_def simp flip: incoming_def)
  moreover have "?q2 = q"
  proof (rule ext)
    fix k
    have "arrive peer j (outs j) k = []" if "fst k \<notin> S" "j \<in> S" for j
      using into [OF that(2)] that(1) by (intro arrive_none) auto
    then show "?q2 k = q k" using il q by (cases k) (auto simp: quiet_def concat_eq_Nil_conv)
  qed
  ultimately show "(cstep cap peer S)\<^sup>*\<^sup>* (ps', q) (\<lambda>i. if i \<in> S then Ret (rs i) else ps' i, q)"
    using il by (simp cong: if_cong)
qed

lemma incoming_one:
  assumes "inj peer" "distinct il" "j \<in> set il" "peer (j, h') = (i, h)"
  shows "incoming peer il outs i h = concat (map snd (filter (\<lambda>x. fst x = h') (outs j)))"
proof -
  have other: "peer (l, g) = (i, h) \<longleftrightarrow> l = j \<and> g = h'" for l g
    using injD [OF assms(1), of "(l, g)" "(j, h')"] assms(4) by auto
  have "incoming peer il outs i h = arrive peer j (outs j) (i, h)"
    unfolding incoming_def using assms(2,3) other by (intro concat_single arrive_none) auto
  then show ?thesis using other by (simp add: arrive_def)
qed

lemma incoming_none:
  "(\<And>j x. j \<in> set il \<Longrightarrow> x \<in> set (outs j) \<Longrightarrow> peer (j, fst x) \<noteq> (i, h)) \<Longrightarrow> incoming peer il outs i h = []"
  by (auto simp: incoming_def concat_eq_Nil_conv intro: arrive_none)

section \<open>Pairs\<close>

text \<open>
  A process sends while its partner reads. With a bounded channel they take turns byte by byte,
  so that a capacity of one byte is enough.
\<close>

lemma skip_empty:
  assumes "i \<in> S" "concat xs = x # bs"
  shows "\<exists>ys. concat ys = bs \<and> (cstep (Some b) peer S)\<^sup>*\<^sup>* (ps(i := sends (map (Pair h) xs) k), q)
    (ps(i := Send h (x # hd ys) (sends (map (Pair h) (tl ys)) k)), q) \<and> ys \<noteq> []"
  using assms(2)
proof (induction xs)
  case (Cons m xs)
  show ?case
  proof (cases m)
    case Nil
    then have "cstep (Some b) peer S (ps(i := sends (map (Pair h) (m # xs)) k), q) (ps(i := sends (map (Pair h) xs) k), q)"
      using assms(1) by (intro cstepI [of i]) (simp_all add: cpstep_def bpstep_def)
    then show ?thesis using Cons Nil by (metis (no_types, lifting) append_Nil concat.simps(2) converse_rtranclp_into_rtranclp)
  next
    case (Cons y m')
    then show ?thesis using \<open>concat (m # xs) = x # bs\<close> by (intro exI [of _ "m' # xs"]) simp
  qed
qed simp

lemma turns_run:
  assumes "i \<in> S" "j \<in> S" "i \<noteq> j" "peer (i, h) = (j, h')" "q (j, h') = []" "0 < b"
  shows "concat xs = m @ bs \<Longrightarrow> \<exists>ys. concat ys = bs \<and> (cstep (Some b) peer S)\<^sup>*\<^sup>*
    (ps(i := sends (map (Pair h) xs) k, j := Recv h' (length m) f), q)
    (ps(i := sends (map (Pair h) ys) k, j := f (Some m)), q)"
proof (induction m arbitrary: xs f)
  case Nil
  have "cstep (Some b) peer S (ps(i := sends (map (Pair h) xs) k, j := Recv h' 0 f), q)
      (ps(i := sends (map (Pair h) xs) k, j := f (Some [])), q)"
    using assms(2) by (intro cstepI [of j]) (simp_all add: cpstep_def bpstep_def)
  then show ?case using Nil by (intro exI [of _ xs]) (simp add: r_into_rtranclp del: fun_upd_apply)
next
  case (Cons x m)
  let ?r = "Recv h' (Suc (length m)) f" and ?r' = "Recv h' (length m) (\<lambda>rest. f (map_option ((#) x) rest))"
  obtain ys where ys: "concat ys = m @ bs" "ys \<noteq> []" and skip: "(cstep (Some b) peer S)\<^sup>*\<^sup>*
      (ps(j := ?r, i := sends (map (Pair h) xs) k), q)
      (ps(j := ?r, i := Send h (x # hd ys) (sends (map (Pair h) (tl ys)) k)), q)"
    using skip_empty [OF assms(1), of xs x "m @ bs" b peer "ps(j := ?r)" h k q] Cons.prems by auto
  have eq: "Send h (hd ys) (sends (map (Pair h) (tl ys)) k) = sends (map (Pair h) ys) k" using ys(2) by (cases ys) auto
  let ?q = "q((j, h') := [x])"
  have "cstep (Some b) peer S (ps(j := ?r, i := Send h (x # hd ys) (sends (map (Pair h) (tl ys)) k)), q)
      (ps(j := ?r, i := sends (map (Pair h) ys) k), ?q)"
    using assms by (intro cstepI [of i]) (simp_all add: cpstep_def bpstep_def eq)
  moreover have "cstep (Some b) peer S (ps(j := ?r, i := sends (map (Pair h) ys) k), ?q)
      (ps(i := sends (map (Pair h) ys) k, j := ?r'), q)"
    using assms fun_upd_triv [of q "(j, h')"]
    by (intro cstepI [of j]) (simp_all add: cpstep_def bpstep_def fun_upd_twist)
  moreover obtain zs where "concat zs = bs" "(cstep (Some b) peer S)\<^sup>*\<^sup>*
      (ps(i := sends (map (Pair h) ys) k, j := ?r'), q) (ps(i := sends (map (Pair h) zs) k, j := f (Some (x # m))), q)"
    using Cons.IH [OF ys(1), of "\<lambda>rest. f (map_option ((#) x) rest)"] unfolding option.map by blast
  ultimately have "concat zs = bs \<and> (cstep (Some b) peer S)\<^sup>*\<^sup>* (ps(j := ?r, i := sends (map (Pair h) xs) k), q)
      (ps(i := sends (map (Pair h) zs) k, j := f (Some (x # m))), q)"
    using skip by (blast intro: converse_rtranclp_into_rtranclp rtranclp_trans)
  then show ?case using assms(3) by (intro exI [of _ zs]) (simp add: fun_upd_twist del: fun_upd_apply)
qed

lemma reads_RetD: "reads (Ret y) h bs x \<Longrightarrow> bs = [] \<and> y = x"
proof -
  assume "reads (Ret y) h bs x"
  then have "drain (Ret y) (\<lambda>_. bs) = Some (x, (\<lambda>_. bs)(h := []))" unfolding reads_def by force
  then show ?thesis by (metis drain.simps(1) fun_upd_same option.inject prod.inject)
qed

lemma reads_SendD: "\<not> reads (Send g ms p) h bs x"
proof
  assume "reads (Send g ms p) h bs x"
  then have "drain (Send g ms p) (\<lambda>_. bs) = Some (x, (\<lambda>_. bs)(h := []))" unfolding reads_def by force
  then show False by simp
qed

lemma reads_RecvD:
  assumes "reads (Recv g n f) h bs x"
  shows "n = 0 \<and> reads (f (Some [])) h bs x \<or> g = h \<and> n \<le> length bs \<and> reads (f (Some (take n bs))) h (drop n bs) x"
proof (cases "n = 0")
  case True
  then show ?thesis using assms by (simp add: reads_def)
next
  case False
  have d: "drain (Recv g n f) q = Some (x, q(h := rest))" if "q h = bs @ rest" for q rest
    using assms that by (simp add: reads_def)
  have "n \<le> length (((\<lambda>_. [])(h := bs)) g)"
    using d [of "(\<lambda>_. [])(h := bs)" "[]"] by (simp split: if_splits)
  then have gn: "g = h" "n \<le> length bs" using False by (auto split: if_splits)
  have "drain (f (Some (take n bs))) q = Some (x, q(h := rest))" if "q h = drop n bs @ rest" for q rest
  proof -
    have "(q(h := bs @ rest))(h := drop n bs @ rest) = q" using that by auto
    then show ?thesis using d [of "q(h := bs @ rest)" rest] gn by simp
  qed
  then show ?thesis using gn by (simp add: reads_def)
qed

lemma sync_run:
  assumes "i \<in> S" "j \<in> S" "i \<noteq> j" "peer (i, h) = (j, h')" "q (j, h') = []" "0 < b"
  shows "reads p h' (concat xs) y \<Longrightarrow> (cstep (Some b) peer S)\<^sup>*\<^sup>*
    (ps(i := sends (map (Pair h) xs) u, j := pbind p k), q) (ps(i := u, j := k y), q)"
proof (induction p arbitrary: xs)
  case (Ret z)
  have e: "concat xs = []" "z = y" using reads_RetD [OF Ret] by auto
  have a: "arrive peer i (map (Pair h) xs) l = []" for l using e(1) by (auto simp: arrive_def)
  have "(cstep (Some b) peer S)\<^sup>*\<^sup>* (ps(j := k y, i := sends (map (Pair h) xs) u), q) (ps(j := k y, i := u), q)"
    using sends_run [of i S peer "map (Pair h) xs" "Some b" q "ps(j := k y)" u] assms(1) by (simp add: a)
  then show ?case unfolding fun_upd_twist [OF assms(3)] pbind.simps(1) e(2) .
next
  case (Recv g n f)
  from reads_RecvD [OF Recv.prems] show ?case
  proof
    assume z: "n = 0 \<and> reads (f (Some [])) h' (concat xs) y"
    have "cstep (Some b) peer S (ps(i := sends (map (Pair h) xs) u, j := pbind (Recv g n f) k), q)
        (ps(i := sends (map (Pair h) xs) u, j := pbind (f (Some [])) k), q)"
      using assms(2) z by (intro cstepI [of j]) (simp_all add: cpstep_def bpstep_def)
    then show ?thesis using Recv.IH [OF rangeI, of "Some []" xs] z by (meson converse_rtranclp_into_rtranclp)
  next
    let ?m = "take n (concat xs)"
    assume z: "g = h' \<and> n \<le> length (concat xs) \<and> reads (f (Some ?m)) h' (drop n (concat xs)) y"
    have lm: "length ?m = n" using z by simp
    obtain ys where ys: "concat ys = drop n (concat xs)"
      "(cstep (Some b) peer S)\<^sup>*\<^sup>* (ps(i := sends (map (Pair h) xs) u, j := Recv h' n (\<lambda>r. pbind (f r) k)), q)
        (ps(i := sends (map (Pair h) ys) u, j := pbind (f (Some ?m)) k), q)"
      using turns_run [where i = i and j = j and S = S and peer = peer and h = h and h' = h' and q = q and b = b
          and xs = xs and m = ?m and bs = "drop n (concat xs)" and f = "\<lambda>r. pbind (f r) k" and ps = ps and k = u]
        assms lm by (auto simp del: fun_upd_apply)
    moreover have "(cstep (Some b) peer S)\<^sup>*\<^sup>* (ps(i := sends (map (Pair h) ys) u, j := pbind (f (Some ?m)) k), q)
        (ps(i := u, j := k y), q)"
      by (rule Recv.IH [OF rangeI]) (use z ys(1) in simp)
    ultimately show ?thesis using z unfolding pbind.simps by (blast intro: rtranclp_trans)
  qed
qed (simp add: reads_SendD)

lemma transfer_run:
  assumes "i \<in> S" "j \<in> S" "i \<noteq> j" "peer (i, h) = (j, h')" "q (j, h') = []" "cap \<noteq> Some 0"
    and r: "reads p h' (concat xs) y"
  shows "(cstep cap peer S)\<^sup>*\<^sup>* (ps(i := sends (map (Pair h) xs) u, j := pbind p k), q) (ps(i := u, j := k y), q)"
proof (cases cap)
  case None
  let ?q = "q((j, h') := concat xs)" and ?r = "pbind p k"
  have a: "(\<lambda>k. q k @ arrive peer i (map (Pair h) xs) k) = ?q"
    using assms(4,5) by (auto simp: arrive_def fun_eq_iff comp_def filter_map)
  have "(cstep None peer S)\<^sup>*\<^sup>* (ps(j := ?r, i := sends (map (Pair h) xs) u), q) (ps(j := ?r, i := u), ?q)"
    using sends_run [of i S peer "map (Pair h) xs" None q "ps(j := ?r)" u] assms(1) unfolding a by simp
  moreover have "(cstep None peer S)\<^sup>*\<^sup>* (ps(i := u, j := ?r), ?q) (ps(i := u, j := k y), q)"
    using reads_run [of j S p h' ?q y None peer "ps(i := u)" k] assms(2,5) r fun_upd_triv [of q "(j, h')"] by simp
  ultimately show ?thesis using assms(3) None by (simp add: fun_upd_twist)
next
  case (Some b)
  then have "0 < b" using assms(6) by simp
  then show ?thesis unfolding Some by (intro sync_run) (use assms r in auto)
qed

text \<open>The first process of the pair writes and then reads, the second reads and then writes.\<close>

lemma completes_pair:
  assumes ne: "i \<noteq> j" and pr: "peer (i, h) = (j, h')" "peer (j, h') = (i, h)" and cap: "cap \<noteq> Some 0"
    and wi: "w i = sends (map (Pair h) xs) (Ret (u i))" and wj: "w j = sends (map (Pair h') ys) (Ret (u j))"
    and ri: "reads (r i) h (concat ys) (rs i)" and rj: "reads (r j) h' (concat xs) (rs j)"
  shows "completes cap peer {i, j} (\<lambda>l. if l = i then pbind (w l) (\<lambda>_. r l)
    else pbind (r l) (\<lambda>x. pbind (w l) (\<lambda>_. Ret x))) rs"
  unfolding completes_def
proof (intro allI impI)
  let ?p = "\<lambda>l. if l = i then pbind (w l) (\<lambda>_. r l) else pbind (r l) (\<lambda>x. pbind (w l) (\<lambda>_. Ret x))"
  let ?kj = "\<lambda>x. pbind (w j) (\<lambda>_. Ret x)"
  fix ps q assume ps: "\<forall>l\<in>{i, j}. ps l = ?p l" and q: "quiet {i, j} q"
  have q0: "q (i, g) = []" "q (j, g) = []" for g using q by (auto simp: quiet_def)
  have e: "ps = ps(i := sends (map (Pair h) xs) (r i), j := pbind (r j) ?kj)"
    using ps ne wi by (auto simp: sends_bind fun_eq_iff)
  have "(cstep cap peer {i, j})\<^sup>*\<^sup>* (ps(i := sends (map (Pair h) xs) (r i), j := pbind (r j) ?kj), q)
      (ps(i := r i, j := ?kj (rs j)), q)"
    by (rule transfer_run) (use ne pr q0 cap rj in auto)
  moreover have "(cstep cap peer {i, j})\<^sup>*\<^sup>* (ps(j := sends (map (Pair h') ys) (Ret (rs j)), i := pbind (r i) Ret), q)
      (ps(j := Ret (rs j), i := Ret (rs i)), q)"
    by (rule transfer_run) (use ne pr q0 cap ri in auto)
  moreover have "ps(j := sends (map (Pair h') ys) (Ret (rs j)), i := pbind (r i) Ret) = ps(i := r i, j := ?kj (rs j))"
    using ne wj by (simp add: sends_bind fun_upd_twist)
  moreover have "ps(j := Ret (rs j), i := Ret (rs i)) = (\<lambda>l. if l \<in> {i, j} then Ret (rs l) else ps l)"
    by auto
  ultimately show "(cstep cap peer {i, j})\<^sup>*\<^sup>* (ps, q) (\<lambda>l. if l \<in> {i, j} then Ret (rs l) else ps l, q)"
    using e by (metis (no_types, lifting) rtranclp_trans)
qed

end
