(* ===== verification/Net_Util.thy ===== *)
theory Net_Util
  imports Net_Exchange Strmap_Spec
begin

text \<open>
  The message formats of \<open>src/src/spawn_net_util.c\<close>: a string or a map is sent as its size in
  network order followed by its bytes. Each process has its own heap. \<open>junk n\<close> stands for the
  content of a buffer of \<open>n\<close> bytes that has not been written yet.
\<close>

section \<open>Model\<close>

definition spawn_net_write_str :: "nat option \<Rightarrow> string option \<Rightarrow> unit proc" where
  "spawn_net_write_str ch str =
     (let size = (case str of None \<Rightarrow> 0 | Some s \<Rightarrow> str_size s);
          size64 = spawn_pack_uint64 size
      in pbind (net_write ch size64) (\<lambda>_.
         net_write ch (case str of None \<Rightarrow> [] | Some s \<Rightarrow> take (unat size) (mem_str s))))"

definition spawn_net_read_str :: "nat option \<Rightarrow> (nat \<Rightarrow> byte list) \<Rightarrow> string option proc" where
  "spawn_net_read_str ch junk =
     pbind (net_read ch (junk 8) 8) (\<lambda>(rc, len_net).
     if rc \<noteq> SPAWN_SUCCESS then Ret NULL
     else let bytes = unat (fst (spawn_unpack_uint64 len_net)) in
       if bytes > 0 then
         pbind (net_read ch (junk bytes) bytes) (\<lambda>(rc, str).
         if rc \<noteq> SPAWN_SUCCESS then Ret NULL else Ret (Some (load_str str)))
       else Ret NULL)"

text \<open>\<open>None\<close> is returned when packing the map is undefined.\<close>

definition spawn_net_write_strmap :: "nat option \<Rightarrow> strmap option \<Rightarrow> heap \<Rightarrow> unit option proc" where
  "spawn_net_write_strmap ch smap h =
     (let size = strmap_pack_size smap in
      pbind (net_write ch (spawn_pack_uint64 size)) (\<lambda>_.
      case strmap_pack h smap of
        None \<Rightarrow> Ret None
      | Some (bytes, n) \<Rightarrow> pbind (net_write ch (take (unat size) bytes)) (\<lambda>_. Ret (Some ()))))"

text \<open>
  Receiving a map in two parts: the bytes are read (\<open>None\<close> when a read fails or the message is
  empty), then they are unpacked into the map, which is local.
\<close>

definition net_read_packed :: "nat option \<Rightarrow> (nat \<Rightarrow> byte list) \<Rightarrow> byte list option proc" where
  "net_read_packed ch junk =
     pbind (net_read ch (junk 8) 8) (\<lambda>(rc, len_net).
     if rc \<noteq> SPAWN_SUCCESS then Ret None
     else let bytes = unat (fst (spawn_unpack_uint64 len_net)) in
       if bytes > 0 then
         pbind (net_read ch (junk bytes) bytes) (\<lambda>(rc, buf).
         if rc = SPAWN_SUCCESS then Ret (Some buf) else Ret None)
       else Ret None)"

definition unpack_received ::
  "byte list option \<Rightarrow> strmap option \<Rightarrow> heap \<Rightarrow> (strmap option \<times> heap) option" where
  "unpack_received r smap h =
     (case r of None \<Rightarrow> Some (smap, h)
      | Some buf \<Rightarrow> map_option (\<lambda>(n, smap, h). (smap, h)) (strmap_unpack buf smap h))"

definition spawn_net_read_strmap ::
  "nat option \<Rightarrow> (nat \<Rightarrow> byte list) \<Rightarrow> strmap option \<Rightarrow> heap \<Rightarrow> (strmap option \<times> heap) option proc" where
  "spawn_net_read_strmap ch junk smap h =
     pbind (net_read_packed ch junk) (\<lambda>r. Ret (unpack_received r smap h))"

section \<open>What travels\<close>

definition str_chunks :: "string option \<Rightarrow> byte list list" where
  "str_chunks str = [spawn_pack_uint64 (case str of None \<Rightarrow> 0 | Some s \<Rightarrow> str_size s),
     case str of None \<Rightarrow> [] | Some s \<Rightarrow> mem_str s]"

definition sendable_str :: "string option \<Rightarrow> bool" where
  "sendable_str str \<longleftrightarrow> (case str of None \<Rightarrow> True | Some s \<Rightarrow> cstring s \<and> length s + 1 < 2 ^ 64)"

lemma unat_str_size: "length s + 1 < 2 ^ 64 \<Longrightarrow> unat (str_size s) = length s + 1"
  unfolding str_size_def by (rule unat_word_of_nat_u64)

lemma write_str_sends:
  "sendable_str str \<Longrightarrow> spawn_net_write_str (Some h) str = sends (map (Pair h) (str_chunks str)) (Ret ())"
  using unat_str_size
  by (auto simp: spawn_net_write_str_def str_chunks_def sendable_str_def net_write_def split: option.splits)

lemma pack_u64_read: "fst (spawn_unpack_uint64 (spawn_pack_uint64 n)) = n"
  by simp

lemma read_str_reads:
  assumes "sendable_str str"
  shows "reads (spawn_net_read_str (Some h) junk) h (concat (str_chunks str)) str"
proof (cases str)
  case None
  have "reads (spawn_net_read_str (Some h) junk) h (spawn_pack_uint64 0 @ []) None"
    unfolding spawn_net_read_str_def
    by (rule reads_bind [OF reads_net_read]) (simp_all add: reads_Ret)
  then show ?thesis using None by (simp add: str_chunks_def)
next
  case (Some s)
  have s: "cstring s" "unat (str_size s) = length s + 1"
    using assms Some unat_str_size by (auto simp: sendable_str_def)
  have tail: "reads (pbind (net_read (Some h) (junk (length s + 1)) (length s + 1)) (\<lambda>(rc, str).
         if rc \<noteq> SPAWN_SUCCESS then Ret NULL else Ret (Some (load_str str)))) h (mem_str s @ []) (Some s)"
    by (rule reads_bind [OF reads_net_read]) (use load_mem_str [OF s(1), of "[]"] in \<open>simp_all add: reads_Ret\<close>)
  have "reads (spawn_net_read_str (Some h) junk) h (spawn_pack_uint64 (str_size s) @ mem_str s) (Some s)"
    unfolding spawn_net_read_str_def
    by (rule reads_bind [OF reads_net_read]) (use tail s(2) in simp_all)
  then show ?thesis using Some by (simp add: str_chunks_def)
qed

text \<open>A map that can be sent: it fits in 64 bits and every value is present.\<close>

definition sendable :: "(string \<times> string option) list \<Rightarrow> bool" where
  "sendable es \<longleftrightarrow> packed_len es < 2 ^ 64 \<and> (\<forall>e\<in>set es. snd e \<noteq> NULL)"

definition map_chunks :: "(string \<times> string option) list \<Rightarrow> byte list list" where
  "map_chunks es = [spawn_pack_uint64 (word_of_nat (packed_len es)), packed es]"

lemma write_strmap_sends:
  assumes "strmap_at h t T" "packed_len (inord T) < 2 ^ 64"
  shows "spawn_net_write_strmap (Some c) (Some t) h =
    sends (map (Pair c) (map_chunks (inord T))) (Ret (Some ()))"
  using strmap_pack_at [OF assms] pack_size_at [OF assms(1)] unat_word_of_nat_u64 [OF assms(2)]
    length_packed [of "inord T"]
  by (simp add: spawn_net_write_strmap_def map_chunks_def net_write_def)

lemma read_packed_reads:
  assumes "sendable es"
  shows "reads (net_read_packed (Some c) junk) c (concat (map_chunks es)) (Some (packed es))"
proof -
  have b: "unat (word_of_nat (packed_len es) :: u64) = packed_len es" "0 < packed_len es"
    using assms unat_word_of_nat_u64 [of "packed_len es"]
    by (auto simp: sendable_def simp del: of_nat_add) (simp add: packed_len_def)
  have tail: "reads (pbind (net_read (Some c) (junk (packed_len es)) (packed_len es)) (\<lambda>(rc, buf).
         if rc = SPAWN_SUCCESS then Ret (Some buf) else Ret None)) c (packed es @ []) (Some (packed es))"
    by (rule reads_bind [OF reads_net_read]) (use length_packed in \<open>simp_all add: reads_Ret\<close>)
  have "reads (net_read_packed (Some c) junk) c
      (spawn_pack_uint64 (word_of_nat (packed_len es)) @ packed es) (Some (packed es))"
    unfolding net_read_packed_def
    by (rule reads_bind [OF reads_net_read]) (use tail b in \<open>simp_all add: Let_def\<close>)
  then show ?thesis by (simp add: map_chunks_def)
qed

lemma unpack_received_at:
  assumes "strmap_at h t T" "entries_ok es" "sendable es"
  shows "runs (unpack_received (Some (packed es)) (Some t) h) (inserted h T es)"
  using strmap_unpack_at [OF assms(1,2), of "[]"] assms(3)
  by (auto simp: sendable_def unpack_received_def runs_def)

lemma read_strmap_reads:
  assumes "strmap_at h t T" "entries_ok es" "sendable es"
  shows "\<exists>u h'. reads (spawn_net_read_strmap (Some c) junk (Some t) h) c (concat (map_chunks es))
      (Some (Some u, h')) \<and> inserted h T es (Some u, h')"
proof -
  obtain u h' where un: "unpack_received (Some (packed es)) (Some t) h = Some (Some u, h')"
    and ins: "inserted h T es (Some u, h')"
    using unpack_received_at [OF assms] by (auto simp: runs_def inserted_def)
  have "reads (spawn_net_read_strmap (Some c) junk (Some t) h) c (concat (map_chunks es) @ []) (Some (Some u, h'))"
    unfolding spawn_net_read_strmap_def
    by (rule reads_bind [OF read_packed_reads [OF assms(3)]]) (use un in \<open>simp add: reads_Ret\<close>)
  then show ?thesis using ins by auto
qed

end
