(* ===== verification/Net_Util_Spec.thy ===== *)
theory Net_Util_Spec
  imports Net_Util
begin

text \<open>
  Sending a string or a map from one process to another: in every schedule the reader gets what
  the writer sent.
\<close>

lemma completes_transfer:
  assumes inj: "inj peer" and ne: "i \<noteq> j" and pr: "peer (i, h) = (j, h')" and pr': "peer (j, h') = (i, h)"
    and w: "w = sends (map (Pair h) ms) (Ret x)" and r: "reads p h' (concat ms) y"
  shows "completes None peer {i, j} (\<lambda>l. if l = i then w else p) (\<lambda>l. if l = i then x else y)"
proof -
  let ?outs = "\<lambda>l. if l = i then map (Pair h) ms else []"
  let ?in = "incoming peer [i, j] ?outs"
  have at: "?in j h' = concat ms"
    using incoming_one [OF inj _ _ pr, of "[i, j]" ?outs] ne by (simp add: comp_def)
  have none: "?in l g = []" if "(l, g) \<noteq> (j, h')" for l g
    by (rule incoming_none) (use that pr ne in auto)
  show ?thesis
  proof (rule completes_phase [where il = "[i, j]" and outs = ?outs and r = "\<lambda>l. if l = i then Ret x else p"])
    fix l assume l: "l \<in> {i, j}"
    show "drain (if l = i then Ret x else p) (?in l) = Some (if l = i then x else y, \<lambda>_. [])"
    proof (cases "l = i")
      case True
      then have "?in l = (\<lambda>_. [])" using none ne by (intro ext) auto
      then show ?thesis using True by simp
    next
      case False
      then have "(?in j)(h' := []) = (\<lambda>_. [])" using none by (auto simp: fun_eq_iff)
      then show ?thesis using reads_drain [where q = "?in j", OF r at] False l by simp
    qed
  qed (use ne pr w in \<open>auto split: if_splits\<close>)
qed

text \<open>
  C20. A string written with \<open>spawn_net_write_str\<close> is what \<open>spawn_net_read_str\<close> returns at the other
  end of the channel, whatever its buffers held before; the null pointer arrives as the null
  pointer.
\<close>

theorem str_transfer:
  assumes "inj peer" "i \<noteq> j" "peer (i, h) = (j, h')" "peer (j, h') = (i, h)" "sendable_str str"
  shows "surely_return peer {i, j} (\<lambda>l. if l = i then pbind (spawn_net_write_str (Some h) str) (\<lambda>_. Ret None)
      else spawn_net_read_str (Some h') junk) (\<lambda>l. if l = i then None else str)"
  by (rule completes_surely [OF assms(1)], rule completes_transfer [OF assms(1-4)])
    (simp_all add: write_str_sends [OF assms(5)] sends_bind, rule read_str_reads [OF assms(5)])

definition pair_peer :: "nat \<times> nat \<Rightarrow> nat \<times> nat" where
  "pair_peer e = (case e of (i, h) \<Rightarrow> (if i = 0 then 1 else if i = 1 then 0 else i, h))"

lemma pair_peer_inj: "inj pair_peer"
  by (auto simp: inj_on_def pair_peer_def split: if_splits)

theorem str_transfer_witness:
  "surely_return pair_peer {0, 1} (\<lambda>l. if l = 0 then pbind (spawn_net_write_str (Some 3) (Some ''spawn'')) (\<lambda>_. Ret None)
      else spawn_net_read_str (Some 3) (\<lambda>n. replicate n NUL)) (\<lambda>l. if l = 0 then None else Some ''spawn'')"
  by (rule str_transfer [OF pair_peer_inj]) (simp_all add: pair_peer_def sendable_str_def)

text \<open>
  C21. A map written with \<open>spawn_net_write_strmap\<close> arrives at a reader with a heap of its own: the
  reader's map then has its old entries and those of the writer, which win on common keys.
\<close>

theorem strmap_transfer:
  assumes "inj peer" "i \<noteq> j" "peer (i, h) = (j, h')" "peer (j, h') = (i, h)"
    and "strmap_at hp t T" "sendable (inord T)" "strmap_at hp' u U"
  shows "\<exists>u' hp''. surely_return peer {i, j} (\<lambda>l. if l = i then pbind (spawn_net_write_strmap (Some h) (Some t) hp) (\<lambda>_. Ret None)
      else spawn_net_read_strmap (Some h') junk (Some u) hp') (\<lambda>l. if l = i then None else Some (Some u', hp''))
    \<and> strmap_rep hp'' u' (map_of (inord U) ++ map_of (inord T))"
proof -
  have ok: "entries_ok (inord T)" using assms(5) by (simp add: strmap_at_def)
  obtain u' hp'' where r: "reads (spawn_net_read_strmap (Some h') junk (Some u) hp') h' (concat (map_chunks (inord T)))
      (Some (Some u', hp''))" and ins: "inserted hp' U (inord T) (Some u', hp'')"
    using read_strmap_reads [OF assms(7) ok assms(6)] by blast
  have "surely_return peer {i, j} (\<lambda>l. if l = i then pbind (spawn_net_write_strmap (Some h) (Some t) hp) (\<lambda>_. Ret None)
      else spawn_net_read_strmap (Some h') junk (Some u) hp') (\<lambda>l. if l = i then None else Some (Some u', hp''))"
    by (rule completes_surely [OF assms(1)], rule completes_transfer [OF assms(1-4) _ r])
      (use assms(5,6) in \<open>simp add: write_strmap_sends sendable_def sends_bind\<close>)
  moreover have "strmap_rep hp'' u' (map_of (inord U) ++ map_of (inord T))"
  proof -
    have "map_of (rev (inord T)) = map_of (inord T)"
      using assms(5) strict_sorted_iff by (intro map_of_rev) (auto simp: strmap_at_def bst_def)
    then show ?thesis using ins by (auto simp: inserted_def grown_def strmap_rep_def)
  qed
  ultimately show ?thesis by blast
qed

theorem strmap_transfer_witness:
  "\<exists>u' hp''. surely_return pair_peer {0, 1}
      (\<lambda>l. if l = 0 then pbind (spawn_net_write_strmap (Some 3) (Some sample_map) sample_heap) (\<lambda>_. Ret None)
      else spawn_net_read_strmap (Some 3) (\<lambda>n. replicate n NUL) (Some strmap_new) sample_heap)
      (\<lambda>l. if l = 0 then None else Some (Some u', hp''))
    \<and> strmap_rep hp'' u' [''a'' \<mapsto> Some ''1'', ''b'' \<mapsto> Some ''2'']"
proof -
  have "map_of (inord Tip) ++ map_of (inord sample_tree) = [''a'' \<mapsto> Some ''1'', ''b'' \<mapsto> Some ''2'']"
    by (auto simp: fun_eq_iff)
  moreover have "sendable (inord sample_tree)" by (auto simp: sendable_def packed_len_def entry_len_def)
  ultimately show ?thesis
    using strmap_transfer [OF pair_peer_inj, of 0 1 3 3, OF _ _ _ sample_at _ strmap_at_new [of sample_heap],
        of "\<lambda>n. replicate n NUL"]
    by (simp add: pair_peer_def)
qed

end
