(* ===== verification/Lwgrp.thy ===== *)
theory Lwgrp
  imports Net_Util
begin

text \<open>
  Process groups, \<open>src/src/lwgrp.c\<close>: the group structure and the communication pattern that all
  collective operations share. A group of \<open>n\<close> processes keeps, for each power of two, a channel
  to the process that many ranks to the left and to the right. A collective runs in rounds
  with the distance doubling; in a round a process writes to both partners and then reads from
  both (or, in the blocking variants, alternates by the parity of its relative rank). Ranks and
  sizes are natural numbers, so a test \<open>rank - dist >= 0\<close> of the source is \<open>dist \<le> rank\<close>.
\<close>

section \<open>Groups\<close>

record lwgrp =
  grp_size :: nat
  grp_rank :: nat
  grp_name :: string
  grp_left :: "string option"
  grp_right :: "string option"
  grp_list_size :: nat
  list_left :: "nat option list"
  list_right :: "nat option list"
  grp_ep :: "nat option"

definition LWGRP_SUCCESS :: int where "LWGRP_SUCCESS = 0"

definition lwgrp_size :: "lwgrp option \<Rightarrow> int" where
  "lwgrp_size grp = (case grp of None \<Rightarrow> 0 | Some g \<Rightarrow> int (grp_size g))"

definition lwgrp_rank :: "lwgrp option \<Rightarrow> int" where
  "lwgrp_rank grp = (case grp of None \<Rightarrow> -1 | Some g \<Rightarrow> int (grp_rank g))"

text \<open>
  The loop header of the collectives: \<open>round = 0; dist = 1; while (dist < ranks) { body;
  dist <<= 1; round++; }\<close> with the variables of the body as the state.
\<close>

function doubling :: "(nat \<Rightarrow> nat \<Rightarrow> 's \<Rightarrow> 's proc) \<Rightarrow> nat \<Rightarrow> nat \<Rightarrow> nat \<Rightarrow> 's \<Rightarrow> 's proc" where
  "doubling body ranks round dist st =
     (if 0 < dist \<and> dist < ranks
      then pbind (body round dist st) (\<lambda>st. doubling body ranks (Suc round) (2 * dist) st)
      else Ret st)"
  by auto
termination
  by (relation "measure (\<lambda>(body, ranks, round, dist, st). ranks - dist)") auto

declare doubling.simps [simp del]

section \<open>One round\<close>

text \<open>
  Write to the left, write to the right, read from the left, read from the right, each when
  there is such a partner; \<open>dl\<close> and \<open>dr\<close> are the buffers when there is none.
\<close>

definition exchange ::
  "lwgrp \<Rightarrow> nat \<Rightarrow> nat \<Rightarrow> (nat option \<Rightarrow> 'u proc) \<Rightarrow> (nat option \<Rightarrow> 'u proc)
    \<Rightarrow> (nat option \<Rightarrow> 'm proc) \<Rightarrow> (nat option \<Rightarrow> 'm proc) \<Rightarrow> 'm \<Rightarrow> 'm \<Rightarrow> ('m \<times> 'm) proc" where
  "exchange grp round dist wleft wright rleft rright dl dr =
     (let rank = grp_rank grp; ranks = grp_size grp in
      pbind (if dist \<le> rank then pbind (wleft (list_left grp ! round)) (\<lambda>_. Ret ()) else Ret ()) (\<lambda>_.
      pbind (if rank + dist < ranks then pbind (wright (list_right grp ! round)) (\<lambda>_. Ret ()) else Ret ()) (\<lambda>_.
      pbind (if dist \<le> rank then rleft (list_left grp ! round) else Ret dl) (\<lambda>x.
      pbind (if rank + dist < ranks then rright (list_right grp ! round) else Ret dr) (\<lambda>y.
      Ret (x, y))))))"

text \<open>
  The blocking variant: a process that is odd in this round serves its left partner first,
  reading before it writes; an even one serves its right partner first, writing before it reads.
\<close>

definition exchange_blocking ::
  "lwgrp \<Rightarrow> nat \<Rightarrow> nat \<Rightarrow> (nat option \<Rightarrow> 'u proc) \<Rightarrow> (nat option \<Rightarrow> 'u proc)
    \<Rightarrow> (nat option \<Rightarrow> 'm proc) \<Rightarrow> (nat option \<Rightarrow> 'm proc) \<Rightarrow> 'm \<Rightarrow> 'm \<Rightarrow> ('m \<times> 'm) proc" where
  "exchange_blocking grp round dist wleft wright rleft rright dl dr =
     (let rank = grp_rank grp; ranks = grp_size grp; relrank = rank div 2 ^ round;
          with_left = (if dist \<le> rank
            then pbind (rleft (list_left grp ! round)) (\<lambda>x. pbind (wleft (list_left grp ! round)) (\<lambda>_. Ret x))
            else Ret dl);
          with_right = (if rank + dist < ranks
            then pbind (wright (list_right grp ! round)) (\<lambda>_. rright (list_right grp ! round))
            else Ret dr)
      in if odd relrank
         then pbind with_left (\<lambda>x. pbind with_right (\<lambda>y. Ret (x, y)))
         else pbind with_right (\<lambda>y. pbind with_left (\<lambda>x. Ret (x, y))))"

section \<open>Groups whose channels are connected\<close>

text \<open>
  The groups the processes \<open>0..<n\<close> hold: the right channel of rank \<open>i\<close> in round \<open>d\<close> and the left
  channel of rank \<open>i + 2 ^ d\<close> in that round are the two ends of one channel.
\<close>

definition linked :: "(nat \<times> nat \<Rightarrow> nat \<times> nat) \<Rightarrow> nat \<Rightarrow> (nat \<Rightarrow> lwgrp) \<Rightarrow> bool" where
  "linked peer n gs \<longleftrightarrow> inj peer
     \<and> (\<forall>i<n. grp_size (gs i) = n \<and> grp_rank (gs i) = i)
     \<and> (\<forall>i d. i + 2 ^ d < n \<longrightarrow> (\<exists>h h'. list_right (gs i) ! d = Some h
          \<and> list_left (gs (i + 2 ^ d)) ! d = Some h'
          \<and> peer (i, h) = (i + 2 ^ d, h') \<and> peer (i + 2 ^ d, h') = (i, h)))"

definition rhandle :: "(nat \<Rightarrow> lwgrp) \<Rightarrow> nat \<Rightarrow> nat \<Rightarrow> nat" where
  "rhandle gs d i = the (list_right (gs i) ! d)"

definition lhandle :: "(nat \<Rightarrow> lwgrp) \<Rightarrow> nat \<Rightarrow> nat \<Rightarrow> nat" where
  "lhandle gs d i = the (list_left (gs i) ! d)"

lemma linked_inj: "linked peer n gs \<Longrightarrow> inj peer"
  by (simp add: linked_def)

lemma linked_self [simp]:
  "linked peer n gs \<Longrightarrow> i < n \<Longrightarrow> grp_size (gs i) = n" "linked peer n gs \<Longrightarrow> i < n \<Longrightarrow> grp_rank (gs i) = i"
  by (simp_all add: linked_def)

lemma linked_right:
  assumes "linked peer n gs" "i + 2 ^ d < n"
  shows "list_right (gs i) ! d = Some (rhandle gs d i)"
    and "peer (i, rhandle gs d i) = (i + 2 ^ d, lhandle gs d (i + 2 ^ d))"
proof -
  obtain h h' where "list_right (gs i) ! d = Some h" "list_left (gs (i + 2 ^ d)) ! d = Some h'"
      "peer (i, h) = (i + 2 ^ d, h')"
    using assms unfolding linked_def by blast
  then show "list_right (gs i) ! d = Some (rhandle gs d i)"
    "peer (i, rhandle gs d i) = (i + 2 ^ d, lhandle gs d (i + 2 ^ d))"
    by (simp_all add: rhandle_def lhandle_def)
qed

lemma linked_left:
  assumes "linked peer n gs" "2 ^ d \<le> i" "i < n"
  shows "list_left (gs i) ! d = Some (lhandle gs d i)"
    and "peer (i, lhandle gs d i) = (i - 2 ^ d, rhandle gs d (i - 2 ^ d))"
proof -
  define j where "j = i - 2 ^ d"
  have j: "i = j + 2 ^ d" using assms(2) by (simp add: j_def)
  obtain h h' where "list_right (gs j) ! d = Some h" "list_left (gs (j + 2 ^ d)) ! d = Some h'"
      "peer (j + 2 ^ d, h') = (j, h)"
    using assms(1,3) j unfolding linked_def by blast
  then show "list_left (gs i) ! d = Some (lhandle gs d i)"
    "peer (i, lhandle gs d i) = (i - 2 ^ d, rhandle gs d (i - 2 ^ d))"
    by (simp_all add: rhandle_def lhandle_def j)
qed

lemma handles_differ:
  assumes "linked peer n gs" "2 ^ d \<le> i" "i + 2 ^ d < n"
  shows "lhandle gs d i \<noteq> rhandle gs d i"
proof
  assume "lhandle gs d i = rhandle gs d i"
  then have "i - 2 ^ d = i + 2 ^ d"
    using linked_left(2) [OF assms(1,2)] linked_right(2) [OF assms(1,3)] assms(3) by simp
  moreover have "(0 :: nat) < 2 ^ d" by simp
  ultimately show False by linarith
qed

lemma exchange_completes:
  assumes L: "linked peer n gs"
    and wleft: "\<And>i h. i < n \<Longrightarrow> wleft i (Some h) = sends (map (Pair h) (ml i)) (Ret (u i))"
    and wright: "\<And>i h. i < n \<Longrightarrow> wright i (Some h) = sends (map (Pair h) (mr i)) (Ret (u i))"
    and rleft: "\<And>i h. i < n \<Longrightarrow> 2 ^ d \<le> i \<Longrightarrow> reads (rleft i (Some h)) h (concat (mr (i - 2 ^ d))) (xl i)"
    and rright: "\<And>i h. i + 2 ^ d < n \<Longrightarrow> reads (rright i (Some h)) h (concat (ml (i + 2 ^ d))) (xr i)"
    and fit: "\<And>i. i < n \<Longrightarrow> fits cap (length (concat (ml i)))" "\<And>i. i < n \<Longrightarrow> fits cap (length (concat (mr i)))"
  shows "completes cap peer {..<n} (\<lambda>i. exchange (gs i) d (2 ^ d) (wleft i) (wright i) (rleft i) (rright i) (dl i) (dr i))
    (\<lambda>i. (if 2 ^ d \<le> i then xl i else dl i, if i + 2 ^ d < n then xr i else dr i))"
proof -
  let ?hl = "lhandle gs d" and ?hr = "rhandle gs d"
  let ?outs = "\<lambda>i. (if 2 ^ d \<le> i then map (Pair (?hl i)) (ml i) else [])
    @ (if i + 2 ^ d < n then map (Pair (?hr i)) (mr i) else [])"
  let ?r = "\<lambda>i. pbind (if 2 ^ d \<le> i then rleft i (Some (?hl i)) else Ret (dl i)) (\<lambda>x.
      pbind (if i + 2 ^ d < n then rright i (Some (?hr i)) else Ret (dr i)) (\<lambda>y. Ret (x, y)))"
  let ?in = "incoming peer [0..<n] ?outs"
  have inj: "inj peer" using linked_inj [OF L] .
  have inl: "?in i (?hl i) = concat (mr (i - 2 ^ d))" if i: "2 ^ d \<le> i" "i < n" for i
  proof -
    have j: "i - 2 ^ d + 2 ^ d = i" using i by simp
    have p: "peer (i - 2 ^ d, ?hr (i - 2 ^ d)) = (i, ?hl i)"
      using linked_right(2) [OF L, of "i - 2 ^ d" d] i j by simp
    show ?thesis
      using incoming_one [OF inj _ _ p, of "[0..<n]" ?outs] i j handles_differ [OF L, of d "i - 2 ^ d"]
      by (auto simp: comp_def)
  qed
  have inr: "?in i (?hr i) = concat (ml (i + 2 ^ d))" if i: "i + 2 ^ d < n" for i
  proof -
    have p: "peer (i + 2 ^ d, ?hl (i + 2 ^ d)) = (i, ?hr i)"
      using linked_left(2) [OF L, of d "i + 2 ^ d"] i by simp
    show ?thesis
      using incoming_one [OF inj _ _ p, of "[0..<n]" ?outs] i handles_differ [OF L, of d "i + 2 ^ d"]
      by (auto simp: comp_def)
  qed
  have ino: "?in i h = []" if "2 ^ d \<le> i \<longrightarrow> h \<noteq> ?hl i" "i + 2 ^ d < n \<longrightarrow> h \<noteq> ?hr i" "i < n" for i h
    using linked_left(2) [OF L] linked_right(2) [OF L] that
    by (intro incoming_none) (auto split: if_splits)
  show ?thesis
  proof (rule completes_phase [where il = "[0..<n]" and outs = ?outs and r = ?r])
    fix i assume "i \<in> {..<n}"
    then have i: "i < n" by simp
    show "exchange (gs i) d (2 ^ d) (wleft i) (wright i) (rleft i) (rright i) (dl i) (dr i) = sends (?outs i) (?r i)"
      using i linked_left(1) [OF L] linked_right(1) [OF L] wleft [OF i] wright [OF i] L
      by (simp add: exchange_def sends_append sends_bind Let_def)
    have "fits cap 0" using fits_mono [OF fit(1) [OF i]] by simp
    then show "fits cap (length (?in i h))" for h
      using inl [of i] inr [of i] ino [of i h] fit i
      by (cases "2 ^ d \<le> i \<and> h = ?hl i"; cases "i + 2 ^ d < n \<and> h = ?hr i") auto
    show "fst (peer (i, fst x)) \<in> {..<n}" if "x \<in> set (?outs i)" for x
      using that i linked_left(2) [OF L] linked_right(2) [OF L] by (auto split: if_splits)
    let ?q1 = "if 2 ^ d \<le> i then (?in i)(?hl i := []) else ?in i"
    let ?q2 = "if i + 2 ^ d < n then ?q1(?hr i := []) else ?q1"
    have a: "drain (if 2 ^ d \<le> i then rleft i (Some (?hl i)) else Ret (dl i)) (?in i)
        = Some (if 2 ^ d \<le> i then xl i else dl i, ?q1)"
      using reads_drain [OF rleft [OF i], where q = "?in i"] inl [OF _ i] by auto
    have b: "drain (if i + 2 ^ d < n then rright i (Some (?hr i)) else Ret (dr i)) ?q1
        = Some (if i + 2 ^ d < n then xr i else dr i, ?q2)"
      using reads_drain [OF rright, of i, where q = ?q1] inr [of i] handles_differ [OF L, of d i] by auto
    have c: "?q2 = (\<lambda>_. [])" using ino [OF _ _ i] by (auto simp: fun_eq_iff)
    show "drain (?r i) (?in i) = Some ((if 2 ^ d \<le> i then xl i else dl i,
        if i + 2 ^ d < n then xr i else dr i), \<lambda>_. [])"
      unfolding drain_bind a by (simp add: drain_bind b c del: fun_upd_apply)
  qed auto
qed

text \<open>
  Half of a blocking round: the processes in \<open>P\<close> write to the right and then read, the others
  read from the left and then write.
\<close>

lemma half_round_completes:
  assumes L: "linked peer n gs" and cap: "cap \<noteq> Some 0"
    and wleft: "\<And>i h. i < n \<Longrightarrow> wleft i (Some h) = sends (map (Pair h) (ml i)) (Ret (u i))"
    and wright: "\<And>i h. i < n \<Longrightarrow> wright i (Some h) = sends (map (Pair h) (mr i)) (Ret (u i))"
    and rleft: "\<And>i h. i < n \<Longrightarrow> 2 ^ d \<le> i \<Longrightarrow> reads (rleft i (Some h)) h (concat (mr (i - 2 ^ d))) (xl i)"
    and rright: "\<And>i h. i + 2 ^ d < n \<Longrightarrow> reads (rright i (Some h)) h (concat (ml (i + 2 ^ d))) (xr i)"
    and P: "\<And>i. P i \<longleftrightarrow> \<not> P (i + 2 ^ d)"
    and ps: "\<And>i. i < n \<Longrightarrow> ps i = (if P i
      then if i + 2 ^ d < n then pbind (wright i (list_right (gs i) ! d)) (\<lambda>_. rright i (list_right (gs i) ! d))
           else Ret (dr i)
      else if 2 ^ d \<le> i
           then pbind (rleft i (list_left (gs i) ! d)) (\<lambda>x. pbind (wleft i (list_left (gs i) ! d)) (\<lambda>_. Ret x))
           else Ret (dl i))"
  shows "completes cap peer {..<n} ps (\<lambda>i. if P i then if i + 2 ^ d < n then xr i else dr i
    else if 2 ^ d \<le> i then xl i else dl i)" (is "completes cap peer _ ps ?rs")
proof -
  let ?A = "\<lambda>i. if P i \<and> i + 2 ^ d < n then {i, i + 2 ^ d} else {i}"
  let ?I = "{i. i < n \<and> (P i \<or> i < 2 ^ d)}"
  have pair: "completes cap peer {i, i + 2 ^ d} ps ?rs" if i: "P i" "i + 2 ^ d < n" for i
  proof -
    let ?j = "i + 2 ^ d"
    let ?w = "\<lambda>l. if l = i then wright l (list_right (gs l) ! d) else wleft l (list_left (gs l) ! d)"
    let ?r = "\<lambda>l. if l = i then rright l (list_right (gs l) ! d) else rleft l (list_left (gs l) ! d)"
    have lr: "list_right (gs i) ! d = Some (rhandle gs d i)" "list_left (gs ?j) ! d = Some (lhandle gs d ?j)"
      "peer (i, rhandle gs d i) = (?j, lhandle gs d ?j)" "peer (?j, lhandle gs d ?j) = (i, rhandle gs d i)"
      using linked_right [OF L i(2)] linked_left [OF L, of d ?j] i(2) by auto
    have "completes cap peer {i, ?j} (\<lambda>l. if l = i then pbind (?w l) (\<lambda>_. ?r l)
        else pbind (?r l) (\<lambda>x. pbind (?w l) (\<lambda>_. Ret x))) (\<lambda>l. if l = i then xr i else xl ?j)"
      using lr i(2) cap wright [of i] wleft [of ?j] rright [OF i(2)] rleft [of ?j]
      by (intro completes_pair [where xs = "mr i" and ys = "ml ?j" and u = u]) auto
    then show ?thesis
      by (rule completes_cong) (use ps i P [of i] in auto)
  qed
  have one: "completes cap peer {i} ps ?rs" if "i < n" "P i \<longrightarrow> \<not> i + 2 ^ d < n" "\<not> P i \<longrightarrow> i < 2 ^ d" for i
    by (rule completes_RetI) (use ps [OF that(1)] that in auto)
  have "completes cap peer (\<Union>i\<in>?I. ?A i) ps ?rs"
  proof (rule completes_UNION)
    show "completes cap peer (?A i) ps ?rs" if "i \<in> ?I" for i using that pair one by auto
    show "?A i \<inter> ?A j = {}" if "i \<in> ?I" "j \<in> ?I" "i \<noteq> j" for i j
      using that P [of i] P [of j] by auto
  qed simp
  moreover have "(\<Union>i\<in>?I. ?A i) = {..<n}"
  proof
    show "{..<n} \<subseteq> (\<Union>i\<in>?I. ?A i)"
    proof
      fix i assume "i \<in> {..<n}"
      show "i \<in> (\<Union>i\<in>?I. ?A i)"
      proof (cases "P i \<or> i < 2 ^ d")
        case False
        then have "P (i - 2 ^ d)" "i - 2 ^ d + 2 ^ d = i" using P [of "i - 2 ^ d"] by auto
        then show ?thesis using \<open>i \<in> {..<n}\<close> by (intro UN_I [of "i - 2 ^ d"]) auto
      qed (use \<open>i \<in> {..<n}\<close> in auto)
    qed
  qed auto
  ultimately show ?thesis by simp
qed

lemma exchange_blocking_completes:
  assumes L: "linked peer n gs" and cap: "cap \<noteq> Some 0"
    and wleft: "\<And>i h. i < n \<Longrightarrow> wleft i (Some h) = sends (map (Pair h) (ml i)) (Ret (u i))"
    and wright: "\<And>i h. i < n \<Longrightarrow> wright i (Some h) = sends (map (Pair h) (mr i)) (Ret (u i))"
    and rleft: "\<And>i h. i < n \<Longrightarrow> 2 ^ d \<le> i \<Longrightarrow> reads (rleft i (Some h)) h (concat (mr (i - 2 ^ d))) (xl i)"
    and rright: "\<And>i h. i + 2 ^ d < n \<Longrightarrow> reads (rright i (Some h)) h (concat (ml (i + 2 ^ d))) (xr i)"
  shows "completes cap peer {..<n}
    (\<lambda>i. exchange_blocking (gs i) d (2 ^ d) (wleft i) (wright i) (rleft i) (rright i) (dl i) (dr i))
    (\<lambda>i. (if 2 ^ d \<le> i then xl i else dl i, if i + 2 ^ d < n then xr i else dr i))"
proof -
  let ?WL = "\<lambda>i. if 2 ^ d \<le> i
    then pbind (rleft i (list_left (gs i) ! d)) (\<lambda>x. pbind (wleft i (list_left (gs i) ! d)) (\<lambda>_. Ret x))
    else Ret (dl i)"
  let ?WR = "\<lambda>i. if i + 2 ^ d < n
    then pbind (wright i (list_right (gs i) ! d)) (\<lambda>_. rright i (list_right (gs i) ! d)) else Ret (dr i)"
  let ?odd = "\<lambda>i. odd (i div 2 ^ d)"
  let ?x = "\<lambda>i. if 2 ^ d \<le> i then xl i else dl i" and ?y = "\<lambda>i. if i + 2 ^ d < n then xr i else dr i"
  have dv: "(i + 2 ^ d) div 2 ^ d = i div 2 ^ d + 1" for i :: nat by (simp add: div_add_self2)
  note half = half_round_completes [where gs = gs and d = d and u = u and ml = ml and mr = mr and wleft = wleft
      and wright = wright and rleft = rleft and rright = rright and xl = xl and xr = xr and dl = dl and dr = dr]
  have A: "completes cap peer {..<n} (\<lambda>i. if ?odd i then ?WL i else ?WR i) (\<lambda>i. if \<not> ?odd i then ?y i else ?x i)"
    by (rule half [where P = "\<lambda>i. \<not> ?odd i"]) (use assms in \<open>simp_all add: dv\<close>)
  have B: "completes cap peer {..<n} (\<lambda>i. if ?odd i then ?WR i else ?WL i) (\<lambda>i. if ?odd i then ?y i else ?x i)"
    by (rule half [where P = ?odd]) (use assms in \<open>simp_all add: dv\<close>)
  have "completes cap peer {..<n} (\<lambda>i. pbind (if ?odd i then ?WL i else ?WR i) (\<lambda>a.
      pbind (if ?odd i then ?WR i else ?WL i) (\<lambda>b. Ret (if ?odd i then (a, b) else (b, a))))) (\<lambda>i. (?x i, ?y i))"
    by (rule completes_bind [OF A], rule completes_bind [OF B], rule completes_RetI) auto
  then show ?thesis
    by (rule completes_cong) (use L in \<open>auto simp: exchange_blocking_def Let_def\<close>)
qed

section \<open>Rounds\<close>

lemma doubling_completes:
  assumes step: "\<And>d st. 2 ^ d < n \<Longrightarrow> I d st \<Longrightarrow>
      \<exists>st'. completes cap peer S (\<lambda>i. body i d (2 ^ d) (st i)) st' \<and> I (Suc d) st'"
    and "I 0 st0"
  shows "\<exists>d st. n \<le> 2 ^ d \<and> I d st \<and> completes cap peer S (\<lambda>i. doubling (body i) n 0 1 (st0 i)) st"
proof -
  have "\<exists>d' st'. n \<le> 2 ^ d' \<and> I d' st' \<and> completes cap peer S (\<lambda>i. doubling (body i) n d (2 ^ d) (st i)) st'"
    if "I d st" for d st
    using that
  proof (induction "n - 2 ^ d" arbitrary: d st rule: less_induct)
    case less
    show ?case
    proof (cases "2 ^ d < n")
      case True
      obtain st1 where 1: "completes cap peer S (\<lambda>i. body i d (2 ^ d) (st i)) st1" "I (Suc d) st1"
        using step [OF True less.prems] by blast
      have "n - 2 ^ Suc d < n - 2 ^ d" using True by (intro diff_less_mono2) auto
      then obtain d' st' where 2: "n \<le> 2 ^ d'" "I d' st'"
          "completes cap peer S (\<lambda>i. doubling (body i) n (Suc d) (2 ^ Suc d) (st1 i)) st'"
        using less.hyps [OF _ 1(2)] by blast
      have "completes cap peer S (\<lambda>i. pbind (body i d (2 ^ d) (st i)) (doubling (body i) n (Suc d) (2 ^ Suc d))) st'"
        using 1(1) 2(3) by (intro completes_bind [where rs = st1]) simp_all
      moreover have "doubling (body i) n d (2 ^ d) (st i) =
          pbind (body i d (2 ^ d) (st i)) (doubling (body i) n (Suc d) (2 ^ Suc d))" for i
        using True by (subst doubling.simps) simp
      ultimately show ?thesis using 2 by auto
    next
      case False
      then have "doubling (body i) n d (2 ^ d) (st i) = Ret (st i)" for i
        by (subst doubling.simps) simp
      then have "completes cap peer S (\<lambda>i. doubling (body i) n d (2 ^ d) (st i)) st"
        by (intro completes_RetI)
      then show ?thesis using False less.prems by (intro exI [of _ d] exI [of _ st]) simp
    qed
  qed
  from this [OF assms(2)] show ?thesis by simp
qed

end
