(* ===== verification/Lwgrp_Coll.thy ===== *)
theory Lwgrp_Coll
  imports Lwgrp
begin

text \<open>
  The collective operations of \<open>src/src/lwgrp.c\<close>: shift, barrier, reductions, scans and the
  gathering of maps, each in its plain and its blocking variant. The two variants of an operation
  differ only in the order of the calls within a round, so the operation is defined once over
  that order, \<open>exchange\<close> or \<open>exchange_blocking\<close>.
\<close>

section \<open>Buffers of integers\<close>

definition mem_u64s :: "u64 list \<Rightarrow> byte list" where
  "mem_u64s buf = concat (map mem_u64 buf)"

primrec load_u64s :: "nat \<Rightarrow> byte list \<Rightarrow> u64 list" where
  "load_u64s 0 bs = []"
| "load_u64s (Suc n) bs = load_u64 bs # load_u64s n (drop 8 bs)"

lemma load_mem_u64s: "load_u64s (length buf) (mem_u64s buf @ bs) = buf"
  by (induction buf) (simp_all add: mem_u64s_def)

lemma length_mem_u64s [simp]: "length (mem_u64s buf) = 8 * length buf"
  by (induction buf) (simp_all add: mem_u64s_def)

lemma length_load_u64s [simp]: "length (load_u64s n bs) = n"
  by (induction n arbitrary: bs) simp_all

text \<open>Reads and writes of a buffer; the return codes are ignored by the callers.\<close>

definition read_buf :: "nat option \<Rightarrow> byte list \<Rightarrow> nat \<Rightarrow> byte list proc" where
  "read_buf ch buf n = pbind (net_read ch buf n) (\<lambda>(rc, buf). Ret buf)"

definition write_u64s :: "nat option \<Rightarrow> u64 list \<Rightarrow> unit proc" where
  "write_u64s ch buf = net_write ch (mem_u64s buf)"

definition read_u64s :: "nat option \<Rightarrow> u64 list \<Rightarrow> nat \<Rightarrow> u64 list proc" where
  "read_u64s ch buf cnt =
     pbind (net_read ch (mem_u64s buf) (8 * cnt)) (\<lambda>(rc, bs). Ret (load_u64s cnt bs))"

lemma read_buf_reads: "length bs = n \<Longrightarrow> reads (read_buf (Some h) buf n) h (concat [bs]) bs"
  using reads_bind [OF reads_net_read [of bs n h buf], of "\<lambda>(rc, buf). Ret buf" "[]" bs]
  by (simp add: read_buf_def reads_Ret)

lemma read_u64s_reads:
  assumes "length xs = cnt"
  shows "reads (read_u64s (Some h) buf cnt) h (concat [mem_u64s xs]) xs"
proof -
  have "reads (net_read (Some h) (mem_u64s buf) (8 * cnt)) h (mem_u64s xs) (SPAWN_SUCCESS, mem_u64s xs)"
    using assms by (intro reads_net_read) simp
  moreover have "load_u64s cnt (mem_u64s xs) = xs"
    using load_mem_u64s [of xs "[]"] assms by simp
  ultimately show ?thesis
    using reads_bind [where k = "\<lambda>(rc, bs). Ret (load_u64s cnt bs)" and bs' = "[]" and y = xs] reads_Ret
    by (fastforce simp: read_u64s_def)
qed

lemma write_buf_sends: "net_write (Some h) bs = sends (map (Pair h) [bs]) (Ret ())"
  by (simp add: net_write_def)

lemma write_u64s_sends: "write_u64s (Some h) xs = sends (map (Pair h) [mem_u64s xs]) (Ret ())"
  by (simp add: write_u64s_def net_write_def)

section \<open>The operations\<close>

type_synonym ('u, 'm) xchg = "lwgrp \<Rightarrow> nat \<Rightarrow> nat \<Rightarrow> (nat option \<Rightarrow> 'u proc) \<Rightarrow> (nat option \<Rightarrow> 'u proc)
    \<Rightarrow> (nat option \<Rightarrow> 'm proc) \<Rightarrow> (nat option \<Rightarrow> 'm proc) \<Rightarrow> 'm \<Rightarrow> 'm \<Rightarrow> ('m \<times> 'm) proc"

text \<open>The buffer arguments hold the caller's memory; the new content of \<open>left\<close> and \<open>right\<close> is returned.\<close>

definition shift_with ::
  "(unit, byte list) xchg \<Rightarrow> byte list \<Rightarrow> byte list \<Rightarrow> byte list \<Rightarrow> nat \<Rightarrow> lwgrp \<Rightarrow> (int \<times> byte list \<times> byte list) proc"
  where
  "shift_with xchg buf left right buf_size grp =
     pbind (xchg grp 0 1 (\<lambda>ch. net_write ch buf) (\<lambda>ch. net_write ch buf)
       (\<lambda>ch. read_buf ch left buf_size) (\<lambda>ch. read_buf ch right buf_size) left right)
     (\<lambda>(left, right). Ret (LWGRP_SUCCESS, left, right))"

definition lwgrp_shift where "lwgrp_shift = shift_with exchange"
definition lwgrp_shift_blocking where "lwgrp_shift_blocking = shift_with exchange_blocking"

text \<open>
  One byte buffer serves for sending and receiving. Every message is the byte \<open>A\<close>, so it makes
  no difference that the blocking variant passes on the copy it has just received.
\<close>

definition barrier_with :: "(unit, byte list) xchg \<Rightarrow> lwgrp \<Rightarrow> int proc" where
  "barrier_with xchg grp =
     pbind (doubling (\<lambda>round dist buf.
         pbind (xchg grp round dist (\<lambda>ch. net_write ch buf) (\<lambda>ch. net_write ch buf)
           (\<lambda>ch. read_buf ch buf 1) (\<lambda>ch. read_buf ch buf 1) buf buf)
         (\<lambda>(left, right). Ret (if grp_rank grp + dist < grp_size grp then right else left)))
       (grp_size grp) 0 1 [CHR ''A''])
     (\<lambda>_. Ret LWGRP_SUCCESS)"

definition lwgrp_barrier where "lwgrp_barrier = barrier_with exchange"
definition lwgrp_barrier_blocking where "lwgrp_barrier_blocking = barrier_with exchange_blocking"

definition max_into :: "u64 list \<Rightarrow> u64 list \<Rightarrow> u64 list" where
  "max_into buf other = map2 (\<lambda>b x. if x > b then x else b) buf other"

definition add_into :: "u64 list \<Rightarrow> u64 list \<Rightarrow> u64 list" where
  "add_into buf other = map2 (+) buf other"

text \<open>\<open>junk\<close> is the content of the freshly allocated receive buffers.\<close>

definition allreduce_max_with ::
  "(unit, u64 list) xchg \<Rightarrow> u64 list \<Rightarrow> u64 list \<Rightarrow> nat \<Rightarrow> lwgrp \<Rightarrow> (int \<times> u64 list) proc" where
  "allreduce_max_with xchg junk buf cnt grp =
     pbind (doubling (\<lambda>round dist (buf, left_buf, right_buf).
         pbind (xchg grp round dist (\<lambda>ch. write_u64s ch buf) (\<lambda>ch. write_u64s ch buf)
           (\<lambda>ch. read_u64s ch left_buf cnt) (\<lambda>ch. read_u64s ch right_buf cnt) left_buf right_buf)
         (\<lambda>(left_buf, right_buf).
           let buf = (if dist \<le> grp_rank grp then max_into buf left_buf else buf);
               buf = (if grp_rank grp + dist < grp_size grp then max_into buf right_buf else buf)
           in Ret (buf, left_buf, right_buf)))
       (grp_size grp) 0 1 (buf, junk, junk))
     (\<lambda>(buf, left_buf, right_buf). Ret (LWGRP_SUCCESS, buf))"

definition lwgrp_allreduce_uint64_max where "lwgrp_allreduce_uint64_max = allreduce_max_with exchange"
definition lwgrp_allreduce_uint64_max_blocking where
  "lwgrp_allreduce_uint64_max_blocking = allreduce_max_with exchange_blocking"

text \<open>The prefix sum only sends to the right.\<close>

definition scan_sum_with ::
  "(unit, u64 list) xchg \<Rightarrow> u64 list \<Rightarrow> u64 list \<Rightarrow> nat \<Rightarrow> lwgrp \<Rightarrow> (int \<times> u64 list) proc" where
  "scan_sum_with xchg junk buf cnt grp =
     pbind (doubling (\<lambda>round dist (buf, recv_buf).
         pbind (xchg grp round dist (\<lambda>ch. Ret ()) (\<lambda>ch. write_u64s ch buf)
           (\<lambda>ch. read_u64s ch recv_buf cnt) (\<lambda>ch. Ret []) recv_buf [])
         (\<lambda>(recv_buf, unused).
           Ret (if dist \<le> grp_rank grp then add_into buf recv_buf else buf, recv_buf)))
       (grp_size grp) 0 1 (buf, junk))
     (\<lambda>(buf, recv_buf). Ret (LWGRP_SUCCESS, buf))"

definition lwgrp_scan_uint64_sum where "lwgrp_scan_uint64_sum = scan_sum_with exchange"
definition lwgrp_scan_uint64_sum_blocking where
  "lwgrp_scan_uint64_sum_blocking = scan_sum_with exchange_blocking"

definition double_scan_with ::
  "(unit, u64 list) xchg \<Rightarrow> u64 list \<Rightarrow> u64 list \<Rightarrow> nat \<Rightarrow> lwgrp \<Rightarrow> (int \<times> u64 list \<times> u64 list) proc" where
  "double_scan_with xchg junk buf cnt grp =
     pbind (doubling (\<lambda>round dist (left_send, right_send, left_recv, right_recv).
         pbind (xchg grp round dist (\<lambda>ch. write_u64s ch left_send) (\<lambda>ch. write_u64s ch right_send)
           (\<lambda>ch. read_u64s ch left_recv cnt) (\<lambda>ch. read_u64s ch right_recv cnt) left_recv right_recv)
         (\<lambda>(left_recv, right_recv).
           Ret (if grp_rank grp + dist < grp_size grp then add_into left_send right_recv else left_send,
                if dist \<le> grp_rank grp then add_into right_send left_recv else right_send,
                left_recv, right_recv)))
       (grp_size grp) 0 1 (buf, buf, junk, junk))
     (\<lambda>(left_send, right_send, left_recv, right_recv). Ret (LWGRP_SUCCESS, right_send, left_send))"

definition lwgrp_double_scan_uint64_sum where "lwgrp_double_scan_uint64_sum = double_scan_with exchange"
definition lwgrp_double_scan_uint64_sum_blocking where
  "lwgrp_double_scan_uint64_sum_blocking = double_scan_with exchange_blocking"

definition allreduce_sum_with ::
  "(unit, u64 list) xchg \<Rightarrow> u64 list \<Rightarrow> u64 list \<Rightarrow> nat \<Rightarrow> lwgrp \<Rightarrow> (int \<times> u64 list) proc" where
  "allreduce_sum_with xchg junk buf cnt grp =
     pbind (double_scan_with xchg junk buf cnt grp) (\<lambda>(rc, left_buf, right_buf).
     Ret (rc, map2 (-) (add_into left_buf right_buf) buf))"

definition lwgrp_allreduce_uint64_sum where "lwgrp_allreduce_uint64_sum = allreduce_sum_with exchange"
definition lwgrp_allreduce_uint64_sum_blocking where
  "lwgrp_allreduce_uint64_sum_blocking = allreduce_sum_with exchange_blocking"

section \<open>The contract of a round\<close>

text \<open>
  What a collective relies on: in a round every process gets what its partners sent, provided
  that there is \<open>room\<close> for messages of their length. Both orders of the calls provide it. The
  plain order, in which all write first, needs channels that hold a whole message; the blocking
  order works with channels of any capacity but 0.
\<close>

locale round_exchange =
  fixes cap :: "nat option" and room :: "nat \<Rightarrow> bool" and xchg :: "('u, 'm) xchg"
  assumes room_mono: "\<And>l l'. room l \<Longrightarrow> l' \<le> l \<Longrightarrow> room l'"
    and xchg_completes: "\<And>peer n gs wleft wright rleft rright ml mr xl xr (u :: nat \<Rightarrow> 'u) d dl dr.
    linked peer n gs \<Longrightarrow>
    (\<And>i h. i < n \<Longrightarrow> wleft i (Some h) = sends (map (Pair h) (ml i)) (Ret (u i))) \<Longrightarrow>
    (\<And>i h. i < n \<Longrightarrow> wright i (Some h) = sends (map (Pair h) (mr i)) (Ret (u i))) \<Longrightarrow>
    (\<And>i h. i < n \<Longrightarrow> 2 ^ d \<le> i \<Longrightarrow> reads (rleft i (Some h)) h (concat (mr (i - 2 ^ d))) (xl i)) \<Longrightarrow>
    (\<And>i h. i + 2 ^ d < n \<Longrightarrow> reads (rright i (Some h)) h (concat (ml (i + 2 ^ d))) (xr i)) \<Longrightarrow>
    (\<And>i. i < n \<Longrightarrow> room (length (concat (ml i)))) \<Longrightarrow> (\<And>i. i < n \<Longrightarrow> room (length (concat (mr i)))) \<Longrightarrow>
    completes cap peer {..<n} (\<lambda>i. xchg (gs i) d (2 ^ d) (wleft i) (wright i) (rleft i) (rright i) (dl i) (dr i))
      (\<lambda>i. (if 2 ^ d \<le> i then xl i else dl i, if i + 2 ^ d < n then xr i else dr i))"
begin

lemma round_completes:
  assumes "linked peer n gs"
    and "\<And>i h. i < n \<Longrightarrow> wleft i (Some h) = sends (map (Pair h) (ml i)) (Ret (u i))"
    and "\<And>i h. i < n \<Longrightarrow> wright i (Some h) = sends (map (Pair h) (mr i)) (Ret (u i))"
    and "\<And>i h. i < n \<Longrightarrow> 2 ^ d \<le> i \<Longrightarrow> reads (rleft i (Some h)) h (concat (mr (i - 2 ^ d))) (xl i)"
    and "\<And>i h. i + 2 ^ d < n \<Longrightarrow> reads (rright i (Some h)) h (concat (ml (i + 2 ^ d))) (xr i)"
    and "\<And>i. i < n \<Longrightarrow> room (length (concat (ml i)))" "\<And>i. i < n \<Longrightarrow> room (length (concat (mr i)))"
  shows "completes cap peer {..<n} (\<lambda>i. pbind
      (xchg (gs i) d (2 ^ d) (wleft i) (wright i) (rleft i) (rright i) (dl i) (dr i)) (\<lambda>p. Ret (f i p)))
    (\<lambda>i. f i (if 2 ^ d \<le> i then xl i else dl i, if i + 2 ^ d < n then xr i else dr i))"
  by (rule completes_bind [OF xchg_completes [OF assms]]) (assumption+, rule completes_Ret)

end


interpretation plain: round_exchange None "\<lambda>_. True" exchange
  by unfold_locales (auto intro: exchange_completes)

interpretation blocking: round_exchange None "\<lambda>_. True" exchange_blocking
  by unfold_locales (auto intro: exchange_blocking_completes)

interpretation plain_within: round_exchange "Some b" "\<lambda>l. l \<le> b" exchange for b
  by unfold_locales (auto intro: exchange_completes)

interpretation blocking_within: round_exchange "Some (Suc b)" "\<lambda>_. True" exchange_blocking for b
  by unfold_locales (auto intro: exchange_blocking_completes)

section \<open>Windows\<close>

text \<open>The ranks whose data has reached rank \<open>i\<close> before round \<open>d\<close>: on both sides, from the left, from the right.\<close>

definition window :: "nat \<Rightarrow> nat \<Rightarrow> nat \<Rightarrow> nat set" where
  "window n d i = {j. j < n \<and> i < j + 2 ^ d \<and> j < i + 2 ^ d}"

definition lwindow :: "nat \<Rightarrow> nat \<Rightarrow> nat set" where
  "lwindow d i = {j. j \<le> i \<and> i < j + 2 ^ d}"

definition rwindow :: "nat \<Rightarrow> nat \<Rightarrow> nat \<Rightarrow> nat set" where
  "rwindow n d i = {j. j < n \<and> i \<le> j \<and> j < i + 2 ^ d}"

lemma window_0: "i < n \<Longrightarrow> window n 0 i = {i}"
  by (auto simp: window_def)

lemma window_Suc:
  assumes "i < n"
  shows "window n (Suc d) i = window n d i \<union> (if 2 ^ d \<le> i then window n d (i - 2 ^ d) else {})
    \<union> (if i + 2 ^ d < n then window n d (i + 2 ^ d) else {})"
  using assms by (auto simp: window_def)

lemma window_all: "n \<le> 2 ^ d \<Longrightarrow> i < n \<Longrightarrow> window n d i = {..<n}"
  by (auto simp: window_def)

lemma lwindow_0: "lwindow 0 i = {i}"
  by (auto simp: lwindow_def)

lemma lwindow_Suc:
  "lwindow (Suc d) i = lwindow d i \<union> (if 2 ^ d \<le> i then lwindow d (i - 2 ^ d) else {})"
  "2 ^ d \<le> i \<Longrightarrow> lwindow d i \<inter> lwindow d (i - 2 ^ d) = {}" "finite (lwindow d i)"
  by (auto simp: lwindow_def)

lemma lwindow_all: "i < 2 ^ d \<Longrightarrow> lwindow d i = {..i}"
  by (auto simp: lwindow_def)

lemma rwindow_0: "i < n \<Longrightarrow> rwindow n 0 i = {i}"
  by (auto simp: rwindow_def)

lemma rwindow_Suc:
  "i < n \<Longrightarrow> rwindow n (Suc d) i = rwindow n d i \<union> (if i + 2 ^ d < n then rwindow n d (i + 2 ^ d) else {})"
  "rwindow n d i \<inter> rwindow n d (i + 2 ^ d) = {}" "finite (rwindow n d i)"
  by (auto simp: rwindow_def)

lemma rwindow_all: "n \<le> 2 ^ d \<Longrightarrow> rwindow n d i = {i..<n}"
  by (auto simp: rwindow_def)

section \<open>Results of the collectives\<close>

locale byte_exchange = round_exchange cap room xchg for cap room and xchg :: "(unit, byte list) xchg"
begin

lemma shift_completes:
  assumes "linked peer n gs" "\<And>i. i < n \<Longrightarrow> length (buf i) = sz" "room sz"
  shows "completes cap peer {..<n} (\<lambda>i. shift_with xchg (buf i) (left i) (right i) sz (gs i))
    (\<lambda>i. (LWGRP_SUCCESS, if 0 < i then buf (i - 1) else left i, if i + 1 < n then buf (i + 1) else right i))"
  using round_completes [OF assms(1), where d = 0 and ml = "\<lambda>i. [buf i]" and mr = "\<lambda>i. [buf i]" and u = "\<lambda>_. ()"
      and wleft = "\<lambda>i ch. net_write ch (buf i)" and wright = "\<lambda>i ch. net_write ch (buf i)"
      and rleft = "\<lambda>i ch. read_buf ch (left i) sz" and rright = "\<lambda>i ch. read_buf ch (right i) sz"
      and xl = "\<lambda>i. buf (i - 1)" and xr = "\<lambda>i. buf (i + 1)" and dl = left and dr = right
      and f = "\<lambda>i (left, right). (LWGRP_SUCCESS, left, right)"]
    write_buf_sends read_buf_reads assms(2,3)
  by (simp add: shift_with_def case_prod_unfold Suc_le_eq cong: if_cong)

lemma barrier_completes:
  assumes "linked peer n gs" and r: "room 1"
  shows "completes cap peer {..<n} (\<lambda>i. barrier_with xchg (gs i)) (\<lambda>i. LWGRP_SUCCESS)"
proof -
  let ?f = "\<lambda>d i (p :: byte list \<times> byte list). if grp_rank (gs i) + 2 ^ d < grp_size (gs i) then snd p else fst p"
  let ?body = "\<lambda>i round dist buf.
      pbind (xchg (gs i) round dist (\<lambda>ch. net_write ch buf) (\<lambda>ch. net_write ch buf)
        (\<lambda>ch. read_buf ch buf 1) (\<lambda>ch. read_buf ch buf 1) buf buf)
      (\<lambda>(left, right). Ret (if grp_rank (gs i) + dist < grp_size (gs i) then right else left))"
  have "\<exists>d st. n \<le> 2 ^ d \<and> (\<forall>i<n. length (st i) = 1)
      \<and> completes cap peer {..<n} (\<lambda>i. doubling (?body i) n 0 1 ([CHR ''A''])) st"
  proof (rule doubling_completes [where I = "\<lambda>d st. \<forall>i<n. length (st i) = 1"])
    fix d and st :: "nat \<Rightarrow> byte list"
    assume d: "2 ^ d < n" and st: "\<forall>i<n. length (st i) = 1"
    let ?st = "\<lambda>i. ?f d i (if 2 ^ d \<le> i then st (i - 2 ^ d) else st i, if i + 2 ^ d < n then st (i + 2 ^ d) else st i)"
    have "completes cap peer {..<n} (\<lambda>i. pbind (xchg (gs i) d (2 ^ d) (\<lambda>ch. net_write ch (st i)) (\<lambda>ch. net_write ch (st i))
        (\<lambda>ch. read_buf ch (st i) 1) (\<lambda>ch. read_buf ch (st i) 1) (st i) (st i)) (\<lambda>p. Ret (?f d i p))) ?st"
      by (rule round_completes [OF assms(1), where ml = "\<lambda>i. [st i]" and mr = "\<lambda>i. [st i]" and u = "\<lambda>_. ()"])
        (use write_buf_sends read_buf_reads st r in auto)
    then show "\<exists>st'. completes cap peer {..<n} (\<lambda>i. ?body i d (2 ^ d) (st i)) st' \<and> (\<forall>i<n. length (st' i) = 1)"
      using st by (intro exI [of _ ?st]) (auto simp: case_prod_unfold)
  qed simp
  then obtain st where "completes cap peer {..<n} (\<lambda>i. doubling (?body i) n 0 1 ([CHR ''A''])) st" by blast
  then have "completes cap peer {..<n} (\<lambda>i. pbind (doubling (?body i) n 0 1 ([CHR ''A''])) (\<lambda>_. Ret LWGRP_SUCCESS))
      (\<lambda>i. LWGRP_SUCCESS)"
    by (rule completes_bind) (rule completes_Ret)
  then show ?thesis by (rule completes_cong) (use assms in \<open>auto simp: barrier_with_def\<close>)
qed

end

interpretation plain_bytes: byte_exchange None "\<lambda>_. True" exchange
  by unfold_locales

interpretation plain_bytes_within: byte_exchange "Some b" "\<lambda>l. l \<le> b" exchange for b
  by unfold_locales

interpretation blocking_bytes: byte_exchange None "\<lambda>_. True" exchange_blocking
  by unfold_locales

interpretation blocking_bytes_within: byte_exchange "Some (Suc b)" "\<lambda>_. True" exchange_blocking for b
  by unfold_locales

text \<open>Vectors that are computed component by component.\<close>

abbreviation vec :: "nat \<Rightarrow> (nat \<Rightarrow> u64) \<Rightarrow> u64 list" where
  "vec cnt f \<equiv> map f [0..<cnt]"

lemma max_into_vec: "max_into (vec cnt f) (vec cnt g) = vec cnt (\<lambda>k. max (f k) (g k))"
  by (rule nth_equalityI) (auto simp: max_into_def max_def)

lemma add_into_vec: "add_into (vec cnt f) (vec cnt g) = vec cnt (\<lambda>k. f k + g k)"
  by (rule nth_equalityI) (auto simp: add_into_def)

lemma vec_self: "length xs = cnt \<Longrightarrow> vec cnt (\<lambda>k. xs ! k) = xs"
  by (rule nth_equalityI) auto

lemma window_finite: "finite (window n d i)" "i < n \<Longrightarrow> i \<in> window n d i"
  by (auto simp: window_def)

lemma Max_window_Suc:
  fixes f :: "nat \<Rightarrow> u64"
  assumes "i < n"
  shows "Max (f ` window n (Suc d) i) =
    (let m = (if 2 ^ d \<le> i then max (Max (f ` window n d i)) (Max (f ` window n d (i - 2 ^ d))) else Max (f ` window n d i))
     in if i + 2 ^ d < n then max m (Max (f ` window n d (i + 2 ^ d))) else m)"
proof -
  have un: "Max (f ` (A \<union> B)) = max (Max (f ` A)) (Max (f ` B))" if "finite A" "finite B" "A \<noteq> {}" "B \<noteq> {}" for A B
    using that by (simp add: image_Un Max_Un)
  have ne: "window n d j \<noteq> {}" if "j < n" for j using window_finite(2) [OF that] by auto
  show ?thesis
    using assms ne window_finite(1) by (auto simp: window_Suc un Let_def)
qed

lemma sum_lwindow_Suc:
  fixes f :: "nat \<Rightarrow> u64"
  shows "(\<Sum>j\<in>lwindow (Suc d) i. f j) =
    (if 2 ^ d \<le> i then (\<Sum>j\<in>lwindow d i. f j) + (\<Sum>j\<in>lwindow d (i - 2 ^ d). f j) else (\<Sum>j\<in>lwindow d i. f j))"
  using lwindow_Suc(2,3) by (simp add: lwindow_Suc(1) sum.union_disjoint)

lemma sum_rwindow_Suc:
  fixes f :: "nat \<Rightarrow> u64"
  shows "i < n \<Longrightarrow> (\<Sum>j\<in>rwindow n (Suc d) i. f j) =
    (if i + 2 ^ d < n then (\<Sum>j\<in>rwindow n d i. f j) + (\<Sum>j\<in>rwindow n d (i + 2 ^ d). f j) else (\<Sum>j\<in>rwindow n d i. f j))"
  using rwindow_Suc(2,3) by (simp add: rwindow_Suc(1) sum.union_disjoint)

locale u64_exchange = round_exchange cap room xchg for cap room and xchg :: "(unit, u64 list) xchg"
begin

lemma u64_round:
  assumes "linked peer n gs" "\<And>i. i < n \<Longrightarrow> length (ml i) = cnt" "\<And>i. i < n \<Longrightarrow> length (mr i) = cnt"
    and "room (8 * cnt)"
  shows "completes cap peer {..<n} (\<lambda>i. pbind (xchg (gs i) d (2 ^ d) (\<lambda>ch. write_u64s ch (ml i)) (\<lambda>ch. write_u64s ch (mr i))
      (\<lambda>ch. read_u64s ch (dl i) cnt) (\<lambda>ch. read_u64s ch (dr i) cnt) (dl i) (dr i)) (\<lambda>p. Ret (f i p)))
    (\<lambda>i. f i (if 2 ^ d \<le> i then mr (i - 2 ^ d) else dl i, if i + 2 ^ d < n then ml (i + 2 ^ d) else dr i))"
  by (rule round_completes [OF assms(1), where ml = "\<lambda>i. [mem_u64s (ml i)]" and mr = "\<lambda>i. [mem_u64s (mr i)]"
        and u = "\<lambda>_. ()"])
    (use write_u64s_sends read_u64s_reads assms(2-4) in auto)

lemma allreduce_max_completes:
  assumes L: "linked peer n gs" and v: "\<And>i. i < n \<Longrightarrow> length (v i) = cnt" and r: "room (8 * cnt)"
  shows "completes cap peer {..<n} (\<lambda>i. allreduce_max_with xchg (junk i) (v i) cnt (gs i))
    (\<lambda>i. (LWGRP_SUCCESS, vec cnt (\<lambda>k. Max ((\<lambda>j. v j ! k) ` {..<n}))))"
proof -
  let ?M = "\<lambda>d i. vec cnt (\<lambda>k. Max ((\<lambda>j. v j ! k) ` window n d i))"
  let ?f = "\<lambda>d i buf (p :: u64 list \<times> u64 list).
    (let b = (if 2 ^ d \<le> i then max_into buf (fst p) else buf)
     in (if i + 2 ^ d < n then max_into b (snd p) else b, fst p, snd p))"
  let ?body = "\<lambda>i round dist (buf, left_buf, right_buf).
         pbind (xchg (gs i) round dist (\<lambda>ch. write_u64s ch buf) (\<lambda>ch. write_u64s ch buf)
           (\<lambda>ch. read_u64s ch left_buf cnt) (\<lambda>ch. read_u64s ch right_buf cnt) left_buf right_buf)
         (\<lambda>(left_buf, right_buf).
           let buf = (if dist \<le> grp_rank (gs i) then max_into buf left_buf else buf);
               buf = (if grp_rank (gs i) + dist < grp_size (gs i) then max_into buf right_buf else buf)
           in Ret (buf, left_buf, right_buf))"
  have "\<exists>d st. n \<le> 2 ^ d \<and> (\<forall>i<n. fst (st i) = ?M d i)
      \<and> completes cap peer {..<n} (\<lambda>i. doubling (?body i) n 0 1 (v i, junk i, junk i)) st"
  proof (rule doubling_completes [where I = "\<lambda>d st. \<forall>i<n. fst (st i) = ?M d i"])
    fix d and st :: "nat \<Rightarrow> u64 list \<times> u64 list \<times> u64 list"
    assume "2 ^ d < n" and st: "\<forall>i<n. fst (st i) = ?M d i"
    let ?m = "\<lambda>i. fst (st i)" and ?l = "\<lambda>i. fst (snd (st i))" and ?r = "\<lambda>i. snd (snd (st i))"
    let ?p = "\<lambda>i. (if 2 ^ d \<le> i then ?m (i - 2 ^ d) else ?l i, if i + 2 ^ d < n then ?m (i + 2 ^ d) else ?r i)"
    have "completes cap peer {..<n} (\<lambda>i. pbind (xchg (gs i) d (2 ^ d) (\<lambda>ch. write_u64s ch (?m i)) (\<lambda>ch. write_u64s ch (?m i))
      (\<lambda>ch. read_u64s ch (?l i) cnt) (\<lambda>ch. read_u64s ch (?r i) cnt) (?l i) (?r i)) (\<lambda>p. Ret (?f d i (?m i) p)))
      (\<lambda>i. ?f d i (?m i) (?p i))"
      by (rule u64_round [OF L]) (use st r in auto)
    then have "completes cap peer {..<n} (\<lambda>i. ?body i d (2 ^ d) (st i)) (\<lambda>i. ?f d i (?m i) (?p i))"
      by (rule completes_cong) (use L in \<open>auto simp: case_prod_unfold Let_def\<close>)
    moreover have "\<forall>i<n. fst (?f d i (?m i) (?p i)) = ?M (Suc d) i"
      using st by (auto simp: Let_def max_into_vec Max_window_Suc)
    ultimately show "\<exists>st'. completes cap peer {..<n} (\<lambda>i. ?body i d (2 ^ d) (st i)) st' \<and> (\<forall>i<n. fst (st' i) = ?M (Suc d) i)"
      by blast
  qed (use v in \<open>auto simp: window_0 vec_self\<close>)
  then obtain d st where d: "n \<le> 2 ^ d" "\<forall>i<n. fst (st i) = ?M d i"
    and c: "completes cap peer {..<n} (\<lambda>i. doubling (?body i) n 0 1 (v i, junk i, junk i)) st" by blast
  have "completes cap peer {..<n} (\<lambda>i. pbind (doubling (?body i) n 0 1 (v i, junk i, junk i))
      (\<lambda>(buf, left_buf, right_buf). Ret (LWGRP_SUCCESS, buf))) (\<lambda>i. (LWGRP_SUCCESS, fst (st i)))"
    by (rule completes_bind [OF c]) (rule completes_RetI, auto simp: case_prod_unfold)
  then show ?thesis
    by (rule completes_cong) (use L d window_all in \<open>auto simp: allreduce_max_with_def\<close>)
qed

lemma scan_round:
  assumes "linked peer n gs" "\<And>i. i < n \<Longrightarrow> length (mr i) = cnt" "room (8 * cnt)"
  shows "completes cap peer {..<n} (\<lambda>i. pbind (xchg (gs i) d (2 ^ d) (\<lambda>ch. Ret ()) (\<lambda>ch. write_u64s ch (mr i))
      (\<lambda>ch. read_u64s ch (dl i) cnt) (\<lambda>ch. Ret []) (dl i) []) (\<lambda>p. Ret (f i p)))
    (\<lambda>i. f i (if 2 ^ d \<le> i then mr (i - 2 ^ d) else dl i, if i + 2 ^ d < n then [] else []))"
  by (rule round_completes [OF assms(1), where ml = "\<lambda>i. []" and mr = "\<lambda>i. [mem_u64s (mr i)]" and u = "\<lambda>_. ()"])
    (use write_u64s_sends read_u64s_reads assms(2,3) reads_Ret room_mono in auto)

lemma scan_sum_completes:
  assumes L: "linked peer n gs" and v: "\<And>i. i < n \<Longrightarrow> length (v i) = cnt" and r: "room (8 * cnt)"
  shows "completes cap peer {..<n} (\<lambda>i. scan_sum_with xchg (junk i) (v i) cnt (gs i))
    (\<lambda>i. (LWGRP_SUCCESS, vec cnt (\<lambda>k. \<Sum>j\<le>i. v j ! k)))"
proof -
  let ?M = "\<lambda>d i. vec cnt (\<lambda>k. \<Sum>j\<in>lwindow d i. v j ! k)"
  let ?f = "\<lambda>d i buf (p :: u64 list \<times> u64 list). (if 2 ^ d \<le> i then add_into buf (fst p) else buf, fst p)"
  let ?body = "\<lambda>i round dist (buf, recv_buf).
         pbind (xchg (gs i) round dist (\<lambda>ch. Ret ()) (\<lambda>ch. write_u64s ch buf)
           (\<lambda>ch. read_u64s ch recv_buf cnt) (\<lambda>ch. Ret []) recv_buf [])
         (\<lambda>(recv_buf, unused). Ret (if dist \<le> grp_rank (gs i) then add_into buf recv_buf else buf, recv_buf))"
  have "\<exists>d st. n \<le> 2 ^ d \<and> (\<forall>i<n. fst (st i) = ?M d i)
      \<and> completes cap peer {..<n} (\<lambda>i. doubling (?body i) n 0 1 (v i, junk i)) st"
  proof (rule doubling_completes [where I = "\<lambda>d st. \<forall>i<n. fst (st i) = ?M d i"])
    fix d and st :: "nat \<Rightarrow> u64 list \<times> u64 list"
    assume "2 ^ d < n" and st: "\<forall>i<n. fst (st i) = ?M d i"
    let ?m = "\<lambda>i. fst (st i)" and ?l = "\<lambda>i. snd (st i)"
    let ?p = "\<lambda>i. (if 2 ^ d \<le> i then ?m (i - 2 ^ d) else ?l i, if i + 2 ^ d < n then [] else [])"
    have "completes cap peer {..<n} (\<lambda>i. pbind (xchg (gs i) d (2 ^ d) (\<lambda>ch. Ret ()) (\<lambda>ch. write_u64s ch (?m i))
      (\<lambda>ch. read_u64s ch (?l i) cnt) (\<lambda>ch. Ret []) (?l i) []) (\<lambda>p. Ret (?f d i (?m i) p))) (\<lambda>i. ?f d i (?m i) (?p i))"
      by (rule scan_round [OF L]) (use st r in auto)
    then have "completes cap peer {..<n} (\<lambda>i. ?body i d (2 ^ d) (st i)) (\<lambda>i. ?f d i (?m i) (?p i))"
      by (rule completes_cong) (use L in \<open>auto simp: case_prod_unfold\<close>)
    moreover have "\<forall>i<n. fst (?f d i (?m i) (?p i)) = ?M (Suc d) i"
      using st by (auto simp: add_into_vec sum_lwindow_Suc)
    ultimately show "\<exists>st'. completes cap peer {..<n} (\<lambda>i. ?body i d (2 ^ d) (st i)) st' \<and> (\<forall>i<n. fst (st' i) = ?M (Suc d) i)"
      by blast
  qed (use v in \<open>auto simp: lwindow_0 vec_self\<close>)
  then obtain d st where d: "n \<le> 2 ^ d" "\<forall>i<n. fst (st i) = ?M d i"
    and c: "completes cap peer {..<n} (\<lambda>i. doubling (?body i) n 0 1 (v i, junk i)) st" by blast
  have "completes cap peer {..<n} (\<lambda>i. pbind (doubling (?body i) n 0 1 (v i, junk i))
      (\<lambda>(buf, recv_buf). Ret (LWGRP_SUCCESS, buf))) (\<lambda>i. (LWGRP_SUCCESS, fst (st i)))"
    by (rule completes_bind [OF c]) (rule completes_RetI, auto simp: case_prod_unfold)
  then show ?thesis
    by (rule completes_cong) (use L d lwindow_all in \<open>auto simp: scan_sum_with_def\<close>)
qed

lemma double_scan_completes:
  assumes L: "linked peer n gs" and v: "\<And>i. i < n \<Longrightarrow> length (v i) = cnt" and r: "room (8 * cnt)"
  shows "completes cap peer {..<n} (\<lambda>i. double_scan_with xchg (junk i) (v i) cnt (gs i))
    (\<lambda>i. (LWGRP_SUCCESS, vec cnt (\<lambda>k. \<Sum>j\<le>i. v j ! k), vec cnt (\<lambda>k. \<Sum>j=i..<n. v j ! k)))"
proof -
  let ?R = "\<lambda>d i. vec cnt (\<lambda>k. \<Sum>j\<in>rwindow n d i. v j ! k)" and ?L = "\<lambda>d i. vec cnt (\<lambda>k. \<Sum>j\<in>lwindow d i. v j ! k)"
  let ?f = "\<lambda>d i ls rs (p :: u64 list \<times> u64 list). (if i + 2 ^ d < n then add_into ls (snd p) else ls,
      if 2 ^ d \<le> i then add_into rs (fst p) else rs, fst p, snd p)"
  let ?body = "\<lambda>i round dist (left_send, right_send, left_recv, right_recv).
         pbind (xchg (gs i) round dist (\<lambda>ch. write_u64s ch left_send) (\<lambda>ch. write_u64s ch right_send)
           (\<lambda>ch. read_u64s ch left_recv cnt) (\<lambda>ch. read_u64s ch right_recv cnt) left_recv right_recv)
         (\<lambda>(left_recv, right_recv).
           Ret (if grp_rank (gs i) + dist < grp_size (gs i) then add_into left_send right_recv else left_send,
                if dist \<le> grp_rank (gs i) then add_into right_send left_recv else right_send,
                left_recv, right_recv))"
  let ?I = "\<lambda>d (st :: nat \<Rightarrow> u64 list \<times> u64 list \<times> u64 list \<times> u64 list).
    \<forall>i<n. fst (st i) = ?R d i \<and> fst (snd (st i)) = ?L d i"
  have "\<exists>d st. n \<le> 2 ^ d \<and> ?I d st
      \<and> completes cap peer {..<n} (\<lambda>i. doubling (?body i) n 0 1 (v i, v i, junk i, junk i)) st"
  proof (rule doubling_completes [where I = ?I])
    fix d and st :: "nat \<Rightarrow> u64 list \<times> u64 list \<times> u64 list \<times> u64 list"
    assume "2 ^ d < n" and st: "?I d st"
    let ?ls = "\<lambda>i. fst (st i)" and ?rs = "\<lambda>i. fst (snd (st i))"
    let ?l = "\<lambda>i. fst (snd (snd (st i)))" and ?r = "\<lambda>i. snd (snd (snd (st i)))"
    let ?p = "\<lambda>i. (if 2 ^ d \<le> i then ?rs (i - 2 ^ d) else ?l i, if i + 2 ^ d < n then ?ls (i + 2 ^ d) else ?r i)"
    have "completes cap peer {..<n} (\<lambda>i. pbind (xchg (gs i) d (2 ^ d) (\<lambda>ch. write_u64s ch (?ls i)) (\<lambda>ch. write_u64s ch (?rs i))
      (\<lambda>ch. read_u64s ch (?l i) cnt) (\<lambda>ch. read_u64s ch (?r i) cnt) (?l i) (?r i)) (\<lambda>p. Ret (?f d i (?ls i) (?rs i) p)))
      (\<lambda>i. ?f d i (?ls i) (?rs i) (?p i))"
      by (rule u64_round [OF L]) (use st r in auto)
    then have "completes cap peer {..<n} (\<lambda>i. ?body i d (2 ^ d) (st i)) (\<lambda>i. ?f d i (?ls i) (?rs i) (?p i))"
      by (rule completes_cong) (use L in \<open>auto simp: case_prod_unfold\<close>)
    moreover have "?I (Suc d) (\<lambda>i. ?f d i (?ls i) (?rs i) (?p i))"
      using st by (auto simp: add_into_vec sum_lwindow_Suc sum_rwindow_Suc)
    ultimately show "\<exists>st'. completes cap peer {..<n} (\<lambda>i. ?body i d (2 ^ d) (st i)) st' \<and> ?I (Suc d) st'"
      by blast
  qed (use v in \<open>auto simp: lwindow_0 rwindow_0 vec_self\<close>)
  then obtain d st where d: "n \<le> 2 ^ d" "?I d st"
    and c: "completes cap peer {..<n} (\<lambda>i. doubling (?body i) n 0 1 (v i, v i, junk i, junk i)) st" by blast
  have "completes cap peer {..<n} (\<lambda>i. pbind (doubling (?body i) n 0 1 (v i, v i, junk i, junk i))
      (\<lambda>(left_send, right_send, left_recv, right_recv). Ret (LWGRP_SUCCESS, right_send, left_send)))
      (\<lambda>i. (LWGRP_SUCCESS, fst (snd (st i)), fst (st i)))"
    by (rule completes_bind [OF c]) (rule completes_RetI, auto simp: case_prod_unfold)
  then show ?thesis
    by (rule completes_cong) (use L d lwindow_all rwindow_all in \<open>auto simp: double_scan_with_def\<close>)
qed

lemma allreduce_sum_completes:
  assumes L: "linked peer n gs" and v: "\<And>i. i < n \<Longrightarrow> length (v i) = cnt" and r: "room (8 * cnt)"
  shows "completes cap peer {..<n} (\<lambda>i. allreduce_sum_with xchg (junk i) (v i) cnt (gs i))
    (\<lambda>i. (LWGRP_SUCCESS, vec cnt (\<lambda>k. \<Sum>j<n. v j ! k)))"
proof -
  have total: "(\<Sum>j\<le>i. f j) + (\<Sum>j=i..<n. f j) - f i = (\<Sum>j<n. f j)" if "i < n" for f :: "nat \<Rightarrow> u64" and i
  proof -
    have "(\<Sum>j<n. f j) = (\<Sum>j\<in>{..<i} \<union> {i..<n}. f j)"
      by (rule sum.cong) (use that in auto)
    also have "\<dots> = (\<Sum>j<i. f j) + (\<Sum>j=i..<n. f j)" by (rule sum.union_disjoint) auto
    finally show ?thesis by (simp add: lessThan_Suc_atMost [symmetric])
  qed
  have sub: "map2 (-) (vec cnt f) xs = vec cnt (\<lambda>k. f k - xs ! k)" if "length xs = cnt" for f and xs :: "u64 list"
    using that by (intro nth_equalityI) auto
  show ?thesis
    unfolding allreduce_sum_with_def
    by (rule completes_bind [OF double_scan_completes [OF L v r]], assumption, rule completes_RetI)
      (use v total in \<open>auto simp: add_into_vec sub\<close>)
qed

end

interpretation plain_u64: u64_exchange None "\<lambda>_. True" exchange
  by unfold_locales

interpretation plain_u64_within: u64_exchange "Some b" "\<lambda>l. l \<le> b" exchange for b
  by unfold_locales

interpretation blocking_u64: u64_exchange None "\<lambda>_. True" exchange_blocking
  by unfold_locales

interpretation blocking_u64_within: u64_exchange "Some (Suc b)" "\<lambda>_. True" exchange_blocking for b
  by unfold_locales

end
