(* ===== verification/Lwgrp_Gather.thy ===== *)
theory Lwgrp_Gather
  imports Lwgrp_Coll
begin

text \<open>
  \<open>lwgrp_allgather_strmap\<close>: every process of a group starts with a map and ends with the union
  of all maps. Each process has its own heap; the temporary maps of a round are unpacked,
  merged and deleted after the messages of the round have been read.
\<close>

section \<open>Model\<close>

text \<open>The local part of a round: unpack what was received, merge left and then right, delete the temporaries.\<close>

definition merge_received ::
  "byte list option \<Rightarrow> byte list option \<Rightarrow> strmap option \<times> heap \<Rightarrow> (strmap option \<times> heap) option" where
  "merge_received left right s = do {
     (map_left, h) \<leftarrow> unpack_received left (Some strmap_new) (snd s);
     (map_right, h) \<leftarrow> unpack_received right (Some strmap_new) h;
     (smap, h) \<leftarrow> strmap_merge (fst s) map_left h;
     (smap, h) \<leftarrow> strmap_merge smap map_right h;
     (x, h) \<leftarrow> strmap_delete (Some map_left) h;
     (x, h) \<leftarrow> strmap_delete (Some map_right) h;
     Some (smap, h)
   }"

definition allgather_with ::
  "(unit option, byte list option) xchg \<Rightarrow> (nat \<Rightarrow> byte list) \<Rightarrow> strmap option \<times> heap \<Rightarrow> lwgrp
     \<Rightarrow> (strmap option \<times> heap) option proc" where
  "allgather_with xchg junk s grp =
     doubling (\<lambda>round dist s. case s of None \<Rightarrow> Ret None
       | Some s \<Rightarrow>
         pbind (xchg grp round dist (\<lambda>ch. spawn_net_write_strmap ch (fst s) (snd s))
           (\<lambda>ch. spawn_net_write_strmap ch (fst s) (snd s))
           (\<lambda>ch. net_read_packed ch junk) (\<lambda>ch. net_read_packed ch junk) None None)
         (\<lambda>(left, right). Ret (merge_received left right s)))
       (grp_size grp) 0 1 (Some s)"

definition lwgrp_allgather_strmap where "lwgrp_allgather_strmap = allgather_with exchange"
definition lwgrp_allgather_strmap_blocking where
  "lwgrp_allgather_strmap_blocking = allgather_with exchange_blocking"

section \<open>The local part\<close>

definition received :: "(string \<times> string option) list option \<Rightarrow> byte list option" where
  "received r = map_option packed r"

definition recv_ok :: "(string \<times> string option) list option \<Rightarrow> bool" where
  "recv_ok r \<longleftrightarrow> (case r of None \<Rightarrow> True
     | Some es \<Rightarrow> entries_ok es \<and> sendable es \<and> distinct (map fst es))"

definition entries_of :: "(string \<times> string option) list option \<Rightarrow> (string \<times> string option) list" where
  "entries_of r = (case r of None \<Rightarrow> [] | Some es \<Rightarrow> es)"

lemma unpack_new:
  assumes "recv_ok r"
  shows "\<exists>u U h'. unpack_received (received r) (Some strmap_new) h = Some (Some u, h')
    \<and> grown h Tip h' u U \<and> map_of (inord U) = map_of (entries_of r)"
proof (cases r)
  case None
  then show ?thesis
    using grown_refl [OF strmap_at_new [of h]]
    by (auto simp: unpack_received_def received_def entries_of_def intro!: exI [of _ Tip])
next
  case (Some es)
  have es: "entries_ok es" "sendable es" "distinct (map fst es)" using assms Some by (auto simp: recv_ok_def)
  show ?thesis
    using unpack_received_at [OF strmap_at_new [of h] es(1,2)] Some map_of_rev [OF es(3)]
    by (fastforce simp: runs_def inserted_def received_def entries_of_def)
qed

lemma grown_new_apart:
  assumes "strmap_at h t T" "grown h Tip h' u U"
  shows "apart h' t T u U"
proof -
  have "strmap_at h' t T"
    by (rule strmap_at_frame [OF assms(1), of Tip]) (use assms(2) in \<open>auto simp: grown_def\<close>)
  moreover have "\<forall>a\<in>set (addrs T). a < brk h" using assms(1) by (simp add: strmap_at_def)
  ultimately show ?thesis using assms(2) by (fastforce simp: apart_def grown_def)
qed

lemma apart_sym: "apart h t T u U \<Longrightarrow> apart h u U t T"
  by (auto simp: apart_def)

lemma delete_other:
  assumes "apart h t T u U"
  shows "\<exists>h'. strmap_delete (Some (Some u)) h = Some (Some NULL, h') \<and> strmap_at h' t T
    \<and> (\<forall>w W. apart h u U w W \<longrightarrow> strmap_at h' w W)"
proof -
  let ?h = "h\<lparr>cells := (\<lambda>x. if x \<in> set (addrs U) then None else cells h x)\<rparr>"
  have u: "strmap_at h u U" using assms by (simp add: apart_def)
  have same: "outside_same U h ?h" by (simp add: outside_same_def)
  have "strmap_at ?h w W" if "apart h u U w W" for w W
    using strmap_at_frame [OF _ same, of w W] that by (simp add: apart_def)
  then show ?thesis using strmap_delete_at [OF u] apart_sym [OF assms] by blast
qed

lemma merge_received_at:
  assumes t: "strmap_at h t T" and l: "recv_ok l" and r: "recv_ok r"
  shows "\<exists>t' T' h'. merge_received (received l) (received r) (Some t, h) = Some (Some t', h')
    \<and> strmap_at h' t' T' \<and> map_of (inord T') = map_of (inord T) ++ map_of (entries_of l) ++ map_of (entries_of r)"
proof -
  obtain u U h1 where 1: "unpack_received (received l) (Some strmap_new) h = Some (Some u, h1)"
    "grown h Tip h1 u U" "map_of (inord U) = map_of (entries_of l)" using unpack_new [OF l] by blast
  obtain w W h2 where 2: "unpack_received (received r) (Some strmap_new) h1 = Some (Some w, h2)"
    "grown h1 Tip h2 w W" "map_of (inord W) = map_of (entries_of r)" using unpack_new [OF r] by blast
  have a1: "apart h1 t T u U" by (rule grown_new_apart [OF t 1(2)])
  then have at1: "strmap_at h1 t T" "strmap_at h1 u U" "set (addrs T) \<inter> set (addrs U) = {}"
    by (auto simp: apart_def)
  have tw: "apart h2 t T w W" and uw: "apart h2 u U w W"
    using grown_new_apart [OF at1(1) 2(2)] grown_new_apart [OF at1(2) 2(2)] .
  have tu: "apart h2 t T u U" using tw uw at1(3) by (simp add: apart_def)
  obtain t3 T3 h3 where 3: "strmap_merge (Some t) (Some u) h2 = Some (Some t3, h3)" "grown h2 T h3 t3 T3"
    "apart h3 t3 T3 u U" "map_of (inord T3) = map_of (inord T) ++ map_of (inord U)"
    using strmap_merge_at [OF tu] by (auto simp: runs_def)
  have tw3: "apart h3 t3 T3 w W" by (rule grown_apart [OF tw 3(2)])
  obtain t4 T4 h4 where 4: "strmap_merge (Some t3) (Some w) h3 = Some (Some t4, h4)" "grown h3 T3 h4 t4 T4"
    "apart h4 t4 T4 w W" "map_of (inord T4) = map_of (inord T3) ++ map_of (inord W)"
    using strmap_merge_at [OF tw3] by (auto simp: runs_def)
  have tu4: "apart h4 t4 T4 u U" by (rule grown_apart [OF 3(3) 4(2)])
  have uw4: "apart h4 u U w W" using 4(3) tu4 uw by (simp add: apart_def)
  obtain h5 where 5: "strmap_delete (Some (Some u)) h4 = Some (Some NULL, h5)" "strmap_at h5 t4 T4" "strmap_at h5 w W"
    using delete_other [OF tu4] uw4 by blast
  have tw5: "apart h5 t4 T4 w W" using 5 4(3) by (simp add: apart_def)
  obtain h6 where 6: "strmap_delete (Some (Some w)) h5 = Some (Some NULL, h6)" "strmap_at h6 t4 T4"
    using delete_other [OF tw5] by blast
  show ?thesis
    using 1 2 3 4 5 6 by (auto simp: merge_received_def)
qed

section \<open>The union of the maps\<close>

definition union_of :: "(nat \<Rightarrow> string \<rightharpoonup> string option) \<Rightarrow> nat set \<Rightarrow> (string \<rightharpoonup> string option) \<Rightarrow> bool" where
  "union_of m A M \<longleftrightarrow> (\<forall>k v. M k = Some v \<longleftrightarrow> (\<exists>j\<in>A. m j k = Some v))"

definition consistent :: "(nat \<Rightarrow> string \<rightharpoonup> string option) \<Rightarrow> nat \<Rightarrow> bool" where
  "consistent m n \<longleftrightarrow> (\<forall>i<n. \<forall>j<n. \<forall>k v w. m i k = Some v \<longrightarrow> m j k = Some w \<longrightarrow> v = w)"

lemma union_of_Un:
  assumes "union_of m A M" "union_of m B N" "consistent m n" "A \<subseteq> {..<n}" "B \<subseteq> {..<n}"
  shows "union_of m (A \<union> B) (M ++ N)"
proof -
  have agree: "v = w" if MN: "M k = Some v" "N k = Some w" for k v w
  proof -
    obtain i j where "i \<in> A" "m i k = Some v" "j \<in> B" "m j k = Some w"
      using MN assms(1,2) unfolding union_of_def by blast
    then show ?thesis using assms(3-5) unfolding consistent_def by blast
  qed
  have "(M ++ N) k = Some v \<longleftrightarrow> M k = Some v \<or> N k = Some v" for k v
    using agree by (auto simp: map_add_def split: option.splits)
  then show ?thesis using assms(1,2) by (auto simp: union_of_def)
qed

lemma union_of_one: "union_of m {i} (m i)"
  by (simp add: union_of_def)

lemma union_of_unique: "union_of m A M \<Longrightarrow> union_of m A N \<Longrightarrow> M = N"
proof (rule ext)
  fix k assume "union_of m A M" "union_of m A N"
  then have "M k = Some v \<longleftrightarrow> N k = Some v" for v by (simp add: union_of_def)
  then show "M k = N k" by (metis option.exhaust)
qed

text \<open>The entries any process holds on the way fit in a message when all the maps together do.\<close>

lemma packed_len_sub:
  fixes n :: nat
  assumes "distinct (map fst es)" "set es \<subseteq> (\<Union>j<n. set (ents j))"
  shows "packed_len es \<le> 8 + (\<Sum>j<n. packed_len (ents j))"
proof -
  have le: "(\<Sum>e\<in>set xs. entry_len e) \<le> sum_list (map entry_len xs)" for xs
  proof (induction xs)
    case (Cons x xs)
    then show ?case by (cases "x \<in> set xs") (simp_all add: insert_absorb)
  qed simp
  have "(\<Sum>e\<in>(\<Union>j<m. set (ents j)). entry_len e) \<le> (\<Sum>j<m. packed_len (ents j))" for m :: nat
  proof (induction m)
    case (Suc m)
    let ?A = "\<Union>j<m. set (ents j)" and ?B = "set (ents m)"
    have "(\<Sum>e\<in>?A \<union> ?B. entry_len e) \<le> (\<Sum>e\<in>?A. entry_len e) + (\<Sum>e\<in>?B. entry_len e)"
      by (simp add: sum_Un_nat)
    moreover have "(\<Union>j<Suc m. set (ents j)) = ?A \<union> ?B" by (auto simp: less_Suc_eq)
    moreover have "(\<Sum>e\<in>?B. entry_len e) \<le> packed_len (ents m)"
      using le [of "ents m"] by (simp add: packed_len_def)
    ultimately show ?case using Suc by simp
  qed simp
  moreover have "sum_list (map entry_len es) = (\<Sum>e\<in>set es. entry_len e)"
    using assms(1) by (simp add: sum_list_distinct_conv_sum_set distinct_map)
  moreover have "\<dots> \<le> (\<Sum>e\<in>(\<Union>j<n. set (ents j)). entry_len e)"
    using assms(2) by (intro sum_mono2) auto
  ultimately show ?thesis by (metis add_le_cancel_left le_trans packed_len_def)
qed


section \<open>The operation\<close>

text \<open>The state of a process before round \<open>d\<close>: its map is the union of the maps in its window.\<close>

definition holds :: "(nat \<Rightarrow> string \<rightharpoonup> string option) \<Rightarrow> nat set \<Rightarrow> (strmap option \<times> heap) option \<Rightarrow> bool" where
  "holds m A s \<longleftrightarrow> (\<exists>t h T. s = Some (Some t, h) \<and> strmap_at h t T \<and> union_of m A (map_of (inord T)))"

lemma distinct_keys: "strmap_at h t T \<Longrightarrow> distinct (map fst (inord T))"
  using strict_sorted_iff by (auto simp: strmap_at_def bst_def)

lemma holds_sendable:
  assumes "holds m A s" "A \<subseteq> {..<n}" "\<And>j. j < n \<Longrightarrow> m j = map_of (ents j)"
    and "8 + (\<Sum>j<n. packed_len (ents j)) < 2 ^ 64" "\<And>j e. j < n \<Longrightarrow> e \<in> set (ents j) \<Longrightarrow> snd e \<noteq> NULL"
  shows "\<exists>t h T. s = Some (Some t, h) \<and> strmap_at h t T \<and> union_of m A (map_of (inord T))
    \<and> recv_ok (Some (inord T)) \<and> packed_len (inord T) \<le> 8 + (\<Sum>j<n. packed_len (ents j))"
proof -
  obtain t h T where s: "s = Some (Some t, h)" "strmap_at h t T" "union_of m A (map_of (inord T))"
    using assms(1) by (auto simp: holds_def)
  have d: "distinct (map fst (inord T))" by (rule distinct_keys [OF s(2)])
  have sub: "set (inord T) \<subseteq> (\<Union>j<n. set (ents j))"
  proof
    fix e assume "e \<in> set (inord T)"
    then have "map_of (inord T) (fst e) = Some (snd e)" using d by (intro map_of_is_SomeI) auto
    then obtain j where j: "j \<in> A" "m j (fst e) = Some (snd e)" using s(3) by (auto simp: union_of_def)
    then have "map_of (ents j) (fst e) = Some (snd e)" using assms(2,3) by auto
    then have "e \<in> set (ents j)" using map_of_SomeD by fastforce
    then show "e \<in> (\<Union>j<n. set (ents j))" using j(1) assms(2) by auto
  qed
  have len: "packed_len (inord T) \<le> 8 + (\<Sum>j<n. packed_len (ents j))" by (rule packed_len_sub [OF d sub])
  then have "packed_len (inord T) < 2 ^ 64" using assms(4) by linarith
  moreover have "\<forall>e\<in>set (inord T). snd e \<noteq> NULL" using sub assms(5) by blast
  ultimately have "recv_ok (Some (inord T))"
    using d s(2) by (simp add: recv_ok_def sendable_def strmap_at_def)
  then show ?thesis using s len by blast
qed

text \<open>The local part of a round takes a process from one window to the next.\<close>

lemma window_step:
  assumes st: "\<And>i. i < n \<Longrightarrow> strmap_at (h i) (t i) (T i) \<and> union_of m (window n d i) (map_of (inord (T i)))
      \<and> recv_ok (Some (inord (T i)))"
    and c: "consistent m n" and i: "i < n"
  shows "holds m (window n (Suc d) i) (merge_received
    (received (if 2 ^ d \<le> i then Some (inord (T (i - 2 ^ d))) else None))
    (received (if i + 2 ^ d < n then Some (inord (T (i + 2 ^ d))) else None)) (Some (t i), h i))"
    (is "holds _ _ (merge_received (received ?l) (received ?r) _)")
proof -
  let ?A = "if 2 ^ d \<le> i then window n d (i - 2 ^ d) else {}"
  let ?B = "if i + 2 ^ d < n then window n d (i + 2 ^ d) else {}"
  have ok: "recv_ok ?l" "recv_ok ?r" using st i by (auto simp: recv_ok_def)
  have ab: "union_of m ?A (map_of (entries_of ?l))" "union_of m ?B (map_of (entries_of ?r))"
    using st i by (auto simp: entries_of_def) (auto simp: union_of_def)
  have sub: "window n d j \<subseteq> {..<n}" for j by (auto simp: window_def)
  have "union_of m (window n d i \<union> ?A \<union> ?B)
      (map_of (inord (T i)) ++ map_of (entries_of ?l) ++ map_of (entries_of ?r))"
    using st [OF i] sub by (intro union_of_Un [OF _ _ c] ab) auto
  moreover obtain t' T' h' where "merge_received (received ?l) (received ?r) (Some (t i), h i) = Some (Some t', h')"
      "strmap_at h' t' T'"
      "map_of (inord T') = map_of (inord (T i)) ++ map_of (entries_of ?l) ++ map_of (entries_of ?r)"
    using merge_received_at [of "h i" "t i" "T i", OF _ ok] st [OF i] by blast
  ultimately show ?thesis unfolding holds_def window_Suc [OF i] by auto
qed

lemma length_map_chunks [simp]: "length (concat (map_chunks es)) = 8 + packed_len es"
  by (simp add: map_chunks_def length_packed)

locale map_exchange = round_exchange cap room xchg for cap room and xchg :: "(unit option, byte list option) xchg"
begin

lemma gather_round:
  assumes L: "linked peer n gs"
    and st: "\<And>i. i < n \<Longrightarrow> strmap_at (h i) (t i) (T i)
      \<and> recv_ok (Some (inord (T i))) \<and> packed_len (inord (T i)) < 2 ^ 64 \<and> room (8 + packed_len (inord (T i)))"
  shows "completes cap peer {..<n} (\<lambda>i. pbind (xchg (gs i) d (2 ^ d)
      (\<lambda>ch. spawn_net_write_strmap ch (Some (t i)) (h i)) (\<lambda>ch. spawn_net_write_strmap ch (Some (t i)) (h i))
      (\<lambda>ch. net_read_packed ch (junk i)) (\<lambda>ch. net_read_packed ch (junk i)) None None) (\<lambda>p. Ret (f i p)))
    (\<lambda>i. f i (if 2 ^ d \<le> i then Some (packed (inord (T (i - 2 ^ d)))) else None,
              if i + 2 ^ d < n then Some (packed (inord (T (i + 2 ^ d)))) else None))"
  by (rule round_completes [OF L, where ml = "\<lambda>i. map_chunks (inord (T i))" and mr = "\<lambda>i. map_chunks (inord (T i))"
        and u = "\<lambda>_. Some ()"])
    (use st write_strmap_sends read_packed_reads in \<open>auto simp: recv_ok_def\<close>)

abbreviation gather_body where
  "gather_body junk g \<equiv> \<lambda>round dist s. case s of None \<Rightarrow> Ret None
     | Some s \<Rightarrow> pbind (xchg g round dist (\<lambda>ch. spawn_net_write_strmap ch (fst s) (snd s))
         (\<lambda>ch. spawn_net_write_strmap ch (fst s) (snd s))
         (\<lambda>ch. net_read_packed ch junk) (\<lambda>ch. net_read_packed ch junk) None None)
       (\<lambda>(left, right). Ret (merge_received left right s))"

lemma gather_step:
  assumes L: "linked peer n gs" and c: "consistent m n"
    and st: "\<And>i. i < n \<Longrightarrow> st i = Some (Some (t i), h i) \<and> strmap_at (h i) (t i) (T i)
      \<and> union_of m (window n d i) (map_of (inord (T i))) \<and> recv_ok (Some (inord (T i)))
      \<and> packed_len (inord (T i)) < 2 ^ 64 \<and> room (8 + packed_len (inord (T i)))"
  shows "\<exists>st'. completes cap peer {..<n} (\<lambda>i. gather_body (junk i) (gs i) d (2 ^ d) (st i)) st'
    \<and> (\<forall>i<n. holds m (window n (Suc d) i) (st' i))"
proof (intro exI conjI allI impI)
  let ?f = "\<lambda>i p. merge_received (fst p) (snd p) (Some (t i), h i)"
  let ?st = "\<lambda>i. merge_received
    (received (if 2 ^ d \<le> i then Some (inord (T (i - 2 ^ d))) else None))
    (received (if i + 2 ^ d < n then Some (inord (T (i + 2 ^ d))) else None)) (Some (t i), h i)"
  show "holds m (window n (Suc d) i) (?st i)" if "i < n" for i
    by (rule window_step [OF _ c that]) (use st in blast)
  show "completes cap peer {..<n} (\<lambda>i. gather_body (junk i) (gs i) d (2 ^ d) (st i)) ?st"
    by (rule completes_cong [OF gather_round [OF L, where f = ?f and t = t and h = h and T = T and d = d]])
      (use st in \<open>auto simp: case_prod_unfold received_def\<close>)
qed

lemma allgather_completes:
  assumes L: "linked peer n gs" and c: "consistent m n"
    and init: "\<And>i. i < n \<Longrightarrow> strmap_at (h i) (t i) (T i) \<and> m i = map_of (inord (T i))"
    and fit: "8 + (\<Sum>j<n. packed_len (inord (T j))) < 2 ^ 64"
    and vals: "\<And>j e. j < n \<Longrightarrow> e \<in> set (inord (T j)) \<Longrightarrow> snd e \<noteq> NULL"
    and r: "room (16 + (\<Sum>j<n. packed_len (inord (T j))))"
  shows "\<exists>rs. completes cap peer {..<n} (\<lambda>i. allgather_with xchg (junk i) (Some (t i), h i) (gs i)) rs
    \<and> (\<forall>i<n. holds m {..<n} (rs i))"
proof -
  let ?T = T
  have "\<exists>d st. n \<le> 2 ^ d \<and> (\<forall>i<n. holds m (window n d i) (st i))
      \<and> completes cap peer {..<n} (\<lambda>i. doubling (gather_body (junk i) (gs i)) n 0 1 (Some (Some (t i), h i))) st"
  proof (rule doubling_completes [where I = "\<lambda>d st. \<forall>i<n. holds m (window n d i) (st i)"])
    fix d and st :: "nat \<Rightarrow> (strmap option \<times> heap) option"
    assume "2 ^ d < n" and I: "\<forall>i<n. holds m (window n d i) (st i)"
    have wn: "window n d j \<subseteq> {..<n}" for j by (auto simp: window_def)
    have "\<exists>t h T. st i = Some (Some t, h) \<and> strmap_at h t T
        \<and> union_of m (window n d i) (map_of (inord T)) \<and> recv_ok (Some (inord T))
        \<and> packed_len (inord T) \<le> 8 + (\<Sum>j<n. packed_len (inord (?T j)))"
      if "i < n" for i
      by (rule holds_sendable [where ents = "\<lambda>j. inord (T j)", OF _ wn _ fit]) (use I that init vals in auto)
    then obtain t' h' T' where st': "\<And>i. i < n \<Longrightarrow> st i = Some (Some (t' i), h' i) \<and> strmap_at (h' i) (t' i) (T' i)
        \<and> union_of m (window n d i) (map_of (inord (T' i))) \<and> recv_ok (Some (inord (T' i)))
        \<and> packed_len (inord (T' i)) \<le> 8 + (\<Sum>j<n. packed_len (inord (?T j)))" by metis
    have "st i = Some (Some (t' i), h' i) \<and> strmap_at (h' i) (t' i) (T' i)
        \<and> union_of m (window n d i) (map_of (inord (T' i))) \<and> recv_ok (Some (inord (T' i)))
        \<and> packed_len (inord (T' i)) < 2 ^ 64 \<and> room (8 + packed_len (inord (T' i)))" if "i < n" for i
      using st' [OF that] fit room_mono [OF r, of "8 + packed_len (inord (T' i))"] by simp
    then show "\<exists>st'. completes cap peer {..<n} (\<lambda>i. gather_body (junk i) (gs i) d (2 ^ d) (st i)) st'
        \<and> (\<forall>i<n. holds m (window n (Suc d) i) (st' i))" by (rule gather_step [OF L c])
  next
    have "\<exists>T'. strmap_at (h i) (t i) T' \<and> union_of m {i} (map_of (inord T'))" if "i < n" for i
      using init [OF that] union_of_one [of m i] by (intro exI [of _ "T i"]) auto
    then show "\<forall>i<n. holds m (window n 0 i) (Some (Some (t i), h i))"
      by (auto simp: holds_def window_0)
  qed
  then obtain d st where d: "n \<le> 2 ^ d" "\<forall>i<n. holds m (window n d i) (st i)"
    and cp: "completes cap peer {..<n} (\<lambda>i. doubling (gather_body (junk i) (gs i)) n 0 1 (Some (Some (t i), h i))) st"
    by blast
  have "completes cap peer {..<n} (\<lambda>i. allgather_with xchg (junk i) (Some (t i), h i) (gs i)) st"
    by (rule completes_cong [OF cp]) (use L in \<open>auto simp: allgather_with_def\<close>)
  moreover have "\<forall>i<n. holds m {..<n} (st i)" using d(2) window_all [OF d(1)] by simp
  ultimately show ?thesis by blast
qed

end

interpretation plain_maps: map_exchange None "\<lambda>_. True" exchange
  by unfold_locales

interpretation blocking_maps: map_exchange None "\<lambda>_. True" exchange_blocking
  by unfold_locales

interpretation plain_maps_within: map_exchange "Some b" "\<lambda>l. l \<le> b" exchange for b
  by unfold_locales

interpretation blocking_maps_within: map_exchange "Some (Suc b)" "\<lambda>_. True" exchange_blocking for b
  by unfold_locales

end
