(* ===== verification/Bitonic.thy ===== *)
theory Bitonic
  imports Prelude
begin

text \<open>
  The sorting network that the processes of a group execute together in \<open>lwgrp_sort_bitonic\<close>, as a
  function on the values of all ranks. It is a bitonic sorter for any number of ranks: the
  merge step compares at the largest power of two below the number of ranks. The theory shows
  that it sorts, for any total preorder given by a three-way comparison.
\<close>

section \<open>The network\<close>

text \<open>
  \<open>count = 1; index = 0; while (count < num) { count <<= 1; index++; }\<close>, then one step back.
\<close>

function pow_loop :: "nat \<Rightarrow> nat \<Rightarrow> nat \<Rightarrow> nat \<times> nat" where
  "pow_loop num cnt index =
     (if 0 < cnt \<and> cnt < num then pow_loop num (2 * cnt) (Suc index) else (cnt, index))"
  by auto
termination
  by (relation "measure (\<lambda>(num, cnt, index). num - cnt)") auto

declare pow_loop.simps [simp del]

definition pow_below :: "nat \<Rightarrow> nat \<times> nat" where
  "pow_below num = (let (cnt, index) = pow_loop num 1 0 in (cnt div 2, index - 1))"

lemma pow_loop_spec:
  "pow_loop num (2 ^ d) d = (2 ^ e, e) \<Longrightarrow> d \<le> e"
  "\<exists>e. pow_loop num (2 ^ d) d = (2 ^ e, e) \<and> num \<le> 2 ^ e \<and> d \<le> e \<and> (d < e \<longrightarrow> 2 ^ (e - 1) < num)"
proof -
  show spec: "\<exists>e. pow_loop num (2 ^ d) d = (2 ^ e, e) \<and> num \<le> 2 ^ e \<and> d \<le> e \<and> (d < e \<longrightarrow> 2 ^ (e - 1) < num)" for d
  proof (induction "num - 2 ^ d" arbitrary: d rule: less_induct)
    case less
    show ?case
    proof (cases "2 ^ d < num")
      case True
      have "num - 2 ^ Suc d < num - 2 ^ d" using True by (intro diff_less_mono2) auto
      from less [OF this] obtain e where e: "pow_loop num (2 ^ Suc d) (Suc d) = (2 ^ e, e)" "num \<le> 2 ^ e" "Suc d \<le> e"
          "Suc d < e \<longrightarrow> 2 ^ (e - 1) < num" by blast
      have "pow_loop num (2 ^ d) d = (2 ^ e, e)" using e(1) True by (subst pow_loop.simps) simp
      moreover have "2 ^ (e - 1) < num"
        using e(3,4) True by (cases "Suc d = e") auto
      ultimately show ?thesis using e by auto
    next
      case False
      then have "pow_loop num (2 ^ d) d = (2 ^ d, d)" by (subst pow_loop.simps) simp
      then show ?thesis using False by auto
    qed
  qed
  show "pow_loop num (2 ^ d) d = (2 ^ e, e) \<Longrightarrow> d \<le> e" using spec [of d] by auto
qed

lemma pow_below_spec:
  assumes "1 < num"
  obtains e where "pow_below num = (2 ^ e, e)" "2 ^ e < num" "num \<le> 2 * 2 ^ e"
proof -
  obtain e where e: "pow_loop num 1 0 = (2 ^ e, e)" "num \<le> 2 ^ e" "0 < e \<longrightarrow> 2 ^ (e - 1) < num"
    using pow_loop_spec(2) [of num 0] by auto
  have "0 < e" using e(2) assms by (cases e) auto
  then obtain f where "e = Suc f" by (cases e) auto
  then show ?thesis using that [of f] e by (simp add: pow_below_def)
qed

lemma pow_below_less [simp]: "Suc 0 < num \<Longrightarrow> fst (pow_below num) < num" "Suc 0 < num \<Longrightarrow> 0 < fst (pow_below num)"
  using pow_below_spec [of num] by (metis One_nat_def fst_conv, metis One_nat_def fst_conv zero_less_numeral zero_less_power)

text \<open>
  What the two partners keep, as the code decides it: the partner in the lower half takes the
  other value when it is smaller (in ascending direction), the one in the upper half when it
  is greater. \<open>compare\<close> is the three-way comparison.
\<close>

definition low_pick :: "('v \<Rightarrow> 'v \<Rightarrow> int) \<Rightarrow> bool \<Rightarrow> 'v \<Rightarrow> 'v \<Rightarrow> 'v" where
  "low_pick compare direction value scratch =
     (let cmp = compare scratch value in
      if (direction \<and> cmp < 0) \<or> (\<not> direction \<and> cmp > 0) then scratch else value)"

definition high_pick :: "('v \<Rightarrow> 'v \<Rightarrow> int) \<Rightarrow> bool \<Rightarrow> 'v \<Rightarrow> 'v \<Rightarrow> 'v" where
  "high_pick compare direction value scratch =
     (let cmp = compare scratch value in
      if (direction \<and> cmp > 0) \<or> (\<not> direction \<and> cmp < 0) then scratch else value)"

definition half_clean :: "('v \<Rightarrow> 'v \<Rightarrow> int) \<Rightarrow> nat \<Rightarrow> nat \<Rightarrow> nat \<Rightarrow> bool \<Rightarrow> (nat \<Rightarrow> 'v) \<Rightarrow> nat \<Rightarrow> 'v" where
  "half_clean compare start num cnt direction v i =
     (if start \<le> i \<and> i < start + cnt \<and> i + cnt < start + num then low_pick compare direction (v i) (v (i + cnt))
      else if start + cnt \<le> i \<and> i < start + num then high_pick compare direction (v i) (v (i - cnt))
      else v i)"

function net_merge :: "('v \<Rightarrow> 'v \<Rightarrow> int) \<Rightarrow> nat \<Rightarrow> nat \<Rightarrow> bool \<Rightarrow> (nat \<Rightarrow> 'v) \<Rightarrow> nat \<Rightarrow> 'v" where
  "net_merge compare start num direction v =
     (if Suc 0 < num then
        let cnt = fst (pow_below num); w = half_clean compare start num cnt direction v
        in (\<lambda>i. if i < start + cnt then net_merge compare start cnt direction w i
                else net_merge compare (start + cnt) (num - cnt) direction w i)
      else v)"
  by auto
termination
  by (relation "measure (\<lambda>(compare, start, num, direction, v). num)") auto

declare net_merge.simps [simp del]

function net_sort :: "('v \<Rightarrow> 'v \<Rightarrow> int) \<Rightarrow> nat \<Rightarrow> nat \<Rightarrow> bool \<Rightarrow> (nat \<Rightarrow> 'v) \<Rightarrow> nat \<Rightarrow> 'v" where
  "net_sort compare start num direction v =
     (if Suc 0 < num then
        let mid = num div 2
        in net_merge compare start num direction
             (\<lambda>i. if i < start + mid then net_sort compare start mid (\<not> direction) v i
                  else net_sort compare (start + mid) (num - mid) direction v i)
      else v)"
  by auto
termination
  by (relation "measure (\<lambda>(compare, start, num, direction, v). num)") auto

declare net_sort.simps [simp del]

section \<open>Comparisons\<close>

definition total_preorder :: "('v \<Rightarrow> 'v \<Rightarrow> int) \<Rightarrow> bool" where
  "total_preorder c \<longleftrightarrow> (\<forall>x y. (c x y < 0 \<longleftrightarrow> c y x > 0) \<and> (c x y = 0 \<longleftrightarrow> c y x = 0))
     \<and> (\<forall>x y z. c x y \<le> 0 \<longrightarrow> c y z \<le> 0 \<longrightarrow> c x z \<le> 0)"

lemma total_preorder_rev: "total_preorder c \<Longrightarrow> total_preorder (\<lambda>x y. c y x)"
  unfolding total_preorder_def by (metis)

lemma preorder_swap: "total_preorder c \<Longrightarrow> c x y \<le> 0 \<longleftrightarrow> 0 \<le> c y x"
  unfolding total_preorder_def by (metis not_less)

lemma pick_rev:
  "low_pick c (\<not> d) x y = low_pick (\<lambda>x y. - c x y) d x y"
  "high_pick c (\<not> d) x y = high_pick (\<lambda>x y. - c x y) d x y"
  by (auto simp: low_pick_def high_pick_def Let_def)

lemma net_merge_rev: "net_merge c start num (\<not> d) v = net_merge (\<lambda>x y. - c x y) start num d v"
proof (induction c start num "\<not> d" v rule: net_merge.induct)
  case (1 c start num v)
  have hc: "half_clean c start num cnt (\<not> d) v = half_clean (\<lambda>x y. - c x y) start num cnt d v" for cnt
    by (rule ext) (simp add: half_clean_def pick_rev)
  show ?case
    by (subst (1 2) net_merge.simps) (use 1 hc in \<open>simp add: Let_def cong: if_cong\<close>)
qed

lemma net_sort_rev: "net_sort c start num (\<not> d) v = net_sort (\<lambda>x y. - c x y) start num d v"
proof (induction num arbitrary: start d v rule: less_induct)
  case (less num)
  show ?case
  proof (cases "Suc 0 < num")
    case True
    then have lt: "num div 2 < num" "num - num div 2 < num" by auto
    show ?thesis
      using less [OF lt(1), of start "\<not> d" v] less [OF lt(2), of "start + num div 2" d v] True
      by (simp add: net_sort.simps [of c start num "\<not> d"] net_sort.simps [of "\<lambda>x y. - c x y" start num d]
          Let_def net_merge_rev cong: if_cong)
  next
    case False
    then show ?thesis
      by (simp add: net_sort.simps [of c start num "\<not> d"] net_sort.simps [of "\<lambda>x y. - c x y" start num d])
  qed
qed


section \<open>Rearrangement\<close>

text \<open>On the ranks of \<open>S\<close>, \<open>w\<close> holds the values of \<open>v\<close> in another order.\<close>

definition rearranged :: "nat set \<Rightarrow> (nat \<Rightarrow> 'v) \<Rightarrow> (nat \<Rightarrow> 'v) \<Rightarrow> bool" where
  "rearranged S v w \<longleftrightarrow> (\<exists>p. bij_betw p S S \<and> (\<forall>i\<in>S. w i = v (p i)))"

lemma rearranged_refl: "(\<And>i. i \<in> S \<Longrightarrow> w i = v i) \<Longrightarrow> rearranged S v w"
  unfolding rearranged_def by (rule exI [of _ id]) simp

lemma rearranged_trans:
  assumes "rearranged S u v" "rearranged S v w"
  shows "rearranged S u w"
proof -
  obtain p q where p: "bij_betw p S S" "\<forall>i\<in>S. v i = u (p i)" and q: "bij_betw q S S" "\<forall>i\<in>S. w i = v (q i)"
    using assms by (auto simp: rearranged_def)
  have "bij_betw (p \<circ> q) S S" using p q by (simp add: bij_betw_trans)
  moreover have "\<forall>i\<in>S. w i = u ((p \<circ> q) i)" using p q by (auto simp: bij_betw_def)
  ultimately show ?thesis by (auto simp: rearranged_def)
qed

lemma rearranged_Un:
  assumes "rearranged S v w" "rearranged T v w" "S \<inter> T = {}"
  shows "rearranged (S \<union> T) v w"
proof -
  obtain p q where p: "bij_betw p S S" "\<forall>i\<in>S. w i = v (p i)" and q: "bij_betw q T T" "\<forall>i\<in>T. w i = v (q i)"
    using assms by (auto simp: rearranged_def)
  let ?r = "\<lambda>i. if i \<in> S then p i else q i"
  have "bij_betw ?r (S \<union> T) (S \<union> T)"
  proof (rule bij_betw_combine)
    show "bij_betw ?r S S" using p(1) bij_betw_cong [of S p ?r S] by simp
    have "\<And>i. i \<in> T \<Longrightarrow> q i = ?r i" using assms(3) by auto
    then show "bij_betw ?r T T" using q(1) bij_betw_cong [of T q ?r T] by simp
  qed (use assms(3) in auto)
  moreover have "\<forall>i\<in>S \<union> T. w i = v (?r i)" using p q by auto
  ultimately show ?thesis by (auto simp: rearranged_def)
qed

lemma rearranged_cong: "rearranged S v w \<Longrightarrow> (\<And>i. i \<in> S \<Longrightarrow> w' i = w i) \<Longrightarrow> rearranged S v w'"
  by (simp add: rearranged_def)

lemma rearranged_from: "rearranged S v w \<Longrightarrow> i \<in> S \<Longrightarrow> \<exists>j\<in>S. w i = v j"
  by (auto simp: rearranged_def bij_betw_def)

lemma half_clean_rearranged:
  assumes "total_preorder c" "k < num" "num \<le> 2 * k"
  shows "rearranged {start..<start + num} v (half_clean c start num k d v)"
proof -
  let ?S = "{start..<start + num}"
  let ?sw = "\<lambda>i. (d \<and> c (v (i + k)) (v i) < 0) \<or> (\<not> d \<and> c (v (i + k)) (v i) > 0)"
  let ?p = "\<lambda>i. if start \<le> i \<and> i < start + k \<and> i + k < start + num \<and> ?sw i then i + k
     else if start + k \<le> i \<and> i < start + num \<and> ?sw (i - k) then i - k else i"
  have inv: "?p (?p i) = i" if "i \<in> ?S" for i using that assms(2,3) by auto
  have into: "?p i \<in> ?S" if "i \<in> ?S" for i using that assms(2,3) by auto
  have "bij_betw ?p ?S ?S"
    by (rule bij_betw_byWitness [where f' = ?p]) (use inv into in blast)+
  moreover have "half_clean c start num k d v i = v (?p i)" if "i \<in> ?S" for i
  proof -
    have neg: "c x y < 0 \<longleftrightarrow> c y x > 0" for x y using assms(1) by (auto simp: total_preorder_def)
    show ?thesis
      using that assms(2,3) neg [of "v i" "v (i - k)"] neg [of "v (i - k)" "v i"]
      by (auto simp: half_clean_def low_pick_def high_pick_def Let_def)
  qed
  ultimately show ?thesis unfolding rearranged_def by blast
qed

lemma net_merge_rearranged:
  assumes "total_preorder c"
  shows "rearranged {start..<start + num} v (net_merge c start num d v)"
proof (induction num arbitrary: start v rule: less_induct)
  case (less num)
  show ?case
  proof (cases "Suc 0 < num")
    case True
    obtain e where e: "pow_below num = (2 ^ e, e)" "2 ^ e < num" "num \<le> 2 * 2 ^ e"
      using pow_below_spec [of num] True by auto
    define k where "k = (2 :: nat) ^ e"
    have k: "k < num" "num \<le> 2 * k" "0 < k" using e by (auto simp: k_def)
    let ?w = "half_clean c start num k d v"
    let ?m = "\<lambda>i. if i < start + k then net_merge c start k d ?w i else net_merge c (start + k) (num - k) d ?w i"
    have "rearranged {start..<start + k} ?w (net_merge c start k d ?w)" by (rule less [OF k(1)])
    then have "rearranged {start..<start + k} ?w ?m" by (rule rearranged_cong) simp
    moreover have "rearranged {start + k..<start + k + (num - k)} ?w (net_merge c (start + k) (num - k) d ?w)"
      by (rule less) (use k True in simp)
    then have "rearranged {start + k..<start + k + (num - k)} ?w ?m" by (rule rearranged_cong) simp
    moreover have "{start..<start + k} \<union> {start + k..<start + k + (num - k)} = {start..<start + num}"
      using k(1) by auto
    ultimately have "rearranged {start..<start + num} ?w ?m"
      using rearranged_Un [of "{start..<start + k}" ?w ?m "{start + k..<start + k + (num - k)}"] by auto
    then have "rearranged {start..<start + num} v ?m"
      by (rule rearranged_trans [OF half_clean_rearranged [OF assms k(1,2)]])
    then show ?thesis
      using True e(1) by (simp add: net_merge.simps [of c start num d v] Let_def k_def cong: if_cong)
  next
    case False
    then show ?thesis by (subst net_merge.simps) (simp add: rearranged_refl)
  qed
qed

lemma net_sort_rearranged:
  assumes "total_preorder c"
  shows "rearranged {start..<start + num} v (net_sort c start num d v)"
proof (induction num arbitrary: start d v rule: less_induct)
  case (less num)
  show ?case
  proof (cases "Suc 0 < num")
    case True
    let ?k = "num div 2"
    let ?m = "\<lambda>i. if i < start + ?k then net_sort c start ?k (\<not> d) v i else net_sort c (start + ?k) (num - ?k) d v i"
    have "rearranged {start..<start + ?k} v (net_sort c start ?k (\<not> d) v)" by (rule less) (use True in simp)
    then have "rearranged {start..<start + ?k} v ?m" by (rule rearranged_cong) simp
    moreover have "rearranged {start + ?k..<start + ?k + (num - ?k)} v (net_sort c (start + ?k) (num - ?k) d v)"
      by (rule less) (use True in simp)
    then have "rearranged {start + ?k..<start + ?k + (num - ?k)} v ?m" by (rule rearranged_cong) simp
    moreover have "{start..<start + ?k} \<union> {start + ?k..<start + ?k + (num - ?k)} = {start..<start + num}" by auto
    ultimately have "rearranged {start..<start + num} v ?m"
      using rearranged_Un [of "{start..<start + ?k}" v ?m "{start + ?k..<start + ?k + (num - ?k)}"] by auto
    then show ?thesis
      using True rearranged_trans [OF _ net_merge_rearranged [OF assms]]
      by (simp add: net_sort.simps [of c start num d v] Let_def)
  next
    case False
    then show ?thesis by (subst net_sort.simps) (simp add: rearranged_refl)
  qed
qed


section \<open>Thresholds\<close>

text \<open>
  A set of values that is closed upwards cuts the ranks into those below and those above the
  threshold. It is enough to follow this cut through the network.
\<close>

definition upward :: "('v \<Rightarrow> 'v \<Rightarrow> int) \<Rightarrow> ('v \<Rightarrow> bool) \<Rightarrow> bool" where
  "upward c P \<longleftrightarrow> (\<forall>x y. P x \<longrightarrow> c x y \<le> 0 \<longrightarrow> P y)"

definition clean :: "nat \<Rightarrow> nat \<Rightarrow> nat \<Rightarrow> (nat \<Rightarrow> bool) \<Rightarrow> nat \<Rightarrow> bool" where
  "clean start num k b i =
     (if start \<le> i \<and> i < start + k \<and> i + k < start + num then b i \<and> b (i + k)
      else if start + k \<le> i \<and> i < start + num then b i \<or> b (i - k)
      else b i)"

lemma pick_threshold:
  assumes "total_preorder c" "upward c P"
  shows "P (low_pick c True x y) \<longleftrightarrow> P x \<and> P y" "P (high_pick c True x y) \<longleftrightarrow> P x \<or> P y"
proof -
  have "c x y \<le> 0 \<or> c y x \<le> 0" "c y x < 0 \<Longrightarrow> c y x \<le> 0" "c y x > 0 \<Longrightarrow> c x y \<le> 0" "\<not> c y x < 0 \<Longrightarrow> c x y \<le> 0"
    "\<not> c y x > 0 \<Longrightarrow> c y x \<le> 0"
    using preorder_swap [OF assms(1), of x y] by auto
  then show "P (low_pick c True x y) \<longleftrightarrow> P x \<and> P y" "P (high_pick c True x y) \<longleftrightarrow> P x \<or> P y"
    using assms(2) unfolding upward_def low_pick_def high_pick_def Let_def by auto
qed

lemma half_clean_threshold:
  "total_preorder c \<Longrightarrow> upward c P \<Longrightarrow>
     P (half_clean c start num k True v i) = clean start num k (\<lambda>i. P (v i)) i"
  by (simp add: half_clean_def clean_def pick_threshold)

text \<open>The ranks below the threshold are consecutive; so are they, or those above it.\<close>

definition valley :: "nat \<Rightarrow> nat \<Rightarrow> (nat \<Rightarrow> bool) \<Rightarrow> bool" where
  "valley start num b \<longleftrightarrow>
     (\<forall>i j l. start \<le> i \<longrightarrow> i < j \<longrightarrow> j < l \<longrightarrow> l < start + num \<longrightarrow> \<not> b i \<longrightarrow> \<not> b l \<longrightarrow> \<not> b j)"

definition bitonic :: "nat \<Rightarrow> nat \<Rightarrow> (nat \<Rightarrow> bool) \<Rightarrow> bool" where
  "bitonic start num b \<longleftrightarrow> valley start num b \<or> valley start num (\<lambda>i. \<not> b i)"

definition stepped :: "nat \<Rightarrow> nat \<Rightarrow> (nat \<Rightarrow> bool) \<Rightarrow> bool" where
  "stepped start num b \<longleftrightarrow> (\<forall>i j. start \<le> i \<longrightarrow> i < j \<longrightarrow> j < start + num \<longrightarrow> b i \<longrightarrow> b j)"

lemma valleyD:
  "valley start num b \<Longrightarrow> start \<le> i \<Longrightarrow> i \<le> j \<Longrightarrow> j \<le> l \<Longrightarrow> l < start + num \<Longrightarrow> \<not> b i \<Longrightarrow> \<not> b l \<Longrightarrow> \<not> b j"
  unfolding valley_def by (metis le_neq_implies_less)

lemma valleyI:
  "(\<And>i j l. start \<le> i \<Longrightarrow> i < j \<Longrightarrow> j < l \<Longrightarrow> l < start + num \<Longrightarrow> \<not> b i \<Longrightarrow> \<not> b l \<Longrightarrow> \<not> b j) \<Longrightarrow> valley start num b"
  by (auto simp: valley_def)

lemma clean_low:
  "start \<le> i \<Longrightarrow> i < start + k \<Longrightarrow> clean start num k b i \<longleftrightarrow> b i \<and> (i + k < start + num \<longrightarrow> b (i + k))"
  by (auto simp: clean_def)

lemma clean_high:
  "start + k \<le> i \<Longrightarrow> i < start + num \<Longrightarrow> clean start num k b i \<longleftrightarrow> b i \<or> b (i - k)"
  by (auto simp: clean_def)

text \<open>One step of the merge, when those below the threshold are consecutive.\<close>

lemma clean_valley_high:
  assumes "valley start num b" "k < num" "num \<le> 2 * k"
  shows "valley (start + k) (num - k) (clean start num k b)"
proof (rule valleyI)
  fix i j l assume r: "start + k \<le> i" "i < j" "j < l" "l < start + k + (num - k)"
    and z: "\<not> clean start num k b i" "\<not> clean start num k b l"
  have "\<not> b i" "\<not> b (i - k)" "\<not> b l" "\<not> b (l - k)" using z r by (auto simp: clean_high)
  then have "\<not> b j" "\<not> b (j - k)"
    using r valleyD [OF assms(1), of i j l] valleyD [OF assms(1), of "i - k" "j - k" "l - k"] by auto
  then show "\<not> clean start num k b j" using r by (simp add: clean_high)
qed

lemma clean_valley_order:
  assumes "valley start num b" "k < num" "num \<le> 2 * k"
    and "start \<le> i" "i < start + k" "start + k \<le> j" "j < start + num" "clean start num k b i"
  shows "clean start num k b j"
proof (rule ccontr)
  assume "\<not> clean start num k b j"
  then have z: "\<not> b j" "\<not> b (j - k)" using assms(6,7) by (auto simp: clean_high)
  show False
  proof (cases "j - k \<le> i")
    case True
    then have "\<not> b i" using valleyD [OF assms(1), of "j - k" i j] z assms by auto
    then show False using assms(4,5,8) by (simp add: clean_low)
  next
    case False
    then have lt: "i + k < j" using assms(6) by simp
    have "\<not> b (i + k)"
      by (rule valleyD [OF assms(1), of "j - k" "i + k" j]) (use z lt assms in auto)
    moreover have "i + k < start + num" using lt assms(7) by simp
    ultimately show False using assms(4,5,8) by (simp add: clean_low)
  qed
qed

lemma clean_valley_low:
  assumes v: "valley start num b" and k: "k < num" "num \<le> 2 * k"
  shows "bitonic start k (clean start num k b)"
proof (cases "(\<exists>a. start \<le> a \<and> a < start + k \<and> \<not> b a) \<and> (\<exists>c. start + k \<le> c \<and> c < start + num \<and> \<not> b c)")
  case True
  then obtain a c where a: "start \<le> a" "a < start + k" "\<not> b a" and c: "start + k \<le> c" "c < start + num" "\<not> b c"
    by blast
  have "valley start k (\<lambda>i. \<not> clean start num k b i)"
  proof (rule valleyI)
    fix i j l assume r: "start \<le> i" "i < j" "j < l" "l < start + k"
      and o: "\<not> \<not> clean start num k b i" "\<not> \<not> clean start num k b l"
    have oi: "b i" "i + k < start + num \<longrightarrow> b (i + k)" and ol: "b l" using o r by (auto simp: clean_low)
    have "b j"
    proof (rule ccontr)
      assume "\<not> b j"
      then have "\<not> b l" using valleyD [OF v, of j l c] r c by auto
      then show False using ol by simp
    qed
    moreover have "b (j + k)" if "j + k < start + num"
    proof (rule ccontr)
      assume "\<not> b (j + k)"
      then have "\<not> b (i + k)" using valleyD [OF v, of a "i + k" "j + k"] r a that by auto
      then show False using oi(2) r that by auto
    qed
    ultimately show "\<not> \<not> clean start num k b j" using r by (simp add: clean_low)
  qed
  then show ?thesis by (simp add: bitonic_def)
next
  case False
  have "valley start k (clean start num k b)"
  proof (rule valleyI)
    fix i j l assume r: "start \<le> i" "i < j" "j < l" "l < start + k"
      and z: "\<not> clean start num k b i" "\<not> clean start num k b l"
    have zi: "\<not> b i \<or> (i + k < start + num \<and> \<not> b (i + k))" and zl: "\<not> b l \<or> (l + k < start + num \<and> \<not> b (l + k))"
      using z r by (auto simp: clean_low)
    show "\<not> clean start num k b j"
    proof (cases "\<not> b i")
      case True
      then have "\<not> b l" using False zl r by auto
      then have "\<not> b j" using valleyD [OF v, of i j l] True r k by auto
      then show ?thesis using r by (simp add: clean_low)
    next
      case bi: False
      then have "\<not> b (i + k)" "l + k < start + num \<and> \<not> b (l + k)" using False zi zl r by auto
      then have "\<not> b (j + k)" "j + k < start + num" using valleyD [OF v, of "i + k" "j + k" "l + k"] r by auto
      then show ?thesis using r by (simp add: clean_low)
    qed
  qed
  then show ?thesis by (simp add: bitonic_def)
qed

text \<open>
  With a power of two of ranks both halves of a step are complete, and negation maps the low half to the
  high one: the same holds when those above the threshold are consecutive.
\<close>

lemma clean_dual:
  "start \<le> i \<Longrightarrow> i < start + k \<Longrightarrow> clean start (2 * k) k (\<lambda>i. \<not> b i) i \<longleftrightarrow> \<not> clean start (2 * k) k b (i + k)"
  "start \<le> i \<Longrightarrow> i < start + k \<Longrightarrow> clean start (2 * k) k (\<lambda>i. \<not> b i) (i + k) \<longleftrightarrow> \<not> clean start (2 * k) k b i"
  by (auto simp: clean_def)

lemma valley_shift:
  assumes "valley (start + k) num b" "\<And>i. start \<le> i \<Longrightarrow> i < start + num \<Longrightarrow> b' i = b (i + k)"
  shows "valley start num b'"
proof (rule valleyI)
  fix i j l assume "start \<le> i" "i < j" "j < l" "l < start + num" "\<not> b' i" "\<not> b' l"
  then show "\<not> b' j" using valleyD [OF assms(1), of "i + k" "j + k" "l + k"] assms(2) by auto
qed

lemma valley_unshift:
  assumes "valley start num b" "\<And>i. start \<le> i \<Longrightarrow> i < start + num \<Longrightarrow> b' (i + k) = b i"
  shows "valley (start + k) num b'"
proof (rule valleyI)
  fix i j l assume "start + k \<le> i" "i < j" "j < l" "l < start + k + num" "\<not> b' i" "\<not> b' l"
  then show "\<not> b' j"
    using valleyD [OF assms(1), of "i - k" "j - k" "l - k"] assms(2) [of "i - k"] assms(2) [of "j - k"] assms(2) [of "l - k"]
    by auto
qed

lemma clean_bitonic:
  assumes "bitonic start (2 * k) b" "0 < k"
  shows "bitonic start k (clean start (2 * k) k b)" "bitonic (start + k) k (clean start (2 * k) k b)"
    "start \<le> i \<Longrightarrow> i < start + k \<Longrightarrow> start + k \<le> j \<Longrightarrow> j < start + 2 * k \<Longrightarrow> clean start (2 * k) k b i \<Longrightarrow> clean start (2 * k) k b j"
proof -
  have k: "k < 2 * k" "2 * k \<le> 2 * k" using assms(2) by auto
  let ?c = "clean start (2 * k) k b" and ?n = "clean start (2 * k) k (\<lambda>i. \<not> b i)"
  have "bitonic start k ?c \<and> bitonic (start + k) k ?c
    \<and> (start \<le> i \<longrightarrow> i < start + k \<longrightarrow> start + k \<le> j \<longrightarrow> j < start + 2 * k \<longrightarrow> ?c i \<longrightarrow> ?c j)"
  proof (cases "valley start (2 * k) b")
    case True
    show ?thesis
      using clean_valley_low [OF True k] clean_valley_high [OF True k] clean_valley_order [OF True k, of i j]
      by (auto simp: bitonic_def)
  next
    case False
    then have n: "valley start (2 * k) (\<lambda>i. \<not> b i)" using assms(1) by (simp add: bitonic_def)
    have "valley (start + k) k ?n" using clean_valley_high [OF n k] by simp
    then have low: "valley start k (\<lambda>i. \<not> ?c i)" by (rule valley_shift) (simp add: clean_dual)
    have "bitonic start k ?n" using clean_valley_low [OF n k] .
    moreover have "valley (start + k) k (\<lambda>i. \<not> ?c i)" if "valley start k ?n"
      by (rule valley_unshift [OF that]) (auto simp: clean_dual)
    moreover have "valley (start + k) k ?c" if "valley start k (\<lambda>i. \<not> ?n i)"
      by (rule valley_unshift [OF that]) (auto simp: clean_dual)
    moreover have "?c i \<longrightarrow> ?c j" if ij: "start \<le> i" "i < start + k" "start + k \<le> j" "j < start + 2 * k"
    proof -
      define j' where "j' = j - k"
      have j': "j = j' + k" "start \<le> j'" "j' < start + k" using ij by (auto simp: j'_def)
      show ?thesis
        using clean_valley_order [OF n k, of j' "i + k"] ij(1,2) j' clean_dual(2) [OF ij(1,2), of b] clean_dual(1) [OF j'(2,3), of b]
        by auto
    qed
    ultimately show ?thesis using low by (auto simp: bitonic_def)
  qed
  then show "bitonic start k ?c" "bitonic (start + k) k ?c"
    "start \<le> i \<Longrightarrow> i < start + k \<Longrightarrow> start + k \<le> j \<Longrightarrow> j < start + 2 * k \<Longrightarrow> ?c i \<Longrightarrow> ?c j" by auto
qed

section \<open>The network sorts\<close>

lemma net_merge_join:
  assumes c: "total_preorder c" and n: "Suc 0 < num" "pow_below num = (k, e)" "k < num"
    and w: "w = half_clean c start num k True v"
    and lo: "stepped start k (\<lambda>i. P (net_merge c start k True w i))"
    and hi: "stepped (start + k) (num - k) (\<lambda>i. P (net_merge c (start + k) (num - k) True w i))"
    and ord: "\<And>i j. start \<le> i \<Longrightarrow> i < start + k \<Longrightarrow> start + k \<le> j \<Longrightarrow> j < start + num \<Longrightarrow> P (w i) \<Longrightarrow> P (w j)"
  shows "stepped start num (\<lambda>i. P (net_merge c start num True v i))"
proof -
  let ?l = "net_merge c start k True w" and ?h = "net_merge c (start + k) (num - k) True w"
  have m: "net_merge c start num True v = (\<lambda>i. if i < start + k then ?l i else ?h i)"
    using n w by (simp add: net_merge.simps [of c start num True v] Let_def cong: if_cong)
  have cross: "P (?h j)" if "start \<le> i" "i < start + k" "start + k \<le> j" "j < start + num" "P (?l i)" for i j
  proof -
    have "\<exists>i'\<in>{start..<start + k}. ?l i = w i'"
      by (rule rearranged_from [OF net_merge_rearranged [OF c]]) (use that in simp)
    moreover have "\<exists>j'\<in>{start + k..<start + k + (num - k)}. ?h j = w j'"
      by (rule rearranged_from [OF net_merge_rearranged [OF c]]) (use that in simp)
    ultimately obtain i' j' where "i' \<in> {start..<start + k}" "?l i = w i'"
      "j' \<in> {start + k..<start + k + (num - k)}" "?h j = w j'" by blast
    then show ?thesis using ord [of i' j'] that(5) n(3) by auto
  qed
  show ?thesis
    unfolding stepped_def
  proof (intro allI impI)
    fix i j assume r: "start \<le> i" "i < j" "j < start + num" and p: "P (net_merge c start num True v i)"
    consider "j < start + k" | "i < start + k" "start + k \<le> j" | "start + k \<le> i" by linarith
    then show "P (net_merge c start num True v j)"
    proof cases
      case 1
      then show ?thesis using lo r p by (simp add: m stepped_def)
    next
      case 2
      then show ?thesis using cross [of i j] r p by (simp add: m)
    next
      case 3
      then have "P (?h i)" "start + k + (num - k) = start + num" using p r n(3) by (simp_all add: m)
      then have "P (?h j)" using hi r 3 unfolding stepped_def by (metis)
      then show ?thesis using 3 r by (simp add: m)
    qed
  qed
qed

lemma pow_below_power [simp]: "pow_below (2 * 2 ^ m) = (2 ^ m, m)"
proof -
  have "1 < 2 * (2 :: nat) ^ m" using one_le_power [of "2 :: nat" m] by linarith
  then obtain e where e: "pow_below (2 * 2 ^ m) = (2 ^ e, e)" "2 ^ e < 2 * (2 :: nat) ^ m" "2 * (2 :: nat) ^ m \<le> 2 * 2 ^ e"
    using pow_below_spec by metis
  have "(2 :: nat) ^ e < 2 ^ Suc m" "(2 :: nat) ^ m \<le> 2 ^ e" using e by auto
  then have "e < Suc m" "m \<le> e" by (meson one_less_numeral_iff power_strict_increasing_iff semiring_norm(76), simp)
  then show ?thesis using e(1) by (simp add: le_antisym)
qed

lemma net_merge_bitonic:
  assumes "total_preorder c" "upward c P"
  shows "bitonic start (2 ^ m) (\<lambda>i. P (v i)) \<Longrightarrow> stepped start (2 ^ m) (\<lambda>i. P (net_merge c start (2 ^ m) True v i))"
proof (induction m arbitrary: start v)
  case 0
  then show ?case by (simp add: stepped_def)
next
  case (Suc m)
  let ?w = "half_clean c start (2 * 2 ^ m) (2 ^ m) True v"
  let ?b = "clean start (2 * 2 ^ m) (2 ^ m) (\<lambda>i. P (v i))"
  have w: "(\<lambda>i. P (?w i)) = ?b" using half_clean_threshold [OF assms] by fastforce
  note b = clean_bitonic [of start "2 ^ m" "\<lambda>i. P (v i)"]
  have "stepped start (2 * 2 ^ m) (\<lambda>i. P (net_merge c start (2 * 2 ^ m) True v i))"
  proof (rule net_merge_join [OF assms(1) _ pow_below_power _ refl])
    show "stepped start (2 ^ m) (\<lambda>i. P (net_merge c start (2 ^ m) True ?w i))"
      by (rule Suc.IH) (use b(1) Suc.prems w in simp)
    have "stepped (start + 2 ^ m) (2 ^ m) (\<lambda>i. P (net_merge c (start + 2 ^ m) (2 ^ m) True ?w i))"
      by (rule Suc.IH) (use b(2) Suc.prems w in simp)
    then show "stepped (start + 2 ^ m) (2 * 2 ^ m - 2 ^ m) (\<lambda>i. P (net_merge c (start + 2 ^ m) (2 * 2 ^ m - 2 ^ m) True ?w i))"
      by simp
    show "P (?w j)" if "start \<le> i" "i < start + 2 ^ m" "start + 2 ^ m \<le> j" "j < start + 2 * 2 ^ m" "P (?w i)" for i j
      using b(3) [of i j] Suc.prems that fun_cong [OF w, of i] fun_cong [OF w, of j] by simp
    show "Suc 0 < 2 * 2 ^ m" using one_le_power [of "2 :: nat" m] by linarith
  qed simp
  then show ?case by simp
qed

lemma net_merge_valley:
  assumes "total_preorder c" "upward c P"
  shows "valley start num (\<lambda>i. P (v i)) \<Longrightarrow> stepped start num (\<lambda>i. P (net_merge c start num True v i))"
proof (induction num arbitrary: start v rule: less_induct)
  case (less num)
  show ?case
  proof (cases "Suc 0 < num")
    case True
    then obtain e where e: "pow_below num = (2 ^ e, e)" "2 ^ e < num" "num \<le> 2 * 2 ^ e"
      using pow_below_spec [of num] by auto
    let ?w = "half_clean c start num (2 ^ e) True v"
    have w: "(\<lambda>i. P (?w i)) = clean start num (2 ^ e) (\<lambda>i. P (v i))" using half_clean_threshold [OF assms] by fastforce
    show ?thesis
    proof (rule net_merge_join [OF assms(1) True e(1,2) refl])
      show "stepped start (2 ^ e) (\<lambda>i. P (net_merge c start (2 ^ e) True ?w i))"
        by (rule net_merge_bitonic [OF assms]) (simp add: w clean_valley_low [OF less.prems e(2,3)])
      show "stepped (start + 2 ^ e) (num - 2 ^ e) (\<lambda>i. P (net_merge c (start + 2 ^ e) (num - 2 ^ e) True ?w i))"
        by (rule less.IH) (use e(2) True in \<open>simp_all add: w clean_valley_high [OF less.prems e(2,3)]\<close>)
      show "P (?w j)" if "start \<le> i" "i < start + 2 ^ e" "start + 2 ^ e \<le> j" "j < start + num" "P (?w i)" for i j
        using clean_valley_order [OF less.prems e(2,3) that(1-4)] that(5) fun_cong [OF w, of i] fun_cong [OF w, of j] by simp
    qed
  next
    case False
    then show ?thesis by (subst net_merge.simps) (auto simp: stepped_def)
  qed
qed

definition sorted_on :: "('v \<Rightarrow> 'v \<Rightarrow> int) \<Rightarrow> nat \<Rightarrow> nat \<Rightarrow> (nat \<Rightarrow> 'v) \<Rightarrow> bool" where
  "sorted_on c start num v \<longleftrightarrow> (\<forall>i j. start \<le> i \<longrightarrow> i < j \<longrightarrow> j < start + num \<longrightarrow> c (v i) (v j) \<le> 0)"

lemma sorted_thresholds:
  assumes "total_preorder c" "\<And>P. upward c P \<Longrightarrow> stepped start num (\<lambda>i. P (v i))"
  shows "sorted_on c start num v"
  unfolding sorted_on_def
proof (intro allI impI)
  fix i j assume r: "start \<le> i" "i < j" "j < start + num"
  have "upward c (\<lambda>y. c (v i) y \<le> 0)" using assms(1) by (auto simp: upward_def total_preorder_def)
  then have "stepped start num (\<lambda>j. c (v i) (v j) \<le> 0)" by (rule assms(2))
  moreover have "c (v i) (v i) \<le> 0" using assms(1) unfolding total_preorder_def by (metis not_le less_asym less_le_not_le linorder_not_le)
  ultimately show "c (v i) (v j) \<le> 0" using r by (auto simp: stepped_def)
qed

text \<open>Descending, then ascending values: for each threshold the low ranks are consecutive.\<close>

lemma valley_join:
  assumes "total_preorder c" "upward c P" "mid \<le> num"
    and "sorted_on (\<lambda>x y. - c x y) start mid v" "sorted_on c (start + mid) (num - mid) v"
  shows "valley start num (\<lambda>i. P (v i))"
proof (rule valleyI, rule notI)
  fix i j l assume r: "start \<le> i" "i < j" "j < l" "l < start + num" and z: "\<not> P (v i)" "\<not> P (v l)" and p: "P (v j)"
  show False
  proof (cases "j < start + mid")
    case True
    then have "- c (v i) (v j) \<le> 0" using assms(4) r by (auto simp: sorted_on_def)
    then have "c (v j) (v i) \<le> 0" using preorder_swap [OF assms(1), of "v j" "v i"] by auto
    then show False using z p assms(2) by (auto simp: upward_def)
  next
    case False
    then have "c (v j) (v l) \<le> 0" using assms(5) r by (auto simp: sorted_on_def)
    then show False using z p assms(2) by (auto simp: upward_def)
  qed
qed

lemma total_preorder_neg: "total_preorder c \<Longrightarrow> total_preorder (\<lambda>x y. - c x y)"
  unfolding total_preorder_def by (metis neg_0_less_iff_less neg_less_0_iff_less neg_le_0_iff_le neg_equal_0_iff_equal not_le)

theorem net_sort_sorts:
  "total_preorder c \<Longrightarrow> sorted_on c start num (net_sort c start num True v)"
proof (induction num arbitrary: c start v rule: less_induct)
  case (less num)
  show ?case
  proof (cases "Suc 0 < num")
    case True
    let ?k = "num div 2"
    let ?m = "\<lambda>i. if i < start + ?k then net_sort c start ?k False v i else net_sort c (start + ?k) (num - ?k) True v i"
    have "sorted_on (\<lambda>x y. - c x y) start ?k (net_sort (\<lambda>x y. - c x y) start ?k True v)"
      by (rule less.IH) (use True less.prems in \<open>simp_all add: total_preorder_neg\<close>)
    then have a: "sorted_on (\<lambda>x y. - c x y) start ?k ?m"
      using net_sort_rev [of c start ?k True v] by (simp add: sorted_on_def)
    have "sorted_on c (start + ?k) (num - ?k) (net_sort c (start + ?k) (num - ?k) True v)"
      by (rule less.IH) (use True less.prems in simp_all)
    then have b: "sorted_on c (start + ?k) (num - ?k) ?m" by (simp add: sorted_on_def)
    have "sorted_on c start num (net_merge c start num True ?m)"
      using less.prems by (intro sorted_thresholds net_merge_valley valley_join [OF _ _ _ a b]) simp_all
    then show ?thesis using True by (simp add: net_sort.simps [of c start num True v] Let_def cong: if_cong)
  next
    case False
    then show ?thesis by (auto simp: sorted_on_def)
  qed
qed

end
