(* ===== verification/Lwgrp_Sort.thy ===== *)
theory Lwgrp_Sort
  imports Lwgrp_Coll Bitonic
begin

text \<open>
  The distributed sort of \<open>src/src/lwgrp.c\<close>: the comparison functions on memory buffers and the
  bitonic sort in which every process of a group holds one item. The items of all processes
  after the sort are those that the sorting network of theory \<open>Bitonic\<close> computes.
\<close>

section \<open>Comparison functions\<close>

text \<open>The items are byte buffers; an \<open>int64_t\<close> is read from eight bytes.\<close>

definition load_i64 :: "byte list \<Rightarrow> int" where
  "load_i64 bs = sint (load_u64 bs)"

definition mem_i64 :: "int \<Rightarrow> byte list" where
  "mem_i64 x = mem_u64 (word_of_int x)"

type_synonym comparison = "byte list \<Rightarrow> byte list \<Rightarrow> nat \<Rightarrow> int"

definition cmp_int :: comparison where
  "cmp_int a b offset =
     (if load_i64 a \<noteq> load_i64 b then if load_i64 a > load_i64 b then 1 else -1 else 0)"

definition cmp_three_ints :: comparison where
  "cmp_three_ints a b offset =
     (if load_i64 a \<noteq> load_i64 b then if load_i64 a > load_i64 b then 1 else -1
      else if load_i64 (drop 8 a) \<noteq> load_i64 (drop 8 b)
        then if load_i64 (drop 8 a) > load_i64 (drop 8 b) then 1 else -1
      else if load_i64 (drop 16 a) \<noteq> load_i64 (drop 16 b)
        then if load_i64 (drop 16 a) > load_i64 (drop 16 b) then 1 else -1
      else 0)"

definition cmp_str :: comparison where
  "cmp_str a b offset =
     (let rc = strcmp (load_str a) (load_str b) in
      if rc \<noteq> 0 then if rc > 0 then 1 else -1 else 0)"

definition cmp_str_int :: comparison where
  "cmp_str_int a b offset =
     (let rc = strcmp (load_str a) (load_str b) in
      if rc \<noteq> 0 then if rc > 0 then 1 else -1
      else let a_int = load_i64 (drop offset a); b_int = load_i64 (drop offset b) in
        if a_int \<noteq> b_int then if a_int > b_int then 1 else -1 else 0)"

section \<open>The sort\<close>

text \<open>
  The exchange with the partner rank: the process in the upper half always writes first. The one
  in the lower half writes first, or reads first in the blocking variant.
\<close>

type_synonym swap = "nat option \<Rightarrow> byte list \<Rightarrow> byte list \<Rightarrow> nat \<Rightarrow> byte list proc"

definition write_read :: swap where
  "write_read partner value scratch sz =
     pbind (net_write partner value) (\<lambda>_. read_buf partner scratch sz)"

definition read_write :: swap where
  "read_write partner value scratch sz =
     pbind (read_buf partner scratch sz) (\<lambda>scratch. pbind (net_write partner value) (\<lambda>_. Ret scratch))"

text \<open>The result is the return code with the new content of \<open>value\<close> and \<open>scratch\<close>.\<close>

function merge_with ::
  "swap \<Rightarrow> byte list \<Rightarrow> byte list \<Rightarrow> nat \<Rightarrow> nat \<Rightarrow> comparison \<Rightarrow> nat \<Rightarrow> nat \<Rightarrow> bool \<Rightarrow> lwgrp
    \<Rightarrow> (int \<times> byte list \<times> byte list) proc" where
  "merge_with lower value scratch sz offset compare start num direction grp =
     (if Suc 0 < num then
        let rank = grp_rank grp; cnt = fst (pow_below num); index = snd (pow_below num) in
        if rank < start + cnt then
          pbind (let dst_rank = rank + cnt in
                 if dst_rank < start + num then
                   pbind (lower (list_right grp ! index) value scratch sz) (\<lambda>scratch.
                   Ret (low_pick (\<lambda>a b. compare a b offset) direction value scratch, scratch))
                 else Ret (value, scratch))
          (\<lambda>(value, scratch). merge_with lower value scratch sz offset compare start cnt direction grp)
        else
          pbind (if start + cnt \<le> rank then
                   pbind (write_read (list_left grp ! index) value scratch sz) (\<lambda>scratch.
                   Ret (high_pick (\<lambda>a b. compare a b offset) direction value scratch, scratch))
                 else Ret (value, scratch))
          (\<lambda>(value, scratch).
             let new_start = start + cnt; new_num = num - cnt in
             merge_with lower value scratch sz offset compare new_start new_num direction grp)
      else Ret (0, value, scratch))"
  by auto
termination
  by (relation "measure (\<lambda>(lower, value, scratch, sz, offset, compare, start, num, direction, grp). num)") auto

declare merge_with.simps [simp del]

definition lwgrp_sort_bitonic_merge where "lwgrp_sort_bitonic_merge = merge_with write_read"
definition lwgrp_sort_bitonic_merge_blocking where "lwgrp_sort_bitonic_merge_blocking = merge_with read_write"

text \<open>The rank is copied to a variable of type \<open>int\<close> here.\<close>

definition rank_int :: "lwgrp \<Rightarrow> int" where
  "rank_int grp = sint (word_of_nat (grp_rank grp) :: 32 word)"

function lwgrp_sort_bitonic_sort ::
  "byte list \<Rightarrow> byte list \<Rightarrow> nat \<Rightarrow> nat \<Rightarrow> comparison \<Rightarrow> nat \<Rightarrow> nat \<Rightarrow> bool \<Rightarrow> lwgrp
    \<Rightarrow> (int \<times> byte list \<times> byte list) proc" where
  "lwgrp_sort_bitonic_sort value scratch sz offset compare start num direction grp =
     (if Suc 0 < num then
        let rank = rank_int grp; mid = num div 2 in
        pbind (if rank < int (start + mid)
               then lwgrp_sort_bitonic_sort value scratch sz offset compare start mid (\<not> direction) grp
               else let new_start = start + mid; new_num = num - mid in
                 lwgrp_sort_bitonic_sort value scratch sz offset compare new_start new_num direction grp)
        (\<lambda>(rc, value, scratch).
           lwgrp_sort_bitonic_merge value scratch sz offset compare start num direction grp)
      else Ret (0, value, scratch))"
  by auto
termination
  by (relation "measure (\<lambda>(value, scratch, sz, offset, compare, start, num, direction, grp). num)") auto

declare lwgrp_sort_bitonic_sort.simps [simp del]

text \<open>\<open>scratch\<close> is the content of the scratch buffer that the function allocates.\<close>

definition lwgrp_sort_bitonic ::
  "byte list \<Rightarrow> byte list \<Rightarrow> nat \<Rightarrow> nat \<Rightarrow> comparison \<Rightarrow> lwgrp \<Rightarrow> (int \<times> byte list) proc" where
  "lwgrp_sort_bitonic scratch value sz offset compare grp =
     (let ranks = grp_size grp in
      pbind (lwgrp_sort_bitonic_sort value scratch sz offset compare 0 ranks True grp)
      (\<lambda>(rc, value, scratch). Ret (rc, value)))"

section \<open>The exchange of a pair\<close>

text \<open>
  What the merge relies on: when the two partners of a comparison exchange their items, each
  gets the other's. Both variants provide it.
\<close>

locale pair_exchange =
  fixes lower :: swap
  assumes swaps: "\<And>peer n gs i d v s sz. linked peer n gs \<Longrightarrow> i + 2 ^ d < n \<Longrightarrow>
    length (v i) = sz \<Longrightarrow> length (v (i + 2 ^ d)) = sz \<Longrightarrow>
    completes None peer {i, i + 2 ^ d}
      (\<lambda>l. if l = i then lower (list_right (gs l) ! d) (v l) (s l) sz
           else write_read (list_left (gs l) ! d) (v l) (s l) sz)
      (\<lambda>l. if l = i then v (i + 2 ^ d) else v i)"

lemma write_read_swaps:
  assumes L: "linked peer n gs" and i: "i + 2 ^ d < n" "length (v i) = sz" "length (v (i + 2 ^ d)) = sz"
  shows "completes None peer {i, i + 2 ^ d}
      (\<lambda>l. if l = i then write_read (list_right (gs l) ! d) (v l) (s l) sz
           else write_read (list_left (gs l) ! d) (v l) (s l) sz)
      (\<lambda>l. if l = i then v (i + 2 ^ d) else v i)"
proof -
  let ?j = "i + 2 ^ d"
  let ?h = "\<lambda>l. if l = i then rhandle gs d i else lhandle gs d ?j"
  let ?outs = "\<lambda>l. [(?h l, v l)]"
  have ne: "i \<noteq> ?j" by simp
  have p: "peer (i, ?h i) = (?j, ?h ?j)" "peer (?j, ?h ?j) = (i, ?h i)"
    using linked_right(2) [OF L i(1)] linked_left(2) [OF L, of d ?j] i(1) by auto
  have ch: "list_right (gs i) ! d = Some (rhandle gs d i)" "list_left (gs ?j) ! d = Some (lhandle gs d ?j)"
    using linked_right(1) [OF L i(1)] linked_left(1) [OF L, of d ?j] i(1) by auto
  have other: "incoming peer [i, ?j] ?outs l h = []" if "l \<in> {i, ?j}" "h \<noteq> ?h l" for l h
    by (rule incoming_none) (use that p ne in auto)
  have inc: "incoming peer [i, ?j] ?outs i (?h i) = v ?j" "incoming peer [i, ?j] ?outs ?j (?h ?j) = v i"
    using incoming_one [OF linked_inj [OF L] _ _ p(2), of "[i, ?j]" ?outs]
      incoming_one [OF linked_inj [OF L] _ _ p(1), of "[i, ?j]" ?outs] ne by simp_all
  show ?thesis
  proof (rule completes_phase [where il = "[i, ?j]" and outs = ?outs
        and r = "\<lambda>l. read_buf (Some (?h l)) (s l) sz"])
    fix l assume l: "l \<in> {i, ?j}"
    show "(if l = i then write_read (list_right (gs l) ! d) (v l) (s l) sz
        else write_read (list_left (gs l) ! d) (v l) (s l) sz) = sends (?outs l) (read_buf (Some (?h l)) (s l) sz)"
      using l ch ne by (auto simp: write_read_def net_write_def)
    show "fst (peer (l, fst x)) \<in> {i, ?j}" if "x \<in> set (?outs l)" for x using that l p ne by auto
    let ?w = "if l = i then v ?j else v i"
    have r: "reads (read_buf (Some (?h l)) (s l) sz) (?h l) ?w ?w"
      using read_buf_reads [of ?w sz "?h l" "s l"] i l by (auto split: if_splits)
    have q: "incoming peer [i, ?j] ?outs l (?h l) = ?w" using inc l ne by auto
    have "(incoming peer [i, ?j] ?outs l)(?h l := []) = (\<lambda>_. [])"
      using other [OF l] by (auto simp: fun_eq_iff)
    then show "drain (read_buf (Some (?h l)) (s l) sz) (incoming peer [i, ?j] ?outs l) = Some (?w, \<lambda>_. [])"
      using reads_drain [where q = "incoming peer [i, ?j] ?outs l" and bs = ?w, OF r q] by (simp only:)
  qed (use ne in auto)
qed

lemma read_write_swaps:
  assumes L: "linked peer n gs" and i: "i + 2 ^ d < n" "length (v i) = sz" "length (v (i + 2 ^ d)) = sz"
  shows "completes None peer {i, i + 2 ^ d}
      (\<lambda>l. if l = i then read_write (list_right (gs l) ! d) (v l) (s l) sz
           else write_read (list_left (gs l) ! d) (v l) (s l) sz)
      (\<lambda>l. if l = i then v (i + 2 ^ d) else v i)"
proof -
  let ?j = "i + 2 ^ d"
  let ?ch = "\<lambda>l. Some (if l = i then rhandle gs d i else lhandle gs d ?j)"
  have ne: "?j \<noteq> i" by simp
  have p: "peer (?j, lhandle gs d ?j) = (i, rhandle gs d i)" "peer (i, rhandle gs d i) = (?j, lhandle gs d ?j)"
    using linked_right(2) [OF L i(1)] linked_left(2) [OF L, of d ?j] i(1) by auto
  have ch: "list_right (gs i) ! d = Some (rhandle gs d i)" "list_left (gs ?j) ! d = Some (lhandle gs d ?j)"
    using linked_right(1) [OF L i(1)] linked_left(1) [OF L, of d ?j] i(1) by auto
  have "completes None peer {?j, i} (\<lambda>l. if l = ?j then pbind (net_write (?ch l) (v l)) (\<lambda>_. read_buf (?ch l) (s l) sz)
        else pbind (read_buf (?ch l) (s l) sz) (\<lambda>x. pbind (net_write (?ch l) (v l)) (\<lambda>_. Ret x)))
      (\<lambda>l. if l = i then v ?j else v i)"
    by (rule completes_pair [OF ne p, where xs = "[v ?j]" and ys = "[v i]" and u = "\<lambda>_. ()"])
      (use ne i read_buf_reads write_buf_sends in auto)
  then have "completes None peer {?j, i} (\<lambda>l. if l = i then read_write (list_right (gs l) ! d) (v l) (s l) sz
           else write_read (list_left (gs l) ! d) (v l) (s l) sz) (\<lambda>l. if l = i then v ?j else v i)"
    by (rule completes_cong) (use ch ne in \<open>auto simp: read_write_def write_read_def\<close>)
  then show ?thesis by (simp add: insert_commute)
qed

interpretation plain_swap: pair_exchange write_read
  by unfold_locales (rule write_read_swaps)

interpretation blocking_swap: pair_exchange read_write
  by unfold_locales (rule read_write_swaps)

section \<open>The processes compute the network\<close>

context pair_exchange
begin

text \<open>One step of the merge, for the ranks \<open>start\<close> up to \<open>start + num\<close> and both kinds of partner.\<close>

definition merge_step ::
  "byte list \<Rightarrow> byte list \<Rightarrow> nat \<Rightarrow> nat \<Rightarrow> comparison \<Rightarrow> nat \<Rightarrow> nat \<Rightarrow> nat \<Rightarrow> bool \<Rightarrow> lwgrp \<Rightarrow> nat \<Rightarrow> (byte list \<times> byte list) proc"
  where
  "merge_step value scratch sz offset compare start num index direction grp rank =
     (if rank < start + 2 ^ index then
        if rank + 2 ^ index < start + num then
          pbind (lower (list_right grp ! index) value scratch sz) (\<lambda>scratch.
          Ret (low_pick (\<lambda>a b. compare a b offset) direction value scratch, scratch))
        else Ret (value, scratch)
      else pbind (write_read (list_left grp ! index) value scratch sz) (\<lambda>scratch.
          Ret (high_pick (\<lambda>a b. compare a b offset) direction value scratch, scratch)))"

lemma merge_step_completes:
  assumes L: "linked peer n gs" and n: "start + num \<le> n" "2 ^ d < num" "num \<le> 2 * 2 ^ d"
    and sz: "\<And>i. i \<in> {start..<start + num} \<Longrightarrow> length (v i) = sz"
  shows "\<exists>s'. completes None peer {start..<start + num}
    (\<lambda>i. merge_step (v i) (s i) sz offset compare start num d dir (gs i) i)
    (\<lambda>i. (half_clean (\<lambda>a b. compare a b offset) start num (2 ^ d) dir v i, s' i))"
proof -
  let ?k = "2 ^ d :: nat" and ?c = "\<lambda>a b. compare a b offset"
  let ?s = "\<lambda>i. if i < start + ?k then if i + ?k < start + num then v (i + ?k) else s i else v (i - ?k)"
  let ?p = "\<lambda>i. merge_step (v i) (s i) sz offset compare start num d dir (gs i) i"
  let ?r = "\<lambda>i. (half_clean ?c start num ?k dir v i, ?s i)"
  let ?A = "\<lambda>i. if i + ?k < start + num then {i, i + ?k} else {i}"
  have pair: "completes None peer {i, i + ?k} ?p ?r" if i: "start \<le> i" "i + ?k < start + num" for i
  proof -
    have lt: "i + ?k < n" "i < start + ?k" using i n by auto
    have len: "length (v i) = sz" "length (v (i + ?k)) = sz" using sz i by auto
    let ?f = "\<lambda>l x. if l = i then (low_pick ?c dir (v l) x, x) else (high_pick ?c dir (v l) x, x)"
    have "completes None peer {i, i + ?k} (\<lambda>l. pbind (if l = i then lower (list_right (gs l) ! d) (v l) (s l) sz
           else write_read (list_left (gs l) ! d) (v l) (s l) sz) (\<lambda>x. Ret (?f l x)))
        (\<lambda>l. ?f l (if l = i then v (i + ?k) else v i))"
      by (rule completes_bind [OF swaps [where v = v, OF L lt(1) len]]) (rule completes_Ret)
    then show ?thesis
      by (rule completes_cong) (use i lt in \<open>auto simp: merge_step_def half_clean_def\<close>)
  qed
  have single: "completes None peer {i} ?p ?r" if "start \<le> i" "i < start + ?k" "\<not> i + ?k < start + num" for i
    by (rule completes_RetI) (use that in \<open>auto simp: merge_step_def half_clean_def\<close>)
  have "completes None peer (\<Union>i\<in>{start..<start + ?k}. ?A i) ?p ?r"
  proof (rule completes_UNION)
    show "completes None peer (?A i) ?p ?r" if "i \<in> {start..<start + ?k}" for i using that pair [of i] single [of i] by simp
    show "?A i \<inter> ?A j = {}" if "i \<in> {start..<start + ?k}" "j \<in> {start..<start + ?k}" "i \<noteq> j" for i j
      using that by auto
  qed simp
  moreover have "(\<Union>i\<in>{start..<start + ?k}. ?A i) = {start..<start + num}"
  proof
    show "{start..<start + num} \<subseteq> (\<Union>i\<in>{start..<start + ?k}. ?A i)"
    proof
      fix i assume i: "i \<in> {start..<start + num}"
      show "i \<in> (\<Union>i\<in>{start..<start + ?k}. ?A i)"
      proof (cases "i < start + ?k")
        case False
        then show ?thesis using i n by (intro UN_I [of "i - ?k"]) auto
      qed (use i in auto)
    qed
  qed (use n in auto)
  ultimately show ?thesis by auto
qed

lemma merge_with_step:
  assumes "Suc 0 < num" "pow_below num = (2 ^ d, d)" "grp_rank grp = i" "start \<le> i"
  shows "merge_with lower value scratch sz offset compare start num dir grp =
    pbind (merge_step value scratch sz offset compare start num d dir grp i) (\<lambda>(value, scratch).
      if i < start + 2 ^ d then merge_with lower value scratch sz offset compare start (2 ^ d) dir grp
      else merge_with lower value scratch sz offset compare (start + 2 ^ d) (num - 2 ^ d) dir grp)"
  using assms by (subst merge_with.simps) (simp add: merge_step_def Let_def case_prod_unfold)

lemma merge_with_completes:
  assumes L: "linked peer n gs"
    and c: "total_preorder (\<lambda>a b. compare a b offset)"
  shows "start + num \<le> n \<Longrightarrow> (\<And>i. i \<in> {start..<start + num} \<Longrightarrow> length (v i) = sz) \<Longrightarrow>
    \<exists>s'. completes None peer {start..<start + num}
      (\<lambda>i. merge_with lower (v i) (s i) sz offset compare start num dir (gs i))
      (\<lambda>i. (0, net_merge (\<lambda>a b. compare a b offset) start num dir v i, s' i))"
proof (induction num arbitrary: start v s rule: less_induct)
  case (less num)
  let ?c = "\<lambda>a b. compare a b offset" and ?S = "{start..<start + num}"
  show ?case
  proof (cases "Suc 0 < num")
    case True
    then obtain d where d: "pow_below num = (2 ^ d, d)" "2 ^ d < num" "num \<le> 2 * 2 ^ d"
      using pow_below_spec [of num] by auto
    let ?k = "2 ^ d :: nat" and ?w = "half_clean ?c start num (2 ^ d) dir v"
    obtain s1 where s1: "completes None peer ?S (\<lambda>i. merge_step (v i) (s i) sz offset compare start num d dir (gs i) i)
        (\<lambda>i. (?w i, s1 i))"
      using merge_step_completes [OF L less.prems(1) d(2,3), of v sz] less.prems(2) by blast
    have len: "length (?w i) = sz" if "i \<in> ?S" for i
      using rearranged_from [OF half_clean_rearranged [OF c d(2,3)] that] less.prems(2) by metis
    obtain s2 where s2: "completes None peer {start..<start + ?k}
        (\<lambda>i. merge_with lower (?w i) (s1 i) sz offset compare start ?k dir (gs i))
        (\<lambda>i. (0, net_merge ?c start ?k dir ?w i, s2 i))"
      using less.IH [OF d(2), of start ?w s1] len less.prems(1) d(2) by auto
    obtain s3 where s3: "completes None peer {start + ?k..<start + ?k + (num - ?k)}
        (\<lambda>i. merge_with lower (?w i) (s1 i) sz offset compare (start + ?k) (num - ?k) dir (gs i))
        (\<lambda>i. (0, net_merge ?c (start + ?k) (num - ?k) dir ?w i, s3 i))"
      using less.IH [of "num - ?k" "start + ?k" ?w s1] len less.prems(1) d(2) True by auto
    let ?q = "\<lambda>i. if i < start + ?k then merge_with lower (?w i) (s1 i) sz offset compare start ?k dir (gs i)
      else merge_with lower (?w i) (s1 i) sz offset compare (start + ?k) (num - ?k) dir (gs i)"
    let ?r = "\<lambda>i. (0, net_merge ?c start num dir v i, if i < start + ?k then s2 i else s3 i)"
    have m: "net_merge ?c start num dir v = (\<lambda>i. if i < start + ?k then net_merge ?c start ?k dir ?w i
        else net_merge ?c (start + ?k) (num - ?k) dir ?w i)"
      using True d(1) by (simp add: net_merge.simps [of ?c start num dir v] Let_def cong: if_cong)
    have "completes None peer ({start..<start + ?k} \<union> {start + ?k..<start + ?k + (num - ?k)}) ?q ?r"
      by (intro completes_Un completes_cong [OF s2] completes_cong [OF s3]) (auto simp: m)
    moreover have "{start..<start + ?k} \<union> {start + ?k..<start + ?k + (num - ?k)} = ?S" using d(2) by auto
    ultimately have rest: "completes None peer ?S ?q ?r" by (simp only:)
    let ?l = "\<lambda>i (value, scratch).
      if i < start + ?k then merge_with lower value scratch sz offset compare start ?k dir (gs i)
      else merge_with lower value scratch sz offset compare (start + ?k) (num - ?k) dir (gs i)"
    have "completes None peer ?S (\<lambda>i. pbind (merge_step (v i) (s i) sz offset compare start num d dir (gs i) i) (?l i)) ?r"
      by (rule completes_bind [OF s1]) (use rest in simp)
    then have "completes None peer ?S (\<lambda>i. merge_with lower (v i) (s i) sz offset compare start num dir (gs i)) ?r"
      by (rule completes_cong) (use merge_with_step [OF True d(1)] L less.prems(1) in auto)
    then show ?thesis by (rule exI [where x = "\<lambda>i. if i < start + ?k then s2 i else s3 i"])
  next
    case False
    then show ?thesis
      by (intro exI [of _ s] completes_RetI) (simp add: merge_with.simps net_merge.simps)
  qed
qed

end

lemma rank_int_small: "grp_rank grp < 2 ^ 31 \<Longrightarrow> rank_int grp = int (grp_rank grp)"
  by (simp add: rank_int_def signed_of_nat signed_take_bit_int_eq_self)

lemma sort_completes:
  assumes L: "linked peer n gs" "n \<le> 2 ^ 31"
    and c: "total_preorder (\<lambda>a b. compare a b offset)"
  shows "start + num \<le> n \<Longrightarrow> (\<And>i. i \<in> {start..<start + num} \<Longrightarrow> length (v i) = sz) \<Longrightarrow>
    \<exists>s'. completes None peer {start..<start + num}
      (\<lambda>i. lwgrp_sort_bitonic_sort (v i) (s i) sz offset compare start num dir (gs i))
      (\<lambda>i. (0, net_sort (\<lambda>a b. compare a b offset) start num dir v i, s' i))"
proof (induction num arbitrary: start v s dir rule: less_induct)
  case (less num)
  let ?c = "\<lambda>a b. compare a b offset" and ?S = "{start..<start + num}" and ?k = "num div 2"
  show ?case
  proof (cases "Suc 0 < num")
    case True
    obtain s2 where s2: "completes None peer {start..<start + ?k}
        (\<lambda>i. lwgrp_sort_bitonic_sort (v i) (s i) sz offset compare start ?k (\<not> dir) (gs i))
        (\<lambda>i. (0, net_sort ?c start ?k (\<not> dir) v i, s2 i))"
      using less.IH [of ?k start v s "\<not> dir"] less.prems True by fastforce
    obtain s3 where s3: "completes None peer {start + ?k..<start + ?k + (num - ?k)}
        (\<lambda>i. lwgrp_sort_bitonic_sort (v i) (s i) sz offset compare (start + ?k) (num - ?k) dir (gs i))
        (\<lambda>i. (0, net_sort ?c (start + ?k) (num - ?k) dir v i, s3 i))"
      using less.IH [of "num - ?k" "start + ?k" v s dir] less.prems True by fastforce
    let ?q = "\<lambda>i. if i < start + ?k then lwgrp_sort_bitonic_sort (v i) (s i) sz offset compare start ?k (\<not> dir) (gs i)
      else lwgrp_sort_bitonic_sort (v i) (s i) sz offset compare (start + ?k) (num - ?k) dir (gs i)"
    let ?w = "\<lambda>i. if i < start + ?k then net_sort ?c start ?k (\<not> dir) v i else net_sort ?c (start + ?k) (num - ?k) dir v i"
    let ?s = "\<lambda>i. if i < start + ?k then s2 i else s3 i"
    have "completes None peer ({start..<start + ?k} \<union> {start + ?k..<start + ?k + (num - ?k)}) ?q (\<lambda>i. (0, ?w i, ?s i))"
      by (intro completes_Un completes_cong [OF s2] completes_cong [OF s3]) auto
    moreover have "{start..<start + ?k} \<union> {start + ?k..<start + ?k + (num - ?k)} = ?S" by auto
    ultimately have halves: "completes None peer ?S ?q (\<lambda>i. (0, ?w i, ?s i))" by (simp only:)
    have len: "length (?w i) = sz" if i: "i \<in> ?S" for i
    proof (cases "i < start + ?k")
      case True
      then show ?thesis
        using rearranged_from [OF net_sort_rearranged [OF c, of start ?k v "\<not> dir"], of i] i less.prems(2) by auto
    next
      case False
      then show ?thesis
        using rearranged_from [OF net_sort_rearranged [OF c, of "start + ?k" "num - ?k" v dir], of i] i less.prems(2) by auto
    qed
    obtain s4 where s4: "completes None peer ?S (\<lambda>i. lwgrp_sort_bitonic_merge (?w i) (?s i) sz offset compare start num dir (gs i))
        (\<lambda>i. (0, net_merge ?c start num dir ?w i, s4 i))"
      using plain_swap.merge_with_completes [where compare = compare and offset = offset and v = ?w and s = ?s,
          OF L(1) c less.prems(1) len, of dir]
      unfolding lwgrp_sort_bitonic_merge_def by blast
    let ?l = "\<lambda>i (rc, value, scratch). lwgrp_sort_bitonic_merge value scratch sz offset compare start num dir (gs i)"
    have all: "completes None peer ?S (\<lambda>i. pbind (?q i) (?l i)) (\<lambda>i. (0, net_merge ?c start num dir ?w i, s4 i))"
      by (rule completes_bind [OF halves]) (use s4 in simp)
    have net: "net_sort ?c start num dir v = net_merge ?c start num dir ?w"
      using True by (simp add: net_sort.simps [of ?c start num dir v] Let_def)
    have prog: "lwgrp_sort_bitonic_sort (v i) (s i) sz offset compare start num dir (gs i) = pbind (?q i) (?l i)"
      if "i \<in> ?S" for i
      using True that L less.prems(1) rank_int_small [of "gs i"]
      by (subst lwgrp_sort_bitonic_sort.simps) (simp add: Let_def)
    show ?thesis
      by (rule exI [of _ s4], rule completes_cong [OF all]) (simp_all only: prog net)
  next
    case False
    then show ?thesis
      by (intro exI [of _ s] completes_RetI) (simp add: lwgrp_sort_bitonic_sort.simps net_sort.simps)
  qed
qed

lemma bitonic_completes:
  assumes L: "linked peer n gs" "n \<le> 2 ^ 31"
    and c: "total_preorder (\<lambda>a b. compare a b offset)" and sz: "\<And>i. i < n \<Longrightarrow> length (v i) = sz"
  shows "completes None peer {..<n} (\<lambda>i. lwgrp_sort_bitonic (s i) (v i) sz offset compare (gs i))
    (\<lambda>i. (0, net_sort (\<lambda>a b. compare a b offset) 0 n True v i))"
proof -
  obtain s' where "completes None peer {..<n} (\<lambda>i. lwgrp_sort_bitonic_sort (v i) (s i) sz offset compare 0 n True (gs i))
      (\<lambda>i. (0, net_sort (\<lambda>a b. compare a b offset) 0 n True v i, s' i))"
    using sort_completes [where compare = compare and offset = offset, OF L c, of 0 n v sz s True] sz by (auto simp: atLeast0LessThan)
  then have "completes None peer {..<n} (\<lambda>i. pbind (lwgrp_sort_bitonic_sort (v i) (s i) sz offset compare 0 n True (gs i))
      (\<lambda>(rc, value, scratch). Ret (rc, value))) (\<lambda>i. (0, net_sort (\<lambda>a b. compare a b offset) 0 n True v i))"
    by (rule completes_bind) (rule completes_RetI, simp)
  then show ?thesis by (rule completes_cong) (use L in \<open>simp_all add: lwgrp_sort_bitonic_def\<close>)
qed

section \<open>The comparisons are orders\<close>

lemma cmp_int_order: "total_preorder (\<lambda>a b. cmp_int a b offset)"
  by (auto simp: total_preorder_def cmp_int_def)

lemma cmp_three_ints_order: "total_preorder (\<lambda>a b. cmp_three_ints a b offset)"
  by (auto simp: total_preorder_def cmp_three_ints_def split: if_splits)

lemma cstring_load_str [simp]: "cstring (load_str bs)"
  by (auto simp: load_str_def cstring_def dest: set_takeWhileD)

lemma cmp_str_eq:
  "cmp_str a b offset = (if load_str a = load_str b then 0 else if load_str b < load_str a then 1 else -1)"
  by (auto simp: cmp_str_def Let_def)

lemma cmp_str_int_eq:
  "cmp_str_int a b offset = (if load_str a = load_str b then cmp_int (drop offset a) (drop offset b) 0
     else if load_str b < load_str a then 1 else -1)"
  by (auto simp: cmp_str_int_def cmp_int_def Let_def)

lemma cmp_str_order: "total_preorder (\<lambda>a b. cmp_str a b offset)"
  by (auto simp: total_preorder_def cmp_str_eq split: if_splits)

lemma cmp_str_int_order: "total_preorder (\<lambda>a b. cmp_str_int a b offset)"
  by (auto simp: total_preorder_def cmp_str_int_eq cmp_int_def split: if_splits)

end
