(* ===== verification/Lwgrp_Split.thy ===== *)
theory Lwgrp_Split
  imports Lwgrp_Sort
begin

text \<open>
  Splitting a group, \<open>lwgrp_split\<close> and \<open>lwgrp_split_str\<close> of \<open>src/src/lwgrp.c\<close>: the processes sort their
  (color, key, rank) items, find the boundaries of the colors and their position within a color by
  a segmented scan in both directions, and sort the results back. The functions end with a call
  of \<open>lwgrp_create\<close>; the model returns the arguments of that call.
\<close>

section \<open>Model\<close>

record create_call =
  call_ranks :: int
  call_rank :: int
  call_name :: string
  call_left :: "string option"
  call_right :: "string option"
  call_ep :: "nat option"

text \<open>The content of memory that has been allocated and not yet written.\<close>

definition uninit :: "(nat \<Rightarrow> byte) \<Rightarrow> nat \<Rightarrow> byte list" where
  "uninit junk k = map junk [0..<k]"

abbreviation (input) SCAN_COLOR :: nat where "SCAN_COLOR \<equiv> 0"
abbreviation (input) SCAN_FLAG :: nat where "SCAN_FLAG \<equiv> 1"
abbreviation (input) SCAN_COUNT :: nat where "SCAN_COUNT \<equiv> 2"

abbreviation (input) CHAIN_SRC :: nat where "CHAIN_SRC \<equiv> 0"
abbreviation (input) CHAIN_RANK :: nat where "CHAIN_RANK \<equiv> 1"
abbreviation (input) CHAIN_SIZE :: nat where "CHAIN_SIZE \<equiv> 2"

text \<open>
  The integers of the scan are \<open>int64_t\<close>; only sums and tests for equality are made, so they are
  kept as 64-bit words.
\<close>

definition scan_init :: "bool \<Rightarrow> u64 list" where
  "scan_init boundary =
     (let ints = [0, 0, 1] in
      if boundary then ints[SCAN_COLOR := 1, SCAN_FLAG := 1] else ints)"

definition scan_reduce :: "u64 list \<Rightarrow> u64 list \<Rightarrow> u64 list" where
  "scan_reduce send recv =
     (let send = send[SCAN_COLOR := send ! SCAN_COLOR + recv ! SCAN_COLOR] in
      if send ! SCAN_FLAG \<noteq> 1
      then send[SCAN_FLAG := recv ! SCAN_FLAG, SCAN_COUNT := send ! SCAN_COUNT + recv ! SCAN_COUNT]
      else send)"

definition chain_scan :: "(unit, u64 list) xchg \<Rightarrow> bool \<Rightarrow> bool \<Rightarrow> lwgrp \<Rightarrow> (u64 list \<times> u64 list) proc" where
  "chain_scan xchg first_in_group last_in_group grp =
     pbind (doubling (\<lambda>round dist (send_left, send_right, recv_left, recv_right).
         pbind (xchg grp round dist (\<lambda>ch. write_u64s ch send_left) (\<lambda>ch. write_u64s ch send_right)
           (\<lambda>ch. read_u64s ch recv_left 3) (\<lambda>ch. read_u64s ch recv_right 3) recv_left recv_right)
         (\<lambda>(recv_left, recv_right).
           Ret (if grp_rank grp + dist < grp_size grp then scan_reduce send_left recv_right else send_left,
                if dist \<le> grp_rank grp then scan_reduce send_right recv_left else send_right,
                recv_left, recv_right)))
       (grp_size grp) 0 1 (scan_init last_in_group, scan_init first_in_group, [0, 0, 0], [0, 0, 0]))
     (\<lambda>(send_left, send_right, recv_left, recv_right). Ret (send_left, send_right))"

text \<open>
  \<open>junk\<close> gives the uninitialised content of the buffers. In the result buffer five integers are
  followed by the endpoint names of the two neighbours.
\<close>

definition chain_result ::
  "(nat \<Rightarrow> byte) \<Rightarrow> byte list \<Rightarrow> byte list \<Rightarrow> byte list \<Rightarrow> nat \<Rightarrow> nat \<Rightarrow> u64 list \<Rightarrow> u64 list \<Rightarrow> lwgrp \<Rightarrow> byte list" where
  "chain_result junk value left_buf right_buf sz offset send_left send_right grp =
     (let payload_offset = offset + 8; payload_size = sz - payload_offset;
          left_name = (if 0 < grp_rank grp then take payload_size (drop payload_offset left_buf)
                       else uninit junk payload_size);
          right_name = (if grp_rank grp + 1 < grp_size grp then take payload_size (drop payload_offset right_buf)
                        else uninit junk payload_size)
      in mem_u64s [load_u64 (drop offset value),
           send_right ! SCAN_COUNT - 1,
           send_right ! SCAN_COUNT + send_left ! SCAN_COUNT - 1,
           send_right ! SCAN_COLOR - 1,
           send_right ! SCAN_COLOR + send_left ! SCAN_COLOR - 1]
         @ left_name @ right_name)"

definition create_from :: "byte list \<Rightarrow> nat \<Rightarrow> lwgrp \<Rightarrow> create_call" where
  "create_from result_buf payload_size grp =
     (let newrank = load_i64 (drop (8 * CHAIN_RANK) result_buf);
          newranks = load_i64 (drop (8 * CHAIN_SIZE) result_buf);
          newleft = (if newrank > 0 then Some (load_str (drop (5 * 8) result_buf)) else NULL);
          newright = (if newrank < newranks - 1 then Some (load_str (drop (5 * 8 + payload_size) result_buf)) else NULL)
      in \<lparr>call_ranks = newranks, call_rank = newrank, call_name = grp_name grp,
          call_left = newleft, call_right = newright, call_ep = grp_ep grp\<rparr>)"

definition split_sorted_with ::
  "(unit, byte list) xchg \<Rightarrow> (unit, u64 list) xchg \<Rightarrow> (nat \<Rightarrow> byte) \<Rightarrow> byte list \<Rightarrow> nat \<Rightarrow> nat \<Rightarrow> comparison \<Rightarrow> lwgrp
    \<Rightarrow> create_call proc" where
  "split_sorted_with bx ux junk value sz offset compare grp =
     (let payload_size = sz - (offset + 8);
          result_buf_size = 5 * 8 + 2 * payload_size;
          rank = grp_rank grp; ranks = grp_size grp
      in pbind (bx grp 0 1 (\<lambda>ch. net_write ch value) (\<lambda>ch. net_write ch value)
           (\<lambda>ch. read_buf ch (uninit junk sz) sz) (\<lambda>ch. read_buf ch (uninit junk sz) sz)
           (uninit junk sz) (uninit junk sz)) (\<lambda>(left_buf, right_buf).
         let first_in_group = (if 0 < rank then compare left_buf value 0 \<noteq> 0 else True);
             last_in_group = (if rank + 1 < ranks then compare right_buf value 0 \<noteq> 0 else True)
         in pbind (chain_scan ux first_in_group last_in_group grp) (\<lambda>(send_left, send_right).
            let result_buf = chain_result junk value left_buf right_buf sz offset send_left send_right grp
            in pbind (lwgrp_sort_bitonic (uninit junk result_buf_size) result_buf result_buf_size 0 cmp_int grp)
               (\<lambda>(rc, result_buf). Ret (create_from result_buf payload_size grp)))))"

definition lwgrp_split_sorted where "lwgrp_split_sorted = split_sorted_with exchange exchange"
definition lwgrp_split_sorted_blocking where
  "lwgrp_split_sorted_blocking = split_sorted_with exchange_blocking exchange_blocking"

text \<open>\<open>strcpy\<close> of a string into a field of \<open>k\<close> bytes.\<close>

definition strcpy_field :: "(nat \<Rightarrow> byte) \<Rightarrow> string \<Rightarrow> nat \<Rightarrow> byte list" where
  "strcpy_field junk s k = mem_str s @ uninit junk (k - (length s + 1))"

definition lwgrp_split :: "(nat \<Rightarrow> byte) \<Rightarrow> lwgrp \<Rightarrow> u64 \<Rightarrow> u64 \<Rightarrow> create_call proc" where
  "lwgrp_split junk comm color key =
     pbind (lwgrp_allreduce_uint64_max (load_u64s 1 (uninit junk 8)) [str_size (grp_name comm)] 1 comm)
     (\<lambda>(rc, len).
       let max_name = unat (len ! 0); buf_size = 3 * 8 + max_name;
           buf = mem_u64s [color, key, word_of_nat (grp_rank comm)] @ strcpy_field junk (grp_name comm) max_name
       in pbind (lwgrp_sort_bitonic (uninit junk buf_size) buf buf_size 0 cmp_three_ints comm) (\<lambda>(rc, buf).
          let offset = 2 * 8 in
          lwgrp_split_sorted junk buf buf_size offset cmp_int comm))"

definition lwgrp_split_str :: "(nat \<Rightarrow> byte) \<Rightarrow> lwgrp \<Rightarrow> string \<Rightarrow> create_call proc" where
  "lwgrp_split_str junk comm str =
     pbind (lwgrp_allreduce_uint64_max (load_u64s 2 (uninit junk 16)) [str_size str, str_size (grp_name comm)] 2 comm)
     (\<lambda>(rc, lengths).
       let max_len = unat (lengths ! 0); max_name = unat (lengths ! 1);
           buf_size = max_len + 8 + max_name;
           buf = strcpy_field junk str max_len @ mem_u64 (word_of_nat (grp_rank comm))
             @ strcpy_field junk (grp_name comm) max_name
       in pbind (lwgrp_sort_bitonic (uninit junk buf_size) buf buf_size max_len cmp_str_int comm) (\<lambda>(rc, buf).
          lwgrp_split_sorted junk buf buf_size max_len cmp_str comm))"

section \<open>The segmented scan\<close>

text \<open>
  \<open>F\<close> holds at the first rank of every segment and \<open>G\<close> at the last. The count that travels to the
  right covers the ranks of the window that no boundary separates from \<open>i\<close>.
\<close>

definition lseg :: "(nat \<Rightarrow> bool) \<Rightarrow> nat \<Rightarrow> nat \<Rightarrow> nat set" where
  "lseg F d i = {j \<in> lwindow d i. \<forall>k. j < k \<longrightarrow> k \<le> i \<longrightarrow> \<not> F k}"

definition rseg :: "(nat \<Rightarrow> bool) \<Rightarrow> nat \<Rightarrow> nat \<Rightarrow> nat \<Rightarrow> nat set" where
  "rseg G n d i = {j \<in> rwindow n d i. \<forall>k. i \<le> k \<longrightarrow> k < j \<longrightarrow> \<not> G k}"

definition scanned :: "bool \<Rightarrow> nat set \<Rightarrow> u64 list \<Rightarrow> bool" where
  "scanned flag S ints \<longleftrightarrow> finite S \<and> length ints = 3 \<and> ints ! SCAN_FLAG = of_bool flag \<and> ints ! SCAN_COUNT = of_nat (card S)"

lemma scanned_init: "scanned b {i} (scan_init b)"
  by (simp add: scanned_def scan_init_def)

lemma scanned_reduce:
  assumes "scanned b S send" "scanned b' S' recv" "\<not> b \<Longrightarrow> S \<inter> S' = {}"
  shows "scanned (b \<or> b') (if b then S else S \<union> S') (scan_reduce send recv)"
proof (cases b)
  case True
  then show ?thesis using assms by (auto simp: scanned_def scan_reduce_def)
next
  case False
  then have "card (S \<union> S') = card S + card S'" using assms by (simp add: scanned_def card_Un_disjoint)
  then show ?thesis using assms False by (auto simp: scanned_def scan_reduce_def)
qed

lemma lseg_Suc:
  assumes "2 ^ d \<le> i"
  shows "lseg F (Suc d) i = (if \<exists>k\<in>lwindow d i. F k then lseg F d i else lseg F d i \<union> lseg F d (i - 2 ^ d))"
    and "lseg F d i \<inter> lseg F d (i - 2 ^ d) = {}"
proof -
  have w: "lwindow (Suc d) i = lwindow d i \<union> lwindow d (i - 2 ^ d)" "lwindow d i \<inter> lwindow d (i - 2 ^ d) = {}"
    using assms lwindow_Suc [of d i] by auto
  have after: "j < k \<and> k \<le> i" if "j \<in> lwindow d (i - 2 ^ d)" "k \<in> lwindow d i" for j k
    using that assms by (auto simp: lwindow_def)
  have cover: "k \<in> lwindow d i \<or> k \<le> i - 2 ^ d" if "j \<in> lwindow d (i - 2 ^ d)" "j < k" "k \<le> i" for j k
    using that assms by (auto simp: lwindow_def)
  show "lseg F d i \<inter> lseg F d (i - 2 ^ d) = {}" using w(2) by (auto simp: lseg_def)
  show "lseg F (Suc d) i = (if \<exists>k\<in>lwindow d i. F k then lseg F d i else lseg F d i \<union> lseg F d (i - 2 ^ d))"
  proof (cases "\<exists>k\<in>lwindow d i. F k")
    case True
    then show ?thesis unfolding lseg_def w(1) using after by auto
  next
    case False
    then have "(\<forall>k. j < k \<longrightarrow> k \<le> i \<longrightarrow> \<not> F k) \<longleftrightarrow> (\<forall>k. j < k \<longrightarrow> k \<le> i - 2 ^ d \<longrightarrow> \<not> F k)"
      if "j \<in> lwindow d (i - 2 ^ d)" for j
      using cover [OF that] by (meson diff_le_self le_trans)
    then show ?thesis using False unfolding lseg_def w(1) by auto
  qed
qed

lemma rseg_Suc:
  assumes "i + 2 ^ d < n"
  shows "rseg G n (Suc d) i = (if \<exists>k\<in>rwindow n d i. G k then rseg G n d i else rseg G n d i \<union> rseg G n d (i + 2 ^ d))"
    and "rseg G n d i \<inter> rseg G n d (i + 2 ^ d) = {}"
proof -
  have w: "rwindow n (Suc d) i = rwindow n d i \<union> rwindow n d (i + 2 ^ d)" "rwindow n d i \<inter> rwindow n d (i + 2 ^ d) = {}"
    using assms rwindow_Suc(1) [of i n d] rwindow_Suc(2) [of n d i] by auto
  have before: "i \<le> k \<and> k < j" if "j \<in> rwindow n d (i + 2 ^ d)" "k \<in> rwindow n d i" for j k
    using that by (auto simp: rwindow_def)
  have cover: "k \<in> rwindow n d i \<or> i + 2 ^ d \<le> k" if "j \<in> rwindow n d (i + 2 ^ d)" "i \<le> k" "k < j" for j k
    using that by (auto simp: rwindow_def)
  show "rseg G n d i \<inter> rseg G n d (i + 2 ^ d) = {}" using w(2) by (auto simp: rseg_def)
  show "rseg G n (Suc d) i = (if \<exists>k\<in>rwindow n d i. G k then rseg G n d i else rseg G n d i \<union> rseg G n d (i + 2 ^ d))"
  proof (cases "\<exists>k\<in>rwindow n d i. G k")
    case True
    then show ?thesis unfolding rseg_def w(1) using before by auto
  next
    case False
    then have "(\<forall>k. i \<le> k \<longrightarrow> k < j \<longrightarrow> \<not> G k) \<longleftrightarrow> (\<forall>k. i + 2 ^ d \<le> k \<longrightarrow> k < j \<longrightarrow> \<not> G k)"
      if "j \<in> rwindow n d (i + 2 ^ d)" for j
      using cover [OF that] by (meson le_add1 le_trans)
    then show ?thesis using False unfolding rseg_def w(1) by auto
  qed
qed

lemma lseg_start: "lseg F 0 i = {i}" "i < 2 ^ d \<Longrightarrow> lseg F d i = {j. j \<le> i \<and> (\<forall>k. j < k \<longrightarrow> k \<le> i \<longrightarrow> \<not> F k)}"
  by (auto simp: lseg_def lwindow_0 lwindow_all)

lemma rseg_start: "i < n \<Longrightarrow> rseg G n 0 i = {i}"
  "n \<le> 2 ^ d \<Longrightarrow> rseg G n d i = {j. i \<le> j \<and> j < n \<and> (\<forall>k. i \<le> k \<longrightarrow> k < j \<longrightarrow> \<not> G k)}"
  by (auto simp: rseg_def rwindow_0 rwindow_all)

definition right_scan :: "(nat \<Rightarrow> bool) \<Rightarrow> nat \<Rightarrow> nat \<Rightarrow> u64 list \<Rightarrow> bool" where
  "right_scan F d i = scanned (\<exists>k\<in>lwindow d i. F k) (lseg F d i)"

definition left_scan :: "(nat \<Rightarrow> bool) \<Rightarrow> nat \<Rightarrow> nat \<Rightarrow> nat \<Rightarrow> u64 list \<Rightarrow> bool" where
  "left_scan G n d i = scanned (\<exists>k\<in>rwindow n d i. G k) (rseg G n d i)"

lemma right_scan_Suc:
  assumes "right_scan F d i s" "2 ^ d \<le> i \<Longrightarrow> right_scan F d (i - 2 ^ d) r"
  shows "right_scan F (Suc d) i (if 2 ^ d \<le> i then scan_reduce s r else s)"
proof (cases "2 ^ d \<le> i")
  case True
  have "scanned ((\<exists>k\<in>lwindow d i. F k) \<or> (\<exists>k\<in>lwindow d (i - 2 ^ d). F k)) (lseg F (Suc d) i) (scan_reduce s r)"
    using scanned_reduce [of _ "lseg F d i" s _ "lseg F d (i - 2 ^ d)" r] lseg_Suc [OF True, of F] assms True
    by (simp add: right_scan_def)
  then show ?thesis using True lwindow_Suc(1) [of d i] by (simp add: right_scan_def bex_Un)
next
  case False
  then have "lwindow (Suc d) i = lwindow d i" using lwindow_Suc(1) [of d i] by simp
  then show ?thesis using assms(1) False by (simp add: right_scan_def lseg_def)
qed

lemma left_scan_Suc:
  assumes "left_scan G n d i s" "i + 2 ^ d < n \<Longrightarrow> left_scan G n d (i + 2 ^ d) r" "i < n"
  shows "left_scan G n (Suc d) i (if i + 2 ^ d < n then scan_reduce s r else s)"
proof (cases "i + 2 ^ d < n")
  case True
  have "scanned ((\<exists>k\<in>rwindow n d i. G k) \<or> (\<exists>k\<in>rwindow n d (i + 2 ^ d). G k)) (rseg G n (Suc d) i) (scan_reduce s r)"
    using scanned_reduce [of _ "rseg G n d i" s _ "rseg G n d (i + 2 ^ d)" r] rseg_Suc [OF True, of G] assms True
    by (simp add: left_scan_def)
  then show ?thesis using True rwindow_Suc(1) [OF assms(3), of d] by (simp add: left_scan_def bex_Un)
next
  case False
  then have "rwindow n (Suc d) i = rwindow n d i" using rwindow_Suc(1) [OF assms(3), of d] by simp
  then show ?thesis using assms(1) False by (simp add: left_scan_def rseg_def)
qed

context u64_exchange
begin

lemma chain_scan_completes:
  assumes L: "linked peer n gs" and r: "room 24"
  shows "\<exists>d rs. n \<le> 2 ^ d \<and> completes cap peer {..<n} (\<lambda>i. chain_scan xchg (F i) (G i) (gs i)) rs
    \<and> (\<forall>i<n. left_scan G n d i (fst (rs i)) \<and> right_scan F d i (snd (rs i)))"
proof -
  let ?body = "\<lambda>i round dist (send_left, send_right, recv_left, recv_right).
         pbind (xchg (gs i) round dist (\<lambda>ch. write_u64s ch send_left) (\<lambda>ch. write_u64s ch send_right)
           (\<lambda>ch. read_u64s ch recv_left 3) (\<lambda>ch. read_u64s ch recv_right 3) recv_left recv_right)
         (\<lambda>(recv_left, recv_right).
           Ret (if grp_rank (gs i) + dist < grp_size (gs i) then scan_reduce send_left recv_right else send_left,
                if dist \<le> grp_rank (gs i) then scan_reduce send_right recv_left else send_right,
                recv_left, recv_right))"
  let ?I = "\<lambda>d st. \<forall>i<n. left_scan G n d i (fst (st i)) \<and> right_scan F d i (fst (snd (st i)))"
  let ?st0 = "\<lambda>i. (scan_init (G i), scan_init (F i), [0, 0, 0], [0, 0, 0])"
  have "\<exists>d st. n \<le> 2 ^ d \<and> ?I d st \<and> completes cap peer {..<n} (\<lambda>i. doubling (?body i) n 0 1 (?st0 i)) st"
  proof (rule doubling_completes)
    show "?I 0 ?st0"
      using scanned_init by (auto simp: left_scan_def right_scan_def lseg_start rseg_start rwindow_0 lwindow_0)
    fix d and st :: "nat \<Rightarrow> u64 list \<times> u64 list \<times> u64 list \<times> u64 list"
    assume I: "?I d st"
    let ?l = "\<lambda>i. fst (st i)" and ?r = "\<lambda>i. fst (snd (st i))"
      and ?x = "\<lambda>i. fst (snd (snd (st i)))" and ?y = "\<lambda>i. snd (snd (snd (st i)))"
    let ?f = "\<lambda>i (p :: u64 list \<times> u64 list). (if i + 2 ^ d < n then scan_reduce (?l i) (snd p) else ?l i,
      if 2 ^ d \<le> i then scan_reduce (?r i) (fst p) else ?r i, fst p, snd p)"
    let ?st = "\<lambda>i. ?f i (if 2 ^ d \<le> i then ?r (i - 2 ^ d) else ?x i, if i + 2 ^ d < n then ?l (i + 2 ^ d) else ?y i)"
    have "completes cap peer {..<n} (\<lambda>i. pbind (xchg (gs i) d (2 ^ d) (\<lambda>ch. write_u64s ch (?l i)) (\<lambda>ch. write_u64s ch (?r i))
      (\<lambda>ch. read_u64s ch (?x i) 3) (\<lambda>ch. read_u64s ch (?y i) 3) (?x i) (?y i)) (\<lambda>p. Ret (?f i p))) ?st"
      by (rule u64_round [OF L]) (use I r in \<open>auto simp: left_scan_def right_scan_def scanned_def\<close>)
    then have "completes cap peer {..<n} (\<lambda>i. ?body i d (2 ^ d) (st i)) ?st"
      by (rule completes_cong) (use L in \<open>auto simp: case_prod_unfold\<close>)
    moreover have "?I (Suc d) ?st"
    proof (intro allI impI conjI)
      fix i assume i: "i < n"
      show "left_scan G n (Suc d) i (fst (?st i))"
        using left_scan_Suc [of G n d i "?l i" "?l (i + 2 ^ d)"] I i by (simp split: if_splits)
      show "right_scan F (Suc d) i (fst (snd (?st i)))"
        using right_scan_Suc [of F d i "?r i" "?r (i - 2 ^ d)"] I i by (simp split: if_splits)
    qed
    ultimately show "\<exists>st'. completes cap peer {..<n} (\<lambda>i. ?body i d (2 ^ d) (st i)) st' \<and> ?I (Suc d) st'" by blast
  qed
  then obtain d st where d: "n \<le> 2 ^ d" "?I d st"
    and c: "completes cap peer {..<n} (\<lambda>i. doubling (?body i) n 0 1 (?st0 i)) st" by blast
  have "completes cap peer {..<n} (\<lambda>i. pbind (doubling (?body i) n 0 1 (?st0 i))
      (\<lambda>(send_left, send_right, recv_left, recv_right). Ret (send_left, send_right)))
      (\<lambda>i. (fst (st i), fst (snd (st i))))"
    by (rule completes_bind [OF c]) (rule completes_RetI, simp add: case_prod_unfold)
  then have "completes cap peer {..<n} (\<lambda>i. chain_scan xchg (F i) (G i) (gs i)) (\<lambda>i. (fst (st i), fst (snd (st i))))"
    by (rule completes_cong) (use L in \<open>auto simp: chain_scan_def\<close>)
  then show ?thesis using d by (intro exI [of _ d] exI [of _ "\<lambda>i. (fst (st i), fst (snd (st i)))"]) simp
qed

end

section \<open>Groups of equal color\<close>

text \<open>
  The specification, as in \<open>MPI_Comm_split\<close>: the processes with the color of process \<open>i\<close>, ordered by
  key and, for equal keys, by rank in the old group.
\<close>

definition members :: "nat \<Rightarrow> (nat \<Rightarrow> 'c) \<Rightarrow> (nat \<Rightarrow> int) \<Rightarrow> nat \<Rightarrow> nat list" where
  "members n color key i = sort_key key (filter (\<lambda>j. color j = color i) [0..<n])"

definition position :: "nat \<Rightarrow> nat list \<Rightarrow> nat" where
  "position i g = length (takeWhile (\<lambda>j. j \<noteq> i) g)"

definition split_call :: "nat \<Rightarrow> (nat \<Rightarrow> 'c) \<Rightarrow> (nat \<Rightarrow> int) \<Rightarrow> (nat \<Rightarrow> lwgrp) \<Rightarrow> nat \<Rightarrow> create_call" where
  "split_call n color key gs i =
     (let g = members n color key i; r = position i g in
      \<lparr>call_ranks = int (length g), call_rank = int r, call_name = grp_name (gs i),
       call_left = (if 0 < r then Some (grp_name (gs (g ! (r - 1)))) else None),
       call_right = (if r + 1 < length g then Some (grp_name (gs (g ! (r + 1)))) else None),
       call_ep = grp_ep (gs i)\<rparr>)"

text \<open>\<open>s p\<close> is the process whose item is at position \<open>p\<close> of the sorted order.\<close>

definition arranged :: "nat \<Rightarrow> (nat \<Rightarrow> 'c) \<Rightarrow> (nat \<Rightarrow> int) \<Rightarrow> (nat \<Rightarrow> nat) \<Rightarrow> bool" where
  "arranged n color key s \<longleftrightarrow> bij_betw s {..<n} {..<n}
     \<and> (\<forall>p q. p < q \<longrightarrow> q < n \<longrightarrow> color (s p) = color (s q) \<longrightarrow>
          key (s p) < key (s q) \<or> key (s p) = key (s q) \<and> s p < s q)
     \<and> (\<forall>p q r. p < q \<longrightarrow> q < r \<longrightarrow> r < n \<longrightarrow> color (s p) = color (s r) \<longrightarrow> color (s q) = color (s r))"

lemma members_arranged:
  assumes "arranged n color key s"
  shows "members n color key i = filter (\<lambda>j. color j = color i) (map s [0..<n])"
proof -
  let ?A = "filter (\<lambda>j. color j = color i) [0..<n]" and ?B = "filter (\<lambda>j. color j = color i) (map s [0..<n])"
  let ?R = "\<lambda>a b. color a = color b \<longrightarrow> key a < key b \<or> key a = key b \<and> a < b"
  have bij: "bij_betw s {..<n} {..<n}" using assms by (simp add: arranged_def)
  have sets: "set (map s [0..<n]) = {..<n}" using bij by (simp add: bij_betw_def atLeast0LessThan)
  have dist: "distinct (map s [0..<n])" using bij by (simp add: bij_betw_def distinct_map atLeast0LessThan)
  have "sorted_wrt (<) [0..<n]" by (rule sorted_wrt_upt)
  then have "sorted_wrt (\<lambda>p q. ?R (s p) (s q)) [0..<n]"
    by (rule sorted_wrt_mono_rel [rotated]) (use assms in \<open>auto simp: arranged_def\<close>)
  then have "sorted_wrt ?R ?B" by (intro sorted_wrt_filter) (simp add: sorted_wrt_map)
  then have B: "sorted_wrt (\<lambda>a b. key a < key b \<or> key a = key b \<and> a < b) ?B"
    by (rule sorted_wrt_mono_rel [rotated]) auto
  have same: "mset ?B = mset ?A"
  proof -
    have "mset (map s [0..<n]) = mset [0..<n]"
      using dist sets by (intro set_eq_iff_mset_eq_distinct [THEN iffD1]) auto
    then show ?thesis by (simp only: mset_filter)
  qed
  have "sort_key key ?A = ?B"
  proof (rule properties_for_sort_key [OF same])
    show "sorted (map key ?B)"
      unfolding sorted_map by (rule sorted_wrt_mono_rel [OF _ B]) auto
    fix k
    have "sorted_wrt (\<lambda>a b. key a < key b \<or> key a = key b \<and> a < b) (filter (\<lambda>x. key k = key x) ?B)"
      by (rule sorted_wrt_filter [OF B])
    then have "sorted (filter (\<lambda>x. key k = key x) ?B)"
      by (rule sorted_wrt_mono_rel [rotated]) auto
    moreover have "sorted (filter (\<lambda>x. key k = key x) ?A)" by (intro sorted_wrt_filter) simp
    ultimately show "filter (\<lambda>x. key k = key x) ?B = filter (\<lambda>x. key k = key x) ?A"
      using dist sets by (intro sorted_distinct_set_unique) (auto simp: atLeast0LessThan)
  qed
  then show ?thesis by (simp add: members_def)
qed

text \<open>The part of the sorted order with the color of position \<open>p\<close>.\<close>

lemma card_filter: "card {j. j < m \<and> P j} = length (filter P [0..<m])"
  by (simp add: length_filter_conv_card) (rule arg_cong [of _ _ card], auto)

lemma segment_arranged:
  assumes s: "arranged n color key s" and p: "p < n"
  defines "g \<equiv> members n color key (s p)" and "c \<equiv> \<lambda>q. color (s q)"
  shows "length g = card {j. j < n \<and> c j = c p}"
    and "position (s p) g = card {j. j < p \<and> c j = c p}"
    and "0 < position (s p) g \<Longrightarrow> 0 < p \<and> g ! (position (s p) g - 1) = s (p - 1)"
    and "position (s p) g + 1 < length g \<Longrightarrow> p + 1 < n \<and> g ! (position (s p) g + 1) = s (p + 1)"
proof -
  let ?f = "filter (\<lambda>j. c j = c p)"
  have inj: "inj_on s {..<n}" using s by (auto simp: arranged_def bij_betw_def)
  have upt: "[0..<n] = [0..<p] @ p # [Suc p..<n]" using upt_add_eq_append [of 0 p "n - p"] upt_conv_Cons [of p n] p by simp
  have g: "g = map s (?f [0..<n])"
    unfolding g_def members_arranged [OF s] by (simp add: filter_map comp_def c_def)
  have g2: "g = map s (?f [0..<p]) @ s p # map s (?f [Suc p..<n])" unfolding g upt by simp
  have r: "position (s p) g = length (?f [0..<p])"
  proof -
    have "s j \<noteq> s p" if "j < p" for j using that p inj by (auto simp: inj_on_def)
    then have "takeWhile (\<lambda>j. j \<noteq> s p) (map s (?f [0..<p]) @ s p # map s (?f [Suc p..<n])) = map s (?f [0..<p])"
      by (intro takeWhile_tail [of "\<lambda>j. j \<noteq> s p" _ _, THEN trans]) (auto simp: takeWhile_append)
    then show ?thesis by (simp add: position_def g2)
  qed
  show "length g = card {j. j < n \<and> c j = c p}" by (simp add: g card_filter)
  show "position (s p) g = card {j. j < p \<and> c j = c p}" by (simp add: r card_filter)
  show "0 < p \<and> g ! (position (s p) g - 1) = s (p - 1)" if pos: "0 < position (s p) g"
  proof -
    obtain j where j: "j < p" "c j = c p" using pos r by (auto simp: filter_empty_conv)
    have prev: "c (p - 1) = c p"
    proof (cases "j = p - 1")
      case False
      then have "j < p - 1" "p - 1 < p" using j(1) by auto
      then show ?thesis using s p j(2) unfolding arranged_def c_def by blast
    qed (use j in simp)
    have last: "[0..<p] = [0..<p - 1] @ [p - 1]" using j by (cases p) auto
    have "?f [0..<p] = ?f [0..<p - 1] @ [p - 1]" by (subst last) (use prev in simp)
    then show ?thesis using j unfolding r by (simp add: g2 nth_append)
  qed
  show "p + 1 < n \<and> g ! (position (s p) g + 1) = s (p + 1)" if more: "position (s p) g + 1 < length g"
  proof -
    have "?f [Suc p..<n] \<noteq> []" using more r by (auto simp: g2)
    then obtain j where "j \<in> set [Suc p..<n]" "c j = c p" unfolding filter_empty_conv by blast
    then have j: "p < j" "j < n" "c j = c p" by auto
    have "c (Suc p) = c p"
    proof (cases "j = Suc p")
      case False
      then have "p < Suc p" "Suc p < j" "c p = c j" using j by auto
      then have "c (Suc p) = c j" using s j(2) unfolding arranged_def c_def by blast
      then show ?thesis using j by simp
    qed (use j in simp)
    moreover have "[Suc p..<n] = Suc p # [Suc (Suc p)..<n]" using j by (simp add: upt_conv_Cons)
    ultimately have "?f [Suc p..<n] = Suc p # ?f [Suc (Suc p)..<n]" by simp
    then show ?thesis using j unfolding r by (simp add: g2 nth_append)
  qed
qed

text \<open>The counts of the segmented scan, when \<open>F\<close> and \<open>G\<close> mark the changes of the value \<open>c\<close>.\<close>

lemma constant_below:
  "(\<And>k. j < k \<Longrightarrow> k \<le> p \<Longrightarrow> c (k - 1) = c k) \<Longrightarrow> j \<le> p \<Longrightarrow> c j = c (p :: nat)"
proof (induction p)
  case (Suc p)
  show ?case
  proof (cases "j = Suc p")
    case False
    then have "c j = c p" using Suc by simp
    then show ?thesis using Suc.prems(1) [of "Suc p"] Suc.prems(2) False by simp
  qed simp
qed simp

lemma segments:
  assumes c: "\<And>p q r. p < q \<Longrightarrow> q < r \<Longrightarrow> r < n \<Longrightarrow> c p = c r \<Longrightarrow> c q = c r" and p: "p < (n :: nat)"
    and F: "\<And>k. k < n \<Longrightarrow> F k \<longleftrightarrow> (0 < k \<longrightarrow> c (k - 1) \<noteq> c k)"
    and G: "\<And>k. k < n \<Longrightarrow> G k \<longleftrightarrow> (k + 1 < n \<longrightarrow> c (k + 1) \<noteq> c k)"
  shows "{j. j \<le> p \<and> (\<forall>k. j < k \<longrightarrow> k \<le> p \<longrightarrow> \<not> F k)} = {j. j \<le> p \<and> c j = c p}"
    and "{j. p \<le> j \<and> j < n \<and> (\<forall>k. p \<le> k \<longrightarrow> k < j \<longrightarrow> \<not> G k)} = {j. p \<le> j \<and> j < n \<and> c j = c p}"
proof -
  have same: "c k = c q" if "i \<le> k" "k \<le> q" "q < n" "c i = c q" for i k q
  proof (cases "i = k \<or> k = q")
    case False
    then show ?thesis using that by (intro c [of i k q]) auto
  qed (use that in auto)
  have l: "(\<forall>k. j < k \<longrightarrow> k \<le> p \<longrightarrow> \<not> F k) \<longleftrightarrow> c j = c p" if j: "j \<le> p" for j
  proof
    assume "\<forall>k. j < k \<longrightarrow> k \<le> p \<longrightarrow> \<not> F k"
    then show "c j = c p" by (intro constant_below [OF _ j]) (use F p in auto)
  next
    assume e: "c j = c p"
    show "\<forall>k. j < k \<longrightarrow> k \<le> p \<longrightarrow> \<not> F k"
    proof (intro allI impI)
      fix k assume k: "j < k" "k \<le> p"
      then have "c (k - 1) = c p" "c k = c p" using same [of j "k - 1" p] same [of j k p] p e by auto
      then show "\<not> F k" using F [of k] k p by simp
    qed
  qed
  have r: "(\<forall>k. p \<le> k \<longrightarrow> k < j \<longrightarrow> \<not> G k) \<longleftrightarrow> c j = c p" if j: "p \<le> j" "j < n" for j
  proof
    assume "\<forall>k. p \<le> k \<longrightarrow> k < j \<longrightarrow> \<not> G k"
    then have "c (k - 1) = c k" if "p < k" "k \<le> j" for k using G [of "k - 1"] that j by (auto dest: spec [of _ "k - 1"])
    then show "c j = c p" using constant_below [of p j c] j by simp
  next
    assume e: "c j = c p"
    show "\<forall>k. p \<le> k \<longrightarrow> k < j \<longrightarrow> \<not> G k"
    proof (intro allI impI)
      fix k assume k: "p \<le> k" "k < j"
      then have "c (k + 1) = c j" "c k = c j" using same [of p "k + 1" j] same [of p k j] j e by auto
      then show "\<not> G k" using G [of k] k j by simp
    qed
  qed
  show "{j. j \<le> p \<and> (\<forall>k. j < k \<longrightarrow> k \<le> p \<longrightarrow> \<not> F k)} = {j. j \<le> p \<and> c j = c p}" using l by auto
  show "{j. p \<le> j \<and> j < n \<and> (\<forall>k. p \<le> k \<longrightarrow> k < j \<longrightarrow> \<not> G k)} = {j. p \<le> j \<and> j < n \<and> c j = c p}" using r by auto
qed

lemma segment_counts:
  assumes "p < (n :: nat)"
  shows "card {j. j \<le> p \<and> c j = c p} = Suc (card {j. j < p \<and> c j = c p})"
    and "card {j. j \<le> p \<and> c j = c p} + card {j. p \<le> j \<and> j < n \<and> c j = c p} = Suc (card {j. j < n \<and> c j = c p})"
proof -
  have "{j. j \<le> p \<and> c j = c p} = insert p {j. j < p \<and> c j = c p}" by auto
  then show a: "card {j. j \<le> p \<and> c j = c p} = Suc (card {j. j < p \<and> c j = c p})" by simp
  have "{j. j < n \<and> c j = c p} = {j. j < p \<and> c j = c p} \<union> {j. p \<le> j \<and> j < n \<and> c j = c p}" using assms by auto
  moreover have "{j. j < p \<and> c j = c p} \<inter> {j. p \<le> j \<and> j < n \<and> c j = c p} = {}"
    "finite {j. p \<le> j \<and> j < n \<and> c j = c p}" by auto
  ultimately show "card {j. j \<le> p \<and> c j = c p} + card {j. p \<le> j \<and> j < n \<and> c j = c p} = Suc (card {j. j < n \<and> c j = c p})"
    using a card_Un_disjoint [of "{j. j < p \<and> c j = c p}" "{j. p \<le> j \<and> j < n \<and> c j = c p}"] by simp
qed

text \<open>Sorting the results back: when the items carry distinct ranks, each ends at its rank.\<close>

lemma increasing_identity:
  assumes "bij_betw f {..<n} {..<n :: nat}" "\<And>i j. i < j \<Longrightarrow> j < n \<Longrightarrow> f i \<le> f j" "i < n"
  shows "f i = i"
proof -
  have "sorted_wrt (\<lambda>i j. f i \<le> f j) [0..<n]"
    by (rule sorted_wrt_mono_rel [OF _ sorted_wrt_upt]) (use assms(2) in auto)
  then have "sorted (map f [0..<n])" by (simp add: sorted_wrt_map)
  moreover have "distinct (map f [0..<n])" "set (map f [0..<n]) = set [0..<n]"
    using assms(1) by (simp_all add: bij_betw_def distinct_map atLeast0LessThan)
  ultimately have "map f [0..<n] = [0..<n]" by (intro sorted_distinct_set_unique) auto
  then show ?thesis using assms(3) by (metis add_0 nth_map nth_upt length_upt diff_zero)
qed

lemma sort_back:
  assumes s: "bij_betw s {..<n} {..<n}" and v: "\<And>p. p < n \<Longrightarrow> load_i64 (v p) = int (s p)" and i: "i < n"
  shows "\<exists>p<n. s p = i \<and> net_sort (\<lambda>a b. cmp_int a b 0) 0 n True v i = v p"
proof -
  let ?w = "net_sort (\<lambda>a b. cmp_int a b 0) 0 n True v"
  obtain t where t: "bij_betw t {..<n} {..<n}" "\<And>i. i < n \<Longrightarrow> ?w i = v (t i)"
    using net_sort_rearranged [OF cmp_int_order, of 0 n v 0 True] by (auto simp: rearranged_def atLeast0LessThan)
  have tn: "t i < n" if "i < n" for i using t(1) that by (auto simp: bij_betw_def)
  have "s (t i) \<le> s (t j)" if "i < j" "j < n" for i j
  proof -
    have "cmp_int (?w i) (?w j) 0 \<le> 0"
      using net_sort_sorts [OF cmp_int_order [of 0], of 0 n v] that by (auto simp: sorted_on_def)
    then show ?thesis using t(2) tn v that by (auto simp: cmp_int_def split: if_splits)
  qed
  then have "(s \<circ> t) i = i" by (intro increasing_identity [OF bij_betw_trans [OF t(1) s]]) (use i in auto)
  then show ?thesis using tn [OF i] t(2) [OF i] by auto
qed

section \<open>The split of a sorted sequence\<close>

lemma mem_u64s_Cons: "mem_u64s (x # xs) = mem_u64 x @ mem_u64s xs" "mem_u64s [] = []"
  by (simp_all add: mem_u64s_def)

lemma load_i64_nat: "m < 2 ^ 63 \<Longrightarrow> load_i64 (mem_u64 (of_nat m) @ bs) = int m"
  by (simp add: load_i64_def signed_of_nat signed_take_bit_int_eq_self)

lemma load_i64_u64s [simp]: "load_i64 (mem_u64 x @ bs) = sint x"
  by (simp add: load_i64_def)

lemma length_uninit [simp]: "length (uninit junk k) = k"
  by (simp add: uninit_def)

lemma sint_nat: "m < 2 ^ 63 \<Longrightarrow> sint (of_nat m :: u64) = int m"
  by (simp add: signed_of_nat signed_take_bit_int_eq_self)

lemma load_str_field: "cstring t \<Longrightarrow> load_str ((mem_str t @ pad) @ rest) = t"
  using load_mem_str by simp

text \<open>What the items of the sorted sequence must hold.\<close>

definition sorted_items ::
  "nat \<Rightarrow> (nat \<Rightarrow> lwgrp) \<Rightarrow> (nat \<Rightarrow> 'c) \<Rightarrow> (nat \<Rightarrow> int) \<Rightarrow> (nat \<Rightarrow> nat) \<Rightarrow> (nat \<Rightarrow> byte list) \<Rightarrow> nat \<Rightarrow> nat \<Rightarrow> comparison \<Rightarrow> bool"
  where
  "sorted_items n gs color key s v sz offset compare \<longleftrightarrow> arranged n color key s \<and> n \<le> 2 ^ 31
     \<and> (\<forall>i<n. grp_size (gs i) = n \<and> grp_rank (gs i) = i)
     \<and> (\<forall>p<n. length (v p) = sz \<and> load_u64 (drop offset (v p)) = of_nat (s p))
     \<and> (\<forall>p<n. cstring (grp_name (gs (s p)))
          \<and> (\<exists>pad. drop (offset + 8) (v p) = mem_str (grp_name (gs (s p))) @ pad))
     \<and> (\<forall>p<n. \<forall>q<n. compare (v p) (v q) 0 = 0 \<longleftrightarrow> color (s p) = color (s q))"

definition first_in :: "(nat \<Rightarrow> 'c) \<Rightarrow> (nat \<Rightarrow> nat) \<Rightarrow> nat \<Rightarrow> bool" where
  "first_in color s p \<longleftrightarrow> (0 < p \<longrightarrow> color (s (p - 1)) \<noteq> color (s p))"

definition last_in :: "nat \<Rightarrow> (nat \<Rightarrow> 'c) \<Rightarrow> (nat \<Rightarrow> nat) \<Rightarrow> nat \<Rightarrow> bool" where
  "last_in n color s p \<longleftrightarrow> (p + 1 < n \<longrightarrow> color (s (p + 1)) \<noteq> color (s p))"

lemma arranged_less: "arranged n color key s \<Longrightarrow> p < n \<Longrightarrow> s p < n"
  by (auto simp: arranged_def bij_betw_def)

lemma scan_counts:
  assumes arranged: "arranged n color key s" and p: "p < n" and d: "n \<le> 2 ^ d"
    and sl: "left_scan (last_in n color s) n d p sl" and sr: "right_scan (first_in color s) d p sr"
  shows "sr ! 2 - 1 = of_nat (position (s p) (members n color key (s p)))"
    and "sr ! 2 + sl ! 2 - 1 = of_nat (length (members n color key (s p)))"
proof -
  let ?c = "\<lambda>q. color (s q)"
  have con: "\<And>p q r. p < q \<Longrightarrow> q < r \<Longrightarrow> r < n \<Longrightarrow> ?c p = ?c r \<Longrightarrow> ?c q = ?c r"
    using arranged unfolding arranged_def by blast
  note seg = segments [where c = ?c and F = "first_in color s" and G = "last_in n color s", OF con p]
  note cnt = segment_counts [OF p, of ?c]
  have "p < 2 ^ d" using p d by simp
  then have "sr ! 2 = of_nat (card {j. j \<le> p \<and> ?c j = ?c p})"
    using sr seg(1) by (simp add: right_scan_def scanned_def lseg_start(2) first_in_def last_in_def)
  moreover have "sl ! 2 = of_nat (card {j. p \<le> j \<and> j < n \<and> ?c j = ?c p})"
    using sl seg(2) by (simp add: left_scan_def scanned_def rseg_start(2) [OF d] first_in_def last_in_def)
  ultimately show "sr ! 2 - 1 = of_nat (position (s p) (members n color key (s p)))"
    and "sr ! 2 + sl ! 2 - 1 = of_nat (length (members n color key (s p)))"
    using cnt segment_arranged(1,2) [OF arranged p]
    by (simp_all flip: of_nat_add)
qed

lemma result_create:
  fixes junk :: "nat \<Rightarrow> byte"
  assumes I: "sorted_items n gs color key s v sz offset compare" and p: "p < n" and d: "n \<le> 2 ^ d"
    and sl: "left_scan (last_in n color s) n d p sl" and sr: "right_scan (first_in color s) d p sr"
    and lb: "0 < p \<Longrightarrow> lb = v (p - 1)" and rb: "p + 1 < n \<Longrightarrow> rb = v (p + 1)"
  defines "r \<equiv> chain_result junk (v p) lb rb sz offset sl sr (gs p)"
  shows "length r = 5 * 8 + 2 * (sz - (offset + 8))" "load_i64 r = int (s p)"
    "create_from r (sz - (offset + 8)) (gs (s p)) = split_call n color key gs (s p)"
proof -
  have arranged: "arranged n color key s" and small: "n \<le> 2 ^ 31"
    and ranks: "\<And>i. i < n \<Longrightarrow> grp_size (gs i) = n \<and> grp_rank (gs i) = i"
    and items: "\<And>p. p < n \<Longrightarrow> length (v p) = sz \<and> load_u64 (drop offset (v p)) = of_nat (s p)"
    and names: "\<And>p. p < n \<Longrightarrow> cstring (grp_name (gs (s p)))
      \<and> (\<exists>pad. drop (offset + 8) (v p) = mem_str (grp_name (gs (s p))) @ pad)"
    using I by (auto simp: sorted_items_def)
  let ?g = "members n color key (s p)" and ?ps = "sz - (offset + 8)"
  let ?r = "position (s p) ?g"
  let ?ln = "if 0 < p then drop (offset + 8) (v (p - 1)) else uninit junk ?ps"
  let ?rn = "if p + 1 < n then drop (offset + 8) (v (p + 1)) else uninit junk ?ps"
  have "take ?ps (drop (offset + 8) lb) = drop (offset + 8) (v (p - 1))" if "0 < p"
    using items [of "p - 1"] p lb [OF that] by simp
  moreover have "take ?ps (drop (offset + 8) rb) = drop (offset + 8) (v (p + 1))" if "p + 1 < n"
    using items [OF that] rb [OF that] by simp
  ultimately have r: "r = mem_u64 (of_nat (s p)) @ mem_u64 (of_nat ?r) @ mem_u64 (of_nat (length ?g))
      @ mem_u64 (sr ! 0 - 1) @ mem_u64 (sr ! 0 + sl ! 0 - 1) @ ?ln @ ?rn"
    using ranks [OF p] items [OF p] scan_counts [OF arranged p d sl sr]
    by (simp add: r_def chain_result_def Let_def mem_u64s_Cons cong: if_cong)
  have len: "length ?ln = ?ps" "length ?rn = ?ps" using items p by auto
  show "length r = 5 * 8 + 2 * ?ps" unfolding r using len by simp
  note seg = segment_arranged [OF arranged p]
  have "length ?g \<le> n" using seg(1) card_mono [of "{..<n}" "{j. j < n \<and> color (s j) = color (s p)}"] by auto
  moreover have "?r \<le> length ?g" by (simp add: position_def length_takeWhile_le)
  ultimately have b: "length ?g < 2 ^ 63" "?r < 2 ^ 63" "s p < 2 ^ 63" using small arranged_less [OF arranged p] by auto
  show "load_i64 r = int (s p)" unfolding r using b by (simp add: sint_nat)
  have nr: "load_i64 (drop (8 * 1) r) = int ?r" "load_i64 (drop (8 * 2) r) = int (length ?g)"
    unfolding r using b by (simp_all add: sint_nat)
  have dr: "drop (5 * 8) r = ?ln @ ?rn" "drop (5 * 8 + ?ps) r = ?rn"
    unfolding r using len by simp_all
  have nm: "load_str (drop (offset + 8) (v q) @ rest) = grp_name (gs (s q))" if "q < n" for q rest
    using names [OF that] load_mem_str by auto
  have l: "load_str (drop (5 * 8) r) = grp_name (gs (?g ! (?r - 1)))" if "0 < ?r"
    using seg(3) [OF that] nm [of "p - 1"] p unfolding dr by auto
  have rr: "load_str (drop (5 * 8 + ?ps) r) = grp_name (gs (?g ! (?r + 1)))" if "?r + 1 < length ?g"
    using seg(4) [OF that] nm [of "p + 1" "[]"] p unfolding dr by auto
  show "create_from r ?ps (gs (s p)) = split_call n color key gs (s p)"
    using l rr unfolding create_from_def nr split_call_def Let_def by auto
qed

text \<open>Both variants, in terms of the contracts of their rounds.\<close>

locale split_exchange = b: byte_exchange None "\<lambda>_. True" bx + u: u64_exchange None "\<lambda>_. True" ux
  for bx :: "(unit, byte list) xchg" and ux :: "(unit, u64 list) xchg"
begin

lemma neighbours_complete:
  assumes "linked peer n gs" "\<And>i. i < n \<Longrightarrow> length (v i) = sz"
  shows "completes None peer {..<n} (\<lambda>i. bx (gs i) 0 1 (\<lambda>ch. net_write ch (v i)) (\<lambda>ch. net_write ch (v i))
      (\<lambda>ch. read_buf ch (j i) sz) (\<lambda>ch. read_buf ch (j i) sz) (j i) (j i))
    (\<lambda>i. (if 0 < i then v (i - 1) else j i, if i + 1 < n then v (i + 1) else j i))"
  using b.xchg_completes [OF assms(1), where d = 0 and ml = "\<lambda>i. [v i]" and mr = "\<lambda>i. [v i]" and u = "\<lambda>_. ()"
      and wleft = "\<lambda>i ch. net_write ch (v i)" and wright = "\<lambda>i ch. net_write ch (v i)"
      and rleft = "\<lambda>i ch. read_buf ch (j i) sz" and rright = "\<lambda>i ch. read_buf ch (j i) sz"
      and xl = "\<lambda>i. v (i - 1)" and xr = "\<lambda>i. v (i + 1)" and dl = j and dr = j]
    write_buf_sends read_buf_reads assms(2)
  by (simp add: Suc_le_eq cong: if_cong)

lemma split_sorted_completes:
  assumes L: "linked peer n gs" and I: "sorted_items n gs color key s v sz offset compare"
  shows "completes None peer {..<n} (\<lambda>i. split_sorted_with bx ux (junk i) (v i) sz offset compare (gs i))
    (split_call n color key gs)"
proof -
  let ?ps = "sz - (offset + 8)" and ?j = "\<lambda>i. uninit (junk i) sz"
  let ?lb = "\<lambda>i. if 0 < i then v (i - 1) else ?j i" and ?rb = "\<lambda>i. if i + 1 < n then v (i + 1) else ?j i"
  have ar: "arranged n color key s" and small: "n \<le> 2 ^ 31" and len: "\<And>i. i < n \<Longrightarrow> length (v i) = sz"
    and same: "\<And>p q. p < n \<Longrightarrow> q < n \<Longrightarrow> compare (v p) (v q) 0 = 0 \<longleftrightarrow> color (s p) = color (s q)"
    using I by (auto simp: sorted_items_def)
  obtain d rs where d: "n \<le> 2 ^ d"
    and scan: "completes None peer {..<n} (\<lambda>i. chain_scan ux (first_in color s i) (last_in n color s i) (gs i)) rs"
    and rs: "\<And>i. i < n \<Longrightarrow> left_scan (last_in n color s) n d i (fst (rs i))"
      "\<And>i. i < n \<Longrightarrow> right_scan (first_in color s) d i (snd (rs i))"
    using u.chain_scan_completes [OF L TrueI, of "first_in color s" "last_in n color s"] by blast
  let ?r = "\<lambda>i. chain_result (junk i) (v i) (?lb i) (?rb i) sz offset (fst (rs i)) (snd (rs i)) (gs i)"
  have r: "length (?r p) = 5 * 8 + 2 * ?ps" "load_i64 (?r p) = int (s p)"
      "create_from (?r p) ?ps (gs (s p)) = split_call n color key gs (s p)" if p: "p < n" for p
    by (rule result_create [OF I p d rs(1) [OF p] rs(2) [OF p]]; simp)+
  let ?w = "net_sort (\<lambda>a b. cmp_int a b 0) 0 n True ?r"
  have home: "create_from (?w i) ?ps (gs i) = split_call n color key gs i" if i: "i < n" for i
  proof -
    have bij: "bij_betw s {..<n} {..<n}" using ar by (simp add: arranged_def)
    from sort_back [where v = ?r, OF bij r(2) i] obtain p where "p < n" "s p = i" "?w i = ?r p" by blast
    then show ?thesis using r(3) [of p] by simp
  qed
  let ?fin = "\<lambda>i (rc :: int, result_buf). Ret (create_from result_buf ?ps (gs i))"
  let ?sort = "\<lambda>i x. pbind (lwgrp_sort_bitonic (uninit (junk i) (5 * 8 + 2 * ?ps)) x (5 * 8 + 2 * ?ps) 0 cmp_int (gs i)) (?fin i)"
  have sort: "completes None peer {..<n} (\<lambda>i. ?sort i (?r i)) (split_call n color key gs)"
  proof (rule completes_bind)
    show "completes None peer {..<n} (\<lambda>i. lwgrp_sort_bitonic (uninit (junk i) (5 * 8 + 2 * ?ps)) (?r i) (5 * 8 + 2 * ?ps) 0 cmp_int (gs i))
        (\<lambda>i. (0, ?w i))"
      by (rule bitonic_completes [where compare = cmp_int and offset = 0 and v = ?r, OF L small cmp_int_order r(1)])
    show "completes None peer {..<n} (\<lambda>i. ?fin i (0, ?w i)) (split_call n color key gs)"
      by (rule completes_RetI) (simp only: lessThan_iff home prod.case)
  qed
  let ?tail = "\<lambda>i (left_buf, right_buf). pbind (chain_scan ux
      (if 0 < i then compare left_buf (v i) 0 \<noteq> 0 else True) (if i + 1 < n then compare right_buf (v i) 0 \<noteq> 0 else True) (gs i))
      (\<lambda>(send_left, send_right). ?sort i (chain_result (junk i) (v i) left_buf right_buf sz offset send_left send_right (gs i)))"
  have marks: "(if 0 < i then compare (?lb i) (v i) 0 \<noteq> 0 else True) = first_in color s i"
    "(if i + 1 < n then compare (?rb i) (v i) 0 \<noteq> 0 else True) = last_in n color s i" if "i < n" for i
    using same [of "i - 1" i] same [of "i + 1" i] that by (auto simp: first_in_def last_in_def)
  have tail: "completes None peer {..<n} (\<lambda>i. ?tail i (?lb i, ?rb i)) (split_call n color key gs)"
  proof (rule completes_cong)
    show "completes None peer {..<n} (\<lambda>i. pbind (chain_scan ux (first_in color s i) (last_in n color s i) (gs i))
      (\<lambda>p. ?sort i (chain_result (junk i) (v i) (?lb i) (?rb i) sz offset (fst p) (snd p) (gs i)))) (split_call n color key gs)"
      by (rule completes_bind [OF scan]) (rule sort)
  qed (simp_all only: lessThan_iff case_prod_unfold fst_conv snd_conv marks)
  have "completes None peer {..<n} (\<lambda>i. pbind (bx (gs i) 0 1 (\<lambda>ch. net_write ch (v i)) (\<lambda>ch. net_write ch (v i))
      (\<lambda>ch. read_buf ch (?j i) sz) (\<lambda>ch. read_buf ch (?j i) sz) (?j i) (?j i)) (?tail i)) (split_call n color key gs)"
    by (rule completes_bind [where rs = "\<lambda>i. (?lb i, ?rb i)"], rule neighbours_complete [OF L len], assumption, rule tail)
  then show ?thesis
    by (rule completes_cong) (use L in \<open>simp_all add: split_sorted_with_def Let_def\<close>)
qed

end

interpretation plain_split: split_exchange exchange exchange
  by unfold_locales

interpretation blocking_split: split_exchange exchange_blocking exchange_blocking
  by unfold_locales

end
