(* ===== verification/Lwgrp_Comm_Split.thy ===== *)
theory Lwgrp_Comm_Split
  imports Lwgrp_Split
begin

text \<open>
  \<open>lwgrp_split\<close> and \<open>lwgrp_split_str\<close> compute the groups of equal color, in every schedule of the
  processes.
\<close>

lemma net_sort_arrangement:
  assumes "total_preorder c"
  obtains s where "bij_betw s {..<n} {..<n}" "\<And>p. p < n \<Longrightarrow> net_sort c 0 n True v p = v (s p)"
    "\<And>p q. p < q \<Longrightarrow> q < n \<Longrightarrow> c (v (s p)) (v (s q)) \<le> 0"
proof -
  obtain s where s: "bij_betw s {..<n} {..<n}" "\<And>p. p < n \<Longrightarrow> net_sort c 0 n True v p = v (s p)"
    using net_sort_rearranged [OF assms, of 0 n v True] by (auto simp: rearranged_def atLeast0LessThan)
  have "c (v (s p)) (v (s q)) \<le> 0" if "p < q" "q < n" for p q
    using net_sort_sorts [OF assms, of 0 n v] that s(2) by (auto simp: sorted_on_def)
  then show ?thesis using that s by blast
qed

lemma str_size_unat: "length t + 1 < 2 ^ 64 \<Longrightarrow> unat (str_size t) = length t + 1"
  unfolding str_size_def by (rule unat_word_of_nat_u64)

lemma max_size:
  fixes f :: "nat \<Rightarrow> string"
  assumes "i < n" "length (f i) + 1 < 2 ^ 64"
  shows "length (f i) + 1 \<le> unat (Max ((\<lambda>j. str_size (f j)) ` {..<n}))"
proof -
  have "str_size (f i) \<le> Max ((\<lambda>j. str_size (f j)) ` {..<n})" using assms(1) by (intro Max_ge) auto
  then show ?thesis using str_size_unat [OF assms(2)] by (simp add: word_le_nat_alt)
qed

lemma length_strcpy_field: "length t + 1 \<le> k \<Longrightarrow> length (strcpy_field junk t k) = k"
  by (simp add: strcpy_field_def)

lemma drop_mem_u64 [simp]:
  "drop 8 (mem_u64 x @ bs) = bs" "drop 16 (mem_u64 x @ bs) = drop 8 bs" "drop 24 (mem_u64 x @ bs) = drop 16 bs"
  by simp_all

definition triple :: "u64 \<Rightarrow> u64 \<Rightarrow> nat \<Rightarrow> byte list \<Rightarrow> byte list" where
  "triple color key rank name = mem_u64s [color, key, word_of_nat rank] @ name"

lemma triple_fields:
  "load_i64 (triple a b r m) = sint a" "load_i64 (drop 8 (triple a b r m)) = sint b"
  "load_i64 (drop 16 (triple a b r m)) = sint (word_of_nat r :: u64)" "load_u64 (drop 16 (triple a b r m)) = word_of_nat r"
  "drop 24 (triple a b r m) = m" "length (triple a b r m) = 24 + length m"
  by (simp_all add: triple_def mem_u64s_Cons)

lemma triple_cmp:
  assumes "cmp_three_ints (triple a b r m) (triple a' b' r' m') 0 \<le> 0" "r < 2 ^ 63" "r' < 2 ^ 63"
  shows "sint a < sint a' \<or> a = a' \<and> (sint b < sint b' \<or> b = b' \<and> r \<le> r')"
  using assms unfolding cmp_three_ints_def triple_fields
  by (auto simp: sint_nat split: if_splits intro: signed_word_eqI)

lemma triples_arranged:
  fixes color key :: "nat \<Rightarrow> u64"
  assumes s: "bij_betw s {..<n} {..<n}" and n: "n \<le> 2 ^ 31"
    and c: "\<And>p q. p < q \<Longrightarrow> q < n \<Longrightarrow> cmp_three_ints (triple (color (s p)) (key (s p)) (s p) (m (s p)))
      (triple (color (s q)) (key (s q)) (s q) (m (s q))) 0 \<le> 0"
  shows "arranged n color (\<lambda>j. sint (key j)) s"
proof -
  have sn: "s p < 2 ^ 63" if "p < n" for p
  proof -
    have "s p < n" using s that by (auto simp: bij_betw_def)
    then show ?thesis using n by simp
  qed
  have inj: "s p \<noteq> s q" if "p < q" "q < n" for p q using s that by (force simp: bij_betw_def inj_on_def)
  have le: "sint (color (s p)) < sint (color (s q)) \<or> color (s p) = color (s q)
      \<and> (sint (key (s p)) < sint (key (s q)) \<or> key (s p) = key (s q) \<and> s p < s q)" if "p < q" "q < n" for p q
    using triple_cmp [OF c [OF that]] sn [of p] sn [of q] inj [OF that] that by auto
  have mid: "color (s q) = color (s r)" if "p < q" "q < r" "r < n" "color (s p) = color (s r)" for p q r
    using le [of p q] le [of q r] that by auto
  show ?thesis unfolding arranged_def using s le mid by fastforce
qed

lemma split_completes:
  fixes color key :: "nat \<Rightarrow> u64"
  assumes L: "linked peer n gs" "n \<le> 2 ^ 31"
    and names: "\<And>i. i < n \<Longrightarrow> cstring (grp_name (gs i)) \<and> length (grp_name (gs i)) + 1 < 2 ^ 64"
  shows "completes None peer {..<n} (\<lambda>i. lwgrp_split (junk i) (gs i) (color i) (key i))
    (split_call n color (\<lambda>j. sint (key j)) gs)"
proof -
  let ?M = "unat (Max ((\<lambda>j. str_size (grp_name (gs j))) ` {..<n}))"
  let ?m = "\<lambda>i. strcpy_field (junk i) (grp_name (gs i)) ?M"
  let ?v = "\<lambda>i. triple (color i) (key i) i (?m i)" and ?c = "\<lambda>a b. cmp_three_ints a b 0"
  have len: "length (?v i) = 3 * 8 + ?M" if "i < n" for i
    using max_size [OF that, of "\<lambda>i. grp_name (gs i)"] names [OF that] by (simp add: triple_fields length_strcpy_field)
  obtain s where s: "bij_betw s {..<n} {..<n}" "\<And>p. p < n \<Longrightarrow> net_sort ?c 0 n True ?v p = ?v (s p)"
      "\<And>p q. p < q \<Longrightarrow> q < n \<Longrightarrow> cmp_three_ints (?v (s p)) (?v (s q)) 0 \<le> 0"
    using net_sort_arrangement [OF cmp_three_ints_order [of 0], where n = n and v = ?v] by blast
  let ?w = "net_sort ?c 0 n True ?v"
  have sn: "s p < n" if "p < n" for p using s(1) that by (auto simp: bij_betw_def)
  have I: "sorted_items n gs color (\<lambda>j. sint (key j)) s ?w (3 * 8 + ?M) (2 * 8) cmp_int"
    unfolding sorted_items_def
  proof (intro conjI allI impI)
    show "arranged n color (\<lambda>j. sint (key j)) s" by (rule triples_arranged [OF s(1) L(2) s(3)])
    fix p assume p: "p < n"
    show "length (?w p) = 3 * 8 + ?M" using s(2) [OF p] len [OF sn [OF p]] by simp
    show "load_u64 (drop (2 * 8) (?w p)) = of_nat (s p)" using s(2) [OF p] by (simp add: triple_fields)
    show "cstring (grp_name (gs (s p)))" using names sn p by blast
    show "\<exists>pad. drop (2 * 8 + 8) (?w p) = mem_str (grp_name (gs (s p))) @ pad"
      using s(2) [OF p] by (simp add: triple_fields strcpy_field_def)
    show "(cmp_int (?w p) (?w q) 0 = 0) = (color (s p) = color (s q))" if "q < n" for q
      using s(2) [OF p] s(2) [OF that] by (auto simp: cmp_int_def triple_fields intro: signed_word_eqI)
  qed (use L in auto)
  have split: "completes None peer {..<n} (\<lambda>i. lwgrp_split_sorted (junk i) (?w i) (3 * 8 + ?M) (2 * 8) cmp_int (gs i))
      (split_call n color (\<lambda>j. sint (key j)) gs)"
    unfolding lwgrp_split_sorted_def by (rule plain_split.split_sorted_completes [OF L(1) I])
  have "completes None peer {..<n} (\<lambda>i. lwgrp_sort_bitonic (uninit (junk i) (3 * 8 + ?M)) (?v i) (3 * 8 + ?M) 0 cmp_three_ints (gs i))
      (\<lambda>i. (0, ?w i))"
    by (rule bitonic_completes [where compare = cmp_three_ints and offset = 0 and v = ?v, OF L cmp_three_ints_order len])
  then have sort: "completes None peer {..<n} (\<lambda>i. pbind (lwgrp_sort_bitonic (uninit (junk i) (3 * 8 + ?M)) (?v i) (3 * 8 + ?M) 0 cmp_three_ints (gs i))
      (\<lambda>(rc, buf). lwgrp_split_sorted (junk i) buf (3 * 8 + ?M) (2 * 8) cmp_int (gs i))) (split_call n color (\<lambda>j. sint (key j)) gs)"
    by (rule completes_bind) (use split in simp)
  have "completes None peer {..<n} (\<lambda>i. lwgrp_allreduce_uint64_max (load_u64s 1 (uninit (junk i) 8)) [str_size (grp_name (gs i))] 1 (gs i))
      (\<lambda>i. (LWGRP_SUCCESS, vec 1 (\<lambda>k. Max ((\<lambda>j. [str_size (grp_name (gs j))] ! k) ` {..<n}))))"
    unfolding lwgrp_allreduce_uint64_max_def by (rule plain_u64.allreduce_max_completes [OF L(1)]) simp_all
  then show ?thesis
    unfolding lwgrp_split_def
    by (rule completes_bind) (rule completes_cong [OF sort], use L in \<open>auto simp: triple_def Let_def\<close>)
qed

text \<open>The items of \<open>lwgrp_split_str\<close>: a string, the rank and the endpoint name.\<close>

definition str_item :: "byte list \<Rightarrow> nat \<Rightarrow> byte list \<Rightarrow> byte list" where
  "str_item str rank name = str @ mem_u64 (word_of_nat rank) @ name"

lemma str_item_fields:
  assumes "length t + 1 \<le> k" "cstring t"
  shows "load_str (str_item (strcpy_field junk t k) r m) = t"
    "load_i64 (drop k (str_item (strcpy_field junk t k) r m)) = sint (word_of_nat r :: u64)"
    "load_u64 (drop k (str_item (strcpy_field junk t k) r m)) = word_of_nat r"
    "drop (k + 8) (str_item (strcpy_field junk t k) r m) = m"
    "length (str_item (strcpy_field junk t k) r m) = k + 8 + length m"
  using length_strcpy_field [OF assms(1), of junk] load_mem_str [OF assms(2)]
  by (simp_all add: str_item_def) (simp add: strcpy_field_def)

lemma strings_arranged:
  assumes s: "bij_betw s {..<n} {..<n}"
    and c: "\<And>p q. p < q \<Longrightarrow> q < n \<Longrightarrow> str (s p) < (str (s q) :: string) \<or> str (s p) = str (s q) \<and> s p \<le> s q"
  shows "arranged n str (\<lambda>_. 0) s"
proof -
  have inj: "s p \<noteq> s q" if "p < q" "q < n" for p q using s that by (force simp: bij_betw_def inj_on_def)
  have le: "str (s p) < str (s q) \<or> str (s p) = str (s q) \<and> s p < s q" if "p < q" "q < n" for p q
    using c [OF that] inj [OF that] by auto
  have mid: "str (s q) = str (s r)" if "p < q" "q < r" "r < n" "str (s p) = str (s r)" for p q r
    using le [of p q] le [of q r] that by auto
  show ?thesis unfolding arranged_def using s le mid by fastforce
qed

lemma split_str_completes:
  assumes L: "linked peer n gs" "n \<le> 2 ^ 31"
    and names: "\<And>i. i < n \<Longrightarrow> cstring (grp_name (gs i)) \<and> length (grp_name (gs i)) + 1 < 2 ^ 64"
    and strs: "\<And>i. i < n \<Longrightarrow> cstring (str i) \<and> length (str i) + 1 < 2 ^ 64"
  shows "completes None peer {..<n} (\<lambda>i. lwgrp_split_str (junk i) (gs i) (str i)) (split_call n str (\<lambda>_. 0) gs)"
proof -
  let ?K = "unat (Max ((\<lambda>j. str_size (str j)) ` {..<n}))" and ?M = "unat (Max ((\<lambda>j. str_size (grp_name (gs j))) ` {..<n}))"
  let ?m = "\<lambda>i. strcpy_field (junk i) (grp_name (gs i)) ?M" and ?sz = "?K + 8 + ?M"
  let ?v = "\<lambda>i. str_item (strcpy_field (junk i) (str i) ?K) i (?m i)" and ?c = "\<lambda>a b. cmp_str_int a b ?K"
  have k: "length (str i) + 1 \<le> ?K" "length (grp_name (gs i)) + 1 \<le> ?M" if "i < n" for i
    using max_size [OF that, of str] max_size [OF that, of "\<lambda>i. grp_name (gs i)"] names [OF that] strs [OF that] by auto
  note fld = str_item_fields [OF k(1) conjunct1 [OF strs]]
  have len: "length (?v i) = ?sz" if "i < n" for i
    using fld(5) [OF that that] length_strcpy_field [OF k(2) [OF that]] by simp
  obtain s where s: "bij_betw s {..<n} {..<n}" "\<And>p. p < n \<Longrightarrow> net_sort ?c 0 n True ?v p = ?v (s p)"
      "\<And>p q. p < q \<Longrightarrow> q < n \<Longrightarrow> cmp_str_int (?v (s p)) (?v (s q)) ?K \<le> 0"
    using net_sort_arrangement [OF cmp_str_int_order [of ?K], where n = n and v = ?v] by blast
  let ?w = "net_sort ?c 0 n True ?v"
  have sn: "s p < n" if "p < n" for p using s(1) that by (auto simp: bij_betw_def)
  have ord: "str (s p) < str (s q) \<or> str (s p) = str (s q) \<and> s p \<le> s q" if "p < q" "q < n" for p q
  proof -
    have r: "s p < n" "s q < n" "s p < 2 ^ 63" "s q < 2 ^ 63" using sn [of p] sn [of q] that L(2) by auto
    show ?thesis
      using s(3) [OF that] fld(1,2) [OF r(1) r(1)] fld(1,2) [OF r(2) r(2)] r(3,4)
      by (auto simp: cmp_str_int_eq cmp_int_def sint_nat split: if_splits)
  qed
  have I: "sorted_items n gs str (\<lambda>_. 0) s ?w ?sz ?K cmp_str"
    unfolding sorted_items_def
  proof (intro conjI allI impI)
    show "arranged n str (\<lambda>_. 0) s" by (rule strings_arranged [OF s(1) ord])
    fix p assume p: "p < n"
    note f = fld [OF sn [OF p] sn [OF p]]
    show "length (?w p) = ?sz" using s(2) [OF p] len [OF sn [OF p]] by simp
    show "load_u64 (drop ?K (?w p)) = of_nat (s p)" using s(2) [OF p] f by simp
    show "cstring (grp_name (gs (s p)))" using names sn p by blast
    show "\<exists>pad. drop (?K + 8) (?w p) = mem_str (grp_name (gs (s p))) @ pad"
      using s(2) [OF p] f by (simp add: strcpy_field_def)
    show "(cmp_str (?w p) (?w q) 0 = 0) = (str (s p) = str (s q))" if "q < n" for q
      using s(2) [OF p] s(2) [OF that] f fld(1) [OF sn [OF that] sn [OF that]] by (simp add: cmp_str_eq)
  qed (use L in auto)
  have split: "completes None peer {..<n} (\<lambda>i. lwgrp_split_sorted (junk i) (?w i) ?sz ?K cmp_str (gs i)) (split_call n str (\<lambda>_. 0) gs)"
    unfolding lwgrp_split_sorted_def by (rule plain_split.split_sorted_completes [OF L(1) I])
  have "completes None peer {..<n} (\<lambda>i. lwgrp_sort_bitonic (uninit (junk i) ?sz) (?v i) ?sz ?K cmp_str_int (gs i)) (\<lambda>i. (0, ?w i))"
    by (rule bitonic_completes [where compare = cmp_str_int and offset = ?K and v = ?v, OF L cmp_str_int_order len])
  then have sort: "completes None peer {..<n} (\<lambda>i. pbind (lwgrp_sort_bitonic (uninit (junk i) ?sz) (?v i) ?sz ?K cmp_str_int (gs i))
      (\<lambda>(rc, buf). lwgrp_split_sorted (junk i) buf ?sz ?K cmp_str (gs i))) (split_call n str (\<lambda>_. 0) gs)"
    by (rule completes_bind) (use split in simp)
  have "completes None peer {..<n} (\<lambda>i. lwgrp_allreduce_uint64_max (load_u64s 2 (uninit (junk i) 16)) [str_size (str i), str_size (grp_name (gs i))] 2 (gs i))
      (\<lambda>i. (LWGRP_SUCCESS, vec 2 (\<lambda>k. Max ((\<lambda>j. [str_size (str j), str_size (grp_name (gs j))] ! k) ` {..<n}))))"
    unfolding lwgrp_allreduce_uint64_max_def by (rule plain_u64.allreduce_max_completes [OF L(1)]) simp_all
  then show ?thesis
    unfolding lwgrp_split_str_def
    by (rule completes_bind) (rule completes_cong [OF sort], use L in \<open>auto simp: str_item_def Let_def\<close>)
qed

end
