(* ===== verification/Lwgrp_Barrier.thy ===== *)
theory Lwgrp_Barrier
  imports Lwgrp_Coll
begin

text \<open>
  The barrier keeps its promise: no process returns before every process has started. The messages
  carry no information, so the argument is about which messages a process must have received. A
  typing judgement \<open>waits\<close> says of a program that it receives from both partners in each of the remaining
  rounds; under it, a process that has finished round \<open>d\<close> has heard, directly or through others,
  of every process in a window of width \<open>2 ^ d\<close> around it.
\<close>

section \<open>Programs that wait for their partners\<close>

text \<open>\<open>l\<close> and \<open>r\<close>: in round \<open>d\<close> the message of the left and of the right partner has been received.\<close>

inductive waits :: "nat \<Rightarrow> (nat \<Rightarrow> lwgrp) \<Rightarrow> nat \<Rightarrow> nat \<Rightarrow> bool \<Rightarrow> bool \<Rightarrow> 'a proc \<Rightarrow> bool"
  for n gs i where
  ended: "n \<le> 2 ^ d \<Longrightarrow> waits n gs i d l r (Ret x)"
| send_left: "2 ^ d \<le> i \<Longrightarrow> waits n gs i d l r p \<Longrightarrow> waits n gs i d l r (Send (lhandle gs d i) bs p)"
| send_right: "i + 2 ^ d < n \<Longrightarrow> waits n gs i d l r p \<Longrightarrow> waits n gs i d l r (Send (rhandle gs d i) bs p)"
| recv_left: "2 ^ d \<le> i \<Longrightarrow> (\<And>b. waits n gs i d True r (f b)) \<Longrightarrow> waits n gs i d l r (Recv (lhandle gs d i) (Suc 0) f)"
| recv_right: "i + 2 ^ d < n \<Longrightarrow> (\<And>b. waits n gs i d l True (f b)) \<Longrightarrow> waits n gs i d l r (Recv (rhandle gs d i) (Suc 0) f)"
| round: "2 ^ d < n \<Longrightarrow> (2 ^ d \<le> i \<longrightarrow> l) \<Longrightarrow> (i + 2 ^ d < n \<longrightarrow> r) \<Longrightarrow> waits n gs i (Suc d) False False p
    \<Longrightarrow> waits n gs i d l r p"

text \<open>The rounds of the barrier, with either form of exchange.\<close>

abbreviation barrier_body :: "(unit, byte list) xchg \<Rightarrow> lwgrp \<Rightarrow> nat \<Rightarrow> nat \<Rightarrow> byte list \<Rightarrow> byte list proc" where
  "barrier_body xchg grp round dist buf \<equiv>
     pbind (xchg grp round dist (\<lambda>ch. net_write ch buf) (\<lambda>ch. net_write ch buf)
       (\<lambda>ch. read_buf ch buf 1) (\<lambda>ch. read_buf ch buf 1) buf buf)
     (\<lambda>(left, right). Ret (if grp_rank grp + dist < grp_size grp then right else left))"

definition waiting_rounds :: "(unit, byte list) xchg \<Rightarrow> bool" where
  "waiting_rounds xchg \<longleftrightarrow> (\<forall>peer n gs i d buf (k :: byte list \<Rightarrow> int proc).
     linked peer n gs \<longrightarrow> i < n \<longrightarrow> 2 ^ d < n \<longrightarrow> (\<forall>b. waits n gs i (Suc d) False False (k b)) \<longrightarrow>
     waits n gs i d False False (pbind (barrier_body xchg (gs i) d (2 ^ d) buf) k))"

lemma pbind_read_buf: "pbind (read_buf (Some h) buf (Suc 0)) k = Recv h (Suc 0) (\<lambda>b. k (case b of None \<Rightarrow> buf | Some bs \<Rightarrow> bs))"
  by (auto simp: read_buf_def net_read_def pbind_assoc split: option.splits)

lemma pbind_net_write: "pbind (net_write (Some h) bs) k = Send h bs (k ())"
  by (simp add: net_write_def)

lemmas waits_intros = waits.send_left waits.send_right waits.recv_left waits.recv_right

text \<open>After the last message of a round.\<close>

lemma waits_roundI:
  assumes "\<forall>b. waits n gs i (Suc d) False False (k b)" "2 ^ d < n" "2 ^ d \<le> i \<Longrightarrow> l" "i + 2 ^ d < n \<Longrightarrow> r"
  shows "waits n gs i d l r (k b)"
  by (rule waits.round) (use assms in auto)

lemma waits_exchange: "waiting_rounds exchange"
  unfolding waiting_rounds_def
proof (intro allI impI)
  fix peer n gs i d buf and k :: "byte list \<Rightarrow> int proc"
  assume L: "linked peer n gs" and i: "i < n" "2 ^ d < n" and k: "\<forall>b. waits n gs i (Suc d) False False (k b)"
  have g: "grp_size (gs i) = n" "grp_rank (gs i) = i" using L i by simp_all
  note defs = g linked_left(1) [OF L _ i(1)] linked_right(1) [OF L] pbind_read_buf pbind_net_write pbind_assoc Let_def
  note intros = waits_intros waits_roundI [OF k i(2)]
  show "waits n gs i d False False (pbind (barrier_body exchange (gs i) d (2 ^ d) buf) k)"
    by (cases "2 ^ d \<le> i"; cases "i + 2 ^ d < n") (simp_all add: exchange_def defs intros)
qed

lemma waits_exchange_blocking: "waiting_rounds exchange_blocking"
  unfolding waiting_rounds_def
proof (intro allI impI)
  fix peer n gs i d buf and k :: "byte list \<Rightarrow> int proc"
  assume L: "linked peer n gs" and i: "i < n" "2 ^ d < n" and k: "\<forall>b. waits n gs i (Suc d) False False (k b)"
  have g: "grp_size (gs i) = n" "grp_rank (gs i) = i" using L i by simp_all
  note defs = g linked_left(1) [OF L _ i(1)] linked_right(1) [OF L] pbind_read_buf pbind_net_write pbind_assoc Let_def
  note intros = waits_intros waits_roundI [OF k i(2)]
  show "waits n gs i d False False (pbind (barrier_body exchange_blocking (gs i) d (2 ^ d) buf) k)"
    by (cases "2 ^ d \<le> i"; cases "i + 2 ^ d < n"; cases "odd (i div 2 ^ d)") (simp_all add: exchange_blocking_def defs intros)
qed

lemma waits_barrier:
  assumes "waiting_rounds xchg" "linked peer n gs" "i < n"
  shows "waits n gs i 0 False False (barrier_with xchg (gs i))"
proof -
  have "waits n gs i d False False (pbind (doubling (barrier_body xchg (gs i)) n d (2 ^ d) buf) (\<lambda>_. Ret LWGRP_SUCCESS))" for d buf
  proof (induction "n - 2 ^ d" arbitrary: d buf rule: less_induct)
    case less
    let ?k = "\<lambda>d buf. pbind (doubling (barrier_body xchg (gs i)) n d (2 ^ d) buf) (\<lambda>_. Ret LWGRP_SUCCESS)"
    show ?case
    proof (cases "2 ^ d < n")
      case True
      have "n - 2 ^ Suc d < n - 2 ^ d" using True by (intro diff_less_mono2) auto
      then have k: "waits n gs i (Suc d) False False (?k (Suc d) b)" for b using less by blast
      have "waits n gs i d False False (pbind (barrier_body xchg (gs i) d (2 ^ d) buf) (?k (Suc d)))"
        by (rule assms(1) [unfolded waiting_rounds_def, rule_format, OF assms(2,3) True]) (rule k)
      then show ?thesis using True by (subst doubling.simps) (simp add: pbind_assoc)
    next
      case False
      then show ?thesis by (subst doubling.simps) (simp add: waits.ended)
    qed
  qed
  from this [of 0 "[CHR ''A'']"] show ?thesis using assms(2,3) by (simp add: barrier_with_def)
qed

section \<open>What a process has heard\<close>

text \<open>Process \<open>i\<close> has not heard of the late process \<open>j\<close>; nor has what waits for it in a channel.\<close>

definition unheard :: "nat \<Rightarrow> nat \<Rightarrow> nat \<Rightarrow> nat \<Rightarrow> bool \<Rightarrow> bool \<Rightarrow> bool" where
  "unheard n j i d l r \<longleftrightarrow> j \<notin> window n d i \<and> (l \<longrightarrow> 2 ^ d \<le> i \<longrightarrow> j \<notin> window n d (i - 2 ^ d))
     \<and> (r \<longrightarrow> i + 2 ^ d < n \<longrightarrow> j \<notin> window n d (i + 2 ^ d))"

definition unheard_queues :: "nat \<Rightarrow> (nat \<Rightarrow> lwgrp) \<Rightarrow> nat \<Rightarrow> queues \<Rightarrow> bool" where
  "unheard_queues n gs j q \<longleftrightarrow> (\<forall>i<n. \<forall>d. (2 ^ d \<le> i \<longrightarrow> q (i, lhandle gs d i) \<noteq> [] \<longrightarrow> j \<notin> window n d (i - 2 ^ d))
     \<and> (i + 2 ^ d < n \<longrightarrow> q (i, rhandle gs d i) \<noteq> [] \<longrightarrow> j \<notin> window n d (i + 2 ^ d)))"

definition innocent :: "nat \<Rightarrow> (nat \<Rightarrow> lwgrp) \<Rightarrow> nat \<Rightarrow> nat \<Rightarrow> 'a proc \<Rightarrow> bool" where
  "innocent n gs j i p \<longleftrightarrow> (\<exists>d l r. waits n gs i d l r p \<and> unheard n j i d l r)"

lemma unheard_round:
  "i < n \<Longrightarrow> unheard n j i d l r \<Longrightarrow> 2 ^ d \<le> i \<longrightarrow> l \<Longrightarrow> i + 2 ^ d < n \<longrightarrow> r \<Longrightarrow> unheard n j i (Suc d) False False"
  by (auto simp: unheard_def window_Suc)

lemma innocent_Ret:
  assumes "waits n gs i d l r p" "unheard n j i d l r" "i < n" "j < n"
  shows "p \<noteq> Ret x"
  using assms
proof (induction rule: waits.induct)
  case (ended d l r x)
  then show ?case using window_all by (auto simp: unheard_def)
next
  case (round d l r p)
  then show ?case using unheard_round by blast
qed auto

text \<open>The steps of one process.\<close>

lemma waits_Send:
  assumes "waits n gs i d l r p" "unheard n j i d l r" "i < n" "p = Send h bs p'"
  shows "innocent n gs j i p' \<and> (\<exists>d. j \<notin> window n d i \<and> (2 ^ d \<le> i \<and> h = lhandle gs d i \<or> i + 2 ^ d < n \<and> h = rhandle gs d i))"
  using assms
proof (induction rule: waits.induct)
  case (round d l r p)
  then show ?case using unheard_round by blast
next
  case (send_left d l r p bs)
  then show ?case by (auto simp: innocent_def unheard_def)
next
  case (send_right d l r p bs)
  then show ?case by (auto simp: innocent_def unheard_def)
qed auto

lemma waits_Recv:
  assumes "waits n gs i d l r p" "unheard n j i d l r" "i < n" "p = Recv h m f" "m \<le> length (q (i, h))" "unheard_queues n gs j q"
  shows "innocent n gs j i (f b)"
  using assms
proof (induction rule: waits.induct)
  case (round d l r p)
  then show ?case using unheard_round by blast
next
  case (recv_left d r g l)
  then have "q (i, lhandle gs d i) \<noteq> []" by auto
  then have "unheard n j i d True r" using recv_left by (auto simp: unheard_def unheard_queues_def)
  moreover have "waits n gs i d True r (f b)" using recv_left by auto
  ultimately show ?case unfolding innocent_def by blast
next
  case (recv_right d l g r)
  then have "q (i, rhandle gs d i) \<noteq> []" by auto
  then have "unheard n j i d l True" using recv_right by (auto simp: unheard_def unheard_queues_def)
  moreover have "waits n gs i d l True (f b)" using recv_right by auto
  ultimately show ?case unfolding innocent_def by blast
qed auto

text \<open>A message of round \<open>d\<close> arrives in the channel of round \<open>d\<close>, and nowhere else.\<close>

lemma peer_round:
  assumes L: "linked peer n gs" and k: "k < n" "i < n"
    and h: "2 ^ d \<le> i \<and> h = lhandle gs d i \<or> i + 2 ^ d < n \<and> h = rhandle gs d i"
    and h': "2 ^ e \<le> k \<and> h' = lhandle gs e k \<and> m = k - 2 ^ e \<or> k + 2 ^ e < n \<and> h' = rhandle gs e k \<and> m = k + 2 ^ e"
    and pr: "peer (i, h) = (k, h')"
  shows "e = d \<and> i = m"
proof -
  have p: "peer (i, h) = (i - 2 ^ d, rhandle gs d (i - 2 ^ d)) \<and> 2 ^ d \<le> i \<or> peer (i, h) = (i + 2 ^ d, lhandle gs d (i + 2 ^ d)) \<and> i + 2 ^ d < n"
    using h linked_left(2) [OF L, of d i] linked_right(2) [OF L, of i d] k by auto
  have home: "peer (peer (i, h)) = (i, h)"
    using h linked_left(2) [OF L, of d i] linked_right(2) [OF L, of "i - 2 ^ d" d] linked_right(2) [OF L, of i d]
      linked_left(2) [OF L, of d "i + 2 ^ d"] k by auto
  have "fst (peer (k, h')) = m"
    using h' linked_left(2) [OF L, of e k] linked_right(2) [OF L, of k e] k by auto
  then have m: "i = m" using home pr by (metis fst_conv)
  have "(0 :: nat) < 2 ^ d" "(0 :: nat) < 2 ^ e" by simp_all
  moreover have "i = k + 2 ^ d \<or> k = i + 2 ^ d" using p pr by auto
  moreover have "k = i + 2 ^ e \<or> i = k + 2 ^ e" using h' m by auto
  ultimately have "(2 :: nat) ^ e = 2 ^ d" by linarith
  then show ?thesis using m by simp
qed

lemma unheard_queues_send:
  assumes L: "linked peer n gs" and q: "unheard_queues n gs j q" and i: "i < n" and d: "j \<notin> window n d i"
    and h: "2 ^ d \<le> i \<and> h = lhandle gs d i \<or> i + 2 ^ d < n \<and> h = rhandle gs d i"
  shows "unheard_queues n gs j (q(peer (i, h) := v))"
  unfolding unheard_queues_def
proof (intro allI impI conjI)
  fix k e assume k: "k < n"
  show "j \<notin> window n e (k - 2 ^ e)" if "2 ^ e \<le> k" "(q(peer (i, h) := v)) (k, lhandle gs e k) \<noteq> []"
    using that q k d peer_round [OF L k i h, of e "lhandle gs e k" "k - 2 ^ e"]
    by (cases "peer (i, h) = (k, lhandle gs e k)") (auto simp: unheard_queues_def)
  show "j \<notin> window n e (k + 2 ^ e)" if "k + 2 ^ e < n" "(q(peer (i, h) := v)) (k, rhandle gs e k) \<noteq> []"
    using that q k d peer_round [OF L k i h, of e "rhandle gs e k" "k + 2 ^ e"]
    by (cases "peer (i, h) = (k, rhandle gs e k)") (auto simp: unheard_queues_def)
qed

lemma unheard_queues_recv: "unheard_queues n gs j q \<Longrightarrow> unheard_queues n gs j (q(x := drop m (q x)))"
proof -
  have "(q(x := drop m (q x))) y \<noteq> [] \<longrightarrow> q y \<noteq> []" for y by auto
  then show "unheard_queues n gs j q \<Longrightarrow> ?thesis" unfolding unheard_queues_def by blast
qed

text \<open>As long as process \<open>j\<close> does not move, no process hears of it.\<close>

lemma unheard_step:
  assumes L: "linked peer n gs" and S: "S \<subseteq> {..<n} - {j}"
    and inv: "\<forall>i<n. i \<noteq> j \<longrightarrow> innocent n gs j i (ps i)" "unheard_queues n gs j q" and step: "nstep peer S (ps, q) (ps', q')"
  shows "(\<forall>i<n. i \<noteq> j \<longrightarrow> innocent n gs j i (ps' i)) \<and> unheard_queues n gs j q'"
  using step
proof (cases rule: nstep.cases)
  case (send i h bs p)
  then have i: "i < n" "i \<noteq> j" using S by auto
  then obtain d l r where w: "waits n gs i d l r (ps i)" "unheard n j i d l r" using inv(1) by (auto simp: innocent_def)
  from waits_Send [OF w i(1) send(4)] obtain e where "innocent n gs j i p" "j \<notin> window n e i"
      "2 ^ e \<le> i \<and> h = lhandle gs e i \<or> i + 2 ^ e < n \<and> h = rhandle gs e i" by blast
  then show ?thesis using send inv unheard_queues_send [OF L inv(2) i(1)] by auto
next
  case (recv i h m f)
  then have i: "i < n" "i \<noteq> j" using S by auto
  then obtain d l r where w: "waits n gs i d l r (ps i)" "unheard n j i d l r" using inv(1) by (auto simp: innocent_def)
  show ?thesis using recv inv waits_Recv [OF w i(1) recv(4,5) inv(2)] unheard_queues_recv [OF inv(2)] by auto
qed

lemma barrier_no_early_exit:
  assumes X: "waiting_rounds xchg" and L: "linked peer n gs" and j: "j < n" and S: "S \<subseteq> {..<n} - {j}"
    and run: "(nstep peer S)\<^sup>*\<^sup>* (\<lambda>i. barrier_with xchg (gs i), \<lambda>_. []) (ps, q)" and i: "i < n" "i \<noteq> j"
  shows "ps i \<noteq> Ret x"
proof -
  have "(\<forall>i<n. i \<noteq> j \<longrightarrow> innocent n gs j i (ps i)) \<and> unheard_queues n gs j q"
    using run
  proof (induction rule: rtranclp_induct2)
    case refl
    have "unheard n j i 0 False False" if "i < n" "i \<noteq> j" for i using that by (auto simp: unheard_def window_0)
    then have "innocent n gs j i (barrier_with xchg (gs i))" if "i < n" "i \<noteq> j" for i
      using that waits_barrier [OF X L that(1)] unfolding innocent_def by blast
    then show ?case by (simp add: unheard_queues_def)
  next
    case (step ps q ps' q')
    then show ?case using unheard_step [OF L S] by blast
  qed
  then obtain d l r where "waits n gs i d l r (ps i)" "unheard n j i d l r" using i unfolding innocent_def by blast
  then show ?thesis by (rule innocent_Ret [OF _ _ i(1) j])
qed

end
