(* ===== verification/Lwgrp_Spec.thy ===== *)
theory Lwgrp_Spec
  imports Lwgrp_Gather Lwgrp_Comm_Split Lwgrp_Barrier
begin

text \<open>
  What the group operations guarantee, for every number of processes and every schedule. The
  hypothesis \<open>linked\<close> says that the channels of the groups are connected as \<open>lwgrp_create\<close> leaves
  them; the first section shows that it can be met for every size.
\<close>

section \<open>A connected group of any size\<close>

text \<open>The handle \<open>2 * d\<close> is the right channel of round \<open>d\<close> and \<open>2 * d + 1\<close> the left one.\<close>

definition line_peer :: "nat \<times> nat \<Rightarrow> nat \<times> nat" where
  "line_peer e = (let (i, h) = e; d = h div 2 in
     if even h then (i + 2 ^ d, h + 1)
     else if 2 ^ d \<le> i then (i - 2 ^ d, h - 1) else e)"

definition line_group :: "nat \<Rightarrow> (nat \<Rightarrow> string) \<Rightarrow> nat \<Rightarrow> lwgrp" where
  "line_group n name i =
     \<lparr>grp_size = n, grp_rank = i, grp_name = name i,
      grp_left = (if 0 < i then Some (name (i - 1)) else None),
      grp_right = (if i + 1 < n then Some (name (i + 1)) else None),
      grp_list_size = n,
      list_left = map (\<lambda>d. if 2 ^ d \<le> i then Some (2 * d + 1) else None) [0..<n],
      list_right = map (\<lambda>d. if i + 2 ^ d < n then Some (2 * d) else None) [0..<n],
      grp_ep = Some 0\<rparr>"

lemma line_peer_involution: "line_peer (line_peer e) = e"
  by (cases e) (auto simp: line_peer_def Let_def elim!: oddE)

lemma line_linked: "linked line_peer n (line_group n name)"
proof -
  have "inj line_peer" by (rule inj_on_inverseI [of _ line_peer]) (rule line_peer_involution)
  moreover have "d < n" if "i + 2 ^ d < n" for i d :: nat
    using that less_exp [of d] by linarith
  ultimately show ?thesis
    by (auto simp: linked_def line_group_def line_peer_def)
qed

section \<open>Collectives on integers\<close>

definition sample_vectors :: "nat \<Rightarrow> u64 list" where
  "sample_vectors i = [of_nat i, 7]"

abbreviation "sample_line \<equiv> line_group 3 (\<lambda>i. replicate i CHR ''x'')"

text \<open>
  Maximum over all processes. Every schedule of \<open>n\<close> processes that call
  \<open>lwgrp_allreduce_uint64_max\<close> ends, and each process then holds the component-wise maximum of
  all vectors; the blocking variant computes the same.
\<close>

theorem allreduce_max_correct:
  assumes "linked peer n gs" "\<And>i. i < n \<Longrightarrow> length (v i) = cnt"
  shows "surely_return peer {..<n} (\<lambda>i. lwgrp_allreduce_uint64_max (junk i) (v i) cnt (gs i))
      (\<lambda>i. (LWGRP_SUCCESS, vec cnt (\<lambda>k. Max ((\<lambda>j. v j ! k) ` {..<n}))))
    \<and> surely_return peer {..<n} (\<lambda>i. lwgrp_allreduce_uint64_max_blocking (junk i) (v i) cnt (gs i))
      (\<lambda>i. (LWGRP_SUCCESS, vec cnt (\<lambda>k. Max ((\<lambda>j. v j ! k) ` {..<n}))))"
  unfolding lwgrp_allreduce_uint64_max_def lwgrp_allreduce_uint64_max_blocking_def
  by (intro conjI completes_surely linked_inj [OF assms(1)] plain_u64.allreduce_max_completes blocking_u64.allreduce_max_completes assms TrueI; assumption)

theorem allreduce_max_correct_witness:
  "surely_return line_peer {..<3} (\<lambda>i. lwgrp_allreduce_uint64_max [0, 0] (sample_vectors i) 2 (sample_line i))
      (\<lambda>i. (LWGRP_SUCCESS, vec 2 (\<lambda>k. Max ((\<lambda>j. sample_vectors j ! k) ` {..<3}))))
    \<and> surely_return line_peer {..<3} (\<lambda>i. lwgrp_allreduce_uint64_max_blocking [0, 0] (sample_vectors i) 2 (sample_line i))
      (\<lambda>i. (LWGRP_SUCCESS, vec 2 (\<lambda>k. Max ((\<lambda>j. sample_vectors j ! k) ` {..<3}))))"
  by (rule allreduce_max_correct [OF line_linked]) (simp add: sample_vectors_def)

text \<open>
  C18. Sum over all processes, modulo \<open>2 ^ 64\<close>: the two scans each count the own value once, and it
  is subtracted once. The vectors have fewer than \<open>2 ^ 31\<close> elements, the range of the loop index
  \<open>int i\<close>. A channel holds at most \<open>b\<close> bytes and a write waits when it is full. Every schedule of
  the blocking variant ends with the sums whatever \<open>b\<close> is, provided it is not 0; for the plain variant,
  in which all processes write before they read, it has to hold a whole vector.
\<close>

theorem allreduce_sum_correct:
  assumes "linked peer n gs" "\<And>i. i < n \<Longrightarrow> length (v i) = cnt" "cnt < 2 ^ 31" "0 < b"
  shows "(8 * cnt \<le> b \<longrightarrow> surely_return_within b peer {..<n} (\<lambda>i. lwgrp_allreduce_uint64_sum (junk i) (v i) cnt (gs i))
      (\<lambda>i. (LWGRP_SUCCESS, vec cnt (\<lambda>k. \<Sum>j<n. v j ! k))))
    \<and> surely_return_within b peer {..<n} (\<lambda>i. lwgrp_allreduce_uint64_sum_blocking (junk i) (v i) cnt (gs i))
      (\<lambda>i. (LWGRP_SUCCESS, vec cnt (\<lambda>k. \<Sum>j<n. v j ! k)))"
proof -
  obtain b' where "b = Suc b'" using assms(4) by (cases b) auto
  then show ?thesis
    unfolding lwgrp_allreduce_uint64_sum_def lwgrp_allreduce_uint64_sum_blocking_def
    using completes_surely_within [OF linked_inj [OF assms(1)] plain_u64_within.allreduce_sum_completes [OF assms(1,2)]]
      completes_surely_within [OF linked_inj [OF assms(1)] blocking_u64_within.allreduce_sum_completes [OF assms(1,2)]]
    by simp
qed

theorem allreduce_sum_correct_witness:
  "surely_return_within 16 line_peer {..<3} (\<lambda>i. lwgrp_allreduce_uint64_sum [0, 0] (sample_vectors i) 2 (sample_line i))
      (\<lambda>i. (LWGRP_SUCCESS, vec 2 (\<lambda>k. \<Sum>j<3. sample_vectors j ! k)))
    \<and> surely_return_within 1 line_peer {..<3} (\<lambda>i. lwgrp_allreduce_uint64_sum_blocking [0, 0] (sample_vectors i) 2 (sample_line i))
      (\<lambda>i. (LWGRP_SUCCESS, vec 2 (\<lambda>k. \<Sum>j<3. sample_vectors j ! k)))"
proof -
  have len: "length (sample_vectors i) = 2" for i by (simp add: sample_vectors_def)
  note A = allreduce_sum_correct [where v = sample_vectors and cnt = 2 and junk = "\<lambda>_. [0, 0]", OF line_linked len]
  show ?thesis using A [where b = 16] A [where b = 1] by simp
qed

text \<open>
  Prefix sum: process \<open>i\<close> ends with the sum of the vectors of the processes \<open>0\<close> to \<open>i\<close>.
\<close>

theorem scan_sum_correct:
  assumes "linked peer n gs" "\<And>i. i < n \<Longrightarrow> length (v i) = cnt"
  shows "surely_return peer {..<n} (\<lambda>i. lwgrp_scan_uint64_sum (junk i) (v i) cnt (gs i))
      (\<lambda>i. (LWGRP_SUCCESS, vec cnt (\<lambda>k. \<Sum>j\<le>i. v j ! k)))
    \<and> surely_return peer {..<n} (\<lambda>i. lwgrp_scan_uint64_sum_blocking (junk i) (v i) cnt (gs i))
      (\<lambda>i. (LWGRP_SUCCESS, vec cnt (\<lambda>k. \<Sum>j\<le>i. v j ! k)))"
  unfolding lwgrp_scan_uint64_sum_def lwgrp_scan_uint64_sum_blocking_def
  by (intro conjI completes_surely linked_inj [OF assms(1)] plain_u64.scan_sum_completes blocking_u64.scan_sum_completes assms TrueI; assumption)

theorem scan_sum_correct_witness:
  "surely_return line_peer {..<3} (\<lambda>i. lwgrp_scan_uint64_sum [0, 0] (sample_vectors i) 2 (sample_line i))
      (\<lambda>i. (LWGRP_SUCCESS, vec 2 (\<lambda>k. \<Sum>j\<le>i. sample_vectors j ! k)))
    \<and> surely_return line_peer {..<3} (\<lambda>i. lwgrp_scan_uint64_sum_blocking [0, 0] (sample_vectors i) 2 (sample_line i))
      (\<lambda>i. (LWGRP_SUCCESS, vec 2 (\<lambda>k. \<Sum>j\<le>i. sample_vectors j ! k)))"
  by (rule scan_sum_correct [OF line_linked]) (simp add: sample_vectors_def)

text \<open>
  Scan in both directions: process \<open>i\<close> ends with the sum from the left end and the sum to the
  right end, both including its own vector.
\<close>

theorem double_scan_correct:
  assumes "linked peer n gs" "\<And>i. i < n \<Longrightarrow> length (v i) = cnt"
  shows "surely_return peer {..<n} (\<lambda>i. lwgrp_double_scan_uint64_sum (junk i) (v i) cnt (gs i))
      (\<lambda>i. (LWGRP_SUCCESS, vec cnt (\<lambda>k. \<Sum>j\<le>i. v j ! k), vec cnt (\<lambda>k. \<Sum>j=i..<n. v j ! k)))
    \<and> surely_return peer {..<n} (\<lambda>i. lwgrp_double_scan_uint64_sum_blocking (junk i) (v i) cnt (gs i))
      (\<lambda>i. (LWGRP_SUCCESS, vec cnt (\<lambda>k. \<Sum>j\<le>i. v j ! k), vec cnt (\<lambda>k. \<Sum>j=i..<n. v j ! k)))"
  unfolding lwgrp_double_scan_uint64_sum_def lwgrp_double_scan_uint64_sum_blocking_def
  by (intro conjI completes_surely linked_inj [OF assms(1)] plain_u64.double_scan_completes blocking_u64.double_scan_completes assms TrueI; assumption)

theorem double_scan_correct_witness:
  "surely_return line_peer {..<3} (\<lambda>i. lwgrp_double_scan_uint64_sum [0, 0] (sample_vectors i) 2 (sample_line i))
      (\<lambda>i. (LWGRP_SUCCESS, vec 2 (\<lambda>k. \<Sum>j\<le>i. sample_vectors j ! k), vec 2 (\<lambda>k. \<Sum>j=i..<3. sample_vectors j ! k)))
    \<and> surely_return line_peer {..<3} (\<lambda>i. lwgrp_double_scan_uint64_sum_blocking [0, 0] (sample_vectors i) 2 (sample_line i))
      (\<lambda>i. (LWGRP_SUCCESS, vec 2 (\<lambda>k. \<Sum>j\<le>i. sample_vectors j ! k), vec 2 (\<lambda>k. \<Sum>j=i..<3. sample_vectors j ! k)))"
  by (rule double_scan_correct [OF line_linked]) (simp add: sample_vectors_def)

section \<open>Shift and barrier\<close>

text \<open>
  Shift: every process gets the buffers of its two neighbours; at the ends of the line the
  caller's buffer is left as it was.
\<close>

theorem shift_correct:
  assumes "linked peer n gs" "\<And>i. i < n \<Longrightarrow> length (buf i) = sz"
  shows "surely_return peer {..<n} (\<lambda>i. lwgrp_shift (buf i) (left i) (right i) sz (gs i))
      (\<lambda>i. (LWGRP_SUCCESS, if 0 < i then buf (i - 1) else left i, if i + 1 < n then buf (i + 1) else right i))
    \<and> surely_return peer {..<n} (\<lambda>i. lwgrp_shift_blocking (buf i) (left i) (right i) sz (gs i))
      (\<lambda>i. (LWGRP_SUCCESS, if 0 < i then buf (i - 1) else left i, if i + 1 < n then buf (i + 1) else right i))"
  unfolding lwgrp_shift_def lwgrp_shift_blocking_def
  by (intro conjI completes_surely linked_inj [OF assms(1)] plain_bytes.shift_completes
      blocking_bytes.shift_completes assms TrueI; assumption)

theorem shift_correct_witness:
  "surely_return line_peer {..<3} (\<lambda>i. lwgrp_shift (mem_u64 (of_nat i)) ''left'' ''right'' 8 (sample_line i))
      (\<lambda>i. (LWGRP_SUCCESS, if 0 < i then mem_u64 (of_nat (i - 1)) else ''left'',
        if i + 1 < 3 then mem_u64 (of_nat (i + 1)) else ''right''))
    \<and> surely_return line_peer {..<3} (\<lambda>i. lwgrp_shift_blocking (mem_u64 (of_nat i)) ''left'' ''right'' 8 (sample_line i))
      (\<lambda>i. (LWGRP_SUCCESS, if 0 < i then mem_u64 (of_nat (i - 1)) else ''left'',
        if i + 1 < 3 then mem_u64 (of_nat (i + 1)) else ''right''))"
  by (rule shift_correct [OF line_linked, where buf = "\<lambda>i. mem_u64 (of_nat i)" and left = "\<lambda>_. ''left''"
        and right = "\<lambda>_. ''right''"]) simp

text \<open>
  C19. The barrier, in both variants. Every schedule in which all processes take part ends with
  success everywhere. As long as some process \<open>j\<close> has not started, no other process returns,
  whichever processes move and in whatever order.
\<close>

theorem barrier_correct:
  assumes "linked peer n gs" "p = lwgrp_barrier \<or> p = lwgrp_barrier_blocking"
  shows "surely_return peer {..<n} (\<lambda>i. p (gs i)) (\<lambda>i. LWGRP_SUCCESS)
    \<and> (\<forall>j<n. \<forall>i<n. \<forall>S ps q x. i \<noteq> j \<longrightarrow> S \<subseteq> {..<n} - {j} \<longrightarrow>
        (nstep peer S)\<^sup>*\<^sup>* (\<lambda>i. p (gs i), \<lambda>_. []) (ps, q) \<longrightarrow> ps i \<noteq> Ret x)"
proof -
  have "completes None peer {..<n} (\<lambda>i. p (gs i)) (\<lambda>i. LWGRP_SUCCESS)"
    using assms plain_bytes.barrier_completes blocking_bytes.barrier_completes
    by (auto simp: lwgrp_barrier_def lwgrp_barrier_blocking_def)
  moreover obtain xchg where "p = barrier_with xchg" "waiting_rounds xchg"
    using assms(2) waits_exchange waits_exchange_blocking by (auto simp: lwgrp_barrier_def lwgrp_barrier_blocking_def)
  ultimately show ?thesis
    using completes_surely [OF linked_inj [OF assms(1)]] barrier_no_early_exit [OF _ assms(1)] by blast
qed

theorem barrier_correct_witness:
  "surely_return line_peer {..<3} (\<lambda>i. lwgrp_barrier (sample_line i)) (\<lambda>i. LWGRP_SUCCESS)
    \<and> (\<nexists>ps q x. (nstep line_peer {0, 1})\<^sup>*\<^sup>* (\<lambda>i. lwgrp_barrier (sample_line i), \<lambda>_. []) (ps, q) \<and> ps 0 = Ret x)"
proof
  note B = barrier_correct [OF line_linked disjI1 [OF refl, of lwgrp_barrier]]
  show "surely_return line_peer {..<3} (\<lambda>i. lwgrp_barrier (sample_line i)) (\<lambda>i. LWGRP_SUCCESS)" using B by blast
  have "ps 0 \<noteq> Ret x" if "(nstep line_peer {0, 1})\<^sup>*\<^sup>* (\<lambda>i. lwgrp_barrier (sample_line i), \<lambda>_. []) (ps, q)" for ps q x
  proof -
    have "(2 :: nat) < 3" "(0 :: nat) < 3" "(0 :: nat) \<noteq> 2" "{0, 1} \<subseteq> {..<3 :: nat} - {2}" by auto
    from conjunct2 [OF B, THEN spec, THEN mp, THEN spec, THEN mp, THEN spec, THEN spec, THEN spec, THEN spec, THEN mp, THEN mp, THEN mp, OF this that]
    show ?thesis .
  qed
  then show "\<nexists>ps q x. (nstep line_peer {0, 1})\<^sup>*\<^sup>* (\<lambda>i. lwgrp_barrier (sample_line i), \<lambda>_. []) (ps, q) \<and> ps 0 = Ret x" by blast
qed

section \<open>Gathering maps\<close>

text \<open>
  C17. Gathering of maps. When the maps of the processes agree on common keys and their packed
  sizes together fit in 64 bits, every schedule of the operation ends without undefined behaviour,
  and every process then holds a well-formed map that has exactly the entries of all maps. A
  channel holds at most \<open>b\<close> bytes and a write waits when it is full. The order of the calls in
  \<open>lwgrp_allgather_strmap_blocking\<close> works with any capacity but 0; \<open>lwgrp_allgather_strmap\<close>, in which
  all write before they read, needs channels that hold a whole packed map.
\<close>

theorem allgather_correct:
  assumes "linked peer n gs" "consistent m n"
    and "\<And>i. i < n \<Longrightarrow> strmap_at (h i) (t i) (T i) \<and> m i = map_of (inord (T i))"
    and "8 + (\<Sum>j<n. packed_len (inord (T j))) < 2 ^ 64"
    and "\<And>j e. j < n \<Longrightarrow> e \<in> set (inord (T j)) \<Longrightarrow> snd e \<noteq> NULL" "0 < b"
  shows "(16 + (\<Sum>j<n. packed_len (inord (T j))) \<le> b \<longrightarrow>
      (\<exists>rs. surely_return_within b peer {..<n} (\<lambda>i. lwgrp_allgather_strmap (junk i) (Some (t i), h i) (gs i)) rs
        \<and> (\<forall>i<n. holds m {..<n} (rs i))))
    \<and> (\<exists>rs. surely_return_within b peer {..<n} (\<lambda>i. lwgrp_allgather_strmap_blocking (junk i) (Some (t i), h i) (gs i)) rs
      \<and> (\<forall>i<n. holds m {..<n} (rs i)))"
proof -
  have sure: "\<exists>rs. surely_return_within c peer {..<n} ps rs \<and> P rs"
    if "\<exists>rs. completes (Some c) peer {..<n} ps rs \<and> P rs" for ps P c
    using that completes_surely_within [OF linked_inj [OF assms(1)]] by blast
  obtain b' where b: "b = Suc b'" using assms(6) by (cases b) auto
  show ?thesis
    unfolding lwgrp_allgather_strmap_def lwgrp_allgather_strmap_blocking_def b
    by (intro conjI impI sure plain_maps_within.allgather_completes [where h = h and t = t and T = T]
        blocking_maps_within.allgather_completes [where h = h and t = t and T = T] assms(1-5) TrueI; assumption)
qed

abbreviation "sample_entries_map \<equiv> [''a'' \<mapsto> Some ''1'', ''b'' \<mapsto> Some ''2'']"

theorem allgather_correct_witness:
  "(\<exists>rs. surely_return_within 100 line_peer {..<2} (\<lambda>i. lwgrp_allgather_strmap (\<lambda>n. replicate n NUL)
        (Some (if i = 0 then sample_map else strmap_new), sample_heap) (line_group 2 (\<lambda>_. ''x'') i)) rs
      \<and> (\<forall>i<2. holds (\<lambda>i. if i = 0 then sample_entries_map else Map.empty) {..<2} (rs i)))
    \<and> (\<exists>rs. surely_return_within 1 line_peer {..<2} (\<lambda>i. lwgrp_allgather_strmap_blocking (\<lambda>n. replicate n NUL)
        (Some (if i = 0 then sample_map else strmap_new), sample_heap) (line_group 2 (\<lambda>_. ''x'') i)) rs
      \<and> (\<forall>i<2. holds (\<lambda>i. if i = 0 then sample_entries_map else Map.empty) {..<2} (rs i)))"
proof -
  let ?m = "\<lambda>i :: nat. if i = 0 then sample_entries_map else Map.empty"
  let ?t = "\<lambda>i :: nat. if i = 0 then sample_map else strmap_new" and ?T = "\<lambda>i :: nat. if i = 0 then sample_tree else Tip"
  have at: "strmap_at sample_heap (?t i) (?T i) \<and> ?m i = map_of (inord (?T i))" for i
    by (simp add: sample_at strmap_at_new) (simp add: fun_eq_iff)
  have sum: "(\<Sum>j<2. f j) = f 0 + f (1 :: nat)" for f :: "nat \<Rightarrow> nat" by (simp add: numeral_2_eq_2)
  have len: "8 + (\<Sum>j<2. packed_len (inord (?T j))) < 2 ^ 64" "16 + (\<Sum>j<2. packed_len (inord (?T j))) \<le> 100"
    unfolding sum by (simp_all add: packed_len_def entry_len_def)
  have ok: "consistent ?m 2" "\<And>j e. j < (2 :: nat) \<Longrightarrow> e \<in> set (inord (?T j)) \<Longrightarrow> snd e \<noteq> NULL"
    by (auto simp: consistent_def split: if_splits)
  note A = allgather_correct [where h = "\<lambda>_. sample_heap" and t = ?t and T = ?T, OF line_linked ok(1) at len(1) ok(2)]
  show ?thesis using A [where b = 100] A [where b = 1] len(2) by simp
qed

section \<open>Sorting\<close>

text \<open>
  C16. The distributed sort. With any of the comparison functions of the program, every schedule
  of \<open>lwgrp_sort_bitonic\<close> ends with return code 0; the items the processes hold then are those they
  started with, in ascending order of rank.
\<close>

theorem sort_bitonic_correct:
  assumes "linked peer n gs" "n \<le> 2 ^ 31" "\<And>i. i < n \<Longrightarrow> length (v i) = sz"
    and "compare \<in> {cmp_int, cmp_three_ints, cmp_str, cmp_str_int}"
  shows "\<exists>w. surely_return peer {..<n} (\<lambda>i. lwgrp_sort_bitonic (junk i) (v i) sz offset compare (gs i)) (\<lambda>i. (0, w i))
    \<and> rearranged {..<n} v w \<and> sorted_on (\<lambda>a b. compare a b offset) 0 n w"
proof -
  let ?c = "\<lambda>a b. compare a b offset"
  have c: "total_preorder ?c"
    using assms(4) cmp_int_order cmp_three_ints_order cmp_str_order cmp_str_int_order by auto
  have "surely_return peer {..<n} (\<lambda>i. lwgrp_sort_bitonic (junk i) (v i) sz offset compare (gs i))
      (\<lambda>i. (0, net_sort ?c 0 n True v i))"
    by (rule completes_surely [OF linked_inj [OF assms(1)]], rule bitonic_completes [where compare = compare and offset = offset and v = v, OF assms(1,2) c assms(3)])
  then show ?thesis
    using net_sort_rearranged [OF c, of 0 n v True] net_sort_sorts [OF c, of 0 n v] by (auto simp: atLeast0LessThan)
qed

theorem sort_bitonic_correct_witness:
  "\<exists>w. surely_return line_peer {..<3} (\<lambda>i. lwgrp_sort_bitonic (replicate 8 NUL) (mem_u64 (of_nat (2 - i))) 8 0 cmp_int (sample_line i))
      (\<lambda>i. (0, w i))
    \<and> rearranged {..<3} (\<lambda>i. mem_u64 (of_nat (2 - i))) w \<and> sorted_on (\<lambda>a b. cmp_int a b 0) 0 3 w"
  by (rule sort_bitonic_correct [OF line_linked]) simp_all

section \<open>Splitting\<close>

text \<open>
  C14. Splitting by color and key. In every schedule each process calls \<open>lwgrp_create\<close> with the size of
  the group of its color, its position in that group ordered by key and then by old rank, and the
  endpoint names of the processes next to it in that order. This is the contract of
  \<open>MPI_Comm_split\<close>.
\<close>

theorem lwgrp_split_correct:
  fixes color key :: "nat \<Rightarrow> u64"
  assumes "linked peer n gs" "n \<le> 2 ^ 31"
    and "\<And>i. i < n \<Longrightarrow> cstring (grp_name (gs i)) \<and> length (grp_name (gs i)) + 1 < 2 ^ 64"
  shows "surely_return peer {..<n} (\<lambda>i. lwgrp_split (junk i) (gs i) (color i) (key i))
    (split_call n color (\<lambda>j. sint (key j)) gs)"
  by (rule completes_surely [OF linked_inj [OF assms(1)] split_completes [OF assms]])

theorem lwgrp_split_correct_witness:
  "surely_return line_peer {..<3} (\<lambda>i. lwgrp_split (\<lambda>_. NUL) (sample_line i) (of_nat (i mod 2)) (- of_nat i))
    (split_call 3 (\<lambda>i. of_nat (i mod 2) :: u64) (\<lambda>j. sint (- of_nat j :: u64)) sample_line)
   \<and> members 3 (\<lambda>i. of_nat (i mod 2) :: u64) (\<lambda>j. sint (- of_nat j :: u64)) 0 = [2, 0]"
  by (rule conjI, rule lwgrp_split_correct [OF line_linked])
    (auto simp: line_group_def cstring_def members_def upt_rec)

text \<open>
  C15. Splitting by string: the same with the string as the color and the old rank as the order.
\<close>

theorem lwgrp_split_str_correct:
  assumes "linked peer n gs" "n \<le> 2 ^ 31"
    and "\<And>i. i < n \<Longrightarrow> cstring (grp_name (gs i)) \<and> length (grp_name (gs i)) + 1 < 2 ^ 64"
    and "\<And>i. i < n \<Longrightarrow> cstring (str i) \<and> length (str i) + 1 < 2 ^ 64"
  shows "surely_return peer {..<n} (\<lambda>i. lwgrp_split_str (junk i) (gs i) (str i)) (split_call n str (\<lambda>_. 0) gs)"
  by (rule completes_surely [OF linked_inj [OF assms(1)] split_str_completes [OF assms]])

theorem lwgrp_split_str_correct_witness:
  "surely_return line_peer {..<3} (\<lambda>i. lwgrp_split_str (\<lambda>_. NUL) (sample_line i) (if i = 1 then ''world'' else ''hello''))
    (split_call 3 (\<lambda>i. if i = 1 then ''world'' else ''hello'') (\<lambda>_. 0) sample_line)"
  by (rule lwgrp_split_str_correct [OF line_linked]) (auto simp: line_group_def cstring_def)

end
