(* ===== verification/Posix.thy ===== *)
theory Posix
  imports Util Net
begin

text \<open>
  What the transports use of the C library and the operating system: results of \<open>read\<close> and \<open>write\<close>,
  decimal numbers in \<open>printf\<close> formats and \<open>atoi\<close>, prefixes of names. The kernel itself is a parameter
  of the transport models; the end of the theory states what a byte stream guarantees.
\<close>

section \<open>System calls\<close>

datatype errno = EAGAIN | EINTR | EIO

text \<open>A \<open>read\<close> gives the bytes it stored (none at the end of the file) or an error; a \<open>write\<close> the number of bytes written.\<close>

datatype rd_res = RGot "byte list" | RErr errno
datatype wr_res = Wrote nat | WErr errno

section \<open>Strings\<close>

text \<open>\<open>strncmp(name, prefix, strlen(prefix)) == 0\<close>\<close>

definition has_prefix :: "string \<Rightarrow> string \<Rightarrow> bool" where
  "has_prefix pre name \<longleftrightarrow> take (length pre) name = pre"

lemma has_prefix_append [simp]: "has_prefix pre (pre @ s)"
  by (simp add: has_prefix_def)

definition digit :: "nat \<Rightarrow> char" where
  "digit d = char_of (48 + d)"

definition is_digit :: "char \<Rightarrow> bool" where
  "is_digit c \<longleftrightarrow> 48 \<le> (of_char c :: nat) \<and> (of_char c :: nat) \<le> 57"

text \<open>The format \<open>%d\<close> or \<open>%u\<close> for a number that is not negative.\<close>

fun dec :: "nat \<Rightarrow> string" where
  "dec n = (if n < 10 then [digit n] else dec (n div 10) @ [digit (n mod 10)])"

declare dec.simps [simp del]

text \<open>\<open>atoi\<close>: leading white space, a sign, digits.\<close>

definition is_space :: "char \<Rightarrow> bool" where
  "is_space c \<longleftrightarrow> c = CHR '' '' \<or> 9 \<le> (of_char c :: nat) \<and> (of_char c :: nat) \<le> 13"

definition digits_value :: "string \<Rightarrow> int" where
  "digits_value s = foldl (\<lambda>n c. 10 * n + (of_char c - 48)) 0 (takeWhile is_digit s)"

definition atoi :: "string \<Rightarrow> int" where
  "atoi s = (let s = dropWhile is_space s in
     case s of [] \<Rightarrow> 0
     | c # t \<Rightarrow> if c = CHR ''-'' then - digits_value t else if c = CHR ''+'' then digits_value t else digits_value s)"

lemma digit_props [simp]:
  "d < 10 \<Longrightarrow> is_digit (digit d)" "d < 10 \<Longrightarrow> (of_char (digit d) :: int) - 48 = int d"
  "d < 10 \<Longrightarrow> digit d \<noteq> CHR '':''" "d < 10 \<Longrightarrow> digit d \<noteq> NUL"
proof -
  assume d: "d < 10"
  have v: "(of_char (digit d) :: nat) = 48 + d" using d by (simp add: digit_def)
  show "is_digit (digit d)" using d v by (simp add: is_digit_def)
  have "(of_char (digit d) :: int) = int (of_char (digit d) :: nat)" by (simp add: of_nat_of_char)
  then show "(of_char (digit d) :: int) - 48 = int d" using v by simp
  show "digit d \<noteq> CHR '':''" "digit d \<noteq> NUL"
    using v d by auto
qed

lemma set_dec: "c \<in> set (dec n) \<Longrightarrow> is_digit c \<and> c \<noteq> CHR '':'' \<and> c \<noteq> NUL"
proof (induction n rule: dec.induct)
  case (1 n)
  show ?case
  proof (cases "n < 10")
    case True
    then show ?thesis using "1.prems" by (subst (asm) dec.simps) auto
  next
    case False
    then show ?thesis using 1 by (subst (asm) (2) dec.simps) (auto split: if_splits)
  qed
qed

lemma dec_not_Nil [simp]: "dec n \<noteq> []"
  by (subst dec.simps) simp

lemma digits_value_dec: "s = [] \<or> \<not> is_digit (hd s) \<Longrightarrow> digits_value (dec n @ s) = int n"
proof -
  have tw: "takeWhile is_digit (dec n @ s) = dec n" if "s = [] \<or> \<not> is_digit (hd s)" for n s
    using that set_dec by (cases s) (auto simp: takeWhile_append)
  have "foldl (\<lambda>n c. 10 * n + (of_char c - 48)) 0 (dec n) = int n"
  proof (induction n rule: dec.induct)
    case (1 n)
    show ?case
    proof (cases "n < 10")
      case False
      then have "foldl (\<lambda>n c. 10 * n + (of_char c - 48)) 0 (dec n) = 10 * int (n div 10) + int (n mod 10)"
        using 1 by (subst dec.simps) (simp del: of_nat_mod)
      then show ?thesis by presburger
    qed (subst dec.simps, simp)
  qed
  then show "s = [] \<or> \<not> is_digit (hd s) \<Longrightarrow> digits_value (dec n @ s) = int n"
    by (simp add: digits_value_def tw)
qed

lemma atoi_dec [simp]: "atoi (dec n) = int n"
proof -
  obtain c t where c: "dec n = c # t" by (cases "dec n") auto
  have d: "is_digit c" using set_dec [of c n] c by simp
  then have "\<not> is_space c" "c \<noteq> CHR ''-''" "c \<noteq> CHR ''+''"
    by (auto simp: is_digit_def is_space_def)
  then show ?thesis using digits_value_dec [of "[]" n] c by (simp add: atoi_def)
qed

lemma cstring_dec [simp]: "cstring (dec n)"
  using set_dec by (auto simp: cstring_def)

text \<open>The scan of the transports for a colon, which is overwritten; \<open>None\<close> when it would leave the string.\<close>

definition scan_colon :: "string \<Rightarrow> (string \<times> string) option" where
  "scan_colon s = (if CHR '':'' \<in> set s
     then Some (takeWhile (\<lambda>c. c \<noteq> CHR '':'') s, tl (dropWhile (\<lambda>c. c \<noteq> CHR '':'') s)) else None)"

lemma scan_colon_append: "CHR '':'' \<notin> set s \<Longrightarrow> scan_colon (s @ CHR '':'' # t) = Some (s, t)"
  by (induction s) (auto simp: scan_colon_def)

section \<open>Byte streams\<close>

text \<open>
  What the program relies on of a connected stream: a \<open>read\<close> returns a non-empty part of the bytes
  that have arrived, as many as asked for or fewer, and a \<open>write\<close> accepts a non-empty part of the
  bytes. \<open>inp\<close> and \<open>outp\<close> are the bytes still to be read and the bytes written.
\<close>

definition readable :: "(nat \<Rightarrow> 'w \<Rightarrow> rd_res \<times> 'w) \<Rightarrow> ('w \<Rightarrow> byte list) \<Rightarrow> ('w \<Rightarrow> 'x) \<Rightarrow> bool" where
  "readable rd inp rest \<longleftrightarrow> (\<forall>n w. 0 < n \<longrightarrow> inp w \<noteq> [] \<longrightarrow>
      (\<exists>bs w'. rd n w = (RGot bs, w') \<and> bs \<noteq> [] \<and> length bs \<le> n \<and> inp w = bs @ inp w' \<and> rest w' = rest w))"

definition writable :: "(byte list \<Rightarrow> 'w \<Rightarrow> wr_res \<times> 'w) \<Rightarrow> ('w \<Rightarrow> byte list) \<Rightarrow> ('w \<Rightarrow> 'x) \<Rightarrow> bool" where
  "writable wr outp rest \<longleftrightarrow> (\<forall>bs w. bs \<noteq> [] \<longrightarrow>
      (\<exists>k w'. wr bs w = (Wrote k, w') \<and> 0 < k \<and> k \<le> length bs \<and> outp w' = outp w @ take k bs \<and> rest w' = rest w))"

lemma readableE:
  assumes "readable rd inp rest" "0 < n" "inp w \<noteq> []"
  obtains bs w' where "rd n w = (RGot bs, w')" "bs \<noteq> []" "length bs \<le> n" "inp w = bs @ inp w'" "rest w' = rest w"
  using assms unfolding readable_def by blast

lemma writableE:
  assumes "writable wr outp rest" "bs \<noteq> []"
  obtains k w' where "wr bs w = (Wrote k, w')" "0 < k" "k \<le> length bs" "outp w' = outp w @ take k bs" "rest w' = rest w"
  using assms unfolding writable_def by blast

text \<open>A stream that moves at most \<open>Suc c\<close> bytes in a call.\<close>

definition slow_read :: "nat \<Rightarrow> nat \<Rightarrow> byte list \<times> byte list \<Rightarrow> rd_res \<times> byte list \<times> byte list" where
  "slow_read c n w = (let k = min n (Suc c) in (RGot (take k (fst w)), drop k (fst w), snd w))"

definition slow_write :: "nat \<Rightarrow> byte list \<Rightarrow> byte list \<times> byte list \<Rightarrow> wr_res \<times> byte list \<times> byte list" where
  "slow_write c bs w = (let k = min (length bs) (Suc c) in (Wrote k, fst w, snd w @ take k bs))"

lemma slow_stream: "readable (slow_read c) fst snd" "writable (slow_write c) snd fst"
  by (auto simp: readable_def writable_def slow_read_def slow_write_def Let_def)

end
