(* ===== verification/Net_Types.thy ===== *)
theory Net_Types
  imports Posix
begin

text \<open>
  The types of \<open>src/src/spawn_net.h\<close>. The field \<open>data\<close> of an endpoint or a channel points to a
  structure of the transport; it is a parameter of the type, and \<open>None\<close> is the null pointer.
\<close>

datatype spawn_net_type =
  SPAWN_NET_TYPE_NULL | SPAWN_NET_TYPE_TCP | SPAWN_NET_TYPE_FIFO | SPAWN_NET_TYPE_IBUD

record 'd spawn_net_endpoint =
  ep_type :: spawn_net_type
  ep_name :: "string option"
  ep_data :: "'d option"

record 'd spawn_net_channel =
  ch_type :: spawn_net_type
  ch_name :: "string option"
  ch_data :: "'d option"

section \<open>What a reader relies on\<close>

text \<open>
  Reading messages one after the other, each with its size, as the functions of
  \<open>src/src/spawn_net_util.c\<close> and the collectives do. A transport promises that a read with the size of
  the next message returns that message; \<open>queued ms w\<close> says that the messages \<open>ms\<close> are next on the channel.
\<close>

fun read_seq :: "(nat \<Rightarrow> 'w \<Rightarrow> (int \<times> byte list \<times> 'w) option) \<Rightarrow> nat list \<Rightarrow> 'w \<Rightarrow> (byte list list \<times> 'w) option" where
  "read_seq rd [] w = Some ([], w)"
| "read_seq rd (n # ns) w =
     (case rd n w of
        None \<Rightarrow> None
      | Some (rc, m, w) \<Rightarrow>
          if rc \<noteq> SPAWN_SUCCESS then None else map_option (\<lambda>(ms, w). (m # ms, w)) (read_seq rd ns w))"

locale message_reader =
  fixes rd :: "nat \<Rightarrow> 'w \<Rightarrow> (int \<times> byte list \<times> 'w) option"
    and queued :: "byte list list \<Rightarrow> 'w \<Rightarrow> bool"
  assumes read_next: "queued (m # ms) w \<Longrightarrow> \<exists>w'. rd (length m) w = Some (SPAWN_SUCCESS, m, w') \<and> queued ms w'"
begin

lemma read_messages: "queued (ms @ rest) w \<Longrightarrow> \<exists>w'. read_seq rd (map length ms) w = Some (ms, w') \<and> queued rest w'"
proof (induction ms arbitrary: w)
  case (Cons m ms)
  then obtain w1 where "rd (length m) w = Some (SPAWN_SUCCESS, m, w1)" "queued (ms @ rest) w1"
    using read_next [of m "ms @ rest" w] by auto
  then show ?case using Cons.IH [of w1] by auto
qed simp

end

end
