(* ===== verification/Tcp.thy ===== *)
theory Tcp
  imports Net_Types
begin

text \<open>
  The TCP transport, \<open>src/src/spawn_net_tcp.c\<close>. The socket interface of the kernel is a parameter, a
  record of functions on the state \<open>'w\<close> of the outside world; an address \<open>'ip\<close> is opaque. Each
  function of the source is one definition that threads the world. \<open>None\<close> as the result of a
  whole operation stands for undefined behaviour.
\<close>

section \<open>The kernel\<close>

record ('w, 'ip) tcp_os =
  sys_socket :: "'w \<Rightarrow> int \<times> 'w"
  sys_setsockopt :: "int \<Rightarrow> 'w \<Rightarrow> int \<times> 'w"
  sys_bind :: "int \<Rightarrow> 'w \<Rightarrow> int \<times> 'w"
  sys_listen :: "int \<Rightarrow> nat \<Rightarrow> 'w \<Rightarrow> int \<times> 'w"
  sys_gethostname :: "'w \<Rightarrow> string option"
  sys_gethostbyname :: "string \<Rightarrow> 'w \<Rightarrow> 'ip option"
  sys_getsockname :: "int \<Rightarrow> 'w \<Rightarrow> ('ip \<times> 16 word) option"
  sys_getpeername :: "int \<Rightarrow> 'w \<Rightarrow> ('ip \<times> 16 word) option"
  sys_connect :: "int \<Rightarrow> 'ip \<Rightarrow> 16 word \<Rightarrow> 'w \<Rightarrow> int \<times> 'w"
  sys_accept :: "int \<Rightarrow> 'w \<Rightarrow> int \<times> 'w"
  sys_read :: "int \<Rightarrow> nat \<Rightarrow> 'w \<Rightarrow> rd_res \<times> 'w"
  sys_write :: "int \<Rightarrow> byte list \<Rightarrow> 'w \<Rightarrow> wr_res \<times> 'w"
  sys_close :: "int \<Rightarrow> 'w \<Rightarrow> 'w"
  sys_select :: "int \<Rightarrow> int list \<Rightarrow> 'w \<Rightarrow> int \<times> int list \<times> 'w"
  sys_getenv :: "string \<Rightarrow> string option"
  inet_ntoa :: "'ip \<Rightarrow> string"
  inet_aton :: "string \<Rightarrow> 'ip option"

section \<open>Reading and writing\<close>

text \<open>The loop of \<open>reliable_read\<close>; \<open>buf\<close> holds the bytes read so far.\<close>

function reliable_read_tcp :: "(nat \<Rightarrow> 'w \<Rightarrow> rd_res \<times> 'w) \<Rightarrow> nat \<Rightarrow> byte list \<Rightarrow> 'w \<Rightarrow> int \<times> byte list \<times> 'w" where
  "reliable_read_tcp rd sz buf w =
     (if length buf < sz then
        let remaining = sz - length buf in
        (case rd remaining w of
           (RGot bs, w) \<Rightarrow>
             if length bs > 0 then reliable_read_tcp rd sz (buf @ bs) w
             else (SPAWN_FAILURE, buf, w)
         | (RErr e, w) \<Rightarrow> (SPAWN_FAILURE, buf, w))
      else (SPAWN_SUCCESS, buf, w))"
  by auto
termination
  by (relation "measure (\<lambda>(rd, sz, buf, w). sz - length buf)") (auto intro!: diff_less_mono2)

declare reliable_read_tcp.simps [simp del]

text \<open>The loop of \<open>reliable_write\<close>; \<open>bs\<close> are the bytes still to be written.\<close>

function reliable_write_tcp :: "(byte list \<Rightarrow> 'w \<Rightarrow> wr_res \<times> 'w) \<Rightarrow> byte list \<Rightarrow> 'w \<Rightarrow> int \<times> 'w" where
  "reliable_write_tcp wr bs w =
     (if 0 < length bs then
        (case wr bs w of
           (Wrote cnt, w) \<Rightarrow>
             if cnt > 0 then reliable_write_tcp wr (drop cnt bs) w else (SPAWN_FAILURE, w)
         | (WErr e, w) \<Rightarrow> (SPAWN_FAILURE, w))
      else (SPAWN_SUCCESS, w))"
  by auto
termination
  by (relation "measure (\<lambda>(wr, bs, w). length bs)") auto

declare reliable_write_tcp.simps [simp del]

section \<open>Names\<close>

text \<open>\<open>TCP:%d:%s:%s:%u\<close>\<close>

definition tcp_name :: "string \<Rightarrow> string \<Rightarrow> 16 word \<Rightarrow> string" where
  "tcp_name host ip port = ''TCP:'' @ dec (length host) @ '':'' @ host @ '':'' @ ip @ '':'' @ dec (unat port)"

definition spawn_net_get_local_sockname :: "('w, 'ip) tcp_os \<Rightarrow> int \<Rightarrow> 'w \<Rightarrow> string option" where
  "spawn_net_get_local_sockname os fd w =
     (case sys_gethostname os w of
        None \<Rightarrow> NULL
      | Some hostname \<Rightarrow>
          (case sys_getsockname os fd w of
             None \<Rightarrow> NULL
           | Some (ip, port) \<Rightarrow> Some (tcp_name hostname (inet_ntoa os ip) port)))"

definition spawn_net_get_remote_sockname :: "('w, 'ip) tcp_os \<Rightarrow> int \<Rightarrow> string \<Rightarrow> 'w \<Rightarrow> string option" where
  "spawn_net_get_remote_sockname os fd host w =
     (case sys_getpeername os fd w of
        None \<Rightarrow> NULL
      | Some (ip, port) \<Rightarrow> Some (tcp_name host (inet_ntoa os ip) port))"

text \<open>The format \<open>%s --> %s\<close>; the C library prints a null pointer as \<open>(null)\<close>.\<close>

definition show_str :: "string option \<Rightarrow> string" where
  "show_str s = (case s of None \<Rightarrow> ''(null)'' | Some t \<Rightarrow> t)"

definition arrow_name :: "string option \<Rightarrow> string option \<Rightarrow> string" where
  "arrow_name local_name remote_name = show_str local_name @ '' --> '' @ show_str remote_name"

definition spawn_net_set_tcp_nodelay :: "('w, 'ip) tcp_os \<Rightarrow> int \<Rightarrow> 'w \<Rightarrow> int \<times> 'w" where
  "spawn_net_set_tcp_nodelay os fd w =
     (let set_nodelay = (case sys_getenv os ''SPAWN_TCP_NODELAY'' of None \<Rightarrow> 1 | Some env \<Rightarrow> atoi env) in
      if set_nodelay \<noteq> 0 then
        (case sys_setsockopt os fd w of (rc, w) \<Rightarrow> if rc < 0 then (SPAWN_FAILURE, w) else (SPAWN_SUCCESS, w))
      else (SPAWN_SUCCESS, w))"

section \<open>Endpoints\<close>

definition spawn_net_tcp_backlog :: nat where "spawn_net_tcp_backlog = 64"

definition fail_close :: "('w, 'ip) tcp_os \<Rightarrow> int \<Rightarrow> 'w \<Rightarrow> 'x option \<times> 'w" where
  "fail_close os fd w = (NULL, sys_close os fd w)"

definition spawn_net_open_tcp :: "('w, 'ip) tcp_os \<Rightarrow> 'w \<Rightarrow> int spawn_net_endpoint option \<times> 'w" where
  "spawn_net_open_tcp os w =
     (case sys_socket os w of (fd, w) \<Rightarrow>
      if fd < 0 then (NULL, w)
      else (case spawn_net_set_tcp_nodelay os fd w of (rc, w) \<Rightarrow>
      if rc \<noteq> 0 then fail_close os fd w
      else (case sys_bind os fd w of (rc, w) \<Rightarrow>
      if rc < 0 then fail_close os fd w
      else (case sys_listen os fd spawn_net_tcp_backlog w of (rc, w) \<Rightarrow>
      if rc < 0 then fail_close os fd w
      else (case sys_gethostname os w of
        None \<Rightarrow> fail_close os fd w
      | Some hostname \<Rightarrow> (case sys_gethostbyname os hostname w of
        None \<Rightarrow> fail_close os fd w
      | Some ip \<Rightarrow> (case sys_getsockname os fd w of
        None \<Rightarrow> fail_close os fd w
      | Some (own_ip, port) \<Rightarrow>
          (Some \<lparr>ep_type = SPAWN_NET_TYPE_TCP, ep_name = Some (tcp_name hostname (inet_ntoa os ip) port),
                 ep_data = Some fd\<rparr>, w))))))))"

text \<open>The argument is a pointer to the caller's variable; the new content of the variable is returned.\<close>

definition spawn_net_close_tcp ::
  "('w, 'ip) tcp_os \<Rightarrow> int spawn_net_endpoint option option \<Rightarrow> 'w \<Rightarrow> (int \<times> int spawn_net_endpoint option option \<times> 'w) option"
  where
  "spawn_net_close_tcp os pep w =
     (case pep of
        None \<Rightarrow> Some (SPAWN_FAILURE, None, w)
      | Some None \<Rightarrow> None
      | Some (Some ep) \<Rightarrow>
          let w = (case ep_data ep of None \<Rightarrow> w | Some fd \<Rightarrow> if fd > 0 then sys_close os fd w else w)
          in Some (SPAWN_SUCCESS, Some NULL, w))"

section \<open>Connections\<close>

text \<open>
  Taking a name apart; \<open>None\<close> when the scan for a colon or the skip over the host name would
  leave the string.
\<close>

definition parse_tcp_name :: "string \<Rightarrow> (string \<times> string \<times> string) option" where
  "parse_tcp_name name = do {
     (host_len_str, p) \<leftarrow> scan_colon (drop 4 name);
     let host_len = atoi host_len_str;
     if 0 \<le> host_len \<and> nat host_len < length p then do {
       let host_str = take (nat host_len) p;
       (ip_str, port_str) \<leftarrow> scan_colon (drop (nat host_len + 1) p);
       Some (host_str, ip_str, port_str)
     } else None
   }"

text \<open>\<open>junk_ip\<close> is the content of the variable \<open>ip\<close> when \<open>inet_aton\<close> rejects the string.\<close>

definition spawn_net_connect_tcp ::
  "('w, 'ip) tcp_os \<Rightarrow> 'ip \<Rightarrow> string \<Rightarrow> 'w \<Rightarrow> (int spawn_net_channel option \<times> 'w) option" where
  "spawn_net_connect_tcp os junk_ip name w =
     (if \<not> has_prefix ''TCP:'' name then Some (NULL, w)
      else do {
        (host_str, ip_str, port_str) \<leftarrow> parse_tcp_name name;
        let ip = (case inet_aton os ip_str of None \<Rightarrow> junk_ip | Some ip \<Rightarrow> ip);
        let port = word_of_int (atoi port_str);
        let (fd, w) = sys_socket os w;
        if fd < 0 then Some (NULL, w)
        else let (rc, w) = spawn_net_set_tcp_nodelay os fd w in
        if rc \<noteq> 0 then Some (fail_close os fd w)
        else let (rc, w) = sys_connect os fd ip port w in
        if rc < 0 then Some (fail_close os fd w)
        else let name' = arrow_name (spawn_net_get_local_sockname os fd w) (spawn_net_get_remote_sockname os fd host_str w) in
        (case sys_gethostname os w of
           None \<Rightarrow> Some (fail_close os fd w)
         | Some hostname \<Rightarrow>
             let (rc, w) = reliable_write_tcp (sys_write os fd) (spawn_pack_uint64 (str_size hostname)) w in
             if rc \<noteq> SPAWN_SUCCESS then Some (fail_close os fd w)
             else let (rc, w) = reliable_write_tcp (sys_write os fd) (mem_str hostname) w in
             if rc \<noteq> SPAWN_SUCCESS then Some (fail_close os fd w)
             else Some (Some \<lparr>ch_type = SPAWN_NET_TYPE_TCP, ch_name = Some name', ch_data = Some fd\<rparr>, w))
      })"

text \<open>
  The length of the greeting is what the other side says. A greeting without a null byte, an empty one included (for which
  no memory is allocated), is not a string: its length is then taken beyond the buffer or of a null pointer, which is undefined.
\<close>

definition spawn_net_accept_tcp ::
  "('w, 'ip) tcp_os \<Rightarrow> int spawn_net_endpoint \<Rightarrow> 'w \<Rightarrow> (int spawn_net_channel option \<times> 'w) option" where
  "spawn_net_accept_tcp os ep w =
     (case ep_data ep of
        None \<Rightarrow> None
      | Some listenfd \<Rightarrow>
        let (fd, w) = sys_accept os listenfd w in
        if fd < 0 then Some (NULL, w)
        else let (rc, w) = spawn_net_set_tcp_nodelay os fd w in
        if rc \<noteq> 0 then Some (fail_close os fd w)
        else let (rc, len_net, w) = reliable_read_tcp (sys_read os fd) 8 [] w in
        if rc \<noteq> SPAWN_SUCCESS then Some (fail_close os fd w)
        else let len = unat (fst (spawn_unpack_uint64 len_net));
                 (rc, remote, w) = reliable_read_tcp (sys_read os fd) len [] w in
        if rc \<noteq> SPAWN_SUCCESS then Some (fail_close os fd w)
        else if sys_getpeername os fd w \<noteq> NULL \<and> NUL \<notin> set remote then None
        else let name' = arrow_name (spawn_net_get_local_sockname os fd w)
                   (spawn_net_get_remote_sockname os fd (load_str remote) w)
        in Some (Some \<lparr>ch_type = SPAWN_NET_TYPE_TCP, ch_name = Some name', ch_data = Some fd\<rparr>, w))"

definition spawn_net_disconnect_tcp ::
  "('w, 'ip) tcp_os \<Rightarrow> int spawn_net_channel option option \<Rightarrow> 'w \<Rightarrow> (int \<times> int spawn_net_channel option option \<times> 'w) option"
  where
  "spawn_net_disconnect_tcp os pch w =
     (case pch of
        None \<Rightarrow> Some (SPAWN_FAILURE, None, w)
      | Some None \<Rightarrow> None
      | Some (Some ch) \<Rightarrow>
          let w = (case ch_data ch of None \<Rightarrow> w | Some fd \<Rightarrow> if fd > 0 then sys_close os fd w else w)
          in Some (SPAWN_SUCCESS, Some NULL, w))"

text \<open>Reading gives the return code and the bytes stored in the buffer.\<close>

definition spawn_net_read_tcp ::
  "('w, 'ip) tcp_os \<Rightarrow> int spawn_net_channel \<Rightarrow> nat \<Rightarrow> 'w \<Rightarrow> (int \<times> byte list \<times> 'w) option" where
  "spawn_net_read_tcp os ch sz w =
     (case ch_data ch of
        None \<Rightarrow> None
      | Some fd \<Rightarrow> Some (if fd > 0 then reliable_read_tcp (sys_read os fd) sz [] w else (SPAWN_SUCCESS, [], w)))"

definition spawn_net_write_tcp ::
  "('w, 'ip) tcp_os \<Rightarrow> int spawn_net_channel \<Rightarrow> byte list \<Rightarrow> 'w \<Rightarrow> (int \<times> 'w) option" where
  "spawn_net_write_tcp os ch buf w =
     (case ch_data ch of
        None \<Rightarrow> None
      | Some fd \<Rightarrow> Some (if fd > 0 then reliable_write_tcp (sys_write os fd) buf w else (SPAWN_SUCCESS, w)))"

section \<open>Waiting\<close>

text \<open>
  The first loops collect the descriptors of the entries that are not null, their number and the
  highest one; the last two look for the first ready entry. \<open>FD_SET\<close> of a descriptor that is negative or not below
  \<open>FD_SETSIZE\<close> is undefined.
\<close>

definition FD_SETSIZE :: int where "FD_SETSIZE = 1024"

fun collect_fds :: "int option list \<Rightarrow> int list \<times> nat \<times> int \<Rightarrow> (int list \<times> nat \<times> int) option" where
  "collect_fds [] s = Some s"
| "collect_fds (None # es) s = collect_fds es s"
| "collect_fds (Some fd # es) (readfds, cnt, highest_fd) =
     (if 0 \<le> fd \<and> fd < FD_SETSIZE
      then collect_fds es (fd # readfds, Suc cnt, if cnt = 0 \<or> fd > highest_fd then fd else highest_fd)
      else None)"

fun first_ready :: "int option list \<Rightarrow> int list \<Rightarrow> nat \<Rightarrow> nat option" where
  "first_ready [] ready i = None"
| "first_ready (None # es) ready i = first_ready es ready (Suc i)"
| "first_ready (Some fd # es) ready i = (if fd \<in> set ready then Some i else first_ready es ready (Suc i))"

text \<open>
  \<open>eps\<close> and \<open>chs\<close> are the descriptors in the arrays (the outer \<open>None\<close> is a null array); \<open>index\<close> is the
  content of the caller's variable before the call.
\<close>

definition array :: "'a list option \<Rightarrow> 'a list" where
  "array a = (case a of None \<Rightarrow> [] | Some xs \<Rightarrow> xs)"

definition spawn_net_wait_tcp ::
  "('w, 'ip) tcp_os \<Rightarrow> int option list option \<Rightarrow> int option list option \<Rightarrow> int \<Rightarrow> 'w \<Rightarrow> (int \<times> int \<times> 'w) option" where
  "spawn_net_wait_tcp os eps chs index w =
     (if eps = NULL \<and> chs = NULL then Some (SPAWN_FAILURE, index, w)
      else do {
        s \<leftarrow> collect_fds (array eps) ([], 0, 0);
        (readfds, cnt, highest_fd) \<leftarrow> collect_fds (array chs) s;
        if cnt = 0 then Some (SPAWN_SUCCESS, -1, w)
        else let (rc, ready, w) = sys_select os (highest_fd + 1) readfds w in
        if rc = -1 then Some (SPAWN_FAILURE, index, w)
        else let index = (case first_ready (array eps) ready 0 of None \<Rightarrow> index | Some i \<Rightarrow> int i);
                 index = (case first_ready (array chs) ready 0 of None \<Rightarrow> index | Some i \<Rightarrow> int i + int (length (array eps)))
        in Some (SPAWN_SUCCESS, index, w) })"

end
