(* ===== verification/Fifo.thy ===== *)
theory Fifo
  imports Net_Types
begin

text \<open>
  The transport over named pipes, \<open>src/src/spawn_net_fifo.c\<close>. The global variables of the file are the
  record \<open>fifo\<close>; the packets of the queue live in a heap of linked nodes. The state also holds what
  the process sees of its own pipe (the bytes that are in it now, and the batches of bytes that
  arrive later, each after a poll has found the pipe empty) and what it has done to the outside:
  bytes written to other pipes, descriptors closed, pipe files that exist, and when its own pipe was closed and removed. \<open>None\<close> as the result of an
  operation stands for undefined behaviour or for waiting forever.
\<close>

section \<open>State\<close>

record spawn_packet =
  pk_type :: u64
  pk_src :: u64
  pk_size :: u64
  pk_data :: "byte list option"
  pk_next :: ptr

text \<open>
  \<open>own_calls\<close> has the calls that close and remove the own pipe, the last one first, each with the number of writers that
  were connected at that moment.
\<close>

datatype own_call = Own_close int | Own_unlink string

record fifo =
  g_name :: "string option"
  g_path :: "string option"
  g_fd :: int
  g_open_count :: int
  g_writer_count :: int
  g_next_id :: u64
  pkts :: "nat \<rightharpoonup> spawn_packet"
  pk_brk :: nat
  queue_head :: ptr
  queue_tail :: ptr
  pipe_now :: "byte list"
  pipe_later :: "byte list list"
  wr_calls :: nat
  wrote :: "(int \<times> byte list) list"
  closed :: "int list"
  files :: "string list"
  own_calls :: "(own_call \<times> int) list"

text \<open>The initial values of the global variables.\<close>

definition fifo_start :: fifo where
  "fifo_start = \<lparr>g_name = NULL, g_path = NULL, g_fd = -1, g_open_count = 0, g_writer_count = 0, g_next_id = 1,
     pkts = Map.empty, pk_brk = 0, queue_head = NULL, queue_tail = NULL, pipe_now = [], pipe_later = [],
     wr_calls = 0, wrote = [], closed = [], files = [], own_calls = []\<rparr>"

record spawn_chdata =
  readfd :: int
  readid :: int
  writefd :: int
  writeid :: int
  readname :: "string option"
  writename :: "string option"

definition HDR_SIZE :: nat where "HDR_SIZE = 3 * 8"
definition PIPE_BUF :: nat where "PIPE_BUF = 4096"

definition PKT_NULL :: u64 where "PKT_NULL = 0"
definition PKT_CONNECT :: u64 where "PKT_CONNECT = 1"
definition PKT_ACCEPT :: u64 where "PKT_ACCEPT = 2"
definition PKT_DISCONNECT :: u64 where "PKT_DISCONNECT = 3"
definition PKT_MESSAGE :: u64 where "PKT_MESSAGE = 4"

lemmas pkt_types = PKT_NULL_def PKT_CONNECT_def PKT_ACCEPT_def PKT_DISCONNECT_def PKT_MESSAGE_def

text \<open>
  The results of the system calls that the process makes, other than reads of its own pipe. The
  result of a \<open>write\<close> depends on the number of the call, so that a call that was interrupted may succeed
  when it is made again.
\<close>

record fifo_os =
  os_pid :: nat
  os_mknod :: "string \<Rightarrow> int"
  os_open_rd :: "string \<Rightarrow> int"
  os_open_wr :: "string \<Rightarrow> int"
  os_write :: "nat \<Rightarrow> int \<Rightarrow> byte list \<Rightarrow> wr_res"

text \<open>A read of the own pipe, which is opened with \<open>O_NONBLOCK\<close>.\<close>

definition pipe_read :: "nat \<Rightarrow> fifo \<Rightarrow> rd_res \<times> fifo" where
  "pipe_read n s =
     (if pipe_now s = [] then
        (RErr EAGAIN, case pipe_later s of [] \<Rightarrow> s | b # bs \<Rightarrow> s\<lparr>pipe_now := b, pipe_later := bs\<rparr>)
      else (RGot (take n (pipe_now s)), s\<lparr>pipe_now := drop n (pipe_now s)\<rparr>))"

definition pipe_write :: "fifo_os \<Rightarrow> int \<Rightarrow> byte list \<Rightarrow> fifo \<Rightarrow> wr_res \<times> fifo" where
  "pipe_write os fd bs s =
     (let n = wr_calls s; s = s\<lparr>wr_calls := Suc n\<rparr> in
      case os_write os n fd bs of
        Wrote k \<Rightarrow> (Wrote k, s\<lparr>wrote := wrote s @ [(fd, take k bs)]\<rparr>)
      | WErr e \<Rightarrow> (WErr e, s))"

section \<open>Reading and writing\<close>

text \<open>
  \<open>buf\<close> holds the bytes read so far. The result has the return code and the value of \<open>errno\<close>. The
  branch for \<open>EINTR\<close> is the source's: it stands behind the test for \<open>EAGAIN\<close>.
\<close>

function reliable_read_fifo ::
  "(nat \<Rightarrow> 'w \<Rightarrow> rd_res \<times> 'w) \<Rightarrow> nat \<Rightarrow> byte list \<Rightarrow> 'w \<Rightarrow> int \<times> errno option \<times> byte list \<times> 'w" where
  "reliable_read_fifo rd sz buf w =
     (if length buf < sz then
        let remaining = sz - length buf in
        (case rd remaining w of
           (RGot bs, w) \<Rightarrow>
             if length bs > 0 then reliable_read_fifo rd sz (buf @ bs) w
             else (SPAWN_FAILURE, Some EAGAIN, buf, w)
         | (RErr e, w) \<Rightarrow>
             if e \<noteq> EAGAIN then (SPAWN_FAILURE, Some e, buf, w)
             else if e = EINTR then reliable_read_fifo rd sz buf w
             else (SPAWN_FAILURE, Some e, buf, w))
      else (SPAWN_SUCCESS, None, buf, w))"
  by auto
termination
  by (relation "measure (\<lambda>(rd, sz, buf, w). sz - length buf)") (auto intro!: diff_less_mono2)

declare reliable_read_fifo.simps [simp del]

text \<open>\<open>bs\<close> are the bytes still to be written; a write that is always interrupted never returns.\<close>

partial_function (option) reliable_write_fifo ::
  "(byte list \<Rightarrow> 'w \<Rightarrow> wr_res \<times> 'w) \<Rightarrow> byte list \<Rightarrow> 'w \<Rightarrow> (int \<times> 'w) option" where
  "reliable_write_fifo wr bs w =
     (if 0 < length bs then
        (case wr bs w of
           (Wrote cnt, w) \<Rightarrow>
             if cnt > 0 then reliable_write_fifo wr (drop cnt bs) w else Some (SPAWN_FAILURE, w)
         | (WErr e, w) \<Rightarrow>
             if e = EINTR \<or> e = EAGAIN then reliable_write_fifo wr bs w else Some (SPAWN_FAILURE, w))
      else Some (SPAWN_SUCCESS, w))"

section \<open>Packets\<close>

definition packet_new :: "fifo \<Rightarrow> nat \<times> fifo" where
  "packet_new s =
     (let p = pk_brk s in
      (p, s\<lparr>pkts := (pkts s)(p \<mapsto> \<lparr>pk_type = PKT_NULL, pk_src = 0, pk_size = 0, pk_data = NULL, pk_next = NULL\<rparr>),
            pk_brk := Suc p\<rparr>))"

definition packet_free :: "ptr option \<Rightarrow> fifo \<Rightarrow> int \<times> fifo" where
  "packet_free ppacket s =
     (case ppacket of
        None \<Rightarrow> (SPAWN_SUCCESS, s)
      | Some None \<Rightarrow> (SPAWN_SUCCESS, s)
      | Some (Some p) \<Rightarrow> (SPAWN_SUCCESS, s\<lparr>pkts := (pkts s)(p := None)\<rparr>))"

definition packet_poll :: "fifo \<Rightarrow> ptr \<times> fifo" where
  "packet_poll s =
     (let (rc, err, headerbuf, s) = reliable_read_fifo pipe_read HDR_SIZE [] s in
      if rc \<noteq> SPAWN_SUCCESS then (NULL, s)
      else let type = fst (spawn_unpack_uint64 headerbuf);
               src = fst (spawn_unpack_uint64 (drop 8 headerbuf));
               sz = fst (spawn_unpack_uint64 (drop 16 headerbuf));
               bytes = unat sz;
               (rc, err, buf, s) = reliable_read_fifo pipe_read bytes [] s in
      if rc \<noteq> SPAWN_SUCCESS then (NULL, s)
      else let (p, s) = packet_new s;
               k = \<lparr>pk_type = type, pk_src = src, pk_size = sz,
                    pk_data = (if bytes > 0 then Some buf else NULL), pk_next = NULL\<rparr>
      in (Some p, s\<lparr>pkts := (pkts s)(p \<mapsto> k)\<rparr>))"

section \<open>The packet queue\<close>

definition set_next :: "nat \<Rightarrow> ptr \<Rightarrow> fifo \<Rightarrow> fifo option" where
  "set_next p v s = (case pkts s p of None \<Rightarrow> None | Some k \<Rightarrow> Some (s\<lparr>pkts := (pkts s)(p \<mapsto> k\<lparr>pk_next := v\<rparr>)\<rparr>))"

definition queue_append :: "nat \<Rightarrow> fifo \<Rightarrow> fifo option" where
  "queue_append p s = do {
     let s = (if queue_head s = NULL then s\<lparr>queue_head := Some p\<rparr> else s);
     s \<leftarrow> (case queue_tail s of None \<Rightarrow> Some s | Some t \<Rightarrow> set_next t (Some p) s);
     Some (s\<lparr>queue_tail := Some p\<rparr>)
   }"

partial_function (option) queue_progress :: "fifo \<Rightarrow> fifo option" where
  "queue_progress s =
     (case packet_poll s of
        (None, s) \<Rightarrow> Some s
      | (Some p, s) \<Rightarrow>
          (case pkts s p of
             None \<Rightarrow> None
           | Some k \<Rightarrow>
               if pk_type k = PKT_DISCONNECT
               then queue_progress (snd (packet_free (Some (Some p)) (s\<lparr>g_writer_count := g_writer_count s - 1\<rparr>)))
               else Option.bind (queue_append p s) queue_progress))"

definition queue_extract :: "ptr \<Rightarrow> nat \<Rightarrow> fifo \<Rightarrow> fifo option" where
  "queue_extract prev cur s =
     (case pkts s cur of None \<Rightarrow> None | Some k \<Rightarrow> do {
        s \<leftarrow> (if queue_head s = Some cur then
                let s = s\<lparr>queue_head := pk_next k\<rparr> in
                Some (if queue_head s = NULL then s\<lparr>queue_tail := NULL\<rparr> else s)
              else (case prev of
                 None \<Rightarrow> None
               | Some q \<Rightarrow> do {
                   s \<leftarrow> set_next q (pk_next k) s;
                   Some (if queue_tail s = Some cur then s\<lparr>queue_tail := prev\<rparr> else s)
                 }));
        set_next cur NULL s
      })"

definition packet_match :: "spawn_packet \<Rightarrow> u64 \<Rightarrow> u64 \<Rightarrow> bool" where
  "packet_match p type src \<longleftrightarrow> pk_type p = type \<and> (if type = PKT_CONNECT then True else pk_src p = src)"

text \<open>The search loop: the packet found, which is then out of the queue.\<close>

partial_function (option) queue_search :: "u64 \<Rightarrow> u64 \<Rightarrow> ptr \<Rightarrow> ptr \<Rightarrow> fifo \<Rightarrow> (ptr \<times> fifo) option" where
  "queue_search type src prev cur s =
     (case cur of
        None \<Rightarrow> Some (NULL, s)
      | Some c \<Rightarrow>
          (case pkts s c of
             None \<Rightarrow> None
           | Some k \<Rightarrow>
               if packet_match k type src
               then Option.bind (queue_extract prev c s) (\<lambda>s. Some (Some c, s))
               else queue_search type src cur (pk_next k) s))"

text \<open>The loop that waits for new packets and searches those behind the old tail.\<close>

partial_function (option) packet_wait :: "u64 \<Rightarrow> u64 \<Rightarrow> fifo \<Rightarrow> (nat \<times> fifo) option" where
  "packet_wait type src s =
     (let tail = queue_tail s in
      Option.bind (queue_progress s) (\<lambda>s.
      if queue_tail s \<noteq> tail then
        Option.bind (case tail of
            None \<Rightarrow> queue_search type src NULL (queue_head s) s
          | Some t \<Rightarrow> Option.bind (pkts s t) (\<lambda>k. queue_search type src tail (pk_next k) s))
        (\<lambda>(p, s). case p of None \<Rightarrow> packet_wait type src s | Some q \<Rightarrow> Some (q, s))
      else packet_wait type src s))"

definition packet_read :: "u64 \<Rightarrow> u64 \<Rightarrow> fifo \<Rightarrow> (nat \<times> fifo) option" where
  "packet_read type src s =
     Option.bind (queue_progress s) (\<lambda>s.
     Option.bind (queue_search type src NULL (queue_head s) s) (\<lambda>(p, s).
     case p of None \<Rightarrow> packet_wait type src s | Some q \<Rightarrow> Some (q, s)))"

section \<open>Endpoints\<close>

definition spawn_net_open_fifo :: "fifo_os \<Rightarrow> fifo \<Rightarrow> int spawn_net_endpoint option \<times> fifo" where
  "spawn_net_open_fifo os s =
     (let (ok, s) =
        (if g_name s = NULL then
           let path = ''/tmp/fifo.'' @ dec (os_pid os);
               s = s\<lparr>g_path := Some path, g_name := Some (''FIFO:'' @ path)\<rparr>
           in if os_mknod os path < 0 then (False, s\<lparr>g_path := NULL, g_name := NULL\<rparr>)
              else let s = s\<lparr>files := path # files s\<rparr>; s = s\<lparr>g_fd := os_open_rd os path\<rparr> in
                if g_fd s < 0 then (False, s\<lparr>files := remove1 path (files s), own_calls := (Own_unlink path, g_writer_count s) # own_calls s, g_path := NULL, g_name := NULL\<rparr>)
                else (True, s)
         else (True, s))
      in if \<not> ok then (NULL, s)
         else let s = s\<lparr>g_open_count := g_open_count s + 1\<rparr>
           in (Some \<lparr>ep_type = SPAWN_NET_TYPE_FIFO, ep_name = g_name s, ep_data = Some (g_fd s)\<rparr>, s))"

partial_function (option) wait_writers :: "fifo \<Rightarrow> fifo option" where
  "wait_writers s = (if g_writer_count s > 0 then Option.bind (queue_progress s) wait_writers else Some s)"

definition spawn_net_close_fifo ::
  "int spawn_net_endpoint option option \<Rightarrow> fifo \<Rightarrow> (int \<times> int spawn_net_endpoint option option \<times> fifo) option" where
  "spawn_net_close_fifo pep s =
     (if pep = None then Some (SPAWN_FAILURE, None, s)
      else if g_open_count s \<le> 0 then Some (SPAWN_FAILURE, pep, s)
      else do {
        let s = s\<lparr>g_open_count := g_open_count s - 1\<rparr>;
        s \<leftarrow> (if g_open_count s = 0 then do {
                s \<leftarrow> wait_writers s;
                let s = (if g_fd s > 0 then s\<lparr>closed := g_fd s # closed s, own_calls := (Own_close (g_fd s), g_writer_count s) # own_calls s\<rparr> else s);
                let s = (case g_path s of None \<Rightarrow> s
                         | Some path \<Rightarrow> s\<lparr>files := remove1 path (files s), own_calls := (Own_unlink path, g_writer_count s) # own_calls s\<rparr>);
                Some (s\<lparr>g_name := NULL, g_path := NULL\<rparr>)
              } else Some s);
        Some (SPAWN_SUCCESS, Some NULL, s)
      })"

definition open_for_write :: "fifo_os \<Rightarrow> string \<Rightarrow> int" where
  "open_for_write os name =
     (if \<not> has_prefix ''FIFO:'' name then -1
      else let path = drop 5 name; fd = os_open_wr os path in
        if fd < 0 then -1 else fd)"

section \<open>Connections\<close>

definition packet_header :: "u64 \<Rightarrow> u64 \<Rightarrow> u64 \<Rightarrow> byte list" where
  "packet_header type src sz = spawn_pack_uint64 type @ spawn_pack_uint64 src @ spawn_pack_uint64 sz"

text \<open>An id is stored in a field of type \<open>int\<close> and converted back to 64 bits when it is used.\<close>

definition id_int :: "u64 \<Rightarrow> int" where
  "id_int x = sint (word_of_int (uint x) :: 32 word)"

definition id_u64 :: "int \<Rightarrow> u64" where
  "id_u64 x = word_of_int x"

definition new_channel :: "string \<Rightarrow> u64 \<Rightarrow> int \<Rightarrow> u64 \<Rightarrow> fifo \<Rightarrow> spawn_chdata spawn_net_channel" where
  "new_channel name rid wfd wid s =
     \<lparr>ch_type = SPAWN_NET_TYPE_FIFO, ch_name = map_option (\<lambda>g. g @ '' <--> '' @ name) (g_name s),
      ch_data = Some \<lparr>readfd = g_fd s, readid = id_int rid, writefd = wfd, writeid = id_int wid,
                      readname = g_name s, writename = Some name\<rparr>\<rparr>"

definition spawn_net_connect_fifo :: "fifo_os \<Rightarrow> string \<Rightarrow> fifo \<Rightarrow> (spawn_chdata spawn_net_channel option \<times> fifo) option" where
  "spawn_net_connect_fifo os name s =
     (let wfd = open_for_write os name in
      if wfd < 0 then Some (NULL, s)
      else (case g_name s of
        None \<Rightarrow> None
      | Some own \<Rightarrow> do {
          let sz = 8 + str_size own;
          let rid = g_next_id s;
          let s = s\<lparr>g_next_id := g_next_id s + 1\<rparr>;
          let buf = packet_header PKT_CONNECT (- 1) sz @ spawn_pack_uint64 rid @ mem_str own;
          (rc, s) \<leftarrow> reliable_write_fifo (pipe_write os wfd) buf s;
          if rc \<noteq> SPAWN_SUCCESS then Some (NULL, s\<lparr>closed := wfd # closed s\<rparr>)
          else do {
            (p, s) \<leftarrow> packet_read PKT_ACCEPT rid s;
            k \<leftarrow> pkts s p;
            d \<leftarrow> pk_data k;
            let wid = fst (spawn_unpack_uint64 d);
            let s = snd (packet_free (Some (Some p)) s);
            let s = s\<lparr>g_writer_count := g_writer_count s + 1\<rparr>;
            Some (Some (new_channel name rid wfd wid s), s)
          }
        }))"

definition spawn_net_accept_fifo ::
  "fifo_os \<Rightarrow> int spawn_net_endpoint \<Rightarrow> fifo \<Rightarrow> (spawn_chdata spawn_net_channel option \<times> fifo) option" where
  "spawn_net_accept_fifo os ep s =
     (case ep_data ep of
        None \<Rightarrow> Some (NULL, s)
      | Some listenfd \<Rightarrow> do {
          (p, s) \<leftarrow> packet_read PKT_CONNECT (- 1) s;
          k \<leftarrow> pkts s p;
          d \<leftarrow> pk_data k;
          let wid = fst (spawn_unpack_uint64 d);
          let name = load_str (drop 8 d);
          let wfd = open_for_write os name;
          if wfd < 0 then Some (NULL, snd (packet_free (Some (Some p)) s))
          else do {
            let s = snd (packet_free (Some (Some p)) s);
            let rid = g_next_id s;
            let s = s\<lparr>g_next_id := g_next_id s + 1\<rparr>;
            let accept_buf = packet_header PKT_ACCEPT wid 8 @ spawn_pack_uint64 rid;
            (rc, s) \<leftarrow> reliable_write_fifo (pipe_write os wfd) accept_buf s;
            let s = s\<lparr>g_writer_count := g_writer_count s + 1\<rparr>;
            Some (Some (new_channel name rid wfd wid s), s)
          }
        })"

definition spawn_net_disconnect_fifo ::
  "fifo_os \<Rightarrow> spawn_chdata spawn_net_channel option option \<Rightarrow> fifo
     \<Rightarrow> (int \<times> spawn_chdata spawn_net_channel option option \<times> fifo) option" where
  "spawn_net_disconnect_fifo os pch s =
     (case pch of
        None \<Rightarrow> Some (SPAWN_FAILURE, None, s)
      | Some None \<Rightarrow> Some (SPAWN_SUCCESS, Some NULL, s)
      | Some (Some ch) \<Rightarrow>
          (case ch_data ch of
             None \<Rightarrow> Some (SPAWN_SUCCESS, Some NULL, s)
           | Some chdata \<Rightarrow> do {
               let fd = writefd chdata;
               s \<leftarrow> (if fd > 0 then do {
                       let buf = packet_header PKT_DISCONNECT (id_u64 (writeid chdata)) 0;
                       (rc, s) \<leftarrow> reliable_write_fifo (pipe_write os fd) buf s;
                       Some (s\<lparr>closed := fd # closed s\<rparr>)
                     } else Some s);
               Some (SPAWN_SUCCESS, Some NULL, s)
             }))"

section \<open>Messages\<close>

text \<open>
  The loop of a read: \<open>buf\<close> are the bytes stored from the start of the caller's buffer on, of which
  there are \<open>nread\<close>. A packet is copied as a whole.
\<close>

partial_function (option) read_loop :: "int \<Rightarrow> nat \<Rightarrow> byte list \<Rightarrow> fifo \<Rightarrow> (int \<times> byte list \<times> fifo) option" where
  "read_loop rid sz buf s =
     (if length buf < sz then
        Option.bind (packet_read PKT_MESSAGE (id_u64 rid) s) (\<lambda>(p, s).
        Option.bind (pkts s p) (\<lambda>k.
        let payload_size = unat (pk_size k);
            data = (if payload_size > 0 then pk_data k else Some [])
        in Option.bind data (\<lambda>d.
           read_loop rid sz (buf @ take payload_size d) (snd (packet_free (Some (Some p)) s)))))
      else Some (SPAWN_SUCCESS, buf, s))"

definition spawn_net_read_fifo :: "spawn_chdata spawn_net_channel \<Rightarrow> nat \<Rightarrow> fifo \<Rightarrow> (int \<times> byte list \<times> fifo) option" where
  "spawn_net_read_fifo ch sz s =
     (case ch_data ch of
        None \<Rightarrow> Some (SPAWN_FAILURE, [], s)
      | Some chdata \<Rightarrow> read_loop (readid chdata) sz [] s)"

text \<open>The loop of a write, on the part of the message that is still to be sent.\<close>

function write_loop :: "fifo_os \<Rightarrow> int \<Rightarrow> int \<Rightarrow> byte list \<Rightarrow> fifo \<Rightarrow> fifo option" where
  "write_loop os fd wid rest s =
     (if rest \<noteq> [] then
        let payload_size = PIPE_BUF - HDR_SIZE;
            bytes = (if length rest > payload_size then payload_size else length rest);
            packet_buf = packet_header PKT_MESSAGE (id_u64 wid) (word_of_nat bytes) @ take bytes rest
        in Option.bind (reliable_write_fifo (pipe_write os fd) packet_buf s) (\<lambda>(tmp_rc, s).
           write_loop os fd wid (drop bytes rest) s)
      else Some s)"
  by auto
termination
  by (relation "measure (\<lambda>(os, fd, wid, rest, s). length rest)") (auto simp: PIPE_BUF_def HDR_SIZE_def)

declare write_loop.simps [simp del]

definition spawn_net_write_fifo ::
  "fifo_os \<Rightarrow> spawn_chdata spawn_net_channel \<Rightarrow> byte list \<Rightarrow> fifo \<Rightarrow> (int \<times> fifo) option" where
  "spawn_net_write_fifo os ch buf s =
     (case ch_data ch of
        None \<Rightarrow> Some (SPAWN_FAILURE, s)
      | Some chdata \<Rightarrow> map_option (Pair SPAWN_SUCCESS) (write_loop os (writefd chdata) (writeid chdata) buf s))"

end
