(* ===== verification/Net_Dispatch.thy ===== *)
theory Net_Dispatch
  imports Tcp Fifo
begin

text \<open>
  The front end of the transports, \<open>src/src/spawn_net.c\<close>: every function selects the transport by the
  type of its endpoint or channel, or by the prefix of a name. The field \<open>data\<close> points to a structure
  of the transport; using it with another transport is undefined. The InfiniBand transport is
  compiled in only if \<open>HAVE_SPAWN_NET_IBUD\<close> is set; it is a parameter here, \<open>None\<close> when it is left out.
\<close>

section \<open>Data of the transports\<close>

datatype 'i any_ep = Ep_tcp int | Ep_fifo int | Ep_ib 'i
datatype 'j any_ch = Ch_tcp int | Ch_fifo spawn_chdata | Ch_ib 'j

type_synonym 'i endpoint = "'i any_ep spawn_net_endpoint"
type_synonym 'j channel = "'j any_ch spawn_net_channel"

text \<open>The states of the three transports.\<close>

record ('w, 'x) net_world =
  w_tcp :: 'w
  w_fifo :: fifo
  w_ib :: 'x

record ('x, 'i, 'j) ib_ops =
  spawn_net_open_ib :: "'x \<Rightarrow> 'i spawn_net_endpoint option \<times> 'x"
  spawn_net_close_ib :: "'i spawn_net_endpoint option option \<Rightarrow> 'x \<Rightarrow> (int \<times> 'i spawn_net_endpoint option option \<times> 'x) option"
  spawn_net_connect_ib :: "string \<Rightarrow> 'x \<Rightarrow> ('j spawn_net_channel option \<times> 'x) option"
  spawn_net_accept_ib :: "'i spawn_net_endpoint \<Rightarrow> 'x \<Rightarrow> ('j spawn_net_channel option \<times> 'x) option"
  spawn_net_disconnect_ib :: "'j spawn_net_channel option option \<Rightarrow> 'x \<Rightarrow> (int \<times> 'j spawn_net_channel option option \<times> 'x) option"
  spawn_net_read_ib :: "'j spawn_net_channel \<Rightarrow> nat \<Rightarrow> 'x \<Rightarrow> (int \<times> byte list \<times> 'x) option"
  spawn_net_write_ib :: "'j spawn_net_channel \<Rightarrow> byte list \<Rightarrow> 'x \<Rightarrow> (int \<times> 'x) option"
  spawn_net_wait_ib :: "'i spawn_net_endpoint option list \<Rightarrow> 'j spawn_net_channel option list \<Rightarrow> int \<Rightarrow> 'x \<Rightarrow> (int \<times> int \<times> 'x) option"

record ('w, 'ip, 'x, 'i, 'j) net_os =
  os_tcp :: "('w, 'ip) tcp_os"
  os_junk :: 'ip
  os_fifo :: fifo_os
  os_ib :: "('x, 'i, 'j) ib_ops option"

definition ep_map :: "('a \<Rightarrow> 'b) \<Rightarrow> 'a spawn_net_endpoint \<Rightarrow> 'b spawn_net_endpoint" where
  "ep_map f ep = \<lparr>ep_type = ep_type ep, ep_name = ep_name ep, ep_data = map_option f (ep_data ep)\<rparr>"

definition ch_map :: "('a \<Rightarrow> 'b) \<Rightarrow> 'a spawn_net_channel \<Rightarrow> 'b spawn_net_channel" where
  "ch_map f ch = \<lparr>ch_type = ch_type ch, ch_name = ch_name ch, ch_data = map_option f (ch_data ch)\<rparr>"

text \<open>The cast of \<open>data\<close> to the structure of a transport.\<close>

definition ep_cast :: "('a \<Rightarrow> 'b option) \<Rightarrow> 'a spawn_net_endpoint \<Rightarrow> 'b spawn_net_endpoint option" where
  "ep_cast f ep = (case ep_data ep of
      None \<Rightarrow> Some \<lparr>ep_type = ep_type ep, ep_name = ep_name ep, ep_data = NULL\<rparr>
    | Some d \<Rightarrow> map_option (\<lambda>x. \<lparr>ep_type = ep_type ep, ep_name = ep_name ep, ep_data = Some x\<rparr>) (f d))"

definition ch_cast :: "('a \<Rightarrow> 'b option) \<Rightarrow> 'a spawn_net_channel \<Rightarrow> 'b spawn_net_channel option" where
  "ch_cast f ch = (case ch_data ch of
      None \<Rightarrow> Some \<lparr>ch_type = ch_type ch, ch_name = ch_name ch, ch_data = NULL\<rparr>
    | Some d \<Rightarrow> map_option (\<lambda>x. \<lparr>ch_type = ch_type ch, ch_name = ch_name ch, ch_data = Some x\<rparr>) (f d))"

fun as_ep_tcp :: "'i any_ep \<Rightarrow> int option" where
  "as_ep_tcp (Ep_tcp fd) = Some fd" | "as_ep_tcp _ = None"
fun as_ep_fifo :: "'i any_ep \<Rightarrow> int option" where
  "as_ep_fifo (Ep_fifo fd) = Some fd" | "as_ep_fifo _ = None"
fun as_ep_ib :: "'i any_ep \<Rightarrow> 'i option" where
  "as_ep_ib (Ep_ib x) = Some x" | "as_ep_ib _ = None"
fun as_ch_tcp :: "'j any_ch \<Rightarrow> int option" where
  "as_ch_tcp (Ch_tcp fd) = Some fd" | "as_ch_tcp _ = None"
fun as_ch_fifo :: "'j any_ch \<Rightarrow> spawn_chdata option" where
  "as_ch_fifo (Ch_fifo d) = Some d" | "as_ch_fifo _ = None"
fun as_ch_ib :: "'j any_ch \<Rightarrow> 'j option" where
  "as_ch_ib (Ch_ib x) = Some x" | "as_ch_ib _ = None"

text \<open>The chain of tests that every function has.\<close>

definition select_type ::
  "('w, 'ip, 'x, 'i, 'j) net_os \<Rightarrow> spawn_net_type \<Rightarrow> 'r \<Rightarrow> 'r \<Rightarrow> (('x, 'i, 'j) ib_ops \<Rightarrow> 'r) \<Rightarrow> 'r \<Rightarrow> 'r" where
  "select_type os type tcp fif ib unknown =
     (if type = SPAWN_NET_TYPE_TCP then tcp
      else if type = SPAWN_NET_TYPE_FIFO then fif
      else (case os_ib os of
         Some ops \<Rightarrow> if type = SPAWN_NET_TYPE_IBUD then ib ops else unknown
       | None \<Rightarrow> unknown))"

section \<open>Endpoints\<close>

definition spawn_net_open ::
  "('w, 'ip, 'x, 'i, 'j) net_os \<Rightarrow> spawn_net_type \<Rightarrow> ('w, 'x) net_world \<Rightarrow> 'i endpoint option \<times> ('w, 'x) net_world" where
  "spawn_net_open os type w = select_type os type
     (case spawn_net_open_tcp (os_tcp os) (w_tcp w) of (ep, v) \<Rightarrow> (map_option (ep_map Ep_tcp) ep, w\<lparr>w_tcp := v\<rparr>))
     (case spawn_net_open_fifo (os_fifo os) (w_fifo w) of (ep, v) \<Rightarrow> (map_option (ep_map Ep_fifo) ep, w\<lparr>w_fifo := v\<rparr>))
     (\<lambda>ib. case spawn_net_open_ib ib (w_ib w) of (ep, v) \<Rightarrow> (map_option (ep_map Ep_ib) ep, w\<lparr>w_ib := v\<rparr>))
     (NULL, w)"

definition spawn_net_close ::
  "('w, 'ip, 'x, 'i, 'j) net_os \<Rightarrow> 'i endpoint option option \<Rightarrow> ('w, 'x) net_world
     \<Rightarrow> (int \<times> 'i endpoint option option \<times> ('w, 'x) net_world) option" where
  "spawn_net_close os pep w =
     (case pep of
        None \<Rightarrow> Some (SPAWN_FAILURE, None, w)
      | Some None \<Rightarrow> Some (SPAWN_SUCCESS, pep, w)
      | Some (Some ep) \<Rightarrow> select_type os (ep_type ep)
          (do { e \<leftarrow> ep_cast as_ep_tcp ep;
                (rc, pe, v) \<leftarrow> spawn_net_close_tcp (os_tcp os) (Some (Some e)) (w_tcp w);
                Some (rc, map_option (map_option (ep_map Ep_tcp)) pe, w\<lparr>w_tcp := v\<rparr>) })
          (do { e \<leftarrow> ep_cast as_ep_fifo ep;
                (rc, pe, v) \<leftarrow> spawn_net_close_fifo (Some (Some e)) (w_fifo w);
                Some (rc, map_option (map_option (ep_map Ep_fifo)) pe, w\<lparr>w_fifo := v\<rparr>) })
          (\<lambda>ib. do { e \<leftarrow> ep_cast as_ep_ib ep;
                (rc, pe, v) \<leftarrow> spawn_net_close_ib ib (Some (Some e)) (w_ib w);
                Some (rc, map_option (map_option (ep_map Ep_ib)) pe, w\<lparr>w_ib := v\<rparr>) })
          (Some (SPAWN_FAILURE, pep, w)))"

definition spawn_net_name :: "'i endpoint option \<Rightarrow> string option" where
  "spawn_net_name ep = (case ep of None \<Rightarrow> NULL | Some e \<Rightarrow> ep_name e)"

definition spawn_net_get_type :: "'i endpoint option \<Rightarrow> spawn_net_type" where
  "spawn_net_get_type ep = (case ep of None \<Rightarrow> SPAWN_NET_TYPE_NULL | Some e \<Rightarrow> ep_type e)"

definition spawn_net_infer_type :: "string option \<Rightarrow> spawn_net_type" where
  "spawn_net_infer_type name =
     (case name of
        None \<Rightarrow> SPAWN_NET_TYPE_NULL
      | Some n \<Rightarrow>
          if has_prefix ''TCP:'' n then SPAWN_NET_TYPE_TCP
          else if has_prefix ''FIFO:'' n then SPAWN_NET_TYPE_FIFO
          else if has_prefix ''IBUD:'' n then SPAWN_NET_TYPE_IBUD
          else SPAWN_NET_TYPE_NULL)"

section \<open>Channels\<close>

text \<open>The chain reaches a transport only for a name that is not null, so that the default name is not used.\<close>

definition spawn_net_connect ::
  "('w, 'ip, 'x, 'i, 'j) net_os \<Rightarrow> string option \<Rightarrow> ('w, 'x) net_world \<Rightarrow> ('j channel option \<times> ('w, 'x) net_world) option" where
  "spawn_net_connect os name w =
     (let type = spawn_net_infer_type name; n = show_str name in select_type os type
        (do { (ch, v) \<leftarrow> spawn_net_connect_tcp (os_tcp os) (os_junk os) n (w_tcp w);
              Some (map_option (ch_map Ch_tcp) ch, w\<lparr>w_tcp := v\<rparr>) })
        (do { (ch, v) \<leftarrow> spawn_net_connect_fifo (os_fifo os) n (w_fifo w);
              Some (map_option (ch_map Ch_fifo) ch, w\<lparr>w_fifo := v\<rparr>) })
        (\<lambda>ib. do { (ch, v) \<leftarrow> spawn_net_connect_ib ib n (w_ib w);
              Some (map_option (ch_map Ch_ib) ch, w\<lparr>w_ib := v\<rparr>) })
        (Some (NULL, w)))"

definition spawn_net_accept ::
  "('w, 'ip, 'x, 'i, 'j) net_os \<Rightarrow> 'i endpoint option \<Rightarrow> ('w, 'x) net_world \<Rightarrow> ('j channel option \<times> ('w, 'x) net_world) option" where
  "spawn_net_accept os ep w =
     (case ep of
        None \<Rightarrow> Some (NULL, w)
      | Some e \<Rightarrow> select_type os (ep_type e)
          (do { e \<leftarrow> ep_cast as_ep_tcp e;
                (ch, v) \<leftarrow> spawn_net_accept_tcp (os_tcp os) e (w_tcp w);
                Some (map_option (ch_map Ch_tcp) ch, w\<lparr>w_tcp := v\<rparr>) })
          (do { e \<leftarrow> ep_cast as_ep_fifo e;
                (ch, v) \<leftarrow> spawn_net_accept_fifo (os_fifo os) e (w_fifo w);
                Some (map_option (ch_map Ch_fifo) ch, w\<lparr>w_fifo := v\<rparr>) })
          (\<lambda>ib. do { e \<leftarrow> ep_cast as_ep_ib e;
                (ch, v) \<leftarrow> spawn_net_accept_ib ib e (w_ib w);
                Some (map_option (ch_map Ch_ib) ch, w\<lparr>w_ib := v\<rparr>) })
          (Some (NULL, w)))"

definition spawn_net_disconnect ::
  "('w, 'ip, 'x, 'i, 'j) net_os \<Rightarrow> 'j channel option option \<Rightarrow> ('w, 'x) net_world
     \<Rightarrow> (int \<times> 'j channel option option \<times> ('w, 'x) net_world) option" where
  "spawn_net_disconnect os pch w =
     (case pch of
        None \<Rightarrow> Some (SPAWN_FAILURE, None, w)
      | Some None \<Rightarrow> Some (SPAWN_SUCCESS, pch, w)
      | Some (Some ch) \<Rightarrow> select_type os (ch_type ch)
          (do { c \<leftarrow> ch_cast as_ch_tcp ch;
                (rc, pc, v) \<leftarrow> spawn_net_disconnect_tcp (os_tcp os) (Some (Some c)) (w_tcp w);
                Some (rc, map_option (map_option (ch_map Ch_tcp)) pc, w\<lparr>w_tcp := v\<rparr>) })
          (do { c \<leftarrow> ch_cast as_ch_fifo ch;
                (rc, pc, v) \<leftarrow> spawn_net_disconnect_fifo (os_fifo os) (Some (Some c)) (w_fifo w);
                Some (rc, map_option (map_option (ch_map Ch_fifo)) pc, w\<lparr>w_fifo := v\<rparr>) })
          (\<lambda>ib. do { c \<leftarrow> ch_cast as_ch_ib ch;
                (rc, pc, v) \<leftarrow> spawn_net_disconnect_ib ib (Some (Some c)) (w_ib w);
                Some (rc, map_option (map_option (ch_map Ch_ib)) pc, w\<lparr>w_ib := v\<rparr>) })
          (Some (SPAWN_FAILURE, pch, w)))"

text \<open>A read gives the bytes stored in the buffer: none for the null channel.\<close>

definition spawn_net_read ::
  "('w, 'ip, 'x, 'i, 'j) net_os \<Rightarrow> 'j channel option \<Rightarrow> nat \<Rightarrow> ('w, 'x) net_world \<Rightarrow> (int \<times> byte list \<times> ('w, 'x) net_world) option" where
  "spawn_net_read os ch sz w =
     (case ch of
        None \<Rightarrow> Some (SPAWN_SUCCESS, [], w)
      | Some c \<Rightarrow> select_type os (ch_type c)
          (do { c \<leftarrow> ch_cast as_ch_tcp c;
                (rc, bs, v) \<leftarrow> spawn_net_read_tcp (os_tcp os) c sz (w_tcp w);
                Some (rc, bs, w\<lparr>w_tcp := v\<rparr>) })
          (do { c \<leftarrow> ch_cast as_ch_fifo c;
                (rc, bs, v) \<leftarrow> spawn_net_read_fifo c sz (w_fifo w);
                Some (rc, bs, w\<lparr>w_fifo := v\<rparr>) })
          (\<lambda>ib. do { c \<leftarrow> ch_cast as_ch_ib c;
                (rc, bs, v) \<leftarrow> spawn_net_read_ib ib c sz (w_ib w);
                Some (rc, bs, w\<lparr>w_ib := v\<rparr>) })
          (Some (SPAWN_FAILURE, [], w)))"

definition spawn_net_write ::
  "('w, 'ip, 'x, 'i, 'j) net_os \<Rightarrow> 'j channel option \<Rightarrow> byte list \<Rightarrow> ('w, 'x) net_world \<Rightarrow> (int \<times> ('w, 'x) net_world) option" where
  "spawn_net_write os ch buf w =
     (case ch of
        None \<Rightarrow> Some (SPAWN_SUCCESS, w)
      | Some c \<Rightarrow> select_type os (ch_type c)
          (do { c \<leftarrow> ch_cast as_ch_tcp c;
                (rc, v) \<leftarrow> spawn_net_write_tcp (os_tcp os) c buf (w_tcp w);
                Some (rc, w\<lparr>w_tcp := v\<rparr>) })
          (do { c \<leftarrow> ch_cast as_ch_fifo c;
                (rc, v) \<leftarrow> spawn_net_write_fifo (os_fifo os) c buf (w_fifo w);
                Some (rc, w\<lparr>w_fifo := v\<rparr>) })
          (\<lambda>ib. do { c \<leftarrow> ch_cast as_ch_ib c;
                (rc, v) \<leftarrow> spawn_net_write_ib ib c buf (w_ib w);
                Some (rc, w\<lparr>w_ib := v\<rparr>) })
          (Some (SPAWN_FAILURE, w)))"

section \<open>Waiting\<close>

text \<open>
  The loops that compare the types of the entries that are not null: \<open>None\<close> when two types differ,
  otherwise the variable \<open>type\<close> after the loop, which is \<open>None\<close> as long as it has no value.
\<close>

fun check_types :: "spawn_net_type option list \<Rightarrow> spawn_net_type option \<Rightarrow> spawn_net_type option option" where
  "check_types [] type = Some type"
| "check_types (None # es) type = check_types es type"
| "check_types (Some t # es) type =
     (let type = (case type of None \<Rightarrow> t | Some u \<Rightarrow> u) in
      if t \<noteq> type then None else check_types es (Some type))"

text \<open>The entries of an array argument; reading through a null pointer is undefined.\<close>

definition entries :: "nat \<Rightarrow> 'a list option \<Rightarrow> 'a list option" where
  "entries n a = (if n = 0 then Some [] else case a of None \<Rightarrow> None | Some xs \<Rightarrow> if length xs = n then Some xs else None)"

text \<open>The descriptor that an entry has for \<open>spawn_net_wait_tcp\<close>.\<close>

definition ep_fd :: "'i endpoint option \<Rightarrow> int option option" where
  "ep_fd ep = (case ep of None \<Rightarrow> Some None | Some e \<Rightarrow> map_option Some (Option.bind (ep_data e) as_ep_tcp))"

definition ch_fd :: "'j channel option \<Rightarrow> int option option" where
  "ch_fd ch = (case ch of None \<Rightarrow> Some None | Some c \<Rightarrow> map_option Some (Option.bind (ch_data c) as_ch_tcp))"

definition cast_entry :: "('a \<Rightarrow> 'b option) \<Rightarrow> 'a option \<Rightarrow> 'b option option" where
  "cast_entry f x = (case x of None \<Rightarrow> Some None | Some a \<Rightarrow> map_option Some (f a))"

text \<open>
  \<open>index\<close> is a pointer to the caller's variable. The numbers of entries are natural numbers here and \<open>int\<close> in the source; they are
  lengths of arrays, and negative ones are outside the model.
\<close>

definition spawn_net_wait ::
  "('w, 'ip, 'x, 'i, 'j) net_os \<Rightarrow> nat \<Rightarrow> 'i endpoint option list option \<Rightarrow> nat \<Rightarrow> 'j channel option list option \<Rightarrow> int option
     \<Rightarrow> ('w, 'x) net_world \<Rightarrow> (int \<times> int option \<times> ('w, 'x) net_world) option" where
  "spawn_net_wait os neps eps nchs chs index w =
     (case index of
        None \<Rightarrow> Some (SPAWN_FAILURE, None, w)
      | Some i \<Rightarrow>
          if neps = 0 \<and> nchs = 0 then Some (SPAWN_SUCCESS, Some (-1), w)
          else if eps = NULL \<and> chs = NULL then Some (SPAWN_FAILURE, index, w)
          else do {
            es \<leftarrow> entries neps eps;
            (case check_types (map (map_option ep_type) es) None of
               None \<Rightarrow> Some (SPAWN_FAILURE, index, w)
             | Some type \<Rightarrow> do {
                 cs \<leftarrow> entries nchs chs;
                 (case check_types (map (map_option ch_type) cs) type of
                    None \<Rightarrow> Some (SPAWN_FAILURE, index, w)
                  | Some None \<Rightarrow> None
                  | Some (Some type) \<Rightarrow>
                      if type = SPAWN_NET_TYPE_TCP then do {
                        efds \<leftarrow> those (map ep_fd es);
                        cfds \<leftarrow> those (map ch_fd cs);
                        (rc, i', v) \<leftarrow> spawn_net_wait_tcp (os_tcp os) (map_option (\<lambda>_. efds) eps) (map_option (\<lambda>_. cfds) chs) i (w_tcp w);
                        Some (rc, Some i', w\<lparr>w_tcp := v\<rparr>)
                      }
                      else (case os_ib os of
                         Some ib \<Rightarrow>
                           if type = SPAWN_NET_TYPE_IBUD then do {
                             es \<leftarrow> those (map (cast_entry (ep_cast as_ep_ib)) es);
                             cs \<leftarrow> those (map (cast_entry (ch_cast as_ch_ib)) cs);
                             (rc, i', v) \<leftarrow> spawn_net_wait_ib ib es cs i (w_ib w);
                             Some (rc, Some i', w\<lparr>w_ib := v\<rparr>)
                           }
                           else Some (SPAWN_FAILURE, index, w)
                       | None \<Rightarrow> Some (SPAWN_FAILURE, index, w)))
               })
          })"

end
