(* ===== verification/Tcp_Spec.thy ===== *)
theory Tcp_Spec
  imports Tcp
begin

text \<open>
  What the TCP transport guarantees: names can be taken apart again, the read and write loops move
  exactly the bytes asked for whatever the kernel returns per call, the two ends of a new
  connection agree on the host name they exchange, no descriptor is lost on an error path, and
  \<open>spawn_net_wait_tcp\<close> reports a ready entry.
\<close>

section \<open>A sample kernel\<close>

text \<open>Open descriptors, the next free one, the bytes to read and the bytes written; addresses are strings.\<close>

record sim =
  sim_fds :: "int set"
  sim_next :: int
  sim_in :: "byte list"
  sim_out :: "byte list"

definition new_fd :: "sim \<Rightarrow> int \<times> sim" where
  "new_fd w = (sim_next w, w\<lparr>sim_fds := insert (sim_next w) (sim_fds w), sim_next := sim_next w + 1\<rparr>)"

definition sim_os :: "(sim, string) tcp_os" where
  "sim_os = \<lparr>sys_socket = new_fd, sys_setsockopt = (\<lambda>fd w. (0, w)), sys_bind = (\<lambda>fd w. (0, w)),
     sys_listen = (\<lambda>fd b w. (0, w)), sys_gethostname = (\<lambda>w. Some ''node1''),
     sys_gethostbyname = (\<lambda>h w. Some ''10.0.0.1''), sys_getsockname = (\<lambda>fd w. Some (''10.0.0.1'', 4711)),
     sys_getpeername = (\<lambda>fd w. Some (''10.0.0.2'', 4712)), sys_connect = (\<lambda>fd ip port w. (0, w)),
     sys_accept = (\<lambda>fd. new_fd),
     sys_read = (\<lambda>fd n w. (RGot (take (min n 3) (sim_in w)), w\<lparr>sim_in := drop (min n 3) (sim_in w)\<rparr>)),
     sys_write = (\<lambda>fd bs w. (Wrote (min 3 (length bs)), w\<lparr>sim_out := sim_out w @ take (min 3 (length bs)) bs\<rparr>)),
     sys_close = (\<lambda>fd w. w\<lparr>sim_fds := sim_fds w - {fd}\<rparr>),
     sys_select = (\<lambda>n fds w. (int (length fds), fds, w)), sys_getenv = (\<lambda>_. None),
     inet_ntoa = id, inet_aton = Some\<rparr>"

definition sim_start :: sim where
  "sim_start = \<lparr>sim_fds = {}, sim_next = 3, sim_in = [], sim_out = []\<rparr>"

section \<open>Names\<close>

lemma parse_name:
  assumes "CHR '':'' \<notin> set ip"
  shows "parse_tcp_name (tcp_name host ip port) = Some (host, ip, dec (unat port))
    \<and> (word_of_int (atoi (dec (unat port))) :: 16 word) = port \<and> has_prefix ''TCP:'' (tcp_name host ip port)"
proof -
  have "CHR '':'' \<notin> set (dec (length host))" using set_dec by blast
  then have 1: "scan_colon (drop 4 (tcp_name host ip port))
      = Some (dec (length host), host @ '':'' @ ip @ '':'' @ dec (unat port))"
    using scan_colon_append [of "dec (length host)"] by (simp add: tcp_name_def)
  have 2: "scan_colon (ip @ '':'' @ dec (unat port)) = Some (ip, dec (unat port))"
    using scan_colon_append [OF assms] by simp
  show ?thesis using 1 2 by (simp add: parse_tcp_name_def tcp_name_def has_prefix_def)
qed

text \<open>
  C32. Round trip of endpoint names: \<open>spawn_net_connect_tcp\<close> recovers the host name, the address
  and the port from the name that \<open>spawn_net_open_tcp\<close> has built, also when the host name itself
  contains colons.
\<close>

theorem tcp_name_parse:
  assumes "CHR '':'' \<notin> set ip"
  shows "parse_tcp_name (tcp_name host ip port) = Some (host, ip, dec (unat port))
    \<and> (word_of_int (atoi (dec (unat port))) :: 16 word) = port \<and> has_prefix ''TCP:'' (tcp_name host ip port)"
  by (rule parse_name [OF assms])

theorem tcp_name_parse_witness:
  "parse_tcp_name (tcp_name ''a:b'' ''10.0.0.1'' 4711) = Some (''a:b'', ''10.0.0.1'', dec (unat (4711 :: 16 word)))
    \<and> (word_of_int (atoi (dec (unat (4711 :: 16 word)))) :: 16 word) = 4711
    \<and> has_prefix ''TCP:'' (tcp_name ''a:b'' ''10.0.0.1'' 4711)"
  by (rule tcp_name_parse) simp

section \<open>The loops\<close>

lemma reliable_read_tcp_reads:
  assumes "readable rd inp rest"
  shows "sz \<le> length buf + length (inp w) \<Longrightarrow> length buf \<le> sz \<Longrightarrow>
    \<exists>w'. reliable_read_tcp rd sz buf w = (SPAWN_SUCCESS, buf @ take (sz - length buf) (inp w), w')
      \<and> inp w' = drop (sz - length buf) (inp w) \<and> rest w' = rest w"
proof (induction "sz - length buf" arbitrary: buf w rule: less_induct)
  case less
  show ?case
  proof (cases "length buf < sz")
    case True
    then have "inp w \<noteq> []" using less.prems by auto
    with assms True obtain bs w1 where r: "rd (sz - length buf) w = (RGot bs, w1)" "bs \<noteq> []" "length bs \<le> sz - length buf"
        "inp w = bs @ inp w1" "rest w1 = rest w"
      by (meson readableE zero_less_diff)
    have lt: "sz - length (buf @ bs) < sz - length buf" using True r(2) by (auto intro!: diff_less_mono2)
    have "sz \<le> length (buf @ bs) + length (inp w1)" "length (buf @ bs) \<le> sz"
      using less.prems r(3,4) True by auto
    then obtain w' where "reliable_read_tcp rd sz (buf @ bs) w1
          = (SPAWN_SUCCESS, (buf @ bs) @ take (sz - length (buf @ bs)) (inp w1), w')"
        "inp w' = drop (sz - length (buf @ bs)) (inp w1)" "rest w' = rest w1"
      using less.hyps [OF lt] by blast
    then show ?thesis
      using True r by (subst reliable_read_tcp.simps) (simp add: Let_def)
  next
    case False
    then show ?thesis using less.prems by (subst reliable_read_tcp.simps) simp
  qed
qed

lemma reliable_write_tcp_writes:
  assumes "writable wr outp rest"
  shows "\<exists>w'. reliable_write_tcp wr bs w = (SPAWN_SUCCESS, w') \<and> outp w' = outp w @ bs \<and> rest w' = rest w"
proof (induction "length bs" arbitrary: bs w rule: less_induct)
  case less
  show ?case
  proof (cases "bs = []")
    case False
    then obtain k w1 where r: "wr bs w = (Wrote k, w1)" "0 < k" "k \<le> length bs" "outp w1 = outp w @ take k bs" "rest w1 = rest w"
      using writableE [OF assms False] by metis
    obtain w' where "reliable_write_tcp wr (drop k bs) w1 = (SPAWN_SUCCESS, w')" "outp w' = outp w1 @ drop k bs" "rest w' = rest w1"
      using less [of "drop k bs" w1] r(2) False by auto
    then show ?thesis using False r by (subst reliable_write_tcp.simps) simp
  next
    case True
    then show ?thesis by (subst reliable_write_tcp.simps) simp
  qed
qed

text \<open>
  C28. Reading ends and gives exactly the next \<open>sz\<close> bytes of the stream, however the kernel cuts
  it into parts; the rest of the stream is left for later reads.
\<close>

theorem tcp_read_exact:
  assumes "readable (sys_read os fd) inp rest" "ch_data ch = Some fd" "0 < fd" "sz \<le> length (inp w)"
  shows "\<exists>w'. spawn_net_read_tcp os ch sz w = Some (SPAWN_SUCCESS, take sz (inp w), w') \<and> inp w' = drop sz (inp w)"
  using reliable_read_tcp_reads [OF assms(1), of sz "[]" w] assms(2-4) by (auto simp: spawn_net_read_tcp_def)

abbreviation "sim_channel \<equiv> \<lparr>ch_type = SPAWN_NET_TYPE_TCP, ch_name = None, ch_data = Some 3\<rparr>"

lemma sim_stream: "readable (sys_read sim_os fd) sim_in sim_fds" "writable (sys_write sim_os fd) sim_out sim_fds"
  by (auto simp: readable_def writable_def sim_os_def)

theorem tcp_read_exact_witness:
  "\<exists>w'. spawn_net_read_tcp sim_os sim_channel 7 (sim_start\<lparr>sim_in := ''spawn net''\<rparr>) = Some (SPAWN_SUCCESS, ''spawn n'', w')
     \<and> sim_in w' = ''et''"
  using tcp_read_exact [OF sim_stream(1), of sim_channel 3 7 "sim_start\<lparr>sim_in := ''spawn net''\<rparr>"] by simp

text \<open>
  C29. When the other side has closed the connection before \<open>sz\<close> bytes have arrived, reading ends
  with \<open>SPAWN_FAILURE\<close> and never reports a short buffer as complete.
\<close>

theorem tcp_read_closed:
  assumes "readable (sys_read os fd) inp rest" "ch_data ch = Some fd" "0 < fd" "length (inp w) < sz"
    and "\<And>n w. 0 < n \<Longrightarrow> inp w = [] \<Longrightarrow> fst (sys_read os fd n w) = RGot []"
  shows "\<exists>w'. spawn_net_read_tcp os ch sz w = Some (SPAWN_FAILURE, inp w, w')"
proof -
  have "length buf + length (inp w) < sz \<Longrightarrow>
      \<exists>w'. reliable_read_tcp (sys_read os fd) sz buf w = (SPAWN_FAILURE, buf @ inp w, w')" for buf w
  proof (induction "sz - length buf" arbitrary: buf w rule: less_induct)
    case less
    then have lt: "length buf < sz" by simp
    show ?case
    proof (cases "inp w = []")
      case True
      then have "fst (sys_read os fd (sz - length buf) w) = RGot []" using assms(5) lt by simp
      then show ?thesis using lt True
        by (subst reliable_read_tcp.simps) (auto simp: Let_def split: prod.splits)
    next
      case False
      with assms(1) lt obtain bs w1 where r: "sys_read os fd (sz - length buf) w = (RGot bs, w1)" "bs \<noteq> []" "inp w = bs @ inp w1"
        by (meson readableE zero_less_diff)
      have "sz - length (buf @ bs) < sz - length buf" using lt r(2) by (auto intro!: diff_less_mono2)
      then obtain w' where "reliable_read_tcp (sys_read os fd) sz (buf @ bs) w1 = (SPAWN_FAILURE, (buf @ bs) @ inp w1, w')"
        using less.hyps [of "buf @ bs" w1] less.prems r(3) by auto
      then show ?thesis using lt r by (subst reliable_read_tcp.simps) (simp add: Let_def)
    qed
  qed
  from this [of "[]" w] show ?thesis using assms(2-4) by (auto simp: spawn_net_read_tcp_def)
qed

theorem tcp_read_closed_witness:
  "\<exists>w'. spawn_net_read_tcp sim_os sim_channel 100 (sim_start\<lparr>sim_in := ''spawn net''\<rparr>) = Some (SPAWN_FAILURE, ''spawn net'', w')"
  using tcp_read_closed [OF sim_stream(1), of sim_channel 3 "sim_start\<lparr>sim_in := ''spawn net''\<rparr>" 100] by (simp add: sim_os_def)

section \<open>Connecting\<close>

text \<open>What a connecting process sends first: its host name with a length.\<close>

definition hello :: "string \<Rightarrow> byte list" where
  "hello hostname = spawn_pack_uint64 (str_size hostname) @ mem_str hostname"

text \<open>
  C30. Connecting to the name of an endpoint: the kernel is asked to connect to the address and port
  in the name, and the channel that is returned has sent exactly the greeting.
\<close>

theorem tcp_connect_hello:
  assumes "writable (sys_write os fd) outp rest" "sys_socket os w = (fd, w1)" "0 \<le> fd"
    and "spawn_net_set_tcp_nodelay os fd w1 = (SPAWN_SUCCESS, w2)"
    and "inet_aton os (inet_ntoa os ip) = Some ip" "CHR '':'' \<notin> set (inet_ntoa os ip)"
    and "sys_connect os fd ip port w2 = (rc, w3)" "0 \<le> rc" "sys_gethostname os w3 = Some hostname"
  shows "\<exists>nm w'. spawn_net_connect_tcp os junk_ip (tcp_name host (inet_ntoa os ip) port) w
      = Some (Some \<lparr>ch_type = SPAWN_NET_TYPE_TCP, ch_name = Some nm, ch_data = Some fd\<rparr>, w')
    \<and> outp w' = outp w3 @ hello hostname"
proof -
  have name: "parse_tcp_name (tcp_name host (inet_ntoa os ip) port) = Some (host, inet_ntoa os ip, dec (unat port))"
    "(word_of_int (atoi (dec (unat port))) :: 16 word) = port" "has_prefix ''TCP:'' (tcp_name host (inet_ntoa os ip) port)"
    using parse_name [OF assms(6)] by auto
  obtain w4 where 4: "reliable_write_tcp (sys_write os fd) (spawn_pack_uint64 (str_size hostname)) w3 = (SPAWN_SUCCESS, w4)"
      "outp w4 = outp w3 @ spawn_pack_uint64 (str_size hostname)"
    using reliable_write_tcp_writes [OF assms(1)] by blast
  obtain w5 where 5: "reliable_write_tcp (sys_write os fd) (mem_str hostname) w4 = (SPAWN_SUCCESS, w5)"
      "outp w5 = outp w4 @ mem_str hostname"
    using reliable_write_tcp_writes [OF assms(1)] by blast
  show ?thesis
    using assms(2-9) name 4 5 by (simp add: spawn_net_connect_tcp_def hello_def SPAWN_SUCCESS_def)
qed

theorem tcp_connect_hello_witness:
  "\<exists>nm w'. spawn_net_connect_tcp sim_os [] (tcp_name ''node2'' ''10.0.0.2'' 4712) sim_start
      = Some (Some \<lparr>ch_type = SPAWN_NET_TYPE_TCP, ch_name = Some nm, ch_data = Some 3\<rparr>, w')
    \<and> sim_out w' = hello ''node1''"
  using tcp_connect_hello [OF sim_stream(2) [of 3], of sim_start "snd (new_fd sim_start)" "snd (new_fd sim_start)"
      "''10.0.0.2''" 4712 0 "snd (new_fd sim_start)" "''node1''" "[]" "''node2''"]
  by (simp add: sim_os_def new_fd_def sim_start_def spawn_net_set_tcp_nodelay_def SPAWN_SUCCESS_def)

text \<open>
  Accepting: the greeting of the other side is consumed, no byte more, and its host name appears
  in the name of the new channel.
\<close>

theorem tcp_accept_hello:
  assumes "readable (sys_read os fd) inp rest" "ep_data ep = Some listenfd" "sys_accept os listenfd w = (fd, w1)" "0 \<le> fd"
    and "spawn_net_set_tcp_nodelay os fd w1 = (SPAWN_SUCCESS, w2)"
    and "inp w2 = hello host @ later" "cstring host" "length host + 1 < 2 ^ 64"
  shows "\<exists>nm w'. spawn_net_accept_tcp os ep w
      = Some (Some \<lparr>ch_type = SPAWN_NET_TYPE_TCP, ch_name = Some nm, ch_data = Some fd\<rparr>, w')
    \<and> inp w' = later
    \<and> nm = arrow_name (spawn_net_get_local_sockname os fd w') (spawn_net_get_remote_sockname os fd host w')"
proof -
  have len: "unat (str_size host) = length host + 1"
    using assms(8) unfolding str_size_def by (rule unat_word_of_nat_u64)
  obtain w3 where 3: "reliable_read_tcp (sys_read os fd) 8 [] w2 = (SPAWN_SUCCESS, spawn_pack_uint64 (str_size host), w3)"
      "inp w3 = mem_str host @ later"
    using reliable_read_tcp_reads [OF assms(1), of 8 "[]" w2] assms(6) by (auto simp: hello_def)
  obtain w4 where 4: "reliable_read_tcp (sys_read os fd) (length host + 1) [] w3 = (SPAWN_SUCCESS, mem_str host, w4)"
      "inp w4 = later"
    using reliable_read_tcp_reads [OF assms(1), of "length host + 1" "[]" w3] 3(2) by auto
  have "load_str (mem_str host) = host" "NUL \<in> set (mem_str host)" using load_mem_str [OF assms(7), of "[]"] by (simp_all add: mem_str_def)
  then show ?thesis
    using assms(2-5) 3(1) 4 len by (simp add: spawn_net_accept_tcp_def SPAWN_SUCCESS_def)
qed

theorem tcp_accept_hello_witness:
  "\<exists>nm w'. spawn_net_accept_tcp sim_os \<lparr>ep_type = SPAWN_NET_TYPE_TCP, ep_name = None, ep_data = Some 3\<rparr>
        (sim_start\<lparr>sim_in := hello ''node2'' @ ''data''\<rparr>)
      = Some (Some \<lparr>ch_type = SPAWN_NET_TYPE_TCP, ch_name = Some nm, ch_data = Some 3\<rparr>, w')
    \<and> sim_in w' = ''data''
    \<and> nm = arrow_name (spawn_net_get_local_sockname sim_os 3 w') (spawn_net_get_remote_sockname sim_os 3 ''node2'' w')"
  by (rule tcp_accept_hello [OF sim_stream(1), where listenfd = 3
        and ?w1.0 = "snd (new_fd (sim_start\<lparr>sim_in := hello ''node2'' @ ''data''\<rparr>))"
        and ?w2.0 = "snd (new_fd (sim_start\<lparr>sim_in := hello ''node2'' @ ''data''\<rparr>))"])
    (simp_all add: sim_os_def new_fd_def sim_start_def spawn_net_set_tcp_nodelay_def SPAWN_SUCCESS_def)

section \<open>Descriptors\<close>

text \<open>\<open>fds\<close> are the open descriptors: new ones come from \<open>socket\<close> and \<open>accept\<close>, and \<open>close\<close> takes them away.\<close>

definition tracks_fds :: "('w, 'ip) tcp_os \<Rightarrow> ('w \<Rightarrow> int set) \<Rightarrow> bool" where
  "tracks_fds os fds \<longleftrightarrow>
     (\<forall>w. let (fd, w') = sys_socket os w in if fd < 0 then fds w' = fds w else fd \<notin> fds w \<and> fds w' = insert fd (fds w))
     \<and> (\<forall>l w. let (fd, w') = sys_accept os l w in if fd < 0 then fds w' = fds w else fd \<notin> fds w \<and> fds w' = insert fd (fds w))
     \<and> (\<forall>fd w. fds (sys_close os fd w) = fds w - {fd})
     \<and> (\<forall>fd w. fds (snd (sys_setsockopt os fd w)) = fds w) \<and> (\<forall>fd w. fds (snd (sys_bind os fd w)) = fds w)
     \<and> (\<forall>fd b w. fds (snd (sys_listen os fd b w)) = fds w) \<and> (\<forall>fd ip p w. fds (snd (sys_connect os fd ip p w)) = fds w)
     \<and> (\<forall>fd n w. fds (snd (sys_read os fd n w)) = fds w) \<and> (\<forall>fd bs w. fds (snd (sys_write os fd bs w)) = fds w)"

lemma reliable_read_tcp_frame:
  assumes "\<And>n w. fds (snd (rd n w)) = fds w"
  shows "fds (snd (snd (reliable_read_tcp rd sz buf w))) = fds w"
proof (induction "sz - length buf" arbitrary: buf w rule: less_induct)
  case less
  have step: "fds w1 = fds w" if "rd n w = (r, w1)" for n r w1 using assms [of n w] that by simp
  have "sz - length (buf @ bs) < sz - length buf" if "length buf < sz" "bs \<noteq> []" for bs :: "byte list"
    using that by (auto intro!: diff_less_mono2)
  then have "fds (snd (snd (reliable_read_tcp rd sz (buf @ bs) w1))) = fds w"
    if "length buf < sz" "bs \<noteq> []" "rd n w = (RGot bs, w1)" for n bs w1
    using less [of "buf @ bs" w1] that step by simp
  then show ?case
    by (subst reliable_read_tcp.simps) (auto simp: Let_def split: prod.splits rd_res.splits dest: step)
qed

lemma reliable_write_tcp_frame:
  assumes "\<And>bs w. fds (snd (wr bs w)) = fds w"
  shows "fds (snd (reliable_write_tcp wr bs w)) = fds w"
proof (induction "length bs" arbitrary: bs w rule: less_induct)
  case less
  have step: "fds w1 = fds w" if "wr bs w = (r, w1)" for r w1 using assms [of bs w] that by simp
  have "fds (snd (reliable_write_tcp wr (drop k bs) w1)) = fds w" if "bs \<noteq> []" "0 < k" "wr bs w = (Wrote k, w1)" for k w1
    using less [of "drop k bs" w1] that step by simp
  then show ?case
    by (subst reliable_write_tcp.simps) (auto split: prod.splits wr_res.splits dest: step)
qed

text \<open>What an operation that creates a descriptor may leave behind.\<close>

definition no_leak :: "('w \<Rightarrow> int set) \<Rightarrow> 'w \<Rightarrow> int option \<Rightarrow> 'w \<Rightarrow> bool" where
  "no_leak fds w r w' \<longleftrightarrow> (case r of None \<Rightarrow> fds w' = fds w | Some fd \<Rightarrow> 0 \<le> fd \<and> fd \<notin> fds w \<and> fds w' = insert fd (fds w))"

lemma tracks_close: "tracks_fds os fds \<Longrightarrow> fds (sys_close os fd w) = fds w - {fd}"
  by (simp add: tracks_fds_def)

lemma tracks_new:
  assumes "tracks_fds os fds" "sys_socket os w = (fd, w1) \<or> sys_accept os l w = (fd, w1)"
  shows "if fd < 0 then fds w1 = fds w else fd \<notin> fds w \<and> fds w1 = insert fd (fds w)"
proof -
  have "let (fd, w') = sys_socket os w in if fd < 0 then fds w' = fds w else fd \<notin> fds w \<and> fds w' = insert fd (fds w)"
    "let (fd, w') = sys_accept os l w in if fd < 0 then fds w' = fds w else fd \<notin> fds w \<and> fds w' = insert fd (fds w)"
    using assms(1) by (simp_all only: tracks_fds_def)
  then show ?thesis using assms(2) by auto
qed

lemma tracks_same:
  assumes "tracks_fds os fds"
  shows "sys_setsockopt os fd w = (r, w1) \<Longrightarrow> fds w1 = fds w" "sys_bind os fd w = (r, w1) \<Longrightarrow> fds w1 = fds w"
    "sys_listen os fd b w = (r, w1) \<Longrightarrow> fds w1 = fds w" "sys_connect os fd ip p w = (r, w1) \<Longrightarrow> fds w1 = fds w"
    "reliable_read_tcp (sys_read os fd) n buf w = (r, x, w1) \<Longrightarrow> fds w1 = fds w"
    "reliable_write_tcp (sys_write os fd) bs w = (r, w1) \<Longrightarrow> fds w1 = fds w"
  using assms reliable_read_tcp_frame [of fds "sys_read os fd" n buf w] reliable_write_tcp_frame [of fds "sys_write os fd" bs w]
  unfolding tracks_fds_def by (metis snd_conv)+

lemma nodelay_same:
  assumes "tracks_fds os fds" "spawn_net_set_tcp_nodelay os fd w = (r, w1)"
  shows "fds w1 = fds w"
  using assms(2) tracks_same(1) [OF assms(1)]
  by (auto simp: spawn_net_set_tcp_nodelay_def Let_def split: prod.splits if_splits option.splits)

lemmas leak_rules = tracks_close tracks_same nodelay_same

lemma open_no_leak:
  assumes T: "tracks_fds os fds"
  shows "no_leak fds w (Option.bind (fst (spawn_net_open_tcp os w)) ep_data) (snd (spawn_net_open_tcp os w))"
proof -
  obtain fd w1 where 1: "sys_socket os w = (fd, w1)" by fastforce
  obtain r2 w2 where 2: "spawn_net_set_tcp_nodelay os fd w1 = (r2, w2)" by fastforce
  obtain r3 w3 where 3: "sys_bind os fd w2 = (r3, w3)" by fastforce
  obtain r4 w4 where 4: "sys_listen os fd spawn_net_tcp_backlog w3 = (r4, w4)" by fastforce
  have new: "if fd < 0 then fds w1 = fds w else fd \<notin> fds w \<and> fds w1 = insert fd (fds w)"
    using tracks_new [OF T] 1 by blast
  have same: "fds w2 = fds w1" "fds w3 = fds w1" "fds w4 = fds w1"
    using nodelay_same [OF T 2] tracks_same(2) [OF T 3] tracks_same(3) [OF T 4] by auto
  show ?thesis
    using new same by (auto simp: spawn_net_open_tcp_def fail_close_def tracks_close [OF T] 1 2 3 4 no_leak_def
        split: option.splits)
qed

lemma connect_no_leak:
  assumes T: "tracks_fds os fds" and c: "spawn_net_connect_tcp os junk_ip name w = Some (r, w')"
  shows "no_leak fds w (Option.bind r ch_data) w'"
proof (cases "has_prefix ''TCP:'' name")
  case True
  then obtain host ips ports where p: "parse_tcp_name name = Some (host, ips, ports)"
    using c by (auto simp: spawn_net_connect_tcp_def split: Option.bind_splits)
  obtain ip where ip: "(case inet_aton os ips of None \<Rightarrow> junk_ip | Some ip \<Rightarrow> ip) = ip" by blast
  obtain fd w1 where 1: "sys_socket os w = (fd, w1)" by fastforce
  obtain r2 w2 where 2: "spawn_net_set_tcp_nodelay os fd w1 = (r2, w2)" by fastforce
  obtain r3 w3 where 3: "sys_connect os fd ip (word_of_int (atoi ports)) w2 = (r3, w3)" by fastforce
  let ?h = "the (sys_gethostname os w3)"
  obtain r4 w4 where 4: "reliable_write_tcp (sys_write os fd) (spawn_pack_uint64 (str_size ?h)) w3 = (r4, w4)" by fastforce
  obtain r5 w5 where 5: "reliable_write_tcp (sys_write os fd) (mem_str ?h) w4 = (r5, w5)" by fastforce
  have new: "if fd < 0 then fds w1 = fds w else fd \<notin> fds w \<and> fds w1 = insert fd (fds w)"
    using tracks_new [OF T] 1 by blast
  have same: "fds w2 = fds w1" "fds w3 = fds w1" "fds w4 = fds w1" "fds w5 = fds w1"
    using nodelay_same [OF T 2] tracks_same(4) [OF T 3] tracks_same(6) [OF T 4] tracks_same(6) [OF T 5] by auto
  show ?thesis
    using new same c True 4 5
    by (cases "sys_gethostname os w3")
      (auto simp: spawn_net_connect_tcp_def fail_close_def tracks_close [OF T] p ip 1 2 3 no_leak_def Let_def split: if_splits)
qed (use c in \<open>auto simp: spawn_net_connect_tcp_def no_leak_def\<close>)

lemma accept_no_leak:
  assumes T: "tracks_fds os fds" and c: "spawn_net_accept_tcp os ep w = Some (r, w')"
  shows "no_leak fds w (Option.bind r ch_data) w'"
proof -
  obtain l where l: "ep_data ep = Some l" using c by (auto simp: spawn_net_accept_tcp_def split: option.splits)
  obtain fd w1 where 1: "sys_accept os l w = (fd, w1)" by fastforce
  obtain r2 w2 where 2: "spawn_net_set_tcp_nodelay os fd w1 = (r2, w2)" by fastforce
  obtain r3 b3 w3 where 3: "reliable_read_tcp (sys_read os fd) 8 [] w2 = (r3, b3, w3)" by (metis prod_cases3)
  obtain r4 b4 w4 where 4: "reliable_read_tcp (sys_read os fd) (unat (fst (spawn_unpack_uint64 b3))) [] w3 = (r4, b4, w4)"
    by (metis prod_cases3)
  have new: "if fd < 0 then fds w1 = fds w else fd \<notin> fds w \<and> fds w1 = insert fd (fds w)"
    using tracks_new [OF T] 1 by blast
  have same: "fds w2 = fds w1" "fds w3 = fds w1" "fds w4 = fds w1"
    using nodelay_same [OF T 2] tracks_same(5) [OF T 3] tracks_same(5) [OF T 4] by auto
  show ?thesis
    using new same c
    by (auto simp: spawn_net_accept_tcp_def fail_close_def tracks_close [OF T] l 1 2 3 4 no_leak_def Let_def
        split: if_splits)
qed

text \<open>
  C31. No descriptor is lost. Opening an endpoint, connecting and accepting either return a new
  descriptor in their result, or return null and have closed every descriptor they created, on
  all of their error paths.
\<close>

theorem tcp_no_leak:
  assumes "tracks_fds os fds"
  shows "no_leak fds w (Option.bind (fst (spawn_net_open_tcp os w)) ep_data) (snd (spawn_net_open_tcp os w))
    \<and> (\<forall>r w'. spawn_net_connect_tcp os junk_ip name w = Some (r, w') \<longrightarrow> no_leak fds w (Option.bind r ch_data) w')
    \<and> (\<forall>r w'. spawn_net_accept_tcp os ep w = Some (r, w') \<longrightarrow> no_leak fds w (Option.bind r ch_data) w')"
  using open_no_leak [OF assms] connect_no_leak [OF assms] accept_no_leak [OF assms] by blast

text \<open>A kernel whose descriptor numbers grow; the state carries that the next one is free.\<close>

definition set_os :: "(int set, string) tcp_os" where
  "set_os = \<lparr>sys_socket = (\<lambda>w. if 3 \<in> w then (-1, w) else (3, insert 3 w)), sys_setsockopt = (\<lambda>fd w. (0, w)),
     sys_bind = (\<lambda>fd w. (-1, w)), sys_listen = (\<lambda>fd b w. (0, w)), sys_gethostname = (\<lambda>w. Some ''node1''),
     sys_gethostbyname = (\<lambda>h w. None), sys_getsockname = (\<lambda>fd w. None), sys_getpeername = (\<lambda>fd w. None),
     sys_connect = (\<lambda>fd ip port w. (-1, w)), sys_accept = (\<lambda>l w. if 4 \<in> w then (-1, w) else (4, insert 4 w)),
     sys_read = (\<lambda>fd n w. (RErr EIO, w)), sys_write = (\<lambda>fd bs w. (WErr EIO, w)),
     sys_close = (\<lambda>fd w. w - {fd}), sys_select = (\<lambda>n fds w. (-1, [], w)), sys_getenv = (\<lambda>_. None),
     inet_ntoa = id, inet_aton = Some\<rparr>"

theorem tcp_no_leak_witness:
  "tracks_fds set_os id \<and> no_leak id {} (Option.bind (fst (spawn_net_open_tcp set_os {})) ep_data) (snd (spawn_net_open_tcp set_os {}))"
proof -
  have "tracks_fds set_os id" by (auto simp: tracks_fds_def set_os_def)
  then show ?thesis using tcp_no_leak [of set_os id "{}"] by blast
qed

section \<open>Waiting\<close>

definition valid_fd :: "int \<Rightarrow> bool" where
  "valid_fd fd \<longleftrightarrow> 0 \<le> fd \<and> fd < FD_SETSIZE"

lemma collect_fds_spec:
  "\<forall>fd. Some fd \<in> set es \<longrightarrow> valid_fd fd \<Longrightarrow> (0 < cnt \<longrightarrow> (\<forall>fd\<in>set fds. fd \<le> hi)) \<Longrightarrow> (cnt = 0 \<longrightarrow> fds = []) \<Longrightarrow>
     \<exists>fds' cnt' hi'. collect_fds es (fds, cnt, hi) = Some (fds', cnt', hi')
     \<and> set fds' = set fds \<union> {fd. Some fd \<in> set es} \<and> (cnt' = 0 \<longleftrightarrow> cnt = 0 \<and> (\<forall>e\<in>set es. e = None))
     \<and> (0 < cnt' \<longrightarrow> (\<forall>fd\<in>set fds'. fd \<le> hi')) \<and> (cnt' = 0 \<longrightarrow> fds' = [])"
proof (induction es "(fds, cnt, hi)" arbitrary: fds cnt hi rule: collect_fds.induct)
  case (2 es fds cnt hi)
  have "\<forall>fd. Some fd \<in> set es \<longrightarrow> valid_fd fd" using "2.prems"(1) by simp
  from "2.hyps" [OF this "2.prems"(2,3)] show ?case by auto
next
  case (3 fd es fds cnt hi)
  let ?hi = "if cnt = 0 \<or> fd > hi then fd else hi"
  have v: "0 \<le> fd \<and> fd < FD_SETSIZE" "\<forall>fd. Some fd \<in> set es \<longrightarrow> valid_fd fd" using "3.prems"(1) by (auto simp: valid_fd_def)
  have "0 < Suc cnt \<longrightarrow> (\<forall>f\<in>set (fd # fds). f \<le> ?hi)" using "3.prems"(2,3) by auto
  from "3.hyps" [OF v this] v(1) show ?case by auto
qed auto

lemma first_ready_Some:
  "first_ready es ready k = Some i \<Longrightarrow> k \<le> i \<and> i - k < length es \<and> (\<exists>fd\<in>set ready. es ! (i - k) = Some fd)"
proof (induction es ready k rule: first_ready.induct)
  case (2 es ready k)
  then have "i - k = Suc (i - Suc k)" by auto
  then show ?case using 2 by auto
next
  case (3 fd es ready k)
  show ?case
  proof (cases "fd \<in> set ready")
    case False
    then have "i - k = Suc (i - Suc k)" using 3 by auto
    then show ?thesis using 3 False by auto
  qed (use "3.prems" in auto)
qed simp

lemma first_ready_None:
  "first_ready es ready k = None \<longleftrightarrow> (\<forall>fd\<in>set ready. Some fd \<notin> set es)"
  by (induction es ready k rule: first_ready.induct) auto

text \<open>
  \<open>select\<close> on descriptors that a set can hold, with a bound above all of them and without a timeout, either fails with -1 or
  returns when some of them are ready, and leaves those in the set.
\<close>

definition selects :: "('w, 'ip) tcp_os \<Rightarrow> bool" where
  "selects os \<longleftrightarrow> (\<forall>n fds w rc ready w'. fds \<noteq> [] \<longrightarrow> (\<forall>fd\<in>set fds. valid_fd fd \<and> fd < n) \<longrightarrow>
     sys_select os n fds w = (rc, ready, w') \<longrightarrow> rc = -1 \<or> (0 < rc \<and> ready \<noteq> [] \<and> set ready \<subseteq> set fds))"

lemma wait_index:
  assumes "ready \<noteq> []" "set ready \<subseteq> {fd. Some fd \<in> set eps \<union> set chs}"
  shows "\<exists>i. (case first_ready chs ready 0 of None \<Rightarrow> (case first_ready eps ready 0 of None \<Rightarrow> index | Some i \<Rightarrow> int i)
        | Some i \<Rightarrow> int i + int (length eps)) = int i
    \<and> i < length eps + length chs \<and> (\<exists>fd\<in>set ready. (eps @ chs) ! i = Some fd)
    \<and> ((\<exists>fd\<in>set ready. Some fd \<in> set chs) \<longrightarrow> length eps \<le> i)"
proof (cases "first_ready chs ready 0")
  case (Some i)
  then show ?thesis using first_ready_Some [OF Some] by (intro exI [of _ "i + length eps"]) (simp add: nth_append)
next
  case None
  then have "first_ready eps ready 0 \<noteq> None" using assms by (cases ready) (auto simp: first_ready_None)
  then obtain i where e: "first_ready eps ready 0 = Some i" by blast
  then show ?thesis
    using first_ready_Some [OF e] None first_ready_None [of chs ready 0] by (intro exI [of _ i]) (simp add: nth_append)
qed

text \<open>
  C33. Waiting. With at least one entry that is not null, and all descriptors in the range of a descriptor set,
  \<open>spawn_net_wait_tcp\<close> calls \<open>select\<close> once, on exactly the descriptors of the entries and with a bound above all of them. When that
  fails the call fails and leaves the index alone; otherwise it returns the index of an
  entry that is ready, counting the endpoints first and then the channels. When a channel is ready
  it reports a channel, even if an endpoint is ready too.
\<close>

theorem tcp_wait_ready:
  assumes "selects os" "Some fd \<in> set eps \<union> set chs" "\<And>fd. Some fd \<in> set eps \<union> set chs \<Longrightarrow> 0 \<le> fd \<and> fd < FD_SETSIZE"
  shows "\<exists>n fds rc ready w'. sys_select os n fds w = (rc, ready, w') \<and> set fds = {fd. Some fd \<in> set eps \<union> set chs}
    \<and> (\<forall>fd\<in>set fds. fd < n)
    \<and> (if rc = -1 then spawn_net_wait_tcp os (Some eps) (Some chs) index w = Some (SPAWN_FAILURE, index, w')
       else \<exists>i. spawn_net_wait_tcp os (Some eps) (Some chs) index w = Some (SPAWN_SUCCESS, int i, w')
         \<and> i < length eps + length chs \<and> (\<exists>fd\<in>set ready. (eps @ chs) ! i = Some fd)
         \<and> ((\<exists>fd\<in>set ready. Some fd \<in> set chs) \<longrightarrow> length eps \<le> i))"
proof -
  have v: "valid_fd fd" if "Some fd \<in> set eps \<union> set chs" for fd using assms(3) [OF that] by (simp add: valid_fd_def)
  obtain f1 c1 h1 where 1: "collect_fds eps ([], 0, 0) = Some (f1, c1, h1)" "set f1 = {fd. Some fd \<in> set eps}"
      "c1 = 0 \<longleftrightarrow> (\<forall>e\<in>set eps. e = None)" "0 < c1 \<longrightarrow> (\<forall>fd\<in>set f1. fd \<le> h1)" "c1 = 0 \<longrightarrow> f1 = []"
    using collect_fds_spec [of eps 0 "[]" 0] v by (simp, blast)
  obtain f2 c2 h2 where 2: "collect_fds chs (f1, c1, h1) = Some (f2, c2, h2)" "set f2 = set f1 \<union> {fd. Some fd \<in> set chs}"
      "c2 = 0 \<longleftrightarrow> c1 = 0 \<and> (\<forall>e\<in>set chs. e = None)" "0 < c2 \<longrightarrow> (\<forall>fd\<in>set f2. fd \<le> h2)"
    using collect_fds_spec [of chs c1 f1 h1] v 1(4,5) by (simp, blast)
  have f2: "set f2 = {fd. Some fd \<in> set eps \<union> set chs}" "c2 \<noteq> 0" "\<forall>fd\<in>set f2. fd < h2 + 1"
    using 1(2,3) 2(2-4) assms(2) by auto
  obtain rc ready w' where sel: "sys_select os (h2 + 1) f2 w = (rc, ready, w')" by (metis prod_cases3)
  have ok: "rc = -1 \<or> (0 < rc \<and> ready \<noteq> [] \<and> set ready \<subseteq> set f2)"
    using assms(1) sel f2 v assms(2) unfolding selects_def by (metis (mono_tags, lifting) empty_iff empty_set mem_Collect_eq)
  have arr: "array (Some eps) = eps" "array (Some chs) = chs" by (simp_all add: array_def)
  have run: "spawn_net_wait_tcp os (Some eps) (Some chs) index w = (if rc = -1 then Some (SPAWN_FAILURE, index, w')
      else Some (SPAWN_SUCCESS, case first_ready chs ready 0 of
          None \<Rightarrow> (case first_ready eps ready 0 of None \<Rightarrow> index | Some i \<Rightarrow> int i)
        | Some i \<Rightarrow> int i + int (length eps), w'))"
    unfolding spawn_net_wait_tcp_def arr using 1(1) 2(1) f2(2) sel by (simp add: Let_def)
  show ?thesis
  proof (cases "rc = -1")
    case False
    then have r: "ready \<noteq> []" "set ready \<subseteq> {fd. Some fd \<in> set eps \<union> set chs}" using ok f2(1) by auto
    show ?thesis
      using wait_index [OF r, of index] sel f2(1,3) run False
      by (intro exI [of _ "h2 + 1"] exI [of _ f2] exI [of _ rc] exI [of _ ready] exI [of _ w']) simp
  next
    case True
    then show ?thesis
      using sel f2(1,3) run
      by (intro exI [of _ "h2 + 1"] exI [of _ f2] exI [of _ rc] exI [of _ ready] exI [of _ w']) simp
  qed
qed

text \<open>The kernel of the witness reports all descriptors as ready.\<close>

theorem tcp_wait_ready_witness:
  "\<exists>i w'. spawn_net_wait_tcp sim_os (Some [None, Some 3]) (Some [Some 5]) 0 sim_start = Some (SPAWN_SUCCESS, int i, w')
    \<and> ([None, Some 3] @ [Some 5]) ! i = Some (5 :: int)"
proof -
  let ?es = "[None, Some 3] :: int option list" and ?cs = "[Some 5] :: int option list"
  let ?r = "spawn_net_wait_tcp sim_os (Some ?es) (Some ?cs) 0 sim_start"
  have sel: "selects sim_os" by (auto simp: selects_def sim_os_def)
  have ok: "0 \<le> fd \<and> fd < FD_SETSIZE" if "Some fd \<in> set ?es \<union> set ?cs" for fd using that by (auto simp: FD_SETSIZE_def)
  have "Some 3 \<in> set ?es \<union> set ?cs" by simp
  from tcp_wait_ready [OF sel this ok, where w = sim_start and index = 0] obtain n fds rc ready w'
    where k: "sys_select sim_os n fds sim_start = (rc, ready, w')" "set fds = {fd. Some fd \<in> set ?es \<union> set ?cs}"
      "if rc = -1 then ?r = Some (SPAWN_FAILURE, 0, w') else \<exists>i. ?r = Some (SPAWN_SUCCESS, int i, w')
         \<and> i < length ?es + length ?cs \<and> (\<exists>fd\<in>set ready. (?es @ ?cs) ! i = Some fd)
         \<and> ((\<exists>fd\<in>set ready. Some fd \<in> set ?cs) \<longrightarrow> length ?es \<le> i)" by blast
  have "rc \<noteq> -1" "5 \<in> set ready" using k(1,2) by (auto simp: sim_os_def)
  then obtain i where i: "?r = Some (SPAWN_SUCCESS, int i, w')" "i < 3" "2 \<le> i" using k(3) by (auto simp: eval_nat_numeral)
  then have "i = 2" by simp
  then show ?thesis using i(1) by (intro exI [of _ i] exI [of _ w']) simp
qed

text \<open>
  Waiting with nothing to wait for: without any array the call fails; when every entry is null it
  succeeds at once with the index -1 and does not block.
\<close>

theorem tcp_wait_nothing:
  assumes "\<forall>e\<in>set eps \<union> set chs. e = None"
  shows "spawn_net_wait_tcp os None None index w = Some (SPAWN_FAILURE, index, w)
    \<and> spawn_net_wait_tcp os (Some eps) (Some chs) index w = Some (SPAWN_SUCCESS, -1, w)"
proof -
  have "collect_fds es s = Some s" if "\<forall>e\<in>set es. e = None" for es s
    using that by (induction es s rule: collect_fds.induct) auto
  then show ?thesis using assms by (simp add: spawn_net_wait_tcp_def array_def)
qed

theorem tcp_wait_nothing_witness:
  "spawn_net_wait_tcp sim_os None None 9 sim_start = Some (SPAWN_FAILURE, 9, sim_start)
    \<and> spawn_net_wait_tcp sim_os (Some [None]) (Some []) 9 sim_start = Some (SPAWN_SUCCESS, -1, sim_start)"
  by (rule tcp_wait_nothing) simp

end
