(* ===== verification/Fifo_Queue.thy ===== *)
theory Fifo_Queue
  imports Fifo
begin

text \<open>
  The packet queue of the FIFO transport against an abstract queue. An abstract packet is a type, a
  source and a payload; an abstract state has the packets that are queued, those that are in the pipe
  now and those that arrive in later batches, and the number of writers. The linked nodes of the
  heap represent the abstract queue (\<open>rep\<close>), and every queue operation of the source is shown to do
  what the corresponding operation on lists does.
\<close>

section \<open>Abstract packets\<close>

type_synonym pkt = "u64 \<times> u64 \<times> byte list"

definition packet_bytes :: "pkt \<Rightarrow> byte list" where
  "packet_bytes p = (case p of (t, src, d) \<Rightarrow> packet_header t src (word_of_nat (length d)) @ d)"

definition wire :: "pkt list \<Rightarrow> byte list" where
  "wire ps = concat (map packet_bytes ps)"

definition pkt_fits :: "pkt \<Rightarrow> bool" where
  "pkt_fits p \<longleftrightarrow> length (snd (snd p)) < 2 ^ 64"

definition pkt_match :: "u64 \<Rightarrow> u64 \<Rightarrow> pkt \<Rightarrow> bool" where
  "pkt_match type src p \<longleftrightarrow> fst p = type \<and> (type = PKT_CONNECT \<or> fst (snd p) = src)"

definition is_disconnect :: "pkt \<Rightarrow> bool" where
  "is_disconnect p \<longleftrightarrow> fst p = PKT_DISCONNECT"

text \<open>The node of a packet, and the packet of a node.\<close>

definition pkt_node :: "pkt \<Rightarrow> spawn_packet" where
  "pkt_node p = (case p of (t, src, d) \<Rightarrow>
     \<lparr>pk_type = t, pk_src = src, pk_size = word_of_nat (length d), pk_data = (if d = [] then NULL else Some d),
      pk_next = NULL\<rparr>)"

definition pkt_of :: "spawn_packet \<Rightarrow> pkt" where
  "pkt_of k = (pk_type k, pk_src k, case pk_data k of None \<Rightarrow> [] | Some d \<Rightarrow> d)"

definition node_ok :: "spawn_packet \<Rightarrow> bool" where
  "node_ok k \<longleftrightarrow> pkt_fits (pkt_of k) \<and> k\<lparr>pk_next := NULL\<rparr> = pkt_node (pkt_of k)"

lemma pkt_of_node [simp]: "pkt_of (pkt_node p) = p" "pkt_of (k\<lparr>pk_next := v\<rparr>) = pkt_of k"
  by (auto simp: pkt_of_def pkt_node_def split: prod.splits)

lemma pkt_node_simps [simp]: "pk_next (pkt_node p) = NULL" "pk_type (pkt_node p) = fst p" "(pkt_node p)\<lparr>pk_next := NULL\<rparr> = pkt_node p"
  by (auto simp: pkt_node_def split: prod.splits)

lemma node_ok_simps [simp]: "pkt_fits p \<Longrightarrow> node_ok (pkt_node p)" "node_ok (k\<lparr>pk_next := v\<rparr>) = node_ok k"
  by (simp_all add: node_ok_def)

lemma node_okD:
  assumes "node_ok k" "pkt_of k = (t, src, d)"
  shows "unat (pk_size k) = length d" "pk_data k = (if d = [] then NULL else Some d)"
proof -
  have e: "k\<lparr>pk_next := NULL\<rparr> = pkt_node (t, src, d)" and f: "length d < 2 ^ 64"
    using assms by (auto simp: node_ok_def pkt_fits_def)
  have "pk_size (k\<lparr>pk_next := NULL\<rparr>) = word_of_nat (length d)" "pk_data (k\<lparr>pk_next := NULL\<rparr>) = (if d = [] then NULL else Some d)"
    unfolding e by (auto simp: pkt_node_def)
  then show "unat (pk_size k) = length d" "pk_data k = (if d = [] then NULL else Some d)"
    using unat_word_of_nat_u64 [OF f] by simp_all
qed

lemma packet_match_pkt: "packet_match k type src = pkt_match type src (pkt_of k)"
  by (auto simp: packet_match_def pkt_match_def pkt_of_def)

lemma wire_simps [simp]: "wire [] = []" "wire (p # ps) = packet_bytes p @ wire ps" "wire (ps @ qs) = wire ps @ wire qs"
  by (auto simp: wire_def)

section \<open>Polling the pipe\<close>

lemma read_pipe:
  assumes "sz \<le> length (pipe_now s)"
  shows "reliable_read_fifo pipe_read sz [] s = (SPAWN_SUCCESS, None, take sz (pipe_now s), s\<lparr>pipe_now := drop sz (pipe_now s)\<rparr>)"
  using assms by (cases "sz = 0") (auto simp: reliable_read_fifo.simps pipe_read_def Let_def min_def)

lemma read_pipe_empty:
  "pipe_now s = [] \<Longrightarrow> 0 < sz \<Longrightarrow>
    reliable_read_fifo pipe_read sz [] s = (SPAWN_FAILURE, Some EAGAIN, [], snd (pipe_read sz s))"
  by (subst reliable_read_fifo.simps) (simp add: pipe_read_def)

lemma length_packet_header [simp]: "length (packet_header t src sz) = HDR_SIZE"
  by (simp add: packet_header_def HDR_SIZE_def)

text \<open>A packet that was written is polled with its type, source and payload.\<close>

lemma packet_poll_packet:
  assumes "pipe_now s = packet_bytes p @ r" "pkt_fits p"
  shows "packet_poll s = (Some (pk_brk s),
    s\<lparr>pipe_now := r, pkts := (pkts s)(pk_brk s \<mapsto> pkt_node p), pk_brk := Suc (pk_brk s)\<rparr>)"
proof -
  obtain t src d where p: "p = (t, src, d)" by (cases p)
  let ?h = "packet_header t src (word_of_nat (length d))"
  have 1: "reliable_read_fifo pipe_read HDR_SIZE [] s = (SPAWN_SUCCESS, None, ?h, s\<lparr>pipe_now := d @ r\<rparr>)"
    using read_pipe [of HDR_SIZE s] assms(1) by (simp add: p packet_bytes_def)
  have n: "unat (word_of_nat (length d) :: u64) = length d"
    using assms(2) by (intro unat_word_of_nat_u64) (simp add: p pkt_fits_def)
  have 2: "reliable_read_fifo pipe_read (length d) [] (s\<lparr>pipe_now := d @ r\<rparr>)
      = (SPAWN_SUCCESS, None, d, s\<lparr>pipe_now := r\<rparr>)"
    using read_pipe [of "length d" "s\<lparr>pipe_now := d @ r\<rparr>"] by simp
  have 3: "fst (spawn_unpack_uint64 ?h) = t" "fst (spawn_unpack_uint64 (drop 8 ?h)) = src"
      "fst (spawn_unpack_uint64 (drop 16 ?h)) = word_of_nat (length d)"
    by (simp_all add: packet_header_def)
  show ?thesis
    unfolding packet_poll_def by (simp add: 1 2 3 n packet_new_def p pkt_node_def Let_def)
qed

lemma packet_poll_empty: "pipe_now s = [] \<Longrightarrow> packet_poll s = (NULL, snd (pipe_read HDR_SIZE s))"
  unfolding packet_poll_def by (simp add: read_pipe_empty HDR_SIZE_def SPAWN_FAILURE_def SPAWN_SUCCESS_def)

section \<open>Linked nodes\<close>

fun lseg :: "(nat \<rightharpoonup> spawn_packet) \<Rightarrow> ptr \<Rightarrow> nat list \<Rightarrow> ptr \<Rightarrow> bool" where
  "lseg m p [] q \<longleftrightarrow> p = q"
| "lseg m p (a # xs) q \<longleftrightarrow> p = Some a \<and> (case m a of None \<Rightarrow> False | Some k \<Rightarrow> node_ok k \<and> lseg m (pk_next k) xs q)"

definition last_ptr :: "nat list \<Rightarrow> ptr" where
  "last_ptr xs = (if xs = [] then NULL else Some (last xs))"

definition head_ptr :: "nat list \<Rightarrow> ptr" where
  "head_ptr xs = (case xs of [] \<Rightarrow> NULL | x # _ \<Rightarrow> Some x)"

definition queue_rep :: "fifo \<Rightarrow> nat list \<Rightarrow> bool" where
  "queue_rep s xs \<longleftrightarrow> lseg (pkts s) (queue_head s) xs NULL \<and> distinct xs \<and> (\<forall>a\<in>set xs. a < pk_brk s)
     \<and> queue_tail s = last_ptr xs"

definition contents :: "(nat \<rightharpoonup> spawn_packet) \<Rightarrow> nat list \<Rightarrow> pkt list" where
  "contents m xs = map (\<lambda>a. pkt_of (the (m a))) xs"

lemma last_ptr_simps [simp]: "last_ptr [] = NULL" "last_ptr [x] = Some x" "last_ptr (xs @ [x]) = Some x"
  by (auto simp: last_ptr_def)

lemma head_ptr_simps [simp]: "head_ptr [] = NULL" "head_ptr (x # xs) = Some x"
  by (auto simp: head_ptr_def)

lemma contents_simps [simp]:
  "contents m [] = []" "contents m (x # xs) = pkt_of (the (m x)) # contents m xs"
  "contents m (xs @ ys) = contents m xs @ contents m ys"
  by (auto simp: contents_def)

lemma length_contents [simp]: "length (contents m xs) = length xs"
  by (simp add: contents_def)

lemma contents_upd [simp]: "a \<notin> set xs \<Longrightarrow> contents (m(a := v)) xs = contents m xs"
  by (auto simp: contents_def)

lemma contents_next [simp]: "m a = Some k \<Longrightarrow> contents (m(a \<mapsto> k\<lparr>pk_next := v\<rparr>)) xs = contents m xs"
  by (auto simp: contents_def)

lemma lseg_append: "lseg m p (xs @ ys) q \<longleftrightarrow> (\<exists>r. lseg m p xs r \<and> lseg m r ys q)"
  by (induction xs arbitrary: p) (auto split: option.splits)

lemma lseg_upd [simp]: "a \<notin> set xs \<Longrightarrow> lseg (m(a := v)) p xs q = lseg m p xs q"
  by (induction xs arbitrary: p) (auto split: option.splits)

lemma lseg_head: "lseg m p xs NULL \<Longrightarrow> p = head_ptr xs"
  by (cases xs) auto

lemma lseg_node: "lseg m p xs q \<Longrightarrow> a \<in> set xs \<Longrightarrow> \<exists>k. m a = Some k \<and> node_ok k"
  by (induction xs arbitrary: p) (auto split: option.splits)

lemma lseg_snoc: "lseg m p (xs @ [a]) q \<longleftrightarrow> lseg m p xs (Some a) \<and> (\<exists>k. m a = Some k \<and> node_ok k \<and> pk_next k = q)"
  by (auto simp: lseg_append split: option.splits)

text \<open>What the queue operations leave alone.\<close>

definition frame :: "fifo \<Rightarrow> _" where
  "frame s = (g_name s, g_path s, g_fd s, g_open_count s, g_next_id s, wr_calls s, wrote s, closed s, files s, own_calls s)"

definition pipe_part :: "fifo \<Rightarrow> _" where
  "pipe_part s = (pipe_now s, pipe_later s, g_writer_count s)"

lemma queue_append_rep:
  assumes "queue_rep s xs" "p \<notin> set xs" "p < pk_brk s" "pkts s p = Some k" "node_ok k" "pk_next k = NULL"
  shows "\<exists>s'. queue_append p s = Some s' \<and> queue_rep s' (xs @ [p])
    \<and> contents (pkts s') (xs @ [p]) = contents (pkts s) xs @ [pkt_of k]
    \<and> frame s' = frame s \<and> pipe_part s' = pipe_part s \<and> pk_brk s' = pk_brk s"
proof (cases xs rule: rev_cases)
  case Nil
  then show ?thesis using assms by (auto simp: queue_append_def queue_rep_def frame_def pipe_part_def)
next
  case (snoc ys t)
  then obtain kt where seg: "lseg (pkts s) (queue_head s) ys (Some t)" and kt: "pkts s t = Some kt" "node_ok kt" "pk_next kt = NULL"
    using assms(1) by (auto simp: queue_rep_def lseg_snoc)
  have h: "queue_head s \<noteq> NULL" using assms(1) snoc by (cases ys) (auto simp: queue_rep_def)
  have d: "t \<noteq> p" "t \<notin> set ys" "p \<notin> set ys" using assms(1,2) snoc by (auto simp: queue_rep_def)
  let ?s = "s\<lparr>pkts := (pkts s)(t \<mapsto> kt\<lparr>pk_next := Some p\<rparr>), queue_tail := Some p\<rparr>"
  have "queue_append p s = Some ?s" using assms(1) snoc h kt
    by (auto simp: queue_append_def queue_rep_def set_next_def)
  moreover have "lseg (pkts ?s) (queue_head ?s) (ys @ [t, p]) NULL"
    using seg kt d assms(4-6) by (auto simp: lseg_append)
  then have "queue_rep ?s (xs @ [p])" using assms(1-3) snoc by (auto simp: queue_rep_def last_ptr_def)
  moreover have "contents (pkts ?s) (xs @ [p]) = contents (pkts s) xs @ [pkt_of k]"
    using kt d(1) assms(4) by simp
  ultimately show ?thesis by (auto simp: frame_def pipe_part_def)
qed

text \<open>Removing the packet at address \<open>c\<close>, whose predecessor is the last address of \<open>xs\<close>.\<close>

lemma queue_extract_rep:
  assumes "queue_rep s (xs @ c # ys)"
  shows "\<exists>s' k. queue_extract (last_ptr xs) c s = Some s' \<and> queue_rep s' (xs @ ys)
    \<and> contents (pkts s') (xs @ ys) = contents (pkts s) (xs @ ys)
    \<and> pkts s' c = Some k \<and> pkt_of k = pkt_of (the (pkts s c)) \<and> node_ok k
    \<and> frame s' = frame s \<and> pipe_part s' = pipe_part s \<and> pk_brk s' = pk_brk s"
proof -
  obtain k where k: "pkts s c = Some k" "node_ok k" and ys: "lseg (pkts s) (pk_next k) ys NULL"
    and xs: "lseg (pkts s) (queue_head s) xs (Some c)"
    using assms by (auto simp: queue_rep_def lseg_append split: option.splits)
  have d: "distinct (xs @ c # ys)" and b: "\<forall>a\<in>set (xs @ c # ys). a < pk_brk s" and t: "queue_tail s = last_ptr (xs @ c # ys)"
    using assms by (auto simp: queue_rep_def)
  have n: "pk_next k = head_ptr ys" using ys by (rule lseg_head)
  show ?thesis
  proof (cases xs rule: rev_cases)
    case Nil
    let ?s = "s\<lparr>queue_head := pk_next k, queue_tail := (if ys = [] then NULL else queue_tail s),
        pkts := (pkts s)(c \<mapsto> k\<lparr>pk_next := NULL\<rparr>)\<rparr>"
    have "queue_extract (last_ptr xs) c s = Some ?s"
      using xs Nil n k by (cases ys) (simp_all add: queue_extract_def set_next_def)
    moreover have "queue_rep ?s (xs @ ys)"
      using Nil d b t ys by (cases "ys = []") (auto simp: queue_rep_def last_ptr_def)
    ultimately show ?thesis using Nil d k by (auto simp: frame_def pipe_part_def)
  next
    case (snoc us q)
    then obtain kq where us: "lseg (pkts s) (queue_head s) us (Some q)" and kq: "pkts s q = Some kq" "node_ok kq" "pk_next kq = Some c"
      using xs by (auto simp: lseg_snoc)
    have h: "queue_head s \<noteq> Some c" using us d snoc by (cases us) auto
    have q: "q \<noteq> c" "q \<notin> set us" "q \<notin> set ys" "c \<notin> set us" "c \<notin> set ys" using d snoc by auto
    let ?s = "s\<lparr>pkts := (pkts s)(q \<mapsto> kq\<lparr>pk_next := pk_next k\<rparr>, c \<mapsto> k\<lparr>pk_next := NULL\<rparr>),
        queue_tail := (if ys = [] then Some q else queue_tail s)\<rparr>"
    have "queue_tail s = Some c \<longleftrightarrow> ys = []" using t q(5) by (cases ys rule: rev_cases) (auto simp: last_ptr_def)
    then have "queue_extract (last_ptr xs) c s = Some ?s"
      using h k kq q snoc by (simp add: queue_extract_def set_next_def)
    moreover have "lseg (pkts ?s) (queue_head ?s) (xs @ ys) NULL"
      using snoc us kq ys q by (auto simp: lseg_append)
    then have "queue_rep ?s (xs @ ys)" using snoc d b t by (auto simp: queue_rep_def last_ptr_def)
    moreover have "contents (pkts ?s) (xs @ ys) = contents (pkts s) (xs @ ys)"
      using q kq k snoc by (simp add: fun_upd_twist)
    ultimately show ?thesis using q k by (auto simp: frame_def pipe_part_def)
  qed
qed

section \<open>Searching\<close>

fun take_out :: "('a \<Rightarrow> bool) \<Rightarrow> 'a list \<Rightarrow> ('a \<times> 'a list) option" where
  "take_out P [] = None"
| "take_out P (x # xs) = (if P x then Some (x, xs) else map_option (\<lambda>(y, ys). (y, x # ys)) (take_out P xs))"

lemma take_out_None: "take_out P xs = None \<longleftrightarrow> (\<forall>x\<in>set xs. \<not> P x)"
  by (induction xs) auto

lemma take_out_first: "\<forall>x\<in>set xs. \<not> P x \<Longrightarrow> P p \<Longrightarrow> take_out P (xs @ p # ys) = Some (p, xs @ ys)"
  by (induction xs) auto

lemma take_out_append:
  "take_out P (xs @ ys) = (case take_out P xs of Some (p, r) \<Rightarrow> Some (p, r @ ys)
     | None \<Rightarrow> map_option (\<lambda>(p, r). (p, xs @ r)) (take_out P ys))"
  by (induction xs) (auto split: option.splits simp: option.map_comp comp_def case_prod_unfold option.map_ident)

text \<open>
  The packet \<open>p\<close> at address \<open>c\<close> has been taken out of the queue behind the addresses \<open>xs\<close>; \<open>r\<close> are the
  packets left there.
\<close>

definition taken :: "fifo \<Rightarrow> nat list \<Rightarrow> pkt \<Rightarrow> pkt list \<Rightarrow> nat \<Rightarrow> fifo \<Rightarrow> bool" where
  "taken s xs p r c s' \<longleftrightarrow> (\<exists>zs k. queue_rep s' (xs @ zs) \<and> contents (pkts s') (xs @ zs) = contents (pkts s) xs @ r
     \<and> pkts s' c = Some k \<and> pkt_of k = p \<and> node_ok k \<and> c \<notin> set (xs @ zs)
     \<and> frame s' = frame s \<and> pipe_part s' = pipe_part s \<and> pk_brk s' = pk_brk s)"

lemma taken_Cons: "taken s (xs @ [b]) p r c s' \<Longrightarrow> taken s xs p (pkt_of (the (pkts s b)) # r) c s'"
  unfolding taken_def by (elim exE, rule_tac x = "b # zs" in exI) auto

lemma queue_search_rep:
  assumes "queue_rep s (xs @ ys)"
  shows "case take_out (pkt_match type src) (contents (pkts s) ys) of
      None \<Rightarrow> queue_search type src (last_ptr xs) (head_ptr ys) s = Some (NULL, s)
    | Some (p, r) \<Rightarrow> \<exists>c s'. queue_search type src (last_ptr xs) (head_ptr ys) s = Some (Some c, s') \<and> taken s xs p r c s'"
  using assms
proof (induction ys arbitrary: xs)
  case Nil
  then show ?case by (simp add: queue_search.simps)
next
  case (Cons c ys)
  obtain k where k: "pkts s c = Some k" "node_ok k" and ys: "lseg (pkts s) (pk_next k) ys NULL"
    using Cons.prems by (auto simp: queue_rep_def lseg_append split: option.splits)
  have d: "c \<notin> set (xs @ ys)" using Cons.prems by (auto simp: queue_rep_def)
  show ?case
  proof (cases "pkt_match type src (pkt_of k)")
    case True
    obtain s' k' where "queue_extract (last_ptr xs) c s = Some s'" "queue_rep s' (xs @ ys)"
        "contents (pkts s') (xs @ ys) = contents (pkts s) (xs @ ys)" "pkts s' c = Some k'" "pkt_of k' = pkt_of k" "node_ok k'"
        "frame s' = frame s" "pipe_part s' = pipe_part s" "pk_brk s' = pk_brk s"
      using queue_extract_rep [OF Cons.prems] k by auto
    moreover then have "taken s xs (pkt_of k) (contents (pkts s) ys) c s'"
      unfolding taken_def using d by (intro exI [of _ ys] exI [of _ k']) simp
    ultimately show ?thesis using True k by (simp add: queue_search.simps packet_match_pkt)
  next
    case False
    have "queue_search type src (last_ptr xs) (head_ptr (c # ys)) s = queue_search type src (last_ptr (xs @ [c])) (head_ptr ys) s"
      using False k lseg_head [OF ys] by (subst queue_search.simps) (simp add: packet_match_pkt)
    then show ?thesis using Cons.IH [of "xs @ [c]"] Cons.prems False k
      by (auto split: option.splits prod.splits dest: taken_Cons)
  qed
qed

section \<open>The abstract queue\<close>

record aqueue =
  aq_queue :: "pkt list"
  aq_now :: "pkt list"
  aq_later :: "pkt list list"
  aq_writers :: int

definition rep :: "fifo \<Rightarrow> nat list \<Rightarrow> aqueue \<Rightarrow> bool" where
  "rep s xs a \<longleftrightarrow> queue_rep s xs \<and> contents (pkts s) xs = aq_queue a
     \<and> pipe_now s = wire (aq_now a) \<and> pipe_later s = map wire (aq_later a) \<and> g_writer_count s = aq_writers a
     \<and> list_all pkt_fits (aq_now a) \<and> list_all (list_all pkt_fits) (aq_later a)"

definition a_absorb :: "pkt \<Rightarrow> aqueue \<Rightarrow> aqueue" where
  "a_absorb p a = (if is_disconnect p then a\<lparr>aq_writers := aq_writers a - 1\<rparr> else a\<lparr>aq_queue := aq_queue a @ [p]\<rparr>)"

definition a_arrive :: "aqueue \<Rightarrow> aqueue" where
  "a_arrive a = (case aq_later a of [] \<Rightarrow> a\<lparr>aq_now := []\<rparr> | b # bs \<Rightarrow> a\<lparr>aq_now := b, aq_later := bs\<rparr>)"

text \<open>Draining the pipe: the packets in it are queued in order, except for the disconnect messages.\<close>

definition a_progress :: "aqueue \<Rightarrow> aqueue" where
  "a_progress a = a_arrive (fold a_absorb (aq_now a) a)"

lemma fold_absorb: "fold a_absorb ps a = a\<lparr>aq_queue := aq_queue a @ filter (Not \<circ> is_disconnect) ps,
    aq_writers := aq_writers a - int (length (filter is_disconnect ps))\<rparr>"
  by (induction ps arbitrary: a) (simp_all add: a_absorb_def)

lemma a_progress_simps:
  "aq_queue (a_progress a) = aq_queue a @ filter (Not \<circ> is_disconnect) (aq_now a)"
  "aq_writers (a_progress a) = aq_writers a - int (length (filter is_disconnect (aq_now a)))"
  "aq_now (a_progress a) = (case aq_later a of [] \<Rightarrow> [] | b # bs \<Rightarrow> b)" "aq_later (a_progress a) = tl (aq_later a)"
  by (auto simp: a_progress_def a_arrive_def fold_absorb split: list.splits)

text \<open>The first matching packet, and the state after all batches up to its own have been drained.\<close>

function a_recv :: "(pkt \<Rightarrow> bool) \<Rightarrow> aqueue \<Rightarrow> (pkt \<times> aqueue) option" where
  "a_recv P a =
     (let a' = a_progress a in
      case take_out P (aq_queue a') of
        Some (p, r) \<Rightarrow> Some (p, a'\<lparr>aq_queue := r\<rparr>)
      | None \<Rightarrow> if aq_now a = [] \<and> aq_later a = [] then None else a_recv P a')"
  by auto
termination
proof (relation "measure (\<lambda>(P, a). 2 * length (aq_later a) + (if aq_now a = [] then 0 else 1))")
  fix P and a x :: aqueue
  assume "x = a_progress a" "\<not> (aq_now a = [] \<and> aq_later a = [])"
  then show "((P, x), P, a) \<in> measure (\<lambda>(P, a). 2 * length (aq_later a) + (if aq_now a = [] then 0 else 1))"
    by (cases "aq_later a") (auto simp: a_progress_simps)
qed simp

declare a_recv.simps [simp del]

lemma a_recv_found: "take_out P (aq_queue (a_progress a)) = Some pr \<Longrightarrow> a_recv P a = Some (fst pr, a_progress a\<lparr>aq_queue := snd pr\<rparr>)"
  by (subst a_recv.simps) (simp add: case_prod_unfold)

lemma a_recv_next: "take_out P (aq_queue (a_progress a)) = None \<Longrightarrow>
    a_recv P a = (if aq_now a = [] \<and> aq_later a = [] then None else a_recv P (a_progress a))"
  by (subst a_recv.simps) simp

lemma rep_arrive: "rep s xs (a\<lparr>aq_now := []\<rparr>) \<Longrightarrow> rep (snd (pipe_read n s)) xs (a_arrive a)"
  by (auto simp: rep_def a_arrive_def pipe_read_def queue_rep_def split: list.splits)

text \<open>One packet off the pipe.\<close>

lemma queue_progress_packet:
  assumes "rep s xs a" "aq_now a = p # ps"
  shows "\<exists>s' ys. queue_progress s = queue_progress s' \<and> rep s' (xs @ ys) (a_absorb p (a\<lparr>aq_now := ps\<rparr>)) \<and> frame s' = frame s"
proof -
  let ?b = "pk_brk s" and ?s = "s\<lparr>pipe_now := wire ps, pkts := (pkts s)(pk_brk s \<mapsto> pkt_node p), pk_brk := Suc (pk_brk s)\<rparr>"
  have f: "pkt_fits p" and new: "?b \<notin> set xs" using assms by (auto simp: rep_def queue_rep_def)
  have poll: "packet_poll s = (Some ?b, ?s)"
    using packet_poll_packet [OF _ f, of s "wire ps"] assms by (simp add: rep_def)
  have q: "queue_rep ?s xs" "contents (pkts ?s) xs = aq_queue a" using assms(1) new by (auto simp: rep_def queue_rep_def)
  show ?thesis
  proof (cases "is_disconnect p")
    case True
    let ?t = "s\<lparr>pipe_now := wire ps, pk_brk := Suc ?b, g_writer_count := g_writer_count s - 1, pkts := (pkts s)(?b := None)\<rparr>"
    have "queue_progress s = queue_progress ?t"
      using poll True by (subst queue_progress.simps) (simp add: is_disconnect_def packet_free_def)
    moreover have "rep ?t (xs @ []) (a_absorb p (a\<lparr>aq_now := ps\<rparr>))"
      using assms q(1) new True by (auto simp: rep_def a_absorb_def queue_rep_def)
    ultimately show ?thesis by (intro exI [of _ ?t] exI [of _ "[]"]) (simp add: frame_def)
  next
    case False
    obtain s' where s': "queue_append ?b ?s = Some s'" "queue_rep s' (xs @ [?b])" "frame s' = frame ?s" "pipe_part s' = pipe_part ?s"
        "contents (pkts s') (xs @ [?b]) = contents (pkts ?s) xs @ [p]"
      using queue_append_rep [OF q(1) new, of "pkt_node p"] f by auto
    have "queue_progress s = queue_progress s'"
      using poll False s'(1) by (subst queue_progress.simps) (simp add: is_disconnect_def)
    moreover have "rep s' (xs @ [?b]) (a_absorb p (a\<lparr>aq_now := ps\<rparr>))"
      using assms q(2) s' False by (auto simp: rep_def a_absorb_def pipe_part_def)
    ultimately show ?thesis using s'(3) by (intro exI [of _ s'] exI [of _ "[?b]"]) (simp add: frame_def)
  qed
qed

text \<open>Refinement: draining the pipe ends, and does what the abstract queue does; the old nodes stay in front.\<close>

lemma queue_progress_rep:
  assumes "rep s xs a"
  shows "\<exists>s' ys. queue_progress s = Some s' \<and> rep s' (xs @ ys) (a_progress a) \<and> frame s' = frame s"
  using assms
proof (induction "aq_now a" arbitrary: s xs a)
  case Nil
  then have "pipe_now s = []" "rep s xs (a\<lparr>aq_now := []\<rparr>)" by (auto simp: rep_def)
  then have "queue_progress s = Some (snd (pipe_read HDR_SIZE s))" "rep (snd (pipe_read HDR_SIZE s)) (xs @ []) (a_progress a)"
    using Nil rep_arrive by (auto simp: queue_progress.simps packet_poll_empty a_progress_def)
  moreover have "frame (snd (pipe_read HDR_SIZE s)) = frame s"
    by (auto simp: pipe_read_def frame_def split: list.splits)
  ultimately show ?case by blast
next
  case (Cons p ps)
  let ?a = "a_absorb p (a\<lparr>aq_now := ps\<rparr>)"
  obtain s1 ys where 1: "queue_progress s = queue_progress s1" "rep s1 (xs @ ys) ?a" "frame s1 = frame s"
    using queue_progress_packet [OF Cons.prems Cons.hyps(2) [symmetric]] by blast
  have "ps = aq_now ?a" by (simp add: a_absorb_def)
  then obtain s' zs where 2: "queue_progress s1 = Some s'" "rep s' ((xs @ ys) @ zs) (a_progress ?a)" "frame s' = frame s1"
    using Cons.hyps(1) [OF _ 1(2)] by blast
  have "a_progress ?a = a_progress a"
    using Cons.hyps(2) [symmetric] by (auto simp: a_progress_def a_arrive_def fold_absorb a_absorb_def split: list.splits)
  then show ?case using 1 2 by (intro exI [of _ s'] exI [of _ "ys @ zs"]) simp
qed

section \<open>Waiting for a packet\<close>

text \<open>The node at \<open>c\<close> holds the packet \<open>p\<close>, outside of the queue.\<close>

definition got :: "fifo \<Rightarrow> nat \<Rightarrow> pkt \<Rightarrow> aqueue \<Rightarrow> fifo \<Rightarrow> bool" where
  "got s c p a s' \<longleftrightarrow> (\<exists>xs k. rep s' xs a \<and> c \<notin> set xs \<and> pkts s' c = Some k \<and> pkt_of k = p \<and> node_ok k \<and> frame s' = frame s)"

lemma got_taken: "rep s (xs @ ys) a \<Longrightarrow> taken s xs p r c s' \<Longrightarrow> got s c p (a\<lparr>aq_queue := contents (pkts s) xs @ r\<rparr>) s'"
  unfolding taken_def got_def rep_def pipe_part_def by (elim exE, rule_tac x = "xs @ zs" in exI, rule_tac x = k in exI) auto

text \<open>A search behind the nodes \<open>xs\<close>, in whose packets there is no match.\<close>

lemma search_from:
  assumes "rep s (xs @ ys) a" "take_out (pkt_match type src) (contents (pkts s) xs) = None"
  shows "case take_out (pkt_match type src) (aq_queue a) of
      None \<Rightarrow> queue_search type src (last_ptr xs) (head_ptr ys) s = Some (NULL, s)
    | Some (p, r) \<Rightarrow> \<exists>c s'. queue_search type src (last_ptr xs) (head_ptr ys) s = Some (Some c, s')
        \<and> got s c p (a\<lparr>aq_queue := r\<rparr>) s'"
proof -
  have "queue_rep s (xs @ ys)" and q: "aq_queue a = contents (pkts s) xs @ contents (pkts s) ys"
    using assms(1) by (auto simp: rep_def)
  from queue_search_rep [OF this(1), of type src] assms(2) show ?thesis
    by (auto simp: q take_out_append split: option.splits intro: got_taken [OF assms(1)])
qed

text \<open>The new packets are exactly those behind the old tail.\<close>

lemma new_packets:
  assumes "rep s xs a" "rep s' (xs @ ys) (a_progress a)"
  shows "contents (pkts s') xs = aq_queue a" "queue_tail s' \<noteq> queue_tail s \<longleftrightarrow> ys \<noteq> []"
    "xs = [] \<Longrightarrow> queue_head s' = head_ptr ys"
    "queue_tail s = Some t \<Longrightarrow> \<exists>k. pkts s' t = Some k \<and> pk_next k = head_ptr ys"
proof -
  have "contents (pkts s') xs @ contents (pkts s') ys = aq_queue a @ filter (Not \<circ> is_disconnect) (aq_now a)"
    using assms(2) by (simp add: rep_def a_progress_simps)
  moreover have "length (aq_queue a) = length xs" using assms(1) length_contents [of "pkts s" xs] by (simp add: rep_def)
  ultimately show "contents (pkts s') xs = aq_queue a" by simp
  have t: "queue_tail s = last_ptr xs" "queue_tail s' = last_ptr (xs @ ys)" "distinct (xs @ ys)"
      and l: "lseg (pkts s') (queue_head s') (xs @ ys) NULL"
    using assms by (auto simp: rep_def queue_rep_def)
  show "queue_tail s' \<noteq> queue_tail s \<longleftrightarrow> ys \<noteq> []"
  proof (cases ys rule: rev_cases)
    case (snoc zs z)
    then have "z \<notin> set xs" using t(3) by auto
    then show ?thesis using snoc t(1,2) by (auto simp: last_ptr_def)
  qed (use t in simp)
  show "queue_head s' = head_ptr ys" if "xs = []" using l that lseg_head by simp
  show "\<exists>k. pkts s' t = Some k \<and> pk_next k = head_ptr ys" if "queue_tail s = Some t"
  proof (cases xs rule: rev_cases)
    case (snoc us u)
    then have "u = t" using that t(1) by simp
    then show ?thesis using l snoc lseg_head [of "pkts s'" _ ys] by (auto simp: lseg_append split: option.splits)
  qed (use that t(1) in simp)
qed

lemma packet_wait_rep:
  assumes "rep s xs a" "take_out (pkt_match type src) (aq_queue a) = None" "a_recv (pkt_match type src) a = Some (p, a')"
  shows "\<exists>c s'. packet_wait type src s = Some (c, s') \<and> got s c p a' s'"
  using assms
proof (induction "pkt_match type src" a arbitrary: s xs rule: a_recv.induct)
  case (1 a)
  let ?P = "pkt_match type src"
  obtain s1 ys where s1: "queue_progress s = Some s1" "rep s1 (xs @ ys) (a_progress a)" "frame s1 = frame s"
    using queue_progress_rep [OF "1.prems"(1)] by blast
  note new = new_packets [OF "1.prems"(1) s1(2)]
  define search where "search = (case queue_tail s of
      None \<Rightarrow> queue_search type src NULL (queue_head s1) s1
    | Some t \<Rightarrow> Option.bind (pkts s1 t) (\<lambda>k. queue_search type src (queue_tail s) (pk_next k) s1))"
  have tail: "queue_tail s = last_ptr xs" using "1.prems"(1) by (simp add: rep_def queue_rep_def)
  have search: "search = queue_search type src (last_ptr xs) (head_ptr ys) s1"
    using new(3,4) tail by (cases "queue_tail s") (auto simp: search_def last_ptr_def split: if_splits)
  have wait: "packet_wait type src s = (if ys \<noteq> [] then
        Option.bind search (\<lambda>(p, s). case p of None \<Rightarrow> packet_wait type src s | Some q \<Rightarrow> Some (q, s))
      else packet_wait type src s1)"
    using new(2) s1(1) by (subst packet_wait.simps) (auto simp: search_def Let_def cong: option.case_cong)
  have found: "case take_out ?P (aq_queue (a_progress a)) of None \<Rightarrow> search = Some (NULL, s1)
      | Some (p, r) \<Rightarrow> \<exists>c s'. search = Some (Some c, s') \<and> got s1 c p (a_progress a\<lparr>aq_queue := r\<rparr>) s'"
    unfolding search by (rule search_from [OF s1(2)]) (simp add: new(1) "1.prems"(2))
  have empty: "aq_queue (a_progress a) = aq_queue a" if "ys = []"
    using s1(2) new(1) that by (simp add: rep_def)
  show ?case
  proof (cases "take_out ?P (aq_queue (a_progress a))")
    case None
    then have "packet_wait type src s = packet_wait type src s1" using wait found by simp
    moreover have n: "\<not> (aq_now a = [] \<and> aq_later a = [])" and r: "a_recv ?P (a_progress a) = Some (p, a')"
      using "1.prems"(3) a_recv_next [OF None] by (auto split: if_splits)
    ultimately show ?thesis
      using "1.hyps" [OF refl None n s1(2) None r] s1(3) by (auto simp: got_def)
  next
    case (Some pr)
    then have "ys \<noteq> []" using empty "1.prems"(2) by auto
    moreover have "fst pr = p" "a' = a_progress a\<lparr>aq_queue := snd pr\<rparr>"
      using "1.prems"(3) a_recv_found [OF Some] by simp_all
    ultimately show ?thesis using found Some wait s1(3) by (auto simp: got_def case_prod_unfold)
  qed
qed

text \<open>Refinement: \<open>packet_read\<close> returns the first matching packet and leaves all others in order.\<close>

lemma packet_read_rep:
  assumes "rep s xs a" "a_recv (pkt_match type src) a = Some (p, a')"
  shows "\<exists>c s'. packet_read type src s = Some (c, s') \<and> got s c p a' s'"
proof -
  let ?P = "pkt_match type src"
  obtain s1 ys where s1: "queue_progress s = Some s1" "rep s1 (xs @ ys) (a_progress a)" "frame s1 = frame s"
    using queue_progress_rep [OF assms(1)] by blast
  have h: "queue_head s1 = head_ptr (xs @ ys)" using s1(2) lseg_head by (auto simp: rep_def queue_rep_def)
  have found: "case take_out ?P (aq_queue (a_progress a)) of
      None \<Rightarrow> queue_search type src NULL (queue_head s1) s1 = Some (NULL, s1)
    | Some (p, r) \<Rightarrow> \<exists>c s'. queue_search type src NULL (queue_head s1) s1 = Some (Some c, s')
        \<and> got s1 c p (a_progress a\<lparr>aq_queue := r\<rparr>) s'"
    using search_from [of s1 "[]" "xs @ ys" "a_progress a" type src] s1(2) h by (auto split: option.splits)
  show ?thesis
  proof (cases "take_out ?P (aq_queue (a_progress a))")
    case None
    then have "packet_read type src s = packet_wait type src s1" using found s1(1) by (simp add: packet_read_def)
    moreover have "a_recv ?P (a_progress a) = Some (p, a')"
      using assms(2) a_recv_next [OF None] by (simp split: if_splits)
    ultimately show ?thesis using packet_wait_rep [OF s1(2) None] s1(3) by (auto simp: got_def)
  next
    case (Some pr)
    then have "fst pr = p" "a' = a_progress a\<lparr>aq_queue := snd pr\<rparr>"
      using assms(2) a_recv_found [OF Some] by simp_all
    then show ?thesis using found Some s1(1,3) by (auto simp: packet_read_def got_def case_prod_unfold)
  qed
qed

end
