(* ===== verification/Fifo_Spec.thy ===== *)
theory Fifo_Spec
  imports Fifo_Queue
begin

text \<open>
  What the FIFO transport guarantees: a packet is matched in the order of arrival whatever else is in
  the queue, a message that one process writes is what the other reads although packets of other
  senders are interleaved with it, both sides of a new connection agree on the ids, and the last
  close waits for the writers. The end of the theory shows three defects of the source.
\<close>

section \<open>The stream of packets\<close>

definition fifo_state :: "fifo \<Rightarrow> aqueue \<Rightarrow> bool" where
  "fifo_state s a \<longleftrightarrow> (\<exists>xs. rep s xs a)"

text \<open>All packets for the reader, in the order of their arrival, and the disconnect messages still to come.\<close>

definition stream :: "aqueue \<Rightarrow> pkt list" where
  "stream a = aq_queue a @ filter (Not \<circ> is_disconnect) (aq_now a @ concat (aq_later a))"

definition leaving :: "aqueue \<Rightarrow> int" where
  "leaving a = int (length (filter is_disconnect (aq_now a @ concat (aq_later a))))"

lemma a_progress_stream [simp]: "stream (a_progress a) = stream a" "aq_writers (a_progress a) - leaving (a_progress a) = aq_writers a - leaving a"
  by (cases "aq_later a"; simp add: stream_def leaving_def a_progress_simps)+

lemma stream_queue [simp]: "stream (a\<lparr>aq_queue := r\<rparr>) = r @ drop (length (aq_queue a)) (stream a)"
  "leaving (a\<lparr>aq_queue := r\<rparr>) = leaving a" "stream (a\<lparr>aq_writers := n\<rparr>) = stream a" "leaving (a\<lparr>aq_writers := n\<rparr>) = leaving a"
  by (auto simp: stream_def leaving_def)

text \<open>The first matching packet of the stream is received, and the others stay in order.\<close>

lemma a_recv_stream:
  assumes "stream a = xs @ p # ys" "\<forall>x\<in>set xs. \<not> P x" "P p"
  shows "\<exists>a'. a_recv P a = Some (p, a') \<and> stream a' = xs @ ys \<and> aq_writers a' - leaving a' = aq_writers a - leaving a"
  using assms
proof (induction P a rule: a_recv.induct)
  case (1 P a)
  let ?q = "aq_queue (a_progress a)" and ?w = "drop (length (aq_queue (a_progress a))) (stream (a_progress a))"
  have split: "stream (a_progress a) = ?q @ ?w" by (simp add: stream_def)
  have "?q @ ?w = xs @ p # ys" using split "1.prems"(1) by simp
  then have out: "take_out P (?q @ ?w) = Some (p, xs @ ys)"
    using take_out_first [OF "1.prems"(2,3), of ys] by (simp only:)
  show ?case
  proof (cases "take_out P ?q")
    case (Some pr)
    then have "fst pr = p" "snd pr @ ?w = xs @ ys" using out by (simp_all add: take_out_append case_prod_unfold)
    then show ?thesis using a_recv_found [OF Some] a_progress_stream(2) [of a] by simp
  next
    case None
    then have "?w \<noteq> []" using out by (auto simp: take_out_append)
    then have "\<not> (aq_now a = [] \<and> aq_later a = [])" by (auto simp: stream_def a_progress_simps)
    then show ?thesis using "1.IH" [OF refl None] "1.prems" a_recv_next [OF None] a_progress_stream(2) [of a] by simp
  qed
qed

lemma packet_read_stream:
  assumes "fifo_state s a" "stream a = xs @ p # ys" "\<forall>x\<in>set xs. \<not> pkt_match type src x" "pkt_match type src p"
  shows "\<exists>c s' a'. packet_read type src s = Some (c, s') \<and> got s c p a' s' \<and> stream a' = xs @ ys
    \<and> aq_writers a' - leaving a' = aq_writers a - leaving a"
  using assms(1) a_recv_stream [OF assms(2-4)] packet_read_rep unfolding fifo_state_def by blast

lemma got_free:
  assumes "got s c p a s'"
  shows "fifo_state (snd (packet_free (Some (Some c)) s')) a" "frame (snd (packet_free (Some (Some c)) s')) = frame s"
proof -
  obtain xs where "rep s' xs a" "c \<notin> set xs" "frame s' = frame s" using assms by (auto simp: got_def)
  then have "rep (snd (packet_free (Some (Some c)) s')) xs a" "frame (snd (packet_free (Some (Some c)) s')) = frame s"
    by (auto simp: rep_def queue_rep_def packet_free_def frame_def)
  then show "fifo_state (snd (packet_free (Some (Some c)) s')) a" "frame (snd (packet_free (Some (Some c)) s')) = frame s"
    by (auto simp: fifo_state_def)
qed

lemma got_node:
  assumes "got s c (t, src, d) a s'"
  shows "\<exists>k. pkts s' c = Some k \<and> unat (pk_size k) = length d \<and> pk_data k = (if d = [] then NULL else Some d)"
  using assms node_okD unfolding got_def by blast

lemma pack_uint64_not_Nil [simp]: "spawn_pack_uint64 v \<noteq> []"
  using length_pack_uint64 [of v] by (metis list.size(3) zero_neq_numeral)

lemma got_data: "got s c (t, src, d) a s' \<Longrightarrow> d \<noteq> [] \<Longrightarrow> \<exists>k. pkts s' c = Some k \<and> pk_data k = Some d"
  using got_node by fastforce

text \<open>
  C23. Refinement and liveness of the packet queue. Let the state represent packets that are queued, in
  the pipe or still to arrive. If some packet matches, \<open>packet_read\<close> returns the first of them in the
  order of arrival, as a node that is no longer in the queue. The other packets keep their order, the
  linked list is intact again, and the writer count has gone down by the disconnect messages passed.
\<close>

theorem fifo_packet_read:
  assumes "fifo_state s a" "stream a = xs @ p # ys" "\<forall>x\<in>set xs. \<not> pkt_match type src x" "pkt_match type src p"
  shows "\<exists>c s' a'. packet_read type src s = Some (c, s') \<and> map_option pkt_of (pkts s' c) = Some p
    \<and> fifo_state s' a' \<and> stream a' = xs @ ys
    \<and> g_writer_count s' - leaving a' = g_writer_count s - leaving a \<and> frame s' = frame s"
  using packet_read_stream [OF assms] assms(1) by (fastforce simp: got_def fifo_state_def rep_def)

text \<open>A process with a name, whose queue is empty and whose pipe will carry the given batches of packets.\<close>

definition proc_state :: "string \<Rightarrow> u64 \<Rightarrow> pkt list list \<Rightarrow> fifo" where
  "proc_state name n later = fifo_start\<lparr>g_name := Some name, g_path := Some (drop 5 name), g_fd := 4,
     g_open_count := 1, g_next_id := n, files := [drop 5 name], pipe_later := map wire later\<rparr>"

abbreviation proc_queue :: "pkt list list \<Rightarrow> aqueue" where
  "proc_queue later \<equiv> \<lparr>aq_queue = [], aq_now = [], aq_later = later, aq_writers = 0\<rparr>"

lemma proc_state: "list_all (list_all pkt_fits) later \<Longrightarrow> fifo_state (proc_state name n later) (proc_queue later)"
  unfolding fifo_state_def
  by (rule exI [of _ "[]"]) (simp add: rep_def queue_rep_def proc_state_def fifo_start_def)

theorem fifo_packet_read_witness:
  "\<exists>c s' a'. packet_read PKT_MESSAGE 2 (proc_state ''FIFO:/tmp/fifo.1'' 3 [[(PKT_MESSAGE, 1, ''a'')], [(PKT_DISCONNECT, 1, []), (PKT_MESSAGE, 2, ''b'')]]) = Some (c, s')
     \<and> map_option pkt_of (pkts s' c) = Some (PKT_MESSAGE, 2, ''b'') \<and> fifo_state s' a' \<and> stream a' = [(PKT_MESSAGE, 1, ''a'')]
     \<and> g_writer_count s' - leaving a' = - 1"
  using fifo_packet_read [OF proc_state [of "[[(PKT_MESSAGE, 1, ''a'')], [(PKT_DISCONNECT, 1, []), (PKT_MESSAGE, 2, ''b'')]]" "''FIFO:/tmp/fifo.1''" 3],
      of "[(PKT_MESSAGE, 1, ''a'')]" "(PKT_MESSAGE, 2, ''b'')" "[]" PKT_MESSAGE 2]
  by (auto simp: pkt_fits_def stream_def leaving_def pkt_match_def is_disconnect_def pkt_types proc_state_def fifo_start_def)

section \<open>Messages\<close>

text \<open>
  What POSIX says of a blocking write of at most \<open>PIPE_BUF\<close> bytes to a pipe: it writes all bytes at
  once or is interrupted, and is not interrupted forever.
\<close>

definition pipe_writes :: "fifo_os \<Rightarrow> int \<Rightarrow> bool" where
  "pipe_writes os fd \<longleftrightarrow> (\<forall>bs n. bs \<noteq> [] \<longrightarrow> length bs \<le> PIPE_BUF \<longrightarrow>
     os_write os n fd bs \<in> {Wrote (length bs), WErr EINTR, WErr EAGAIN} \<and> (\<exists>m. n \<le> m \<and> os_write os m fd bs = Wrote (length bs)))"

lemma reliable_write_fifo_all:
  assumes "pipe_writes os fd" "bs \<noteq> []" "length bs \<le> PIPE_BUF"
  shows "\<exists>c. reliable_write_fifo (pipe_write os fd) bs s = Some (SPAWN_SUCCESS, s\<lparr>wr_calls := c, wrote := wrote s @ [(fd, bs)]\<rparr>)"
proof -
  obtain m where "wr_calls s \<le> m" "os_write os m fd bs = Wrote (length bs)"
    using assms unfolding pipe_writes_def by blast
  then show ?thesis
  proof (induction "m - wr_calls s" arbitrary: s)
    case 0
    then have "pipe_write os fd bs s = (Wrote (length bs), s\<lparr>wr_calls := Suc (wr_calls s), wrote := wrote s @ [(fd, bs)]\<rparr>)"
      by (simp add: pipe_write_def)
    then show ?case using assms(2)
      by (subst reliable_write_fifo.simps, simp) (subst reliable_write_fifo.simps, auto)
  next
    case (Suc x)
    have "os_write os (wr_calls s) fd bs \<in> {Wrote (length bs), WErr EINTR, WErr EAGAIN}"
      using assms unfolding pipe_writes_def by blast
    then consider "pipe_write os fd bs s = (Wrote (length bs), s\<lparr>wr_calls := Suc (wr_calls s), wrote := wrote s @ [(fd, bs)]\<rparr>)"
      | e where "pipe_write os fd bs s = (WErr e, s\<lparr>wr_calls := Suc (wr_calls s)\<rparr>)" "e = EINTR \<or> e = EAGAIN"
      by (auto simp: pipe_write_def)
    then show ?case
    proof cases
      case 1
      then show ?thesis using assms(2)
        by (subst reliable_write_fifo.simps, simp) (subst reliable_write_fifo.simps, auto)
    next
      case 2
      have "x = m - wr_calls (s\<lparr>wr_calls := Suc (wr_calls s)\<rparr>)" "wr_calls (s\<lparr>wr_calls := Suc (wr_calls s)\<rparr>) \<le> m"
        using Suc.hyps(2) by simp_all
      from Suc.hyps(1) [OF this Suc.prems(2)] show ?thesis
        using 2 assms(2) by (subst reliable_write_fifo.simps) simp
    qed
  qed
qed

text \<open>A message is written as packets of at most \<open>PIPE_BUF\<close> bytes that carry it in order.\<close>

lemma write_loop_pieces:
  assumes "pipe_writes os fd"
  shows "\<exists>s' ds. write_loop os fd wid msg s = Some s' \<and> concat ds = msg
    \<and> (\<forall>d\<in>set ds. d \<noteq> [] \<and> length (packet_bytes (PKT_MESSAGE, id_u64 wid, d)) \<le> PIPE_BUF)
    \<and> wrote s' = wrote s @ map (\<lambda>d. (fd, packet_bytes (PKT_MESSAGE, id_u64 wid, d))) ds"
proof (induction "length msg" arbitrary: msg s rule: less_induct)
  case less
  show ?case
  proof (cases "msg = []")
    case False
    define n where "n = (if length msg > PIPE_BUF - HDR_SIZE then PIPE_BUF - HDR_SIZE else length msg)"
    let ?p = "packet_bytes (PKT_MESSAGE, id_u64 wid, take n msg)"
    have n: "0 < n" "n \<le> length msg" "n \<le> PIPE_BUF - HDR_SIZE" using False by (auto simp: n_def PIPE_BUF_def HDR_SIZE_def)
    have p: "?p = packet_header PKT_MESSAGE (id_u64 wid) (word_of_nat n) @ take n msg" using n(2) by (simp add: packet_bytes_def)
    have l: "length ?p \<le> PIPE_BUF" "?p \<noteq> []" using n by (auto simp: p PIPE_BUF_def HDR_SIZE_def)
    obtain c where w: "reliable_write_fifo (pipe_write os fd) ?p s = Some (SPAWN_SUCCESS, s\<lparr>wr_calls := c, wrote := wrote s @ [(fd, ?p)]\<rparr>)"
      using reliable_write_fifo_all [OF assms l(2,1)] by blast
    let ?s = "s\<lparr>wr_calls := c, wrote := wrote s @ [(fd, ?p)]\<rparr>"
    have "write_loop os fd wid msg s = write_loop os fd wid (drop n msg) ?s"
      using w False by (subst write_loop.simps) (simp add: p Let_def flip: n_def)
    moreover obtain s' ds where "write_loop os fd wid (drop n msg) ?s = Some s'" "concat ds = drop n msg"
        "\<forall>d\<in>set ds. d \<noteq> [] \<and> length (packet_bytes (PKT_MESSAGE, id_u64 wid, d)) \<le> PIPE_BUF"
        "wrote s' = wrote ?s @ map (\<lambda>d. (fd, packet_bytes (PKT_MESSAGE, id_u64 wid, d))) ds"
      using less [of "drop n msg" ?s] n(1) False by auto
    ultimately show ?thesis using l(1) n(1) False by (intro exI [of _ s'] exI [of _ "take n msg # ds"]) auto
  qed (simp add: write_loop.simps)
qed

lemma filter_first:
  assumes "filter P zs = p # qs"
  obtains xs ys where "zs = xs @ p # ys" "\<forall>x\<in>set xs. \<not> P x" "P p" "filter P ys = qs"
  using assms by (auto simp: filter_eq_Cons_iff)

lemma read_loop_pieces:
  assumes "fifo_state s a" "filter (pkt_match PKT_MESSAGE (id_u64 rid)) (stream a) = map (\<lambda>d. (PKT_MESSAGE, id_u64 rid, d)) ds @ rest"
    and "\<forall>d\<in>set ds. d \<noteq> []" "sz = length buf + length (concat ds)"
  shows "\<exists>s' a'. read_loop rid sz buf s = Some (SPAWN_SUCCESS, buf @ concat ds, s') \<and> fifo_state s' a'
    \<and> filter (pkt_match PKT_MESSAGE (id_u64 rid)) (stream a') = rest \<and> frame s' = frame s
    \<and> filter (\<lambda>x. \<not> pkt_match PKT_MESSAGE (id_u64 rid) x) (stream a') = filter (\<lambda>x. \<not> pkt_match PKT_MESSAGE (id_u64 rid) x) (stream a)"
  using assms
proof (induction ds arbitrary: s a buf)
  case Nil
  then show ?case by (auto simp: read_loop.simps)
next
  case (Cons d ds)
  let ?P = "pkt_match PKT_MESSAGE (id_u64 rid)" and ?p = "(PKT_MESSAGE, id_u64 rid, d)"
  obtain xs ys where sp: "stream a = xs @ ?p # ys" "\<forall>x\<in>set xs. \<not> ?P x" "?P ?p"
      "filter ?P ys = map (\<lambda>d. (PKT_MESSAGE, id_u64 rid, d)) ds @ rest"
    using Cons.prems(2) by (auto elim: filter_first)
  obtain c s1 a1 where r: "packet_read PKT_MESSAGE (id_u64 rid) s = Some (c, s1)" "got s c ?p a1 s1" "stream a1 = xs @ ys"
    using packet_read_stream [OF Cons.prems(1) sp(1-3)] by blast
  let ?s = "snd (packet_free (Some (Some c)) s1)"
  obtain k where k: "pkts s1 c = Some k" "unat (pk_size k) = length d" "pk_data k = Some d"
    using got_node [OF r(2)] Cons.prems(3) by auto
  have "read_loop rid sz buf s = read_loop rid sz (buf @ d) ?s"
    using Cons.prems(3,4) k r(1) by (subst read_loop.simps) simp
  moreover have "filter ?P (stream a1) = map (\<lambda>d. (PKT_MESSAGE, id_u64 rid, d)) ds @ rest"
    using sp r(3) by simp
  moreover have "filter (\<lambda>x. \<not> ?P x) (stream a1) = filter (\<lambda>x. \<not> ?P x) (stream a)" using sp(1,3) r(3) by simp
  ultimately show ?case
    using Cons.IH [OF got_free(1) [OF r(2)], of "buf @ d"] Cons.prems(3,4) got_free(2) [OF r(2)] by simp
qed

text \<open>
  C22. A message survives the transport. Writing succeeds, whatever interruptions occur, by writing
  packets of at most \<open>PIPE_BUF\<close> bytes, so that each of them is atomic. When the packets with the
  channel's id in the reader's stream start with these, in order and with any packets of
  other channels between them, then a read of the message's size returns the message. It leaves what
  follows on the channel and all packets of the other channels as they were.
\<close>

theorem fifo_message:
  assumes "pipe_writes os (writefd sd)" "ch_data sch = Some sd" "ch_data rch = Some rd" "id_u64 (writeid sd) = id_u64 (readid rd)"
  shows "\<exists>s' ps. spawn_net_write_fifo os sch msg s = Some (SPAWN_SUCCESS, s')
    \<and> wrote s' = wrote s @ map (\<lambda>p. (writefd sd, packet_bytes p)) ps \<and> (\<forall>p\<in>set ps. length (packet_bytes p) \<le> PIPE_BUF)
    \<and> (\<forall>t a rest. fifo_state t a \<longrightarrow> filter (pkt_match PKT_MESSAGE (id_u64 (readid rd))) (stream a) = ps @ rest \<longrightarrow>
        (\<exists>t' a'. spawn_net_read_fifo rch (length msg) t = Some (SPAWN_SUCCESS, msg, t') \<and> fifo_state t' a'
          \<and> filter (pkt_match PKT_MESSAGE (id_u64 (readid rd))) (stream a') = rest
          \<and> filter (\<lambda>x. \<not> pkt_match PKT_MESSAGE (id_u64 (readid rd)) x) (stream a')
            = filter (\<lambda>x. \<not> pkt_match PKT_MESSAGE (id_u64 (readid rd)) x) (stream a)))"
proof -
  obtain s' ds where w: "write_loop os (writefd sd) (writeid sd) msg s = Some s'" "concat ds = msg"
      "\<forall>d\<in>set ds. d \<noteq> [] \<and> length (packet_bytes (PKT_MESSAGE, id_u64 (writeid sd), d)) \<le> PIPE_BUF"
      "wrote s' = wrote s @ map (\<lambda>d. (writefd sd, packet_bytes (PKT_MESSAGE, id_u64 (writeid sd), d))) ds"
    using write_loop_pieces [OF assms(1)] by blast
  let ?ps = "map (\<lambda>d. (PKT_MESSAGE, id_u64 (readid rd), d)) ds"
  show ?thesis
  proof (rule exI [of _ s'], rule exI [of _ ?ps], intro conjI allI impI)
    show "spawn_net_write_fifo os sch msg s = Some (SPAWN_SUCCESS, s')" using assms(2) w(1) by (simp add: spawn_net_write_fifo_def)
    show "wrote s' = wrote s @ map (\<lambda>p. (writefd sd, packet_bytes p)) ?ps" "\<forall>p\<in>set ?ps. length (packet_bytes p) \<le> PIPE_BUF"
      using w(3,4) assms(4) by auto
    fix t a rest
    assume "fifo_state t a" "filter (pkt_match PKT_MESSAGE (id_u64 (readid rd))) (stream a) = ?ps @ rest"
    from read_loop_pieces [OF this, of "length msg" "[]"] w(2,3)
    show "\<exists>t' a'. spawn_net_read_fifo rch (length msg) t = Some (SPAWN_SUCCESS, msg, t') \<and> fifo_state t' a'
          \<and> filter (pkt_match PKT_MESSAGE (id_u64 (readid rd))) (stream a') = rest
          \<and> filter (\<lambda>x. \<not> pkt_match PKT_MESSAGE (id_u64 (readid rd)) x) (stream a')
            = filter (\<lambda>x. \<not> pkt_match PKT_MESSAGE (id_u64 (readid rd)) x) (stream a)"
      using assms(3) by (auto simp: spawn_net_read_fifo_def)
  qed
qed

text \<open>A kernel that interrupts every second write.\<close>

definition sample_os :: fifo_os where
  "sample_os = \<lparr>os_pid = 17, os_mknod = (\<lambda>_. 0), os_open_rd = (\<lambda>_. 4), os_open_wr = (\<lambda>_. 5),
     os_write = (\<lambda>n fd bs. if even n then WErr EINTR else Wrote (length bs))\<rparr>"

lemma sample_os_writes: "pipe_writes sample_os fd"
proof -
  have "\<exists>m\<ge>n. odd m" for n :: nat by (rule exI [of _ "2 * n + 1"]) simp
  then show ?thesis unfolding pipe_writes_def by (auto simp: sample_os_def)
qed

definition sample_chdata :: "int \<Rightarrow> int \<Rightarrow> spawn_chdata" where
  "sample_chdata rid wid = \<lparr>readfd = 4, readid = rid, writefd = 5, writeid = wid, readname = None, writename = None\<rparr>"

definition sample_channel :: "int \<Rightarrow> int \<Rightarrow> spawn_chdata spawn_net_channel" where
  "sample_channel rid wid = \<lparr>ch_type = SPAWN_NET_TYPE_FIFO, ch_name = None, ch_data = Some (sample_chdata rid wid)\<rparr>"

lemma sample_channel_data [simp]: "ch_data (sample_channel r w) = Some (sample_chdata r w)" "readid (sample_chdata r w) = r"
  "writeid (sample_chdata r w) = w" "writefd (sample_chdata r w) = 5"
  by (simp_all add: sample_channel_def sample_chdata_def)

theorem fifo_message_witness:
  "\<exists>s' ps. spawn_net_write_fifo sample_os (sample_channel 1 2) ''hello'' fifo_start = Some (SPAWN_SUCCESS, s')
    \<and> wrote s' = map (\<lambda>p. (5, packet_bytes p)) ps \<and> (\<forall>p\<in>set ps. length (packet_bytes p) \<le> PIPE_BUF)
    \<and> (\<forall>t a rest. fifo_state t a \<longrightarrow> filter (pkt_match PKT_MESSAGE (id_u64 2)) (stream a) = ps @ rest \<longrightarrow>
        (\<exists>t' a'. spawn_net_read_fifo (sample_channel 2 1) (length ''hello'') t = Some (SPAWN_SUCCESS, ''hello'', t') \<and> fifo_state t' a'
          \<and> filter (pkt_match PKT_MESSAGE (id_u64 2)) (stream a') = rest
          \<and> filter (\<lambda>x. \<not> pkt_match PKT_MESSAGE (id_u64 2) x) (stream a') = filter (\<lambda>x. \<not> pkt_match PKT_MESSAGE (id_u64 2) x) (stream a)))"
proof -
  have "wrote fifo_start = []" by (simp add: fifo_start_def)
  then show ?thesis
    using fifo_message [of sample_os "sample_chdata 1 2" "sample_channel 1 2" "sample_channel 2 1" "sample_chdata 2 1" "''hello''" fifo_start]
    by (simp add: sample_os_writes)
qed

section \<open>Connections\<close>

definition connect_packet :: "u64 \<Rightarrow> string \<Rightarrow> pkt" where
  "connect_packet rid name = (PKT_CONNECT, - 1, spawn_pack_uint64 rid @ mem_str name)"

definition accept_packet :: "u64 \<Rightarrow> u64 \<Rightarrow> pkt" where
  "accept_packet src rid = (PKT_ACCEPT, src, spawn_pack_uint64 rid)"

text \<open>The first packet of the stream that matches.\<close>

definition first_match :: "u64 \<Rightarrow> u64 \<Rightarrow> aqueue \<Rightarrow> pkt option" where
  "first_match type src a = List.find (pkt_match type src) (stream a)"

lemma first_matchE:
  assumes "first_match type src a = Some p"
  obtains xs ys where "stream a = xs @ p # ys" "\<forall>x\<in>set xs. \<not> pkt_match type src x" "pkt_match type src p"
proof -
  obtain i where i: "i < length (stream a)" "pkt_match type src (stream a ! i)" "p = stream a ! i"
      "\<forall>j<i. \<not> pkt_match type src (stream a ! j)"
    using assms by (auto simp: first_match_def find_Some_iff)
  have "stream a = take i (stream a) @ p # drop (Suc i) (stream a)" using i(1,3) id_take_nth_drop by blast
  moreover have "\<not> pkt_match type src x" if x: "x \<in> set (take i (stream a))" for x
  proof -
    obtain j where "j < length (take i (stream a))" "x = take i (stream a) ! j" using x unfolding in_set_conv_nth by blast
    then have "j < i" "x = stream a ! j" by simp_all
    then show ?thesis using i(4) by simp
  qed
  ultimately show ?thesis using i(2,3) by (intro that [of "take i (stream a)" "drop (Suc i) (stream a)"]) auto
qed

lemma fifo_state_upd:
  "fifo_state s a \<Longrightarrow> fifo_state (s\<lparr>g_next_id := i, wr_calls := n, wrote := w\<rparr>) a"
  "fifo_state s a \<Longrightarrow> fifo_state (s\<lparr>g_writer_count := g_writer_count s + 1\<rparr>) (a\<lparr>aq_writers := aq_writers a + 1\<rparr>)"
  by (auto simp: fifo_state_def rep_def queue_rep_def)

lemma connect_runs:
  assumes "fifo_state s a" "open_for_write os name = fd" "0 \<le> fd" "pipe_writes os fd"
    and "g_name s = Some own" "HDR_SIZE + 8 + length own + 1 \<le> PIPE_BUF"
    and "first_match PKT_ACCEPT (g_next_id s) a = Some (accept_packet (g_next_id s) wid)"
  shows "\<exists>s' a' ch. spawn_net_connect_fifo os name s = Some (Some ch, s') \<and> fifo_state s' a'
    \<and> ch_data ch = Some \<lparr>readfd = g_fd s, readid = id_int (g_next_id s), writefd = fd, writeid = id_int wid,
        readname = Some own, writename = Some name\<rparr>
    \<and> wrote s' = wrote s @ [(fd, packet_bytes (connect_packet (g_next_id s) own))]
    \<and> g_next_id s' = g_next_id s + 1 \<and> g_writer_count s' - leaving a' = g_writer_count s + 1 - leaving a"
proof -
  let ?i = "g_next_id s" and ?p = "packet_bytes (connect_packet (g_next_id s) own)"
  have buf: "packet_header PKT_CONNECT (- 1) (8 + str_size own) @ spawn_pack_uint64 ?i @ mem_str own = ?p"
    by (simp add: packet_bytes_def connect_packet_def str_size_def mem_str_def)
  have l: "?p \<noteq> []" "length ?p \<le> PIPE_BUF"
    using assms(6) by (auto simp: packet_bytes_def connect_packet_def mem_str_def HDR_SIZE_def)
  obtain n where w: "reliable_write_fifo (pipe_write os fd) ?p (s\<lparr>g_next_id := ?i + 1\<rparr>)
      = Some (SPAWN_SUCCESS, s\<lparr>g_next_id := ?i + 1, wr_calls := n, wrote := wrote s @ [(fd, ?p)]\<rparr>)"
    using reliable_write_fifo_all [OF assms(4) l, of "s\<lparr>g_next_id := ?i + 1\<rparr>"] by auto
  let ?s = "s\<lparr>g_next_id := ?i + 1, wr_calls := n, wrote := wrote s @ [(fd, ?p)]\<rparr>"
  obtain c s1 a1 where r: "packet_read PKT_ACCEPT ?i ?s = Some (c, s1)" "got ?s c (accept_packet ?i wid) a1 s1"
      "aq_writers a1 - leaving a1 = aq_writers a - leaving a"
    using first_matchE [OF assms(7)] packet_read_stream [OF fifo_state_upd(1) [OF assms(1)]] by metis
  obtain k where k: "pkts s1 c = Some k" "pk_data k = Some (spawn_pack_uint64 wid)"
    using got_data [OF r(2) [unfolded accept_packet_def]] by auto
  let ?t = "snd (packet_free (Some (Some c)) s1)"
  note t = got_free [OF r(2)]
  have e: "g_writer_count s = aq_writers a" "g_writer_count ?t = aq_writers a1" using assms(1) t(1) by (auto simp: fifo_state_def rep_def)
  have "spawn_net_connect_fifo os name s
      = Some (Some (new_channel name ?i fd wid (?t\<lparr>g_writer_count := g_writer_count ?t + 1\<rparr>)), ?t\<lparr>g_writer_count := g_writer_count ?t + 1\<rparr>)"
    using assms(2,3,5) w r(1) k by (simp add: spawn_net_connect_fifo_def buf Let_def)
  then show ?thesis using fifo_state_upd(2) [OF t(1)] t(2) r(3) e assms(5)
    by (auto simp: new_channel_def frame_def intro!: exI)
qed

lemma accept_runs:
  assumes "fifo_state s a" "ep_data ep \<noteq> None" "open_for_write os name = fd" "0 \<le> fd" "pipe_writes os fd"
    and "g_name s = Some own" "cstring name"
    and "first_match PKT_CONNECT (- 1) a = Some (connect_packet wid name)"
  shows "\<exists>s' a' ch. spawn_net_accept_fifo os ep s = Some (Some ch, s') \<and> fifo_state s' a'
    \<and> ch_data ch = Some \<lparr>readfd = g_fd s, readid = id_int (g_next_id s), writefd = fd, writeid = id_int wid,
        readname = Some own, writename = Some name\<rparr>
    \<and> wrote s' = wrote s @ [(fd, packet_bytes (accept_packet wid (g_next_id s)))]
    \<and> g_next_id s' = g_next_id s + 1 \<and> g_writer_count s' - leaving a' = g_writer_count s + 1 - leaving a"
proof -
  let ?i = "g_next_id s" and ?p = "packet_bytes (accept_packet wid (g_next_id s))"
  obtain c s1 a1 where r: "packet_read PKT_CONNECT (- 1) s = Some (c, s1)" "got s c (connect_packet wid name) a1 s1"
      "aq_writers a1 - leaving a1 = aq_writers a - leaving a"
    using first_matchE [OF assms(8)] packet_read_stream [OF assms(1)] by metis
  obtain k where k: "pkts s1 c = Some k" "pk_data k = Some (spawn_pack_uint64 wid @ mem_str name)"
    using got_data [OF r(2) [unfolded connect_packet_def]] by auto
  define t where "t = snd (packet_free (Some (Some c)) s1)"
  have t: "fifo_state t a1" "frame t = frame s" using got_free [OF r(2)] by (simp_all add: t_def)
  have l: "?p \<noteq> []" "length ?p \<le> PIPE_BUF" by (auto simp: packet_bytes_def accept_packet_def HDR_SIZE_def PIPE_BUF_def)
  obtain n where w: "reliable_write_fifo (pipe_write os fd) ?p (t\<lparr>g_next_id := ?i + 1\<rparr>)
      = Some (SPAWN_SUCCESS, t\<lparr>g_next_id := ?i + 1, wr_calls := n, wrote := wrote s @ [(fd, ?p)]\<rparr>)"
    using reliable_write_fifo_all [OF assms(5) l, of "t\<lparr>g_next_id := ?i + 1\<rparr>"] t(2) by (auto simp: frame_def)
  let ?s = "t\<lparr>g_next_id := ?i + 1, wr_calls := n, wrote := wrote s @ [(fd, ?p)]\<rparr>"
  have buf: "packet_header PKT_ACCEPT wid 8 @ spawn_pack_uint64 ?i = ?p" by (simp add: packet_bytes_def accept_packet_def)
  have nm: "load_str (mem_str name) = name" using load_mem_str [OF assms(7), of "[]"] by simp
  have e: "g_writer_count s = aq_writers a" "g_writer_count t = aq_writers a1" "g_next_id t = ?i"
    using assms(1) t by (auto simp: fifo_state_def rep_def frame_def)
  have "spawn_net_accept_fifo os ep s
      = Some (Some (new_channel name ?i fd wid (?s\<lparr>g_writer_count := g_writer_count ?s + 1\<rparr>)), ?s\<lparr>g_writer_count := g_writer_count ?s + 1\<rparr>)"
    using assms(2-4) w r(1) k e by (auto simp: spawn_net_accept_fifo_def buf nm Let_def simp flip: t_def)
  then show ?thesis using fifo_state_upd(2) [OF fifo_state_upd(1) [OF t(1)]] t(2) r(3) e assms(6)
    by (auto simp: new_channel_def frame_def intro!: exI)
qed

text \<open>
  C24. The handshake. A process connects and another one accepts, each with other packets in its
  stream; the connect request that arrives is the one that was written, and so is the reply. Then
  both calls return a channel, and each side's read id is the other side's write id, so that
  messages are matched to the channel. Both count one more writer of their pipe.
\<close>

theorem fifo_handshake:
  assumes "fifo_state s a" "g_name s = Some own" "HDR_SIZE + 8 + length own + 1 \<le> PIPE_BUF" "cstring own"
    and "open_for_write os name = fd" "0 \<le> fd" "pipe_writes os fd"
    and "fifo_state t b" "g_name t = Some name" "ep_data ep \<noteq> None"
    and "open_for_write os2 own = fd2" "0 \<le> fd2" "pipe_writes os2 fd2"
    and "first_match PKT_CONNECT (- 1) b = Some (connect_packet (g_next_id s) own)"
    and "first_match PKT_ACCEPT (g_next_id s) a = Some (accept_packet (g_next_id s) (g_next_id t))"
  shows "\<exists>ch s' a' ch2 t' b' d e. spawn_net_connect_fifo os name s = Some (Some ch, s') \<and> fifo_state s' a'
    \<and> spawn_net_accept_fifo os2 ep t = Some (Some ch2, t') \<and> fifo_state t' b'
    \<and> wrote s' = wrote s @ [(fd, packet_bytes (connect_packet (g_next_id s) own))]
    \<and> wrote t' = wrote t @ [(fd2, packet_bytes (accept_packet (g_next_id s) (g_next_id t)))]
    \<and> ch_data ch = Some d \<and> ch_data ch2 = Some e
    \<and> id_u64 (writeid d) = id_u64 (readid e) \<and> id_u64 (writeid e) = id_u64 (readid d) \<and> writefd d = fd \<and> writefd e = fd2
    \<and> g_writer_count s' - leaving a' = g_writer_count s + 1 - leaving a
    \<and> g_writer_count t' - leaving b' = g_writer_count t + 1 - leaving b"
proof -
  from connect_runs [OF assms(1,5,6,7,2,3,15)] accept_runs [OF assms(8,10,11,12,13,9,4,14)]
  show ?thesis by (elim exE conjE) (intro exI conjI, assumption+, simp_all)
qed

abbreviation sample_ep :: "int spawn_net_endpoint" where
  "sample_ep \<equiv> \<lparr>ep_type = SPAWN_NET_TYPE_FIFO, ep_name = Some ''FIFO:/tmp/b'', ep_data = Some 4\<rparr>"

theorem fifo_handshake_witness:
  "\<exists>ch s' ch2 t' d e. spawn_net_connect_fifo sample_os ''FIFO:/tmp/b'' (proc_state ''FIFO:/tmp/a'' 1 [[(PKT_MESSAGE, 9, ''x'')], [accept_packet 1 7]]) = Some (Some ch, s')
    \<and> spawn_net_accept_fifo sample_os sample_ep (proc_state ''FIFO:/tmp/b'' 7 [[connect_packet 1 ''FIFO:/tmp/a'']]) = Some (Some ch2, t')
    \<and> ch_data ch = Some d \<and> ch_data ch2 = Some e
    \<and> id_u64 (writeid d) = id_u64 (readid e) \<and> id_u64 (writeid e) = id_u64 (readid d)"
proof -
  let ?la = "[[(PKT_MESSAGE, 9, ''x'')], [accept_packet 1 7]]" and ?lb = "[[connect_packet 1 ''FIFO:/tmp/a'']]"
  let ?s = "proc_state ''FIFO:/tmp/a'' 1 ?la" and ?t = "proc_state ''FIFO:/tmp/b'' 7 ?lb"
  have 1: "fifo_state ?s (proc_queue ?la)" by (rule proc_state) (simp add: pkt_fits_def accept_packet_def)
  have 2: "fifo_state ?t (proc_queue ?lb)" by (rule proc_state) (simp add: pkt_fits_def connect_packet_def mem_str_def)
  have i: "g_next_id ?s = 1" "g_next_id ?t = 7" "g_name ?s = Some ''FIFO:/tmp/a''" "g_name ?t = Some ''FIFO:/tmp/b''"
    by (simp_all add: proc_state_def)
  have 3: "first_match PKT_ACCEPT 1 (proc_queue ?la) = Some (accept_packet 1 7)"
      "first_match PKT_CONNECT (- 1) (proc_queue ?lb) = Some (connect_packet 1 ''FIFO:/tmp/a'')"
    by (simp_all add: first_match_def stream_def pkt_match_def is_disconnect_def accept_packet_def connect_packet_def pkt_types)
  have 4: "open_for_write sample_os ''FIFO:/tmp/a'' = 5" "open_for_write sample_os ''FIFO:/tmp/b'' = 5"
    by (simp_all add: open_for_write_def has_prefix_def sample_os_def)
  show ?thesis
    using fifo_handshake [OF 1 i(3) _ _ 4(2) _ sample_os_writes 2 i(4) _ 4(1) _ sample_os_writes, of sample_ep] i(1,2) 3
    by (simp add: HDR_SIZE_def PIPE_BUF_def) blast
qed

section \<open>Closing\<close>

text \<open>Draining often enough passes all disconnect messages that come.\<close>

lemma wait_writers_returns:
  assumes "fifo_state s a" "aq_writers a \<le> leaving a"
  shows "\<exists>s' a'. wait_writers s = Some s' \<and> fifo_state s' a' \<and> aq_writers a' \<le> 0 \<and> frame s' = frame s \<and> stream a' = stream a"
  using assms
proof (induction "2 * length (aq_later a) + (if aq_now a = [] then 0 else 1)" arbitrary: s a rule: less_induct)
  case less
  have w: "g_writer_count s = aq_writers a" using less.prems(1) by (auto simp: fifo_state_def rep_def)
  show ?case
  proof (cases "aq_writers a > 0")
    case True
    obtain s1 where s1: "queue_progress s = Some s1" "fifo_state s1 (a_progress a)" "frame s1 = frame s"
      using less.prems(1) queue_progress_rep unfolding fifo_state_def by blast
    have "\<not> (aq_now a = [] \<and> aq_later a = [])" using True less.prems(2) by (auto simp: leaving_def)
    then have "2 * length (aq_later (a_progress a)) + (if aq_now (a_progress a) = [] then 0 else 1)
        < 2 * length (aq_later a) + (if aq_now a = [] then 0 else 1)"
      by (cases "aq_later a") (auto simp: a_progress_simps)
    moreover have "aq_writers (a_progress a) \<le> leaving (a_progress a)" using a_progress_stream(2) [of a] less.prems(2) by linarith
    ultimately obtain s' a' where "wait_writers s1 = Some s'" "fifo_state s' a'" "aq_writers a' \<le> 0" "frame s' = frame s1" "stream a' = stream a"
      using less.hyps [OF _ s1(2)] by auto
    then show ?thesis using True w s1 by (subst wait_writers.simps) auto
  next
    case False
    then show ?thesis using less.prems(1) w by (subst wait_writers.simps) auto
  qed
qed

text \<open>
  C25. The last close of the endpoint. If every writer that is counted sends its disconnect message
  then the close returns. It closes its descriptor first and removes the pipe file then, and at both moments no writer is connected any
  more; the names are released. An earlier close only lowers the reference count and leaves the pipe alone.
\<close>

theorem fifo_close_waits:
  assumes "fifo_state s a" "g_open_count s = n" "0 < n" "n = 1 \<longrightarrow> aq_writers a \<le> leaving a" "g_path s = Some path"
  shows "\<exists>s'. spawn_net_close_fifo (Some pep) s = Some (SPAWN_SUCCESS, Some NULL, s') \<and> g_open_count s' = n - 1
    \<and> (if n = 1 then g_name s' = NULL \<and> g_path s' = NULL \<and> files s' = remove1 path (files s)
          \<and> closed s' = (if g_fd s > 0 then [g_fd s] else []) @ closed s
          \<and> (\<exists>left\<le>0. own_calls s' = (Own_unlink path, left) # (if g_fd s > 0 then [(Own_close (g_fd s), left)] else []) @ own_calls s)
       else s' = s\<lparr>g_open_count := n - 1\<rparr>)"
proof (cases "n = 1")
  case True
  let ?s = "s\<lparr>g_open_count := 0\<rparr>"
  have "fifo_state ?s a" using assms(1) by (auto simp: fifo_state_def rep_def queue_rep_def)
  then obtain s' a' where s': "wait_writers ?s = Some s'" "fifo_state s' a'" "aq_writers a' \<le> 0" "frame s' = frame ?s"
    using wait_writers_returns assms(4) True by blast
  then have "g_writer_count s' \<le> 0" by (auto simp: fifo_state_def rep_def)
  then show ?thesis using s'(1,4) assms(2,5) True by (simp add: spawn_net_close_fifo_def frame_def)
next
  case False
  then show ?thesis using assms(2,3) by (simp add: spawn_net_close_fifo_def)
qed

theorem fifo_close_waits_witness:
  "\<exists>s' left. spawn_net_close_fifo (Some (Some sample_ep)) ((proc_state ''FIFO:/tmp/b'' 7 [[(PKT_DISCONNECT, 1, [])], [(PKT_DISCONNECT, 2, [])]])\<lparr>g_writer_count := 2\<rparr>)
     = Some (SPAWN_SUCCESS, Some NULL, s') \<and> g_open_count s' = 0 \<and> files s' = [] \<and> closed s' = [4]
     \<and> left \<le> 0 \<and> own_calls s' = [(Own_unlink ''/tmp/b'', left), (Own_close 4, left)]"
proof -
  let ?l = "[[(PKT_DISCONNECT, 1, [])], [(PKT_DISCONNECT, 2, [])]]"
  let ?s = "(proc_state ''FIFO:/tmp/b'' 7 ?l)\<lparr>g_writer_count := 2\<rparr>"
  have "fifo_state ?s ((proc_queue ?l)\<lparr>aq_writers := 2\<rparr>)"
    unfolding fifo_state_def by (rule exI [of _ "[]"]) (simp add: rep_def queue_rep_def proc_state_def fifo_start_def pkt_fits_def)
  then show ?thesis
    using fifo_close_waits [of ?s "(proc_queue ?l)\<lparr>aq_writers := 2\<rparr>" 1 "''/tmp/b''" "Some sample_ep"]
    by (auto simp: proc_state_def fifo_start_def leaving_def is_disconnect_def)
qed

section \<open>Defects\<close>

text \<open>
  C34. A read copies whole packets: if the next packet of the channel has more bytes than were asked
  for then the call still succeeds and stores all of them, past the end of the caller's buffer of
  \<open>sz\<close> bytes. A message must be read with the sizes it was written with, which a stream does not ask for.
\<close>

theorem fifo_read_overrun:
  assumes "fifo_state s a" "ch_data ch = Some cd" "0 < sz" "sz < length d"
    and "first_match PKT_MESSAGE (id_u64 (readid cd)) a = Some (PKT_MESSAGE, id_u64 (readid cd), d)"
  shows "\<exists>s'. spawn_net_read_fifo ch sz s = Some (SPAWN_SUCCESS, d, s')"
proof -
  obtain c s1 a1 where r: "packet_read PKT_MESSAGE (id_u64 (readid cd)) s = Some (c, s1)"
      "got s c (PKT_MESSAGE, id_u64 (readid cd), d) a1 s1"
    using first_matchE [OF assms(5)] packet_read_stream [OF assms(1)] by metis
  obtain k where k: "pkts s1 c = Some k" "unat (pk_size k) = length d" "pk_data k = Some d"
    using got_node [OF r(2)] assms(3,4) by (cases "d = []") auto
  have "0 < length d" using assms(3,4) by linarith
  then have "read_loop (readid cd) sz [] s = read_loop (readid cd) sz d (snd (packet_free (Some (Some c)) s1))"
    using assms(3) r(1) k by (subst read_loop.simps) simp
  also have "\<dots> = Some (SPAWN_SUCCESS, d, snd (packet_free (Some (Some c)) s1))"
    using assms(4) by (subst read_loop.simps) simp
  finally show ?thesis using assms(2) by (simp add: spawn_net_read_fifo_def)
qed

theorem fifo_read_overrun_witness:
  "\<exists>s'. spawn_net_read_fifo (sample_channel 2 1) 2 (proc_state ''FIFO:/tmp/a'' 1 [[(PKT_MESSAGE, 2, ''hello'')]]) = Some (SPAWN_SUCCESS, ''hello'', s')"
proof -
  let ?l = "[[(PKT_MESSAGE, 2, ''hello'')]]"
  have "fifo_state (proc_state ''FIFO:/tmp/a'' 1 ?l) (proc_queue ?l)" by (rule proc_state) (simp add: pkt_fits_def)
  moreover have "first_match PKT_MESSAGE 2 (proc_queue ?l) = Some (PKT_MESSAGE, 2, ''hello'')"
    by (simp add: first_match_def stream_def pkt_match_def is_disconnect_def pkt_types)
  ultimately show ?thesis
    using fifo_read_overrun [of "proc_state ''FIFO:/tmp/a'' 1 ?l" "proc_queue ?l" "sample_channel 2 1" "sample_chdata 2 1" 2 "''hello''"]
    by (simp add: id_u64_def)
qed

text \<open>
  C35. A write that the kernel refuses is reported as a success: \<open>spawn_net_write_fifo\<close> does not look at
  the result of \<open>reliable_write\<close>, so that with a broken pipe nothing is written and the caller is not told.
\<close>

theorem fifo_write_lost:
  assumes "\<And>n bs. os_write os n (writefd cd) bs = WErr EIO" "ch_data ch = Some cd"
  shows "\<exists>s'. spawn_net_write_fifo os ch msg s = Some (SPAWN_SUCCESS, s') \<and> wrote s' = wrote s"
proof -
  have w: "reliable_write_fifo (pipe_write os (writefd cd)) bs s
      = (if bs = [] then Some (SPAWN_SUCCESS, s) else Some (SPAWN_FAILURE, s\<lparr>wr_calls := Suc (wr_calls s)\<rparr>))" for bs s
    by (subst reliable_write_fifo.simps) (simp add: pipe_write_def assms(1))
  have "\<exists>s'. write_loop os (writefd cd) (writeid cd) msg s = Some s' \<and> wrote s' = wrote s"
  proof (induction "length msg" arbitrary: msg s rule: less_induct)
    case less
    have IH: "\<exists>s'. write_loop os (writefd cd) (writeid cd) (drop n msg) (s\<lparr>wr_calls := c\<rparr>) = Some s' \<and> wrote s' = wrote s"
      if "0 < n" "msg \<noteq> []" for n c
      using less [of "drop n msg" "s\<lparr>wr_calls := c\<rparr>"] that by simp
    show ?case
    proof (cases "msg = []")
      case False
      have "packet_header t i b @ d \<noteq> []" for t i b d by (simp add: packet_header_def)
      then show ?thesis using IH [OF _ False] False by (subst write_loop.simps) (simp add: Let_def w HDR_SIZE_def PIPE_BUF_def)
    qed (simp add: write_loop.simps)
  qed
  then show ?thesis using assms(2) by (auto simp: spawn_net_write_fifo_def)
qed

theorem fifo_write_lost_witness:
  "\<exists>s'. spawn_net_write_fifo (sample_os\<lparr>os_write := \<lambda>n fd bs. WErr EIO\<rparr>) (sample_channel 2 1) ''hello'' fifo_start = Some (SPAWN_SUCCESS, s')
     \<and> wrote s' = []"
  using fifo_write_lost [of "sample_os\<lparr>os_write := \<lambda>n fd bs. WErr EIO\<rparr>" "sample_chdata 2 1" "sample_channel 2 1" "''hello''" fifo_start]
  by (simp add: fifo_start_def)

text \<open>The branch that should retry an interrupted read is never reached.\<close>

lemma fifo_read_interrupted:
  assumes "rd (sz - length buf) w = (RErr EINTR, w')" "length buf < sz"
  shows "reliable_read_fifo rd sz buf w = (SPAWN_FAILURE, Some EINTR, buf, w')"
  using assms by (subst reliable_read_fifo.simps) simp

end
