(* ===== verification/Net_Dispatch_Spec.thy ===== *)
theory Net_Dispatch_Spec
  imports Net_Dispatch Tcp_Spec Fifo_Spec
begin

text \<open>
  What the front end guarantees, for whichever transport a channel has: messages are read as they
  were queued, the name of an endpoint leads back to its own transport, and entries of different
  types are refused by \<open>spawn_net_wait\<close>.
\<close>

section \<open>Reading messages\<close>

definition tcp_queued ::
  "('w, 'ip) tcp_os \<Rightarrow> ('w \<Rightarrow> byte list) \<Rightarrow> ('w \<Rightarrow> 'y) \<Rightarrow> int spawn_net_channel \<Rightarrow> byte list list \<Rightarrow> 'w \<Rightarrow> bool" where
  "tcp_queued os inp rest ch ms w \<longleftrightarrow> (\<exists>fd t. ch_data ch = Some fd \<and> 0 < fd \<and> readable (sys_read os fd) inp rest \<and> inp w = concat ms @ t)"

interpretation tcp_reader: message_reader "spawn_net_read_tcp os ch" "tcp_queued os inp rest ch" for os inp rest ch
proof
  fix m ms w
  assume "tcp_queued os inp rest ch (m # ms) w"
  then obtain fd t where q: "ch_data ch = Some fd" "0 < fd" "readable (sys_read os fd) inp rest" "inp w = m @ concat ms @ t"
    by (auto simp: tcp_queued_def)
  obtain w' where "reliable_read_tcp (sys_read os fd) (length m) [] w = (SPAWN_SUCCESS, m, w')" "inp w' = concat ms @ t"
    using reliable_read_tcp_reads [OF q(3), of "length m" "[]" w] q(4) by auto
  then show "\<exists>w'. spawn_net_read_tcp os ch (length m) w = Some (SPAWN_SUCCESS, m, w') \<and> tcp_queued os inp rest ch ms w'"
    using q by (auto simp: spawn_net_read_tcp_def tcp_queued_def)
qed

definition fifo_queued :: "spawn_chdata spawn_net_channel \<Rightarrow> byte list list \<Rightarrow> fifo \<Rightarrow> bool" where
  "fifo_queued ch ms s \<longleftrightarrow> (\<exists>cd a dss tail. ch_data ch = Some cd \<and> fifo_state s a \<and> ms = map concat dss
     \<and> (\<forall>ds\<in>set dss. \<forall>d\<in>set ds. d \<noteq> [])
     \<and> filter (pkt_match PKT_MESSAGE (id_u64 (readid cd))) (stream a)
       = map (\<lambda>d. (PKT_MESSAGE, id_u64 (readid cd), d)) (concat dss) @ tail)"

interpretation fifo_reader: message_reader "spawn_net_read_fifo ch" "fifo_queued ch" for ch
proof
  fix m ms s
  assume "fifo_queued ch (m # ms) s"
  then obtain cd a ds dss tail where q: "ch_data ch = Some cd" "fifo_state s a" "m = concat ds" "ms = map concat dss"
      "\<forall>d\<in>set ds. d \<noteq> []" "\<forall>ds\<in>set dss. \<forall>d\<in>set ds. d \<noteq> []"
      "filter (pkt_match PKT_MESSAGE (id_u64 (readid cd))) (stream a)
       = map (\<lambda>d. (PKT_MESSAGE, id_u64 (readid cd), d)) ds @ map (\<lambda>d. (PKT_MESSAGE, id_u64 (readid cd), d)) (concat dss) @ tail"
    unfolding fifo_queued_def by (auto simp: Cons_eq_map_conv)
  from read_loop_pieces [OF q(2,7,5), of "length m" "[]"] q(3)
  obtain s' a' where "read_loop (readid cd) (length m) [] s = Some (SPAWN_SUCCESS, m, s')" "fifo_state s' a'"
      "filter (pkt_match PKT_MESSAGE (id_u64 (readid cd))) (stream a') = map (\<lambda>d. (PKT_MESSAGE, id_u64 (readid cd), d)) (concat dss) @ tail"
    by auto
  then show "\<exists>s'. spawn_net_read_fifo ch (length m) s = Some (SPAWN_SUCCESS, m, s') \<and> fifo_queued ch ms s'"
    using q(1,4,6) unfolding spawn_net_read_fifo_def fifo_queued_def by auto
qed

text \<open>Messages queued on a channel of either transport.\<close>

definition net_queued ::
  "('w, 'ip, 'x, 'i, 'j) net_os \<Rightarrow> ('w \<Rightarrow> byte list) \<Rightarrow> ('w \<Rightarrow> 'y) \<Rightarrow> 'j channel \<Rightarrow> byte list list \<Rightarrow> ('w, 'x) net_world \<Rightarrow> bool" where
  "net_queued os inp rest ch ms w \<longleftrightarrow>
     (case ch_type ch of
        SPAWN_NET_TYPE_TCP \<Rightarrow> (\<exists>c. ch_cast as_ch_tcp ch = Some c \<and> tcp_queued (os_tcp os) inp rest c ms (w_tcp w))
      | SPAWN_NET_TYPE_FIFO \<Rightarrow> (\<exists>c. ch_cast as_ch_fifo ch = Some c \<and> fifo_queued c ms (w_fifo w))
      | _ \<Rightarrow> False)"

interpretation net_reader: message_reader "spawn_net_read os (Some ch)" "net_queued os inp rest ch" for os inp rest ch
proof
  fix m ms w
  assume "net_queued os inp rest ch (m # ms) w"
  then consider c where "ch_type ch = SPAWN_NET_TYPE_TCP" "ch_cast as_ch_tcp ch = Some c" "tcp_queued (os_tcp os) inp rest c (m # ms) (w_tcp w)"
    | c where "ch_type ch = SPAWN_NET_TYPE_FIFO" "ch_cast as_ch_fifo ch = Some c" "fifo_queued c (m # ms) (w_fifo w)"
    by (auto simp: net_queued_def split: spawn_net_type.splits)
  then show "\<exists>w'. spawn_net_read os (Some ch) (length m) w = Some (SPAWN_SUCCESS, m, w') \<and> net_queued os inp rest ch ms w'"
  proof cases
    case 1
    obtain v where "spawn_net_read_tcp (os_tcp os) c (length m) (w_tcp w) = Some (SPAWN_SUCCESS, m, v)" "tcp_queued (os_tcp os) inp rest c ms v"
      using tcp_reader.read_next [OF 1(3)] by blast
    then show ?thesis using 1(1,2) by (simp add: spawn_net_read_def select_type_def net_queued_def)
  next
    case 2
    obtain v where "spawn_net_read_fifo c (length m) (w_fifo w) = Some (SPAWN_SUCCESS, m, v)" "fifo_queued c ms v"
      using fifo_reader.read_next [OF 2(3)] by blast
    then show ?thesis using 2(1,2) by (simp add: spawn_net_read_def select_type_def net_queued_def)
  qed
qed

text \<open>
  C26. Whichever transport a channel has, \<open>spawn_net_read\<close> returns the messages that are queued on the
  channel in their order, when each is read with its own size: over TCP whatever parts the kernel
  delivers, over a FIFO whatever packets of other channels come in between.
\<close>

theorem net_read_messages:
  assumes "net_queued os inp rest ch (ms @ ns) w"
  shows "\<exists>w'. read_seq (spawn_net_read os (Some ch)) (map length ms) w = Some (ms, w') \<and> net_queued os inp rest ch ns w'"
  by (rule net_reader.read_messages [OF assms])

definition sample_net :: "(sim, string, unit, unit, unit) net_os" where
  "sample_net = \<lparr>os_tcp = sim_os, os_junk = [], os_fifo = sample_os, os_ib = None\<rparr>"

definition sample_world :: "(sim, unit) net_world" where
  "sample_world = \<lparr>w_tcp = sim_start\<lparr>sim_in := ''spawn net''\<rparr>, w_fifo = fifo_start, w_ib = ()\<rparr>"

abbreviation tcp_chan :: "unit channel" where
  "tcp_chan \<equiv> \<lparr>ch_type = SPAWN_NET_TYPE_TCP, ch_name = None, ch_data = Some (Ch_tcp 3)\<rparr>"

theorem net_read_messages_witness:
  "\<exists>w'. read_seq (spawn_net_read sample_net (Some tcp_chan)) [5, 1] sample_world = Some ([''spawn'', '' ''], w')
     \<and> net_queued sample_net sim_in sim_fds tcp_chan [''net''] w'"
proof -
  have "net_queued sample_net sim_in sim_fds tcp_chan ([''spawn'', '' ''] @ [''net'']) sample_world"
    using sim_stream by (simp add: net_queued_def ch_cast_def tcp_queued_def sample_net_def sample_world_def)
  from net_read_messages [OF this] show ?thesis by (simp add: numeral_eq_Suc)
qed

section \<open>Names and types\<close>

lemma fifo_not_tcp: "has_prefix ''FIFO:'' n \<Longrightarrow> \<not> has_prefix ''TCP:'' n"
  by (cases n) (auto simp: has_prefix_def)

text \<open>
  C27. The name of an endpoint that was opened leads back to its own transport: the type inferred from
  the name is the type asked for, so that \<open>spawn_net_connect\<close> of another process selects the
  transport that listens. The name of the process's FIFO, if it exists already, is one this transport made.
\<close>

theorem net_open_name:
  assumes "spawn_net_open os type w = (Some ep, w')" "type = SPAWN_NET_TYPE_TCP \<or> type = SPAWN_NET_TYPE_FIFO"
    and "\<And>n. g_name (w_fifo w) = Some n \<Longrightarrow> has_prefix ''FIFO:'' n"
  shows "spawn_net_get_type (Some ep) = type \<and> spawn_net_infer_type (spawn_net_name (Some ep)) = type
    \<and> g_name (w_fifo w') = (if type = SPAWN_NET_TYPE_FIFO then ep_name ep else g_name (w_fifo w))"
proof (cases "type = SPAWN_NET_TYPE_TCP")
  case True
  then obtain e v where e: "spawn_net_open_tcp (os_tcp os) (w_tcp w) = (Some e, v)" "ep = ep_map Ep_tcp e" "w' = w\<lparr>w_tcp := v\<rparr>"
    using assms(1) by (auto simp: spawn_net_open_def select_type_def split: prod.splits)
  then have "ep_type e = SPAWN_NET_TYPE_TCP \<and> (\<exists>n. ep_name e = Some n \<and> has_prefix ''TCP:'' n)"
    by (auto simp: spawn_net_open_tcp_def fail_close_def tcp_name_def has_prefix_def split: prod.splits if_splits option.splits)
  then show ?thesis using e True
    by (auto simp: spawn_net_get_type_def spawn_net_infer_type_def spawn_net_name_def ep_map_def)
next
  case False
  then have f: "type = SPAWN_NET_TYPE_FIFO" using assms(2) by simp
  then obtain e v where e: "spawn_net_open_fifo (os_fifo os) (w_fifo w) = (Some e, v)" "ep = ep_map Ep_fifo e" "w' = w\<lparr>w_fifo := v\<rparr>"
    using assms(1) by (auto simp: spawn_net_open_def select_type_def split: prod.splits)
  then obtain n where "ep_type e = SPAWN_NET_TYPE_FIFO" "ep_name e = Some n" "g_name v = Some n" "has_prefix ''FIFO:'' n"
    using assms(3) by (auto simp: spawn_net_open_fifo_def Let_def has_prefix_def split: if_splits)
  then show ?thesis using e f
    by (auto simp: spawn_net_get_type_def spawn_net_infer_type_def spawn_net_name_def ep_map_def fifo_not_tcp)
qed

theorem net_open_name_witness:
  "\<exists>ep w'. spawn_net_open sample_net SPAWN_NET_TYPE_FIFO sample_world = (Some ep, w')
     \<and> spawn_net_get_type (Some ep) = SPAWN_NET_TYPE_FIFO \<and> spawn_net_infer_type (spawn_net_name (Some ep)) = SPAWN_NET_TYPE_FIFO
     \<and> g_name (w_fifo w') = ep_name ep"
proof -
  obtain ep w' where "spawn_net_open sample_net SPAWN_NET_TYPE_FIFO sample_world = (Some ep, w')"
    by (simp add: spawn_net_open_def select_type_def spawn_net_open_fifo_def sample_net_def sample_os_def sample_world_def fifo_start_def Let_def)
  then show ?thesis using net_open_name [of sample_net SPAWN_NET_TYPE_FIFO sample_world ep w']
    by (simp add: sample_world_def fifo_start_def)
qed

lemma check_types_Some:
  "check_types es ty = Some r \<Longrightarrow> (\<forall>t. Some t \<in> set es \<longrightarrow> r = Some t) \<and> (\<forall>u. ty = Some u \<longrightarrow> r = Some u)"
  by (induction es ty rule: check_types.induct) (auto simp: Let_def split: if_splits option.splits)

text \<open>
  Waiting on entries of two different types is refused: the call reports a failure and changes
  neither the caller's variable nor the state of any transport.
\<close>

theorem net_wait_mixed:
  assumes "t \<noteq> u" "Some t \<in> set (map (map_option ep_type) es @ map (map_option ch_type) cs)"
    and "Some u \<in> set (map (map_option ep_type) es @ map (map_option ch_type) cs)"
  shows "spawn_net_wait os (length es) (Some es) (length cs) (Some cs) (Some i) w = Some (SPAWN_FAILURE, Some i, w)"
proof -
  have n: "\<not> (length es = 0 \<and> length cs = 0)" using assms(2) by auto
  have e: "entries (length xs) (Some xs) = Some xs" for xs :: "'z list" by (simp add: entries_def)
  show ?thesis
  proof (cases "check_types (map (map_option ep_type) es) None")
    case None
    then show ?thesis using n by (auto simp: spawn_net_wait_def e)
  next
    case (Some ty)
    have "check_types (map (map_option ch_type) cs) ty = None"
    proof (rule ccontr)
      assume "check_types (map (map_option ch_type) cs) ty \<noteq> None"
      then obtain r where r: "check_types (map (map_option ch_type) cs) ty = Some r" by blast
      have "r = Some x" if "Some x \<in> set (map (map_option ep_type) es @ map (map_option ch_type) cs)" for x
        using that check_types_Some [OF r] check_types_Some [OF Some] unfolding set_append by blast
      then have "r = Some t" "r = Some u" using assms(2,3) by blast+
      then show False using assms(1) by simp
    qed
    then show ?thesis using n Some by (auto simp: spawn_net_wait_def e)
  qed
qed

theorem net_wait_mixed_witness:
  "spawn_net_wait sample_net 1 (Some [Some \<lparr>ep_type = SPAWN_NET_TYPE_FIFO, ep_name = None, ep_data = Some (Ep_fifo 4)\<rparr>])
     2 (Some [None, Some tcp_chan]) (Some 7) sample_world = Some (SPAWN_FAILURE, Some 7, sample_world)"
  using net_wait_mixed [of SPAWN_NET_TYPE_FIFO SPAWN_NET_TYPE_TCP
      "[Some \<lparr>ep_type = SPAWN_NET_TYPE_FIFO, ep_name = None, ep_data = Some (Ep_fifo 4)\<rparr>]" "[None, Some tcp_chan]" sample_net 7 sample_world]
  by (simp add: numeral_2_eq_2)

text \<open>
  With null entries only, the variable that selects the transport has no value when it is read. The
  transports themselves would return with the index -1.
\<close>

lemma net_wait_all_null:
  assumes "0 < n"
  shows "spawn_net_wait os n (Some (replicate n None)) 0 chs (Some i) w = None"
proof -
  have "check_types (replicate n None) None = Some None" by (induction n) auto
  then show ?thesis using assms by (simp add: spawn_net_wait_def entries_def)
qed

end
