(* ===== verification/Conn.thy ===== *)
theory Conn
  imports Net_Exchange
begin

text \<open>
  Processes that open connections to each other. To the programs of theory \<open>Net\<close> come the actions
  of \<open>spawn_net_connect\<close>, which gives a new channel to a named endpoint, and \<open>spawn_net_accept\<close>, which
  takes any one of the connections that are requested. A channel end is a process and a handle; the
  bytes written at an end are kept as a log, of which the other end has read a part.

  A transport is of one of two kinds. With TCP a connection can be used by the connecting process
  before it is accepted; over a FIFO \<open>spawn_net_connect\<close> returns only when the other process accepts.
  The parameter \<open>sync\<close> selects the second kind. Everything is shown for both.
\<close>

section \<open>Programs\<close>

datatype 'a cproc =
  CRet 'a
| CFail
| Connect string "nat \<Rightarrow> 'a cproc"
| Accept "nat \<Rightarrow> 'a cproc"
| CSend nat "byte list" "'a cproc"
| CRecv nat nat "byte list \<Rightarrow> 'a cproc"

text \<open>\<open>CFail\<close> stands for undefined behaviour, and for a loop that has used up its fuel.\<close>

primrec cbind :: "'a cproc \<Rightarrow> ('a \<Rightarrow> 'b cproc) \<Rightarrow> 'b cproc" where
  "cbind (CRet x) k = k x"
| "cbind CFail k = CFail"
| "cbind (Connect nm f) k = Connect nm (\<lambda>h. cbind (f h) k)"
| "cbind (Accept f) k = Accept (\<lambda>h. cbind (f h) k)"
| "cbind (CSend h bs p) k = CSend h bs (cbind p k)"
| "cbind (CRecv h n f) k = CRecv h n (\<lambda>bs. cbind (f bs) k)"

lemma cbind_assoc: "cbind (cbind p k) l = cbind p (\<lambda>x. cbind (k x) l)"
  by (induction p) auto

text \<open>A program on channels that exist already.\<close>

primrec embed :: "'a proc \<Rightarrow> 'a cproc" where
  "embed (Ret x) = CRet x"
| "embed (Send h bs p) = CSend h bs (embed p)"
| "embed (Recv h n f) = CRecv h n (\<lambda>bs. embed (f (Some bs)))"

lemma embed_bind: "embed (pbind p k) = cbind (embed p) (\<lambda>x. embed (k x))"
  by (induction p) auto

section \<open>Networks\<close>

type_synonym chan_end = "nat \<times> nat"

record 'a cnet =
  prg :: "nat \<Rightarrow> 'a cproc"
  logs :: "chan_end \<Rightarrow> byte list"
  roff :: "chan_end \<Rightarrow> nat"
  links :: "chan_end \<rightharpoonup> chan_end"
  waiting :: "nat \<Rightarrow> chan_end set"
  nexth :: "nat \<Rightarrow> nat"

definition fresh_net :: "(nat \<Rightarrow> 'a cproc) \<Rightarrow> 'a cnet" where
  "fresh_net ps = \<lparr>prg = ps, logs = \<lambda>_. [], roff = \<lambda>_. 0, links = Map.empty, waiting = \<lambda>_. {}, nexth = \<lambda>_. 0\<rparr>"

text \<open>Process \<open>i\<close> asks process \<open>j\<close> for a connection; process \<open>j\<close> accepts the one of the end \<open>e\<close>.\<close>

definition do_connect :: "nat \<Rightarrow> nat \<Rightarrow> (nat \<Rightarrow> 'a cproc) \<Rightarrow> 'a cnet \<Rightarrow> 'a cnet" where
  "do_connect i j k c = c\<lparr>prg := (prg c)(i := k (nexth c i)),
     waiting := (waiting c)(j := insert (i, nexth c i) (waiting c j)), nexth := (nexth c)(i := Suc (nexth c i))\<rparr>"

definition do_accept :: "chan_end \<Rightarrow> nat \<Rightarrow> (nat \<Rightarrow> 'a cproc) \<Rightarrow> 'a cnet \<Rightarrow> 'a cnet" where
  "do_accept e j k c = c\<lparr>prg := (prg c)(j := k (nexth c j)), waiting := (waiting c)(j := waiting c j - {e}),
     links := (links c)(e \<mapsto> (j, nexth c j), (j, nexth c j) \<mapsto> e), nexth := (nexth c)(j := Suc (nexth c j))\<rparr>"

definition do_send :: "nat \<Rightarrow> nat \<Rightarrow> byte list \<Rightarrow> 'a cproc \<Rightarrow> 'a cnet \<Rightarrow> 'a cnet" where
  "do_send i h bs p c = c\<lparr>prg := (prg c)(i := p), logs := (logs c)((i, h) := logs c (i, h) @ bs)\<rparr>"

definition do_recv :: "nat \<Rightarrow> nat \<Rightarrow> nat \<Rightarrow> chan_end \<Rightarrow> (byte list \<Rightarrow> 'a cproc) \<Rightarrow> 'a cnet \<Rightarrow> 'a cnet" where
  "do_recv i h m e f c = c\<lparr>prg := (prg c)(i := f (take m (drop (roff c (i, h)) (logs c e)))),
     roff := (roff c)((i, h) := roff c (i, h) + m)\<rparr>"

inductive cstep :: "bool \<Rightarrow> (string \<rightharpoonup> nat) \<Rightarrow> nat \<Rightarrow> 'a cnet \<Rightarrow> 'a cnet \<Rightarrow> bool" for sync addr n where
  connect: "\<not> sync \<Longrightarrow> i < n \<Longrightarrow> prg c i = Connect nm k \<Longrightarrow> addr nm = Some j \<Longrightarrow> cstep sync addr n c (do_connect i j k c)"
| accept: "j < n \<Longrightarrow> prg c j = Accept k \<Longrightarrow> e \<in> waiting c j \<Longrightarrow> cstep sync addr n c (do_accept e j k c)"
| meet: "sync \<Longrightarrow> i < n \<Longrightarrow> j < n \<Longrightarrow> prg c i = Connect nm k \<Longrightarrow> addr nm = Some j \<Longrightarrow> prg c j = Accept l \<Longrightarrow>
    cstep sync addr n c (do_accept (i, nexth c i) j l (do_connect i j k c))"
| send: "i < n \<Longrightarrow> prg c i = CSend h bs p \<Longrightarrow> cstep sync addr n c (do_send i h bs p c)"
| recv: "i < n \<Longrightarrow> prg c i = CRecv h m f \<Longrightarrow> links c (i, h) = Some e \<Longrightarrow> roff c (i, h) + m \<le> length (logs c e) \<Longrightarrow>
    cstep sync addr n c (do_recv i h m e f c)"

section \<open>Every run ends\<close>

text \<open>
  A program is a well-founded tree and a step replaces the programs of one or two processes by
  subtrees, so that no network can take steps forever.
\<close>

inductive_set child :: "('a cproc \<times> 'a cproc) set" where
  "(f h, Connect nm f) \<in> child"
| "(f h, Accept f) \<in> child"
| "(p, CSend h bs p) \<in> child"
| "(f bs, CRecv h m f) \<in> child"

lemma wf_child: "wf (child :: ('a cproc \<times> 'a cproc) set)"
proof (rule wfUNIVI)
  fix P :: "'a cproc \<Rightarrow> bool" and p
  assume H: "\<forall>x. (\<forall>y. (y, x) \<in> child \<longrightarrow> P y) \<longrightarrow> P x"
  show "P p"
  proof (induction p)
    case (Connect nm f)
    have "P y" if "(y, Connect nm f) \<in> child" for y using that Connect by (cases rule: child.cases) auto
    then show ?case using H by blast
  next
    case (Accept f)
    have "P y" if "(y, Accept f) \<in> child" for y using that Accept by (cases rule: child.cases) auto
    then show ?case using H by blast
  next
    case (CSend h bs p)
    have "P y" if "(y, CSend h bs p) \<in> child" for y using that CSend by (cases rule: child.cases) auto
    then show ?case using H by blast
  next
    case (CRecv h m f)
    have "P y" if "(y, CRecv h m f) \<in> child" for y using that CRecv by (cases rule: child.cases) auto
    then show ?case using H by blast
  next
    case (CRet x)
    have "(y, CRet x) \<notin> child" for y by (auto elim: child.cases)
    then show ?case using H by blast
  next
    case CFail
    have "(y, CFail) \<notin> child" for y by (auto elim: child.cases)
    then show ?case using H by blast
  qed
qed

definition all_progs :: "nat \<Rightarrow> (nat \<Rightarrow> 'a cproc) \<Rightarrow> 'a cproc multiset" where
  "all_progs n ps = image_mset ps (mset_set {..<n})"

lemma all_progs_upd:
  assumes "i < n" "(p, ps i) \<in> child"
  shows "(all_progs n (ps(i := p)), all_progs n ps) \<in> mult child"
proof -
  let ?M = "image_mset ps (mset_set ({..<n} - {i}))"
  have s: "{..<n} = insert i ({..<n} - {i})" using assms(1) by auto
  have "all_progs n ps = add_mset (ps i) ?M" unfolding all_progs_def by (subst s) (simp add: mset_set.insert_remove)
  moreover have "image_mset (ps(i := p)) (mset_set ({..<n} - {i})) = ?M" by (rule image_mset_cong) auto
  then have "all_progs n (ps(i := p)) = add_mset p ?M" unfolding all_progs_def by (subst s) (simp add: mset_set.insert_remove)
  moreover have "(?M + {#p#}, ?M + {#ps i#}) \<in> mult child"
    by (rule one_step_implies_mult) (use assms(2) in auto)
  ultimately show ?thesis by simp
qed

lemma cstep_decreases:
  assumes "cstep sync addr n c c'"
  shows "(all_progs n (prg c'), all_progs n (prg c)) \<in> mult child"
  using assms
proof (cases rule: cstep.cases)
  case (meet i j nm k l)
  have ne: "i \<noteq> j" using meet by auto
  let ?ps = "(prg c)(i := k (nexth c i))"
  have "(all_progs n ?ps, all_progs n (prg c)) \<in> mult child" using meet by (intro all_progs_upd) (auto intro: child.intros)
  moreover have "(all_progs n (?ps(j := l (nexth c j))), all_progs n ?ps) \<in> mult child"
    using meet ne by (intro all_progs_upd) (auto intro: child.intros)
  ultimately show ?thesis using meet ne by (auto simp: do_accept_def do_connect_def mult_def)
qed (auto simp: do_connect_def do_accept_def do_send_def do_recv_def intro!: all_progs_upd intro: child.intros)

lemma cstep_wf: "wfP (\<lambda>c' c. cstep sync addr n c c')"
  unfolding wfp_def
  by (rule wf_subset [OF wf_inv_image [OF wf_mult [OF wf_child], of "\<lambda>c. all_progs n (prg c)"]])
    (auto simp: inv_image_def cstep_decreases)

end
