(* ===== verification/Lwgrp_Connect.thy ===== *)
theory Lwgrp_Connect
  imports Conn Lwgrp
begin

text \<open>
  How a group is built and released: \<open>lwgrp_create\<close>, \<open>lwgrp_connect\<close> with its helpers, and
  \<open>lwgrp_free\<close> of \<open>src/src/lwgrp.c\<close>. In round \<open>d\<close> a process connects to the process \<open>2 ^ d\<close> ranks to its
  right, whose address it has learned in the round before, and accepts the connection of the
  process \<open>2 ^ d\<close> ranks to its left. A process that is ahead may connect early, so that an accepted
  connection can belong to a later round; its first four bytes say to which.
\<close>

section \<open>Model\<close>

text \<open>An \<open>int\<close> in memory.\<close>

definition mem_int :: "nat \<Rightarrow> byte list" where
  "mem_int r = le_bytes 4 r"

definition load_int :: "byte list \<Rightarrow> int" where
  "load_int bs = sint (word_of_nat (le_value (take 4 bs)) :: 32 word)"

text \<open>
  The loop that accepts connections until the one of the target round has come. An index outside
  of the array is undefined; each pass fills an entry, so that the length of the array is enough fuel.
\<close>

primrec accept_loop :: "nat \<Rightarrow> nat \<Rightarrow> lwgrp \<Rightarrow> lwgrp cproc" where
  "accept_loop 0 target_round grp = CFail"
| "accept_loop (Suc fuel) target_round grp =
     Accept (\<lambda>ch. CRecv ch 4 (\<lambda>bs.
       let round = load_int bs in
       if 0 \<le> round \<and> nat round < length (list_left grp) then
         let grp = grp\<lparr>list_left := (list_left grp)[nat round := Some ch]\<rparr> in
         if round \<noteq> int target_round then accept_loop fuel target_round grp else CRet grp
       else CFail))"

definition lwgrp_accept_left :: "lwgrp \<Rightarrow> nat \<Rightarrow> lwgrp cproc" where
  "lwgrp_accept_left grp target_round =
     (if length (list_left grp) \<le> target_round then CFail
      else if list_left grp ! target_round \<noteq> NULL then CRet grp
      else accept_loop (length (list_left grp)) target_round grp)"

text \<open>Connecting to no name gives the null channel, on which a write does nothing.\<close>

definition lwgrp_connect_right :: "lwgrp \<Rightarrow> nat \<Rightarrow> string option \<Rightarrow> lwgrp cproc" where
  "lwgrp_connect_right grp round name =
     (let record_channel = (\<lambda>ch. if round < length (list_right grp)
        then CRet (grp\<lparr>list_right := (list_right grp)[round := ch]\<rparr>) else CFail)
      in case name of
           None \<Rightarrow> record_channel NULL
         | Some nm \<Rightarrow> Connect nm (\<lambda>ch. CSend ch (mem_int round) (record_channel (Some ch))))"

text \<open>Both variants start a round with the connections; an odd process accepts first.\<close>

definition connect_pair :: "nat \<Rightarrow> nat \<Rightarrow> lwgrp \<Rightarrow> string option \<Rightarrow> lwgrp cproc" where
  "connect_pair round dist grp right =
     (let rank = grp_rank grp; ranks = grp_size grp; relrank = rank div 2 ^ round;
          accept_left = (\<lambda>grp. if dist \<le> rank then lwgrp_accept_left grp round else CRet grp);
          connect_right = (\<lambda>grp. if rank + dist < ranks then lwgrp_connect_right grp round right else CRet grp)
      in if odd relrank then cbind (accept_left grp) connect_right
         else cbind (connect_right grp) accept_left)"

type_synonym str_xchg = "lwgrp \<Rightarrow> nat \<Rightarrow> nat \<Rightarrow> (nat option \<Rightarrow> unit proc) \<Rightarrow> (nat option \<Rightarrow> unit proc)
    \<Rightarrow> (nat option \<Rightarrow> string option proc) \<Rightarrow> (nat option \<Rightarrow> string option proc)
    \<Rightarrow> string option \<Rightarrow> string option \<Rightarrow> (string option \<times> string option) proc"

text \<open>The rounds; \<open>left\<close> and \<open>right\<close> are the addresses at the current distance.\<close>

function connect_rounds ::
  "str_xchg \<Rightarrow> (nat \<Rightarrow> byte list) \<Rightarrow> nat \<Rightarrow> nat \<Rightarrow> nat \<Rightarrow> lwgrp \<Rightarrow> string option \<Rightarrow> string option \<Rightarrow> lwgrp cproc" where
  "connect_rounds xchg junk ranks round dist grp left right =
     (if 0 < dist \<and> dist < ranks then
        cbind (connect_pair round dist grp right) (\<lambda>grp.
        cbind (embed (xchg grp round dist (\<lambda>ch. spawn_net_write_str ch right) (\<lambda>ch. spawn_net_write_str ch left)
          (\<lambda>ch. spawn_net_read_str ch junk) (\<lambda>ch. spawn_net_read_str ch junk) NULL NULL)) (\<lambda>(next_left, next_right).
        connect_rounds xchg junk ranks (Suc round) (2 * dist) grp next_left next_right))
      else CRet grp)"
  by auto
termination
  by (relation "measure (\<lambda>(xchg, junk, ranks, round, dist, grp, left, right). ranks - dist)") auto

declare connect_rounds.simps [simp del]

definition lwgrp_connect :: "(nat \<Rightarrow> byte list) \<Rightarrow> lwgrp \<Rightarrow> lwgrp cproc" where
  "lwgrp_connect junk grp = connect_rounds exchange junk (grp_size grp) 0 1 grp (grp_left grp) (grp_right grp)"

definition lwgrp_connect_blocking :: "(nat \<Rightarrow> byte list) \<Rightarrow> lwgrp \<Rightarrow> lwgrp cproc" where
  "lwgrp_connect_blocking junk grp =
     connect_rounds exchange_blocking junk (grp_size grp) 0 1 grp (grp_left grp) (grp_right grp)"

text \<open>The loop that counts the rounds.\<close>

function rounds_loop :: "nat \<Rightarrow> nat \<Rightarrow> nat \<Rightarrow> nat" where
  "rounds_loop ranks list_size cnt =
     (if 0 < cnt \<and> cnt < ranks then rounds_loop ranks (Suc list_size) (2 * cnt) else list_size)"
  by auto
termination
  by (relation "measure (\<lambda>(ranks, list_size, cnt). ranks - cnt)") auto

declare rounds_loop.simps [simp del]

definition lwgrp_create ::
  "(nat \<Rightarrow> byte list) \<Rightarrow> nat \<Rightarrow> nat \<Rightarrow> string \<Rightarrow> string option \<Rightarrow> string option \<Rightarrow> nat option \<Rightarrow> lwgrp cproc" where
  "lwgrp_create junk ranks rank name left right ep =
     (let list_size = rounds_loop ranks 0 1 + 1 in
      lwgrp_connect junk
        \<lparr>grp_size = ranks, grp_rank = rank, grp_name = name, grp_left = left, grp_right = right,
         grp_list_size = list_size, list_left = replicate list_size NULL, list_right = replicate list_size NULL,
         grp_ep = ep\<rparr>)"

text \<open>
  Releasing a group disconnects every channel of its lists. The argument is a pointer to the caller's
  variable; the result has the channels in the order in which they are disconnected and the new
  content of the variable.
\<close>

definition lwgrp_free :: "lwgrp option option \<Rightarrow> int \<times> nat list \<times> lwgrp option option" where
  "lwgrp_free pgroup =
     (case pgroup of
        None \<Rightarrow> (LWGRP_SUCCESS, [], None)
      | Some None \<Rightarrow> (LWGRP_SUCCESS, [], Some NULL)
      | Some (Some g) \<Rightarrow>
          (LWGRP_SUCCESS,
           concat (map (\<lambda>i. (case list_left g ! i of None \<Rightarrow> [] | Some ch \<Rightarrow> [ch])
             @ (case list_right g ! i of None \<Rightarrow> [] | Some ch \<Rightarrow> [ch])) [0..<grp_list_size g]),
           Some NULL))"

section \<open>Bytes of a round number\<close>

lemma length_mem_int [simp]: "length (mem_int r) = 4"
  by (simp add: mem_int_def)

lemma load_mem_int: "r < 2 ^ 31 \<Longrightarrow> load_int (mem_int r) = int r"
  by (simp add: load_int_def mem_int_def le_value_le_bytes signed_of_nat signed_take_bit_int_eq_self)

lemma rounds_loop_le: "rounds_loop n k (2 ^ k) = l \<Longrightarrow> n \<le> 2 ^ l \<and> k \<le> l"
proof (induction "n - 2 ^ k" arbitrary: k rule: less_induct)
  case less
  show ?case
  proof (cases "2 ^ k < n")
    case True
    have "n - 2 ^ Suc k < n - 2 ^ k" using True by (intro diff_less_mono2) auto
    moreover have "rounds_loop n (Suc k) (2 ^ Suc k) = l" using less.prems True by (subst (asm) rounds_loop.simps) simp
    ultimately show ?thesis using less.hyps [of "Suc k"] by simp
  next
    case False
    then show ?thesis using less.prems by (subst (asm) rounds_loop.simps) simp
  qed
qed

end
