(* ===== verification/Lwgrp_Link.thy ===== *)
theory Lwgrp_Link
  imports Lwgrp_Connect
begin

text \<open>
  The program of \<open>lwgrp_create\<close>, seen from one process. A judgement \<open>ok\<close> says of a residual program and a
  ghost state what the program may still do: which channels it opens in which round, which bytes it
  writes and which it expects. The ghost state records, per round, the handles of the left and
  right channel and how much has been written and read on each.
\<close>

section \<open>What is sent\<close>

definition left_name :: "(nat \<Rightarrow> string) \<Rightarrow> nat \<Rightarrow> nat \<Rightarrow> string option" where
  "left_name nm i d = (if 2 ^ d \<le> i then Some (nm (i - 2 ^ d)) else NULL)"

definition right_name :: "nat \<Rightarrow> (nat \<Rightarrow> string) \<Rightarrow> nat \<Rightarrow> nat \<Rightarrow> string option" where
  "right_name n nm i d = (if i + 2 ^ d < n then Some (nm (i + 2 ^ d)) else NULL)"

text \<open>All bytes that process \<open>i\<close> sends in round \<open>d\<close> to the right and to the left.\<close>

definition to_right :: "(nat \<Rightarrow> string) \<Rightarrow> nat \<Rightarrow> nat \<Rightarrow> byte list" where
  "to_right nm i d = mem_int d @ concat (str_chunks (left_name nm i d))"

definition to_left :: "nat \<Rightarrow> (nat \<Rightarrow> string) \<Rightarrow> nat \<Rightarrow> nat \<Rightarrow> byte list" where
  "to_left n nm i d = concat (str_chunks (right_name n nm i d))"

section \<open>Ghost state\<close>

record loc =
  la :: "nat \<rightharpoonup> nat"
  ra :: "nat \<rightharpoonup> nat"
  wl :: "nat \<Rightarrow> nat"
  wr :: "nat \<Rightarrow> nat"
  rl :: "nat \<Rightarrow> nat"
  rr :: "nat \<Rightarrow> nat"
  pend :: "nat option"

definition loc0 :: loc where
  "loc0 = \<lparr>la = Map.empty, ra = Map.empty, wl = \<lambda>_. 0, wr = \<lambda>_. 0, rl = \<lambda>_. 0, rr = \<lambda>_. 0, pend = None\<rparr>"

definition left_done :: "nat \<Rightarrow> (nat \<Rightarrow> string) \<Rightarrow> nat \<Rightarrow> loc \<Rightarrow> nat \<Rightarrow> bool" where
  "left_done n nm i s d \<longleftrightarrow> (2 ^ d \<le> i \<longrightarrow> la s d \<noteq> None \<and> wl s d = length (to_left n nm i d)
     \<and> rl s d = length (to_right nm (i - 2 ^ d) d))"

definition right_done :: "nat \<Rightarrow> (nat \<Rightarrow> string) \<Rightarrow> nat \<Rightarrow> loc \<Rightarrow> nat \<Rightarrow> bool" where
  "right_done n nm i s d \<longleftrightarrow> (i + 2 ^ d < n \<longrightarrow> ra s d \<noteq> None \<and> wr s d = length (to_right nm i d)
     \<and> rr s d = length (to_left n nm (i + 2 ^ d) d))"

definition below :: "nat \<Rightarrow> (nat \<Rightarrow> string) \<Rightarrow> nat \<Rightarrow> nat \<Rightarrow> loc \<Rightarrow> bool" where
  "below n nm i d s \<longleftrightarrow> (\<forall>e<d. left_done n nm i s e \<and> right_done n nm i s e)"

definition ids :: "loc \<Rightarrow> bool" where
  "ids s \<longleftrightarrow> (\<forall>e. ra s e \<noteq> None \<longrightarrow> 4 \<le> wr s e)"

definition paired :: "nat \<Rightarrow> nat \<Rightarrow> nat \<Rightarrow> loc \<Rightarrow> bool" where
  "paired n i d s \<longleftrightarrow> (2 ^ d \<le> i \<longrightarrow> la s d \<noteq> None) \<and> (i + 2 ^ d < n \<longrightarrow> ra s d \<noteq> None)"

definition written :: "nat \<Rightarrow> (nat \<Rightarrow> string) \<Rightarrow> nat \<Rightarrow> nat \<Rightarrow> loc \<Rightarrow> bool" where
  "written n nm i d s \<longleftrightarrow> (2 ^ d \<le> i \<longrightarrow> wl s d = length (to_left n nm i d)) \<and> (i + 2 ^ d < n \<longrightarrow> wr s d = length (to_right nm i d))"

definition agree :: "nat \<Rightarrow> nat \<Rightarrow> loc \<Rightarrow> lwgrp \<Rightarrow> bool" where
  "agree n i s g \<longleftrightarrow> grp_size g = n \<and> grp_rank g = i \<and> n \<le> 2 ^ length (list_left g) \<and> length (list_right g) = length (list_left g)
     \<and> grp_list_size g = length (list_left g)
     \<and> (\<forall>e<length (list_left g). list_left g ! e = la s e \<and> list_right g ! e = ra s e)"

section \<open>The judgement\<close>

inductive ok :: "nat \<Rightarrow> (nat \<Rightarrow> string) \<Rightarrow> nat \<Rightarrow> loc \<Rightarrow> lwgrp cproc \<Rightarrow> bool" for n nm i where
  ret: "n \<le> 2 ^ d \<Longrightarrow> below n nm i d s \<Longrightarrow> ids s \<Longrightarrow> pend s = None \<Longrightarrow> agree n i s g \<Longrightarrow> ok n nm i s (CRet g)"
| connect: "i + 2 ^ d < n \<Longrightarrow> below n nm i d s \<Longrightarrow> ids s \<Longrightarrow> pend s = None \<Longrightarrow> ra s d = None \<Longrightarrow>
    (odd (i div 2 ^ d) \<Longrightarrow> 2 ^ d \<le> i \<Longrightarrow> la s d \<noteq> None) \<Longrightarrow>
    (\<And>h. ok n nm i (s\<lparr>ra := (ra s)(d \<mapsto> h)\<rparr>) (k h)) \<Longrightarrow> ok n nm i s (Connect (nm (i + 2 ^ d)) k)"
| accept: "2 ^ d \<le> i \<Longrightarrow> below n nm i d s \<Longrightarrow> ids s \<Longrightarrow> pend s = None \<Longrightarrow> la s d = None \<Longrightarrow>
    (even (i div 2 ^ d) \<Longrightarrow> i + 2 ^ d < n \<Longrightarrow> ra s d \<noteq> None) \<Longrightarrow>
    (\<And>h. ok n nm i (s\<lparr>pend := Some h\<rparr>) (k h)) \<Longrightarrow> ok n nm i s (Accept k)"
| ident: "pend s = Some h \<Longrightarrow> ids s \<Longrightarrow>
    (\<And>e. 2 ^ e \<le> i \<Longrightarrow> la s e = None \<Longrightarrow>
      ok n nm i (s\<lparr>la := (la s)(e \<mapsto> h), rl := (rl s)(e := 4), pend := None\<rparr>) (f (mem_int e))) \<Longrightarrow> ok n nm i s (CRecv h 4 f)"
| send_left: "pend s = None \<Longrightarrow> la s d = Some h \<Longrightarrow> drop (wl s d) (to_left n nm i d) = bs @ rest \<Longrightarrow>
    ok n nm i (s\<lparr>wl := (wl s)(d := wl s d + length bs)\<rparr>) p \<Longrightarrow> ok n nm i s (CSend h bs p)"
| send_right: "pend s = None \<Longrightarrow> ra s d = Some h \<Longrightarrow> drop (wr s d) (to_right nm i d) = bs @ rest \<Longrightarrow>
    ok n nm i (s\<lparr>wr := (wr s)(d := wr s d + length bs)\<rparr>) p \<Longrightarrow> ok n nm i s (CSend h bs p)"
| recv_left: "pend s = None \<Longrightarrow> below n nm i d s \<Longrightarrow> ids s \<Longrightarrow> paired n i d s \<Longrightarrow> written n nm i d s \<Longrightarrow>
    2 ^ d \<le> i \<Longrightarrow> la s d = Some h \<Longrightarrow> drop (rl s d) (to_right nm (i - 2 ^ d) d) = bs @ rest \<Longrightarrow> bs \<noteq> [] \<Longrightarrow>
    ok n nm i (s\<lparr>rl := (rl s)(d := rl s d + length bs)\<rparr>) (f bs) \<Longrightarrow> ok n nm i s (CRecv h (length bs) f)"
| recv_right: "pend s = None \<Longrightarrow> below n nm i d s \<Longrightarrow> ids s \<Longrightarrow> paired n i d s \<Longrightarrow> written n nm i d s \<Longrightarrow>
    i + 2 ^ d < n \<Longrightarrow> ra s d = Some h \<Longrightarrow> drop (rr s d) (to_left n nm (i + 2 ^ d) d) = bs @ rest \<Longrightarrow> bs \<noteq> [] \<Longrightarrow>
    ok n nm i (s\<lparr>rr := (rr s)(d := rr s d + length bs)\<rparr>) (f bs) \<Longrightarrow> ok n nm i s (CRecv h (length bs) f)"

inductive_cases ok_RetE: "ok n nm i s (CRet g)"
inductive_cases ok_FailE: "ok n nm i s CFail"
inductive_cases ok_ConnectE: "ok n nm i s (Connect nam k)"
inductive_cases ok_AcceptE: "ok n nm i s (Accept k)"
inductive_cases ok_SendE: "ok n nm i s (CSend h bs p)"
inductive_cases ok_RecvE: "ok n nm i s (CRecv h m f)"

section \<open>The parts of a round\<close>

lemma round_small: "2 ^ e \<le> (i :: nat) \<Longrightarrow> i < n \<Longrightarrow> n \<le> 2 ^ 63 \<Longrightarrow> e < (2 :: nat) ^ 31"
proof -
  assume "2 ^ e \<le> i" "i < n" "n \<le> (2 :: nat) ^ 63"
  then have "(2 :: nat) ^ e < 2 ^ 63" by linarith
  then have "e < 63" by (rule power_less_imp_less_exp [rotated]) simp
  then show "e < 2 ^ 31" by simp
qed

lemma agree_round: "agree n i s g \<Longrightarrow> 2 ^ e < n \<Longrightarrow> e < length (list_left g)"
proof -
  assume a: "agree n i s g" "2 ^ e < n"
  then have "(2 :: nat) ^ e < 2 ^ length (list_left g)" unfolding agree_def by linarith
  then show ?thesis by (rule power_less_imp_less_exp [rotated]) simp
qed

text \<open>The state has only changed by connections accepted since.\<close>

definition accepted :: "loc \<Rightarrow> loc \<Rightarrow> bool" where
  "accepted s s' \<longleftrightarrow> ra s' = ra s \<and> wl s' = wl s \<and> wr s' = wr s \<and> rr s' = rr s \<and> pend s' = pend s
     \<and> (\<forall>e. la s e \<noteq> None \<longrightarrow> la s' e = la s e \<and> rl s' e = rl s e)
     \<and> (\<forall>e. la s e = None \<longrightarrow> rl s' e = (if la s' e = None then rl s e else 4))"

lemma accepted_refl: "accepted s s"
  by (simp add: accepted_def)

lemma accepted_trans: "accepted s t \<Longrightarrow> accepted t u \<Longrightarrow> accepted s u"
  unfolding accepted_def by (elim conjE, intro conjI allI impI) (simp, simp, simp, simp, simp, metis, metis, metis)

lemma accepted_below:
  assumes "accepted s s'" "below n nm i d s"
  shows "below n nm i d s'"
  using assms unfolding below_def left_done_def right_done_def accepted_def by metis

lemma accepted_ids: "accepted s s' \<Longrightarrow> ids s \<Longrightarrow> ids s'"
  by (auto simp: accepted_def ids_def)

lemma accepted_one:
  "la s e = None \<Longrightarrow> pend s = None \<Longrightarrow> accepted s (s\<lparr>pend := Some h, la := (la s)(e \<mapsto> h), rl := (rl s)(e := 4), pend := None\<rparr>)"
  by (auto simp: accepted_def)

lemma agree_accept:
  "agree n i s g \<Longrightarrow> e < length (list_left g) \<Longrightarrow>
    agree n i (s\<lparr>pend := Some h, la := (la s)(e \<mapsto> h), rl := (rl s)(e := 4), pend := None\<rparr>) (g\<lparr>list_left := (list_left g)[e := Some h]\<rparr>)"
  by (auto simp: agree_def nth_list_update)

lemma finite_rounds: "finite {e. 2 ^ e \<le> (i :: nat)}"
proof (rule finite_subset)
  show "{e. 2 ^ e \<le> i} \<subseteq> {..i}" using less_exp order_less_le_trans less_imp_le by blast
qed simp

lemma ok_accept_loop:
  assumes i: "i < n" "n \<le> 2 ^ 63" "2 ^ d \<le> i"
    and "below n nm i d s" "ids s" "pend s = None" "la s d = None" "agree n i s g"
    and "even (i div 2 ^ d) \<Longrightarrow> i + 2 ^ d < n \<Longrightarrow> ra s d \<noteq> None"
    and "card {e. 2 ^ e \<le> i \<and> la s e = None} \<le> fuel"
    and "\<And>s' g'. accepted s s' \<Longrightarrow> la s' d \<noteq> None \<Longrightarrow> agree n i s' g' \<Longrightarrow> ok n nm i s' (k g')"
  shows "ok n nm i s (cbind (accept_loop fuel d g) k)"
  using assms(4-)
proof (induction fuel arbitrary: s g)
  case 0
  have "finite {e. 2 ^ e \<le> i \<and> la s e = None}" by (rule finite_subset [OF _ finite_rounds [of i]]) auto
  then show ?case using "0.prems"(4,7) i(3) by auto
next
  case (Suc fuel)
  let ?body = "\<lambda>ch bs. cbind (let round = load_int bs in
       if 0 \<le> round \<and> nat round < length (list_left g) then
         let g = g\<lparr>list_left := (list_left g)[nat round := Some ch]\<rparr> in
         if round \<noteq> int d then accept_loop fuel d g else CRet g
       else CFail) k"
  have id: "ok n nm i (s\<lparr>pend := Some h, la := (la s)(e \<mapsto> h), rl := (rl s)(e := 4), pend := None\<rparr>) (?body h (mem_int e))"
    if e: "2 ^ e \<le> i" "la s e = None" for h e
  proof -
    let ?t = "s\<lparr>pend := Some h, la := (la s)(e \<mapsto> h), rl := (rl s)(e := 4), pend := None\<rparr>"
    let ?g = "g\<lparr>list_left := (list_left g)[e := Some h]\<rparr>"
    have len: "e < length (list_left g)" using agree_round [OF Suc.prems(5)] e(1) i(1) by simp
    have li: "load_int (mem_int e) = int e" by (rule load_mem_int [OF round_small [OF e(1) i(1,2)]])
    have acc: "accepted s ?t" using accepted_one e(2) Suc.prems(3) by blast
    have ag: "agree n i ?t ?g" using agree_accept [OF Suc.prems(5) len] .
    show ?thesis
    proof (cases "e = d")
      case True
      then show ?thesis using Suc.prems(8) [OF acc _ ag] len li by simp
    next
      case False
      have "{x. 2 ^ x \<le> i \<and> la s x = None} = insert e {x. 2 ^ x \<le> i \<and> la ?t x = None}" using e by auto
      moreover have "finite {x. 2 ^ x \<le> i \<and> la ?t x = None}" by (rule finite_subset [OF _ finite_rounds [of i]]) auto
      ultimately have card: "card {x. 2 ^ x \<le> i \<and> la ?t x = None} \<le> fuel" using Suc.prems(7) by simp
      have "ok n nm i ?t (cbind (accept_loop fuel d ?g) k)"
        by (rule Suc.IH [OF accepted_below [OF acc Suc.prems(1)] accepted_ids [OF acc Suc.prems(2)] _ _ ag _ card])
          (use False Suc.prems accepted_trans [OF acc] in auto)
      then show ?thesis using False len li by simp
    qed
  qed
  have rd: "ok n nm i (s\<lparr>pend := Some h\<rparr>) (CRecv h 4 (?body h))" for h
    by (rule ok.ident) (use id Suc.prems(2) in \<open>auto simp: ids_def\<close>)
  show ?case
    using ok.accept [OF i(3) Suc.prems(1-4,6) rd] by simp
qed

lemma ok_accept_left:
  assumes i: "i < n" "n \<le> 2 ^ 63" "2 ^ d \<le> i"
    and st: "below n nm i d s" "ids s" "pend s = None" "agree n i s g"
    and ev: "even (i div 2 ^ d) \<Longrightarrow> i + 2 ^ d < n \<Longrightarrow> ra s d \<noteq> None"
    and k: "\<And>s' g'. accepted s s' \<Longrightarrow> la s' d \<noteq> None \<Longrightarrow> agree n i s' g' \<Longrightarrow> ok n nm i s' (k g')"
  shows "ok n nm i s (cbind (lwgrp_accept_left g d) k)"
proof (cases "la s d = None")
  case True
  have len: "2 ^ e \<le> i \<Longrightarrow> e < length (list_left g)" for e using agree_round [OF st(4)] i(1) by simp
  have "card {e. 2 ^ e \<le> i \<and> la s e = None} \<le> card {..<length (list_left g)}"
    by (rule card_mono) (use len in auto)
  then have "ok n nm i s (cbind (accept_loop (length (list_left g)) d g) k)"
    using True by (intro ok_accept_loop [OF i st(1-3) _ st(4) ev _ k]) auto
  then show ?thesis using True len [OF i(3)] st(4) by (simp add: lwgrp_accept_left_def agree_def)
next
  case False
  have "d < length (list_left g)" using agree_round [OF st(4)] i(1,3) by simp
  then show ?thesis using False st(4) k [OF accepted_refl False st(4)] by (simp add: lwgrp_accept_left_def agree_def)
qed

text \<open>The state after process \<open>i\<close> has connected to the right in round \<open>d\<close> and sent the round number.\<close>

abbreviation connected :: "nat \<Rightarrow> nat \<Rightarrow> loc \<Rightarrow> loc" where
  "connected d h s \<equiv> s\<lparr>ra := (ra s)(d \<mapsto> h), wr := (wr s)(d := 4)\<rparr>"

lemma ok_connect_right:
  assumes i: "i + 2 ^ d < n"
    and st: "below n nm i d s" "ids s" "pend s = None" "agree n i s g" "ra s d = None" "wr s d = 0"
    and od: "odd (i div 2 ^ d) \<Longrightarrow> 2 ^ d \<le> i \<Longrightarrow> la s d \<noteq> None"
    and k: "\<And>h g'. agree n i (connected d h s) g' \<Longrightarrow> ok n nm i (connected d h s) (k g')"
  shows "ok n nm i s (cbind (lwgrp_connect_right g d (right_name n nm i d)) k)"
proof -
  have len: "d < length (list_right g)" using agree_round [OF st(4), of d] st(4) i by (simp add: agree_def)
  have "ok n nm i (s\<lparr>ra := (ra s)(d \<mapsto> h)\<rparr>) (CSend h (mem_int d) (k (g\<lparr>list_right := (list_right g)[d := Some h]\<rparr>)))" for h
  proof (rule ok.send_right)
    have "agree n i (connected d h s) (g\<lparr>list_right := (list_right g)[d := Some h]\<rparr>)"
      using st(4) len by (auto simp: agree_def nth_list_update)
    then show "ok n nm i (s\<lparr>ra := (ra s)(d \<mapsto> h), wr := (wr (s\<lparr>ra := (ra s)(d \<mapsto> h)\<rparr>))(d := wr (s\<lparr>ra := (ra s)(d \<mapsto> h)\<rparr>) d
        + length (mem_int d))\<rparr>) (k (g\<lparr>list_right := (list_right g)[d := Some h]\<rparr>))"
      using k st(6) by simp
  qed (use st in \<open>auto simp: to_right_def\<close>)
  from ok.connect [OF i st(1-3,5) od this] show ?thesis
    using i len by (simp add: lwgrp_connect_right_def right_name_def)
qed

definition fresh_from :: "nat \<Rightarrow> loc \<Rightarrow> bool" where
  "fresh_from d s \<longleftrightarrow> (\<forall>e\<ge>d. ra s e = None \<and> wl s e = 0 \<and> wr s e = 0 \<and> rr s e = 0 \<and> rl s e = (if la s e = None then 0 else 4))"

text \<open>After the connections of round \<open>d\<close>, before its messages.\<close>

definition half :: "nat \<Rightarrow> nat \<Rightarrow> nat \<Rightarrow> loc \<Rightarrow> bool" where
  "half n i d s \<longleftrightarrow> paired n i d s \<and> wl s d = 0 \<and> rr s d = 0 \<and> (2 ^ d \<le> i \<longrightarrow> rl s d = 4) \<and> (i + 2 ^ d < n \<longrightarrow> wr s d = 4)
     \<and> fresh_from (Suc d) s"

definition good :: "nat \<Rightarrow> (nat \<Rightarrow> string) \<Rightarrow> nat \<Rightarrow> nat \<Rightarrow> loc \<Rightarrow> lwgrp \<Rightarrow> bool" where
  "good n nm i d s g \<longleftrightarrow> below n nm i d s \<and> ids s \<and> pend s = None \<and> agree n i s g"

lemma accepted_fresh: "accepted s s' \<Longrightarrow> fresh_from d s \<Longrightarrow> fresh_from d s'"
  unfolding accepted_def fresh_from_def by (metis option.distinct(1))

lemma below_connected: "below n nm i d s \<Longrightarrow> below n nm i d (connected d h s)"
  by (auto simp: below_def left_done_def right_done_def)

lemma ids_connected: "ids s \<Longrightarrow> ids (connected d h s)"
  by (auto simp: ids_def)

lemma fresh_Suc: "fresh_from d s \<Longrightarrow> fresh_from (Suc d) s"
  by (simp add: fresh_from_def)

lemma half_connected:
  "fresh_from d s \<Longrightarrow> (2 ^ d \<le> i \<longrightarrow> la s d \<noteq> None) \<Longrightarrow> half n i d (connected d h s)"
  "fresh_from d s \<Longrightarrow> (2 ^ d \<le> i \<longrightarrow> la s d \<noteq> None) \<Longrightarrow> \<not> i + 2 ^ d < n \<Longrightarrow> half n i d s"
  by (auto simp: half_def paired_def fresh_from_def)

lemma half_accepted:
  assumes acc: "accepted s s'" "2 ^ d \<le> i \<longrightarrow> la s' d \<noteq> None" and f: "fresh_from d t"
    and s: "i + 2 ^ d < n \<longrightarrow> s = connected d h t" "\<not> i + 2 ^ d < n \<longrightarrow> s = t"
  shows "half n i d s'"
proof -
  have "fresh_from (Suc d) s \<and> wl s d = 0 \<and> rr s d = 0 \<and> rl s d = (if la s d = None then 0 else 4)
      \<and> (i + 2 ^ d < n \<longrightarrow> ra s d \<noteq> None \<and> wr s d = 4)"
    using s f by (cases "i + 2 ^ d < n") (auto simp: fresh_from_def)
  moreover have "rl s' d = (if la s d = None then if la s' d = None then rl s d else 4 else rl s d)"
      "wl s' = wl s" "rr s' = rr s" "ra s' = ra s" "wr s' = wr s"
    using acc(1) by (auto simp: accepted_def)
  ultimately show ?thesis
    using acc(2) accepted_fresh [OF acc(1), of "Suc d"] by (auto simp: half_def paired_def)
qed

lemma ok_connect_pair:
  assumes i: "i < n" "n \<le> 2 ^ 63" and st: "good n nm i d s g" "fresh_from d s"
    and k: "\<And>s' g'. good n nm i d s' g' \<Longrightarrow> half n i d s' \<Longrightarrow> ok n nm i s' (k g')"
  shows "ok n nm i s (cbind (connect_pair d (2 ^ d) g (right_name n nm i d)) k)"
proof -
  have g: "grp_rank g = i" "grp_size g = n" and b: "below n nm i d s" "ids s" "pend s = None" "agree n i s g"
    using st(1) by (auto simp: good_def agree_def)
  have f: "ra s d = None" "wr s d = 0" using st(2) by (auto simp: fresh_from_def)
  show ?thesis
  proof (cases "odd (i div 2 ^ d)")
    case True
    have *: "ok n nm i s' (cbind (if i + 2 ^ d < n then lwgrp_connect_right g' d (right_name n nm i d) else CRet g') k)"
      if acc: "accepted s s'" "2 ^ d \<le> i \<longrightarrow> la s' d \<noteq> None" and ag: "agree n i s' g'" for s' g'
    proof -
      have b': "below n nm i d s'" "ids s'" "pend s' = None" "fresh_from d s'"
        using accepted_below [OF acc(1) b(1)] accepted_ids [OF acc(1) b(2)] accepted_fresh [OF acc(1) st(2)] acc(1) b(3)
        by (auto simp: accepted_def)
      show ?thesis
      proof (cases "i + 2 ^ d < n")
        case True
        have "ok n nm i s' (cbind (lwgrp_connect_right g' d (right_name n nm i d)) k)"
          by (rule ok_connect_right [OF True b'(1-3) ag])
            (use b' acc(2) k half_connected(1) [OF b'(4) acc(2)] below_connected [OF b'(1)] ids_connected [OF b'(2)]
              in \<open>auto simp: fresh_from_def good_def\<close>)
        then show ?thesis using True by simp
      next
        case False
        then show ?thesis using k [of s' g'] half_connected(2) [OF b'(4) acc(2)] b' ag by (simp add: good_def)
      qed
    qed
    show ?thesis
    proof (cases "2 ^ d \<le> i")
      case True
      then show ?thesis using ok_accept_left [OF i True b _ *] \<open>odd (i div 2 ^ d)\<close> g
        by (simp add: connect_pair_def Let_def cbind_assoc)
    next
      case False
      then show ?thesis using * [OF accepted_refl _ b(4)] \<open>odd (i div 2 ^ d)\<close> g by (simp add: connect_pair_def Let_def)
    qed
  next
    case False
    have *: "ok n nm i s' (cbind (if 2 ^ d \<le> i then lwgrp_accept_left g' d else CRet g') k)"
      if s': "below n nm i d s'" "ids s'" "pend s' = None" "agree n i s' g'" "i + 2 ^ d < n \<longrightarrow> s' = connected d h s" "\<not> i + 2 ^ d < n \<longrightarrow> s' = s"
      for s' g' h
    proof -
      have *: "ok n nm i t (k g'')" if "accepted s' t" "2 ^ d \<le> i \<longrightarrow> la t d \<noteq> None" "agree n i t g''" for t g''
        using k [of t g''] half_accepted [OF that(1,2) st(2) s'(5,6)] accepted_below [OF that(1) s'(1)]
          accepted_ids [OF that(1) s'(2)] that s'(3) by (auto simp: good_def accepted_def)
      show ?thesis
      proof (cases "2 ^ d \<le> i")
        case True
        have "ok n nm i s' (cbind (lwgrp_accept_left g' d) k)"
          by (rule ok_accept_left [OF i True s'(1-4)]) (use s'(5) * in auto)
        then show ?thesis using True by simp
      next
        case False
        then show ?thesis using * [OF accepted_refl _ s'(4)] by simp
      qed
    qed
    show ?thesis
    proof (cases "i + 2 ^ d < n")
      case True
      have "ok n nm i s (cbind (lwgrp_connect_right g d (right_name n nm i d)) (\<lambda>g. cbind (if 2 ^ d \<le> i then lwgrp_accept_left g d else CRet g) k))"
        by (rule ok_connect_right [OF True b f])
          (use False True * [OF below_connected [OF b(1)] ids_connected [OF b(2)]] b(3) in auto)
      then show ?thesis using False True g by (simp add: connect_pair_def Let_def cbind_assoc)
    next
      case no: False
      then show ?thesis using * [OF b] False g by (simp add: connect_pair_def Let_def)
    qed
  qed
qed

text \<open>Writing and reading a string.\<close>

lemma embed_write_str:
  "sendable_str str \<Longrightarrow> cbind (embed (spawn_net_write_str (Some h) str)) k
    = CSend h (str_chunks str ! 0) (CSend h (str_chunks str ! Suc 0) (k ()))"
  by (simp add: write_str_sends str_chunks_def)

lemma embed_read_str:
  "cbind (embed (spawn_net_read_str (Some h) junk)) k = CRecv h 8 (\<lambda>bs.
     let bytes = unat (fst (spawn_unpack_uint64 bs)) in
     if bytes > 0 then CRecv h bytes (\<lambda>str. k (Some (load_str str))) else k NULL)"
proof -
  have "cbind (embed (if b then pbind (net_read (Some h) j m) (\<lambda>(rc, str). if rc \<noteq> SPAWN_SUCCESS then Ret NULL
          else Ret (Some (load_str str))) else Ret NULL)) k
      = (if b then CRecv h m (\<lambda>str. k (Some (load_str str))) else k NULL)" for b m j
    by (simp add: net_read_def)
  then show ?thesis by (simp only: spawn_net_read_str_def Let_def) (simp add: net_read_def [of _ "junk 8"])
qed

lemma str_chunks_2: "concat (str_chunks str) = str_chunks str ! 0 @ str_chunks str ! Suc 0" "length (str_chunks str ! 0) = 8"
  by (simp_all add: str_chunks_def)

lemma ok_write_left:
  assumes "sendable_str (right_name n nm i d)" "pend s = None" "la s d = Some h" "wl s d = 0"
    and "ok n nm i (s\<lparr>wl := (wl s)(d := length (to_left n nm i d))\<rparr>) (k ())"
  shows "ok n nm i s (cbind (embed (spawn_net_write_str (Some h) (right_name n nm i d))) k)"
proof -
  let ?c = "str_chunks (right_name n nm i d)"
  let ?t = "s\<lparr>wl := (wl s)(d := wl s d + length (?c ! 0))\<rparr>"
  have "ok n nm i ?t (CSend h (?c ! Suc 0) (k ()))"
    by (rule ok.send_left [where d = d and rest = "[]"])
      (use assms in \<open>auto simp: to_left_def str_chunks_2\<close>)
  from ok.send_left [OF _ _ _ this, where rest = "?c ! Suc 0"]
  have "ok n nm i s (CSend h (?c ! 0) (CSend h (?c ! Suc 0) (k ())))"
    using assms(2-4) by (simp add: to_left_def str_chunks_2)
  then show ?thesis by (simp add: embed_write_str assms(1))
qed

lemma ok_write_right:
  assumes "sendable_str (left_name nm i d)" "pend s = None" "ra s d = Some h" "wr s d = 4"
    and "ok n nm i (s\<lparr>wr := (wr s)(d := length (to_right nm i d))\<rparr>) (k ())"
  shows "ok n nm i s (cbind (embed (spawn_net_write_str (Some h) (left_name nm i d))) k)"
proof -
  let ?c = "str_chunks (left_name nm i d)"
  let ?t = "s\<lparr>wr := (wr s)(d := wr s d + length (?c ! 0))\<rparr>"
  have "ok n nm i ?t (CSend h (?c ! Suc 0) (k ()))"
    by (rule ok.send_right [where d = d and rest = "[]"])
      (use assms in \<open>auto simp: to_right_def str_chunks_2 add.assoc\<close>)
  from ok.send_right [OF _ _ _ this, where rest = "?c ! Suc 0"]
  have "ok n nm i s (CSend h (?c ! 0) (CSend h (?c ! Suc 0) (k ())))"
    using assms(2-4) by (simp add: to_right_def str_chunks_2)
  then show ?thesis by (simp add: embed_write_str assms(1))
qed

text \<open>What is known when a process reads in round \<open>d\<close>.\<close>

definition reading :: "nat \<Rightarrow> (nat \<Rightarrow> string) \<Rightarrow> nat \<Rightarrow> nat \<Rightarrow> loc \<Rightarrow> bool" where
  "reading n nm i d s \<longleftrightarrow> pend s = None \<and> below n nm i d s \<and> ids s \<and> paired n i d s \<and> written n nm i d s"

lemma reading_upd [simp]:
  "reading n nm i d (s\<lparr>rl := (rl s)(d := x)\<rparr>) = reading n nm i d s" "reading n nm i d (s\<lparr>rr := (rr s)(d := x)\<rparr>) = reading n nm i d s"
  by (auto simp: reading_def below_def left_done_def right_done_def ids_def paired_def written_def)

lemma unpack_chunk:
  assumes "sendable_str str"
  shows "unat (fst (spawn_unpack_uint64 (str_chunks str ! 0))) = length (str_chunks str ! Suc 0)"
    and "str \<noteq> None \<Longrightarrow> load_str (str_chunks str ! Suc 0) = the str" "str = None \<longleftrightarrow> length (str_chunks str ! Suc 0) = 0"
  using assms unat_str_size load_mem_str [of _ "[]"]
  by (cases str; simp add: str_chunks_def sendable_str_def mem_str_def)+

lemma ok_read_left:
  assumes str: "sendable_str str" and st: "reading n nm i d s" "2 ^ d \<le> i" "la s d = Some h"
    and len: "drop (rl s d) (to_right nm (i - 2 ^ d) d) = concat (str_chunks str)"
    and k: "ok n nm i (s\<lparr>rl := (rl s)(d := rl s d + length (concat (str_chunks str)))\<rparr>) (k str)"
  shows "ok n nm i s (cbind (embed (spawn_net_read_str (Some h) junk)) k)"
proof -
  let ?c = "str_chunks str" and ?t = "s\<lparr>rl := (rl s)(d := rl s d + length (str_chunks str ! 0))\<rparr>"
  have t: "reading n nm i d ?t" using st(1) by simp
  have ne0: "?c ! 0 \<noteq> []" using str_chunks_2(2) [of str] by auto
  have "drop (rl ?t d) (to_right nm (i - 2 ^ d) d) = drop (length (?c ! 0)) (drop (rl s d) (to_right nm (i - 2 ^ d) d))"
    by (simp add: add.commute)
  then have d2: "drop (rl ?t d) (to_right nm (i - 2 ^ d) d) = ?c ! Suc 0 @ []"
    using len by (simp add: str_chunks_2)
  have "ok n nm i ?t (if length (?c ! Suc 0) > 0 then CRecv h (length (?c ! Suc 0)) (\<lambda>str. k (Some (load_str str))) else k NULL)"
  proof (cases str)
    case None
    then show ?thesis using k unpack_chunk(3) [OF str] by (simp add: str_chunks_2)
  next
    case (Some x)
    then have ne: "?c ! Suc 0 \<noteq> []" using unpack_chunk(3) [OF str] by simp
    have "ok n nm i ?t (CRecv h (length (?c ! Suc 0)) (\<lambda>str. k (Some (load_str str))))"
      by (rule ok.recv_left [OF _ _ _ _ _ st(2) _ d2 ne])
        (use t st(3) k Some unpack_chunk(2) [OF str] in \<open>auto simp: reading_def str_chunks_2 add.assoc\<close>)
    then show ?thesis using Some unpack_chunk(3) [OF str] by simp
  qed
  then have "ok n nm i s (CRecv h (length (?c ! 0)) (\<lambda>bs. let bytes = unat (fst (spawn_unpack_uint64 bs)) in
      if bytes > 0 then CRecv h bytes (\<lambda>str. k (Some (load_str str))) else k NULL))"
    using st len unpack_chunk(1) [OF str] ne0
    by (intro ok.recv_left [where d = d and rest = "?c ! Suc 0"]) (auto simp: reading_def str_chunks_2 Let_def split: if_splits)
  then show ?thesis by (simp add: embed_read_str str_chunks_2)
qed

lemma ok_read_right:
  assumes str: "sendable_str str" and st: "reading n nm i d s" "i + 2 ^ d < n" "ra s d = Some h"
    and len: "drop (rr s d) (to_left n nm (i + 2 ^ d) d) = concat (str_chunks str)"
    and k: "ok n nm i (s\<lparr>rr := (rr s)(d := rr s d + length (concat (str_chunks str)))\<rparr>) (k str)"
  shows "ok n nm i s (cbind (embed (spawn_net_read_str (Some h) junk)) k)"
proof -
  let ?c = "str_chunks str" and ?t = "s\<lparr>rr := (rr s)(d := rr s d + length (str_chunks str ! 0))\<rparr>"
  have t: "reading n nm i d ?t" using st(1) by simp
  have ne0: "?c ! 0 \<noteq> []" using str_chunks_2(2) [of str] by auto
  have "drop (rr ?t d) (to_left n nm (i + 2 ^ d) d) = drop (length (?c ! 0)) (drop (rr s d) (to_left n nm (i + 2 ^ d) d))"
    by (simp add: add.commute)
  then have d2: "drop (rr ?t d) (to_left n nm (i + 2 ^ d) d) = ?c ! Suc 0 @ []"
    using len by (simp add: str_chunks_2)
  have "ok n nm i ?t (if length (?c ! Suc 0) > 0 then CRecv h (length (?c ! Suc 0)) (\<lambda>str. k (Some (load_str str))) else k NULL)"
  proof (cases str)
    case None
    then show ?thesis using k unpack_chunk(3) [OF str] by (simp add: str_chunks_2)
  next
    case (Some x)
    then have ne: "?c ! Suc 0 \<noteq> []" using unpack_chunk(3) [OF str] by simp
    have "ok n nm i ?t (CRecv h (length (?c ! Suc 0)) (\<lambda>str. k (Some (load_str str))))"
      by (rule ok.recv_right [OF _ _ _ _ _ st(2) _ d2 ne])
        (use t st(3) k Some unpack_chunk(2) [OF str] in \<open>auto simp: reading_def str_chunks_2 add.assoc\<close>)
    then show ?thesis using Some unpack_chunk(3) [OF str] by simp
  qed
  then have "ok n nm i s (CRecv h (length (?c ! 0)) (\<lambda>bs. let bytes = unat (fst (spawn_unpack_uint64 bs)) in
      if bytes > 0 then CRecv h bytes (\<lambda>str. k (Some (load_str str))) else k NULL))"
    using st len unpack_chunk(1) [OF str] ne0
    by (intro ok.recv_right [where d = d and rest = "?c ! Suc 0"]) (auto simp: reading_def str_chunks_2 Let_def split: if_splits)
  then show ?thesis by (simp add: embed_read_str str_chunks_2)
qed

section \<open>A whole round, and all rounds\<close>

lemma left_name_Suc:
  "2 ^ d \<le> i \<Longrightarrow> left_name nm (i - 2 ^ d) d = left_name nm i (Suc d)" "\<not> 2 ^ d \<le> i \<Longrightarrow> left_name nm i (Suc d) = NULL"
  by (auto simp: left_name_def mult_2)

lemma right_name_Suc:
  "i + 2 ^ d < n \<Longrightarrow> right_name n nm (i + 2 ^ d) d = right_name n nm i (Suc d)" "\<not> i + 2 ^ d < n \<Longrightarrow> right_name n nm i (Suc d) = NULL"
  by (auto simp: right_name_def add.assoc mult_2)

definition sendable_names :: "nat \<Rightarrow> (nat \<Rightarrow> string) \<Rightarrow> bool" where
  "sendable_names n nm \<longleftrightarrow> (\<forall>i<n. sendable_str (Some (nm i)))"

lemma sendable_neighbours:
  assumes "sendable_names n nm"
  shows "i < n \<Longrightarrow> sendable_str (left_name nm i d)" "sendable_str (right_name n nm i d)"
proof -
  have "sendable_str NULL" by (simp add: sendable_str_def)
  then show "i < n \<Longrightarrow> sendable_str (left_name nm i d)" "sendable_str (right_name n nm i d)"
    using assms by (simp_all add: sendable_names_def left_name_def right_name_def)
qed

text \<open>The four parts of an exchange, and the ghost states after them.\<close>

abbreviation wrote_left :: "nat \<Rightarrow> (nat \<Rightarrow> string) \<Rightarrow> nat \<Rightarrow> nat \<Rightarrow> loc \<Rightarrow> loc" where
  "wrote_left n nm i d s \<equiv> (if 2 ^ d \<le> i then s\<lparr>wl := (wl s)(d := length (to_left n nm i d))\<rparr> else s)"

abbreviation wrote_right :: "nat \<Rightarrow> (nat \<Rightarrow> string) \<Rightarrow> nat \<Rightarrow> nat \<Rightarrow> loc \<Rightarrow> loc" where
  "wrote_right n nm i d s \<equiv> (if i + 2 ^ d < n then s\<lparr>wr := (wr s)(d := length (to_right nm i d))\<rparr> else s)"

abbreviation read_left :: "(nat \<Rightarrow> string) \<Rightarrow> nat \<Rightarrow> nat \<Rightarrow> loc \<Rightarrow> loc" where
  "read_left nm i d s \<equiv> (if 2 ^ d \<le> i then s\<lparr>rl := (rl s)(d := length (to_right nm (i - 2 ^ d) d))\<rparr> else s)"

abbreviation read_right :: "nat \<Rightarrow> (nat \<Rightarrow> string) \<Rightarrow> nat \<Rightarrow> nat \<Rightarrow> loc \<Rightarrow> loc" where
  "read_right n nm i d s \<equiv> (if i + 2 ^ d < n then s\<lparr>rr := (rr s)(d := length (to_left n nm (i + 2 ^ d) d))\<rparr> else s)"

lemma ok_write_left_if:
  assumes "sendable_names n nm" "pend s = None" "2 ^ d \<le> i \<Longrightarrow> la s d \<noteq> None \<and> ch = la s d \<and> wl s d = 0"
    and "ok n nm i (wrote_left n nm i d s) (k ())"
  shows "ok n nm i s (cbind (embed (if 2 ^ d \<le> i then pbind (spawn_net_write_str ch (right_name n nm i d)) (\<lambda>_. Ret ()) else Ret ())) k)"
  using assms ok_write_left [OF sendable_neighbours(2) [OF assms(1)] assms(2), where k = "\<lambda>_. k ()"]
  by (auto simp: embed_bind cbind_assoc)

lemma ok_write_right_if:
  assumes "sendable_names n nm" "pend s = None" "i + 2 ^ d < n \<Longrightarrow> ra s d \<noteq> None \<and> ch = ra s d \<and> wr s d = 4"
    and "ok n nm i (wrote_right n nm i d s) (k ())"
  shows "ok n nm i s (cbind (embed (if i + 2 ^ d < n then pbind (spawn_net_write_str ch (left_name nm i d)) (\<lambda>_. Ret ()) else Ret ())) k)"
proof (cases "i + 2 ^ d < n")
  case True
  then have "i < n" by simp
  from ok_write_right [OF sendable_neighbours(1) [OF assms(1) this] assms(2), where k = "\<lambda>_. k ()"]
  show ?thesis using True assms(3,4) by (auto simp: embed_bind cbind_assoc)
qed (use assms(4) in simp)

lemma ok_read_left_if:
  assumes "sendable_names n nm" "i < n" "reading n nm i d s" "2 ^ d \<le> i \<Longrightarrow> ch = la s d \<and> rl s d = 4"
    and "ok n nm i (read_left nm i d s) (k (left_name nm i (Suc d)))"
  shows "ok n nm i s (cbind (embed (if 2 ^ d \<le> i then spawn_net_read_str ch junk else Ret NULL)) k)"
proof (cases "2 ^ d \<le> i")
  case True
  then obtain h where h: "la s d = Some h" using assms(3) by (auto simp: reading_def paired_def)
  have "drop (rl s d) (to_right nm (i - 2 ^ d) d) = concat (str_chunks (left_name nm i (Suc d)))"
    using True assms(4) left_name_Suc(1) [OF True, of nm] by (simp add: to_right_def)
  from ok_read_left [OF sendable_neighbours(1) [OF assms(1,2)] assms(3) True h this, of k junk]
  show ?thesis using True assms(4,5) h left_name_Suc(1) [OF True, of nm] by (simp add: to_right_def)
qed (use assms(5) left_name_Suc(2) in simp)

lemma ok_read_right_if:
  assumes "sendable_names n nm" "reading n nm i d s" "i + 2 ^ d < n \<Longrightarrow> ch = ra s d \<and> rr s d = 0"
    and "ok n nm i (read_right n nm i d s) (k (right_name n nm i (Suc d)))"
  shows "ok n nm i s (cbind (embed (if i + 2 ^ d < n then spawn_net_read_str ch junk else Ret NULL)) k)"
proof (cases "i + 2 ^ d < n")
  case True
  then obtain h where h: "ra s d = Some h" using assms(2) by (auto simp: reading_def paired_def)
  have "drop (rr s d) (to_left n nm (i + 2 ^ d) d) = concat (str_chunks (right_name n nm i (Suc d)))"
    using True assms(3) right_name_Suc(1) [OF True, of nm] by (simp add: to_left_def)
  from ok_read_right [OF sendable_neighbours(2) [OF assms(1)] assms(2) True h this, of k junk]
  show ?thesis using True assms(3,4) h right_name_Suc(1) [OF True, of nm] by (simp add: to_left_def)
qed (use assms(4) right_name_Suc(2) in simp)

lemma round_complete:
  assumes "good n nm i d s g" "half n i d s"
    and "s' = read_right n nm i d (read_left nm i d (wrote_right n nm i d (wrote_left n nm i d s)))"
  shows "good n nm i (Suc d) s' g" "fresh_from (Suc d) s'"
proof -
  have eq: "la s' = la s" "ra s' = ra s" "pend s' = pend s" "wl s' = (if 2 ^ d \<le> i then (wl s)(d := length (to_left n nm i d)) else wl s)"
      "wr s' = (if i + 2 ^ d < n then (wr s)(d := length (to_right nm i d)) else wr s)"
      "rl s' = (if 2 ^ d \<le> i then (rl s)(d := length (to_right nm (i - 2 ^ d) d)) else rl s)"
      "rr s' = (if i + 2 ^ d < n then (rr s)(d := length (to_left n nm (i + 2 ^ d) d)) else rr s)"
    unfolding assms(3) by simp_all
  have len: "4 \<le> length (to_right nm i d)" by (simp add: to_right_def)
  have "below n nm i (Suc d) s'"
    using assms(1,2) eq by (auto simp: below_def good_def half_def paired_def left_done_def right_done_def less_Suc_eq)
  moreover have "ids s'" using assms(1) eq len by (auto simp: good_def ids_def)
  moreover have "agree n i s' g" "pend s' = None" using assms(1) eq by (auto simp: good_def agree_def)
  ultimately show "good n nm i (Suc d) s' g" by (simp add: good_def)
  show "fresh_from (Suc d) s'" using assms(2) eq by (auto simp: half_def fresh_from_def)
qed

lemma ok_exchange:
  assumes nm: "sendable_names n nm" and i: "i < n" and st: "good n nm i d s g" "half n i d s"
    and k: "\<And>s'. good n nm i (Suc d) s' g \<Longrightarrow> fresh_from (Suc d) s' \<Longrightarrow> ok n nm i s' (k (left_name nm i (Suc d), right_name n nm i (Suc d)))"
  shows "ok n nm i s (cbind (embed (exchange g d (2 ^ d) (\<lambda>ch. spawn_net_write_str ch (right_name n nm i d))
    (\<lambda>ch. spawn_net_write_str ch (left_name nm i d)) (\<lambda>ch. spawn_net_read_str ch junk) (\<lambda>ch. spawn_net_read_str ch junk) NULL NULL)) k)"
proof -
  have g: "grp_rank g = i" "grp_size g = n" using st(1) by (auto simp: good_def agree_def)
  have ch: "2 ^ d \<le> i \<Longrightarrow> list_left g ! d = la s d" "i + 2 ^ d < n \<Longrightarrow> list_right g ! d = ra s d"
    using agree_round [of n i s g d] st(1) i by (auto simp: good_def agree_def)
  have h: "pend s = None" "paired n i d s" "below n nm i d s" "ids s" "wl s d = 0" "rr s d = 0"
      "2 ^ d \<le> i \<Longrightarrow> rl s d = 4" "i + 2 ^ d < n \<Longrightarrow> wr s d = 4"
    using st by (auto simp: good_def half_def)
  define s2 where "s2 = wrote_right n nm i d (wrote_left n nm i d s)"
  have eq: "la s2 = la s" "ra s2 = ra s" "rl s2 = rl s" "rr s2 = rr s" unfolding s2_def by simp_all
  have rd: "reading n nm i d s2"
    using h unfolding s2_def
    by (auto simp: reading_def paired_def below_def left_done_def right_done_def ids_def written_def to_right_def)
  have fin: "ok n nm i (read_right n nm i d (read_left nm i d s2)) (k (left_name nm i (Suc d), right_name n nm i (Suc d)))"
    by (rule k; rule round_complete [OF st]) (simp_all only: s2_def)
  have rd': "reading n nm i d (read_left nm i d s2)" using rd by simp
  let ?R = "\<lambda>x. cbind (embed (if i + 2 ^ d < n then spawn_net_read_str (list_right g ! d) junk else Ret NULL)) (\<lambda>y. k (x, y))"
  let ?L = "cbind (embed (if 2 ^ d \<le> i then spawn_net_read_str (list_left g ! d) junk else Ret NULL)) ?R"
  let ?W = "cbind (embed (if i + 2 ^ d < n then pbind (spawn_net_write_str (list_right g ! d) (left_name nm i d)) (\<lambda>_. Ret ()) else Ret ())) (\<lambda>_. ?L)"
  have "ok n nm i (read_left nm i d s2) (?R (left_name nm i (Suc d)))"
    by (rule ok_read_right_if [where k = "\<lambda>y. k (left_name nm i (Suc d), y)", OF nm rd' _ fin]) (use ch(2) h(6) eq in auto)
  then have "ok n nm i s2 ?L"
    by (intro ok_read_left_if [OF nm i rd]) (use ch(1) h(7) eq in auto)
  then have W: "ok n nm i (wrote_left n nm i d s) ?W"
    by (intro ok_write_right_if [OF nm]) (use ch(2) h s2_def in \<open>auto simp: paired_def\<close>)
  from ok_write_left_if [where k = "\<lambda>_. ?W", OF nm h(1) _ W, of "list_left g ! d"]
  show ?thesis using ch(1) h(2,5) g by (simp add: exchange_def Let_def embed_bind cbind_assoc paired_def)
qed

lemma ok_rounds:
  assumes nm: "sendable_names n nm" and i: "i < n" "n \<le> 2 ^ 63" and st: "good n nm i d s g" "fresh_from d s"
  shows "ok n nm i s (connect_rounds exchange junk n d (2 ^ d) g (left_name nm i d) (right_name n nm i d))"
  using st
proof (induction "n - 2 ^ d" arbitrary: d s g rule: less_induct)
  case less
  show ?case
  proof (cases "2 ^ d < n")
    case True
    let ?rest = "\<lambda>g (l, r). connect_rounds exchange junk n (Suc d) (2 * 2 ^ d) g l r"
    have m: "n - 2 ^ Suc d < n - 2 ^ d" using True by (intro diff_less_mono2) auto
    have "ok n nm i s' (cbind (embed (exchange g' d (2 ^ d) (\<lambda>ch. spawn_net_write_str ch (right_name n nm i d))
        (\<lambda>ch. spawn_net_write_str ch (left_name nm i d)) (\<lambda>ch. spawn_net_read_str ch junk) (\<lambda>ch. spawn_net_read_str ch junk) NULL NULL)) (?rest g'))"
      if "good n nm i d s' g'" "half n i d s'" for s' g'
      using less.hyps [OF m] by (intro ok_exchange [OF nm i(1) that]) simp
    from ok_connect_pair [OF i less.prems this]
    show ?thesis using True by (subst connect_rounds.simps) simp
  next
    case False
    then have "ok n nm i s (CRet g)" using less.prems(1) by (intro ok.ret [of n d]) (auto simp: good_def)
    then show ?thesis using False by (subst connect_rounds.simps) simp
  qed
qed

theorem ok_create:
  assumes "sendable_names n nm" "i < n" "n \<le> 2 ^ 63"
  shows "ok n nm i loc0 (lwgrp_create junk n i (nm i) (left_name nm i 0) (right_name n nm i 0) ep)"
proof -
  let ?L = "rounds_loop n 0 1 + 1"
  let ?g = "\<lparr>grp_size = n, grp_rank = i, grp_name = nm i, grp_left = left_name nm i 0, grp_right = right_name n nm i 0,
    grp_list_size = ?L, list_left = replicate ?L NULL, list_right = replicate ?L NULL, grp_ep = ep\<rparr>"
  have "n \<le> 2 ^ rounds_loop n 0 1" using rounds_loop_le [of n 0] by simp
  then have "n \<le> 2 ^ ?L" by simp
  then have "agree n i loc0 ?g" by (auto simp: agree_def loc0_def nth_Cons split: nat.splits)
  then have "good n nm i 0 loc0 ?g" "fresh_from 0 loc0"
    by (auto simp: good_def below_def ids_def loc0_def fresh_from_def)
  from ok_rounds [OF assms this, of junk] show ?thesis by (simp add: lwgrp_create_def lwgrp_connect_def Let_def)
qed

end
