(* ===== verification/Lwgrp_Link_Net.thy ===== *)
theory Lwgrp_Link_Net
  imports Lwgrp_Link
begin

text \<open>
  All processes of a group while they connect. The invariant of the network has two parts: how the
  channels of the processes belong together, and which bytes are on them. With the judgement \<open>ok\<close> of
  theory \<open>Lwgrp_Link\<close> it excludes that the processes wait for each other.
\<close>

section \<open>How the channels belong together\<close>

text \<open>The handles of a process are used for one thing each, and were given out before.\<close>

definition own_handles :: "(nat \<rightharpoonup> nat) \<Rightarrow> (nat \<rightharpoonup> nat) \<Rightarrow> nat option \<Rightarrow> nat \<Rightarrow> bool" where
  "own_handles L R P x \<longleftrightarrow>
     (\<forall>e h. L e = Some h \<longrightarrow> h < x \<and> P \<noteq> Some h \<and> (\<forall>e'. R e' \<noteq> Some h) \<and> (\<forall>e'. L e' = Some h \<longrightarrow> e' = e)) \<and>
     (\<forall>e h. R e = Some h \<longrightarrow> h < x \<and> P \<noteq> Some h \<and> (\<forall>e'. R e' = Some h \<longrightarrow> e' = e)) \<and>
     (\<forall>h. P = Some h \<longrightarrow> h < x) \<and>
     (\<forall>h<x. P = Some h \<or> (\<exists>e. L e = Some h \<or> R e = Some h))"

lemma own_handles_right:
  assumes "own_handles L R P x" "R d = None"
  shows "own_handles L (R(d \<mapsto> x)) P (Suc x)"
proof -
  have "P = Some h \<or> (\<exists>e. L e = Some h \<or> (R(d \<mapsto> x)) e = Some h)" if "h < Suc x" for h
  proof (cases "h = x")
    case True
    then have "(R(d \<mapsto> x)) d = Some h" by simp
    then show ?thesis by blast
  next
    case False
    then have "P = Some h \<or> (\<exists>e. L e = Some h \<or> R e = Some h)" using assms(1) that by (auto simp: own_handles_def)
    then show ?thesis using assms(2) by (metis fun_upd_other option.distinct(1))
  qed
  then show ?thesis using assms(1) unfolding own_handles_def by (auto simp: less_Suc_eq)
qed

lemma own_handles_pend: "own_handles L R None x \<Longrightarrow> own_handles L R (Some x) (Suc x)"
  unfolding own_handles_def by (auto simp: less_Suc_eq)

lemma own_handles_left:
  assumes "own_handles L R (Some h) x" "L e = None"
  shows "own_handles (L(e \<mapsto> h)) R None x"
proof -
  have "\<exists>f. (L(e \<mapsto> h)) f = Some b \<or> R f = Some b" if "b < x" for b
  proof (cases "b = h")
    case True
    then have "(L(e \<mapsto> h)) e = Some b" by simp
    then show ?thesis by blast
  next
    case False
    have "Some h = Some b \<or> (\<exists>f. L f = Some b \<or> R f = Some b)" using assms(1) that unfolding own_handles_def by blast
    then obtain f where "L f = Some b \<or> R f = Some b" using False by blast
    then have "(L(e \<mapsto> h)) f = Some b \<or> R f = Some b" using assms(2) by auto
    then show ?thesis by blast
  qed
  then show ?thesis using assms unfolding own_handles_def by (auto split: if_splits)
qed

text \<open>
  A right channel is waiting to be accepted, or it is linked to a channel of the process it leads
  to; that channel is the left channel of the same round, or its round has not been read yet.
\<close>

inductive wired :: "nat \<Rightarrow> (nat \<Rightarrow> nat \<rightharpoonup> nat) \<Rightarrow> (nat \<Rightarrow> nat \<rightharpoonup> nat) \<Rightarrow> (nat \<Rightarrow> nat option)
    \<Rightarrow> (chan_end \<rightharpoonup> chan_end) \<Rightarrow> (nat \<Rightarrow> chan_end set) \<Rightarrow> (nat \<Rightarrow> nat) \<Rightarrow> bool" for n L R P lk wt nx where
  wiredI: "(\<And>i. own_handles (L i) (R i) (P i) (nx i)) \<Longrightarrow> (\<And>i h. nx i \<le> h \<Longrightarrow> lk (i, h) = None) \<Longrightarrow>
    (\<And>x y. lk x = Some y \<Longrightarrow> lk y = Some x) \<Longrightarrow>
    (\<And>i e h. R i e = Some h \<Longrightarrow> i + 2 ^ e < n) \<Longrightarrow>
    (\<And>i e h. R i e = Some h \<Longrightarrow> lk (i, h) = None \<Longrightarrow> (i, h) \<in> wt (i + 2 ^ e) \<and> L (i + 2 ^ e) e = None) \<Longrightarrow>
    (\<And>i e h x. R i e = Some h \<Longrightarrow> lk (i, h) = Some x \<Longrightarrow>
       \<exists>h'. x = (i + 2 ^ e, h') \<and> (L (i + 2 ^ e) e = Some h' \<or> L (i + 2 ^ e) e = None \<and> P (i + 2 ^ e) = Some h')) \<Longrightarrow>
    (\<And>j e h'. L j e = Some h' \<Longrightarrow> \<exists>i h. j = i + 2 ^ e \<and> R i e = Some h \<and> lk (j, h') = Some (i, h)) \<Longrightarrow>
    (\<And>j h'. P j = Some h' \<Longrightarrow> \<exists>i e h. j = i + 2 ^ e \<and> R i e = Some h \<and> L j e = None \<and> lk (j, h') = Some (i, h)) \<Longrightarrow>
    (\<And>i h j. (i, h) \<in> wt j \<Longrightarrow> \<exists>e. j = i + 2 ^ e \<and> R i e = Some h \<and> lk (i, h) = None) \<Longrightarrow>
    wired n L R P lk wt nx"

lemma wired_own: "wired n L R P lk wt nx \<Longrightarrow> own_handles (L i) (R i) (P i) (nx i)"
  by (erule wired.cases)

lemma wired_fresh: "wired n L R P lk wt nx \<Longrightarrow> nx i \<le> h \<Longrightarrow> lk (i, h) = None"
  by (erule wired.cases)

lemma wired_sym: "wired n L R P lk wt nx \<Longrightarrow> lk x = Some y \<Longrightarrow> lk y = Some x"
  by (erule wired.cases)

lemma wired_right:
  assumes "wired n L R P lk wt nx" "R i e = Some h"
  shows "i + 2 ^ e < n"
    and "lk (i, h) = None \<Longrightarrow> (i, h) \<in> wt (i + 2 ^ e) \<and> L (i + 2 ^ e) e = None"
    and "lk (i, h) = Some x \<Longrightarrow> \<exists>h'. x = (i + 2 ^ e, h') \<and> (L (i + 2 ^ e) e = Some h' \<or> L (i + 2 ^ e) e = None \<and> P (i + 2 ^ e) = Some h')"
proof -
  show "i + 2 ^ e < n" using assms(1)
  proof cases
    case wiredI
    show ?thesis by (rule wiredI(4) [OF assms(2)])
  qed
  show "(i, h) \<in> wt (i + 2 ^ e) \<and> L (i + 2 ^ e) e = None" if "lk (i, h) = None" using assms(1)
  proof cases
    case wiredI
    show ?thesis by (rule wiredI(5) [OF assms(2) that])
  qed
  show "\<exists>h'. x = (i + 2 ^ e, h') \<and> (L (i + 2 ^ e) e = Some h' \<or> L (i + 2 ^ e) e = None \<and> P (i + 2 ^ e) = Some h')"
    if "lk (i, h) = Some x" using assms(1)
  proof cases
    case wiredI
    show ?thesis by (rule wiredI(6) [OF assms(2) that])
  qed
qed

lemma wired_left: "wired n L R P lk wt nx \<Longrightarrow> L j e = Some h' \<Longrightarrow> \<exists>i h. j = i + 2 ^ e \<and> R i e = Some h \<and> lk (j, h') = Some (i, h)"
  by (erule wired.cases)

lemma wired_pend:
  "wired n L R P lk wt nx \<Longrightarrow> P j = Some h' \<Longrightarrow> \<exists>i e h. j = i + 2 ^ e \<and> R i e = Some h \<and> L j e = None \<and> lk (j, h') = Some (i, h)"
  by (erule wired.cases)

lemma wired_waiting: "wired n L R P lk wt nx \<Longrightarrow> (i, h) \<in> wt j \<Longrightarrow> \<exists>e. j = i + 2 ^ e \<and> R i e = Some h \<and> lk (i, h) = None"
  by (erule wired.cases)

lemma wired_used: "wired n L R P lk wt nx \<Longrightarrow> lk (i, h) = Some x \<Longrightarrow> P i = Some h \<or> (\<exists>e. L i e = Some h \<or> R i e = Some h)"
proof -
  assume w: "wired n L R P lk wt nx" "lk (i, h) = Some x"
  then have "h < nx i" using wired_fresh [OF w(1)] by (metis not_le_imp_less option.distinct(1))
  then show ?thesis using wired_own [OF w(1), of i] by (auto simp: own_handles_def)
qed

lemma wired_connect:
  assumes w: "wired n L R P lk wt nx" and d: "i + 2 ^ d < n" "R i d = None"
  shows "wired n L (R(i := (R i)(d \<mapsto> nx i))) P lk (wt(i + 2 ^ d := insert (i, nx i) (wt (i + 2 ^ d)))) (nx(i := Suc (nx i)))"
    (is "wired n L ?R P lk ?wt ?nx")
proof (rule wiredI)
  have new: "lk (i, nx i) = None" using wired_fresh [OF w] by simp
  have Ld: "L (i + 2 ^ d) d = None"
  proof (cases "L (i + 2 ^ d) d")
    case (Some h')
    then show ?thesis using wired_left [OF w Some] d(2) by auto
  qed
  have old: "?R a e = Some h \<Longrightarrow> (a = i \<and> e = d \<and> h = nx i) \<or> R a e = Some h" for a e h by (auto split: if_splits)
  have keep: "R a e = Some h \<Longrightarrow> ?R a e = Some h" for a e h using d(2) by auto
  show "own_handles (L a) (?R a) (P a) (?nx a)" for a using wired_own [OF w, of a] own_handles_right d(2) by auto
  show "lk (a, h) = None" if "?nx a \<le> h" for a h using that wired_fresh [OF w] by (auto split: if_splits)
  show "lk y = Some x" if "lk x = Some y" for x y using that wired_sym [OF w] by blast
  show "a + 2 ^ e < n" if "?R a e = Some h" for a e h using old [OF that] d(1) wired_right(1) [OF w] by blast
  show "(a, h) \<in> ?wt (a + 2 ^ e) \<and> L (a + 2 ^ e) e = None" if "?R a e = Some h" "lk (a, h) = None" for a e h
  proof (cases "R a e = Some h")
    case True
    from wired_right(2) [OF w True that(2)] show ?thesis by auto
  next
    case False
    then show ?thesis using old [OF that(1)] Ld by auto
  qed
  show "\<exists>h'. x = (a + 2 ^ e, h') \<and> (L (a + 2 ^ e) e = Some h' \<or> L (a + 2 ^ e) e = None \<and> P (a + 2 ^ e) = Some h')"
    if "?R a e = Some h" "lk (a, h) = Some x" for a e h x
    using old [OF that(1)] new that(2) wired_right(3) [OF w _ that(2)] by auto
  show "\<exists>a h. j = a + 2 ^ e \<and> ?R a e = Some h \<and> lk (j, h') = Some (a, h)" if "L j e = Some h'" for j e h'
    using wired_left [OF w that] keep by blast
  show "\<exists>a e h. j = a + 2 ^ e \<and> ?R a e = Some h \<and> L j e = None \<and> lk (j, h') = Some (a, h)" if "P j = Some h'" for j h'
    using wired_pend [OF w that] keep by blast
  show "\<exists>e. j = a + 2 ^ e \<and> ?R a e = Some h \<and> lk (a, h) = None" if m: "(a, h) \<in> ?wt j" for a h j
  proof (cases "(a, h) = (i, nx i) \<and> j = i + 2 ^ d")
    case True
    then show ?thesis using new by (intro exI [of _ d]) auto
  next
    case False
    then have "(a, h) \<in> wt j" using m by (auto split: if_splits)
    from wired_waiting [OF w this] show ?thesis using keep by blast
  qed
qed

lemma wired_accept:
  assumes w: "wired n L R P lk wt nx" and e: "(i, h) \<in> wt j" "P j = None"
  shows "wired n L R (P(j \<mapsto> nx j)) (lk((i, h) \<mapsto> (j, nx j), (j, nx j) \<mapsto> (i, h))) (wt(j := wt j - {(i, h)})) (nx(j := Suc (nx j)))"
    (is "wired n L R ?P ?lk ?wt ?nx")
proof (rule wiredI)
  obtain d where d: "j = i + 2 ^ d" "R i d = Some h" "lk (i, h) = None" using wired_waiting [OF w e(1)] by auto
  have ij: "i \<noteq> j" using d(1) by simp
  have Ld: "L j d = None" using wired_right(2) [OF w d(2,3)] d(1) by simp
  have lt: "h < nx i" using wired_own [OF w, of i] d(2) by (auto simp: own_handles_def)
  have uniq: "e = d" if "R i e = Some h" for e using wired_own [OF w, of i] d(2) that by (auto simp: own_handles_def)
  have Rj: "R j e \<noteq> Some (nx j)" "L j e \<noteq> Some (nx j)" for e using wired_own [OF w, of j] by (auto simp: own_handles_def)
  have new: "lk (j, nx j) = None" using wired_fresh [OF w] by simp
  have keep: "?lk x = lk x" if "x \<noteq> (i, h)" "x \<noteq> (j, nx j)" for x using that by auto
  have same: "lk x = Some y \<Longrightarrow> ?lk x = Some y" for x y using d(3) new by auto
  show "own_handles (L a) (R a) (?P a) (?nx a)" for a using wired_own [OF w, of a] own_handles_pend e(2) by auto
  show "?lk (a, b) = None" if "?nx a \<le> b" for a b using that wired_fresh [OF w] lt ij by (auto split: if_splits)
  show "?lk y = Some x" if "?lk x = Some y" for x y
  proof (cases "x = (i, h) \<or> x = (j, nx j)")
    case True
    then show ?thesis using that ij by auto
  next
    case False
    then have "lk x = Some y" using that keep by simp
    from same [OF wired_sym [OF w this]] show ?thesis .
  qed
  show "a + 2 ^ e < n" if "R a e = Some b" for a e b using wired_right(1) [OF w that] .
  show "(a, b) \<in> ?wt (a + 2 ^ e) \<and> L (a + 2 ^ e) e = None" if "R a e = Some b" "?lk (a, b) = None" for a e b
    using wired_right(2) [OF w that(1)] that(2) by (auto split: if_splits)
  show "\<exists>h'. x = (a + 2 ^ e, h') \<and> (L (a + 2 ^ e) e = Some h' \<or> L (a + 2 ^ e) e = None \<and> ?P (a + 2 ^ e) = Some h')"
    if "R a e = Some b" "?lk (a, b) = Some x" for a e b x
  proof (cases "(a, b) = (i, h)")
    case True
    then show ?thesis using that uniq d(1) Ld ij by auto
  next
    case False
    then have "lk (a, b) = Some x" using that Rj by (auto split: if_splits)
    from wired_right(3) [OF w that(1) this] show ?thesis using e(2) by auto
  qed
  show "\<exists>a h. b = a + 2 ^ e \<and> R a e = Some h \<and> ?lk (b, h') = Some (a, h)" if "L b e = Some h'" for b e h'
    using wired_left [OF w that] same by blast
  show "\<exists>a e h. b = a + 2 ^ e \<and> R a e = Some h \<and> L b e = None \<and> ?lk (b, h') = Some (a, h)" if "?P b = Some h'" for b h'
  proof (cases "b = j")
    case True
    then show ?thesis using that d Ld by auto
  next
    case False
    then have "P b = Some h'" using that by simp
    from wired_pend [OF w this] show ?thesis using same by blast
  qed
  show "\<exists>e. b = a + 2 ^ e \<and> R a e = Some h' \<and> ?lk (a, h') = None" if m: "(a, h') \<in> ?wt b" for a h' b
  proof -
    have "(a, h') \<in> wt b" using m by (auto split: if_splits)
    from wired_waiting [OF w this] obtain e where x: "b = a + 2 ^ e" "R a e = Some h'" "lk (a, h') = None" by blast
    then have "(a, h') \<noteq> (i, h)" using m uniq d(1) by (auto split: if_splits)
    then show ?thesis using x Rj keep by (intro exI [of _ e]) auto
  qed
qed

lemma wired_ident:
  assumes w: "wired n L R P lk wt nx" and e: "P j = Some h'" "j = i + 2 ^ d" "R i d = Some h" "L j d = None" "lk (j, h') = Some (i, h)"
  shows "wired n (L(j := (L j)(d \<mapsto> h'))) R (P(j := None)) lk wt nx" (is "wired n ?L R ?P lk wt nx")
proof (rule wiredI)
  have lk: "lk (i, h) = Some (j, h')" using wired_sym [OF w e(5)] .
  have old: "L b e = Some x \<Longrightarrow> ?L b e = Some x" for b e x using e(4) by auto
  show "own_handles (?L a) (R a) (?P a) (nx a)" for a using wired_own [OF w, of a] own_handles_left e(1,4) by auto
  show "lk (a, b) = None" if "nx a \<le> b" for a b using that wired_fresh [OF w] by simp
  show "lk y = Some x" if "lk x = Some y" for x y using that wired_sym [OF w] by blast
  show "a + 2 ^ f < n" if "R a f = Some b" for a f b using wired_right(1) [OF w that] .
  show "(a, b) \<in> wt (a + 2 ^ f) \<and> ?L (a + 2 ^ f) f = None" if "R a f = Some b" "lk (a, b) = None" for a f b
  proof -
    have "a + 2 ^ f = j \<Longrightarrow> f \<noteq> d" using that e(2,3) lk by auto
    then show ?thesis using wired_right(2) [OF w that] by auto
  qed
  show "\<exists>h'. x = (a + 2 ^ f, h') \<and> (?L (a + 2 ^ f) f = Some h' \<or> ?L (a + 2 ^ f) f = None \<and> ?P (a + 2 ^ f) = Some h')"
    if r: "R a f = Some b" "lk (a, b) = Some x" for a f b x
  proof -
    obtain y where y: "x = (a + 2 ^ f, y)" "L (a + 2 ^ f) f = Some y \<or> L (a + 2 ^ f) f = None \<and> P (a + 2 ^ f) = Some y"
      using wired_right(3) [OF w r] by blast
    show ?thesis
    proof (cases "L (a + 2 ^ f) f = Some y")
      case True
      then show ?thesis using y(1) old by blast
    next
      case False
      then have p: "P (a + 2 ^ f) = Some y" using y by blast
      show ?thesis
      proof (cases "a + 2 ^ f = j")
        case True
        then have "y = h'" using p e(1) by simp
        then have "(a, b) = (i, h)" using True r(2) y(1) wired_sym [OF w, of "(a, b)" "(j, h')"] e(5) by simp
        then have "f = d" using True e(2) by (auto dest: power_inject_exp [THEN iffD1, rotated])
        then show ?thesis using y(1) True \<open>y = h'\<close> by auto
      next
        case False
        then show ?thesis using y by auto
      qed
    qed
  qed
  show "\<exists>a h. b = a + 2 ^ f \<and> R a f = Some h \<and> lk (b, x) = Some (a, h)" if "?L b f = Some x" for b f x
    using that wired_left [OF w, of b f x] e by (cases "b = j \<and> f = d") (auto split: if_splits)
  show "\<exists>a f h. b = a + 2 ^ f \<and> R a f = Some h \<and> ?L b f = None \<and> lk (b, x) = Some (a, h)" if "?P b = Some x" for b x
    using that wired_pend [OF w, of b x] by (auto split: if_splits)
  show "\<exists>f. b = a + 2 ^ f \<and> R a f = Some x \<and> lk (a, x) = None" if "(a, x) \<in> wt b" for a x b
    using wired_waiting [OF w that] .
qed

section \<open>Which bytes are on the channels\<close>

text \<open>A channel of one process: its handle, how much of what is to be written has been written, and how much was read.\<close>

definition chan_bytes :: "nat option \<Rightarrow> nat \<Rightarrow> nat \<Rightarrow> byte list \<Rightarrow> (nat \<Rightarrow> byte list) \<Rightarrow> (nat \<Rightarrow> nat) \<Rightarrow> bool" where
  "chan_bytes a w r outp lg off \<longleftrightarrow> (case a of None \<Rightarrow> w = 0 \<and> r = 0 | Some h \<Rightarrow> lg h = take w outp \<and> off h = r)"

lemma chan_bytes_simps [simp]:
  "chan_bytes None w r outp lg off \<longleftrightarrow> w = 0 \<and> r = 0"
  "chan_bytes (Some h) w r outp lg off \<longleftrightarrow> lg h = take w outp \<and> off h = r"
  "a \<noteq> Some h \<Longrightarrow> chan_bytes a w r outp (lg(h := x)) off = chan_bytes a w r outp lg off"
  "a \<noteq> Some h \<Longrightarrow> chan_bytes a w r outp lg (off(h := y)) = chan_bytes a w r outp lg off"
  by (auto simp: chan_bytes_def split: option.splits)

text \<open>What process \<open>i\<close> has written and read; a channel that is not in use yet is empty.\<close>

definition carries :: "nat \<Rightarrow> (nat \<Rightarrow> string) \<Rightarrow> nat \<Rightarrow> loc \<Rightarrow> (nat \<Rightarrow> byte list) \<Rightarrow> (nat \<Rightarrow> nat) \<Rightarrow> nat \<Rightarrow> bool" where
  "carries n nm i s lg off x \<longleftrightarrow> (\<forall>e. chan_bytes (la s e) (wl s e) (rl s e) (to_left n nm i e) lg off)
     \<and> (\<forall>e. chan_bytes (ra s e) (wr s e) (rr s e) (to_right nm i e) lg off)
     \<and> (\<forall>h. x \<le> h \<or> pend s = Some h \<longrightarrow> lg h = [] \<and> off h = 0)"

lemma carries_left: "carries n nm i s lg off x \<Longrightarrow> chan_bytes (la s e) (wl s e) (rl s e) (to_left n nm i e) lg off"
  by (simp add: carries_def)

lemma carries_right: "carries n nm i s lg off x \<Longrightarrow> chan_bytes (ra s e) (wr s e) (rr s e) (to_right nm i e) lg off"
  by (simp add: carries_def)

lemma take_step: "drop w xs = bs @ rest \<Longrightarrow> take w xs @ bs = take (w + length bs) xs"
  by (simp add: take_add)

lemma carries_connect:
  assumes "carries n nm i s lg off x" "ra s d = None" "own_handles (la s) (ra s) (pend s) x"
  shows "carries n nm i (s\<lparr>ra := (ra s)(d \<mapsto> x)\<rparr>) lg off (Suc x)"
  using assms carries_right [OF assms(1), of d] unfolding carries_def by auto

lemma carries_pend:
  assumes "carries n nm i s lg off x" "own_handles (la s) (ra s) (pend s) x" "pend s = None"
  shows "carries n nm i (s\<lparr>pend := Some x\<rparr>) lg off (Suc x)"
  using assms unfolding carries_def by auto

lemma carries_ident:
  assumes c: "carries n nm i s lg off x" and o: "own_handles (la s) (ra s) (pend s) x" and p: "pend s = Some h" "la s e = None"
  shows "carries n nm i (s\<lparr>la := (la s)(e \<mapsto> h), rl := (rl s)(e := 4), pend := None\<rparr>) lg (off(h := 4)) x"
proof -
  have h: "h < x" "la s e' \<noteq> Some h" "ra s e' \<noteq> Some h" for e' using o p(1) by (auto simp: own_handles_def)
  have z: "lg h = []" "off h = 0" "wl s e = 0" using c p carries_left [OF c, of e] by (auto simp: carries_def)
  show ?thesis using c p h z unfolding carries_def by auto
qed

lemma carries_send_left:
  assumes c: "carries n nm i s lg off x" and o: "own_handles (la s) (ra s) (pend s) x"
    and h: "la s d = Some h" "drop (wl s d) (to_left n nm i d) = bs @ rest"
  shows "carries n nm i (s\<lparr>wl := (wl s)(d := wl s d + length bs)\<rparr>) (lg(h := lg h @ bs)) off x"
proof -
  have u: "h < x" "pend s \<noteq> Some h" "ra s e \<noteq> Some h" "e \<noteq> d \<Longrightarrow> la s e \<noteq> Some h" for e using o h(1) by (auto simp: own_handles_def)
  have "lg h = take (wl s d) (to_left n nm i d)" using carries_left [OF c, of d] h(1) by simp
  then have "lg h @ bs = take (wl s d + length bs) (to_left n nm i d)" using take_step [OF h(2)] by simp
  then show ?thesis using c u h(1) carries_left [OF c, of d] unfolding carries_def by auto
qed

lemma carries_send_right:
  assumes c: "carries n nm i s lg off x" and o: "own_handles (la s) (ra s) (pend s) x"
    and h: "ra s d = Some h" "drop (wr s d) (to_right nm i d) = bs @ rest"
  shows "carries n nm i (s\<lparr>wr := (wr s)(d := wr s d + length bs)\<rparr>) (lg(h := lg h @ bs)) off x"
proof -
  have u: "h < x" "pend s \<noteq> Some h" "la s e \<noteq> Some h" "e \<noteq> d \<Longrightarrow> ra s e \<noteq> Some h" for e using o h(1) by (auto simp: own_handles_def)
  have "lg h = take (wr s d) (to_right nm i d)" using carries_right [OF c, of d] h(1) by simp
  then have "lg h @ bs = take (wr s d + length bs) (to_right nm i d)" using take_step [OF h(2)] by simp
  then show ?thesis using c u h(1) carries_right [OF c, of d] unfolding carries_def by auto
qed

lemma carries_recv_left:
  assumes c: "carries n nm i s lg off x" and o: "own_handles (la s) (ra s) (pend s) x" and h: "la s d = Some h"
  shows "carries n nm i (s\<lparr>rl := (rl s)(d := rl s d + m)\<rparr>) lg (off(h := off h + m)) x"
proof -
  have u: "h < x" "pend s \<noteq> Some h" "ra s e \<noteq> Some h" "e \<noteq> d \<Longrightarrow> la s e \<noteq> Some h" for e using o h(1) by (auto simp: own_handles_def)
  show ?thesis using c u h(1) carries_left [OF c, of d] unfolding carries_def by auto
qed

lemma carries_recv_right:
  assumes c: "carries n nm i s lg off x" and o: "own_handles (la s) (ra s) (pend s) x" and h: "ra s d = Some h"
  shows "carries n nm i (s\<lparr>rr := (rr s)(d := rr s d + m)\<rparr>) lg (off(h := off h + m)) x"
proof -
  have u: "h < x" "pend s \<noteq> Some h" "la s e \<noteq> Some h" "e \<noteq> d \<Longrightarrow> ra s e \<noteq> Some h" for e using o h(1) by (auto simp: own_handles_def)
  show ?thesis using c u h(1) carries_right [OF c, of d] unfolding carries_def by auto
qed

section \<open>The invariant\<close>

definition inv :: "nat \<Rightarrow> (nat \<Rightarrow> string) \<Rightarrow> (nat \<Rightarrow> loc) \<Rightarrow> lwgrp cnet \<Rightarrow> bool" where
  "inv n nm S c \<longleftrightarrow> (\<forall>i<n. ok n nm i (S i) (prg c i))
     \<and> wired n (\<lambda>i. la (S i)) (\<lambda>i. ra (S i)) (\<lambda>i. pend (S i)) (links c) (waiting c) (nexth c)
     \<and> (\<forall>i. carries n nm i (S i) (\<lambda>h. logs c (i, h)) (\<lambda>h. roff c (i, h)) (nexth c i))"

lemma inv_ok: "inv n nm S c \<Longrightarrow> i < n \<Longrightarrow> ok n nm i (S i) (prg c i)"
  by (simp add: inv_def)

lemma inv_wired: "inv n nm S c \<Longrightarrow> wired n (\<lambda>i. la (S i)) (\<lambda>i. ra (S i)) (\<lambda>i. pend (S i)) (links c) (waiting c) (nexth c)"
  by (simp add: inv_def)

lemma inv_carries: "inv n nm S c \<Longrightarrow> carries n nm i (S i) (\<lambda>h. logs c (i, h)) (\<lambda>h. roff c (i, h)) (nexth c i)"
  by (simp add: inv_def)

lemma inv_own: "inv n nm S c \<Longrightarrow> own_handles (la (S i)) (ra (S i)) (pend (S i)) (nexth c i)"
  using wired_own [OF inv_wired] by blast

text \<open>A step of process \<open>i\<close>: it is enough to look at its own part, and at the wiring.\<close>

lemma inv_step:
  assumes "inv n nm S c" "prg c' = (prg c)(i := p)" "ok n nm i s p"
    and "carries n nm i s (\<lambda>h. logs c' (i, h)) (\<lambda>h. roff c' (i, h)) (nexth c' i)"
    and "\<And>j. j \<noteq> i \<Longrightarrow> nexth c' j = nexth c j \<and> (\<forall>h. logs c' (j, h) = logs c (j, h) \<and> roff c' (j, h) = roff c (j, h))"
    and "wired n ((\<lambda>i. la (S i))(i := la s)) ((\<lambda>i. ra (S i))(i := ra s)) ((\<lambda>i. pend (S i))(i := pend s)) (links c') (waiting c') (nexth c')"
  shows "inv n nm (S(i := s)) c'"
proof -
  have "(\<lambda>j. la ((S(i := s)) j)) = (\<lambda>i. la (S i))(i := la s)" "(\<lambda>j. ra ((S(i := s)) j)) = (\<lambda>i. ra (S i))(i := ra s)"
      "(\<lambda>j. pend ((S(i := s)) j)) = (\<lambda>i. pend (S i))(i := pend s)"
    by auto
  then show ?thesis using assms unfolding inv_def by auto
qed

text \<open>A step that only writes or reads does not touch the wiring.\<close>

lemma inv_data_step:
  assumes "inv n nm S c" "prg c' = (prg c)(i := p)" "ok n nm i s p"
    and "carries n nm i s (\<lambda>h. logs c' (i, h)) (\<lambda>h. roff c' (i, h)) (nexth c i)"
    and "\<And>j. j \<noteq> i \<Longrightarrow> \<forall>h. logs c' (j, h) = logs c (j, h) \<and> roff c' (j, h) = roff c (j, h)"
    and "la s = la (S i)" "ra s = ra (S i)" "pend s = pend (S i)" "links c' = links c" "waiting c' = waiting c" "nexth c' = nexth c"
  shows "inv n nm (S(i := s)) c'"
proof (rule inv_step [OF assms(1-3)])
  have "(\<lambda>j. la (S j))(i := la s) = (\<lambda>j. la (S j))" "(\<lambda>j. ra (S j))(i := ra s) = (\<lambda>j. ra (S j))"
      "(\<lambda>j. pend (S j))(i := pend s) = (\<lambda>j. pend (S j))"
    using assms(6-8) by auto
  then show "wired n ((\<lambda>i. la (S i))(i := la s)) ((\<lambda>i. ra (S i))(i := ra s)) ((\<lambda>i. pend (S i))(i := pend s)) (links c') (waiting c') (nexth c')"
    using inv_wired [OF assms(1)] assms(9-11) by simp
qed (use assms in auto)

lemma inv_connect:
  assumes v: "inv n nm S c" and i: "i < n" "prg c i = Connect a k" "addr a = Some j" and addr: "\<And>x. x < n \<Longrightarrow> addr (nm x) = Some x"
  shows "\<exists>s. inv n nm (S(i := s)) (do_connect i j k c) \<and> j < n \<and> j \<noteq> i"
proof -
  have "ok n nm i (S i) (Connect a k)" using inv_ok [OF v i(1)] i(2) by simp
  then obtain d where d: "a = nm (i + 2 ^ d)" "i + 2 ^ d < n" "ra (S i) d = None"
      and k: "\<And>h. ok n nm i ((S i)\<lparr>ra := (ra (S i))(d \<mapsto> h)\<rparr>) (k h)"
    by (rule ok_ConnectE) blast
  have j: "j = i + 2 ^ d" using d addr i(3) by auto
  let ?s = "(S i)\<lparr>ra := (ra (S i))(d \<mapsto> nexth c i)\<rparr>"
  have "inv n nm (S(i := ?s)) (do_connect i j k c)"
  proof (rule inv_step [OF v _ k])
    show "carries n nm i ?s (\<lambda>h. logs (do_connect i j k c) (i, h)) (\<lambda>h. roff (do_connect i j k c) (i, h)) (nexth (do_connect i j k c) i)"
      using carries_connect [OF inv_carries [OF v] d(3) inv_own [OF v]] by (simp add: do_connect_def)
    show "wired n ((\<lambda>i. la (S i))(i := la ?s)) ((\<lambda>i. ra (S i))(i := ra ?s)) ((\<lambda>i. pend (S i))(i := pend ?s))
        (links (do_connect i j k c)) (waiting (do_connect i j k c)) (nexth (do_connect i j k c))"
      using wired_connect [OF inv_wired [OF v] d(2,3)] j by (simp add: do_connect_def fun_upd_idem)
  qed (auto simp: do_connect_def)
  then show ?thesis using j d(2) by auto
qed

lemma inv_accept:
  assumes v: "inv n nm S c" and j: "j < n" "prg c j = Accept k" "x \<in> waiting c j"
  shows "\<exists>s. inv n nm (S(j := s)) (do_accept x j k c)"
proof -
  obtain i h where x: "x = (i, h)" by (cases x)
  have "ok n nm j (S j) (Accept k)" using inv_ok [OF v j(1)] j(2) by simp
  then have p: "pend (S j) = None" and k: "\<And>h. ok n nm j ((S j)\<lparr>pend := Some h\<rparr>) (k h)"
    by (auto elim!: ok_AcceptE)
  let ?s = "(S j)\<lparr>pend := Some (nexth c j)\<rparr>"
  have "inv n nm (S(j := ?s)) (do_accept x j k c)"
  proof (rule inv_step [OF v _ k])
    show "carries n nm j ?s (\<lambda>h. logs (do_accept x j k c) (j, h)) (\<lambda>h. roff (do_accept x j k c) (j, h)) (nexth (do_accept x j k c) j)"
      using carries_pend [OF inv_carries [OF v] inv_own [OF v] p] by (simp add: do_accept_def)
    show "wired n ((\<lambda>i. la (S i))(j := la ?s)) ((\<lambda>i. ra (S i))(j := ra ?s)) ((\<lambda>i. pend (S i))(j := pend ?s))
        (links (do_accept x j k c)) (waiting (do_accept x j k c)) (nexth (do_accept x j k c))"
      using wired_accept [OF inv_wired [OF v] j(3) [unfolded x] p] x by (simp add: do_accept_def fun_upd_idem)
  qed (auto simp: do_accept_def)
  then show ?thesis by blast
qed

lemma inv_send:
  assumes v: "inv n nm S c" and i: "i < n" "prg c i = CSend h bs p"
  shows "\<exists>s. inv n nm (S(i := s)) (do_send i h bs p c)"
proof -
  have lg: "(\<lambda>a. logs (do_send i h bs p c) (i, a)) = (\<lambda>a. logs c (i, a))(h := logs c (i, h) @ bs)" by (auto simp: do_send_def)
  have "ok n nm i (S i) (CSend h bs p)" using inv_ok [OF v i(1)] i(2) by simp
  then show ?thesis
  proof cases
    case 1: (send_left d rest)
    note C = carries_send_left [OF inv_carries [OF v] inv_own [OF v] 1(2,3)]
    show ?thesis
      by (rule exI, rule inv_data_step [OF v _ 1(4)]) (use C lg in \<open>auto simp: do_send_def\<close>)
  next
    case 2: (send_right d rest)
    note C = carries_send_right [OF inv_carries [OF v] inv_own [OF v] 2(2,3)]
    show ?thesis
      by (rule exI, rule inv_data_step [OF v _ 2(4)]) (use C lg in \<open>auto simp: do_send_def\<close>)
  qed
qed

text \<open>What a process finds on the channels it reads.\<close>

lemma inv_from_left:
  assumes v: "inv n nm S c" and l: "la (S i) d = Some h" "links c (i, h) = Some x"
  shows "\<exists>a b. i = a + 2 ^ d \<and> x = (a, b) \<and> ra (S a) d = Some b \<and> logs c x = take (wr (S a) d) (to_right nm a d)"
proof -
  obtain a b where a: "i = a + 2 ^ d" "ra (S a) d = Some b" "x = (a, b)" using wired_left [OF inv_wired [OF v] l(1)] l(2) by auto
  then show ?thesis using carries_right [OF inv_carries [OF v], of a d] by auto
qed

lemma inv_from_right:
  assumes v: "inv n nm S c" and r: "ra (S i) d = Some h" "links c (i, h) = Some x"
  shows "\<exists>b w. x = (i + 2 ^ d, b) \<and> logs c x = take w (to_left n nm (i + 2 ^ d) d) \<and> (la (S (i + 2 ^ d)) d \<noteq> None \<longrightarrow> w = wl (S (i + 2 ^ d)) d)"
proof -
  obtain b where b: "x = (i + 2 ^ d, b)" "la (S (i + 2 ^ d)) d = Some b \<or> la (S (i + 2 ^ d)) d = None \<and> pend (S (i + 2 ^ d)) = Some b"
    using wired_right(3) [OF inv_wired [OF v] r] by blast
  from b(2) show ?thesis
  proof
    assume "la (S (i + 2 ^ d)) d = Some b"
    then show ?thesis using b(1) carries_left [OF inv_carries [OF v], of "i + 2 ^ d" d] by auto
  next
    assume "la (S (i + 2 ^ d)) d = None \<and> pend (S (i + 2 ^ d)) = Some b"
    then show ?thesis using b(1) inv_carries [OF v, of "i + 2 ^ d"] by (intro exI [of _ b] exI [of _ 0]) (auto simp: carries_def)
  qed
qed

lemma inv_from_pend:
  assumes v: "inv n nm S c" and r: "pend (S i) = Some h"
  shows "\<exists>a b e. i = a + 2 ^ e \<and> ra (S a) e = Some b \<and> la (S i) e = None \<and> links c (i, h) = Some (a, b) \<and> roff c (i, h) = 0
    \<and> logs c (a, b) = take (wr (S a) e) (to_right nm a e)"
proof -
  obtain a b e where a: "i = a + 2 ^ e" "ra (S a) e = Some b" "la (S i) e = None" "links c (i, h) = Some (a, b)"
    using wired_pend [OF inv_wired [OF v] r] by blast
  moreover have "roff c (i, h) = 0" using inv_carries [OF v, of i] r by (auto simp: carries_def)
  moreover have "logs c (a, b) = take (wr (S a) e) (to_right nm a e)" using carries_right [OF inv_carries [OF v], of a e] a(2) by simp
  ultimately show ?thesis by blast
qed

lemma taken_part:
  assumes "drop r xs = bs @ rest" "r + length bs \<le> length (take w xs)"
  shows "take (length bs) (drop r (take w xs)) = bs"
proof -
  have "length bs \<le> w - r" using assms(2) by (simp add: min_def split: if_splits)
  then show ?thesis using assms(1) by (simp add: drop_take)
qed

lemma inv_recv:
  assumes v: "inv n nm S c" and i: "i < n" "prg c i = CRecv h m f" "links c (i, h) = Some x" "roff c (i, h) + m \<le> length (logs c x)"
  shows "\<exists>s. inv n nm (S(i := s)) (do_recv i h m x f c)"
proof -
  have off: "(\<lambda>a. roff (do_recv i h m x f c) (i, a)) = (\<lambda>a. roff c (i, a))(h := roff c (i, h) + m)" by (auto simp: do_recv_def)
  have p: "prg (do_recv i h m x f c) = (prg c)(i := f (take m (drop (roff c (i, h)) (logs c x))))" by (simp add: do_recv_def)
  have "ok n nm i (S i) (CRecv h m f)" using inv_ok [OF v i(1)] i(2) by simp
  then show ?thesis
  proof cases
    case 1: ident
    obtain a b e where e: "i = a + 2 ^ e" "ra (S a) e = Some b" "la (S i) e = None" "links c (i, h) = Some (a, b)" "roff c (i, h) = 0"
        "logs c (a, b) = take (wr (S a) e) (to_right nm a e)"
      using inv_from_pend [OF v 1(2)] by blast
    let ?s = "(S i)\<lparr>la := (la (S i))(e \<mapsto> h), rl := (rl (S i))(e := 4), pend := None\<rparr>"
    have got: "take m (drop (roff c (i, h)) (logs c x)) = mem_int e"
      using taken_part [of 0 "to_right nm a e" "mem_int e" _ "wr (S a) e"] e i(3,4) 1(1) by (simp add: to_right_def)
    have "inv n nm (S(i := ?s)) (do_recv i h m x f c)"
    proof (rule inv_step [OF v p])
      show "ok n nm i ?s (f (take m (drop (roff c (i, h)) (logs c x))))" using 1(4) [of e] e(1,3) got by simp
      show "wired n ((\<lambda>i. la (S i))(i := la ?s)) ((\<lambda>i. ra (S i))(i := ra ?s)) ((\<lambda>i. pend (S i))(i := pend ?s))
          (links (do_recv i h m x f c)) (waiting (do_recv i h m x f c)) (nexth (do_recv i h m x f c))"
        using wired_ident [OF inv_wired [OF v] 1(2) e(1-4)] by (simp add: do_recv_def fun_upd_idem)
      show "carries n nm i ?s (\<lambda>a. logs (do_recv i h m x f c) (i, a)) (\<lambda>a. roff (do_recv i h m x f c) (i, a)) (nexth (do_recv i h m x f c) i)"
        unfolding off using carries_ident [OF inv_carries [OF v] inv_own [OF v] 1(2) e(3)] e(5) 1(1) by (simp add: do_recv_def)
    qed (simp add: do_recv_def)
    then show ?thesis by blast
  next
    case 2: (recv_left d bs rest)
    obtain a where a: "i = a + 2 ^ d" "logs c x = take (wr (S a) d) (to_right nm a d)"
      using inv_from_left [OF v 2(8) i(3)] by blast
    have r: "roff c (i, h) = rl (S i) d" using carries_left [OF inv_carries [OF v], of i d] 2(8) by simp
    have got: "take m (drop (roff c (i, h)) (logs c x)) = bs"
      using taken_part [of "rl (S i) d" "to_right nm a d" bs rest "wr (S a) d"] 2(1,9) i(4) a r by simp
    note C = carries_recv_left [OF inv_carries [OF v] inv_own [OF v] 2(8), of m]
    show ?thesis
      by (rule exI, rule inv_data_step [OF v p], unfold got, rule 2(11)) (use C 2(1) off in \<open>auto simp: do_recv_def\<close>)
  next
    case 3: (recv_right d bs rest)
    obtain w where w: "logs c x = take w (to_left n nm (i + 2 ^ d) d)" using inv_from_right [OF v 3(8) i(3)] by blast
    have r: "roff c (i, h) = rr (S i) d" using carries_right [OF inv_carries [OF v], of i d] 3(8) by simp
    have got: "take m (drop (roff c (i, h)) (logs c x)) = bs"
      using taken_part [of "rr (S i) d" "to_left n nm (i + 2 ^ d) d" bs rest w] 3(1,9) i(4) w r by simp
    note C = carries_recv_right [OF inv_carries [OF v] inv_own [OF v] 3(8), of m]
    show ?thesis
      by (rule exI, rule inv_data_step [OF v p], unfold got, rule 3(11)) (use C 3(1) off in \<open>auto simp: do_recv_def\<close>)
  qed
qed

theorem inv_cstep:
  assumes "cstep sync addr n c c'" "inv n nm S c" "\<And>i. i < n \<Longrightarrow> addr (nm i) = Some i"
  shows "\<exists>S'. inv n nm S' c'"
  using assms(1)
proof cases
  case (connect i a k j)
  then show ?thesis using inv_connect [where addr = addr, OF assms(2) connect(3-5) assms(3)] by blast
next
  case (accept j k x)
  then show ?thesis using inv_accept [OF assms(2) accept(2-4)] by blast
next
  case (meet i j a k l)
  obtain s where s: "inv n nm (S(i := s)) (do_connect i j k c)" "j \<noteq> i"
    using inv_connect [where addr = addr, OF assms(2) meet(3,5,6) assms(3)] by blast
  have "prg (do_connect i j k c) j = Accept l" "(i, nexth c i) \<in> waiting (do_connect i j k c) j"
    using meet(7) s(2) by (auto simp: do_connect_def)
  then show ?thesis using inv_accept [OF s(1) meet(4)] meet(1) by blast
next
  case (send i h bs p)
  then show ?thesis using inv_send [OF assms(2) send(2,3)] by blast
next
  case (recv i h m f x)
  then show ?thesis using inv_recv [OF assms(2) recv(2-5)] by blast
qed

end
