(* ===== verification/Lwgrp_Link_Live.thy ===== *)
theory Lwgrp_Link_Live
  imports Lwgrp_Link_Net
begin

text \<open>
  The processes that build a group never wait for each other in a circle, and when all have returned
  their channels are connected pairwise and everything that was sent has been read.
\<close>

section \<open>Processes that cannot move\<close>

text \<open>A process that waits in round \<open>d\<close>.\<close>

inductive blocked :: "nat \<Rightarrow> (nat \<Rightarrow> string) \<Rightarrow> nat \<Rightarrow> nat \<Rightarrow> loc \<Rightarrow> lwgrp cproc \<Rightarrow> bool" for n nm i d s where
  connect: "i + 2 ^ d < n \<Longrightarrow> ra s d = None \<Longrightarrow> (odd (i div 2 ^ d) \<Longrightarrow> 2 ^ d \<le> i \<Longrightarrow> la s d \<noteq> None) \<Longrightarrow>
    blocked n nm i d s (Connect (nm (i + 2 ^ d)) k)"
| accept: "2 ^ d \<le> i \<Longrightarrow> la s d = None \<Longrightarrow> pend s = None \<Longrightarrow> (even (i div 2 ^ d) \<Longrightarrow> i + 2 ^ d < n \<Longrightarrow> ra s d \<noteq> None) \<Longrightarrow>
    blocked n nm i d s (Accept k)"
| recv_left: "paired n i d s \<Longrightarrow> written n nm i d s \<Longrightarrow> 2 ^ d \<le> i \<Longrightarrow> la s d = Some h \<Longrightarrow>
    rl s d + m \<le> length (to_right nm (i - 2 ^ d) d) \<Longrightarrow> blocked n nm i d s (CRecv h m f)"
| recv_right: "paired n i d s \<Longrightarrow> written n nm i d s \<Longrightarrow> i + 2 ^ d < n \<Longrightarrow> ra s d = Some h \<Longrightarrow>
    rr s d + m \<le> length (to_left n nm (i + 2 ^ d) d) \<Longrightarrow> blocked n nm i d s (CRecv h m f)"

definition stuck :: "bool \<Rightarrow> (string \<rightharpoonup> nat) \<Rightarrow> nat \<Rightarrow> lwgrp cnet \<Rightarrow> bool" where
  "stuck sync addr n c \<longleftrightarrow> (\<nexists>c'. cstep sync addr n c c')"

lemma drop_bound: "drop r xs = bs @ rest \<Longrightarrow> bs \<noteq> [] \<Longrightarrow> r + length bs \<le> length xs"
proof -
  assume a: "drop r xs = bs @ rest" "bs \<noteq> []"
  then have "length xs - r = length bs + length rest" "0 < length bs" by (metis length_append length_drop) (use a in simp)
  then show ?thesis by linarith
qed

lemma ok_ids: "ok n nm i s p \<Longrightarrow> (\<And>h bs q. p \<noteq> CSend h bs q) \<Longrightarrow> ids s"
  by (erule ok.cases) auto

lemma stuck_no_send: "stuck sync addr n c \<Longrightarrow> i < n \<Longrightarrow> prg c i \<noteq> CSend h bs q"
  using cstep.send [of i n c h bs q sync addr] by (auto simp: stuck_def)

text \<open>
  In a network that cannot move, a process has returned or waits in some round: sending is always
  possible, and the first four bytes of a channel are sent before anything else.
\<close>

lemma stuck_blocked:
  assumes v: "inv n nm S c" and st: "stuck sync addr n c" and i: "i < n"
  shows "(\<exists>g. prg c i = CRet g) \<or> (\<exists>d. 2 ^ d < n \<and> below n nm i d (S i) \<and> blocked n nm i d (S i) (prg c i))"
  using inv_ok [OF v i]
proof cases
  case (connect d k)
  then have "blocked n nm i d (S i) (prg c i)" "2 ^ d < n" by (auto intro: blocked.connect)
  then show ?thesis using connect by blast
next
  case (accept d k)
  then have "blocked n nm i d (S i) (prg c i)" "2 ^ d < n" using i by (auto intro: blocked.accept)
  then show ?thesis using accept by blast
next
  case (ident h f)
  obtain a b e where e: "i = a + 2 ^ e" "ra (S a) e = Some b" "links c (i, h) = Some (a, b)" "roff c (i, h) = 0"
      "logs c (a, b) = take (wr (S a) e) (to_right nm a e)"
    using inv_from_pend [OF v ident(2)] by blast
  have "ids (S a)" using ok_ids [OF inv_ok [OF v, of a]] stuck_no_send [OF st, of a] e(1) i by simp
  then have "roff c (i, h) + 4 \<le> length (logs c (a, b))" using e by (auto simp: ids_def to_right_def)
  then show ?thesis using cstep.recv [OF i ident(1) e(3)] st by (auto simp: stuck_def)
next
  case (send_left d h bs rest p)
  then show ?thesis using stuck_no_send [OF st i] by simp
next
  case (send_right d h bs rest p)
  then show ?thesis using stuck_no_send [OF st i] by simp
next
  case (recv_left d h bs rest f)
  then have "blocked n nm i d (S i) (prg c i)" "2 ^ d < n" using i drop_bound [OF recv_left(9,10)] by (auto intro: blocked.recv_left)
  then show ?thesis using recv_left by blast
next
  case (recv_right d h bs rest f)
  then have "blocked n nm i d (S i) (prg c i)" "2 ^ d < n" using drop_bound [OF recv_right(9,10)] by (auto intro: blocked.recv_right)
  then show ?thesis using recv_right by blast
qed blast

section \<open>The earliest round\<close>

text \<open>No process is behind round \<open>d\<close>; those that are in it wait.\<close>

definition frontier :: "nat \<Rightarrow> (nat \<Rightarrow> string) \<Rightarrow> (nat \<Rightarrow> loc) \<Rightarrow> lwgrp cnet \<Rightarrow> nat \<Rightarrow> bool" where
  "frontier n nm S c d \<longleftrightarrow> (\<forall>j<n. blocked n nm j d (S j) (prg c j) \<or> below n nm j (Suc d) (S j))"

lemma below_mono: "below n nm i d s \<Longrightarrow> e \<le> d \<Longrightarrow> below n nm i e s"
  by (simp add: below_def)

lemma earliest_round:
  assumes v: "inv n nm S c" and st: "stuck sync addr n c" and i: "i < n" "\<And>g. prg c i \<noteq> CRet g"
  shows "\<exists>d i. frontier n nm S c d \<and> i < n \<and> blocked n nm i d (S i) (prg c i)"
proof -
  let ?Q = "\<lambda>d. \<exists>i<n. 2 ^ d < n \<and> below n nm i d (S i) \<and> blocked n nm i d (S i) (prg c i)"
  obtain d0 where "?Q d0" using stuck_blocked [OF v st i(1)] i by blast
  then have Q: "?Q (LEAST d. ?Q d)" by (rule LeastI)
  define d where "d = (LEAST d. ?Q d)"
  have "blocked n nm j d (S j) (prg c j) \<or> below n nm j (Suc d) (S j)" if j: "j < n" for j
    using stuck_blocked [OF v st j]
  proof
    assume "\<exists>g. prg c j = CRet g"
    then obtain g where "prg c j = CRet g" by blast
    then obtain e where e: "n \<le> 2 ^ e" "below n nm j e (S j)" using inv_ok [OF v j] by (auto elim: ok_RetE)
    have "(2 :: nat) ^ d < 2 ^ e" using Q e(1) by (fold d_def) linarith
    then have "d < e" by (rule power_less_imp_less_exp [rotated]) simp
    then show ?thesis using below_mono [OF e(2)] by simp
  next
    assume "\<exists>e. 2 ^ e < n \<and> below n nm j e (S j) \<and> blocked n nm j e (S j) (prg c j)"
    then obtain e where e: "2 ^ e < n" "below n nm j e (S j)" "blocked n nm j e (S j) (prg c j)" by blast
    have "d \<le> e" unfolding d_def by (rule Least_le) (use e j in blast)
    then show ?thesis using e(3) below_mono [OF e(2), of "Suc d"] by (cases "e = d") auto
  qed
  then show ?thesis using Q by (fold d_def) (auto simp: frontier_def)
qed

lemma below_Suc_done:
  assumes "below n nm i (Suc d) s"
  shows "paired n i d s" "written n nm i d s"
  using assms by (auto simp: below_def left_done_def right_done_def paired_def written_def)

lemma next_parity: "even ((i + 2 ^ d) div 2 ^ d) \<longleftrightarrow> odd (i div 2 ^ d :: nat)"
proof -
  have "(i + 2 ^ d) div 2 ^ d = Suc (i div 2 ^ d)" by (simp add: div_add_self2)
  then show ?thesis by simp
qed

lemma no_right:
  assumes f: "frontier n nm S c d" and j: "j + 2 ^ d < n" "ra (S j) d = None"
  shows "(\<exists>k. prg c j = Connect (nm (j + 2 ^ d)) k)
    \<or> (\<exists>k. prg c j = Accept k) \<and> odd (j div 2 ^ d) \<and> 2 ^ d \<le> j \<and> la (S j) d = None \<and> pend (S j) = None"
proof -
  have "\<not> below n nm j (Suc d) (S j)" using below_Suc_done(1) [of n nm j d "S j"] j by (auto simp: paired_def)
  moreover have "j < n" using j(1) by simp
  ultimately have "blocked n nm j d (S j) (prg c j)" using f by (auto simp: frontier_def)
  then show ?thesis by cases (use j in \<open>auto simp: paired_def\<close>)
qed

lemma no_left:
  assumes f: "frontier n nm S c d" and j: "j < n" "2 ^ d \<le> j" "la (S j) d = None"
  shows "(\<exists>k. prg c j = Accept k)
    \<or> (\<exists>k. prg c j = Connect (nm (j + 2 ^ d)) k) \<and> even (j div 2 ^ d) \<and> j + 2 ^ d < n \<and> ra (S j) d = None"
proof -
  have "\<not> below n nm j (Suc d) (S j)" using below_Suc_done(1) [of n nm j d "S j"] j by (auto simp: paired_def)
  moreover have "j < n" using j(1) by simp
  ultimately have "blocked n nm j d (S j) (prg c j)" using f by (auto simp: frontier_def)
  then show ?thesis by cases (use j in \<open>auto simp: paired_def\<close>)
qed

text \<open>A connection to a process that accepts is possible over every transport.\<close>

lemma stuck_no_meeting:
  assumes st: "stuck sync addr n c" and addr: "\<And>i. i < n \<Longrightarrow> addr (nm i) = Some i"
    and i: "i + 2 ^ d < n" "prg c i = Connect (nm (i + 2 ^ d)) k"
  shows "prg c (i + 2 ^ d) \<noteq> Accept l"
proof
  assume a: "prg c (i + 2 ^ d) = Accept l"
  have lt: "i < n" using i(1) by simp
  show False
  proof (cases sync)
    case True
    show ?thesis using cstep.meet [where addr = addr, OF True lt i addr [OF i(1)] a] st by (auto simp: stuck_def)
  next
    case False
    show ?thesis using cstep.connect [where addr = addr, OF False lt i(2) addr [OF i(1)]] st by (auto simp: stuck_def)
  qed
qed

lemma right_unaccepted:
  assumes v: "inv n nm S c" and r: "ra (S i) d = None"
  shows "la (S (i + 2 ^ d)) d = None"
proof (cases "la (S (i + 2 ^ d)) d")
  case (Some h)
  then show ?thesis using wired_left [OF inv_wired [OF v] Some] r by auto
qed

lemma stuck_no_connect:
  assumes v: "inv n nm S c" and st: "stuck sync addr n c" and addr: "\<And>i. i < n \<Longrightarrow> addr (nm i) = Some i"
    and f: "frontier n nm S c d" and i: "i + 2 ^ d < n" "ra (S i) d = None"
  shows "prg c i \<noteq> Connect (nm (i + 2 ^ d)) k"
proof
  assume k: "prg c i = Connect (nm (i + 2 ^ d)) k"
  let ?j = "i + 2 ^ d"
  have "\<nexists>l. prg c ?j = Accept l" using stuck_no_meeting [OF st addr i(1) k] by blast
  then obtain k' where j: "prg c ?j = Connect (nm (?j + 2 ^ d)) k'" "even (?j div 2 ^ d)" "?j + 2 ^ d < n" "ra (S ?j) d = None"
    using no_left [OF f i(1) _ right_unaccepted [OF v i(2)]] by auto
  have "\<nexists>l. prg c (?j + 2 ^ d) = Accept l" using stuck_no_meeting [OF st addr j(3,1)] by blast
  then have "even ((?j + 2 ^ d) div 2 ^ d)" using no_left [OF f j(3) _ right_unaccepted [OF v j(4)]] by auto
  then show False using j(2) next_parity [of ?j d] by simp
qed

lemma stuck_no_waiting:
  assumes v: "inv n nm S c" and st: "stuck sync addr n c" and j: "i + 2 ^ d < n" "prg c (i + 2 ^ d) = Accept l"
    "la (S (i + 2 ^ d)) d = None" "pend (S (i + 2 ^ d)) = None"
  shows "ra (S i) d = None"
proof (cases "ra (S i) d")
  case (Some h)
  have "links c (i, h) = None" using wired_right(3) [OF inv_wired [OF v] Some] j(3,4) by (cases "links c (i, h)") auto
  then have "(i, h) \<in> waiting c (i + 2 ^ d)" using wired_right(2) [OF inv_wired [OF v] Some] by simp
  then show ?thesis using cstep.accept [OF j(1,2), of "(i, h)" sync addr] st by (auto simp: stuck_def)
qed

lemma stuck_no_accept:
  assumes v: "inv n nm S c" and st: "stuck sync addr n c" and addr: "\<And>i. i < n \<Longrightarrow> addr (nm i) = Some i"
    and f: "frontier n nm S c d" and j: "j < n" "2 ^ d \<le> j" "la (S j) d = None" "pend (S j) = None"
  shows "prg c j \<noteq> Accept l"
proof
  assume a: "prg c j = Accept l"
  obtain i where i: "j = i + 2 ^ d" using j(2) by (metis add.commute le_Suc_ex)
  have r: "ra (S i) d = None" using stuck_no_waiting [OF v st] i j a by blast
  have "\<nexists>k. prg c i = Connect (nm (i + 2 ^ d)) k" using stuck_no_connect [OF v st addr f _ r] i j(1) by blast
  then obtain l' where l': "prg c i = Accept l'" "odd (i div 2 ^ d)" "2 ^ d \<le> i" "la (S i) d = None" "pend (S i) = None"
    using no_right [OF f _ r] i j(1) by auto
  obtain i' where i': "i = i' + 2 ^ d" using l'(3) by (metis add.commute le_Suc_ex)
  have lt: "i' + 2 ^ d < n" using i i' j(1) by simp
  have r': "ra (S i') d = None" using stuck_no_waiting [OF v st lt] l' i' by blast
  have "\<nexists>k. prg c i' = Connect (nm (i' + 2 ^ d)) k" using stuck_no_connect [OF v st addr f lt r'] by blast
  then have "odd (i' div 2 ^ d)" using no_right [OF f lt r'] by auto
  then show False using l'(2) i' next_parity [of i' d] by simp
qed

section \<open>Progress\<close>

lemma frontier_complete:
  assumes v: "inv n nm S c" and st: "stuck sync addr n c" and addr: "\<And>i. i < n \<Longrightarrow> addr (nm i) = Some i"
    and f: "frontier n nm S c d" and j: "j < n"
  shows "paired n j d (S j) \<and> written n nm j d (S j)"
proof (cases "below n nm j (Suc d) (S j)")
  case True
  then show ?thesis using below_Suc_done by blast
next
  case False
  then have "blocked n nm j d (S j) (prg c j)" using f j by (auto simp: frontier_def)
  then show ?thesis
  proof cases
    case (connect k)
    then show ?thesis using stuck_no_connect [OF v st addr f connect(2,3)] by blast
  next
    case (accept k)
    then show ?thesis using stuck_no_accept [OF v st addr f j accept(2-4)] by blast
  qed auto
qed

lemma stuck_no_blocked:
  assumes v: "inv n nm S c" and st: "stuck sync addr n c" and addr: "\<And>i. i < n \<Longrightarrow> addr (nm i) = Some i"
    and f: "frontier n nm S c d" and i: "i < n"
  shows "\<not> blocked n nm i d (S i) (prg c i)"
proof
  have fin: "paired n j d (S j)" "written n nm j d (S j)" if "j < n" for j
    using frontier_complete [OF v st addr f that] by auto
  assume "blocked n nm i d (S i) (prg c i)"
  then show False
  proof cases
    case (connect k)
    then show ?thesis using stuck_no_connect [OF v st addr f connect(2,3)] by blast
  next
    case (accept k)
    then show ?thesis using stuck_no_accept [OF v st addr f i accept(2-4)] by blast
  next
    case (recv_left h m g)
    obtain a b where a: "i = a + 2 ^ d" "ra (S a) d = Some b" "links c (i, h) = Some (a, b)"
      using wired_left [OF inv_wired [OF v] recv_left(5)] by blast
    have "logs c (a, b) = to_right nm a d"
      using carries_right [OF inv_carries [OF v], of a d] a fin(2) [of a] i by (simp add: written_def)
    moreover have "roff c (i, h) = rl (S i) d" using carries_left [OF inv_carries [OF v], of i d] recv_left(5) by simp
    ultimately show ?thesis
      using cstep.recv [OF i recv_left(1) a(3), of sync addr] st recv_left(6) a(1) by (auto simp: stuck_def)
  next
    case (recv_right h m g)
    have la: "la (S (i + 2 ^ d)) d \<noteq> None" using fin(1) [OF recv_right(4)] by (simp add: paired_def)
    then obtain b where b: "la (S (i + 2 ^ d)) d = Some b" by blast
    have lk: "links c (i, h) = Some (i + 2 ^ d, b)"
      by (rule wired_sym [OF inv_wired [OF v]]) (use wired_left [OF inv_wired [OF v] b] recv_right(5) in auto)
    have "logs c (i + 2 ^ d, b) = to_left n nm (i + 2 ^ d) d"
      using carries_left [OF inv_carries [OF v], of "i + 2 ^ d" d] b fin(2) [OF recv_right(4)] by (simp add: written_def)
    moreover have "roff c (i, h) = rr (S i) d" using carries_right [OF inv_carries [OF v], of i d] recv_right(5) by simp
    ultimately show ?thesis
      using cstep.recv [OF i recv_right(1) lk, of sync addr] st recv_right(6) by (auto simp: stuck_def)
  qed
qed

text \<open>A network of processes that cannot move has finished.\<close>

theorem stuck_returned:
  assumes "inv n nm S c" "stuck sync addr n c" "\<And>i. i < n \<Longrightarrow> addr (nm i) = Some i" "i < n"
  shows "\<exists>g. prg c i = CRet g"
  using earliest_round [OF assms(1,2,4)] stuck_no_blocked [OF assms(1-3)] by blast

section \<open>What the processes have at the end\<close>

text \<open>The other end of a channel, as the programs on existing channels see it.\<close>

definition peer_of :: "(chan_end \<rightharpoonup> chan_end) \<Rightarrow> chan_end \<Rightarrow> chan_end" where
  "peer_of lk x = (case lk x of None \<Rightarrow> x | Some y \<Rightarrow> y)"

lemma peer_of_invol:
  assumes "\<And>x y. lk x = Some y \<Longrightarrow> lk y = Some x"
  shows "peer_of lk (peer_of lk x) = x"
proof (cases "lk x")
  case (Some y)
  then show ?thesis using assms [OF Some] by (simp add: peer_of_def)
qed (simp add: peer_of_def)

text \<open>Everything that was written on the channels of the groups has been read.\<close>

definition drained :: "nat \<Rightarrow> (nat \<Rightarrow> lwgrp) \<Rightarrow> lwgrp cnet \<Rightarrow> bool" where
  "drained n gs c \<longleftrightarrow> (\<forall>i<n. \<forall>d h. 2 ^ d \<le> i \<and> list_left (gs i) ! d = Some h \<or> i + 2 ^ d < n \<and> list_right (gs i) ! d = Some h \<longrightarrow>
     roff c (i, h) = length (logs c (peer_of (links c) (i, h))))"

lemma returned_round:
  assumes "ok n nm i s (CRet g)" "i < n"
  shows "grp_size g = n" "grp_rank g = i"
    and "2 ^ d \<le> i \<Longrightarrow> list_left g ! d = la s d \<and> la s d \<noteq> None \<and> wl s d = length (to_left n nm i d) \<and> rl s d = length (to_right nm (i - 2 ^ d) d)"
    and "i + 2 ^ d < n \<Longrightarrow> list_right g ! d = ra s d \<and> ra s d \<noteq> None \<and> wr s d = length (to_right nm i d) \<and> rr s d = length (to_left n nm (i + 2 ^ d) d)"
proof -
  obtain e where e: "n \<le> 2 ^ e" "below n nm i e s" "agree n i s g" using assms(1) by (auto elim: ok_RetE)
  show "grp_size g = n" "grp_rank g = i" using e(3) by (auto simp: agree_def)
  have *: "left_done n nm i s d \<and> right_done n nm i s d \<and> list_left g ! d = la s d \<and> list_right g ! d = ra s d" if "2 ^ d < n"
  proof -
    have "(2 :: nat) ^ d < 2 ^ e" using that e(1) by linarith
    then have "d < e" by (rule power_less_imp_less_exp [rotated]) simp
    then show ?thesis using e(2,3) agree_round [OF e(3) that] by (auto simp: below_def agree_def)
  qed
  show "2 ^ d \<le> i \<Longrightarrow> list_left g ! d = la s d \<and> la s d \<noteq> None \<and> wl s d = length (to_left n nm i d) \<and> rl s d = length (to_right nm (i - 2 ^ d) d)"
    using * assms(2) by (auto simp: left_done_def)
  show "i + 2 ^ d < n \<Longrightarrow> list_right g ! d = ra s d \<and> ra s d \<noteq> None \<and> wr s d = length (to_right nm i d) \<and> rr s d = length (to_left n nm (i + 2 ^ d) d)"
    using * by (auto simp: right_done_def)
qed

text \<open>The two ends of a channel.\<close>

lemma returned_pair:
  assumes v: "inv n nm S c" and r: "\<And>i. i < n \<Longrightarrow> prg c i = CRet (gs i)" and i: "i + 2 ^ d < n"
  shows "\<exists>h h'. ra (S i) d = Some h \<and> la (S (i + 2 ^ d)) d = Some h' \<and> list_right (gs i) ! d = Some h \<and> list_left (gs (i + 2 ^ d)) ! d = Some h'
    \<and> links c (i, h) = Some (i + 2 ^ d, h') \<and> links c (i + 2 ^ d, h') = Some (i, h)
    \<and> roff c (i, h) = length (logs c (i + 2 ^ d, h')) \<and> roff c (i + 2 ^ d, h') = length (logs c (i, h))"
proof -
  let ?j = "i + 2 ^ d"
  have oki: "ok n nm i (S i) (CRet (gs i))" and okj: "ok n nm ?j (S ?j) (CRet (gs ?j))"
    using inv_ok [OF v, of i] inv_ok [OF v, of ?j] r [of i] r [of ?j] i by auto
  note R = returned_round(4) [OF oki _ i] and L = returned_round(3) [OF okj i, of d]
  obtain h' where h': "la (S ?j) d = Some h'" using L by auto
  obtain h where h: "ra (S i) d = Some h" "links c (?j, h') = Some (i, h)" using wired_left [OF inv_wired [OF v] h'] by auto
  have "logs c (i, h) = take (wr (S i) d) (to_right nm i d)" "roff c (i, h) = rr (S i) d"
    using carries_right [OF inv_carries [OF v], of i d] h(1) by auto
  moreover have "logs c (?j, h') = take (wl (S ?j) d) (to_left n nm ?j d)" "roff c (?j, h') = rl (S ?j) d"
    using carries_left [OF inv_carries [OF v], of ?j d] h' by auto
  moreover have "links c (i, h) = Some (?j, h')" by (rule wired_sym [OF inv_wired [OF v] h(2)])
  ultimately show ?thesis using R L h h' i by auto
qed

lemma returned_linked:
  assumes v: "inv n nm S c" and r: "\<And>i. i < n \<Longrightarrow> prg c i = CRet (gs i)"
  shows "linked (peer_of (links c)) n gs" "drained n gs c"
proof -
  have "inj (peer_of (links c))"
    by (rule inj_on_inverseI [of _ "peer_of (links c)"]) (rule peer_of_invol, erule wired_sym [OF inv_wired [OF v]])
  moreover have "grp_size (gs i) = n \<and> grp_rank (gs i) = i" if "i < n" for i
    using returned_round(1,2) [of n nm i "S i" "gs i"] inv_ok [OF v that] r [OF that] that by simp
  moreover have "\<exists>h h'. list_right (gs i) ! d = Some h \<and> list_left (gs (i + 2 ^ d)) ! d = Some h'
      \<and> peer_of (links c) (i, h) = (i + 2 ^ d, h') \<and> peer_of (links c) (i + 2 ^ d, h') = (i, h)" if i: "i + 2 ^ d < n" for i d
    using returned_pair [OF v r i] by (auto simp: peer_of_def)
  ultimately show "linked (peer_of (links c)) n gs" unfolding linked_def by blast
  have "roff c (i, h) = length (logs c (peer_of (links c) (i, h)))" if "i + 2 ^ d < n" "list_right (gs i) ! d = Some h" for i d h
    using returned_pair [OF v r that(1)] that(2) by (auto simp: peer_of_def)
  moreover have "roff c (i, h) = length (logs c (peer_of (links c) (i, h)))" if i: "i < n" "2 ^ d \<le> i" "list_left (gs i) ! d = Some h" for i d h
  proof -
    have "i = (i - 2 ^ d) + 2 ^ d" using i(2) by simp
    then show ?thesis using returned_pair [OF v r, of "i - 2 ^ d" d] i by (auto simp: peer_of_def)
  qed
  ultimately show "drained n gs c" unfolding drained_def by blast
qed

section \<open>Runs\<close>

lemma inv_start:
  assumes "sendable_names n nm" "n \<le> 2 ^ 63"
    and "\<And>i. i < n \<Longrightarrow> ps i = lwgrp_create junk n i (nm i) (left_name nm i 0) (right_name n nm i 0) (ep i)"
  shows "inv n nm (\<lambda>_. loc0) (fresh_net ps)"
proof -
  have "wired n (\<lambda>_. la loc0) (\<lambda>_. ra loc0) (\<lambda>_. pend loc0) Map.empty (\<lambda>_. {}) (\<lambda>_. 0)"
    by (rule wiredI) (auto simp: loc0_def own_handles_def)
  moreover have "carries n nm i loc0 (\<lambda>h. []) (\<lambda>h. 0) 0" for i by (simp add: carries_def loc0_def)
  ultimately show ?thesis using ok_create [OF assms(1) _ assms(2)] assms(3) by (simp add: inv_def fresh_net_def)
qed

lemma inv_run:
  assumes "(cstep sync addr n)\<^sup>*\<^sup>* c c'" "inv n nm S c" "\<And>i. i < n \<Longrightarrow> addr (nm i) = Some i"
  shows "\<exists>S'. inv n nm S' c'"
  using assms(1,2)
proof (induction arbitrary: S rule: rtranclp_induct)
  case (step y z)
  then show ?case using inv_cstep [OF step.hyps(2) _ assms(3)] by blast
qed blast

end
