(* ===== verification/Lwgrp_Create_Spec.thy ===== *)
theory Lwgrp_Create_Spec
  imports Lwgrp_Link_Live
begin

text \<open>
  What \<open>lwgrp_create\<close> and \<open>lwgrp_free\<close> do for a whole group of processes, in every schedule and over
  both kinds of transport. The processes \<open>0..<n\<close> have endpoints with the names \<open>nm\<close>, and process \<open>i\<close> is
  given the names of its two neighbours; \<open>addr\<close> is what the transport makes of a name.
\<close>

section \<open>Releasing a group\<close>

definition round_handles :: "loc \<Rightarrow> nat \<Rightarrow> nat list" where
  "round_handles s d = (case la s d of None \<Rightarrow> [] | Some ch \<Rightarrow> [ch]) @ (case ra s d of None \<Rightarrow> [] | Some ch \<Rightarrow> [ch])"

lemma round_handles_all:
  assumes o: "own_handles (la s) (ra s) P x"
  shows "distinct (concat (map (round_handles s) [0..<k]))
    \<and> set (concat (map (round_handles s) [0..<k])) = {h. \<exists>e<k. la s e = Some h \<or> ra s e = Some h}"
proof (induction k)
  case (Suc k)
  have set: "set (round_handles s k) = {h. la s k = Some h \<or> ra s k = Some h}"
    by (auto simp: round_handles_def split: option.splits)
  have u: "L = k" if "la s k = Some h \<or> ra s k = Some h" "la s L = Some h \<or> ra s L = Some h" for h L
    using o that unfolding own_handles_def by metis
  have "distinct (round_handles s k)" using o by (auto simp: round_handles_def own_handles_def split: option.splits)
  moreover have "{h. \<exists>e<k. la s e = Some h \<or> ra s e = Some h} \<inter> set (round_handles s k) = {}"
    unfolding set using u by blast
  ultimately show ?case using Suc set by (auto simp: less_Suc_eq)
qed simp

lemma free_all:
  assumes v: "inv n nm S c" and i: "i < n" "prg c i = CRet g"
  shows "\<exists>hs. lwgrp_free (Some (Some g)) = (LWGRP_SUCCESS, hs, Some NULL) \<and> distinct hs \<and> set hs = {..<nexth c i}"
proof -
  have "ok n nm i (S i) (CRet g)" using inv_ok [OF v i(1)] i(2) by simp
  then have ag: "agree n i (S i) g" and p: "pend (S i) = None" by (auto elim: ok_RetE)
  let ?k = "length (list_left g)"
  have k: "e < ?k" if "la (S i) e = Some h \<or> ra (S i) e = Some h" for e h
    using that
  proof
    assume "la (S i) e = Some h"
    from wired_left [OF inv_wired [OF v] this] show ?thesis using agree_round [OF ag] i(1) by auto
  next
    assume "ra (S i) e = Some h"
    from wired_right(1) [OF inv_wired [OF v] this] show ?thesis using agree_round [OF ag] by auto
  qed
  have "map (\<lambda>d. (case list_left g ! d of None \<Rightarrow> [] | Some ch \<Rightarrow> [ch]) @ (case list_right g ! d of None \<Rightarrow> [] | Some ch \<Rightarrow> [ch])) [0..<grp_list_size g]
      = map (round_handles (S i)) [0..<?k]"
    using ag by (auto simp: agree_def round_handles_def)
  moreover have "{h. \<exists>e<?k. la (S i) e = Some h \<or> ra (S i) e = Some h} = {..<nexth c i}"
    using inv_own [OF v, of i] k p unfolding own_handles_def by (auto, metis)
  ultimately show ?thesis using round_handles_all [OF inv_own [OF v, of i], of ?k] by (simp add: lwgrp_free_def)
qed

section \<open>Properties\<close>

definition create_net :: "(nat \<Rightarrow> byte list) \<Rightarrow> nat \<Rightarrow> (nat \<Rightarrow> string) \<Rightarrow> (nat \<Rightarrow> nat option) \<Rightarrow> lwgrp cnet" where
  "create_net junk n nm ep = fresh_net (\<lambda>i. lwgrp_create junk n i (nm i)
     (if i = 0 then NULL else Some (nm (i - 1))) (if i + 1 < n then Some (nm (i + 1)) else NULL) (ep i))"

lemma create_net_inv:
  assumes "sendable_names n nm" "n \<le> 2 ^ 63"
  shows "inv n nm (\<lambda>_. loc0) (create_net junk n nm ep)"
  unfolding create_net_def by (rule inv_start [OF assms, of _ junk ep]) (simp add: left_name_def right_name_def)

lemma no_infinite_run: "\<nexists>f. \<forall>t. cstep sync addr n (f t) (f (Suc t))"
  using cstep_wf [of sync addr n] unfolding wfp_def wf_iff_no_infinite_down_chain by blast

text \<open>Every network comes to a state in which no process can move.\<close>

lemma run_ends: "\<exists>c'. (cstep sync addr n)\<^sup>*\<^sup>* c c' \<and> (\<nexists>c''. cstep sync addr n c' c'')"
proof (induction c rule: wfp_induct_rule [OF cstep_wf [of sync addr n]])
  case (1 c)
  show ?case
  proof (cases "\<exists>c'. cstep sync addr n c c'")
    case True
    then show ?thesis using 1 converse_rtranclp_into_rtranclp [of "cstep sync addr n"] by blast
  qed blast
qed

text \<open>
  C12. Building a group ends: no schedule of the processes that call \<open>lwgrp_create\<close> goes on forever,
  and where no process can move, every process has returned a group. The groups are then linked
  the way all collective operations need it: the right channel of rank \<open>i\<close> in round \<open>d\<close> and the left
  channel of rank \<open>i + 2 ^ d\<close> are the ends of one connection, on which nothing is left to be read.
  \<open>lwgrp_free\<close> then disconnects each channel the process has opened exactly once. This holds whether
  connecting waits for the other process (\<open>sync\<close>) or not.
\<close>

theorem create_returns:
  assumes "sendable_names n nm" "n \<le> 2 ^ 63" "\<forall>i<n. addr (nm i) = Some i"
  shows "(\<nexists>f. f 0 = create_net junk n nm ep \<and> (\<forall>t. cstep sync addr n (f t) (f (Suc t))))
    \<and> (\<forall>c. (cstep sync addr n)\<^sup>*\<^sup>* (create_net junk n nm ep) c \<and> (\<nexists>c'. cstep sync addr n c c') \<longrightarrow>
        (\<exists>gs. (\<forall>i<n. prg c i = CRet (gs i)) \<and> linked (peer_of (links c)) n gs \<and> drained n gs c
          \<and> (\<forall>i<n. \<exists>hs. lwgrp_free (Some (Some (gs i))) = (LWGRP_SUCCESS, hs, Some NULL) \<and> distinct hs \<and> set hs = {..<nexth c i})))"
proof (intro conjI allI impI)
  show "\<nexists>f. f 0 = create_net junk n nm ep \<and> (\<forall>t. cstep sync addr n (f t) (f (Suc t)))" using no_infinite_run by blast
next
  have addr: "addr (nm i) = Some i" if "i < n" for i using assms(3) that by blast
  fix c assume c: "(cstep sync addr n)\<^sup>*\<^sup>* (create_net junk n nm ep) c \<and> (\<nexists>c'. cstep sync addr n c c')"
  obtain S where v: "inv n nm S c" using inv_run [OF conjunct1 [OF c] create_net_inv [OF assms(1,2)] addr] by blast
  have "stuck sync addr n c" using c by (simp add: stuck_def)
  then have "\<forall>i<n. \<exists>g. prg c i = CRet g" using stuck_returned [OF v _ addr] by blast
  then obtain gs where gs: "\<And>i. i < n \<Longrightarrow> prg c i = CRet (gs i)" by metis
  show "\<exists>gs. (\<forall>i<n. prg c i = CRet (gs i)) \<and> linked (peer_of (links c)) n gs \<and> drained n gs c
      \<and> (\<forall>i<n. \<exists>hs. lwgrp_free (Some (Some (gs i))) = (LWGRP_SUCCESS, hs, Some NULL) \<and> distinct hs \<and> set hs = {..<nexth c i})"
    using gs returned_linked [OF v gs] free_all [OF v _ gs] by (intro exI [of _ gs]) simp
qed

text \<open>Three processes.\<close>

definition three_names :: "nat \<Rightarrow> string" where
  "three_names i = (if i = 0 then ''n0'' else if i = 1 then ''n1'' else ''n2'')"

definition three_addr :: "string \<rightharpoonup> nat" where
  "three_addr = [''n0'' \<mapsto> 0, ''n1'' \<mapsto> 1, ''n2'' \<mapsto> 2]"

lemma three_setup: "sendable_names 3 three_names" "\<forall>i<3. three_addr (three_names i) = Some i"
  by (auto simp: sendable_names_def sendable_str_def three_names_def three_addr_def cstring_def)

theorem create_returns_witness:
  "\<exists>c gs. (cstep True three_addr 3)\<^sup>*\<^sup>* (create_net (\<lambda>m. replicate m (CHR ''x'')) 3 three_names (\<lambda>_. NULL)) c
    \<and> (\<nexists>c'. cstep True three_addr 3 c c') \<and> prg c 0 = CRet (gs 0) \<and> prg c 1 = CRet (gs 1) \<and> prg c 2 = CRet (gs 2)
    \<and> linked (peer_of (links c)) 3 gs \<and> drained 3 gs c"
proof -
  let ?c = "create_net (\<lambda>m. replicate m (CHR ''x'')) 3 three_names (\<lambda>_. NULL)"
  obtain c where c: "(cstep True three_addr 3)\<^sup>*\<^sup>* ?c c \<and> (\<nexists>c'. cstep True three_addr 3 c c')" using run_ends by blast
  from conjunct2 [OF create_returns [OF three_setup(1) _ three_setup(2)], rule_format, OF _ c]
  obtain gs where "\<forall>i<3. prg c i = CRet (gs i)" "linked (peer_of (links c)) 3 gs" "drained 3 gs c" by auto
  then show ?thesis using c by (intro exI [of _ c] exI [of _ gs]) simp
qed

text \<open>
  C13. While a group is built, in every state of every schedule: no process runs into undefined
  behaviour or uses up the passes of its accepting loop; a request that waits to be accepted comes
  from a process that is a power of two ranks to the left; and a channel that is open joins two
  processes whose ranks differ by a power of two, each being the other's only peer on it.
\<close>

theorem create_invariant:
  assumes "sendable_names n nm" "n \<le> 2 ^ 63" "\<forall>i<n. addr (nm i) = Some i"
    and "(cstep sync addr n)\<^sup>*\<^sup>* (create_net junk n nm ep) c" "i < n"
  shows "prg c i \<noteq> CFail \<and> (\<forall>j h. (j, h) \<in> waiting c i \<longrightarrow> (\<exists>d. i = j + 2 ^ d) \<and> links c (j, h) = None)
    \<and> (\<forall>h j h'. links c (i, h) = Some (j, h') \<longrightarrow> links c (j, h') = Some (i, h) \<and> j < n \<and> (\<exists>d. i = j + 2 ^ d \<or> j = i + 2 ^ d))"
proof (intro conjI allI impI)
  have addr: "addr (nm i) = Some i" if "i < n" for i using assms(3) that by blast
  obtain S where v: "inv n nm S c" using inv_run [OF assms(4) create_net_inv [OF assms(1,2)] addr] by blast
  note w = inv_wired [OF v]
  show "prg c i \<noteq> CFail" using inv_ok [OF v assms(5)] by (auto elim: ok_FailE)
  show "\<exists>d. i = j + 2 ^ d" "links c (j, h) = None" if "(j, h) \<in> waiting c i" for j h
    using wired_waiting [OF w that] by auto
  show "links c (j, h') = Some (i, h)" if "links c (i, h) = Some (j, h')" for h j h' by (rule wired_sym [OF w that])
  have "\<exists>d. (i = j + 2 ^ d \<or> j = i + 2 ^ d \<and> j < n)" if l: "links c (i, h) = Some (j, h')" for h j h'
    using wired_used [OF w l]
  proof (elim disjE exE)
    assume "pend (S i) = Some h"
    from wired_pend [OF w this] show ?thesis using l by auto
  next
    fix e assume "la (S i) e = Some h"
    from wired_left [OF w this] show ?thesis using l by auto
  next
    fix e assume "ra (S i) e = Some h"
    from wired_right(1,3) [OF w this] show ?thesis using l by auto
  qed
  then show "j < n" "\<exists>d. i = j + 2 ^ d \<or> j = i + 2 ^ d" if "links c (i, h) = Some (j, h')" for h j h'
    using that assms(5) by fastforce+
qed

lemma three_first:
  "\<exists>k. prg (create_net junk 3 three_names ep) 0 = Connect ''n1'' k"
  unfolding create_net_def fresh_net_def lwgrp_create_def lwgrp_connect_def Let_def
  by (subst connect_rounds.simps) (simp add: connect_pair_def lwgrp_connect_right_def three_names_def)

theorem create_invariant_witness:
  "\<exists>c. (cstep False three_addr 3)\<^sup>*\<^sup>* (create_net (\<lambda>m. replicate m (CHR ''x'')) 3 three_names (\<lambda>_. NULL)) c
    \<and> waiting c 1 = {(0, 0)} \<and> prg c 1 \<noteq> CFail \<and> (\<exists>d. (1 :: nat) = 0 + 2 ^ d) \<and> links c (0, 0) = None"
proof -
  let ?c = "create_net (\<lambda>m. replicate m (CHR ''x'')) 3 three_names (\<lambda>_. NULL)"
  obtain k where k: "prg ?c 0 = Connect ''n1'' k" using three_first by blast
  let ?d = "do_connect 0 1 k ?c"
  have "cstep False three_addr 3 ?c ?d" using k by (intro cstep.connect) (auto simp: three_addr_def)
  then have r: "(cstep False three_addr 3)\<^sup>*\<^sup>* ?c ?d" by blast
  have w: "waiting ?d 1 = {(0, 0)}" by (simp add: do_connect_def create_net_def fresh_net_def)
  from create_invariant [OF three_setup(1) _ three_setup(2) r, of 1] w show ?thesis using r by (intro exI [of _ ?d]) auto
qed

end
