(* ===== verification/Ib_Queue.thy ===== *)
theory Ib_Queue
  imports Prelude
begin

text \<open>
  The packet buffers of the InfiniBand transport and the queues they are linked in, from
  \<open>src/src/spawn_net_ib_internal.h\<close> and \<open>src/src/spawn_net_ib.c\<close>. A buffer can be in several queues at once;
  it has a pair of links for each. The queues are shown to behave like lists of buffers: a
  locale states what a pair of links must offer, and is interpreted for the five of the code.
\<close>

section \<open>Data\<close>

type_synonym u16 = "16 word"

record link =
  lnext :: ptr
  lprev :: ptr

record pkt_header =
  ptype :: "8 word"
  srcid :: u64
  pseqnum :: u16
  acknum :: u16

text \<open>Of the descriptor only the field \<open>next\<close> is needed; header and payload stand for the buffer.\<close>

record vbuf =
  desc_next :: ptr
  header :: pkt_header
  payload :: "byte list"
  content_size :: nat
  flags :: "8 word"
  in_sendwin :: bool
  vbuf_vc :: ptr
  seqnum :: u16
  retry_count :: u16
  timestamp :: int
  extwin_msg :: link
  sendwin_msg :: link
  apprecvwin_msg :: link
  recvwin_msg :: link
  unack_msg :: link

type_synonym vheap = "nat \<rightharpoonup> vbuf"

record message_queue =
  q_head :: ptr
  q_tail :: ptr
  q_count :: u16

definition MESSAGE_QUEUE_INIT :: message_queue where
  "MESSAGE_QUEUE_INIT = \<lparr>q_head = NULL, q_tail = NULL, q_count = 0\<rparr>"

text \<open>Access through a pointer.\<close>

definition read_vbuf :: "ptr \<Rightarrow> vheap \<Rightarrow> vbuf option" where
  "read_vbuf p h = (case p of None \<Rightarrow> None | Some a \<Rightarrow> h a)"

definition write_vbuf :: "ptr \<Rightarrow> (vbuf \<Rightarrow> vbuf) \<Rightarrow> vheap \<Rightarrow> vheap option" where
  "write_vbuf p f h = (case p of None \<Rightarrow> None | Some a \<Rightarrow> map_option (\<lambda>v. h(a \<mapsto> f v)) (h a))"

abbreviation set_lnext :: "((link \<Rightarrow> link) \<Rightarrow> vbuf \<Rightarrow> vbuf) \<Rightarrow> ptr \<Rightarrow> vbuf \<Rightarrow> vbuf" where
  "set_lnext upd p \<equiv> upd (\<lambda>l. l\<lparr>lnext := p\<rparr>)"

abbreviation set_lprev :: "((link \<Rightarrow> link) \<Rightarrow> vbuf \<Rightarrow> vbuf) \<Rightarrow> ptr \<Rightarrow> vbuf \<Rightarrow> vbuf" where
  "set_lprev upd p \<equiv> upd (\<lambda>l. l\<lparr>lprev := p\<rparr>)"

section \<open>Queues\<close>

text \<open>
  All queues append at the end the same way, and two of them can take any buffer out; the links
  that are used are a parameter of these parts.
\<close>

definition q_append :: "(ptr \<Rightarrow> vbuf \<Rightarrow> vbuf) \<Rightarrow> message_queue \<Rightarrow> nat \<Rightarrow> vheap \<Rightarrow> (message_queue \<times> vheap) option" where
  "q_append set_nxt q v h = do {
     (q, h) \<leftarrow> (if q_head q = NULL then Some (q\<lparr>q_head := Some v\<rparr>, h)
               else do { h \<leftarrow> write_vbuf (q_tail q) (set_nxt (Some v)) h; Some (q, h) });
     Some (q\<lparr>q_tail := Some v, q_count := q_count q + 1\<rparr>, h) }"

definition q_unlink :: "(vbuf \<Rightarrow> link) \<Rightarrow> ((link \<Rightarrow> link) \<Rightarrow> vbuf \<Rightarrow> vbuf) \<Rightarrow> message_queue \<Rightarrow> nat \<Rightarrow> vheap \<Rightarrow> (message_queue \<times> vheap) option" where
  "q_unlink get upd q v h = do {
     b \<leftarrow> h v;
     let prev = lprev (get b);
     let next = lnext (get b);
     let q = (if q_head q = Some v then q\<lparr>q_head := next\<rparr> else q);
     let q = (if q_tail q = Some v then q\<lparr>q_tail := prev\<rparr> else q);
     h \<leftarrow> (if prev \<noteq> NULL then write_vbuf prev (set_lnext upd next) h else Some h);
     h \<leftarrow> (if next \<noteq> NULL then write_vbuf next (set_lprev upd prev) h else Some h);
     let q = q\<lparr>q_count := q_count q - 1\<rparr>;
     h \<leftarrow> write_vbuf (Some v) (set_lnext upd NULL \<circ> set_lprev upd NULL) h;
     Some (q, h) }"

definition ext_sendq_add :: "message_queue \<Rightarrow> nat \<Rightarrow> vheap \<Rightarrow> (message_queue \<times> vheap) option" where
  "ext_sendq_add q v h = do {
     h \<leftarrow> write_vbuf (Some v) (desc_next_update (\<lambda>_. NULL)) h;
     q_append (\<lambda>p. desc_next_update (\<lambda>_. p)) q v h }"

definition ext_window_add :: "message_queue \<Rightarrow> nat \<Rightarrow> vheap \<Rightarrow> (message_queue \<times> vheap) option" where
  "ext_window_add q v h = do {
     h \<leftarrow> write_vbuf (Some v) (set_lnext extwin_msg_update NULL \<circ> set_lprev extwin_msg_update NULL) h;
     q_append (set_lnext extwin_msg_update) q v h }"

definition send_window_add :: "message_queue \<Rightarrow> nat \<Rightarrow> vheap \<Rightarrow> (message_queue \<times> vheap) option" where
  "send_window_add q v h = do {
     h \<leftarrow> write_vbuf (Some v) (in_sendwin_update (\<lambda>_. True)) h;
     h \<leftarrow> write_vbuf (Some v) (set_lnext sendwin_msg_update NULL \<circ> set_lprev sendwin_msg_update (q_tail q)) h;
     q_append (set_lnext sendwin_msg_update) q v h }"

definition send_window_remove :: "message_queue \<Rightarrow> nat \<Rightarrow> vheap \<Rightarrow> (message_queue \<times> vheap) option" where
  "send_window_remove q v h = do {
     (q, h) \<leftarrow> q_unlink sendwin_msg sendwin_msg_update q v h;
     h \<leftarrow> write_vbuf (Some v) (in_sendwin_update (\<lambda>_. False)) h;
     Some (q, h) }"

definition unack_queue_add :: "message_queue \<Rightarrow> nat \<Rightarrow> vheap \<Rightarrow> (message_queue \<times> vheap) option" where
  "unack_queue_add q v h = do {
     h \<leftarrow> write_vbuf (Some v) (set_lnext unack_msg_update NULL \<circ> set_lprev unack_msg_update (q_tail q)) h;
     q_append (set_lnext unack_msg_update) q v h }"

definition unack_queue_remove :: "message_queue \<Rightarrow> nat \<Rightarrow> vheap \<Rightarrow> (message_queue \<times> vheap) option" where
  "unack_queue_remove q v h = q_unlink unack_msg unack_msg_update q v h"

definition apprecv_window_add :: "message_queue \<Rightarrow> nat \<Rightarrow> vheap \<Rightarrow> (message_queue \<times> vheap) option" where
  "apprecv_window_add q v h = do {
     h \<leftarrow> write_vbuf (Some v) (set_lnext apprecvwin_msg_update NULL \<circ> set_lprev apprecvwin_msg_update NULL) h;
     q_append (set_lnext apprecvwin_msg_update) q v h }"

text \<open>The assertion on the count of an emptied queue is a branch that gives \<open>None\<close>.\<close>

definition apprecv_window_retrieve_and_remove :: "message_queue \<Rightarrow> vheap \<Rightarrow> (ptr \<times> message_queue \<times> vheap) option" where
  "apprecv_window_retrieve_and_remove q h =
     (case q_head q of
        None \<Rightarrow> Some (NULL, q, h)
      | Some v \<Rightarrow> do {
          b \<leftarrow> h v;
          let q = q\<lparr>q_head := lnext (apprecvwin_msg b), q_count := q_count q - 1\<rparr>;
          (q, h) \<leftarrow> (if q_head q = NULL then (if q_count q = 0 then Some (q\<lparr>q_tail := NULL\<rparr>, h) else None)
                    else do { h \<leftarrow> write_vbuf (q_head q) (set_lprev apprecvwin_msg_update NULL) h; Some (q, h) });
          h \<leftarrow> write_vbuf (Some v) (set_lprev apprecvwin_msg_update NULL \<circ> set_lnext apprecvwin_msg_update NULL) h;
          Some (Some v, q, h) })"

definition apprecv_window_test :: "message_queue \<Rightarrow> int" where
  "apprecv_window_test q = (if q_head q = NULL then 0 else 1)"

text \<open>
  The receive window keeps packets that came too early, in the order of their sequence numbers from the
  start of the window on. The loop that looks for the place follows the links while a condition
  on the sequence number holds.
\<close>

datatype recvwin_code = MSG_QUEUED_RECVWIN | MSG_IN_RECVWIN

partial_function (option) recv_seek :: "(u16 \<Rightarrow> bool) \<Rightarrow> ptr \<Rightarrow> vheap \<Rightarrow> ptr option" where
  "recv_seek c cur h =
     (case cur of None \<Rightarrow> Some NULL
      | Some a \<Rightarrow> do { b \<leftarrow> h a; if c (seqnum b) then recv_seek c (lnext (recvwin_msg b)) h else Some cur })"

definition recv_place :: "u16 \<Rightarrow> u16 \<Rightarrow> nat \<Rightarrow> vheap \<Rightarrow> ptr option" where
  "recv_place s start first h = do {
     b \<leftarrow> h first;
     if s > start then
       (if seqnum b < start then Some (Some first)
        else recv_seek (\<lambda>x. x < s \<and> x > start) (Some first) h)
     else
       (if seqnum b > start then recv_seek (\<lambda>x. x \<ge> start \<or> x < s) (Some first) h
        else recv_seek (\<lambda>x. x < s) (Some first) h) }"

text \<open>The buffer \<open>v\<close> goes in front of another one, or at the end.\<close>

definition recv_insert_before :: "message_queue \<Rightarrow> nat \<Rightarrow> nat \<Rightarrow> vheap \<Rightarrow> (message_queue \<times> vheap) option" where
  "recv_insert_before q v cur h = do {
     cb \<leftarrow> h cur;
     let prev = lprev (recvwin_msg cb);
     h \<leftarrow> write_vbuf (Some v) (set_lnext recvwin_msg_update (Some cur) \<circ> set_lprev recvwin_msg_update prev) h;
     (q, h) \<leftarrow> (if q_head q = Some cur then Some (q\<lparr>q_head := Some v\<rparr>, h)
               else do { h \<leftarrow> write_vbuf prev (set_lnext recvwin_msg_update (Some v)) h; Some (q, h) });
     h \<leftarrow> write_vbuf (Some cur) (set_lprev recvwin_msg_update (Some v)) h;
     Some (q, h) }"

definition recv_insert_last :: "message_queue \<Rightarrow> nat \<Rightarrow> vheap \<Rightarrow> (message_queue \<times> vheap) option" where
  "recv_insert_last q v h = do {
     h \<leftarrow> write_vbuf (Some v) (set_lprev recvwin_msg_update (q_tail q) \<circ> set_lnext recvwin_msg_update NULL) h;
     h \<leftarrow> write_vbuf (q_tail q) (set_lnext recvwin_msg_update (Some v)) h;
     Some (q\<lparr>q_tail := Some v\<rparr>, h) }"

text \<open>The count is not increased when the window was empty.\<close>

definition recv_window_add :: "message_queue \<Rightarrow> nat \<Rightarrow> u16 \<Rightarrow> vheap \<Rightarrow> (recvwin_code \<times> message_queue \<times> vheap) option" where
  "recv_window_add q v start h = do {
     h \<leftarrow> write_vbuf (Some v) (set_lprev recvwin_msg_update NULL \<circ> set_lnext recvwin_msg_update NULL) h;
     b \<leftarrow> h v;
     (case q_head q of
        None \<Rightarrow> Some (MSG_QUEUED_RECVWIN, q\<lparr>q_head := Some v, q_tail := Some v\<rparr>, h)
      | Some first \<Rightarrow> do {
          place \<leftarrow> recv_place (seqnum b) start first h;
          (case place of
             Some cur \<Rightarrow> do {
               cb \<leftarrow> h cur;
               if seqnum cb = seqnum b then Some (MSG_IN_RECVWIN, q, h)
               else do {
                 (q, h) \<leftarrow> recv_insert_before q v cur h;
                 Some (MSG_QUEUED_RECVWIN, q\<lparr>q_count := q_count q + 1\<rparr>, h) } }
           | None \<Rightarrow> do {
               (q, h) \<leftarrow> recv_insert_last q v h;
               Some (MSG_QUEUED_RECVWIN, q\<lparr>q_count := q_count q + 1\<rparr>, h) }) }) }"

definition recv_window_remove :: "message_queue \<Rightarrow> vheap \<Rightarrow> (message_queue \<times> vheap) option" where
  "recv_window_remove q h = do {
     b \<leftarrow> read_vbuf (q_head q) h;
     let next = lnext (recvwin_msg b);
     let q = q\<lparr>q_head := next\<rparr>;
     (q, h) \<leftarrow> (if next \<noteq> NULL then do { h \<leftarrow> write_vbuf next (set_lprev recvwin_msg_update NULL) h; Some (q, h) }
               else Some (q\<lparr>q_tail := NULL\<rparr>, h));
     Some (q\<lparr>q_count := q_count q - 1\<rparr>, h) }"

section \<open>Lists and links\<close>

definition first :: "'a list \<Rightarrow> 'a option" where
  "first xs = (case xs of [] \<Rightarrow> None | x # _ \<Rightarrow> Some x)"

definition endof :: "'a list \<Rightarrow> 'a option" where
  "endof xs = first (rev xs)"

fun nxt :: "'a list \<Rightarrow> 'a \<Rightarrow> 'a option" where
  "nxt [] a = None"
| "nxt (x # xs) a = (if x = a then first xs else nxt xs a)"

definition prv :: "'a list \<Rightarrow> 'a \<Rightarrow> 'a option" where
  "prv xs a = nxt (rev xs) a"

lemma first_simps [simp]: "first [] = None" "first (x # xs) = Some x" "first (xs @ ys) = (if xs = [] then first ys else first xs)"
  by (auto simp: first_def split: list.splits)

lemma endof_simps [simp]:
  "endof [] = None" "endof (xs @ [x]) = Some x" "endof (xs @ ys) = (if ys = [] then endof xs else endof ys)"
  "endof (x # xs) = (if xs = [] then Some x else endof xs)"
  by (auto simp: endof_def)

lemma first_None [simp]: "first xs = None \<longleftrightarrow> xs = []"
  by (cases xs) auto

lemma endof_None [simp]: "endof xs = None \<longleftrightarrow> xs = []"
  by (simp add: endof_def)

lemma first_mem: "first xs = Some a \<Longrightarrow> a \<in> set xs"
  by (cases xs) auto

lemma endof_in: "endof xs = Some a \<Longrightarrow> a \<in> set xs"
  using first_mem [of "rev xs" a] by (simp add: endof_def)

lemma nxt_notin: "a \<notin> set xs \<Longrightarrow> nxt xs a = None"
  by (induction xs) auto

lemma nxt_append:
  "a \<notin> set xs \<Longrightarrow> nxt (xs @ ys) a = nxt ys a"
  "a \<in> set xs \<Longrightarrow> nxt (xs @ ys) a = (case nxt xs a of None \<Rightarrow> first ys | Some b \<Rightarrow> Some b)"
  by (induction xs) (auto split: option.splits)

lemma nxt_None: "distinct xs \<Longrightarrow> a \<in> set xs \<Longrightarrow> nxt xs a = None \<longleftrightarrow> endof xs = Some a"
  by (induction xs) (auto dest: endof_in)

lemma prv_append:
  "a \<notin> set ys \<Longrightarrow> prv (xs @ ys) a = prv xs a"
  "a \<in> set ys \<Longrightarrow> prv (xs @ ys) a = (case prv ys a of None \<Rightarrow> endof xs | Some b \<Rightarrow> Some b)"
  by (auto simp: prv_def nxt_append endof_def split: option.splits)

lemma prv_None: "distinct xs \<Longrightarrow> a \<in> set xs \<Longrightarrow> prv xs a = None \<longleftrightarrow> first xs = Some a"
  using nxt_None [of "rev xs" a] by (simp add: prv_def endof_def)

lemma nxt_Cons_self [simp]: "nxt (a # xs) a = first xs"
  by simp

lemma prv_simps [simp]: "prv [] a = None" "prv [x] a = None" "prv (xs @ [a]) a = endof xs"
  by (simp_all add: prv_def endof_def)

lemma nxt_middle:
  assumes d: "distinct (xs @ x # zs)"
  shows "a \<in> set xs \<Longrightarrow> nxt (xs @ x # zs) a = (if endof xs = Some a then Some x else nxt xs a)"
    and "a \<in> set xs \<Longrightarrow> nxt (xs @ zs) a = (if endof xs = Some a then first zs else nxt xs a)"
    and "nxt (xs @ x # zs) x = first zs"
    and "a \<in> set zs \<Longrightarrow> nxt (xs @ x # zs) a = nxt zs a"
    and "a \<in> set zs \<Longrightarrow> nxt (xs @ zs) a = nxt zs a"
proof -
  have n: "endof xs = Some a \<longleftrightarrow> nxt xs a = None" if "a \<in> set xs" using nxt_None [OF _ that] d by simp
  have z: "a \<notin> set xs" "x \<noteq> a" if "a \<in> set zs" using d that by auto
  show "a \<in> set xs \<Longrightarrow> nxt (xs @ x # zs) a = (if endof xs = Some a then Some x else nxt xs a)"
    "a \<in> set xs \<Longrightarrow> nxt (xs @ zs) a = (if endof xs = Some a then first zs else nxt xs a)"
    using n by (auto simp: nxt_append split: option.splits)
  show "nxt (xs @ x # zs) x = first zs" using d by (simp add: nxt_append)
  show "a \<in> set zs \<Longrightarrow> nxt (xs @ x # zs) a = nxt zs a" "a \<in> set zs \<Longrightarrow> nxt (xs @ zs) a = nxt zs a"
    using z by (simp_all add: nxt_append)
qed

lemma prv_middle:
  assumes d: "distinct (xs @ x # zs)"
  shows "a \<in> set zs \<Longrightarrow> prv (xs @ x # zs) a = (if first zs = Some a then Some x else prv zs a)"
    and "a \<in> set zs \<Longrightarrow> prv (xs @ zs) a = (if first zs = Some a then endof xs else prv zs a)"
    and "prv (xs @ x # zs) x = endof xs"
    and "a \<in> set xs \<Longrightarrow> prv (xs @ x # zs) a = prv xs a"
    and "a \<in> set xs \<Longrightarrow> prv (xs @ zs) a = prv xs a"
proof -
  have r: "distinct (rev zs @ x # rev xs)" using d by auto
  have f: "endof (rev zs) = first zs" by (simp add: endof_def)
  show "a \<in> set zs \<Longrightarrow> prv (xs @ x # zs) a = (if first zs = Some a then Some x else prv zs a)"
    "a \<in> set zs \<Longrightarrow> prv (xs @ zs) a = (if first zs = Some a then endof xs else prv zs a)"
    "prv (xs @ x # zs) x = endof xs"
    "a \<in> set xs \<Longrightarrow> prv (xs @ x # zs) a = prv xs a"
    "a \<in> set xs \<Longrightarrow> prv (xs @ zs) a = prv xs a"
    using nxt_middle(1,2,4,5) [OF r, of a] nxt_middle(3) [OF r] f by (simp_all add: prv_def endof_def)
qed

section \<open>What a queue holds\<close>

text \<open>The buffers of a queue in order, by their links in one direction, and in the other.\<close>

definition chain :: "(vbuf \<Rightarrow> ptr) \<Rightarrow> vheap \<Rightarrow> message_queue \<Rightarrow> nat list \<Rightarrow> bool" where
  "chain nx h q xs \<longleftrightarrow> distinct xs \<and> q_head q = first xs \<and> q_tail q = endof xs
     \<and> (\<forall>a\<in>set xs. \<exists>v. h a = Some v \<and> nx v = nxt xs a)"

definition backs :: "(vbuf \<Rightarrow> ptr) \<Rightarrow> vheap \<Rightarrow> nat list \<Rightarrow> bool" where
  "backs pv h xs \<longleftrightarrow> (\<forall>a\<in>set xs. \<exists>v. h a = Some v \<and> pv v = prv xs a)"

text \<open>A queue is not touched when the links of its buffers are not.\<close>

definition same_on :: "(vbuf \<Rightarrow> 'b) \<Rightarrow> nat set \<Rightarrow> vheap \<Rightarrow> vheap \<Rightarrow> bool" where
  "same_on f A h h' \<longleftrightarrow> (\<forall>a\<in>A. map_option f (h' a) = map_option f (h a))"

lemma chain_cong: "same_on nx (set xs) h h' \<Longrightarrow> chain nx h q xs \<Longrightarrow> chain nx h' q xs"
proof -
  assume s: "same_on nx (set xs) h h'" and c: "chain nx h q xs"
  have "\<exists>v. h' a = Some v \<and> nx v = nxt xs a" if m: "a \<in> set xs" for a
  proof -
    obtain v where "h a = Some v" "nx v = nxt xs a" using c m unfolding chain_def by blast
    moreover have "map_option nx (h' a) = map_option nx (h a)" using s m unfolding same_on_def by blast
    ultimately have "map_option nx (h' a) = Some (nxt xs a)" by simp
    then show ?thesis by (simp only: map_option_eq_Some)
  qed
  then show ?thesis using c by (simp add: chain_def)
qed

lemma backs_cong: "same_on pv (set xs) h h' \<Longrightarrow> backs pv h xs \<Longrightarrow> backs pv h' xs"
proof -
  assume s: "same_on pv (set xs) h h'" and c: "backs pv h xs"
  have "\<exists>v. h' a = Some v \<and> pv v = prv xs a" if m: "a \<in> set xs" for a
  proof -
    obtain v where "h a = Some v" "pv v = prv xs a" using c m unfolding backs_def by blast
    moreover have "map_option pv (h' a) = map_option pv (h a)" using s m unfolding same_on_def by blast
    ultimately have "map_option pv (h' a) = Some (prv xs a)" by simp
    then show ?thesis by (simp only: map_option_eq_Some)
  qed
  then show ?thesis by (simp add: backs_def)
qed

lemma chain_get: "chain nx h q xs \<Longrightarrow> a \<in> set xs \<Longrightarrow> \<exists>v. h a = Some v \<and> nx v = nxt xs a"
  by (simp add: chain_def)

lemma backs_get: "backs pv h xs \<Longrightarrow> a \<in> set xs \<Longrightarrow> h a = Some v \<Longrightarrow> pv v = prv xs a"
  by (auto simp: backs_def)

lemma chainI:
  assumes "distinct xs" "q_head q = first xs" "q_tail q = endof xs" "\<And>a. a \<in> set xs \<Longrightarrow> \<exists>v. h a = Some v \<and> nx v = nxt xs a"
  shows "chain nx h q xs"
  using assms by (simp add: chain_def)

lemma chainD: "chain nx h q xs \<Longrightarrow> distinct xs" "chain nx h q xs \<Longrightarrow> q_head q = first xs" "chain nx h q xs \<Longrightarrow> q_tail q = endof xs"
  by (simp_all add: chain_def)

lemma chain_empty: "chain nx h q [] \<longleftrightarrow> q_head q = None \<and> q_tail q = None"
  by (simp add: chain_def)

section \<open>Observations that a step does not change\<close>

definition keeps :: "(vbuf \<Rightarrow> 'b) \<Rightarrow> vheap \<Rightarrow> vheap \<Rightarrow> bool" where
  "keeps g h h' \<longleftrightarrow> (\<forall>a. map_option g (h' a) = map_option g (h a))"

lemma keeps_refl [simp]: "keeps g h h"
  by (simp add: keeps_def)

lemma keeps_trans: "keeps g h h' \<Longrightarrow> keeps g h' h'' \<Longrightarrow> keeps g h h''"
  by (simp add: keeps_def)

lemma keeps_upd: "h a = Some v \<Longrightarrow> g w = g v \<Longrightarrow> keeps g h (h(a \<mapsto> w))"
  by (simp add: keeps_def)

lemma keeps_get: "keeps g h h' \<Longrightarrow> h a = Some v \<Longrightarrow> \<exists>w. h' a = Some w \<and> g w = g v"
proof -
  assume k: "keeps g h h'" and v: "h a = Some v"
  have "map_option g (h' a) = Some (g v)" using k v unfolding keeps_def by (metis option.simps(9))
  then show ?thesis by (simp only: map_option_eq_Some)
qed

lemma keeps_same_on: "keeps g h h' \<Longrightarrow> same_on g A h h'"
  by (simp add: keeps_def same_on_def)

lemma write_vbuf_Some [simp]: "h a = Some v \<Longrightarrow> write_vbuf (Some a) f h = Some (h(a \<mapsto> f v))"
  by (simp add: write_vbuf_def)

lemma write_keeps: "write_vbuf p f h = Some h' \<Longrightarrow> (\<And>v. g (f v) = g v) \<Longrightarrow> keeps g h h'"
  by (auto simp: write_vbuf_def keeps_def split: option.splits)

section \<open>A pair of links\<close>

text \<open>What appending needs: a link to the next buffer.\<close>

locale next_field =
  fixes nx :: "vbuf \<Rightarrow> ptr" and set_nx :: "ptr \<Rightarrow> vbuf \<Rightarrow> vbuf"
  assumes nx_set [simp]: "nx (set_nx p v) = p"
begin

lemma append_keeps:
  assumes "q_append set_nx q v h = Some (q', h')" "\<And>p w. g (set_nx p w) = g w"
  shows "keeps g h h'"
  using assms(1) write_keeps [of "q_tail q" "set_nx (Some v)" h _ g] assms(2)
  by (auto simp: q_append_def split: bind_splits if_splits)

text \<open>Appending a buffer that has no successor.\<close>

lemma append_chain:
  assumes c: "chain nx h q xs" and v: "h v = Some b" "v \<notin> set xs" "nx b = None"
  shows "\<exists>q' h'. q_append set_nx q v h = Some (q', h') \<and> chain nx h' q' (xs @ [v]) \<and> q_count q' = q_count q + 1"
proof (cases "xs = []")
  case True
  then show ?thesis using c v by (auto simp: q_append_def chain_def)
next
  case False
  then obtain ys t where xs: "xs = ys @ [t]" by (meson rev_exhaust)
  obtain w where w: "h t = Some w" using c xs by (auto simp: chain_def)
  have d: "distinct (ys @ [t] @ [v])" "v \<noteq> t" using c v(2) xs by (auto simp: chain_def)
  let ?h = "h(t \<mapsto> set_nx (Some v) w)"
  let ?q = "q\<lparr>q_tail := Some v, q_count := q_count q + 1\<rparr>"
  have "chain nx ?h ?q (xs @ [v])"
  proof (rule chainI)
    show "\<exists>u. ?h a = Some u \<and> nx u = nxt (xs @ [v]) a" if a: "a \<in> set (xs @ [v])" for a
    proof (cases "a = t \<or> a = v")
      case True
      then show ?thesis using d v by (auto simp: xs nxt_append split: option.splits)
    next
      case False
      then have "a \<in> set xs" "endof xs \<noteq> Some a" using a xs by auto
      moreover obtain u where "h a = Some u" "nx u = nxt xs a" using chain_get [OF c \<open>a \<in> set xs\<close>] by blast
      ultimately show ?thesis using nxt_middle(1) [of xs v "[]" a] d False by (simp add: xs)
    qed
  qed (use d xs chainD [OF c] in auto)
  moreover have "q_append set_nx q v h = Some (?q, ?h)" using chainD [OF c] xs w by (simp add: q_append_def)
  ultimately show ?thesis by (intro exI conjI) auto
qed

end

locale link_field =
  fixes get :: "vbuf \<Rightarrow> link" and upd :: "(link \<Rightarrow> link) \<Rightarrow> vbuf \<Rightarrow> vbuf"
  assumes get_upd [simp]: "get (upd f v) = f (get v)"

sublocale link_field \<subseteq> next_field "\<lambda>v. lnext (get v)" "set_lnext upd"
  by unfold_locales simp

context link_field
begin

lemma unlink_keeps:
  assumes "q_unlink get upd q v h = Some (q', h')" "\<And>f w. g (upd f w) = g w"
  shows "keeps g h h'"
  using assms(1) unfolding q_unlink_def Let_def
  by (auto split: bind_splits if_splits dest!: write_keeps [where g = g] simp: assms(2) keeps_upd intro: keeps_trans)

lemma append_backs:
  assumes b: "backs (\<lambda>v. lprev (get v)) h xs" and v: "h v = Some w" "v \<notin> set xs" "lprev (get w) = endof xs"
    and a: "q_append (set_lnext upd) q v h = Some (q', h')"
  shows "backs (\<lambda>v. lprev (get v)) h' (xs @ [v])"
proof -
  have "backs (\<lambda>v. lprev (get v)) h (xs @ [v])"
    unfolding backs_def
  proof
    fix a assume "a \<in> set (xs @ [v])"
    then show "\<exists>u. h a = Some u \<and> lprev (get u) = prv (xs @ [v]) a"
      using b v prv_append(1) [of a "[v]" xs] by (cases "a = v") (auto simp: backs_def)
  qed
  moreover have "keeps (\<lambda>v. lprev (get v)) h h'"
    using a write_keeps [of "q_tail q" "set_lnext upd (Some v)" h _ "\<lambda>v. lprev (get v)"]
    by (auto simp: q_append_def split: bind_splits if_splits)
  ultimately show ?thesis using backs_cong [OF keeps_same_on] by blast
qed

text \<open>Taking a buffer out of a queue that is linked in both directions.\<close>

lemma unlink_eq:
  assumes c: "chain (\<lambda>v. lnext (get v)) h q (ys @ v # zs)" and b: "backs (\<lambda>v. lprev (get v)) h (ys @ v # zs)"
  shows "\<exists>q' h'. q_unlink get upd q v h = Some (q', h') \<and> q_head q' = first (ys @ zs) \<and> q_tail q' = endof (ys @ zs)
    \<and> q_count q' = q_count q - 1
    \<and> (\<forall>a. h' a = (if a = v then map_option (set_lnext upd NULL \<circ> set_lprev upd NULL) (h v)
        else if endof ys = Some a then map_option (set_lnext upd (first zs)) (h a)
        else if first zs = Some a then map_option (set_lprev upd (endof ys)) (h a) else h a))"
proof -
  have d: "distinct (ys @ v # zs)" using chainD(1) [OF c] .
  obtain w where w: "h v = Some w" "lnext (get w) = first zs" using chain_get [OF c, of v] nxt_middle(3) [OF d] by auto
  have w2: "lprev (get w) = endof ys" using backs_get [OF b _ w(1)] prv_middle(3) [OF d] by simp
  have ne: "endof ys \<noteq> Some v" "first zs \<noteq> Some v" "\<not> (endof ys = Some a \<and> first zs = Some a)" "endof zs \<noteq> Some v" "first ys \<noteq> Some v" for a
    using d endof_in [of ys] first_mem [of zs] endof_in [of zs] first_mem [of ys] by auto
  have hd: "q_head q = first (ys @ v # zs)" "q_tail q = endof (ys @ v # zs)" using chainD [OF c] by auto
  have p: "\<exists>u. h a = Some u" if "endof ys = Some a \<or> first zs = Some a" for a
    using chain_get [OF c, of a] that endof_in [of ys a] first_mem [of zs a] by auto
  show ?thesis
  proof (cases "endof ys"; cases "first zs")
    fix a n assume *: "endof ys = Some a" "first zs = Some n"
    then obtain u x where "h a = Some u" "h n = Some x" using p by blast
    then show ?thesis using * w w2 ne hd by (auto simp: q_unlink_def Let_def)
  next
    fix a assume *: "endof ys = Some a" "first zs = None"
    then obtain u where "h a = Some u" using p by blast
    then show ?thesis using * w w2 ne hd by (auto simp: q_unlink_def Let_def)
  next
    fix n assume *: "endof ys = None" "first zs = Some n"
    then obtain u where "h n = Some u" using p by blast
    then show ?thesis using * w w2 ne hd by (auto simp: q_unlink_def Let_def)
  next
    assume *: "endof ys = None" "first zs = None"
    then show ?thesis using w w2 hd by (auto simp: q_unlink_def Let_def)
  qed
qed

lemma unlink_chain:
  assumes c: "chain (\<lambda>v. lnext (get v)) h q (ys @ v # zs)" and b: "backs (\<lambda>v. lprev (get v)) h (ys @ v # zs)"
  shows "\<exists>q' h'. q_unlink get upd q v h = Some (q', h') \<and> q_count q' = q_count q - 1
    \<and> chain (\<lambda>v. lnext (get v)) h' q' (ys @ zs) \<and> backs (\<lambda>v. lprev (get v)) h' (ys @ zs)"
proof -
  have d: "distinct (ys @ v # zs)" using chainD(1) [OF c] .
  obtain q' h' where q': "q_unlink get upd q v h = Some (q', h')" "q_head q' = first (ys @ zs)" "q_tail q' = endof (ys @ zs)"
      "q_count q' = q_count q - 1"
    and h': "\<And>a. h' a = (if a = v then map_option (set_lnext upd NULL \<circ> set_lprev upd NULL) (h v)
        else if endof ys = Some a then map_option (set_lnext upd (first zs)) (h a)
        else if first zs = Some a then map_option (set_lprev upd (endof ys)) (h a) else h a)"
    using unlink_eq [OF c b] by blast
  have "\<exists>u. h' a = Some u \<and> lnext (get u) = nxt (ys @ zs) a \<and> lprev (get u) = prv (ys @ zs) a" if a: "a \<in> set (ys @ zs)" for a
  proof -
    have av: "a \<noteq> v" using a d by auto
    obtain u where u: "h a = Some u" "lnext (get u) = nxt (ys @ v # zs) a" using chain_get [OF c, of a] a by auto
    have u2: "lprev (get u) = prv (ys @ v # zs) a" using backs_get [OF b _ u(1)] a by auto
    show ?thesis
    proof (cases "a \<in> set ys")
      case True
      then have "first zs \<noteq> Some a" using d first_mem [of zs a] by auto
      then show ?thesis using u u2 av h' [of a] nxt_middle(1,2) [OF d True] prv_middle(4,5) [OF d True] by auto
    next
      case False
      then have z: "a \<in> set zs" "endof ys \<noteq> Some a" using a endof_in [of ys a] by auto
      then show ?thesis using u u2 av h' [of a] nxt_middle(4,5) [OF d z(1)] prv_middle(1,2) [OF d z(1)] by auto
    qed
  qed
  then have "chain (\<lambda>v. lnext (get v)) h' q' (ys @ zs)" "backs (\<lambda>v. lprev (get v)) h' (ys @ zs)"
    using q' d by (intro chainI, auto simp: backs_def)
  then show ?thesis using q' by blast
qed

text \<open>Putting a buffer between two others.\<close>

lemma insert_links:
  assumes c: "chain (\<lambda>v. lnext (get v)) h q (ys @ zs)" and b: "backs (\<lambda>v. lprev (get v)) h (ys @ zs)" and v: "v \<notin> set (ys @ zs)"
    and w: "h' v = Some w" "lnext (get w) = first zs" "lprev (get w) = endof ys"
    and h': "\<And>a. a \<noteq> v \<Longrightarrow> h' a = (if endof ys = Some a then map_option (set_lnext upd (Some v)) (h a)
        else if first zs = Some a then map_option (set_lprev upd (Some v)) (h a) else h a)"
    and q': "q_head q' = first (ys @ v # zs)" "q_tail q' = endof (ys @ v # zs)"
  shows "chain (\<lambda>v. lnext (get v)) h' q' (ys @ v # zs)" "backs (\<lambda>v. lprev (get v)) h' (ys @ v # zs)"
proof -
  have d: "distinct (ys @ v # zs)" using chainD(1) [OF c] v by auto
  have "\<exists>u. h' a = Some u \<and> lnext (get u) = nxt (ys @ v # zs) a \<and> lprev (get u) = prv (ys @ v # zs) a" if a: "a \<in> set (ys @ v # zs)" for a
  proof (cases "a = v")
    case True
    then show ?thesis using w nxt_middle(3) [OF d] prv_middle(3) [OF d] by simp
  next
    case False
    then have m: "a \<in> set (ys @ zs)" using a by auto
    obtain u where u: "h a = Some u" "lnext (get u) = nxt (ys @ zs) a" using chain_get [OF c m] by blast
    have u2: "lprev (get u) = prv (ys @ zs) a" using backs_get [OF b m u(1)] .
    show ?thesis
    proof (cases "a \<in> set ys")
      case True
      then have "first zs \<noteq> Some a" using d first_mem [of zs a] by auto
      then show ?thesis using u u2 False h' [of a] nxt_middle(1,2) [OF d True] prv_middle(4,5) [OF d True] by auto
    next
      case no: False
      then have z: "a \<in> set zs" "endof ys \<noteq> Some a" using m endof_in [of ys a] by auto
      then show ?thesis using u u2 False h' [of a] nxt_middle(4,5) [OF d z(1)] prv_middle(1,2) [OF d z(1)] by auto
    qed
  qed
  then show "chain (\<lambda>v. lnext (get v)) h' q' (ys @ v # zs)" "backs (\<lambda>v. lprev (get v)) h' (ys @ v # zs)"
    using q' d by (intro chainI, auto simp: backs_def)
qed

end

interpretation sendwin: link_field sendwin_msg sendwin_msg_update
  by unfold_locales simp

interpretation unack: link_field unack_msg unack_msg_update
  by unfold_locales simp

interpretation extwin: link_field extwin_msg extwin_msg_update
  by unfold_locales simp

interpretation apprecv: link_field apprecvwin_msg apprecvwin_msg_update
  by unfold_locales simp

interpretation recvwin: link_field recvwin_msg recvwin_msg_update
  by unfold_locales simp

interpretation sendq: next_field desc_next "\<lambda>p. desc_next_update (\<lambda>_. p)"
  by unfold_locales simp

section \<open>The queues of the code\<close>

abbreviation sendwin_list :: "vheap \<Rightarrow> message_queue \<Rightarrow> nat list \<Rightarrow> bool" where
  "sendwin_list h q xs \<equiv> chain (\<lambda>v. lnext (sendwin_msg v)) h q xs \<and> backs (\<lambda>v. lprev (sendwin_msg v)) h xs"

abbreviation unack_list :: "vheap \<Rightarrow> message_queue \<Rightarrow> nat list \<Rightarrow> bool" where
  "unack_list h q xs \<equiv> chain (\<lambda>v. lnext (unack_msg v)) h q xs \<and> backs (\<lambda>v. lprev (unack_msg v)) h xs"

abbreviation recvwin_list :: "vheap \<Rightarrow> message_queue \<Rightarrow> nat list \<Rightarrow> bool" where
  "recvwin_list h q xs \<equiv> chain (\<lambda>v. lnext (recvwin_msg v)) h q xs \<and> backs (\<lambda>v. lprev (recvwin_msg v)) h xs"

abbreviation extwin_list :: "vheap \<Rightarrow> message_queue \<Rightarrow> nat list \<Rightarrow> bool" where
  "extwin_list h q xs \<equiv> chain (\<lambda>v. lnext (extwin_msg v)) h q xs"

abbreviation apprecv_list :: "vheap \<Rightarrow> message_queue \<Rightarrow> nat list \<Rightarrow> bool" where
  "apprecv_list h q xs \<equiv> chain (\<lambda>v. lnext (apprecvwin_msg v)) h q xs"

abbreviation sendq_list :: "vheap \<Rightarrow> message_queue \<Rightarrow> nat list \<Rightarrow> bool" where
  "sendq_list h q xs \<equiv> chain desc_next h q xs"

text \<open>A buffer that is in no queue may change.\<close>

lemma chain_upd: "chain nx h q xs \<Longrightarrow> v \<notin> set xs \<Longrightarrow> chain nx (h(v \<mapsto> w)) q xs"
  by (rule chain_cong [rotated]) (auto simp: same_on_def)

lemma backs_upd: "backs pv h xs \<Longrightarrow> v \<notin> set xs \<Longrightarrow> backs pv (h(v \<mapsto> w)) xs"
  by (rule backs_cong [rotated]) (auto simp: same_on_def)

lemma send_window_add_ok:
  assumes "sendwin_list h q xs" "h v = Some b" "v \<notin> set xs"
  shows "\<exists>q' h'. send_window_add q v h = Some (q', h') \<and> sendwin_list h' q' (xs @ [v]) \<and> q_count q' = q_count q + 1"
proof -
  let ?w = "(set_lnext sendwin_msg_update NULL \<circ> set_lprev sendwin_msg_update (q_tail q)) (in_sendwin_update (\<lambda>_. True) b)"
  let ?h = "h(v \<mapsto> ?w)"
  have c: "chain (\<lambda>v. lnext (sendwin_msg v)) ?h q xs" "backs (\<lambda>v. lprev (sendwin_msg v)) ?h xs"
    using assms chain_upd backs_upd by blast+
  obtain q' h' where q': "q_append (set_lnext sendwin_msg_update) q v ?h = Some (q', h')"
      "chain (\<lambda>v. lnext (sendwin_msg v)) h' q' (xs @ [v])" "q_count q' = q_count q + 1"
    using sendwin.append_chain [OF c(1), of v ?w] assms(3) by auto
  have "backs (\<lambda>v. lprev (sendwin_msg v)) h' (xs @ [v])"
    using sendwin.append_backs [OF c(2) _ assms(3) _ q'(1), of ?w] chainD(3) [OF c(1)] by simp
  then show ?thesis using q' assms(2) by (simp add: send_window_add_def)
qed

lemma send_window_add_keeps:
  assumes "send_window_add q v h = Some (q', h')" "\<And>f w. g (sendwin_msg_update f w) = g w" "\<And>f w. g (in_sendwin_update f w) = g w"
  shows "keeps g h h'"
  using assms(1) unfolding send_window_add_def
  by (auto split: bind_splits dest!: write_keeps [where g = g] sendwin.append_keeps [where g = g] simp: assms(2,3) intro: keeps_trans)

lemma send_window_remove_ok:
  assumes "sendwin_list h q (ys @ v # zs)"
  shows "\<exists>q' h'. send_window_remove q v h = Some (q', h') \<and> sendwin_list h' q' (ys @ zs) \<and> q_count q' = q_count q - 1"
proof -
  obtain q' h' where q': "q_unlink sendwin_msg sendwin_msg_update q v h = Some (q', h')" "q_count q' = q_count q - 1"
      "sendwin_list h' q' (ys @ zs)"
    using sendwin.unlink_chain assms by blast
  have "keeps (\<lambda>_. ()) h h'" by (rule sendwin.unlink_keeps [OF q'(1)]) simp
  moreover obtain b where "h v = Some b" using assms chain_get [of _ h q "ys @ v # zs" v] by auto
  ultimately obtain w where w: "h' v = Some w" using keeps_get by blast
  let ?h = "h'(v \<mapsto> in_sendwin_update (\<lambda>_. False) w)"
  have v: "v \<notin> set (ys @ zs)" using assms chainD(1) by fastforce
  have "sendwin_list ?h q' (ys @ zs)" using q'(3) chain_upd [OF _ v] backs_upd [OF _ v] by blast
  then show ?thesis using q' w by (simp add: send_window_remove_def)
qed

lemma send_window_remove_keeps:
  assumes "send_window_remove q v h = Some (q', h')" "\<And>f w. g (sendwin_msg_update f w) = g w" "\<And>f w. g (in_sendwin_update f w) = g w"
  shows "keeps g h h'"
  using assms(1) unfolding send_window_remove_def
  by (auto split: bind_splits dest!: write_keeps [where g = g] sendwin.unlink_keeps [where g = g] simp: assms(2,3) intro: keeps_trans)

lemma unack_queue_add_ok:
  assumes "unack_list h q xs" "h v = Some b" "v \<notin> set xs"
  shows "\<exists>q' h'. unack_queue_add q v h = Some (q', h') \<and> unack_list h' q' (xs @ [v]) \<and> q_count q' = q_count q + 1"
proof -
  let ?w = "(set_lnext unack_msg_update NULL \<circ> set_lprev unack_msg_update (q_tail q)) b"
  let ?h = "h(v \<mapsto> ?w)"
  have c: "chain (\<lambda>v. lnext (unack_msg v)) ?h q xs" "backs (\<lambda>v. lprev (unack_msg v)) ?h xs"
    using assms chain_upd backs_upd by blast+
  obtain q' h' where q': "q_append (set_lnext unack_msg_update) q v ?h = Some (q', h')"
      "chain (\<lambda>v. lnext (unack_msg v)) h' q' (xs @ [v])" "q_count q' = q_count q + 1"
    using unack.append_chain [OF c(1), of v ?w] assms(3) by auto
  have "backs (\<lambda>v. lprev (unack_msg v)) h' (xs @ [v])"
    using unack.append_backs [OF c(2) _ assms(3) _ q'(1), of ?w] chainD(3) [OF c(1)] by simp
  then show ?thesis using q' assms(2) by (simp add: unack_queue_add_def)
qed

lemma unack_queue_add_keeps:
  assumes "unack_queue_add q v h = Some (q', h')" "\<And>f w. g (unack_msg_update f w) = g w"
  shows "keeps g h h'"
  using assms(1) unfolding unack_queue_add_def
  by (auto split: bind_splits dest!: write_keeps [where g = g] unack.append_keeps [where g = g] simp: assms(2) intro: keeps_trans)

lemma unack_queue_remove_ok:
  assumes "unack_list h q (ys @ v # zs)"
  shows "\<exists>q' h'. unack_queue_remove q v h = Some (q', h') \<and> unack_list h' q' (ys @ zs) \<and> q_count q' = q_count q - 1"
  using unack.unlink_chain assms unfolding unack_queue_remove_def by blast

lemma unack_queue_remove_keeps:
  assumes "unack_queue_remove q v h = Some (q', h')" "\<And>f w. g (unack_msg_update f w) = g w"
  shows "keeps g h h'"
  using unack.unlink_keeps [OF assms(1) [unfolded unack_queue_remove_def]] assms(2) .

lemma ext_window_add_ok:
  assumes "extwin_list h q xs" "h v = Some b" "v \<notin> set xs"
  shows "\<exists>q' h'. ext_window_add q v h = Some (q', h') \<and> extwin_list h' q' (xs @ [v]) \<and> q_count q' = q_count q + 1"
  using extwin.append_chain [OF chain_upd [OF assms(1,3)] _ assms(3), of "(set_lnext extwin_msg_update NULL \<circ> set_lprev extwin_msg_update NULL) b"] assms(2)
  by (auto simp: ext_window_add_def)

lemma ext_window_add_keeps:
  assumes "ext_window_add q v h = Some (q', h')" "\<And>f w. g (extwin_msg_update f w) = g w"
  shows "keeps g h h'"
  using assms(1) unfolding ext_window_add_def
  by (auto split: bind_splits dest!: write_keeps [where g = g] extwin.append_keeps [where g = g] simp: assms(2) intro: keeps_trans)

lemma apprecv_window_add_ok:
  assumes "apprecv_list h q xs" "h v = Some b" "v \<notin> set xs"
  shows "\<exists>q' h'. apprecv_window_add q v h = Some (q', h') \<and> apprecv_list h' q' (xs @ [v]) \<and> q_count q' = q_count q + 1"
  using apprecv.append_chain [OF chain_upd [OF assms(1,3)] _ assms(3), of "(set_lnext apprecvwin_msg_update NULL \<circ> set_lprev apprecvwin_msg_update NULL) b"] assms(2)
  by (auto simp: apprecv_window_add_def)

lemma apprecv_window_add_keeps:
  assumes "apprecv_window_add q v h = Some (q', h')" "\<And>f w. g (apprecvwin_msg_update f w) = g w"
  shows "keeps g h h'"
  using assms(1) unfolding apprecv_window_add_def
  by (auto split: bind_splits dest!: write_keeps [where g = g] apprecv.append_keeps [where g = g] simp: assms(2) intro: keeps_trans)

lemma ext_sendq_add_ok:
  assumes "sendq_list h q xs" "h v = Some b" "v \<notin> set xs"
  shows "\<exists>q' h'. ext_sendq_add q v h = Some (q', h') \<and> sendq_list h' q' (xs @ [v]) \<and> q_count q' = q_count q + 1"
  using sendq.append_chain [OF chain_upd [OF assms(1,3)] _ assms(3), of "desc_next_update (\<lambda>_. NULL) b"] assms(2)
  by (auto simp: ext_sendq_add_def)

lemma ext_sendq_add_keeps:
  assumes "ext_sendq_add q v h = Some (q', h')" "\<And>f w. g (desc_next_update f w) = g w"
  shows "keeps g h h'"
  using assms(1) unfolding ext_sendq_add_def
  by (auto split: bind_splits dest!: write_keeps [where g = g] sendq.append_keeps [where g = g] simp: assms(2) intro: keeps_trans)

text \<open>Taking the first buffer.\<close>

lemma chain_tl:
  assumes c: "chain nx h q (v # xs)" and q': "q_head q' = first xs" "q_tail q' = endof xs"
  shows "chain nx h q' xs"
proof (rule chainI)
  have d: "distinct (v # xs)" using chainD(1) [OF c] .
  show "distinct xs" using d by simp
  show "\<exists>w. h a = Some w \<and> nx w = nxt xs a" if "a \<in> set xs" for a
    using chain_get [OF c, of a] that d by auto
qed (use q' in auto)

lemma apprecv_window_retrieve_ok:
  assumes c: "apprecv_list h q (v # xs)" and n: "xs = [] \<Longrightarrow> q_count q = 1"
  shows "\<exists>q' h'. apprecv_window_retrieve_and_remove q h = Some (Some v, q', h') \<and> apprecv_list h' q' xs \<and> q_count q' = q_count q - 1"
proof -
  have v: "v \<notin> set xs" using chainD(1) [OF c] by simp
  have hd: "q_head q = Some v" "q_tail q = endof (v # xs)" using chainD [OF c] by simp_all
  obtain b where b: "h v = Some b" "lnext (apprecvwin_msg b) = first xs" using chain_get [OF c, of v] by auto
  let ?q = "q\<lparr>q_head := first xs, q_count := q_count q - 1\<rparr>"
  let ?b = "(set_lprev apprecvwin_msg_update NULL \<circ> set_lnext apprecvwin_msg_update NULL) b"
  show ?thesis
  proof (cases xs)
    case Nil
    then show ?thesis using b n hd by (auto simp: apprecv_window_retrieve_and_remove_def chain_empty)
  next
    case (Cons a as)
    obtain w where w: "h a = Some w" using chain_get [OF c, of a] Cons by auto
    let ?h = "h(a \<mapsto> set_lprev apprecvwin_msg_update NULL w)"
    have "keeps (\<lambda>v. lnext (apprecvwin_msg v)) h ?h" using w by (intro keeps_upd) auto
    then have "apprecv_list ?h q (v # xs)" using chain_cong [OF keeps_same_on c] by blast
    then have "apprecv_list ?h ?q xs" by (rule chain_tl) (use hd Cons in auto)
    then have "apprecv_list (?h(v \<mapsto> ?b)) ?q xs" by (rule chain_upd [OF _ v])
    then show ?thesis using b w hd Cons v by (auto simp: apprecv_window_retrieve_and_remove_def)
  qed
qed

lemma apprecv_window_retrieve_keeps:
  assumes "apprecv_window_retrieve_and_remove q h = Some (p, q', h')" "\<And>f w. g (apprecvwin_msg_update f w) = g w"
  shows "keeps g h h'"
  using assms(1) unfolding apprecv_window_retrieve_and_remove_def Let_def
  by (auto split: bind_splits option.splits if_splits dest!: write_keeps [where g = g] simp: assms(2) keeps_upd intro: keeps_trans)

lemma recv_window_remove_ok:
  assumes c: "recvwin_list h q (v # xs)"
  shows "\<exists>q' h'. recv_window_remove q h = Some (q', h') \<and> recvwin_list h' q' xs"
proof -
  have d: "distinct ([] @ v # xs)" using chainD(1) [OF conjunct1 [OF c]] by simp
  have hd: "q_head q = Some v" "q_tail q = endof (v # xs)" using chainD [OF conjunct1 [OF c]] by simp_all
  obtain b where b: "h v = Some b" "lnext (recvwin_msg b) = first xs" using chain_get [OF conjunct1 [OF c], of v] by auto
  let ?q = "q\<lparr>q_head := first xs, q_count := q_count q - 1\<rparr>"
  show ?thesis
  proof (cases xs)
    case Nil
    then show ?thesis using b hd by (auto simp: recv_window_remove_def read_vbuf_def chain_empty backs_def Let_def)
  next
    case (Cons a as)
    obtain w where w: "h a = Some w" using chain_get [OF conjunct1 [OF c], of a] Cons by auto
    let ?h = "h(a \<mapsto> set_lprev recvwin_msg_update NULL w)"
    have "keeps (\<lambda>v. lnext (recvwin_msg v)) h ?h" using w by (intro keeps_upd) auto
    then have "chain (\<lambda>v. lnext (recvwin_msg v)) ?h q (v # xs)" using chain_cong [OF keeps_same_on conjunct1 [OF c]] by blast
    then have ch: "chain (\<lambda>v. lnext (recvwin_msg v)) ?h ?q xs" by (rule chain_tl) (use hd Cons in auto)
    have "backs (\<lambda>v. lprev (recvwin_msg v)) ?h xs"
      unfolding backs_def
    proof
      fix e assume e: "e \<in> set xs"
      then obtain u where u: "h e = Some u" "lprev (recvwin_msg u) = prv (v # xs) e"
        using c by (auto simp: backs_def)
      have "prv xs a = None" using prv_None [of xs a] d Cons by simp
      moreover have "prv (v # xs) e = prv xs e" if "e \<noteq> a" using prv_middle(1) [OF d e] that Cons by simp
      ultimately show "\<exists>u. ?h e = Some u \<and> lprev (recvwin_msg u) = prv xs e"
        using u by (cases "e = a") simp_all
    qed
    then show ?thesis using b w hd Cons ch by (auto simp: recv_window_remove_def read_vbuf_def Let_def)
  qed
qed

lemma recv_window_remove_keeps:
  assumes "recv_window_remove q h = Some (q', h')" "\<And>f w. g (recvwin_msg_update f w) = g w"
  shows "keeps g h h'"
  using assms(1) unfolding recv_window_remove_def Let_def
  by (auto split: bind_splits if_splits dest!: write_keeps [where g = g] simp: assms(2) intro: keeps_trans)

end
