(* ===== verification/Ib_Recvwin.thy ===== *)
theory Ib_Recvwin
  imports Ib_Queue
begin

text \<open>
  The receive window is sorted by the distance of the sequence numbers from the number that is
  expected next. The comparisons of \<open>recv_window_add\<close>, which treat the numbers that have wrapped
  around separately, are shown to find the place of a packet in this order.
\<close>

section \<open>Sequence numbers that wrap around\<close>

lemma dist_less:
  fixes x y s :: u16
  assumes "x \<noteq> s" "y \<noteq> s"
  shows "x - s < y - s \<longleftrightarrow> (if s < x then s < y \<longrightarrow> x < y else \<not> s < y \<and> x < y)"
proof -
  have b: "0 \<le> uint z" "uint z < 2 ^ 16" for z :: u16 using uint_lt2p [of z] by simp_all
  have ne: "uint x \<noteq> uint s" "uint y \<noteq> uint s" using assms word_uint_eqI by blast+
  have "uint (x - s) = (if uint s \<le> uint x then uint x - uint s else uint x - uint s + 2 ^ 16)"
      "uint (y - s) = (if uint s \<le> uint y then uint y - uint s else uint y - uint s + 2 ^ 16)"
    by (simp_all add: uint_sub_if')
  moreover have "(if S \<le> X then X - S else X - S + 2 ^ 16) < (if S \<le> Y then Y - S else Y - S + 2 ^ 16)
      \<longleftrightarrow> (if S < X then S < Y \<longrightarrow> X < Y else \<not> S < Y \<and> X < Y)"
    if "0 \<le> X" "X < 2 ^ 16" "0 \<le> Y" "Y < 2 ^ 16" "0 \<le> S" "S < 2 ^ 16" "X \<noteq> S" "Y \<noteq> S" for X Y S :: int
    using that by auto
  ultimately show ?thesis using ne b [of x] b [of y] b [of s] unfolding word_less_def by presburger
qed

abbreviation seq_of :: "vheap \<Rightarrow> nat \<Rightarrow> u16" where
  "seq_of h a \<equiv> seqnum (the (h a))"

text \<open>The window: ordered by the distance from \<open>start\<close>, which is not in it itself.\<close>

definition window_sorted :: "vheap \<Rightarrow> u16 \<Rightarrow> nat list \<Rightarrow> bool" where
  "window_sorted h start xs \<longleftrightarrow> sorted_wrt (\<lambda>a b. seq_of h a - start < seq_of h b - start) xs \<and> (\<forall>a\<in>set xs. seq_of h a \<noteq> start)"

lemma window_sorted_simps [simp]:
  "window_sorted h start []"
  "window_sorted h start (a # xs) \<longleftrightarrow> seq_of h a \<noteq> start \<and> (\<forall>b\<in>set xs. seq_of h a - start < seq_of h b - start) \<and> window_sorted h start xs"
  by (auto simp: window_sorted_def)

section \<open>Finding the place\<close>

lemma recv_seek_list:
  assumes "chain (\<lambda>v. lnext (recvwin_msg v)) h q (ys @ zs)"
  shows "recv_seek c (first zs) h = Some (first (dropWhile (\<lambda>a. c (seq_of h a)) zs))"
  using assms
proof (induction zs arbitrary: ys)
  case Nil
  then show ?case by (subst recv_seek.simps) simp
next
  case (Cons a zs)
  have d: "distinct (ys @ a # zs)" using chainD(1) [OF Cons.prems] .
  obtain b where b: "h a = Some b" "lnext (recvwin_msg b) = first zs"
    using chain_get [OF Cons.prems, of a] nxt_middle(3) [OF d] by auto
  have "recv_seek c (first zs) h = Some (first (dropWhile (\<lambda>a. c (seq_of h a)) zs))"
    using Cons.IH [of "ys @ [a]"] Cons.prems by simp
  then show ?case using b by (subst recv_seek.simps) simp
qed

lemma recv_place_list:
  assumes c: "chain (\<lambda>v. lnext (recvwin_msg v)) h q xs" and xs: "xs = a # as" and srt: "window_sorted h start xs" and s: "s \<noteq> start"
  shows "recv_place s start a h = Some (first (dropWhile (\<lambda>e. seq_of h e - start < s - start) xs))"
proof -
  obtain b where b: "h a = Some b" using chain_get [OF c, of a] xs by auto
  have ne: "seq_of h e \<noteq> start" if "e \<in> set xs" for e using srt that by (auto simp: window_sorted_def)
  have ge: "seq_of h a - start \<le> seq_of h e - start" if "e \<in> set xs" for e using srt that xs by (auto simp: less_imp_le)
  have seek: "recv_seek d (Some a) h = Some (first (dropWhile (\<lambda>e. seq_of h e - start < s - start) xs))"
    if "\<And>e. e \<in> set xs \<Longrightarrow> d (seq_of h e) \<longleftrightarrow> seq_of h e - start < s - start" for d
  proof -
    have "dropWhile (\<lambda>e. d (seq_of h e)) xs = dropWhile (\<lambda>e. seq_of h e - start < s - start) xs"
      by (rule dropWhile_cong) (use that in auto)
    then show ?thesis using recv_seek_list [of h q "[]" xs d] c xs by simp
  qed
  have a: "seq_of h a = seqnum b" using b by simp
  note D = dist_less [OF ne s]
  show ?thesis
  proof (cases "start < s")
    case gt: True
    show ?thesis
    proof (cases "seqnum b < start")
      case True
      then have "\<not> seq_of h a - start < s - start" using D [of a] gt a xs by auto
      then show ?thesis using True gt b xs by (simp add: recv_place_def)
    next
      case False
      have "recv_seek (\<lambda>x. x < s \<and> x > start) (Some a) h = Some (first (dropWhile (\<lambda>e. seq_of h e - start < s - start) xs))"
        by (rule seek) (use D gt in auto)
      then show ?thesis using False gt b by (simp add: recv_place_def)
    qed
  next
    case le: False
    show ?thesis
    proof (cases "start < seqnum b")
      case True
      have "recv_seek (\<lambda>x. x \<ge> start \<or> x < s) (Some a) h = Some (first (dropWhile (\<lambda>e. seq_of h e - start < s - start) xs))"
        by (rule seek) (use D le ne in \<open>auto simp: less_le not_less\<close>)
      then show ?thesis using True le b by (simp add: recv_place_def)
    next
      case False
      have wrapped: "\<not> start < seq_of h e" if "e \<in> set xs" for e
        using ge [OF that] dist_less [OF ne [OF that] ne [of a]] False a xs by auto
      have "recv_seek (\<lambda>x. x < s) (Some a) h = Some (first (dropWhile (\<lambda>e. seq_of h e - start < s - start) xs))"
        by (rule seek) (use D le wrapped in auto)
      then show ?thesis using False le b by (simp add: recv_place_def)
    qed
  qed
qed

section \<open>Adding a packet\<close>

text \<open>The packets before the place of a sequence number, and those from there on.\<close>

definition earlier :: "vheap \<Rightarrow> u16 \<Rightarrow> u16 \<Rightarrow> nat list \<Rightarrow> nat list" where
  "earlier h start s xs = takeWhile (\<lambda>e. seq_of h e - start < s - start) xs"

definition later :: "vheap \<Rightarrow> u16 \<Rightarrow> u16 \<Rightarrow> nat list \<Rightarrow> nat list" where
  "later h start s xs = dropWhile (\<lambda>e. seq_of h e - start < s - start) xs"

lemma earlier_later: "earlier h start s xs @ later h start s xs = xs"
  by (simp add: earlier_def later_def)

lemma window_sorted_split:
  assumes "window_sorted h start xs"
  shows "e \<in> set (earlier h start s xs) \<Longrightarrow> seq_of h e - start < s - start"
    and "e \<in> set (later h start s xs) \<Longrightarrow> s - start \<le> seq_of h e - start"
proof -
  show "e \<in> set (earlier h start s xs) \<Longrightarrow> seq_of h e - start < s - start"
    unfolding earlier_def by (drule set_takeWhileD) simp
  show "e \<in> set (later h start s xs) \<Longrightarrow> s - start \<le> seq_of h e - start"
    using assms unfolding later_def
  proof (induction xs)
    case (Cons a xs)
    then show ?case by (cases "seq_of h a - start < s - start") (auto simp: not_less intro: order_trans less_imp_le)
  qed simp
qed

lemma window_found:
  assumes srt: "window_sorted h start xs"
  shows "(\<exists>e\<in>set xs. seq_of h e = s) \<longleftrightarrow> (\<exists>c zs. later h start s xs = c # zs \<and> seq_of h c = s)"
proof
  assume "\<exists>e\<in>set xs. seq_of h e = s"
  then obtain e where e: "e \<in> set xs" "seq_of h e = s" by blast
  have "e \<notin> set (earlier h start s xs)" using window_sorted_split(1) [OF srt, of e s] e(2) less_irrefl by metis
  then have l: "e \<in> set (later h start s xs)" using e(1) arg_cong [OF earlier_later, of set h start s xs] by auto
  then obtain c zs where c: "later h start s xs = c # zs" by (cases "later h start s xs") auto
  have "window_sorted h start (earlier h start s xs @ c # zs)" using srt earlier_later [of h start s xs] c by simp
  then have "\<forall>b\<in>set zs. seq_of h c - start < seq_of h b - start" by (auto simp: window_sorted_def sorted_wrt_append)
  then have "seq_of h c = s" using l c e(2) window_sorted_split(2) [OF srt, of c s] by fastforce
  then show "\<exists>c zs. later h start s xs = c # zs \<and> seq_of h c = s" using c by blast
next
  assume "\<exists>c zs. later h start s xs = c # zs \<and> seq_of h c = s"
  then show "\<exists>e\<in>set xs. seq_of h e = s" unfolding later_def by (metis list.set_intros(1) set_dropWhileD)
qed

lemma window_sorted_insert:
  assumes srt: "window_sorted h start xs" and v: "seq_of h v = s" "s \<noteq> start" "\<not> (\<exists>e\<in>set xs. seq_of h e = s)"
  shows "window_sorted h start (earlier h start s xs @ v # later h start s xs)"
proof -
  have "s - start < seq_of h e - start" if e: "e \<in> set (later h start s xs)" for e
  proof -
    have "e \<in> set xs" using e unfolding later_def by (rule set_dropWhileD)
    then have "seq_of h e - start \<noteq> s - start" using v(3) by auto
    then show ?thesis using window_sorted_split(2) [OF srt e] by (metis order_le_less)
  qed
  moreover have "seq_of h e - start < s - start" if "e \<in> set (earlier h start s xs)" for e by (rule window_sorted_split(1) [OF srt that])
  moreover have "window_sorted h start (earlier h start s xs @ later h start s xs)" using srt earlier_later [of h start s xs] by simp
  ultimately show ?thesis using v by (auto simp: window_sorted_def sorted_wrt_append)
qed

text \<open>The links after the insertion.\<close>

lemma recv_insert_keeps:
  assumes "\<And>f w. g (recvwin_msg_update f w) = g w"
  shows "recv_insert_before q v cur h = Some (q', h') \<Longrightarrow> keeps g h h'" "recv_insert_last q v h = Some (q', h') \<Longrightarrow> keeps g h h'"
  unfolding recv_insert_before_def recv_insert_last_def Let_def
  by (auto split: bind_splits if_splits dest!: write_keeps [where g = g] simp: assms intro: keeps_trans [OF keeps_trans] keeps_trans)

lemma recv_window_add_keeps:
  assumes "recv_window_add q v start h = Some (rc, q', h')" "\<And>f w. g (recvwin_msg_update f w) = g w"
  shows "keeps g h h'"
proof -
  obtain h1 b where h1: "write_vbuf (Some v) (set_lprev recvwin_msg_update NULL \<circ> set_lnext recvwin_msg_update NULL) h = Some h1" "h1 v = Some b"
    using assms(1) by (auto simp: recv_window_add_def split: bind_splits)
  have k: "keeps g h h1" by (rule write_keeps [OF h1(1)]) (simp add: assms(2))
  have "keeps g h1 h'"
    using assms(1) h1 recv_insert_keeps [where g = g, OF assms(2)]
    by (auto simp: recv_window_add_def split: bind_splits option.splits if_splits)
  then show ?thesis using k keeps_trans by blast
qed

lemma recv_insert_before_ok:
  assumes c: "recvwin_list h q (ys @ c # zs)" and v: "h v = Some b" "v \<notin> set (ys @ c # zs)"
  shows "\<exists>q' h'. recv_insert_before q v c h = Some (q', h') \<and> recvwin_list h' q' (ys @ v # c # zs) \<and> q_count q' = q_count q"
proof -
  have d: "distinct (ys @ c # zs)" using chainD(1) [OF conjunct1 [OF c]] .
  have hd: "q_head q = first (ys @ c # zs)" "q_tail q = endof (ys @ c # zs)" using chainD [OF conjunct1 [OF c]] by auto
  obtain cb where cb: "h c = Some cb" using chain_get [OF conjunct1 [OF c], of c] by auto
  have pc: "lprev (recvwin_msg cb) = endof ys" using backs_get [OF conjunct2 [OF c] _ cb] prv_middle(3) [OF d] by simp
  have vc: "v \<noteq> c" using v by auto
  let ?b = "(set_lnext recvwin_msg_update (Some c) \<circ> set_lprev recvwin_msg_update (endof ys)) b"
  let ?q = "if ys = [] then q\<lparr>q_head := Some v\<rparr> else q"
  let ?h1 = "h(v \<mapsto> ?b)"
  have links: "recvwin_list h' ?q (ys @ v # c # zs)"
    if "h' v = Some ?b" "\<And>a. a \<noteq> v \<Longrightarrow> h' a = (if endof ys = Some a then map_option (set_lnext recvwin_msg_update (Some v)) (h a)
        else if first (c # zs) = Some a then map_option (set_lprev recvwin_msg_update (Some v)) (h a) else h a)" for h'
    using recvwin.insert_links [OF conjunct1 [OF c] conjunct2 [OF c] v(2) that(1) _ _ that(2), of ?q] hd by auto
  show ?thesis
  proof (cases "endof ys")
    case None
    let ?h = "?h1(c \<mapsto> set_lprev recvwin_msg_update (Some v) cb)"
    have "recv_insert_before q v c h = Some (?q, ?h)"
      using None v cb pc hd vc by (simp add: recv_insert_before_def Let_def)
    moreover have "recvwin_list ?h ?q (ys @ v # c # zs)" by (rule links) (use None cb vc in auto)
    ultimately show ?thesis by auto
  next
    case (Some p)
    have pin: "p \<in> set ys" using endof_in [OF Some] .
    then obtain w where w: "h p = Some w" using chain_get [OF conjunct1 [OF c], of p] by auto
    have ne: "p \<noteq> v" "p \<noteq> c" "ys \<noteq> []" "first ys \<noteq> Some c" using pin v d first_mem [of ys c] by auto
    let ?h = "?h1(p \<mapsto> set_lnext recvwin_msg_update (Some v) w, c \<mapsto> set_lprev recvwin_msg_update (Some v) cb)"
    have "recv_insert_before q v c h = Some (?q, ?h)"
      using Some v cb pc hd vc w ne by (simp add: recv_insert_before_def Let_def)
    moreover have "recvwin_list ?h ?q (ys @ v # c # zs)" by (rule links) (use Some cb vc w ne in auto)
    ultimately show ?thesis by auto
  qed
qed

lemma recv_insert_last_ok:
  assumes c: "recvwin_list h q ys" "ys \<noteq> []" and v: "h v = Some b" "v \<notin> set ys"
  shows "\<exists>q' h'. recv_insert_last q v h = Some (q', h') \<and> recvwin_list h' q' (ys @ [v]) \<and> q_count q' = q_count q"
proof -
  obtain p where p: "endof ys = Some p" using c(2) by (cases "endof ys") auto
  have hd: "q_head q = first ys" "q_tail q = Some p" using chainD [OF conjunct1 [OF c(1)]] p by auto
  obtain w where w: "h p = Some w" "p \<noteq> v" using chain_get [OF conjunct1 [OF c(1)], of p] endof_in [OF p] v by auto
  let ?b = "(set_lprev recvwin_msg_update (Some p) \<circ> set_lnext recvwin_msg_update NULL) b"
  let ?h = "h(v \<mapsto> ?b, p \<mapsto> set_lnext recvwin_msg_update (Some v) w)" and ?q = "q\<lparr>q_tail := Some v\<rparr>"
  have "recv_insert_last q v h = Some (?q, ?h)" using hd w v by (simp add: recv_insert_last_def)
  moreover have pt: "?h a = (if endof ys = Some a then map_option (set_lnext recvwin_msg_update (Some v)) (h a)
      else if first [] = Some a then map_option (set_lprev recvwin_msg_update (Some v)) (h a) else h a)" if "a \<noteq> v" for a
    using w p that by auto
  have c': "chain (\<lambda>v. lnext (recvwin_msg v)) h q (ys @ [])" "backs (\<lambda>v. lprev (recvwin_msg v)) h (ys @ [])" using c(1) by auto
  have "recvwin_list ?h ?q (ys @ v # [])"
    by (intro conjI; rule recvwin.insert_links [where h' = ?h and w = ?b and q' = ?q, OF c' _ _ _ _ pt]; use v w p hd c(2) in simp)
  ultimately show ?thesis by auto
qed

text \<open>
  A packet whose number is in the window already is refused. Any other packet is put in its place.
\<close>

lemma recv_window_add_ok:
  assumes c: "recvwin_list h q xs" and srt: "window_sorted h start xs" and v: "h v = Some b" "v \<notin> set xs" "seqnum b \<noteq> start"
  shows "if \<exists>e\<in>set xs. seq_of h e = seqnum b
    then \<exists>h'. recv_window_add q v start h = Some (MSG_IN_RECVWIN, q, h') \<and> recvwin_list h' q xs
    else \<exists>q' h'. recv_window_add q v start h = Some (MSG_QUEUED_RECVWIN, q', h')
      \<and> recvwin_list h' q' (earlier h start (seqnum b) xs @ v # later h start (seqnum b) xs)"
proof -
  let ?b = "(set_lprev recvwin_msg_update NULL \<circ> set_lnext recvwin_msg_update NULL) b"
  let ?h = "h(v \<mapsto> ?b)" and ?s = "seqnum b"
  have cl: "recvwin_list ?h q xs" using c chain_upd [OF _ v(2)] backs_upd [OF _ v(2)] by blast
  have sq: "seq_of ?h e = seq_of h e" for e using v(1) by auto
  have srt': "window_sorted ?h start xs" using srt unfolding window_sorted_def sq .
  have el: "earlier ?h start ?s xs = earlier h start ?s xs" "later ?h start ?s xs = later h start ?s xs"
    unfolding earlier_def later_def sq by simp_all
  show ?thesis
  proof (cases xs)
    case Nil
    have "recv_window_add q v start h = Some (MSG_QUEUED_RECVWIN, q\<lparr>q_head := Some v, q_tail := Some v\<rparr>, ?h)"
      using cl Nil v(1) by (simp add: recv_window_add_def chain_empty)
    moreover have "recvwin_list ?h (q\<lparr>q_head := Some v, q_tail := Some v\<rparr>) [v]" by (simp add: chain_def backs_def)
    ultimately show ?thesis using Nil by (simp add: earlier_def later_def)
  next
    case (Cons a as)
    have hd: "q_head q = Some a" using chainD(2) [OF conjunct1 [OF cl]] Cons by simp
    have pl: "recv_place ?s start a ?h = Some (first (later h start ?s xs))"
      using recv_place_list [OF conjunct1 [OF cl] Cons srt' v(3)] el(2) by (simp add: later_def)
    have xs: "earlier h start ?s xs @ later h start ?s xs = xs" by (rule earlier_later)
    show ?thesis
    proof (cases "later h start ?s xs")
      case Nil
      then have e: "earlier h start ?s xs = xs" using xs by simp
      obtain q' h' where q': "recv_insert_last q v ?h = Some (q', h')" "recvwin_list h' q' (xs @ [v])"
        using recv_insert_last_ok [OF cl, of v ?b] v Cons by auto
      have "recv_window_add q v start h = Some (MSG_QUEUED_RECVWIN, q'\<lparr>q_count := q_count q' + 1\<rparr>, h')"
        using hd pl Nil q'(1) v(1) by (simp add: recv_window_add_def)
      moreover have "recvwin_list h' (q'\<lparr>q_count := q_count q' + 1\<rparr>) (xs @ [v])" using q'(2) by (simp add: chain_def)
      ultimately show ?thesis using window_found [OF srt, of ?s] Nil e by simp
    next
      case (Cons d zs)
      have din: "d \<in> set xs" using xs Cons by (metis in_set_conv_decomp)
      then have dv: "d \<noteq> v" using v(2) by auto
      obtain db where db: "?h d = Some db" using chain_get [OF conjunct1 [OF cl] din] by blast
      have sd: "seqnum db = seq_of h d" using db dv by simp
      show ?thesis
      proof (cases "seq_of h d = ?s")
        case True
        then have "recv_window_add q v start h = Some (MSG_IN_RECVWIN, q, ?h)"
          using hd pl Cons db sd v(1) by (simp add: recv_window_add_def)
        then show ?thesis using window_found [OF srt, of ?s] True Cons cl by auto
      next
        case False
        have nv: "v \<notin> set (earlier h start ?s xs @ d # zs)" using v(2) xs Cons by metis
        have "recvwin_list ?h q (earlier h start ?s xs @ d # zs)" using cl xs Cons by simp
        then obtain q' h' where q': "recv_insert_before q v d ?h = Some (q', h')" "recvwin_list h' q' (earlier h start ?s xs @ v # d # zs)"
          using recv_insert_before_ok [OF _ _ nv, of ?h q ?b] by auto
        have "recv_window_add q v start h = Some (MSG_QUEUED_RECVWIN, q'\<lparr>q_count := q_count q' + 1\<rparr>, h')"
          using hd pl Cons db sd q'(1) v(1) False by (simp add: recv_window_add_def)
        moreover have "recvwin_list h' (q'\<lparr>q_count := q_count q' + 1\<rparr>) (earlier h start ?s xs @ v # d # zs)" using q'(2) by (simp add: chain_def)
        ultimately show ?thesis using window_found [OF srt, of ?s] False Cons by auto
      qed
    qed
  qed
qed

end
