(* ===== verification/Ib.thy ===== *)
theory Ib
  imports Ib_Recvwin
begin

text \<open>
  The reliable channels of the InfiniBand transport (\<open>src/src/spawn_net_ib.c\<close>): packets are sent over an
  unreliable service, numbered, acknowledged and sent again after a while. The verbs library is
  seen through what it is called for: the packets that are posted for sending are recorded in
  the order of the calls, and posting succeeds; \<open>ah_ok\<close> tells for which addresses a handle can be created;
  reading the clock gives the next element of a given sequence. \<open>None\<close> stands for undefined behaviour,
  for a failed assertion and for \<open>exit(-1)\<close>. The lock that all three
  threads of the program take makes the functions below atomic.
\<close>

section \<open>State\<close>

datatype vc_state = VC_STATE_INIT | VC_STATE_CONNECTING | VC_STATE_CONNECTED | VC_STATE_CLOSING

record vc =
  state :: vc_state
  local_closed :: bool
  remote_closed :: bool
  sends_outstanding :: int
  has_ah :: bool
  qpn :: "32 word"
  lid :: u16
  readid :: u64
  writeid :: u64
  seqnum_next_tosend :: u16
  seqnum_next_torecv :: u16
  seqnum_next_toack :: u16
  ack_need_tosend :: bool
  ack_pending :: u16
  send_window :: message_queue
  ext_window :: message_queue
  recv_window :: message_queue
  app_recv_window :: message_queue
  nread :: nat
  cntl_acks :: u64
  resend_count :: u64
  ext_win_send_count :: u64

text \<open>Every field is set; the argument is the memory as it was.\<close>

definition vc_init :: "vc \<Rightarrow> vc" where
  "vc_init vc = vc\<lparr>state := VC_STATE_INIT, local_closed := False, remote_closed := False, sends_outstanding := 0,
     has_ah := False, qpn := - 1, lid := - 1, readid := - 1, writeid := - 1,
     seqnum_next_tosend := 0, seqnum_next_torecv := 0, seqnum_next_toack := - 1, ack_need_tosend := False, ack_pending := 0,
     send_window := MESSAGE_QUEUE_INIT, ext_window := MESSAGE_QUEUE_INIT, recv_window := MESSAGE_QUEUE_INIT,
     app_recv_window := MESSAGE_QUEUE_INIT, cntl_acks := 0, resend_count := 0, ext_win_send_count := 0\<rparr>"

text \<open>Memory as it may be before \<open>vc_init\<close>, which sets every field but one.\<close>

definition blank_vc :: vc where
  "blank_vc = \<lparr>state = VC_STATE_INIT, local_closed = False, remote_closed = False, sends_outstanding = 0, has_ah = False, qpn = 0, lid = 0,
     readid = 0, writeid = 0, seqnum_next_tosend = 0, seqnum_next_torecv = 0, seqnum_next_toack = 0, ack_need_tosend = False, ack_pending = 0,
     send_window = MESSAGE_QUEUE_INIT, ext_window = MESSAGE_QUEUE_INIT, recv_window = MESSAGE_QUEUE_INIT, app_recv_window = MESSAGE_QUEUE_INIT,
     nread = 0, cntl_acks = 0, resend_count = 0, ext_win_send_count = 0\<rparr>"

record ud_ctx =
  send_wqes_avail :: int
  num_sends_posted :: int
  num_recvs_posted :: int
  credit_preserve :: int
  ext_send_queue :: message_queue
  ext_sendq_count :: u64

text \<open>A packet on the wire: where it goes, its header and its payload.\<close>

record wire_packet =
  to_lid :: u16
  to_qpn :: "32 word"
  wire_header :: pkt_header
  wire_payload :: "byte list"

text \<open>A request for a connection that waits to be accepted, and a connection that was accepted.\<close>

record connect_list =
  req_vbuf :: nat
  req_epid :: u64
  req_lid :: "32 word"
  req_qpn :: "32 word"
  req_id :: u64
  req_name :: string

record connected_list =
  conn_lid :: "32 word"
  conn_qpn :: "32 word"
  conn_id :: "32 word"
  conn_vc :: nat

text \<open>
  The state of a process. A channel is known by its identifier: \<open>vcs\<close> is the array of channels together with
  what it points to, \<open>vc_info_id\<close> the number of channels so far, \<open>vc_infos\<close> the capacity of the
  array, and \<open>vc_array\<close> whether there is one. \<open>sending\<close> and \<open>receiving\<close> are the buffers that
  the card has for sending and receiving, \<open>posted\<close> is what was handed to it.
\<close>

record ib =
  vbufs :: vheap
  vcs :: "nat \<rightharpoonup> vc"
  vc_info_id :: nat
  vc_infos :: nat
  vc_array :: bool
  ud :: ud_ctx
  unack_queue :: message_queue
  free_head :: ptr
  brk :: nat
  connect_head :: "connect_list list"
  connected_head :: "connected_list list"
  count_conn :: int
  shutdown :: bool
  local_lid :: u16
  local_qpn :: "32 word"
  ah_ok :: "u16 \<Rightarrow> bool"
  recv_flag :: bool
  sending :: "nat list"
  receiving :: "nat list"
  posted :: "wire_packet list"
  clock :: "nat \<Rightarrow> int"
  ticks :: nat
  last_check :: int

definition get_vc :: "ptr \<Rightarrow> ib \<Rightarrow> vc option" where
  "get_vc p s = (case p of None \<Rightarrow> None | Some a \<Rightarrow> vcs s a)"

definition put_vc :: "nat \<Rightarrow> (vc \<Rightarrow> vc) \<Rightarrow> ib \<Rightarrow> ib option" where
  "put_vc a f s = map_option (\<lambda>vc. s\<lparr>vcs := (vcs s)(a \<mapsto> f vc)\<rparr>) (vcs s a)"

definition put_vbuf :: "nat \<Rightarrow> (vbuf \<Rightarrow> vbuf) \<Rightarrow> ib \<Rightarrow> ib option" where
  "put_vbuf v f s = map_option (\<lambda>h. s\<lparr>vbufs := h\<rparr>) (write_vbuf (Some v) f (vbufs s))"

definition spawn_clock_time_us :: "ib \<Rightarrow> int \<times> ib" where
  "spawn_clock_time_us s = (clock s (ticks s), s\<lparr>ticks := Suc (ticks s)\<rparr>)"

section \<open>Constants\<close>

abbreviation UD_VBUF_FREE_PENDING :: "8 word" where "UD_VBUF_FREE_PENDING \<equiv> 1"
abbreviation UD_VBUF_SEND_INPROGRESS :: "8 word" where "UD_VBUF_SEND_INPROGRESS \<equiv> 2"
abbreviation PKT_CONTROL_BIT :: "8 word" where "PKT_CONTROL_BIT \<equiv> 0x80"
abbreviation PKT_UD_CONNECT :: "8 word" where "PKT_UD_CONNECT \<equiv> 0x80"
abbreviation PKT_UD_ACCEPT :: "8 word" where "PKT_UD_ACCEPT \<equiv> 0x81"
abbreviation PKT_UD_DISCONNECT :: "8 word" where "PKT_UD_DISCONNECT \<equiv> 0x82"
abbreviation PKT_UD_ACK :: "8 word" where "PKT_UD_ACK \<equiv> 0x83"
abbreviation PKT_UD_DATA :: "8 word" where "PKT_UD_DATA \<equiv> 0x04"
abbreviation PKT_UD_SHUTDOWN :: "8 word" where "PKT_UD_SHUTDOWN \<equiv> 0x85"

text \<open>The size of the header has the padding of the compiler; the rest of a datagram is payload.\<close>

definition header_size :: nat where "header_size = 24"
definition MRAIL_MAX_UD_SIZE :: nat where "MRAIL_MAX_UD_SIZE = 2048 - 40"
definition MAX_SEQ_NUM :: int where "MAX_SEQ_NUM = 65535"
definition rdma_default_ud_sendwin_size :: u16 where "rdma_default_ud_sendwin_size = 400"
definition rdma_default_ud_recvwin_size :: int where "rdma_default_ud_recvwin_size = 2501"

text \<open>Whether a number is in an interval that may wrap around.\<close>

definition INCL_BETWEEN :: "int \<Rightarrow> int \<Rightarrow> int \<Rightarrow> bool" where
  "INCL_BETWEEN val start fin \<longleftrightarrow> (start > fin \<and> (val \<ge> start \<or> val \<le> fin)) \<or> (fin > start \<and> (val \<ge> start \<and> val \<le> fin))
     \<or> (fin = start \<and> fin = val)"

section \<open>Buffers\<close>

text \<open>
  A region of new buffers, cleared and linked; asking for one while there are free buffers ends the process. Registration of the
  memory with the card, the list of the regions and the counters of buffers are left out; the memory is there. In huge pages
  a region may have more buffers than were asked for.
\<close>

definition zero_vbuf :: vbuf where
  "zero_vbuf = \<lparr>desc_next = NULL, header = \<lparr>ptype = 0, srcid = 0, pseqnum = 0, acknum = 0\<rparr>, payload = [], content_size = 0, flags = 0,
     in_sendwin = False, vbuf_vc = NULL, seqnum = 0, retry_count = 0, timestamp = 0,
     extwin_msg = \<lparr>lnext = NULL, lprev = NULL\<rparr>, sendwin_msg = \<lparr>lnext = NULL, lprev = NULL\<rparr>,
     apprecvwin_msg = \<lparr>lnext = NULL, lprev = NULL\<rparr>, recvwin_msg = \<lparr>lnext = NULL, lprev = NULL\<rparr>, unack_msg = \<lparr>lnext = NULL, lprev = NULL\<rparr>\<rparr>"

definition fresh_region :: "nat \<Rightarrow> ib \<Rightarrow> ib" where
  "fresh_region n s = s\<lparr>free_head := (if n = 0 then NULL else Some (brk s)), brk := brk s + n,
     vbufs := (\<lambda>a. if brk s \<le> a \<and> a < brk s + n
       then Some (zero_vbuf\<lparr>desc_next := (if a + 1 = brk s + n then NULL else Some (a + 1))\<rparr>) else vbufs s a)\<rparr>"

definition vbuf_region_alloc :: "nat \<Rightarrow> ib \<Rightarrow> ib option" where
  "vbuf_region_alloc n s = (if free_head s \<noteq> NULL then None else Some (fresh_region n s))"

definition vbuf_get :: "ib \<Rightarrow> (nat \<times> ib) option" where
  "vbuf_get s = do {
     s \<leftarrow> (if free_head s = NULL then vbuf_region_alloc 512 s else Some s);
     v \<leftarrow> free_head s;
     b \<leftarrow> vbufs s v;
     let s = s\<lparr>free_head := desc_next b\<rparr>;
     s \<leftarrow> put_vbuf v (\<lambda>b. b\<lparr>content_size := 0, retry_count := 0, flags := 0\<rparr>) s;
     Some (v, s) }"

text \<open>The assertion: a buffer at the head of the free list is not released again.\<close>

definition vbuf_release :: "nat \<Rightarrow> ib \<Rightarrow> ib option" where
  "vbuf_release v s = do {
     b \<leftarrow> vbufs s v;
     if and (flags b) UD_VBUF_SEND_INPROGRESS \<noteq> 0 then
       put_vbuf v (\<lambda>b. b\<lparr>flags := or (flags b) UD_VBUF_FREE_PENDING\<rparr>) s
     else if free_head s = Some v then None
     else do {
       s \<leftarrow> put_vbuf v (\<lambda>b. b\<lparr>desc_next := free_head s\<rparr>) s;
       let s = s\<lparr>free_head := Some v\<rparr>;
       put_vbuf v (\<lambda>b. b\<lparr>content_size := 0, vbuf_vc := NULL\<rparr>) s } }"

section \<open>Receiving\<close>

definition app_recv :: "nat \<Rightarrow> nat \<Rightarrow> ib \<Rightarrow> ib option" where
  "app_recv vcp v s = do {
     vc \<leftarrow> vcs s vcp;
     (q, h) \<leftarrow> apprecv_window_add (app_recv_window vc) v (vbufs s);
     put_vc vcp (\<lambda>vc. vc\<lparr>app_recv_window := q\<rparr>) (s\<lparr>vbufs := h\<rparr>) }"

text \<open>The sequence number to acknowledge, and the one expected next.\<close>

definition advance :: "vc \<Rightarrow> vc" where
  "advance vc = vc\<lparr>seqnum_next_toack := seqnum_next_torecv vc, seqnum_next_torecv := seqnum_next_torecv vc + 1\<rparr>"

partial_function (option) move_recvwin :: "nat \<Rightarrow> ib \<Rightarrow> ib option" where
  "move_recvwin vcp s = do {
     vc \<leftarrow> vcs s vcp;
     (case q_head (recv_window vc) of
        None \<Rightarrow> Some s
      | Some v \<Rightarrow> do {
          b \<leftarrow> vbufs s v;
          if seqnum b = seqnum_next_torecv vc then do {
            s \<leftarrow> app_recv vcp v s;
            (q, h) \<leftarrow> recv_window_remove (recv_window vc) (vbufs s);
            s \<leftarrow> put_vc vcp (\<lambda>vc. advance (vc\<lparr>recv_window := q\<rparr>)) (s\<lparr>vbufs := h\<rparr>);
            move_recvwin vcp s }
          else Some s }) }"

function recv_win_wrap :: "int \<Rightarrow> int" where
  "recv_win_wrap fin = (if fin > MAX_SEQ_NUM then recv_win_wrap (fin - MAX_SEQ_NUM) else fin)"
  by auto
termination
  by (relation "measure nat") (auto simp: MAX_SEQ_NUM_def)

text \<open>A packet of the window that is not the next goes to its place there, unless it is there.\<close>

definition place_ahead :: "nat \<Rightarrow> vc \<Rightarrow> nat \<Rightarrow> ib \<Rightarrow> ib option" where
  "place_ahead vcp vc v s = do {
     (rc, q, h) \<leftarrow> recv_window_add (recv_window vc) v (seqnum_next_torecv vc) (vbufs s);
     s \<leftarrow> put_vc vcp (\<lambda>vc. vc\<lparr>recv_window := q\<rparr>) (s\<lparr>vbufs := h\<rparr>);
     s \<leftarrow> (if rc = MSG_IN_RECVWIN then do { s \<leftarrow> put_vbuf v (\<lambda>b. b\<lparr>content_size := 0\<rparr>) s; vbuf_release v s } else Some s);
     put_vc vcp (\<lambda>vc. vc\<lparr>ack_need_tosend := True\<rparr>) s }"

definition mv2_ud_place_recvwin :: "nat \<Rightarrow> ib \<Rightarrow> ib option" where
  "mv2_ud_place_recvwin v s = do {
     b \<leftarrow> vbufs s v;
     vcp \<leftarrow> vbuf_vc b;
     vc \<leftarrow> vcs s vcp;
     let start = uint (seqnum_next_torecv vc);
     let fin = recv_win_wrap (start + rdma_default_ud_recvwin_size);
     if INCL_BETWEEN (uint (seqnum b)) start fin then do {
       s \<leftarrow> (if seqnum b = seqnum_next_torecv vc then do {
               s \<leftarrow> app_recv vcp v s;
               put_vc vcp (\<lambda>vc. (advance vc)\<lparr>ack_need_tosend := True\<rparr>) s }
             else place_ahead vcp vc v s);
       move_recvwin vcp s }
     else do {
       s \<leftarrow> put_vbuf v (\<lambda>b. b\<lparr>content_size := 0\<rparr>) s;
       s \<leftarrow> vbuf_release v s;
       put_vc vcp (\<lambda>vc. vc\<lparr>ack_need_tosend := True\<rparr>) s } }"

end
