(* ===== verification/Ib_Flow.thy ===== *)
theory Ib_Flow
  imports Ib
begin

text \<open>
  Sending, acknowledging and sending again over the channels of the InfiniBand transport, and the
  handling of what the card reports (\<open>src/src/spawn_net_ib.c\<close>).
\<close>

section \<open>Sending\<close>

text \<open>Handing a buffer to the card; what it has then is what goes on the wire.\<close>

definition ibv_post_send :: "nat \<Rightarrow> nat \<Rightarrow> ib \<Rightarrow> ib option" where
  "ibv_post_send vcp v s = do {
     vc \<leftarrow> vcs s vcp;
     b \<leftarrow> vbufs s v;
     Some (s\<lparr>sending := sending s @ [v],
       posted := posted s @ [\<lparr>to_lid = lid vc, to_qpn = qpn vc, wire_header = header b, wire_payload = payload b\<rparr>]\<rparr>) }"

text \<open>The counters that go with it.\<close>

definition post_wqe :: "nat \<Rightarrow> nat \<Rightarrow> ib \<Rightarrow> ib option" where
  "post_wqe vcp v s = do {
     s \<leftarrow> put_vc vcp (\<lambda>vc. vc\<lparr>sends_outstanding := sends_outstanding vc + 1\<rparr>) s;
     let s = s\<lparr>ud := (ud s)\<lparr>num_sends_posted := num_sends_posted (ud s) + 1, send_wqes_avail := send_wqes_avail (ud s) - 1\<rparr>\<rparr>;
     ibv_post_send vcp v s }"

definition queue_ext :: "nat \<Rightarrow> ib \<Rightarrow> ib option" where
  "queue_ext v s = do {
     (q, h) \<leftarrow> ext_sendq_add (ext_send_queue (ud s)) v (vbufs s);
     Some (s\<lparr>ud := (ud s)\<lparr>ext_send_queue := q\<rparr>, vbufs := h\<rparr>) }"

definition ibv_ud_post_sr :: "nat \<Rightarrow> nat \<Rightarrow> ib \<Rightarrow> ib option" where
  "ibv_ud_post_sr v vcp s =
     (if send_wqes_avail (ud s) \<le> 0 \<or> q_head (ext_send_queue (ud s)) \<noteq> NULL then queue_ext v s else post_wqe vcp v s)"

text \<open>A packet that was sent is kept until it is acknowledged.\<close>

definition track_send :: "nat \<Rightarrow> nat \<Rightarrow> ib \<Rightarrow> ib option" where
  "track_send vcp v s = do {
     s \<leftarrow> put_vbuf v (\<lambda>b. b\<lparr>timestamp := last_check s\<rparr>) s;
     vc \<leftarrow> vcs s vcp;
     (q, h) \<leftarrow> send_window_add (send_window vc) v (vbufs s);
     s \<leftarrow> put_vc vcp (\<lambda>vc. vc\<lparr>send_window := q\<rparr>) (s\<lparr>vbufs := h\<rparr>);
     (q, h) \<leftarrow> unack_queue_add (unack_queue s) v (vbufs s);
     Some (s\<lparr>unack_queue := q, vbufs := h\<rparr>) }"

text \<open>The number of the packet and the acknowledgement it carries.\<close>

definition number_packet :: "nat \<Rightarrow> vc \<Rightarrow> nat \<Rightarrow> ib \<Rightarrow> ib option" where
  "number_packet vcp vc v s = do {
     s \<leftarrow> put_vbuf v (\<lambda>b. b\<lparr>seqnum := seqnum_next_tosend vc,
       header := (header b)\<lparr>pseqnum := seqnum_next_tosend vc, acknum := seqnum_next_toack vc\<rparr>\<rparr>) s;
     s \<leftarrow> put_vc vcp (\<lambda>vc. vc\<lparr>seqnum_next_tosend := seqnum_next_tosend vc + 1, ack_need_tosend := False, ack_pending := 0\<rparr>) s;
     put_vbuf v (\<lambda>b. b\<lparr>flags := or (flags b) UD_VBUF_SEND_INPROGRESS\<rparr>) s }"

definition ud_post_send :: "nat \<Rightarrow> nat \<Rightarrow> ib \<Rightarrow> ib option" where
  "ud_post_send vcp v s = do {
     b \<leftarrow> vbufs s v;
     if content_size b > MRAIL_MAX_UD_SIZE then None
     else do {
       vc \<leftarrow> vcs s vcp;
       s \<leftarrow> put_vbuf v (\<lambda>b. b\<lparr>vbuf_vc := Some vcp, header := (header b)\<lparr>srcid := writeid vc\<rparr>\<rparr>) s;
       if q_count (send_window vc) > rdma_default_ud_sendwin_size \<or> (q_head (ext_window vc) \<noteq> NULL \<and> q_head (ext_window vc) \<noteq> Some v)
       then do {
         (q, h) \<leftarrow> ext_window_add (ext_window vc) v (vbufs s);
         put_vc vcp (\<lambda>vc. vc\<lparr>ext_window := q\<rparr>) (s\<lparr>vbufs := h\<rparr>) }
       else do {
         s \<leftarrow> number_packet vcp vc v s;
         s \<leftarrow> ibv_ud_post_sr v vcp s;
         let (t, s) = spawn_clock_time_us s;
         let s = s\<lparr>last_check := t\<rparr>;
         b \<leftarrow> vbufs s v;
         if in_sendwin b then Some s else track_send vcp v s } } }"

text \<open>
  Packets that waited for room in the window; the queue is emptied from its head, and its end is
  set when nothing is left. The assertion is that the count is then zero.
\<close>

partial_function (option) flush_loop :: "nat \<Rightarrow> ptr \<Rightarrow> ib \<Rightarrow> ib option" where
  "flush_loop vcp cur s =
     (case cur of
        None \<Rightarrow> Some s
      | Some v \<Rightarrow> do {
          vc \<leftarrow> vcs s vcp;
          if q_count (send_window vc) < rdma_default_ud_sendwin_size then do {
            b \<leftarrow> vbufs s v;
            let next = lnext (extwin_msg b);
            s \<leftarrow> ud_post_send vcp v s;
            s \<leftarrow> put_vc vcp (\<lambda>vc. vc\<lparr>ext_window := (ext_window vc)\<lparr>q_head := next, q_count := q_count (ext_window vc) - 1\<rparr>\<rparr>) s;
            s \<leftarrow> put_vbuf v (\<lambda>b. b\<lparr>extwin_msg := \<lparr>lnext = NULL, lprev = NULL\<rparr>\<rparr>) s;
            s \<leftarrow> put_vc vcp (\<lambda>vc. vc\<lparr>ext_win_send_count := ext_win_send_count vc + 1\<rparr>) s;
            flush_loop vcp next s }
          else Some s })"

definition ud_flush_ext_window :: "nat \<Rightarrow> ib \<Rightarrow> ib option" where
  "ud_flush_ext_window vcp s = do {
     vc \<leftarrow> vcs s vcp;
     s \<leftarrow> flush_loop vcp (q_head (ext_window vc)) s;
     vc \<leftarrow> vcs s vcp;
     if q_head (ext_window vc) = NULL
     then (if q_count (ext_window vc) = 0 then put_vc vcp (\<lambda>vc. vc\<lparr>ext_window := (ext_window vc)\<lparr>q_tail := NULL\<rparr>\<rparr>) s else None)
     else Some s }"

section \<open>Acknowledgements\<close>

text \<open>A packet that is not needed any more leaves the window and the queue of unacknowledged packets.\<close>

definition unwindow :: "nat \<Rightarrow> nat \<Rightarrow> ib \<Rightarrow> ib option" where
  "unwindow vcp v s = do {
     vc \<leftarrow> vcs s vcp;
     (q, h) \<leftarrow> send_window_remove (send_window vc) v (vbufs s);
     put_vc vcp (\<lambda>vc. vc\<lparr>send_window := q\<rparr>) (s\<lparr>vbufs := h\<rparr>) }"

definition unack :: "nat \<Rightarrow> ib \<Rightarrow> ib option" where
  "unack v s = do {
     (q, h) \<leftarrow> unack_queue_remove (unack_queue s) v (vbufs s);
     Some (s\<lparr>unack_queue := q, vbufs := h\<rparr>) }"

partial_function (option) ack_loop :: "nat \<Rightarrow> u16 \<Rightarrow> ib \<Rightarrow> ib option" where
  "ack_loop vcp num s = do {
     vc \<leftarrow> vcs s vcp;
     (case q_head (send_window vc) of
        None \<Rightarrow> Some s
      | Some v \<Rightarrow> do {
          b \<leftarrow> vbufs s v;
          if INCL_BETWEEN (uint num) (uint (seqnum b)) (uint (seqnum_next_tosend vc)) then do {
            s \<leftarrow> unwindow vcp v s;
            s \<leftarrow> unack v s;
            s \<leftarrow> vbuf_release v s;
            ack_loop vcp num s }
          else Some s }) }"

definition ud_process_ack :: "nat \<Rightarrow> u16 \<Rightarrow> ib \<Rightarrow> ib option" where
  "ud_process_ack vcp num s = do {
     s \<leftarrow> ack_loop vcp num s;
     vc \<leftarrow> vcs s vcp;
     if q_head (ext_window vc) \<noteq> NULL \<and> q_count (send_window vc) < rdma_default_ud_sendwin_size then ud_flush_ext_window vcp s
     else Some s }"

definition ud_send_ack :: "nat \<Rightarrow> ib \<Rightarrow> ib option" where
  "ud_send_ack vcp s = do {
     (v, s) \<leftarrow> vbuf_get s;
     vc \<leftarrow> vcs s vcp;
     s \<leftarrow> put_vbuf v (\<lambda>b. b\<lparr>vbuf_vc := Some vcp, payload := [], seqnum := - 1,
       header := \<lparr>ptype = PKT_UD_ACK, srcid = writeid vc, pseqnum = - 1, acknum = seqnum_next_toack vc\<rparr>\<rparr>) s;
     s \<leftarrow> put_vc vcp (\<lambda>vc. vc\<lparr>ack_need_tosend := False, ack_pending := 0\<rparr>) s;
     s \<leftarrow> ibv_ud_post_sr v vcp s;
     put_vc vcp (\<lambda>vc. vc\<lparr>cntl_acks := cntl_acks vc + 1\<rparr>) s }"

fun check_acks :: "connected_list list \<Rightarrow> ib \<Rightarrow> ib option" where
  "check_acks [] s = Some s"
| "check_acks (e # es) s = do {
     vc \<leftarrow> vcs s (conn_vc e);
     s \<leftarrow> (if ack_need_tosend vc then ud_send_ack (conn_vc e) s else Some s);
     check_acks es s }"

definition ud_check_acks :: "ib \<Rightarrow> ib option" where
  "ud_check_acks s = check_acks (connected_head s) s"

section \<open>Sending again\<close>

definition rdma_ud_max_retry_count :: u16 where "rdma_ud_max_retry_count = 1000"
definition rdma_ud_min_retry_timeout :: int where "rdma_ud_min_retry_timeout = 50000"
definition rdma_ud_max_retry_timeout :: int where "rdma_ud_max_retry_timeout = 2000000"
definition rdma_ud_max_ack_pending :: u16 where "rdma_ud_max_ack_pending = 100"

definition LOG2 :: "u16 \<Rightarrow> nat" where
  "LOG2 v =
     (let r = (if and v 0xFF00 \<noteq> 0 then 8 else 0);
          r = (if and v (push_bit (r + 4) 0x0F) \<noteq> 0 then r + 4 else r);
          r = (if and v (push_bit (r + 2) 0x03) \<noteq> 0 then r + 2 else r);
          r = (if and v (push_bit (r + 1) 0x01) \<noteq> 0 then r + 1 else r)
      in r)"

definition ud_toss_packet :: "nat \<Rightarrow> ib \<Rightarrow> ib option" where
  "ud_toss_packet v s = do {
     b \<leftarrow> vbufs s v;
     s \<leftarrow> (case vbuf_vc b of None \<Rightarrow> Some s | Some vcp \<Rightarrow> unwindow vcp v s);
     s \<leftarrow> unack v s;
     vbuf_release v s }"

definition ud_resend :: "nat \<Rightarrow> ib \<Rightarrow> ib option" where
  "ud_resend v s = do {
     b \<leftarrow> vbufs s v;
     if and (flags b) UD_VBUF_SEND_INPROGRESS \<noteq> 0 then Some s
     else do {
       s \<leftarrow> put_vbuf v (\<lambda>b. b\<lparr>retry_count := retry_count b + 1\<rparr>) s;
       b \<leftarrow> vbufs s v;
       if ptype (header b) = PKT_UD_DISCONNECT \<and> retry_count b > 5 then ud_toss_packet v s
       else if retry_count b > rdma_ud_max_retry_count then ud_toss_packet v s
       else do {
         vcp \<leftarrow> vbuf_vc b;
         vc \<leftarrow> vcs s vcp;
         s \<leftarrow> put_vbuf v (\<lambda>b. b\<lparr>header := (header b)\<lparr>acknum := seqnum_next_toack vc\<rparr>\<rparr>) s;
         s \<leftarrow> put_vc vcp (\<lambda>vc. vc\<lparr>ack_need_tosend := False\<rparr>) s;
         s \<leftarrow> put_vbuf v (\<lambda>b. b\<lparr>flags := or (flags b) UD_VBUF_SEND_INPROGRESS\<rparr>) s;
         s \<leftarrow> (if send_wqes_avail (ud s) > 0 then post_wqe vcp v s else queue_ext v s);
         put_vc vcp (\<lambda>vc. vc\<lparr>resend_count := resend_count vc + 1\<rparr>) s } } }"

partial_function (option) resend_loop :: "ptr \<Rightarrow> int \<Rightarrow> ib \<Rightarrow> ib option" where
  "resend_loop cur now s =
     (case cur of
        None \<Rightarrow> Some s
      | Some v \<Rightarrow> do {
          b \<leftarrow> vbufs s v;
          let r = (if retry_count b > 1 then LOG2 (retry_count b) else 1);
          let delay = now - timestamp b;
          let waittime = rdma_ud_min_retry_timeout * int r;
          (now, s) \<leftarrow> (if delay > waittime \<or> delay > rdma_ud_max_retry_timeout then do {
              s \<leftarrow> ud_resend v s;
              s \<leftarrow> put_vbuf v (\<lambda>b. b\<lparr>timestamp := now\<rparr>) s;
              Some (spawn_clock_time_us s) }
            else Some (now, s));
          b \<leftarrow> vbufs s v;
          resend_loop (lnext (unack_msg b)) now s })"

definition ud_check_resend :: "ib \<Rightarrow> (bool \<times> ib) option" where
  "ud_check_resend s =
     (if q_head (unack_queue s) = NULL then Some (True, s)
      else do {
        let (now, s) = spawn_clock_time_us s;
        s \<leftarrow> resend_loop (q_head (unack_queue s)) now s;
        Some (False, s) })"

text \<open>Packets that waited for the card go out when it has room again.\<close>

partial_function (option) credit_loop :: "ptr \<Rightarrow> ib \<Rightarrow> ib option" where
  "credit_loop cur s =
     (case cur of
        None \<Rightarrow> Some s
      | Some v \<Rightarrow>
          if send_wqes_avail (ud s) > 0 then do {
            b \<leftarrow> vbufs s v;
            let next = desc_next b;
            let q = (ext_send_queue (ud s))\<lparr>q_head := next\<rparr>;
            let q = (if next = NULL then q\<lparr>q_tail := NULL\<rparr> else q);
            let s = s\<lparr>ud := (ud s)\<lparr>ext_send_queue := q\<lparr>q_count := q_count q - 1\<rparr>\<rparr>\<rparr>;
            s \<leftarrow> put_vbuf v (\<lambda>b. b\<lparr>desc_next := NULL\<rparr>) s;
            vcp \<leftarrow> vbuf_vc b;
            s \<leftarrow> post_wqe vcp v s;
            let s = s\<lparr>ud := (ud s)\<lparr>ext_sendq_count := ext_sendq_count (ud s) + 1\<rparr>\<rparr>;
            credit_loop next s }
          else Some s)"

definition ud_update_send_credits :: "int \<Rightarrow> ib \<Rightarrow> ib option" where
  "ud_update_send_credits num s =
     (let s = s\<lparr>ud := (ud s)\<lparr>send_wqes_avail := send_wqes_avail (ud s) + num\<rparr>\<rparr> in
      credit_loop (q_head (ext_send_queue (ud s))) s)"

section \<open>Closing a channel\<close>

text \<open>Its packets leave the queue of the card; \<open>prev\<close> is the last packet seen that stays.\<close>

partial_function (option) purge_ext_sendq :: "nat \<Rightarrow> ptr \<Rightarrow> ptr \<Rightarrow> ib \<Rightarrow> ib option" where
  "purge_ext_sendq vcp prev cur s =
     (case cur of
        None \<Rightarrow> Some s
      | Some v \<Rightarrow> do {
          b \<leftarrow> vbufs s v;
          let next = desc_next b;
          if vbuf_vc b = Some vcp then do {
            s \<leftarrow> unwindow vcp v s;
            let q = ext_send_queue (ud s);
            (q, h) \<leftarrow> (if q_head q = Some v then Some (q\<lparr>q_head := next\<rparr>, vbufs s)
                      else do { h \<leftarrow> write_vbuf prev (\<lambda>b. b\<lparr>desc_next := next\<rparr>) (vbufs s); Some (q, h) });
            let q = (if q_tail q = Some v then q\<lparr>q_tail := prev\<rparr> else q);
            let s = s\<lparr>ud := (ud s)\<lparr>ext_send_queue := q\<lparr>q_count := q_count q - 1\<rparr>\<rparr>, vbufs := h\<rparr>;
            s \<leftarrow> put_vbuf v (\<lambda>b. b\<lparr>desc_next := NULL\<rparr>) s;
            purge_ext_sendq vcp prev next s }
          else purge_ext_sendq vcp cur next s })"

partial_function (option) purge_send_window :: "nat \<Rightarrow> ptr \<Rightarrow> ib \<Rightarrow> ib option" where
  "purge_send_window vcp cur s =
     (case cur of
        None \<Rightarrow> Some s
      | Some v \<Rightarrow> do {
          b \<leftarrow> vbufs s v;
          let next = lnext (sendwin_msg b);
          s \<leftarrow> unwindow vcp v s;
          s \<leftarrow> unack v s;
          s \<leftarrow> vbuf_release v s;
          purge_send_window vcp next s })"

text \<open>The other queues are walked with a link of the buffers; then a pair of links is cleared.\<close>

partial_function (option) release_all :: "(vbuf \<Rightarrow> link) \<Rightarrow> ((link \<Rightarrow> link) \<Rightarrow> vbuf \<Rightarrow> vbuf) \<Rightarrow> ptr \<Rightarrow> ib \<Rightarrow> ib option" where
  "release_all get upd cur s =
     (case cur of
        None \<Rightarrow> Some s
      | Some v \<Rightarrow> do {
          b \<leftarrow> vbufs s v;
          let next = lnext (get b);
          s \<leftarrow> vbuf_release v s;
          s \<leftarrow> put_vbuf v (set_lprev upd NULL \<circ> set_lnext upd NULL) s;
          release_all get upd next s })"

definition vc_purge_queues :: "nat \<Rightarrow> ib \<Rightarrow> ib option" where
  "vc_purge_queues vcp s = do {
     s \<leftarrow> purge_ext_sendq vcp NULL (q_head (ext_send_queue (ud s))) s;
     vc \<leftarrow> vcs s vcp;
     s \<leftarrow> purge_send_window vcp (q_head (send_window vc)) s;
     vc \<leftarrow> vcs s vcp;
     s \<leftarrow> release_all extwin_msg extwin_msg_update (q_head (ext_window vc)) s;
     s \<leftarrow> release_all apprecvwin_msg apprecvwin_msg_update (q_head (app_recv_window vc)) s;
     release_all recvwin_msg apprecvwin_msg_update (q_head (recv_window vc)) s }"

fun remove_connected :: "nat \<Rightarrow> connected_list list \<Rightarrow> connected_list list" where
  "remove_connected vcp [] = []"
| "remove_connected vcp (e # es) = (if conn_vc e = vcp then es else e # remove_connected vcp es)"

definition vc_purge_connected :: "nat \<Rightarrow> ib \<Rightarrow> ib" where
  "vc_purge_connected vcp s = s\<lparr>connected_head := remove_connected vcp (connected_head s)\<rparr>"

definition vc_delete :: "nat \<Rightarrow> ib \<Rightarrow> ib" where
  "vc_delete vcp s = s\<lparr>vcs := (vcs s)(vcp := None)\<rparr>"

definition vc_free :: "nat \<Rightarrow> ib \<Rightarrow> ib option" where
  "vc_free vcp s = do {
     vc \<leftarrow> vcs s vcp;
     if local_closed vc \<and> remote_closed vc then do {
       s \<leftarrow> put_vc vcp (\<lambda>vc. vc\<lparr>state := VC_STATE_CLOSING\<rparr>) s;
       s \<leftarrow> vc_purge_queues vcp s;
       let s = vc_purge_connected vcp s;
       vc \<leftarrow> vcs s vcp;
       Some (if sends_outstanding vc = 0 then vc_delete vcp s else s) }
     else Some s }"

section \<open>Packets that come in\<close>

definition ud_process_recv :: "nat \<Rightarrow> ib \<Rightarrow> ib option" where
  "ud_process_recv v s = do {
     b \<leftarrow> vbufs s v;
     vcp \<leftarrow> vbuf_vc b;
     let p = header b;
     s \<leftarrow> ud_process_ack vcp (acknum p) s;
     if and (ptype p) PKT_CONTROL_BIT \<noteq> 0 then
       (if ptype p = PKT_UD_DISCONNECT then do {
          s \<leftarrow> vbuf_release v s;
          s \<leftarrow> put_vc vcp (\<lambda>vc. vc\<lparr>remote_closed := True\<rparr>) s;
          let s = s\<lparr>count_conn := count_conn s - 1\<rparr>;
          vc_free vcp s }
        else
          let s = (if ptype p = PKT_UD_SHUTDOWN then s\<lparr>shutdown := True\<rparr> else s) in
          if ptype p = PKT_UD_ACCEPT then mv2_ud_place_recvwin v s else vbuf_release v s)
     else do {
       s \<leftarrow> put_vc vcp (\<lambda>vc. vc\<lparr>ack_pending := ack_pending vc + 1\<rparr>) s;
       vc \<leftarrow> vcs s vcp;
       s \<leftarrow> (if ack_pending vc > rdma_ud_max_ack_pending then ud_send_ack vcp s else Some s);
       mv2_ud_place_recvwin v s } }"

fun ud_post_recv_buffers :: "nat \<Rightarrow> ib \<Rightarrow> ib option" where
  "ud_post_recv_buffers 0 s = Some s"
| "ud_post_recv_buffers (Suc n) s = do {
     (v, s) \<leftarrow> vbuf_get s;
     ud_post_recv_buffers n (s\<lparr>receiving := receiving s @ [v]\<rparr>) }"

end
