(* ===== verification/Ib_Api.thy ===== *)
theory Ib_Api
  imports Ib_Flow Net_Types
begin

text \<open>
  The functions of the InfiniBand transport that the library calls, and the handling of completions
  (\<open>src/src/spawn_net_ib.c\<close>).
\<close>

section \<open>Names\<close>

text \<open>The formats \<open>%x\<close>, with zeros in front up to a width, for a number of 32 bits.\<close>

definition hex_digit :: "nat \<Rightarrow> char" where
  "hex_digit d = ''0123456789abcdef'' ! d"

fun hex :: "nat \<Rightarrow> string" where
  "hex n = (if n < 16 then [hex_digit n] else hex (n div 16) @ [hex_digit (n mod 16)])"

declare hex.simps [simp del]

definition hex_pad :: "nat \<Rightarrow> nat \<Rightarrow> string" where
  "hex_pad w n = replicate (w - length (hex n)) CHR ''0'' @ hex n"

abbreviation hex32 :: "nat \<Rightarrow> 'a :: len word \<Rightarrow> string" where
  "hex32 w n \<equiv> hex_pad w (unat n mod 2 ^ 32)"

text \<open>
  \<open>%06x\<close> and the like in \<open>sscanf\<close>: white space is skipped, then at most that many characters are read, a
  sign and \<open>0x\<close> among them.
\<close>

definition hex_value :: "char \<Rightarrow> nat option" where
  "hex_value c = (let n = of_char c in
     if 48 \<le> n \<and> n \<le> 57 then Some (n - 48) else if 97 \<le> n \<and> n \<le> 102 then Some (n - 87)
     else if 65 \<le> n \<and> n \<le> 70 then Some (n - 55) else None)"

definition scan_sign :: "string \<Rightarrow> bool \<times> string" where
  "scan_sign s = (case s of c # t \<Rightarrow> if c = CHR ''-'' then (True, t) else if c = CHR ''+'' then (False, t) else (False, s) | [] \<Rightarrow> (False, s))"

definition scan_0x :: "string \<Rightarrow> string" where
  "scan_0x s = (if has_prefix ''0x'' s \<or> has_prefix ''0X'' s then drop 2 s else s)"

definition scan_hex :: "nat \<Rightarrow> string \<Rightarrow> (32 word \<times> string) option" where
  "scan_hex w s =
     (let s = dropWhile is_space s;
          (neg, t) = scan_sign (take w s);
          t = scan_0x t;
          ds = takeWhile (\<lambda>c. hex_value c \<noteq> None) t;
          n = word_of_nat (foldl (\<lambda>n c. 16 * n + the (hex_value c)) 0 ds)
      in if ds = [] then None else Some (if neg then - n else n, drop (length ds) t @ drop w s))"

text \<open>Several such numbers with colons between them; the length of the result is what \<open>sscanf\<close> returns.\<close>

fun scan_fields :: "nat list \<Rightarrow> string \<Rightarrow> 32 word list" where
  "scan_fields [] s = []"
| "scan_fields (w # ws) s =
     (case scan_hex w s of
        None \<Rightarrow> []
      | Some (n, t) \<Rightarrow> n # (case t of c # t \<Rightarrow> if c = CHR '':'' then scan_fields ws t else [] | [] \<Rightarrow> []))"

text \<open>The length of a host name, the name, and what follows.\<close>

definition split_host :: "string \<Rightarrow> (string \<times> string) option" where
  "split_host s = do {
     (host_len_str, p) \<leftarrow> scan_colon s;
     let host_len = atoi host_len_str;
     if 0 \<le> host_len \<and> nat host_len < length p then Some (take (nat host_len) p, drop (nat host_len + 1) p) else None }"

section \<open>Channels\<close>

text \<open>The array grows when it is full; its entries are read then, and one is written.\<close>

definition vc_grow :: "nat \<Rightarrow> ib \<Rightarrow> ib option" where
  "vc_grow i s =
     (if i > 0 \<and> \<not> vc_array s then None
      else Some (s\<lparr>vc_infos := (if vc_infos s > 0 then vc_infos s * 2 else 1), vc_array := True\<rparr>))"

definition vc_alloc :: "ib \<Rightarrow> (nat \<times> ib) option" where
  "vc_alloc s = do {
     let i = vc_info_id s;
     let s = s\<lparr>vc_info_id := i + 1\<rparr>;
     s \<leftarrow> (if i \<ge> vc_infos s then vc_grow i s else Some s);
     if \<not> vc_array s \<or> i \<ge> vc_infos s then None
     else Some (i, s\<lparr>vcs := (vcs s)(i \<mapsto> (vc_init blank_vc)\<lparr>readid := word_of_nat i, nread := 0\<rparr>)\<rparr>) }"

definition vc_set_addr :: "nat \<Rightarrow> u16 \<Rightarrow> 32 word \<Rightarrow> ib \<Rightarrow> (int \<times> ib) option" where
  "vc_set_addr vcp l q s = do {
     vc \<leftarrow> vcs s vcp;
     if state vc \<noteq> VC_STATE_INIT then Some (0, s)
     else if \<not> ah_ok s l then Some (- 1, s)
     else do {
       s \<leftarrow> put_vc vcp (\<lambda>vc. vc\<lparr>has_ah := True, state := VC_STATE_CONNECTING, lid := l, qpn := q\<rparr>) s;
       Some (0, s) } }"

section \<open>Completions\<close>

datatype wc_opcode = IBV_WC_SEND | IBV_WC_RECV | IBV_WC_OTHER

text \<open>
  What the card reports. For a packet that came in, \<open>wc_header\<close> and \<open>wc_payload\<close> are what it wrote to the buffer; \<open>byte_len\<close>
  is the size of both and of the forty bytes before them.
\<close>

record ibv_wc =
  wc_success :: bool
  wc_opcode :: wc_opcode
  wr_id :: nat
  slid :: u16
  src_qp :: "32 word"
  wc_header :: pkt_header
  wc_payload :: "byte list"

definition cq_send :: "nat \<Rightarrow> ib \<Rightarrow> ib option" where
  "cq_send v s = do {
     let s = s\<lparr>sending := remove1 v (sending s), ud := (ud s)\<lparr>num_sends_posted := num_sends_posted (ud s) - 1\<rparr>\<rparr>;
     b \<leftarrow> vbufs s v;
     vcp \<leftarrow> vbuf_vc b;
     s \<leftarrow> put_vc vcp (\<lambda>vc. vc\<lparr>sends_outstanding := sends_outstanding vc - 1\<rparr>) s;
     vc \<leftarrow> vcs s vcp;
     let s = (if state vc = VC_STATE_CLOSING \<and> sends_outstanding vc = 0 then vc_delete vcp s else s);
     if and (flags b) UD_VBUF_SEND_INPROGRESS \<noteq> 0 then do {
       s \<leftarrow> put_vbuf v (\<lambda>b. b\<lparr>flags := and (flags b) (not UD_VBUF_SEND_INPROGRESS)\<rparr>) s;
       if and (flags b) UD_VBUF_FREE_PENDING \<noteq> 0 then do {
         s \<leftarrow> put_vbuf v (\<lambda>b. b\<lparr>flags := and (flags b) (not UD_VBUF_FREE_PENDING)\<rparr>) s;
         vbuf_release v s }
       else Some s }
     else Some s }"

text \<open>A request for a connection is put in the queue, unless it is there or has been accepted.\<close>

definition ud_process_connreq :: "nat \<Rightarrow> u16 \<Rightarrow> 32 word \<Rightarrow> ib \<Rightarrow> ib option" where
  "ud_process_connreq v sl sq s = do {
     b \<leftarrow> vbufs s v;
     if NUL \<notin> set (payload b) then None
     else do {
       (host_str, p) \<leftarrow> split_host (takeWhile (\<lambda>c. c \<noteq> NUL) (payload b));
       (case scan_fields [6, 6, 4, 6] p of
          [epid, wid, l, q] \<Rightarrow>
            if (\<exists>e\<in>set (connect_head s). req_lid e = l \<and> req_qpn e = q \<and> req_id e = ucast wid)
              \<or> (\<exists>e\<in>set (connected_head s). conn_lid e = l \<and> conn_qpn e = q \<and> conn_id e = wid)
            then vbuf_release v s
            else Some (s\<lparr>connect_head := connect_head s @ [\<lparr>req_vbuf = v, req_epid = ucast epid, req_lid = ucast sl, req_qpn = sq,
              req_id = ucast wid, req_name = host_str\<rparr>]\<rparr>)
        | _ \<Rightarrow> vbuf_release v s) } }"

definition RDMA_DEFAULT_MAX_UD_RECV_WQE :: int where "RDMA_DEFAULT_MAX_UD_RECV_WQE = 4096"

definition replenish :: "ib \<Rightarrow> ib option" where
  "replenish s = do {
     let s = s\<lparr>ud := (ud s)\<lparr>num_recvs_posted := num_recvs_posted (ud s) - 1\<rparr>\<rparr>;
     if num_recvs_posted (ud s) < credit_preserve (ud s) then do {
       let remaining = nat (RDMA_DEFAULT_MAX_UD_RECV_WQE - num_recvs_posted (ud s));
       s \<leftarrow> ud_post_recv_buffers remaining s;
       Some (s\<lparr>ud := (ud s)\<lparr>num_recvs_posted := num_recvs_posted (ud s) + int remaining\<rparr>\<rparr>) }
     else Some s }"

text \<open>The result tells whether the packet counts as received; the buffers of the others are not replaced.\<close>

definition cq_recv :: "ibv_wc \<Rightarrow> ib \<Rightarrow> (bool \<times> ib) option" where
  "cq_recv wc s = do {
     let v = wr_id wc;
     let p = wc_header wc;
     s \<leftarrow> put_vbuf v (\<lambda>b. b\<lparr>header := p, payload := wc_payload wc, content_size := header_size + length (wc_payload wc)\<rparr>)
       (s\<lparr>receiving := remove1 v (receiving s)\<rparr>);
     if ptype p \<noteq> PKT_UD_CONNECT then
       (let index = unat (srcid p) in
        if vc_info_id s \<le> index then do { s \<leftarrow> vbuf_release v s; Some (False, s) }
        else
          (case vcs s index of
             None \<Rightarrow> do { s \<leftarrow> vbuf_release v s; Some (False, s) }
           | Some vc \<Rightarrow>
               if lid vc \<noteq> slid wc \<or> qpn vc \<noteq> src_qp wc then do { s \<leftarrow> vbuf_release v s; Some (False, s) }
               else do {
                 s \<leftarrow> put_vbuf v (\<lambda>b. b\<lparr>vbuf_vc := Some index, seqnum := pseqnum p\<rparr>) s;
                 s \<leftarrow> ud_process_recv v s;
                 s \<leftarrow> replenish s;
                 Some (True, s) }))
     else do {
       s \<leftarrow> ud_process_connreq v (slid wc) (src_qp wc) s;
       s \<leftarrow> replenish s;
       Some (True, s) } }"

fun cq_entries :: "ibv_wc list \<Rightarrow> int \<Rightarrow> bool \<Rightarrow> ib \<Rightarrow> (int \<times> bool \<times> ib) option" where
  "cq_entries [] sendcnt got s = Some (sendcnt, got, s)"
| "cq_entries (wc # wcs) sendcnt got s =
     (if \<not> wc_success wc then None
      else case wc_opcode wc of
        IBV_WC_SEND \<Rightarrow> do { s \<leftarrow> cq_send (wr_id wc) s; cq_entries wcs (sendcnt + 1) got s }
      | IBV_WC_RECV \<Rightarrow> do { (r, s) \<leftarrow> cq_recv wc s; cq_entries wcs sendcnt (got \<or> r) s }
      | IBV_WC_OTHER \<Rightarrow> cq_entries wcs sendcnt got s)"

text \<open>The argument is what \<open>ibv_poll_cq\<close> returns; an error of it ends the process.\<close>

definition cq_poll :: "ibv_wc list \<Rightarrow> ib \<Rightarrow> (bool \<times> ib) option" where
  "cq_poll wcs s = do {
     (sendcnt, got_recv, s) \<leftarrow> cq_entries wcs 0 False s;
     s \<leftarrow> (if sendcnt > 0 then ud_update_send_credits sendcnt s else Some s);
     Some (got_recv, s) }"

fun drain_loop :: "ibv_wc list list \<Rightarrow> bool \<Rightarrow> ib \<Rightarrow> (bool \<times> ib) option" where
  "drain_loop [] new s = Some (new, s)"
| "drain_loop (wcs # polls) new s =
     (if wcs = [] then Some (new, s)
      else do { (got, s) \<leftarrow> cq_poll wcs s; drain_loop polls (new \<or> got) s })"

definition cq_drain :: "ibv_wc list list \<Rightarrow> ib \<Rightarrow> ib option" where
  "cq_drain polls s = do {
     (new_recv, s) \<leftarrow> drain_loop polls False s;
     Some (if new_recv \<and> recv_flag s then s\<lparr>recv_flag := False\<rparr> else s) }"

section \<open>Threads\<close>

text \<open>
  What the other threads do while a call waits: the receive thread handles what the card reports, and
  the timeout thread sends acknowledgements, handles what the card reports, and sends again. The wait
  itself is for a condition variable and ends at any of these; the condition is then looked at again.
\<close>

datatype other = Recv_Thread "ibv_wc list list" | Timeout_Thread "ibv_wc list list"

fun run_other :: "other \<Rightarrow> ib \<Rightarrow> ib option" where
  "run_other (Recv_Thread polls) s = cq_drain polls s"
| "run_other (Timeout_Thread polls) s = do {
     s \<leftarrow> ud_check_acks s;
     s \<leftarrow> cq_drain polls s;
     (unack_empty, s) \<leftarrow> ud_check_resend s;
     Some s }"

text \<open>A call that waits returns \<open>None\<close> in the first component as long as it has to wait on.\<close>

fun wait_packet :: "nat \<Rightarrow> other list \<Rightarrow> ib \<Rightarrow> (ptr \<times> other list \<times> ib) option" where
  "wait_packet vcp [] s = do { vc \<leftarrow> vcs s vcp; Some (q_head (app_recv_window vc), [], s) }"
| "wait_packet vcp (t # ts) s = do {
     vc \<leftarrow> vcs s vcp;
     if q_head (app_recv_window vc) \<noteq> NULL then Some (q_head (app_recv_window vc), t # ts, s)
     else do { s \<leftarrow> run_other t (s\<lparr>recv_flag := True\<rparr>); wait_packet vcp ts s } }"

definition scan_connect_message :: "u64 \<Rightarrow> ib \<Rightarrow> connect_list option" where
  "scan_connect_message epid s = List.find (\<lambda>e. req_epid e = epid) (connect_head s)"

fun recv_connect_message :: "u64 \<Rightarrow> other list \<Rightarrow> ib \<Rightarrow> (connect_list option \<times> other list \<times> ib) option" where
  "recv_connect_message epid ts s =
     (case scan_connect_message epid s of
        Some e \<Rightarrow> Some (Some e, ts, s\<lparr>connect_head := remove1 e (connect_head s)\<rparr>)
      | None \<Rightarrow>
          (case ts of [] \<Rightarrow> Some (None, [], s)
           | t # ts \<Rightarrow> do { s \<leftarrow> run_other t (s\<lparr>recv_flag := True\<rparr>); recv_connect_message epid ts s }))"

section \<open>Packets\<close>

definition packet_send :: "nat \<Rightarrow> 8 word \<Rightarrow> byte list \<Rightarrow> ib \<Rightarrow> (int \<times> ib) option" where
  "packet_send vcp type pl s = do {
     (v, s) \<leftarrow> vbuf_get s;
     if MRAIL_MAX_UD_SIZE - header_size < length pl then None
     else do {
       s \<leftarrow> put_vbuf v (\<lambda>b. b\<lparr>header := \<lparr>ptype = type, srcid = 0xfcfcfcfcfcfcfcfc, pseqnum = 0xfcfc, acknum = 0xfcfc\<rparr>,
         payload := pl, content_size := header_size + length pl\<rparr>) s;
       s \<leftarrow> ud_post_send vcp v s;
       Some (SPAWN_SUCCESS, s) } }"

text \<open>The first packet of the application's queue is taken out.\<close>

definition app_retrieve :: "nat \<Rightarrow> ib \<Rightarrow> (ptr \<times> ib) option" where
  "app_retrieve vcp s = do {
     vc \<leftarrow> vcs s vcp;
     (p, q, h) \<leftarrow> apprecv_window_retrieve_and_remove (app_recv_window vc) (vbufs s);
     s \<leftarrow> put_vc vcp (\<lambda>vc. vc\<lparr>app_recv_window := q\<rparr>) (s\<lparr>vbufs := h\<rparr>);
     Some (p, s) }"

definition recv_accept_message :: "nat \<Rightarrow> other list \<Rightarrow> ib \<Rightarrow> (int option \<times> other list \<times> ib) option" where
  "recv_accept_message vcp ts s = do {
     (p, ts, s) \<leftarrow> wait_packet vcp ts s;
     if p = NULL then Some (None, ts, s)
     else do {
       (p, s) \<leftarrow> app_retrieve vcp s;
       v \<leftarrow> p;
       b \<leftarrow> vbufs s v;
       (case scan_fields [6] (takeWhile (\<lambda>c. c \<noteq> NUL) (payload b)) of
          wid # _ \<Rightarrow> do {
            s \<leftarrow> put_vc vcp (\<lambda>vc. vc\<lparr>writeid := scast wid\<rparr>) s;
            s \<leftarrow> vbuf_release v s;
            Some (Some SPAWN_SUCCESS, ts, s) }
        | [] \<Rightarrow> do { s \<leftarrow> vbuf_release v s; Some (Some SPAWN_FAILURE, ts, s) }) } }"

section \<open>The interface\<close>

type_synonym ib_channel = "nat spawn_net_channel"
type_synonym ib_endpoint = "u64 spawn_net_endpoint"

definition payload_max :: nat where "payload_max = MRAIL_MAX_UD_SIZE - header_size"

lemma payload_max_pos: "0 < payload_max"
  by (simp add: payload_max_def MRAIL_MAX_UD_SIZE_def header_size_def)

function write_packets :: "nat \<Rightarrow> byte list \<Rightarrow> ib \<Rightarrow> (int \<times> ib) option" where
  "write_packets vcp bs s =
     (if bs = [] then Some (SPAWN_SUCCESS, s)
      else do {
        (rc, s) \<leftarrow> packet_send vcp PKT_UD_DATA (take payload_max bs) s;
        if rc \<noteq> SPAWN_SUCCESS then Some (rc, s) else write_packets vcp (drop payload_max bs) s })"
  by auto
termination
  by (relation "measure (\<lambda>(_, bs, _). length bs)") (use payload_max_pos in auto)

declare write_packets.simps [simp del]

definition spawn_net_write_ib :: "ib_channel \<Rightarrow> byte list \<Rightarrow> ib \<Rightarrow> (int \<times> ib) option" where
  "spawn_net_write_ib ch bs s =
     (case ch_data ch of
        None \<Rightarrow> Some (SPAWN_FAILURE, s)
      | Some vcp \<Rightarrow> do {
          vc \<leftarrow> vcs s vcp;
          if remote_closed vc then Some (SPAWN_FAILURE, s) else write_packets vcp bs s })"

text \<open>\<open>acc\<close> is what was read so far of \<open>n\<close> bytes.\<close>

partial_function (option) read_packets :: "nat \<Rightarrow> nat \<Rightarrow> byte list \<Rightarrow> other list \<Rightarrow> ib \<Rightarrow> (byte list option \<times> other list \<times> ib) option" where
  "read_packets vcp n acc ts s =
     (if length acc < n then do {
        (p, ts, s) \<leftarrow> wait_packet vcp ts s;
        (case p of
           None \<Rightarrow> Some (None, ts, s)
         | Some v \<Rightarrow> do {
             b \<leftarrow> vbufs s v;
             vc \<leftarrow> vcs s vcp;
             let payload_remaining = (content_size b - header_size) - nread vc;
             let remaining = n - length acc;
             let data = drop (nread vc) (payload b);
             if remaining < payload_remaining then do {
               s \<leftarrow> put_vc vcp (\<lambda>vc. vc\<lparr>nread := nread vc + remaining\<rparr>) s;
               read_packets vcp n (acc @ take remaining data) ts s }
             else do {
               (p, s) \<leftarrow> app_retrieve vcp s;
               v \<leftarrow> p;
               s \<leftarrow> vbuf_release v s;
               s \<leftarrow> put_vc vcp (\<lambda>vc. vc\<lparr>nread := 0\<rparr>) s;
               read_packets vcp n (acc @ take payload_remaining data) ts s } }) }
      else Some (Some acc, ts, s))"

definition spawn_net_read_ib :: "ib_channel \<Rightarrow> nat \<Rightarrow> other list \<Rightarrow> ib \<Rightarrow> ((int \<times> byte list) option \<times> other list \<times> ib) option" where
  "spawn_net_read_ib ch n ts s =
     (case ch_data ch of
        None \<Rightarrow> Some (Some (SPAWN_FAILURE, []), ts, s)
      | Some vcp \<Rightarrow> do {
          (r, ts, s) \<leftarrow> read_packets vcp n [] ts s;
          Some (map_option (\<lambda>bs. (SPAWN_SUCCESS, bs)) r, ts, s) })"

definition spawn_net_disconnect_ib :: "ib_channel \<Rightarrow> ib \<Rightarrow> (int \<times> ib) option" where
  "spawn_net_disconnect_ib ch s =
     (case ch_data ch of
        None \<Rightarrow> Some (SPAWN_FAILURE, s)
      | Some vcp \<Rightarrow> do {
          (rc, s) \<leftarrow> packet_send vcp PKT_UD_DISCONNECT [] s;
          s \<leftarrow> put_vc vcp (\<lambda>vc. vc\<lparr>local_closed := True\<rparr>) s;
          let s = s\<lparr>count_conn := count_conn s - 1\<rparr>;
          s \<leftarrow> vc_free vcp s;
          Some (rc, s) })"

definition ib_name :: "string \<Rightarrow> u16 \<Rightarrow> 32 word \<Rightarrow> u64 \<Rightarrow> string" where
  "ib_name host l q epid = ''IBUD:'' @ dec (length host) @ '':'' @ host @ '':'' @ hex32 4 l @ '':'' @ hex32 6 q @ '':'' @ hex32 6 epid"

text \<open>Names of channels, and what a request and its answer carry.\<close>

definition ib_channel_name :: "string \<Rightarrow> 32 word \<Rightarrow> 32 word \<Rightarrow> string" where
  "ib_channel_name host l q = ''IBUD:'' @ host @ '':'' @ hex32 4 (ucast l :: u16) @ '':'' @ hex32 6 q"

definition connect_payload :: "string \<Rightarrow> 32 word \<Rightarrow> u64 \<Rightarrow> u16 \<Rightarrow> 32 word \<Rightarrow> byte list" where
  "connect_payload host epid rid l q =
     dec (length host) @ '':'' @ host @ '':'' @ hex32 6 epid @ '':'' @ hex32 6 rid @ '':'' @ hex32 4 l @ '':'' @ hex32 6 q @ [NUL]"

definition accept_payload :: "u64 \<Rightarrow> byte list" where
  "accept_payload rid = hex32 6 rid @ [NUL]"

text \<open>\<open>hostname\<close> is what \<open>gethostname\<close> gives. The first component is \<open>None\<close> while the call waits.\<close>

definition spawn_net_connect_ib ::
  "string option \<Rightarrow> string \<Rightarrow> other list \<Rightarrow> ib \<Rightarrow> (ib_channel option option \<times> other list \<times> ib) option" where
  "spawn_net_connect_ib hostname name ts s =
     (if \<not> has_prefix ''IBUD:'' name then Some (Some None, ts, s)
      else case hostname of
        None \<Rightarrow> Some (Some None, ts, s)
      | Some host \<Rightarrow> do {
          (host_str, p) \<leftarrow> split_host (drop 5 name);
          (case scan_fields [4, 6, 6] p of
             [l, q, epid] \<Rightarrow> do {
               (vcp, s) \<leftarrow> vc_alloc s;
               (rc, s) \<leftarrow> vc_set_addr vcp (ucast l) q s;
               vc \<leftarrow> vcs s vcp;
               (rc, s) \<leftarrow> packet_send vcp PKT_UD_CONNECT (connect_payload host epid (readid vc) (local_lid s) (local_qpn s)) s;
               (r, ts, s) \<leftarrow> recv_accept_message vcp ts s;
               if r = None then Some (None, ts, s)
               else do {
                 s \<leftarrow> put_vc vcp (\<lambda>vc. vc\<lparr>state := VC_STATE_CONNECTED\<rparr>) s;
                 Some (Some (Some \<lparr>ch_type = SPAWN_NET_TYPE_IBUD, ch_name = Some (ib_channel_name host_str l q), ch_data = Some vcp\<rparr>),
                   ts, s\<lparr>count_conn := count_conn s + 1\<rparr>) } }
           | _ \<Rightarrow> Some (Some None, ts, s)) })"

definition spawn_net_accept_ib :: "ib_endpoint \<Rightarrow> other list \<Rightarrow> ib \<Rightarrow> (ib_channel option \<times> other list \<times> ib) option" where
  "spawn_net_accept_ib ep ts s = do {
     let local_epid = (case ep_data ep of None \<Rightarrow> 0 | Some epid \<Rightarrow> epid);
     (r, ts, s) \<leftarrow> recv_connect_message local_epid ts s;
     (case r of
        None \<Rightarrow> Some (None, ts, s)
      | Some req \<Rightarrow> do {
          (vcp, s) \<leftarrow> vc_alloc s;
          let s = s\<lparr>connected_head := connected_head s @ [\<lparr>conn_lid = req_lid req, conn_qpn = req_qpn req, conn_id = ucast (req_id req), conn_vc = vcp\<rparr>]\<rparr>;
          (rc, s) \<leftarrow> vc_set_addr vcp (ucast (req_lid req)) (req_qpn req) s;
          s \<leftarrow> put_vc vcp (\<lambda>vc. vc\<lparr>writeid := ucast (ucast (req_id req) :: 32 word)\<rparr>) s;
          s \<leftarrow> put_vbuf (req_vbuf req) (\<lambda>b. b\<lparr>vbuf_vc := Some vcp\<rparr>) s;
          s \<leftarrow> vbuf_release (req_vbuf req) s;
          s \<leftarrow> put_vc vcp (\<lambda>vc. vc\<lparr>seqnum_next_torecv := seqnum_next_torecv vc + 1\<rparr>) s;
          vc \<leftarrow> vcs s vcp;
          (rc, s) \<leftarrow> packet_send vcp PKT_UD_ACCEPT (accept_payload (readid vc)) s;
          s \<leftarrow> put_vc vcp (\<lambda>vc. vc\<lparr>state := VC_STATE_CONNECTED\<rparr>) s;
          Some (Some \<lparr>ch_type = SPAWN_NET_TYPE_IBUD, ch_name = Some (ib_channel_name (req_name req) (req_lid req) (req_qpn req)), ch_data = Some vcp\<rparr>,
            ts, s\<lparr>count_conn := count_conn s + 1\<rparr>) }) }"

section \<open>Waiting on several endpoints and channels\<close>

fun ready_endpoint :: "ib_endpoint option list \<Rightarrow> nat \<Rightarrow> ib \<Rightarrow> nat option" where
  "ready_endpoint [] i s = None"
| "ready_endpoint (None # eps) i s = ready_endpoint eps (Suc i) s"
| "ready_endpoint (Some ep # eps) i s =
     (if scan_connect_message (case ep_data ep of None \<Rightarrow> 0 | Some epid \<Rightarrow> epid) s \<noteq> None then Some i else ready_endpoint eps (Suc i) s)"

fun ready_channel :: "ib_channel option list \<Rightarrow> nat \<Rightarrow> ib \<Rightarrow> nat option option" where
  "ready_channel [] i s = Some None"
| "ready_channel (None # chs) i s = ready_channel chs (Suc i) s"
| "ready_channel (Some ch # chs) i s =
     (case ch_data ch of
        None \<Rightarrow> ready_channel chs (Suc i) s
      | Some vcp \<Rightarrow> do {
          vc \<leftarrow> vcs s vcp;
          if apprecv_window_test (app_recv_window vc) \<noteq> 0 then Some (Some i) else ready_channel chs (Suc i) s })"

definition any_valid :: "ib_endpoint option list \<Rightarrow> ib_channel option list \<Rightarrow> bool" where
  "any_valid eps chs \<longleftrightarrow> (\<exists>ep\<in>set eps. ep \<noteq> None) \<or> (\<exists>ch\<in>set chs. case ch of None \<Rightarrow> False | Some ch \<Rightarrow> ch_data ch \<noteq> None)"

text \<open>The result has the index; the first component is \<open>None\<close> while the call waits.\<close>

fun wait_loop :: "ib_endpoint option list \<Rightarrow> ib_channel option list \<Rightarrow> other list \<Rightarrow> ib \<Rightarrow> (int option \<times> other list \<times> ib) option" where
  "wait_loop eps chs ts s =
     (case ready_endpoint eps 0 s of
        Some i \<Rightarrow> Some (Some (int i), ts, s)
      | None \<Rightarrow> do {
          r \<leftarrow> ready_channel chs 0 s;
          (case r of
             Some i \<Rightarrow> Some (Some (int (i + length eps)), ts, s)
           | None \<Rightarrow>
               if \<not> any_valid eps chs then Some (Some (- 1), ts, s)
               else
                 (case ts of [] \<Rightarrow> Some (None, [], s)
                  | t # ts \<Rightarrow> do { s \<leftarrow> run_other t (s\<lparr>recv_flag := True\<rparr>); wait_loop eps chs ts s })) })"

definition spawn_net_wait_ib ::
  "ib_endpoint option list option \<Rightarrow> ib_channel option list option \<Rightarrow> other list \<Rightarrow> ib \<Rightarrow> ((int \<times> int option) option \<times> other list \<times> ib) option" where
  "spawn_net_wait_ib eps chs ts s =
     (if eps = None \<and> chs = None then Some (Some (SPAWN_FAILURE, None), ts, s)
      else do {
        (r, ts, s) \<leftarrow> wait_loop (case eps of None \<Rightarrow> [] | Some eps \<Rightarrow> eps) (case chs of None \<Rightarrow> [] | Some chs \<Rightarrow> chs) ts s;
        Some (map_option (\<lambda>i. (SPAWN_SUCCESS, Some i)) r, ts, s) })"

end
