(* ===== verification/Ib_Recv.thy ===== *)
theory Ib_Recv
  imports Ib
begin

text \<open>
  The receiving side of a channel. The \<open>k\<close>-th packet of a channel is \<open>msgs k\<close>; its number on the wire is
  \<open>k\<close> modulo \<open>2 ^ 16\<close>. Whatever order packets come in, and however often, the application gets them in
  order and once.
\<close>

section \<open>Numbers modulo $2^{16}$\<close>

lemma unat_diff_num:
  fixes R k :: nat
  assumes "R \<le> k" "k - R < 65536"
  shows "unat (word_of_nat k - word_of_nat R :: u16) = k - R"
proof -
  have "word_of_nat k - word_of_nat R = (word_of_nat (k - R) :: u16)" using assms(1) by (simp add: of_nat_diff)
  then show ?thesis using assms(2) by (simp add: unat_of_nat)
qed

lemma unat_diff_old:
  fixes R k :: nat
  assumes "k < R" "R - k < 65536"
  shows "unat (word_of_nat k - word_of_nat R :: u16) = 65536 - (R - k)"
proof -
  have "(word_of_nat k - word_of_nat R :: u16) = word_of_nat (k + 65536) - word_of_nat R" by simp
  also have "unat \<dots> = k + 65536 - R" using assms by (intro unat_diff_num) auto
  finally show ?thesis using assms by simp
qed

lemma num_eq_iff:
  fixes a b :: nat
  assumes "a \<le> b + 65535" "b \<le> a + 65535"
  shows "(word_of_nat a :: u16) = word_of_nat b \<longleftrightarrow> a = b"
proof
  assume e: "(word_of_nat a :: u16) = word_of_nat b"
  show "a = b"
  proof (rule ccontr)
    assume "a \<noteq> b"
    then consider "a < b" | "b < a" by linarith
    then show False
    proof cases
      case 1
      then have "unat (word_of_nat b - word_of_nat a :: u16) = b - a" using assms by (intro unat_diff_num) auto
      then show ?thesis using e 1 by simp
    next
      case 2
      then have "unat (word_of_nat a - word_of_nat b :: u16) = a - b" using assms by (intro unat_diff_num) auto
      then show ?thesis using e 2 by simp
    qed
  qed
qed simp

text \<open>The test for an interval that may wrap around is a comparison of distances.\<close>

lemma incl_between:
  fixes x a b :: u16
  shows "INCL_BETWEEN (uint x) (uint a) (uint b) \<longleftrightarrow> unat (x - a) \<le> unat (b - a)"
proof -
  have b: "0 \<le> uint z" "uint z < 2 ^ 16" for z :: u16 using uint_lt2p [of z] by simp_all
  have u: "int (unat z) = uint z" for z :: u16 by simp
  have "uint (x - a) = (if uint a \<le> uint x then uint x - uint a else uint x - uint a + 2 ^ 16)"
      "uint (b - a) = (if uint a \<le> uint b then uint b - uint a else uint b - uint a + 2 ^ 16)"
    by (simp_all add: uint_sub_if')
  moreover have "INCL_BETWEEN X A B \<longleftrightarrow> (if A \<le> X then X - A else X - A + 2 ^ 16) \<le> (if A \<le> B then B - A else B - A + 2 ^ 16)"
    if "0 \<le> X" "X < 2 ^ 16" "0 \<le> A" "A < 2 ^ 16" "0 \<le> B" "B < 2 ^ 16" for X A B
    using that by (auto simp: INCL_BETWEEN_def)
  ultimately have "INCL_BETWEEN (uint x) (uint a) (uint b) \<longleftrightarrow> uint (x - a) \<le> uint (b - a)" using b by presburger
  then show ?thesis by (simp add: word_le_def [symmetric] word_le_nat_alt)
qed

text \<open>
  The receive window has the numbers that are at most 2501 ahead; 2502 when its end has wrapped
  around, as \<open>MAX_SEQ_NUM\<close> is subtracted and not \<open>2 ^ 16\<close>.
\<close>

lemma recv_window_end:
  fixes r :: u16
  shows "\<exists>e :: u16. uint e = recv_win_wrap (uint r + rdma_default_ud_recvwin_size) \<and> 2501 \<le> unat (e - r) \<and> unat (e - r) \<le> 2502"
proof -
  have r: "0 \<le> uint r" "uint r < 65536" using uint_lt2p [of r] by simp_all
  show ?thesis
  proof (cases "uint r + 2501 > 65535")
    case False
    let ?e = "r + 2501"
    have "uint ?e = uint r + 2501" using False r by (simp add: uint_plus_if')
    moreover have "unat (?e - r) = 2501" by simp
    ultimately show ?thesis using False by (intro exI [of _ ?e]) (simp add: rdma_default_ud_recvwin_size_def MAX_SEQ_NUM_def)
  next
    case True
    let ?e = "r + 2502"
    have "uint ?e = uint r + 2501 - 65535" using True r by (simp add: uint_plus_if')
    moreover have "unat (?e - r) = 2502" by simp
    moreover have "recv_win_wrap (uint r + 2501) = uint r + 2501 - 65535" using True r by (simp add: MAX_SEQ_NUM_def)
    ultimately show ?thesis by (intro exI [of _ ?e]) (simp add: rdma_default_ud_recvwin_size_def)
  qed
qed

lemma in_recv_window:
  assumes "R \<le> k + 60000" "k \<le> R + 2501"
  shows "INCL_BETWEEN (uint (word_of_nat k :: u16)) (uint (word_of_nat R :: u16)) (recv_win_wrap (uint (word_of_nat R :: u16) + rdma_default_ud_recvwin_size))
    \<longleftrightarrow> R \<le> k"
proof -
  obtain e :: u16 where e: "uint e = recv_win_wrap (uint (word_of_nat R :: u16) + rdma_default_ud_recvwin_size)"
      "2501 \<le> unat (e - word_of_nat R)" "unat (e - word_of_nat R) \<le> 2502"
    using recv_window_end by blast
  have "unat (word_of_nat k - word_of_nat R :: u16) \<le> unat (e - word_of_nat R) \<longleftrightarrow> R \<le> k"
  proof (cases "R \<le> k")
    case True
    then show ?thesis using unat_diff_num [OF True] assms e(2) by simp
  next
    case False
    then show ?thesis using unat_diff_old [of k R] assms e(3) by simp
  qed
  then show ?thesis by (simp only: e(1) [symmetric] incl_between)
qed

section \<open>The receiving side of a channel\<close>

definition body :: "vbuf \<Rightarrow> 8 word \<times> byte list" where
  "body b = (ptype (header b), payload b)"

text \<open>
  \<open>R\<close> packets have been put in order; the last of them, \<open>as\<close>, are still to be read by the application. The
  receive window \<open>xs\<close> has later ones, whose numbers are \<open>num\<close>.
\<close>

definition in_order :: "(nat \<Rightarrow> 8 word \<times> byte list) \<Rightarrow> vheap \<Rightarrow> nat \<Rightarrow> nat list \<Rightarrow> bool" where
  "in_order msgs h R as \<longleftrightarrow> length as \<le> R \<and> map (\<lambda>a. body (the (h a))) as = map msgs [R - length as..<R]"

definition ahead :: "(nat \<Rightarrow> 8 word \<times> byte list) \<Rightarrow> vheap \<Rightarrow> nat \<Rightarrow> nat list \<Rightarrow> (nat \<Rightarrow> nat) \<Rightarrow> bool" where
  "ahead msgs h R xs num \<longleftrightarrow> sorted_wrt (\<lambda>a b. num a < num b) xs
     \<and> (\<forall>a\<in>set xs. R \<le> num a \<and> num a \<le> R + 2501 \<and> seq_of h a = word_of_nat (num a) \<and> body (the (h a)) = msgs (num a))"

definition recv_inv :: "(nat \<Rightarrow> 8 word \<times> byte list) \<Rightarrow> vheap \<Rightarrow> vc \<Rightarrow> nat \<Rightarrow> nat list \<Rightarrow> nat list \<Rightarrow> (nat \<Rightarrow> nat) \<Rightarrow> bool" where
  "recv_inv msgs h vc R as xs num \<longleftrightarrow> apprecv_list h (app_recv_window vc) as \<and> q_count (app_recv_window vc) = word_of_nat (length as)
     \<and> recvwin_list h (recv_window vc) xs \<and> set as \<inter> set xs = {} \<and> seqnum_next_torecv vc = word_of_nat R
     \<and> in_order msgs h R as \<and> ahead msgs h R xs num"

text \<open>All of a buffer but its links in the two queues of this side.\<close>

definition others :: "vbuf \<Rightarrow> vbuf" where
  "others b = b\<lparr>apprecvwin_msg := \<lparr>lnext = NULL, lprev = NULL\<rparr>, recvwin_msg := \<lparr>lnext = NULL, lprev = NULL\<rparr>\<rparr>"

lemma others_upd [simp]: "others (apprecvwin_msg_update f b) = others b" "others (recvwin_msg_update f b) = others b"
  by (simp_all add: others_def)

lemma others_obs [simp]: "body (others b) = body b" "seqnum (others b) = seqnum b"
  by (simp_all add: others_def body_def)

lemma others_flags [simp]: "flags (others b) = flags b"
  by (simp add: others_def)

lemma others_body: "others b = others c \<Longrightarrow> body b = body c" "others b = others c \<Longrightarrow> seqnum b = seqnum c"
  using others_obs by metis+

lemma keeps_others_obs: "keeps others h h' \<Longrightarrow> (\<And>b. g (others b) = g b) \<Longrightarrow> keeps g h h'"
proof -
  assume k: "keeps others h h'" and g: "\<And>b. g (others b) = g b"
  have "map_option g m = map_option g (map_option others m)" for m using g by (cases m) simp_all
  then show ?thesis using k unfolding keeps_def by metis
qed

lemma keeps_others:
  assumes "keeps others h h'" "h a = Some b"
  shows "\<exists>c. h' a = Some c \<and> body c = body b \<and> seqnum c = seqnum b"
  using keeps_get [OF assms] others_body by metis

lemma in_order_keeps: "keeps others h h' \<Longrightarrow> \<forall>a\<in>set as. h a \<noteq> None \<Longrightarrow> in_order msgs h R as \<Longrightarrow> in_order msgs h' R as"
proof -
  assume k: "keeps others h h'" and a: "\<forall>a\<in>set as. h a \<noteq> None" and i: "in_order msgs h R as"
  have "map (\<lambda>a. body (the (h' a))) as = map (\<lambda>a. body (the (h a))) as"
    using a keeps_others [OF k] by (intro map_cong) fastforce+
  then show ?thesis using i by (simp add: in_order_def del: map_eq_conv)
qed

lemma ahead_keeps: "keeps others h h' \<Longrightarrow> \<forall>a\<in>set xs. h a \<noteq> None \<Longrightarrow> ahead msgs h R xs num \<Longrightarrow> ahead msgs h' R xs num"
proof -
  assume k: "keeps others h h'" and x: "\<forall>a\<in>set xs. h a \<noteq> None" and i: "ahead msgs h R xs num"
  have "seq_of h' a = seq_of h a \<and> body (the (h' a)) = body (the (h a))" if "a \<in> set xs" for a
    using x that keeps_others [OF k, of a] by fastforce
  then show ?thesis using i by (simp add: ahead_def)
qed

lemma chain_alloc: "chain nx h q xs \<Longrightarrow> \<forall>a\<in>set xs. h a \<noteq> None"
  by (auto simp: chain_def)

lemma ahead_sorted:
  assumes "ahead msgs h R xs num" "\<forall>a\<in>set xs. num a \<noteq> R"
  shows "window_sorted h (word_of_nat R) xs"
proof -
  have n: "unat (seq_of h a - word_of_nat R) = num a - R" "seq_of h a \<noteq> word_of_nat R" if "a \<in> set xs" for a
    using that assms unat_diff_num [of R "num a"] num_eq_iff [of "num a" R] by (auto simp: ahead_def)
  have "sorted_wrt (\<lambda>a b. seq_of h a - word_of_nat R < seq_of h b - word_of_nat R) xs"
  proof (rule sorted_wrt_mono_rel [of xs "\<lambda>a b. num a < num b"])
    fix a b assume ab: "a \<in> set xs" "b \<in> set xs" "num a < num b"
    then have "num a - R < num b - R" using assms by (auto simp: ahead_def)
    then show "seq_of h a - word_of_nat R < seq_of h b - word_of_nat R" using n ab by (simp add: word_less_nat_alt)
  qed (use assms in \<open>simp add: ahead_def\<close>)
  then show ?thesis using n by (simp add: window_sorted_def)
qed

section \<open>Moving packets to the application\<close>

text \<open>All of a channel but what this side keeps.\<close>

definition vc_others :: "vc \<Rightarrow> vc" where
  "vc_others vc = vc\<lparr>app_recv_window := MESSAGE_QUEUE_INIT, recv_window := MESSAGE_QUEUE_INIT, seqnum_next_torecv := 0,
     seqnum_next_toack := 0, ack_need_tosend := False\<rparr>"

text \<open>Only the buffers and this channel change.\<close>

definition framed :: "nat \<Rightarrow> ib \<Rightarrow> ib \<Rightarrow> vc \<Rightarrow> bool" where
  "framed vcp s s' vc' \<longleftrightarrow> s' = s\<lparr>vbufs := vbufs s', vcs := (vcs s)(vcp \<mapsto> vc')\<rparr>"

lemma framed_refl: "vcs s vcp = Some vc \<Longrightarrow> framed vcp s s vc"
  unfolding framed_def by (simp only: map_upd_triv) simp

lemma framed_upd: "framed vcp s (s\<lparr>vbufs := h, vcs := (vcs s)(vcp \<mapsto> vc')\<rparr>) vc'"
  by (simp add: framed_def)

lemma framed_vc: "framed vcp s s' vc' \<Longrightarrow> vcs s' = (vcs s)(vcp \<mapsto> vc')"
  unfolding framed_def by (metis ib.select_convs(2) ib.surjective ib.update_convs(2))

lemma framed_trans: "framed vcp s s1 vc1 \<Longrightarrow> framed vcp s1 s2 vc2 \<Longrightarrow> framed vcp s s2 vc2"
proof -
  assume a: "framed vcp s s1 vc1" "framed vcp s1 s2 vc2"
  have "s2 = s1\<lparr>vbufs := vbufs s2, vcs := (vcs s1)(vcp \<mapsto> vc2)\<rparr>" using a(2) by (simp add: framed_def)
  also have "\<dots> = s1\<lparr>vbufs := vbufs s2, vcs := (vcs s)(vcp \<mapsto> vc2)\<rparr>" using framed_vc [OF a(1)] by simp
  also have "\<dots> = s\<lparr>vbufs := vbufs s1, vcs := (vcs s)(vcp \<mapsto> vc1), vbufs := vbufs s2, vcs := (vcs s)(vcp \<mapsto> vc2)\<rparr>"
    using a(1) unfolding framed_def by metis
  finally show ?thesis by (simp add: framed_def)
qed

lemma app_recv_step:
  assumes vc: "vcs s vcp = Some vc" and c: "apprecv_list (vbufs s) (app_recv_window vc) as" "v \<notin> set as" "vbufs s v = Some b"
  shows "\<exists>q h. app_recv vcp v s = Some (s\<lparr>vbufs := h, vcs := (vcs s)(vcp \<mapsto> vc\<lparr>app_recv_window := q\<rparr>)\<rparr>) \<and> apprecv_list h q (as @ [v])
    \<and> q_count q = q_count (app_recv_window vc) + 1 \<and> keeps others (vbufs s) h \<and> keeps recvwin_msg (vbufs s) h"
proof -
  obtain q h where q: "apprecv_window_add (app_recv_window vc) v (vbufs s) = Some (q, h)" "apprecv_list h q (as @ [v])"
      "q_count q = q_count (app_recv_window vc) + 1"
    using apprecv_window_add_ok [OF c(1,3,2)] by blast
  have "keeps others (vbufs s) h" "keeps recvwin_msg (vbufs s) h" by (rule apprecv_window_add_keeps [OF q(1)]; simp)+
  then show ?thesis using q vc by (auto simp: app_recv_def put_vc_def)
qed

lemma in_order_snoc:
  assumes "in_order msgs h R as" "body (the (h v)) = msgs R"
  shows "in_order msgs h (Suc R) (as @ [v])"
proof -
  have "length as \<le> R" and m: "map (\<lambda>a. body (the (h a))) as = map msgs [R - length as..<R]" using assms(1) by (auto simp: in_order_def)
  then have "[Suc R - length (as @ [v])..<Suc R] = [R - length as..<R] @ [R]" by simp
  then show ?thesis using assms(2) m \<open>length as \<le> R\<close> by (simp add: in_order_def del: map_eq_conv)
qed

lemma ahead_tl:
  assumes "ahead msgs h R (v # xs) num" "num v = R"
  shows "ahead msgs h (Suc R) xs num"
  using assms by (auto simp: ahead_def)

lemma recvwin_keeps: "keeps recvwin_msg h h' \<Longrightarrow> recvwin_list h q xs \<Longrightarrow> recvwin_list h' q xs"
proof -
  assume k: "keeps recvwin_msg h h'" and c: "recvwin_list h q xs"
  have "map_option (\<lambda>v. f (recvwin_msg v)) m = map_option f (map_option recvwin_msg m)" for f :: "link \<Rightarrow> ptr" and m by (cases m) simp_all
  then have "keeps (\<lambda>v. lnext (recvwin_msg v)) h h'" "keeps (\<lambda>v. lprev (recvwin_msg v)) h h'"
    using k unfolding keeps_def by metis+
  then show ?thesis using c chain_cong backs_cong keeps_same_on by metis
qed

lemma apprecv_keeps: "keeps apprecvwin_msg h h' \<Longrightarrow> apprecv_list h q xs \<Longrightarrow> apprecv_list h' q xs"
proof -
  assume k: "keeps apprecvwin_msg h h'" and c: "apprecv_list h q xs"
  have "map_option (\<lambda>v. f (apprecvwin_msg v)) m = map_option f (map_option apprecvwin_msg m)" for f :: "link \<Rightarrow> ptr" and m by (cases m) simp_all
  then have "keeps (\<lambda>v. lnext (apprecvwin_msg v)) h h'" using k unfolding keeps_def by metis
  then show ?thesis using c chain_cong keeps_same_on by metis
qed

text \<open>One pass of the loop.\<close>

lemma move_one:
  assumes vc: "vcs s vcp = Some vc" and i: "recv_inv msgs (vbufs s) vc R as (v # xs) num" and n: "num v = R"
  shows "\<exists>s' vc'. move_recvwin vcp s = move_recvwin vcp s' \<and> framed vcp s s' vc'
    \<and> recv_inv msgs (vbufs s') vc' (Suc R) (as @ [v]) xs num \<and> keeps others (vbufs s) (vbufs s')
    \<and> seqnum_next_toack vc' = word_of_nat R \<and> ack_need_tosend vc' = ack_need_tosend vc \<and> vc_others vc' = vc_others vc"
proof -
  have I: "apprecv_list (vbufs s) (app_recv_window vc) as" "q_count (app_recv_window vc) = word_of_nat (length as)"
      "recvwin_list (vbufs s) (recv_window vc) (v # xs)" "set as \<inter> set (v # xs) = {}" "seqnum_next_torecv vc = word_of_nat R"
      "in_order msgs (vbufs s) R as" "ahead msgs (vbufs s) R (v # xs) num"
    using i by (auto simp: recv_inv_def)
  obtain b where b: "vbufs s v = Some b" using chain_alloc [OF conjunct1 [OF I(3)]] by auto
  have sb: "seqnum b = word_of_nat R" "body b = msgs R" using I(7) n b by (auto simp: ahead_def)
  have va: "v \<notin> set as" using I(4) by auto
  obtain q1 h1 where s1: "app_recv vcp v s = Some (s\<lparr>vbufs := h1, vcs := (vcs s)(vcp \<mapsto> vc\<lparr>app_recv_window := q1\<rparr>)\<rparr>)"
      "apprecv_list h1 q1 (as @ [v])" "q_count q1 = q_count (app_recv_window vc) + 1" "keeps others (vbufs s) h1" "keeps recvwin_msg (vbufs s) h1"
    using app_recv_step [OF vc I(1) va b] by blast
  have "recvwin_list h1 (recv_window vc) (v # xs)" by (rule recvwin_keeps [OF s1(5) I(3)])
  then obtain q2 h2 where s2: "recv_window_remove (recv_window vc) h1 = Some (q2, h2)" "recvwin_list h2 q2 xs" using recv_window_remove_ok by blast
  have k2: "keeps others h1 h2" "keeps apprecvwin_msg h1 h2" by (rule recv_window_remove_keeps [OF s2(1)]; simp)+
  have k: "keeps others (vbufs s) h2" using s1(4) k2(1) keeps_trans by blast
  let ?vc = "advance (vc\<lparr>app_recv_window := q1, recv_window := q2\<rparr>)"
  let ?s = "s\<lparr>vbufs := h2, vcs := (vcs s)(vcp \<mapsto> ?vc)\<rparr>"
  have hd: "q_head (recv_window vc) = Some v" using chainD(2) [OF conjunct1 [OF I(3)]] by simp
  have "move_recvwin vcp s = move_recvwin vcp ?s"
    using vc hd b sb(1) I(5) s1(1) s2(1) by (subst move_recvwin.simps) (simp add: put_vc_def)
  moreover have "recv_inv msgs h2 ?vc (Suc R) (as @ [v]) xs num"
    unfolding recv_inv_def
  proof (intro conjI)
    show "apprecv_list h2 (app_recv_window ?vc) (as @ [v])" using apprecv_keeps [OF k2(2) s1(2)] by (simp add: advance_def)
    show "chain (\<lambda>v. lnext (recvwin_msg v)) h2 (recv_window ?vc) xs" "backs (\<lambda>v. lprev (recvwin_msg v)) h2 xs"
      using s2(2) by (simp_all add: advance_def)
    have "in_order msgs (vbufs s) (Suc R) (as @ [v])" using in_order_snoc [OF I(6)] sb(2) b by simp
    then show "in_order msgs h2 (Suc R) (as @ [v])" using in_order_keeps [OF k] chain_alloc [OF I(1)] b by auto
    have "ahead msgs (vbufs s) (Suc R) xs num" by (rule ahead_tl [OF I(7) n])
    then show "ahead msgs h2 (Suc R) xs num" using ahead_keeps [OF k] chain_alloc [OF conjunct1 [OF I(3)]] by auto
    show "set (as @ [v]) \<inter> set xs = {}" using I(4) chainD(1) [OF conjunct1 [OF I(3)]] by auto
  qed (use I(2,5) s1(3) in \<open>simp_all add: advance_def\<close>)
  moreover have "seqnum_next_toack ?vc = word_of_nat R \<and> ack_need_tosend ?vc = ack_need_tosend vc \<and> vc_others ?vc = vc_others vc"
    using I(5) by (simp add: advance_def vc_others_def)
  ultimately show ?thesis using k framed_upd by (intro exI [of _ ?s] exI [of _ ?vc]) simp
qed

text \<open>The loop ends, with a window whose first packet is not the one expected.\<close>

lemma move_none:
  assumes vc: "vcs s vcp = Some vc" and i: "recv_inv msgs (vbufs s) vc R as xs num" and n: "\<forall>a\<in>set (take 1 xs). num a \<noteq> R"
  shows "move_recvwin vcp s = Some s" "\<forall>a\<in>set xs. num a \<noteq> R"
proof -
  have I: "recvwin_list (vbufs s) (recv_window vc) xs" "seqnum_next_torecv vc = word_of_nat R" "ahead msgs (vbufs s) R xs num"
    using i by (auto simp: recv_inv_def)
  show "move_recvwin vcp s = Some s"
  proof (cases xs)
    case Nil
    then have "q_head (recv_window vc) = None" using chainD(2) [OF conjunct1 [OF I(1)]] by simp
    then show ?thesis using vc by (subst move_recvwin.simps) simp
  next
    case (Cons v ys)
    then have hd: "q_head (recv_window vc) = Some v" using chainD(2) [OF conjunct1 [OF I(1)]] by simp
    obtain b where b: "vbufs s v = Some b" using Cons chain_alloc [OF conjunct1 [OF I(1)]] by auto
    have a: "num v \<noteq> R" "R \<le> num v" "num v \<le> R + 2501" "seqnum b = word_of_nat (num v)" using Cons n I(3) b by (auto simp: ahead_def)
    then have "seqnum b \<noteq> seqnum_next_torecv vc" using I(2) num_eq_iff [of "num v" R] by simp
    then show ?thesis using vc hd b by (subst move_recvwin.simps) simp
  qed
  show "\<forall>a\<in>set xs. num a \<noteq> R"
  proof (cases xs)
    case (Cons v ys)
    then have "R < num v" "\<forall>a\<in>set ys. num v < num a" using n I(3) by (auto simp: ahead_def)
    then show ?thesis using Cons by auto
  qed simp
qed

lemma move_recvwin_ok:
  assumes "vcs s vcp = Some vc" "recv_inv msgs (vbufs s) vc R as xs num"
  shows "\<exists>s' vc' bs ys. move_recvwin vcp s = Some s' \<and> framed vcp s s' vc' \<and> xs = bs @ ys \<and> map num bs = [R..<R + length bs]
    \<and> recv_inv msgs (vbufs s') vc' (R + length bs) (as @ bs) ys num \<and> (\<forall>a\<in>set ys. num a \<noteq> R + length bs) \<and> keeps others (vbufs s) (vbufs s')
    \<and> (seqnum_next_toack vc = word_of_nat R - 1 \<longrightarrow> seqnum_next_toack vc' = word_of_nat (R + length bs) - 1)
    \<and> ack_need_tosend vc' = ack_need_tosend vc \<and> vc_others vc' = vc_others vc"
  using assms
proof (induction xs arbitrary: s vc R as)
  case Nil
  have "move_recvwin vcp s = Some s" by (rule move_none(1) [OF Nil]) simp
  then show ?case using Nil framed_refl by (intro exI [of _ s] exI [of _ vc] exI [of _ "[]"]) simp
next
  case (Cons v xs)
  show ?case
  proof (cases "num v = R")
    case False
    have m: "move_recvwin vcp s = Some s" "\<forall>a\<in>set (v # xs). num a \<noteq> R" using False by (intro move_none [OF Cons.prems]; simp)+
    then show ?thesis using Cons.prems framed_refl by (intro exI [of _ s] exI [of _ vc] exI [of _ "[]"] exI [of _ "v # xs"]) simp
  next
    case True
    obtain s1 vc1 where s1: "move_recvwin vcp s = move_recvwin vcp s1" "framed vcp s s1 vc1"
        "recv_inv msgs (vbufs s1) vc1 (Suc R) (as @ [v]) xs num" "keeps others (vbufs s) (vbufs s1)" "seqnum_next_toack vc1 = word_of_nat R"
        "ack_need_tosend vc1 = ack_need_tosend vc" "vc_others vc1 = vc_others vc"
      using move_one [OF Cons.prems True] by blast
    have "vcs s1 vcp = Some vc1" using framed_vc [OF s1(2)] by simp
    from Cons.IH [OF this s1(3)]
    obtain s' vc' bs ys where s': "move_recvwin vcp s1 = Some s'" "framed vcp s1 s' vc'" "xs = bs @ ys \<and> map num bs = [Suc R..<Suc R + length bs]"
        "recv_inv msgs (vbufs s') vc' (Suc R + length bs) ((as @ [v]) @ bs) ys num" "\<forall>a\<in>set ys. num a \<noteq> Suc R + length bs"
        "keeps others (vbufs s1) (vbufs s')"
        "seqnum_next_toack vc1 = word_of_nat (Suc R) - 1 \<longrightarrow> seqnum_next_toack vc' = word_of_nat (Suc R + length bs) - 1"
        "ack_need_tosend vc' = ack_need_tosend vc1" "vc_others vc' = vc_others vc1"
      by blast
    have "map num (v # bs) = [R..<R + length (v # bs)]" using s'(3) True upt_conv_Cons [of R "Suc R + length bs"] by simp
    moreover have "framed vcp s s' vc'" by (rule framed_trans [OF s1(2) s'(2)])
    moreover have "seqnum_next_toack vc' = word_of_nat (Suc R + length bs) - 1" using s'(7) s1(5) by simp
    moreover have "keeps others (vbufs s) (vbufs s')" using s1(4) s'(6) keeps_trans by blast
    ultimately show ?thesis using s1(1,6,7) s'(1,3,4,5,8,9) by (intro exI [of _ s'] exI [of _ vc'] exI [of _ "v # bs"] exI [of _ ys]) simp
  qed
qed

section \<open>Placing a packet\<close>

text \<open>A buffer that is in no queue does not matter.\<close>

lemma recv_inv_upd:
  assumes i: "recv_inv msgs h vc R as xs num" and v: "v \<notin> set as" "v \<notin> set xs"
  shows "recv_inv msgs (h(v \<mapsto> b)) vc R as xs (num(v := k))"
proof -
  have "apprecv_list (h(v \<mapsto> b)) (app_recv_window vc) as" using i v chain_upd by (auto simp: recv_inv_def)
  moreover have "recvwin_list (h(v \<mapsto> b)) (recv_window vc) xs" using i v chain_upd backs_upd by (auto simp: recv_inv_def)
  moreover have "in_order msgs (h(v \<mapsto> b)) R as"
  proof -
    have "map (\<lambda>a. body (the ((h(v \<mapsto> b)) a))) as = map (\<lambda>a. body (the (h a))) as" using v(1) by (intro map_cong) auto
    then show ?thesis using i by (simp add: recv_inv_def in_order_def del: map_eq_conv)
  qed
  moreover have "ahead msgs (h(v \<mapsto> b)) R xs (num(v := k))"
  proof -
    have "sorted_wrt (\<lambda>a b. num a < num b) xs" using i by (simp add: recv_inv_def ahead_def)
    then have "sorted_wrt (\<lambda>a b. (num(v := k)) a < (num(v := k)) b) xs" by (rule sorted_wrt_mono_rel [rotated]) (use v(2) in auto)
    then show ?thesis using i v(2) by (auto simp: recv_inv_def ahead_def)
  qed
  ultimately show ?thesis using i by (simp add: recv_inv_def)
qed

text \<open>What is left of a buffer that goes back to the free list.\<close>

definition freed :: "ptr \<Rightarrow> vbuf \<Rightarrow> vbuf" where
  "freed p b = b\<lparr>desc_next := p, content_size := 0, vbuf_vc := NULL\<rparr>"

lemma vbuf_release_idle:
  assumes "vbufs s v = Some b" "and (flags b) UD_VBUF_SEND_INPROGRESS = 0" "free_head s \<noteq> Some v"
  shows "vbuf_release v s = Some (s\<lparr>vbufs := (vbufs s)(v \<mapsto> freed (free_head s) b), free_head := Some v\<rparr>)"
  using assms by (simp add: vbuf_release_def put_vbuf_def write_vbuf_def freed_def)

text \<open>A buffer that has just come in, with packet \<open>k\<close>, not too old and not too far ahead.\<close>

definition arrived :: "(nat \<Rightarrow> 8 word \<times> byte list) \<Rightarrow> ib \<Rightarrow> nat \<Rightarrow> nat \<Rightarrow> nat \<Rightarrow> bool" where
  "arrived msgs s vcp v k \<longleftrightarrow> (case vbufs s v of None \<Rightarrow> False
    | Some b \<Rightarrow> vbuf_vc b = Some vcp \<and> seqnum b = word_of_nat k \<and> body b = msgs k \<and> and (flags b) UD_VBUF_SEND_INPROGRESS = 0) \<and> free_head s \<noteq> Some v"

text \<open>What a step of the receiver promises: the packets it has are the old ones and \<open>k\<close>.\<close>

definition got :: "nat \<Rightarrow> nat list \<Rightarrow> (nat \<Rightarrow> nat) \<Rightarrow> nat set" where
  "got R xs num = {..<R} \<union> num ` set xs"

lemma got_app:
  assumes "map num bs = [R..<R + length bs]"
  shows "got R (bs @ ys) num = got (R + length bs) ys num"
proof -
  have "num ` set bs = {R..<R + length bs}" using arg_cong [OF assms, of set] by simp
  then show ?thesis by (auto simp: got_def)
qed

definition settled :: "nat \<Rightarrow> nat list \<Rightarrow> (nat \<Rightarrow> nat) \<Rightarrow> bool" where
  "settled R xs num \<longleftrightarrow> (\<forall>a\<in>set xs. num a \<noteq> R)"

text \<open>All buffers but one keep what this side does not use.\<close>

definition keeps_but :: "nat \<Rightarrow> vheap \<Rightarrow> vheap \<Rightarrow> bool" where
  "keeps_but v h h' \<longleftrightarrow> (\<forall>a. a \<noteq> v \<longrightarrow> map_option others (h' a) = map_option others (h a))"

lemma keeps_but_keeps: "keeps others h h' \<Longrightarrow> keeps_but v h h'"
  by (simp add: keeps_but_def keeps_def)

lemma keeps_but_trans: "keeps_but v h h1 \<Longrightarrow> keeps_but v h1 h2 \<Longrightarrow> keeps_but v h h2"
  by (simp add: keeps_but_def)

lemma keeps_but_upd: "keeps_but v h (h(v \<mapsto> b))"
  by (simp add: keeps_but_def)

text \<open>The three ways a packet goes: to the application, to the window, or back to the free list.\<close>

definition entered :: "(nat \<Rightarrow> 8 word \<times> byte list) \<Rightarrow> ib \<Rightarrow> nat \<Rightarrow> vc \<Rightarrow> nat \<Rightarrow> nat list \<Rightarrow> nat list \<Rightarrow> (nat \<Rightarrow> nat) \<Rightarrow> nat \<Rightarrow> nat
    \<Rightarrow> ib \<Rightarrow> vc \<Rightarrow> nat list \<Rightarrow> nat list \<Rightarrow> bool" where
  "entered msgs s vcp vc R as xs num v k s' vc' bs ys \<longleftrightarrow> framed vcp (s\<lparr>free_head := free_head s'\<rparr>) s' vc'
     \<and> recv_inv msgs (vbufs s') vc' (R + length bs) (as @ bs) ys (num(v := k))
     \<and> got (R + length bs) ys (num(v := k)) = insert k (got R xs num)
     \<and> set bs \<union> set ys \<subseteq> insert v (set xs)
     \<and> (if v \<in> set bs \<union> set ys then free_head s' = free_head s else free_head s' = Some v)
     \<and> keeps_but v (vbufs s) (vbufs s') \<and> ack_need_tosend vc' \<and> vc_others vc' = vc_others vc
     \<and> (seqnum_next_toack vc = word_of_nat R - 1 \<longrightarrow> seqnum_next_toack vc' = word_of_nat (R + length bs) - 1)"

lemma got_upd: "v \<notin> set xs \<Longrightarrow> got R xs (num(v := k)) = got R xs num"
  by (auto simp: got_def)

lemma enter_next:
  assumes vc: "vcs s vcp = Some vc" and i: "recv_inv msgs (vbufs s) vc R as xs num" "settled R xs num"
    and v: "arrived msgs s vcp v R" "v \<notin> set as" "v \<notin> set xs"
  shows "\<exists>s' vc' bs ys. (app_recv vcp v s \<bind> put_vc vcp (\<lambda>vc. (advance vc)\<lparr>ack_need_tosend := True\<rparr>)) = Some s' \<and> entered msgs s vcp vc R as xs num v R s' vc' bs ys"
proof -
  obtain b where b: "vbufs s v = Some b" "body b = msgs R" using v(1) by (auto simp: arrived_def split: option.splits)
  have I: "apprecv_list (vbufs s) (app_recv_window vc) as" "recvwin_list (vbufs s) (recv_window vc) xs"
      "in_order msgs (vbufs s) R as" "ahead msgs (vbufs s) R xs num"
    using i by (auto simp: recv_inv_def)
  obtain q h where q: "app_recv vcp v s = Some (s\<lparr>vbufs := h, vcs := (vcs s)(vcp \<mapsto> vc\<lparr>app_recv_window := q\<rparr>)\<rparr>)"
      "apprecv_list h q (as @ [v])" "q_count q = q_count (app_recv_window vc) + 1" "keeps others (vbufs s) h" "keeps recvwin_msg (vbufs s) h"
    using app_recv_step [OF vc I(1) v(2) b(1)] by blast
  let ?vc = "(advance (vc\<lparr>app_recv_window := q\<rparr>))\<lparr>ack_need_tosend := True\<rparr>"
  let ?s = "s\<lparr>vbufs := h, vcs := (vcs s)(vcp \<mapsto> ?vc)\<rparr>"
  have "in_order msgs h (Suc R) (as @ [v])"
    using in_order_keeps [OF q(4) _ in_order_snoc [OF I(3)]] chain_alloc [OF I(1)] b by auto
  moreover have "ahead msgs h (Suc R) xs num"
    using ahead_keeps [OF q(4) _ I(4)] chain_alloc [OF conjunct1 [OF I(2)]] i(2) by (auto simp: ahead_def settled_def le_less Suc_le_eq)
  moreover have "recvwin_list h (recv_window vc) xs" by (rule recvwin_keeps [OF q(5) I(2)])
  ultimately have "recv_inv msgs h ?vc (Suc R) (as @ [v]) xs num"
    using i(1) q(2,3) v(3) by (simp add: recv_inv_def advance_def)
  then have "recv_inv msgs h ?vc (Suc R) (as @ [v]) xs (num(v := R))"
    using v(3) by (auto simp: recv_inv_def ahead_def elim!: sorted_wrt_mono_rel [rotated])
  moreover have "got (Suc R) xs (num(v := R)) = insert R (got R xs num)"
    using v(3) by (auto simp: got_upd) (auto simp: got_def)
  moreover have "framed vcp (s\<lparr>free_head := free_head ?s\<rparr>) ?s ?vc" by (simp add: framed_def)
  moreover have "keeps_but v (vbufs s) (vbufs ?s)" using keeps_but_keeps [OF q(4)] by simp
  moreover have "vc_others ?vc = vc_others vc" "seqnum_next_toack ?vc = word_of_nat (Suc R) - 1"
    using i(1) by (simp_all add: advance_def vc_others_def recv_inv_def)
  ultimately have "entered msgs s vcp vc R as xs num v R ?s ?vc [v] xs"
    unfolding entered_def by simp
  moreover have "(app_recv vcp v s \<bind> put_vc vcp (\<lambda>vc. (advance vc)\<lparr>ack_need_tosend := True\<rparr>)) = Some ?s"
    using q(1) by (simp add: put_vc_def)
  ultimately show ?thesis by blast
qed

text \<open>A packet that is thrown away.\<close>

lemma enter_drop:
  assumes vc: "vcs s vcp = Some vc" and i: "recv_inv msgs (vbufs s) vc R as xs num" "k \<in> got R xs num"
    and v: "arrived msgs s vcp v k" "v \<notin> set as" "v \<notin> set xs"
  shows "\<exists>s' vc'. (put_vbuf v (\<lambda>b. b\<lparr>content_size := 0\<rparr>) s \<bind> vbuf_release v \<bind> put_vc vcp (\<lambda>vc. vc\<lparr>ack_need_tosend := True\<rparr>)) = Some s'
    \<and> entered msgs s vcp vc R as xs num v k s' vc' [] xs"
proof -
  obtain b where b: "vbufs s v = Some b" "and (flags b) UD_VBUF_SEND_INPROGRESS = 0" "free_head s \<noteq> Some v"
    using v(1) by (auto simp: arrived_def split: option.splits)
  let ?b = "freed (free_head s) (b\<lparr>content_size := 0\<rparr>)"
  let ?vc = "vc\<lparr>ack_need_tosend := True\<rparr>"
  let ?s = "s\<lparr>vbufs := (vbufs s)(v \<mapsto> ?b), free_head := Some v, vcs := (vcs s)(vcp \<mapsto> ?vc)\<rparr>"
  have "recv_inv msgs (vbufs ?s) vc R as xs (num(v := k))" using recv_inv_upd [OF i(1) v(2,3)] by simp
  then have "recv_inv msgs (vbufs ?s) ?vc R as xs (num(v := k))" by (simp add: recv_inv_def)
  moreover have "got R xs (num(v := k)) = insert k (got R xs num)" using i(2) v(3) by (auto simp: got_upd)
  moreover have "framed vcp (s\<lparr>free_head := free_head ?s\<rparr>) ?s ?vc" by (simp add: framed_def)
  moreover have "keeps_but v (vbufs s) (vbufs ?s)" using keeps_but_upd by simp
  moreover have "vc_others ?vc = vc_others vc" by (simp add: vc_others_def)
  ultimately have "entered msgs s vcp vc R as xs num v k ?s ?vc [] xs"
    unfolding entered_def using v(3) by (simp add: subset_insertI)
  moreover have "(put_vbuf v (\<lambda>b. b\<lparr>content_size := 0\<rparr>) s \<bind> vbuf_release v \<bind> put_vc vcp (\<lambda>vc. vc\<lparr>ack_need_tosend := True\<rparr>)) = Some ?s"
    using b vc vbuf_release_idle [of "s\<lparr>vbufs := (vbufs s)(v \<mapsto> b\<lparr>content_size := 0\<rparr>)\<rparr>" v "b\<lparr>content_size := 0\<rparr>"]
    by (simp add: put_vbuf_def write_vbuf_def put_vc_def)
  ultimately show ?thesis by blast
qed

text \<open>The place of a packet in the window.\<close>

lemma ahead_insert:
  assumes a: "ahead msgs h R xs num" "settled R xs num" and v: "seq_of h v = word_of_nat k" "body (the (h v)) = msgs k" "v \<notin> set xs"
    and k: "R < k" "k \<le> R + 2501" "k \<notin> num ` set xs"
  shows "ahead msgs h R (earlier h (word_of_nat R) (word_of_nat k) xs @ v # later h (word_of_nat R) (word_of_nat k) xs) (num(v := k))"
proof -
  let ?E = "earlier h (word_of_nat R) (word_of_nat k) xs" and ?L = "later h (word_of_nat R) (word_of_nat k) xs"
  have srt: "window_sorted h (word_of_nat R) xs" using ahead_sorted a by (simp add: settled_def)
  have xs: "?E @ ?L = xs" by (rule earlier_later)
  have mem: "a \<in> set xs" if "a \<in> set ?E \<union> set ?L" for a using that arg_cong [OF xs, of set] by auto
  have n: "unat (seq_of h a - word_of_nat R) = num a - R" "R \<le> num a" if "a \<in> set xs" for a
    using that a unat_diff_num [of R "num a"] by (auto simp: ahead_def)
  have kR: "unat (word_of_nat k - word_of_nat R :: u16) = k - R" using k unat_diff_num [of R k] by simp
  have e: "num a < k" if m: "a \<in> set ?E" for a
    using window_sorted_split(1) [OF srt m] n [OF mem] m kR k by (simp add: word_less_nat_alt)
  have l: "k < num a" if m: "a \<in> set ?L" for a
  proof -
    have "k \<le> num a" using window_sorted_split(2) [OF srt m] n [OF mem] m kR k by (simp add: word_le_nat_alt)
    moreover have "num a \<noteq> k" using mem m k(3) by blast
    ultimately show ?thesis by simp
  qed
  have nv: "(num(v := k)) a = num a" if "a \<in> set ?E \<union> set ?L" for a using mem [OF that] v(3) by auto
  have "sorted_wrt (\<lambda>a b. num a < num b) (?E @ ?L)" using a(1) xs by (simp add: ahead_def)
  then have "sorted_wrt (\<lambda>a b. (num(v := k)) a < (num(v := k)) b) (?E @ ?L)" by (rule sorted_wrt_mono_rel [rotated]) (use nv in simp)
  then have "sorted_wrt (\<lambda>a b. (num(v := k)) a < (num(v := k)) b) (?E @ v # ?L)"
    using e l nv by (simp add: sorted_wrt_append fun_upd_same del: fun_upd_apply)
  moreover have "R \<le> num a \<and> num a \<le> R + 2501 \<and> seq_of h a = word_of_nat (num a) \<and> body (the (h a)) = msgs (num a)" if "a \<in> set ?E \<union> set ?L" for a
    using mem [OF that] a(1) by (simp add: ahead_def)
  ultimately show ?thesis using nv v k by (auto simp: ahead_def)
qed

lemma framed_free: "framed vcp s s1 vc1 \<Longrightarrow> free_head s1 = free_head s" "framed vcp s s1 vc1 \<Longrightarrow> framed vcp (s\<lparr>free_head := p\<rparr>) (s1\<lparr>free_head := p\<rparr>) vc1"
proof -
  assume "framed vcp s s1 vc1"
  then have e: "s1 = s\<lparr>vbufs := vbufs s1, vcs := (vcs s)(vcp \<mapsto> vc1)\<rparr>" by (simp add: framed_def)
  show "free_head s1 = free_head s" by (subst e) simp
  show "framed vcp (s\<lparr>free_head := p\<rparr>) (s1\<lparr>free_head := p\<rparr>) vc1" unfolding framed_def by (subst e) simp
qed

lemma entered_from:
  assumes "framed vcp s s1 vc1" "keeps others (vbufs s) (vbufs s1)" "vc_others vc1 = vc_others vc" "seqnum_next_toack vc1 = seqnum_next_toack vc"
    and e: "entered msgs s1 vcp vc1 R as xs num v k s' vc' bs ys"
  shows "entered msgs s vcp vc R as xs num v k s' vc' bs ys"
proof -
  have "framed vcp (s\<lparr>free_head := free_head s'\<rparr>) s' vc'" if "framed vcp (s1\<lparr>free_head := free_head s'\<rparr>) s' vc'"
    using framed_trans [OF framed_free(2) [OF assms(1)] that] .
  moreover have "keeps_but v (vbufs s) (vbufs s')" if "keeps_but v (vbufs s1) (vbufs s')"
    using keeps_but_trans [OF keeps_but_keeps [OF assms(2)] that] .
  moreover have "free_head s1 = free_head s" by (rule framed_free(1) [OF assms(1)])
  ultimately show ?thesis using e assms(3,4) unfolding entered_def by metis
qed

lemma recv_inv_window:
  assumes i: "recv_inv msgs h vc R as xs num" and k: "keeps others h h'" "keeps apprecvwin_msg h h'"
    and c: "recvwin_list h' q ys" "set as \<inter> set ys = {}" "ahead msgs h' R ys num'"
  shows "recv_inv msgs h' (vc\<lparr>recv_window := q\<rparr>) R as ys num'"
proof -
  have I: "apprecv_list h (app_recv_window vc) as" "in_order msgs h R as" using i by (auto simp: recv_inv_def)
  have "in_order msgs h' R as" by (rule in_order_keeps [OF k(1) chain_alloc [OF I(1)] I(2)])
  moreover have "apprecv_list h' (app_recv_window vc) as" by (rule apprecv_keeps [OF k(2) I(1)])
  ultimately show ?thesis using i c by (simp add: recv_inv_def)
qed

lemma ahead_found:
  assumes a: "ahead msgs h R xs num" and k: "R \<le> k" "k \<le> R + 2501"
  shows "(\<exists>e\<in>set xs. seq_of h e = word_of_nat k) \<longleftrightarrow> k \<in> num ` set xs"
proof -
  have "seq_of h e = word_of_nat k \<longleftrightarrow> k = num e" if "e \<in> set xs" for e
    using a that k num_eq_iff [of k "num e"] by (auto simp: ahead_def)
  then show ?thesis by auto
qed

lemma window_add_cases:
  assumes i: "recv_inv msgs (vbufs s) vc R as xs num" "settled R xs num"
    and v: "arrived msgs s vcp v k" "v \<notin> set xs" and k: "R < k" "k \<le> R + 2501"
  shows "if k \<in> num ` set xs
    then \<exists>h. recv_window_add (recv_window vc) v (seqnum_next_torecv vc) (vbufs s) = Some (MSG_IN_RECVWIN, recv_window vc, h) \<and> recvwin_list h (recv_window vc) xs
    else \<exists>q h ys. recv_window_add (recv_window vc) v (seqnum_next_torecv vc) (vbufs s) = Some (MSG_QUEUED_RECVWIN, q, h) \<and> recvwin_list h q ys
      \<and> set ys = insert v (set xs) \<and> ahead msgs (vbufs s) R ys (num(v := k))"
proof -
  obtain b where b: "vbufs s v = Some b" "seqnum b = word_of_nat k" "body b = msgs k"
    using v(1) by (auto simp: arrived_def split: option.splits)
  have I: "recvwin_list (vbufs s) (recv_window vc) xs" "ahead msgs (vbufs s) R xs num" "seqnum_next_torecv vc = word_of_nat R"
    using i by (auto simp: recv_inv_def)
  have srt: "window_sorted (vbufs s) (word_of_nat R) xs" using ahead_sorted [OF I(2)] i(2) by (simp add: settled_def)
  have nk: "seqnum b \<noteq> word_of_nat R" using b(2) k num_eq_iff [of k R] by simp
  have kR: "R \<le> k" using k(1) by simp
  let ?ys = "earlier (vbufs s) (word_of_nat R) (word_of_nat k) xs @ v # later (vbufs s) (word_of_nat R) (word_of_nat k) xs"
  have st: "set ?ys = insert v (set xs)" using arg_cong [OF earlier_later, of set "vbufs s" "word_of_nat R" "word_of_nat k" xs] by auto
  have "ahead msgs (vbufs s) R ?ys (num(v := k))" if "k \<notin> num ` set xs"
    by (rule ahead_insert [OF I(2) i(2)]) (use b v(2) k that in simp_all)
  then show ?thesis
    using recv_window_add_ok [OF I(1) srt b(1) v(2) nk, unfolded b(2) ahead_found [OF I(2) kR k(2)]] st unfolding I(3)
    by (cases "k \<in> num ` set xs") (simp_all only: if_True if_False simp_thms, blast+)
qed

lemma arrived_keeps:
  assumes "arrived msgs s vcp v k" "keeps others (vbufs s) h" "keeps flags (vbufs s) h" "keeps vbuf_vc (vbufs s) h" "free_head s' = free_head s" "vbufs s' = h"
  shows "arrived msgs s' vcp v k"
proof -
  obtain b where b: "vbufs s v = Some b" using assms(1) by (auto simp: arrived_def split: option.splits)
  obtain w where w: "h v = Some w" "others w = others b" using keeps_get [OF assms(2) b] by blast
  have "flags w = flags b" "vbuf_vc w = vbuf_vc b" "body w = body b" "seqnum w = seqnum b"
    using keeps_get [OF assms(3) b] keeps_get [OF assms(4) b] w others_body [OF w(2)] by auto
  then show ?thesis using assms(1,5,6) b w(1) by (simp add: arrived_def)
qed

lemma enter_dup:
  assumes vc: "vcs s vcp = Some vc" and i: "recv_inv msgs (vbufs s) vc R as xs num"
    and v: "arrived msgs s vcp v k" "v \<notin> set as" "v \<notin> set xs" "k \<in> num ` set xs"
    and h: "recv_window_add (recv_window vc) v (seqnum_next_torecv vc) (vbufs s) = Some (MSG_IN_RECVWIN, recv_window vc, h)" "recvwin_list h (recv_window vc) xs"
  shows "\<exists>s' vc' bs ys. place_ahead vcp vc v s = Some s' \<and> entered msgs s vcp vc R as xs num v k s' vc' bs ys"
proof -
  have I: "recvwin_list (vbufs s) (recv_window vc) xs" "ahead msgs (vbufs s) R xs num" "set as \<inter> set xs = {}"
    using i by (auto simp: recv_inv_def)
  have kp: "keeps others (vbufs s) h" "keeps apprecvwin_msg (vbufs s) h" "keeps flags (vbufs s) h" "keeps vbuf_vc (vbufs s) h"
    by (rule recv_window_add_keeps [OF h(1)]; simp)+
  let ?s = "s\<lparr>vbufs := h, vcs := (vcs s)(vcp \<mapsto> vc)\<rparr>"
  have "ahead msgs h R xs num" by (rule ahead_keeps [OF kp(1) chain_alloc [OF conjunct1 [OF I(1)]] I(2)])
  from recv_inv_window [OF i kp(1,2) h(2) I(3) this] have ri: "recv_inv msgs (vbufs ?s) vc R as xs num" by simp
  have ar: "arrived msgs ?s vcp v k" by (rule arrived_keeps [OF v(1) kp(1,3,4)]) simp_all
  have "k \<in> got R xs num" using v(4) by (simp add: got_def)
  from enter_drop [OF _ ri this ar v(2,3)] obtain s' vc' where
      s': "(put_vbuf v (\<lambda>b. b\<lparr>content_size := 0\<rparr>) ?s \<bind> vbuf_release v \<bind> put_vc vcp (\<lambda>vc. vc\<lparr>ack_need_tosend := True\<rparr>)) = Some s'"
      "entered msgs ?s vcp vc R as xs num v k s' vc' [] xs" by auto
  have e: "entered msgs s vcp vc R as xs num v k s' vc' [] xs"
    by (rule entered_from [OF framed_upd _ refl refl s'(2)]) (use kp(1) in simp)
  have "put_vc vcp (\<lambda>vc'. vc'\<lparr>recv_window := recv_window vc\<rparr>) (s\<lparr>vbufs := h\<rparr>) = Some ?s" using vc by (simp add: put_vc_def)
  then have "place_ahead vcp vc v s = Some s'" using s'(1) h(1) by (simp add: place_ahead_def)
  then show ?thesis using e by blast
qed

lemma enter_new:
  assumes vc: "vcs s vcp = Some vc" and i: "recv_inv msgs (vbufs s) vc R as xs num"
    and v: "arrived msgs s vcp v k" "v \<notin> set as" "v \<notin> set xs"
    and h: "recv_window_add (recv_window vc) v (seqnum_next_torecv vc) (vbufs s) = Some (MSG_QUEUED_RECVWIN, q, h)" "recvwin_list h q ys"
    and ys: "set ys = insert v (set xs)" "ahead msgs (vbufs s) R ys (num(v := k))"
  shows "\<exists>s' vc' bs ys. place_ahead vcp vc v s = Some s' \<and> entered msgs s vcp vc R as xs num v k s' vc' bs ys"
proof -
  have I: "recvwin_list (vbufs s) (recv_window vc) xs" "set as \<inter> set xs = {}" using i by (auto simp: recv_inv_def)
  have b: "vbufs s v \<noteq> None" using v(1) by (auto simp: arrived_def split: option.splits)
  have kp: "keeps others (vbufs s) h" "keeps apprecvwin_msg (vbufs s) h" by (rule recv_window_add_keeps [OF h(1)]; simp)+
  have "\<forall>a\<in>set ys. vbufs s a \<noteq> None" using ys(1) b chain_alloc [OF conjunct1 [OF I(1)]] by auto
  from ahead_keeps [OF kp(1) this ys(2)] have "ahead msgs h R ys (num(v := k))" .
  from recv_inv_window [OF i kp(1,2) h(2) _ this] have ri: "recv_inv msgs h (vc\<lparr>recv_window := q\<rparr>) R as ys (num(v := k))"
    using ys(1) I(2) v(2) by auto
  let ?vc = "vc\<lparr>recv_window := q, ack_need_tosend := True\<rparr>"
  let ?s = "s\<lparr>vbufs := h, vcs := (vcs s)(vcp \<mapsto> ?vc)\<rparr>"
  have "got R ys (num(v := k)) = insert k (got R xs num)" using v(3) unfolding got_def ys(1) by auto
  moreover have "recv_inv msgs (vbufs ?s) ?vc R as ys (num(v := k))" using ri by (simp add: recv_inv_def)
  moreover have "framed vcp (s\<lparr>free_head := free_head ?s\<rparr>) ?s ?vc" by (simp add: framed_def)
  moreover have "keeps_but v (vbufs s) (vbufs ?s)" using keeps_but_keeps [OF kp(1)] by simp
  moreover have "vc_others ?vc = vc_others vc" by (simp add: vc_others_def)
  ultimately have "entered msgs s vcp vc R as xs num v k ?s ?vc [] ys"
    unfolding entered_def by (simp add: ys(1))
  moreover have "place_ahead vcp vc v s = Some ?s" using h(1) vc by (simp add: place_ahead_def put_vc_def)
  ultimately show ?thesis by blast
qed

text \<open>What is in the window and is now in order follows it.\<close>

lemma entered_moved:
  assumes e: "entered msgs s vcp vc R as xs num v k s1 vc1 bs ys"
  shows "\<exists>s' vc' cs zs. move_recvwin vcp s1 = Some s' \<and> entered msgs s vcp vc R as xs num v k s' vc' (bs @ cs) zs \<and> settled (R + length (bs @ cs)) zs (num(v := k))"
proof -
  have E: "framed vcp (s\<lparr>free_head := free_head s1\<rparr>) s1 vc1" "recv_inv msgs (vbufs s1) vc1 (R + length bs) (as @ bs) ys (num(v := k))"
    using e by (auto simp: entered_def)
  have "vcs s1 vcp = Some vc1" using framed_vc [OF E(1)] by simp
  from move_recvwin_ok [OF this E(2)] obtain s' vc' cs zs where m: "move_recvwin vcp s1 = Some s'" "framed vcp s1 s' vc'" "ys = cs @ zs"
      "map (num(v := k)) cs = [R + length bs..<R + length bs + length cs]"
      "recv_inv msgs (vbufs s') vc' (R + length bs + length cs) ((as @ bs) @ cs) zs (num(v := k))"
      "\<forall>a\<in>set zs. (num(v := k)) a \<noteq> R + length bs + length cs" "keeps others (vbufs s1) (vbufs s')"
      "seqnum_next_toack vc1 = word_of_nat (R + length bs) - 1 \<longrightarrow> seqnum_next_toack vc' = word_of_nat (R + length bs + length cs) - 1"
      "ack_need_tosend vc' = ack_need_tosend vc1" "vc_others vc' = vc_others vc1"
    by blast
  have fh: "free_head s' = free_head s1" by (rule framed_free(1) [OF m(2)])
  have "framed vcp (s\<lparr>free_head := free_head s'\<rparr>) s' vc'" unfolding fh by (rule framed_trans [OF E(1) m(2)])
  moreover have "got (R + length bs + length cs) zs (num(v := k)) = got (R + length bs) ys (num(v := k))"
    using got_app [OF m(4)] m(3) by simp
  moreover have "keeps_but v (vbufs s) (vbufs s')" using e keeps_but_trans [OF _ keeps_but_keeps [OF m(7)]] by (auto simp: entered_def)
  ultimately have "entered msgs s vcp vc R as xs num v k s' vc' (bs @ cs) zs"
    using e m(3,5,8,9,10) fh unfolding entered_def by (simp add: add.assoc Un_assoc)
  moreover have "settled (R + length (bs @ cs)) zs (num(v := k))" using m(6) by (simp add: settled_def add.assoc)
  ultimately show ?thesis using m(1) by blast
qed

text \<open>The three ways, by the number of the packet.\<close>

lemma place_cases:
  assumes vc: "vcs s vcp = Some vc" "seqnum_next_torecv vc = word_of_nat R" and v: "arrived msgs s vcp v k" and k: "R \<le> k + 60000" "k \<le> R + 2501"
  shows "mv2_ud_place_recvwin v s = (if R \<le> k
      then (if k = R then app_recv vcp v s \<bind> put_vc vcp (\<lambda>vc. (advance vc)\<lparr>ack_need_tosend := True\<rparr>) else place_ahead vcp vc v s) \<bind> move_recvwin vcp
      else put_vbuf v (\<lambda>b. b\<lparr>content_size := 0\<rparr>) s \<bind> vbuf_release v \<bind> put_vc vcp (\<lambda>vc. vc\<lparr>ack_need_tosend := True\<rparr>))"
proof -
  obtain b where b: "vbufs s v = Some b" "vbuf_vc b = Some vcp" "seqnum b = word_of_nat k"
    using v by (auto simp: arrived_def split: option.splits)
  have in_window: "INCL_BETWEEN (uint (seqnum b)) (uint (seqnum_next_torecv vc)) (recv_win_wrap (uint (seqnum_next_torecv vc) + rdma_default_ud_recvwin_size)) \<longleftrightarrow> R \<le> k"
    unfolding b(3) vc(2) by (rule in_recv_window [OF k])
  have is_next: "seqnum b = seqnum_next_torecv vc \<longleftrightarrow> k = R" unfolding b(3) vc(2) using k by (intro num_eq_iff) auto
  show ?thesis
    using b(1,2) vc(1) by (simp add: mv2_ud_place_recvwin_def Let_def in_window is_next del: recv_win_wrap.simps)
qed

text \<open>
  The function as a whole: the packet joins those that were received; the application gets those that
  have become in order, and the first of the window is not the next in order.
\<close>

lemma place_recvwin_ok:
  assumes vc: "vcs s vcp = Some vc" and i: "recv_inv msgs (vbufs s) vc R as xs num" "settled R xs num"
    and v: "arrived msgs s vcp v k" "v \<notin> set as" "v \<notin> set xs" and k: "R \<le> k + 60000" "k \<le> R + 2501"
  shows "\<exists>s' vc' bs ys. mv2_ud_place_recvwin v s = Some s' \<and> entered msgs s vcp vc R as xs num v k s' vc' bs ys \<and> settled (R + length bs) ys (num(v := k))"
proof -
  have r: "seqnum_next_torecv vc = word_of_nat R" using i(1) by (simp add: recv_inv_def)
  note eq = place_cases [OF vc r v(1) k]
  show ?thesis
  proof (cases "R \<le> k")
    case False
    then have "k \<in> got R xs num" by (simp add: got_def)
    from enter_drop [OF vc i(1) this v] obtain s' vc' where
        s': "(put_vbuf v (\<lambda>b. b\<lparr>content_size := 0\<rparr>) s \<bind> vbuf_release v \<bind> put_vc vcp (\<lambda>vc. vc\<lparr>ack_need_tosend := True\<rparr>)) = Some s'"
        "entered msgs s vcp vc R as xs num v k s' vc' [] xs" by blast
    have "settled (R + length []) xs (num(v := k))" using i(2) v(3) by (auto simp: settled_def)
    moreover have "mv2_ud_place_recvwin v s = Some s'" using s'(1) False by (simp add: eq)
    ultimately show ?thesis using s'(2) by blast
  next
    case True
    have "\<exists>s1 vc1 bs ys. (if k = R then app_recv vcp v s \<bind> put_vc vcp (\<lambda>vc. (advance vc)\<lparr>ack_need_tosend := True\<rparr>) else place_ahead vcp vc v s) = Some s1
        \<and> entered msgs s vcp vc R as xs num v k s1 vc1 bs ys"
    proof (cases "k = R")
      case True
      then show ?thesis using enter_next [OF vc i v [unfolded True]] by simp
    next
      case False
      then have lt: "R < k" using True by simp
      from window_add_cases [OF i v(1,3) lt k(2)] show ?thesis
        using enter_dup [OF vc i(1) v] enter_new [OF vc i(1) v] False by (auto split: if_splits)
    qed
    then obtain s1 vc1 bs ys where
        s1: "(if k = R then app_recv vcp v s \<bind> put_vc vcp (\<lambda>vc. (advance vc)\<lparr>ack_need_tosend := True\<rparr>) else place_ahead vcp vc v s) = Some s1"
        "entered msgs s vcp vc R as xs num v k s1 vc1 bs ys" by blast
    have "mv2_ud_place_recvwin v s = move_recvwin vcp s1" using s1(1) True eq by simp
    then show ?thesis using entered_moved [OF s1(2)] by metis
  qed
qed

end
