(* ===== verification/Ib_Send.thy ===== *)
theory Ib_Send
  imports Ib_Api Ib_Recv
begin

text \<open>
  The sending side of a channel, in a process with one channel. Packets are numbered in the order of the
  calls; \<open>out k\<close> is the \<open>k\<close>-th. Those from \<open>L\<close> up to \<open>N\<close> have been sent and not been acknowledged: they are in the send window,
  which is the queue of unacknowledged packets, too. The ones after them wait in the extended window. Some
  that were sent wait for room at the card. The invariant holds throughout; a packet is never lost,
  and what is on the wire under a number is the packet with that number.
\<close>

section \<open>The invariant\<close>

definition carries :: "(nat \<Rightarrow> 8 word \<times> byte list) \<Rightarrow> nat \<Rightarrow> vbuf \<Rightarrow> bool" where
  "carries out k b \<longleftrightarrow> pseqnum (header b) = word_of_nat k \<and> body b = out k"

definition in_progress :: "vbuf \<Rightarrow> bool" where
  "in_progress b \<longleftrightarrow> and (flags b) UD_VBUF_SEND_INPROGRESS \<noteq> 0"

definition free_pending :: "vbuf \<Rightarrow> bool" where
  "free_pending b \<longleftrightarrow> and (flags b) UD_VBUF_FREE_PENDING \<noteq> 0"

lemma flag_bits:
  fixes f :: "8 word"
  shows "and (or f 2) 2 \<noteq> 0" "and (or f 2) 1 = and f 1" "and (or f 1) 1 \<noteq> 0" "and (or f 1) 2 = and f 2"
    "and (and f (not 2)) 2 = 0" "and (and f (not 2)) 1 = and f 1" "and (and f (not 1)) 1 = 0" "and (and f (not 1)) 2 = and f 2"
proof -
  have d: "and (and g (not x)) x = 0" for g x :: "8 word" by (rule bit_word_eqI) (auto simp: bit_and_iff bit_not_iff)
  have o: "and (or g x) y = and g y" "and (and g (not x)) y = and g y" if "and x y = 0" for g x y :: "8 word"
    using that by (auto simp: bit_eq_iff bit_and_iff bit_or_iff bit_not_iff)
  show "and (or f 2) 1 = and f 1" "and (or f 1) 2 = and f 2" "and (and f (not 2)) 1 = and f 1" "and (and f (not 1)) 2 = and f 2" by (rule o; simp)+
  show "and (and f (not 2)) 2 = 0" "and (and f (not 1)) 1 = 0" by (rule d)+
  have "and (or f x) x = x" for x by (rule bit_word_eqI) (auto simp: bit_and_iff bit_or_iff)
  then show "and (or f 2) 2 \<noteq> 0" "and (or f 1) 1 \<noteq> 0" by simp_all
qed

definition holds :: "vheap \<Rightarrow> nat \<Rightarrow> (vbuf \<Rightarrow> bool) \<Rightarrow> bool" where
  "holds h a P \<longleftrightarrow> (\<exists>b. h a = Some b \<and> P b)"

abbreviation free_queue :: "ptr \<Rightarrow> nat list \<Rightarrow> message_queue" where
  "free_queue p fs \<equiv> \<lparr>q_head = p, q_tail = endof fs, q_count = 0\<rparr>"

definition sent :: "(nat \<Rightarrow> 8 word \<times> byte list) \<Rightarrow> nat \<Rightarrow> nat \<Rightarrow> vbuf \<Rightarrow> bool" where
  "sent out vcp k b \<longleftrightarrow> seqnum b = word_of_nat k \<and> carries out k b \<and> \<not> free_pending b \<and> vbuf_vc b = Some vcp"

definition waiting :: "(nat \<Rightarrow> 8 word \<times> byte list) \<Rightarrow> nat \<Rightarrow> vbuf \<Rightarrow> bool" where
  "waiting out k b \<longleftrightarrow> body b = out k \<and> \<not> in_sendwin b \<and> \<not> free_pending b \<and> content_size b \<le> MRAIL_MAX_UD_SIZE"

definition on_wire :: "(nat \<Rightarrow> 8 word \<times> byte list) \<Rightarrow> nat \<Rightarrow> wire_packet \<Rightarrow> bool" where
  "on_wire out N p \<longleftrightarrow> (\<exists>k<N. pseqnum (wire_header p) = word_of_nat k \<and> (ptype (wire_header p), wire_payload p) = out k)"

definition busy :: "(nat \<Rightarrow> 8 word \<times> byte list) \<Rightarrow> nat \<Rightarrow> nat \<Rightarrow> vbuf \<Rightarrow> bool" where
  "busy out vcp N b \<longleftrightarrow> in_progress b \<and> vbuf_vc b = Some vcp \<and> (free_pending b \<longrightarrow> \<not> in_sendwin b) \<and> (\<exists>k<N. carries out k b)"

text \<open>
  What each buffer of the process is used for; \<open>u_pext\<close> is what is linked in the queue of waiting packets, which
  can have one that is just being sent at its head.
\<close>

record use =
  u_free :: "nat list"
  u_extq :: "nat list"
  u_win :: "nat list"
  u_ext :: "nat list"
  u_pext :: "nat list"

definition apart :: "use \<Rightarrow> nat list \<Rightarrow> bool" where
  "apart u sq \<longleftrightarrow> distinct (u_extq u @ sq) \<and> set (u_free u) \<inter> (set (u_win u) \<union> set (u_ext u) \<union> set (u_extq u @ sq)) = {}
     \<and> set (u_ext u) \<inter> (set (u_win u) \<union> set (u_extq u @ sq)) = {}"

definition use_ok :: "(nat \<Rightarrow> 8 word \<times> byte list) \<Rightarrow> nat \<Rightarrow> vheap \<Rightarrow> nat list \<Rightarrow> nat \<Rightarrow> nat \<Rightarrow> use \<Rightarrow> bool" where
  "use_ok out vcp h sq L N u \<longleftrightarrow> (\<forall>i<length (u_win u). holds h (u_win u ! i) (sent out vcp (L + i))) \<and> (\<forall>i<length (u_ext u). holds h (u_ext u ! i) (waiting out (N + i)))
     \<and> (\<forall>v\<in>set (u_extq u @ sq). holds h v (busy out vcp N)) \<and> (\<forall>v\<in>set (u_free u). holds h v (\<lambda>b. \<not> in_sendwin b))"

definition queues :: "ib \<Rightarrow> vc \<Rightarrow> use \<Rightarrow> bool" where
  "queues s vc u \<longleftrightarrow> chain desc_next (vbufs s) (free_queue (free_head s) (u_free u)) (u_free u) \<and> sendq_list (vbufs s) (ext_send_queue (ud s)) (u_extq u)
     \<and> sendwin_list (vbufs s) (send_window vc) (u_win u) \<and> unack_list (vbufs s) (unack_queue s) (u_win u)
     \<and> extwin_list (vbufs s) (ext_window vc) (u_pext u) \<and> q_count (ext_window vc) = word_of_nat (length (u_pext u))"

definition sender :: "(nat \<Rightarrow> 8 word \<times> byte list) \<Rightarrow> nat \<Rightarrow> ib \<Rightarrow> vc \<Rightarrow> nat \<Rightarrow> nat \<Rightarrow> use \<Rightarrow> bool" where
  "sender out vcp s vc L N u \<longleftrightarrow> vcs s vcp = Some vc \<and> queues s vc u \<and> apart u (sending s) \<and> use_ok out vcp (vbufs s) (sending s) L N u
     \<and> q_count (send_window vc) = word_of_nat (length (u_win u))
     \<and> (\<forall>a b. vbufs s a = Some b \<longrightarrow> a < brk s) \<and> (\<forall>p\<in>set (posted s). on_wire out N p)"

section \<open>Frames\<close>

lemma holds_cong: "h' a = h a \<Longrightarrow> holds h' a P = holds h a P"
  by (simp add: holds_def)

lemma holds_keeps: "keeps g h h' \<Longrightarrow> holds h a P \<Longrightarrow> (\<And>b c. g b = g c \<Longrightarrow> P b \<Longrightarrow> P c) \<Longrightarrow> holds h' a P"
proof -
  assume k: "keeps g h h'" and p: "holds h a P" and g: "\<And>b c. g b = g c \<Longrightarrow> P b \<Longrightarrow> P c"
  obtain b where b: "h a = Some b" "P b" using p by (auto simp: holds_def)
  obtain c where "h' a = Some c" "g c = g b" using keeps_get [OF k b(1)] by blast
  then show ?thesis using g [of b c] b(2) by (auto simp: holds_def)
qed

text \<open>A buffer that is not in use.\<close>

definition loose :: "use \<Rightarrow> nat list \<Rightarrow> nat \<Rightarrow> bool" where
  "loose u sq v \<longleftrightarrow> v \<notin> set (u_free u) \<union> set (u_extq u) \<union> set (u_win u) \<union> set (u_ext u) \<union> set sq"

lemma use_ok_alloc:
  assumes "use_ok out vcp h sq L N u" "a \<in> set (u_win u) \<union> set (u_ext u) \<union> set (u_extq u @ sq) \<union> set (u_free u)"
  shows "\<exists>b. h a = Some b"
proof -
  have "\<exists>b. h a = Some b" if "a \<in> set (u_win u)" using assms(1) that unfolding in_set_conv_nth by (auto simp: use_ok_def holds_def)
  moreover have "\<exists>b. h a = Some b" if "a \<in> set (u_ext u)" using assms(1) that unfolding in_set_conv_nth by (auto simp: use_ok_def holds_def)
  ultimately show ?thesis using assms by (auto simp: use_ok_def holds_def)
qed

lemma use_ok_upd: "use_ok out vcp h sq L N u \<Longrightarrow> loose u sq v \<Longrightarrow> use_ok out vcp (h(v \<mapsto> b)) sq L N u"
proof -
  assume c: "use_ok out vcp h sq L N u" and v: "loose u sq v"
  have "u_win u ! i \<noteq> v" if "i < length (u_win u)" for i using v that by (auto simp: loose_def)
  moreover have "u_ext u ! i \<noteq> v" if "i < length (u_ext u)" for i using v that by (auto simp: loose_def)
  ultimately show ?thesis using c v by (auto simp: use_ok_def loose_def holds_def)
qed

lemma chain_same: "chain nx h q xs \<Longrightarrow> (v \<in> set xs \<Longrightarrow> \<exists>c. h v = Some c \<and> nx b = nx c) \<Longrightarrow> chain nx (h(v \<mapsto> b)) q xs"
  by (rule chain_cong [rotated]) (auto simp: same_on_def)

lemma sender_upd:
  assumes "sender out vcp s vc L N u" "loose u (sending s) v" "vbufs s v = Some c" "v \<in> set (u_pext u) \<Longrightarrow> extwin_msg b = extwin_msg c"
  shows "sender out vcp (s\<lparr>vbufs := (vbufs s)(v \<mapsto> b)\<rparr>) vc L N u"
proof -
  have "extwin_list ((vbufs s)(v \<mapsto> b)) (ext_window vc) (u_pext u)"
    using assms by (intro chain_same) (auto simp: sender_def queues_def)
  then show ?thesis
    using assms use_ok_upd [of out vcp "vbufs s" "sending s" L N u v b]
    by (auto simp: sender_def queues_def loose_def intro: chain_upd backs_upd)
qed

text \<open>A change of the channel that the sender does not look at.\<close>

lemma sender_vc:
  assumes "sender out vcp s vc L N u" "send_window vc' = send_window vc" "ext_window vc' = ext_window vc"
  shows "sender out vcp (s\<lparr>vcs := (vcs s)(vcp \<mapsto> vc')\<rparr>) vc' L N u"
  using assms by (auto simp: sender_def queues_def)

text \<open>The next number is taken, for the first of the buffers that wait or for another one.\<close>

lemma holds_mono: "holds h a P \<Longrightarrow> (\<And>b. P b \<Longrightarrow> Q b) \<Longrightarrow> holds h a Q"
  by (auto simp: holds_def)

lemma on_wire_mono: "on_wire out N p \<Longrightarrow> N \<le> N' \<Longrightarrow> on_wire out N' p"
  by (auto simp: on_wire_def intro: less_le_trans)

lemma use_ok_next:
  assumes c: "use_ok out vcp h sq L N u"
  shows "use_ok out vcp h sq L (Suc N) (u\<lparr>u_ext := tl (u_ext u)\<rparr>)"
proof -
  have "busy out vcp N b \<Longrightarrow> busy out vcp (Suc N) b" for b by (auto simp: busy_def intro: less_SucI)
  then have "\<forall>v\<in>set (u_extq u @ sq). holds h v (busy out vcp (Suc N))" using c holds_mono unfolding use_ok_def by metis
  moreover have "holds h (tl (u_ext u) ! i) (waiting out (Suc N + i))" if "i < length (tl (u_ext u))" for i
    using c that by (auto simp: use_ok_def nth_tl dest!: spec [of _ "Suc i"])
  ultimately show ?thesis using c by (simp add: use_ok_def)
qed

lemma sender_next:
  assumes s: "sender out vcp s vc L N u"
  shows "sender out vcp s vc L (Suc N) (u\<lparr>u_ext := tl (u_ext u)\<rparr>)"
proof -
  have "set (tl (u_ext u)) \<subseteq> set (u_ext u)" by (cases "u_ext u") auto
  then have "apart (u\<lparr>u_ext := tl (u_ext u)\<rparr>) (sending s)" using s by (auto simp: sender_def apart_def)
  then show ?thesis using s use_ok_next on_wire_mono by (fastforce simp: sender_def queues_def)
qed

lemma sender_clock [simp]: "sender out vcp (s\<lparr>ticks := n, last_check := t\<rparr>) vc L N u = sender out vcp s vc L N u"
  by (simp add: sender_def queues_def)

section \<open>Taking a buffer\<close>

lemma vbuf_get_step:
  assumes s: "sender out vcp s vc L N u" and v: "u_free u = v # vs" "vbufs s v = Some b"
  shows "let s' = s\<lparr>free_head := desc_next b, vbufs := (vbufs s)(v \<mapsto> b\<lparr>content_size := 0, retry_count := 0, flags := 0\<rparr>)\<rparr>
    in vbuf_get s = Some (v, s') \<and> sender out vcp s' vc L N (u\<lparr>u_free := vs\<rparr>) \<and> loose (u\<lparr>u_free := vs\<rparr>) (sending s) v \<and> \<not> in_sendwin b"
proof -
  let ?u = "u\<lparr>u_free := vs\<rparr>"
  have S: "chain desc_next (vbufs s) (free_queue (free_head s) (v # vs)) (v # vs)" "apart u (sending s)" "use_ok out vcp (vbufs s) (sending s) L N u" "v < brk s"
    using s v by (auto simp: sender_def queues_def)
  have hd: "free_head s = Some v" using chainD(2) [OF S(1)] by simp
  have d: "desc_next b = first vs" "v \<notin> set vs" using S(1) v(2) by (auto simp: chain_def)
  have vs: "chain desc_next (vbufs s) (free_queue (desc_next b) vs) vs"
    by (rule chain_tl [OF S(1)]) (use d in simp_all)
  have l: "loose ?u (sending s) v" using S(2) v(1) d(2) by (auto simp: loose_def apart_def)
  have "sender out vcp (s\<lparr>free_head := desc_next b\<rparr>) vc L N ?u"
    using s vs v(1) by (auto simp: sender_def queues_def apart_def use_ok_def)
  from sender_upd [OF this, of v b] l v(2)
  have "sender out vcp (s\<lparr>free_head := desc_next b, vbufs := (vbufs s)(v \<mapsto> b\<lparr>content_size := 0, retry_count := 0, flags := 0\<rparr>)\<rparr>) vc L N ?u" by simp
  moreover have "\<not> in_sendwin b" using S(3) v by (auto simp: use_ok_def holds_def)
  ultimately show ?thesis using hd v(2) l by (simp add: vbuf_get_def put_vbuf_def Let_def)
qed

lemma nxt_upt: "m \<le> a \<Longrightarrow> a < n \<Longrightarrow> nxt [m..<n] a = (if Suc a = n then None else Some (Suc a))"
proof (induction "n - m" arbitrary: m)
  case (Suc k)
  have u: "[m..<n] = m # [Suc m..<n]" using Suc by (simp add: upt_conv_Cons)
  show ?case
  proof (cases "a = m")
    case True
    then show ?thesis using u Suc.prems by (cases "Suc m < n") (auto simp: upt_conv_Cons)
  next
    case False
    then show ?thesis using u Suc by simp
  qed
qed simp

lemma first_upt: "m < n \<Longrightarrow> first [m..<n] = Some m"
  by (simp add: upt_conv_Cons)

text \<open>Heaps that agree on all buffers there are.\<close>

lemma sender_grow:
  assumes s: "sender out vcp s vc L N u" and h: "\<forall>a<brk s. h a = vbufs s a" and b: "brk s \<le> n" "\<forall>a b. h a = Some b \<longrightarrow> a < n"
  shows "sender out vcp (s\<lparr>vbufs := h, brk := n\<rparr>) vc L N u"
proof -
  have al: "a < brk s" if "vbufs s a = Some b" for a b using s that by (auto simp: sender_def)
  have hh: "holds h a P" if "holds (vbufs s) a P" for a P using that al h by (auto simp: holds_def)
  have same: "same_on f (set xs) (vbufs s) h" if "chain nx (vbufs s) q xs" for nx q xs and f :: "vbuf \<Rightarrow> ptr"
    using that al h by (fastforce simp: same_on_def chain_def)
  have "queues (s\<lparr>vbufs := h, brk := n\<rparr>) vc u"
    using s unfolding sender_def queues_def by (auto intro: chain_cong [OF same] backs_cong [OF same])
  moreover have "use_ok out vcp h (sending s) L N u" using s hh unfolding sender_def use_ok_def by blast
  ultimately show ?thesis using s b by (auto simp: sender_def)
qed

lemma region_alloc_ok:
  assumes s: "sender out vcp s vc L N u" "u_free u = []" and n: "0 < n"
  shows "sender out vcp (fresh_region n s) vc L N (u\<lparr>u_free := [brk s..<brk s + n]\<rparr>)"
proof -
  let ?r = "[brk s..<brk s + n]"
  define h where "h = vbufs (fresh_region n s)"
  let ?t = "s\<lparr>vbufs := h, brk := brk s + n\<rparr>"
  have al: "a < brk s" if "vbufs s a = Some b" for a b using s that by (auto simp: sender_def)
  have t: "sender out vcp ?t vc L N u"
    using al by (intro sender_grow [OF s(1)]) (auto simp: h_def fresh_region_def dest!: al split: if_splits)
  have eq: "fresh_region n s = ?t\<lparr>free_head := Some (brk s)\<rparr>" using n by (simp add: h_def fresh_region_def)
  have new: "h a = Some (zero_vbuf\<lparr>desc_next := nxt ?r a\<rparr>)" if "a \<in> set ?r" for a
    using that by (auto simp: h_def fresh_region_def nxt_upt)
  have "chain desc_next (h) (free_queue (Some (brk s)) ?r) ?r"
    using new n by (intro chainI) (auto simp: first_upt)
  moreover have "\<forall>v\<in>set ?r. holds (h) v (\<lambda>b. \<not> in_sendwin b)" using new by (auto simp: holds_def zero_vbuf_def)
  moreover have "apart (u\<lparr>u_free := ?r\<rparr>) (sending s)"
  proof -
    have "a < brk s" if "a \<in> set (u_win u) \<union> set (u_ext u) \<union> set (u_extq u @ sending s)" for a
    proof -
      have "\<exists>b. vbufs s a = Some b"
        using that s(1) by (intro use_ok_alloc) (auto simp: sender_def)
      then show ?thesis using al by blast
    qed
    then have "set ?r \<inter> (set (u_win u) \<union> set (u_ext u) \<union> set (u_extq u @ sending s)) = {}" by fastforce
    then show ?thesis using s(1) by (simp add: sender_def apart_def)
  qed
  ultimately show ?thesis using t s(2) unfolding eq by (auto simp: sender_def queues_def use_ok_def)
qed

lemma vbuf_get_ok:
  assumes s: "sender out vcp s vc L N u"
  shows "\<exists>v b s' vs. vbuf_get s = Some (v, s') \<and> sender out vcp s' vc L N (u\<lparr>u_free := vs\<rparr>) \<and> loose (u\<lparr>u_free := vs\<rparr>) (sending s') v
    \<and> vbufs s' v = Some b \<and> \<not> in_sendwin b \<and> flags b = 0 \<and> posted s' = posted s"
proof -
  have one: ?thesis if t: "sender out vcp t vc L N (u\<lparr>u_free := v # vs\<rparr>)" "vbuf_get s = vbuf_get t" "posted t = posted s" for t v vs
  proof -
    obtain b where b: "vbufs t v = Some b" using t(1) by (auto simp: sender_def use_ok_def holds_def)
    show ?thesis using vbuf_get_step [OF t(1) _ b] t(2,3) by (auto simp: Let_def)
  qed
  show ?thesis
  proof (cases "u_free u")
    case (Cons v vs)
    then have "u\<lparr>u_free := v # vs\<rparr> = u" by simp
    then show ?thesis using one [of s v vs] s by simp
  next
    case Nil
    have "free_head s = NULL" using s Nil by (auto simp: sender_def queues_def dest: chainD(2))
    then have g: "vbuf_get s = vbuf_get (fresh_region 512 s)" by (simp add: vbuf_get_def vbuf_region_alloc_def fresh_region_def)
    have u: "[brk s..<brk s + 512] = brk s # [Suc (brk s)..<brk s + 512]" by (rule upt_conv_Cons) simp
    have "sender out vcp (fresh_region 512 s) vc L N (u\<lparr>u_free := [brk s..<brk s + 512]\<rparr>)" by (rule region_alloc_ok [OF s Nil]) simp
    moreover have "posted (fresh_region 512 s) = posted s" by (simp add: fresh_region_def)
    ultimately show ?thesis using one [OF _ g] unfolding u by blast
  qed
qed

section \<open>Handing a packet to the card\<close>

text \<open>What the invariant says of a buffer depends on these fields only.\<close>

definition core :: "vbuf \<Rightarrow> pkt_header \<times> byte list \<times> u16 \<times> 8 word \<times> ptr \<times> bool \<times> nat" where
  "core b = (header b, payload b, seqnum b, flags b, vbuf_vc b, in_sendwin b, content_size b)"

lemma core_cong:
  assumes "core b = core c"
  shows "carries out k b = carries out k c" "in_progress b = in_progress c" "free_pending b = free_pending c" "sent out vcp k b = sent out vcp k c"
    "waiting out k b = waiting out k c" "busy out vcp N b = busy out vcp N c" "in_sendwin b = in_sendwin c"
  using assms by (auto simp: core_def carries_def in_progress_def free_pending_def sent_def waiting_def busy_def body_def)

lemma holds_core:
  assumes "keeps core h h'"
  shows "holds h a (sent out vcp k) \<Longrightarrow> holds h' a (sent out vcp k)" "holds h a (waiting out k) \<Longrightarrow> holds h' a (waiting out k)"
    "holds h a (busy out vcp N) \<Longrightarrow> holds h' a (busy out vcp N)" "holds h a (\<lambda>b. \<not> in_sendwin b) \<Longrightarrow> holds h' a (\<lambda>b. \<not> in_sendwin b)"
proof -
  have k: "holds h a P \<Longrightarrow> (\<And>b c. core b = core c \<Longrightarrow> P b = P c) \<Longrightarrow> holds h' a P" for P using holds_keeps [OF assms] by blast
  show "holds h a (sent out vcp k) \<Longrightarrow> holds h' a (sent out vcp k)" by (erule k) (rule core_cong)
  show "holds h a (waiting out k) \<Longrightarrow> holds h' a (waiting out k)" by (erule k) (rule core_cong)
  show "holds h a (busy out vcp N) \<Longrightarrow> holds h' a (busy out vcp N)" by (erule k) (rule core_cong)
  show "holds h a (\<lambda>b. \<not> in_sendwin b) \<Longrightarrow> holds h' a (\<lambda>b. \<not> in_sendwin b)" by (erule k) (use core_cong(7) in blast)
qed

lemma use_ok_core: "keeps core h h' \<Longrightarrow> use_ok out vcp h sq L N u \<Longrightarrow> use_ok out vcp h' sq L N u"
  using holds_core [of h h'] unfolding use_ok_def by simp

lemma core_upd [simp]:
  "core (desc_next_update f b) = core b" "core (retry_count_update f2 b) = core b" "core (timestamp_update f3 b) = core b"
  "core (extwin_msg_update f4 b) = core b" "core (sendwin_msg_update f4 b) = core b" "core (unack_msg_update f4 b) = core b"
  "core (apprecvwin_msg_update f4 b) = core b" "core (recvwin_msg_update f4 b) = core b"
  by (simp_all add: core_def)

lemma keeps_alloc: "keeps g h h' \<Longrightarrow> h' a = Some b \<Longrightarrow> \<exists>c. h a = Some c"
  unfolding keeps_def by (metis map_option_eq_Some)

lemma links_kept:
  assumes "keeps l h h'"
  shows "chain (\<lambda>v. f (l v)) h q xs \<Longrightarrow> chain (\<lambda>v. f (l v)) h' q xs" "backs (\<lambda>v. f (l v)) h xs \<Longrightarrow> backs (\<lambda>v. f (l v)) h' xs"
proof -
  have "map_option (\<lambda>v. f (l v)) m = map_option f (map_option l m)" for m by (cases m) simp_all
  then have "keeps (\<lambda>v. f (l v)) h h'" using assms unfolding keeps_def by metis
  then show "chain (\<lambda>v. f (l v)) h q xs \<Longrightarrow> chain (\<lambda>v. f (l v)) h' q xs" "backs (\<lambda>v. f (l v)) h xs \<Longrightarrow> backs (\<lambda>v. f (l v)) h' xs"
    using chain_cong backs_cong keeps_same_on by metis+
qed

lemma post_wqe_ok:
  assumes s: "sender out vcp s vc L N u" and v: "holds (vbufs s) v (busy out vcp N)" "v \<notin> set (u_extq u @ sending s) \<union> set (u_free u) \<union> set (u_ext u)"
  shows "\<exists>s' vc'. post_wqe vcp v s = Some s' \<and> sender out vcp s' vc' L N u \<and> sending s' = sending s @ [v] \<and> vbufs s' = vbufs s
    \<and> vc' = vc\<lparr>sends_outstanding := sends_outstanding vc + 1\<rparr>"
proof -
  obtain b k where b: "vbufs s v = Some b" "busy out vcp N b" "k < N" "carries out k b" using v(1) by (auto simp: holds_def busy_def)
  have "vcs s vcp = Some vc" using s by (simp add: sender_def)
  moreover have "on_wire out N \<lparr>to_lid = l, to_qpn = q, wire_header = header b, wire_payload = payload b\<rparr>" for l q
    using b(3,4) by (auto simp: on_wire_def carries_def body_def)
  ultimately show ?thesis using s b(1) v
    by (auto simp: post_wqe_def ibv_post_send_def put_vc_def sender_def queues_def apart_def use_ok_def)
qed

lemma ext_sendq_add_frame:
  assumes "ext_sendq_add q v h = Some (q', h')" "q_tail q = endof xs" "q_head q = first xs"
  shows "a \<noteq> v \<Longrightarrow> a \<notin> set xs \<Longrightarrow> h' a = h a"
  using assms endof_in [of xs] unfolding ext_sendq_add_def q_append_def
  by (auto simp: write_vbuf_def split: bind_splits if_splits option.splits)

lemma queue_ext_ok:
  assumes s: "sender out vcp s vc L N u" and v: "holds (vbufs s) v (busy out vcp N)" "v \<notin> set (u_extq u @ sending s) \<union> set (u_free u) \<union> set (u_ext u)"
  shows "\<exists>s'. queue_ext v s = Some s' \<and> sender out vcp s' vc L N (u\<lparr>u_extq := u_extq u @ [v]\<rparr>) \<and> sending s' = sending s \<and> keeps core (vbufs s) (vbufs s')
    \<and> keeps extwin_msg (vbufs s) (vbufs s')"
proof -
  let ?q = "ext_send_queue (ud s)" and ?u = "u\<lparr>u_extq := u_extq u @ [v]\<rparr>"
  have Q: "sendq_list (vbufs s) ?q (u_extq u)" "queues s vc u" using s by (auto simp: sender_def queues_def)
  obtain b where b: "vbufs s v = Some b" using v(1) by (auto simp: holds_def)
  obtain q h where h: "ext_sendq_add ?q v (vbufs s) = Some (q, h)" "sendq_list h q (u_extq u @ [v])"
    using ext_sendq_add_ok [OF Q(1) b] v(2) by auto
  have k: "keeps core (vbufs s) h" "keeps sendwin_msg (vbufs s) h" "keeps unack_msg (vbufs s) h" "keeps extwin_msg (vbufs s) h"
    by (rule ext_sendq_add_keeps [OF h(1)]; simp)+
  have "same_on desc_next (set (u_free u)) (vbufs s) h"
    using ext_sendq_add_frame [OF h(1) chainD(3,2) [OF Q(1)]] v(2) s by (fastforce simp: same_on_def sender_def apart_def)
  then have "chain desc_next h (free_queue (free_head s) (u_free u)) (u_free u)" using Q(2) chain_cong by (auto simp: queues_def)
  then have "queues (s\<lparr>ud := (ud s)\<lparr>ext_send_queue := q\<rparr>, vbufs := h\<rparr>) vc ?u"
    using Q(2) h(2) links_kept [OF k(2)] links_kept [OF k(3)] links_kept [OF k(4)] by (simp add: queues_def)
  moreover have "use_ok out vcp h (sending s) L N ?u"
    using use_ok_core [OF k(1)] holds_core(3) [OF k(1)] s v(1) by (auto simp: sender_def use_ok_def)
  moreover have "apart ?u (sending s)" using s v(2) by (auto simp: sender_def apart_def)
  moreover have "\<forall>a b. h a = Some b \<longrightarrow> a < brk s" using keeps_alloc [OF k(1)] s by (auto simp: sender_def)
  ultimately have "sender out vcp (s\<lparr>ud := (ud s)\<lparr>ext_send_queue := q\<rparr>, vbufs := h\<rparr>) vc L N ?u" using s by (simp add: sender_def)
  then show ?thesis using h(1) k by (simp add: queue_ext_def)
qed

lemma post_sr_ok:
  assumes s: "sender out vcp s vc L N u" and v: "holds (vbufs s) v (busy out vcp N)" "v \<notin> set (u_extq u @ sending s) \<union> set (u_free u) \<union> set (u_ext u)"
  shows "\<exists>s' n x. ibv_ud_post_sr v vcp s = Some s' \<and> sender out vcp s' (vc\<lparr>sends_outstanding := n\<rparr>) L N (u\<lparr>u_extq := x\<rparr>)
    \<and> keeps core (vbufs s) (vbufs s')"
proof (cases "send_wqes_avail (ud s) \<le> 0 \<or> q_head (ext_send_queue (ud s)) \<noteq> NULL")
  case True
  obtain s' where "queue_ext v s = Some s'" "sender out vcp s' vc L N (u\<lparr>u_extq := u_extq u @ [v]\<rparr>)" "keeps core (vbufs s) (vbufs s')"
    using queue_ext_ok [OF s v] by blast
  then show ?thesis using True by (intro exI [of _ s'] exI [of _ "sends_outstanding vc"] exI [of _ "u_extq u @ [v]"]) (simp add: ibv_ud_post_sr_def)
next
  case False
  obtain s' where "post_wqe vcp v s = Some s'" "sender out vcp s' (vc\<lparr>sends_outstanding := sends_outstanding vc + 1\<rparr>) L N u" "vbufs s' = vbufs s"
    using post_wqe_ok [OF s v] by blast
  then show ?thesis using False
    by (intro exI [of _ s'] exI [of _ "sends_outstanding vc + 1"] exI [of _ "u_extq u"]) (simp add: ibv_ud_post_sr_def)
qed

text \<open>A buffer changes in a way that fits its uses.\<close>

lemma use_ok_change:
  assumes c: "use_ok out vcp h sq L N u" and b: "h v = Some b"
    and k: "v \<in> set (u_win u) \<Longrightarrow> (\<And>k. sent out vcp k b \<Longrightarrow> sent out vcp k c)" "v \<in> set (u_ext u) \<Longrightarrow> (\<And>k. waiting out k b \<Longrightarrow> waiting out k c)"
      "v \<in> set (u_extq u @ sq) \<Longrightarrow> busy out vcp N b \<Longrightarrow> busy out vcp N c" "v \<in> set (u_free u) \<Longrightarrow> \<not> in_sendwin c"
  shows "use_ok out vcp (h(v \<mapsto> c)) sq L N u"
proof -
  have "holds (h(v \<mapsto> c)) a P" if "holds h a P" "a = v \<Longrightarrow> P b \<Longrightarrow> P c" for a P using that b by (auto simp: holds_def)
  then show ?thesis using c k unfolding use_ok_def by (metis nth_mem)
qed

lemma send_window_add_core:
  assumes "send_window_add q v h = Some (q', h')" "h v = Some b"
  shows "keeps core (h(v \<mapsto> b\<lparr>in_sendwin := True\<rparr>)) h'"
proof -
  let ?b = "sendwin_msg_update (\<lambda>x. x\<lparr>lprev := q_tail q, lnext := NULL\<rparr>) (b\<lparr>in_sendwin := True\<rparr>)"
  have "q_append (set_lnext sendwin_msg_update) q v (h(v \<mapsto> ?b)) = Some (q', h')"
    using assms by (auto simp: send_window_add_def comp_def split: bind_splits)
  then have "keeps core (h(v \<mapsto> ?b)) h'" by (rule sendwin.append_keeps) simp
  moreover have "keeps core (h(v \<mapsto> b\<lparr>in_sendwin := True\<rparr>)) (h(v \<mapsto> ?b))" by (simp add: keeps_def)
  ultimately show ?thesis using keeps_trans by blast
qed

lemma track_send_ok:
  assumes s: "sender out vcp s vc L N u" and v: "holds (vbufs s) v (sent out vcp (L + length (u_win u)))" "v \<notin> set (u_win u) \<union> set (u_free u) \<union> set (u_ext u)"
  shows "\<exists>s' q. track_send vcp v s = Some s' \<and> sender out vcp s' (vc\<lparr>send_window := q\<rparr>) L N (u\<lparr>u_win := u_win u @ [v]\<rparr>)"
proof -
  obtain b where b: "vbufs s v = Some b" "sent out vcp (L + length (u_win u)) b" using v(1) by (auto simp: holds_def)
  have S: "queues s vc u" "use_ok out vcp (vbufs s) (sending s) L N u" "vcs s vcp = Some vc" using s by (auto simp: sender_def)
  let ?b = "b\<lparr>timestamp := last_check s\<rparr>"
  let ?h = "(vbufs s)(v \<mapsto> ?b)"
  have k0: "keeps core (vbufs s) ?h" "keeps desc_next (vbufs s) ?h" "keeps sendwin_msg (vbufs s) ?h" "keeps unack_msg (vbufs s) ?h" "keeps extwin_msg (vbufs s) ?h"
    using b(1) by (auto intro: keeps_upd)
  have w: "sendwin_list ?h (send_window vc) (u_win u)" using S(1) links_kept [OF k0(3)] by (auto simp: queues_def)
  obtain q h1 where h1: "send_window_add (send_window vc) v ?h = Some (q, h1)" "sendwin_list h1 q (u_win u @ [v])" "q_count q = q_count (send_window vc) + 1"
    using send_window_add_ok [OF w, of v ?b] v(2) by auto
  have k1: "keeps desc_next ?h h1" "keeps unack_msg ?h h1" "keeps extwin_msg ?h h1" by (rule send_window_add_keeps [OF h1(1)]; simp)+
  have c1: "keeps core (?h(v \<mapsto> ?b\<lparr>in_sendwin := True\<rparr>)) h1" by (rule send_window_add_core [OF h1(1)]) simp
  have "keeps (\<lambda>_. ()) ?h h1" by (rule send_window_add_keeps [OF h1(1)]) simp_all
  then obtain b1 where b1: "h1 v = Some b1" using keeps_get [of "\<lambda>_. ()" ?h h1 v ?b] by auto
  have ua: "unack_list h1 (unack_queue s) (u_win u)" using S(1) links_kept [OF keeps_trans [OF k0(4) k1(2)]] by (auto simp: queues_def)
  obtain q2 h2 where h2: "unack_queue_add (unack_queue s) v h1 = Some (q2, h2)" "unack_list h2 q2 (u_win u @ [v])"
    using unack_queue_add_ok [OF ua b1] v(2) by blast
  have k2: "keeps core h1 h2" "keeps desc_next h1 h2" "keeps sendwin_msg h1 h2" "keeps extwin_msg h1 h2" by (rule unack_queue_add_keeps [OF h2(1)]; simp)+
  have kd: "keeps desc_next (vbufs s) h2" "keeps extwin_msg (vbufs s) h2" using k0 k1 k2 keeps_trans by blast+
  let ?vc = "vc\<lparr>send_window := q\<rparr>" and ?u = "u\<lparr>u_win := u_win u @ [v]\<rparr>"
  let ?s = "s\<lparr>vbufs := h2, vcs := (vcs s)(vcp \<mapsto> ?vc), unack_queue := q2\<rparr>"
  have "queues ?s ?vc ?u"
    using S(1) h1(2) h2(2) links_kept [OF k2(3)] links_kept [OF kd(2)] links_kept [OF kd(1), of "\<lambda>x. x"] by (auto simp: queues_def)
  moreover have c2: "keeps core ((vbufs s)(v \<mapsto> ?b\<lparr>in_sendwin := True\<rparr>)) h2" using keeps_trans [OF c1 k2(1)] by simp
  moreover have "use_ok out vcp h2 (sending s) L N ?u"
  proof -
    have st: "sent out vcp k (?b\<lparr>in_sendwin := True\<rparr>) = sent out vcp k b" for k by (simp add: sent_def carries_def body_def free_pending_def)
    have "use_ok out vcp ((vbufs s)(v \<mapsto> ?b\<lparr>in_sendwin := True\<rparr>)) (sending s) L N u"
      using v(2) b(2) by (intro use_ok_change [OF S(2) b(1)]) (auto simp: sent_def free_pending_def busy_def in_progress_def carries_def body_def)
    then have "use_ok out vcp h2 (sending s) L N u" by (rule use_ok_core [OF c2])
    moreover have "holds h2 v (sent out vcp (L + length (u_win u)))" using b(2) st by (intro holds_core(1) [OF c2]) (simp add: holds_def)
    ultimately show ?thesis by (auto simp: use_ok_def nth_append less_Suc_eq)
  qed
  moreover have "apart ?u (sending s)" using s v(2) by (auto simp: sender_def apart_def)
  moreover have "\<forall>a b. h2 a = Some b \<longrightarrow> a < brk s" using keeps_alloc [OF kd(1)] s by (auto simp: sender_def)
  ultimately have "sender out vcp ?s ?vc L N ?u" using s h1(3) by (simp add: sender_def)
  moreover have "track_send vcp v s = Some ?s" using b(1) h1(1) h2(1) S(3) by (simp add: track_send_def put_vbuf_def put_vc_def)
  ultimately show ?thesis by blast
qed

section \<open>Sending a packet\<close>

lemma number_packet_eq:
  assumes "vbufs s v = Some b" "vcs s vcp = Some vc"
  shows "number_packet vcp vc v s = Some (s\<lparr>
      vbufs := (vbufs s)(v \<mapsto> b\<lparr>header := (header b)\<lparr>pseqnum := seqnum_next_tosend vc, acknum := seqnum_next_toack vc\<rparr>,
        seqnum := seqnum_next_tosend vc, flags := or (flags b) UD_VBUF_SEND_INPROGRESS\<rparr>),
      vcs := (vcs s)(vcp \<mapsto> vc\<lparr>seqnum_next_tosend := seqnum_next_tosend vc + 1, ack_need_tosend := False, ack_pending := 0\<rparr>)\<rparr>)"
  using assms by (cases s; cases b) (simp add: number_packet_def put_vbuf_def put_vc_def)

text \<open>There is room in the window; the number has been set aside.\<close>

lemma post_send_ok:
  assumes s: "sender out vcp s vc L (Suc N) u" and N: "N = L + length (u_win u)" "length (u_win u) \<le> 400" "seqnum_next_tosend vc = word_of_nat N"
    and v: "loose u (sending s) v" "vbufs s v = Some b" "waiting out N b" and e: "q_head (ext_window vc) = NULL \<or> q_head (ext_window vc) = Some v"
  shows "\<exists>s' vc' x. ud_post_send vcp v s = Some s' \<and> sender out vcp s' vc' L (Suc N) (u\<lparr>u_extq := x, u_win := u_win u @ [v]\<rparr>)
    \<and> seqnum_next_tosend vc' = word_of_nat (Suc N) \<and> ext_window vc' = ext_window vc"
proof -
  have vc: "vcs s vcp = Some vc" "q_count (send_window vc) = word_of_nat (length (u_win u))" using s by (auto simp: sender_def)
  have W: "body b = out N" "\<not> in_sendwin b" "\<not> free_pending b" "content_size b \<le> MRAIL_MAX_UD_SIZE" using v(3) by (auto simp: waiting_def)
  let ?n = "seqnum_next_tosend vc"
  let ?c = "b\<lparr>vbuf_vc := Some vcp, header := (header b)\<lparr>srcid := writeid vc, pseqnum := ?n, acknum := seqnum_next_toack vc\<rparr>, seqnum := ?n,
    flags := or (flags b) UD_VBUF_SEND_INPROGRESS\<rparr>"
  let ?vc = "vc\<lparr>seqnum_next_tosend := ?n + 1, ack_need_tosend := False, ack_pending := 0\<rparr>"
  let ?s = "s\<lparr>vbufs := (vbufs s)(v \<mapsto> ?c), vcs := (vcs s)(vcp \<mapsto> ?vc)\<rparr>"
  have "sender out vcp (s\<lparr>vbufs := (vbufs s)(v \<mapsto> ?c)\<rparr>) vc L (Suc N) u" by (rule sender_upd [OF s v(1,2)]) simp
  from sender_vc [OF this, of ?vc] have s1: "sender out vcp ?s ?vc L (Suc N) u" by simp
  have f: "in_progress ?c" "\<not> free_pending ?c" using W(3) flag_bits [of "flags b"] by (auto simp: in_progress_def free_pending_def)
  have c: "carries out N ?c" using W(1) N(3) by (simp add: carries_def body_def)
  have "sent out vcp N ?c" "busy out vcp (Suc N) ?c" using f c N(3) by (auto simp: sent_def busy_def)
  then have h1: "holds (vbufs ?s) v (busy out vcp (Suc N))" "holds (vbufs ?s) v (sent out vcp N)" by (simp_all add: holds_def)
  obtain s2 n x where s2: "ibv_ud_post_sr v vcp ?s = Some s2" "sender out vcp s2 (?vc\<lparr>sends_outstanding := n\<rparr>) L (Suc N) (u\<lparr>u_extq := x\<rparr>)"
      "keeps core (vbufs ?s) (vbufs s2)"
    using post_sr_ok [OF s1 h1(1)] v(1) by (auto simp: loose_def)
  obtain b2 where b2: "vbufs s2 v = Some b2" "core b2 = core ?c" using keeps_get [OF s2(3), of v ?c] by auto
  let ?t = "s2\<lparr>ticks := Suc (ticks s2), last_check := clock s2 (ticks s2)\<rparr>"
  have "holds (vbufs ?t) v (sent out vcp N)" using holds_core(1) [OF s2(3) h1(2)] by simp
  then obtain s3 q where s3: "track_send vcp v ?t = Some s3"
      "sender out vcp s3 (?vc\<lparr>sends_outstanding := n, send_window := q\<rparr>) L (Suc N) (u\<lparr>u_extq := x, u_win := u_win u @ [v]\<rparr>)"
    using track_send_ok [of out vcp ?t "?vc\<lparr>sends_outstanding := n\<rparr>" L "Suc N" "u\<lparr>u_extq := x\<rparr>" v] s2(2) N(1) v(1) by (auto simp: loose_def)
  have "\<not> in_sendwin b2" using b2(2) W(2) core_cong(7) [of b2 ?c] by simp
  moreover have "\<not> (q_count (send_window vc) > rdma_default_ud_sendwin_size)"
    using vc(2) N(2) by (simp add: rdma_default_ud_sendwin_size_def word_less_nat_alt unat_of_nat)
  moreover have "number_packet vcp vc v (s\<lparr>vbufs := (vbufs s)(v \<mapsto> b\<lparr>vbuf_vc := Some vcp, header := (header b)\<lparr>srcid := writeid vc\<rparr>\<rparr>)\<rparr>) = Some ?s"
    using vc(1) by (subst number_packet_eq) (simp_all, cases b, simp)
  ultimately have "ud_post_send vcp v s = Some s3"
    using v(2) W(4) vc(1) e s2(1) b2(1) s3(1) by (auto simp: ud_post_send_def put_vbuf_def spawn_clock_time_us_def)
  then show ?thesis using s3(2) N(3) by (intro exI [of _ s3] exI [of _ "?vc\<lparr>sends_outstanding := n, send_window := q\<rparr>"] exI [of _ x]) simp
qed

text \<open>There is no room, or others wait: the packet joins them.\<close>

lemma post_wait_ok:
  assumes s: "sender out vcp s vc L N u" "u_pext u = u_ext u" and v: "loose u (sending s) v" "vbufs s v = Some b" "waiting out (N + length (u_ext u)) b"
    and full: "400 < length (u_win u) \<and> length (u_win u) < 65536 \<or> u_ext u \<noteq> []"
  shows "\<exists>s' q. ud_post_send vcp v s = Some s' \<and> sender out vcp s' (vc\<lparr>ext_window := q\<rparr>) L N (u\<lparr>u_ext := u_ext u @ [v], u_pext := u_ext u @ [v]\<rparr>)"
proof -
  have S: "queues s vc u" "vcs s vcp = Some vc" "q_count (send_window vc) = word_of_nat (length (u_win u))" using s by (auto simp: sender_def)
  let ?b = "b\<lparr>vbuf_vc := Some vcp, header := (header b)\<lparr>srcid := writeid vc\<rparr>\<rparr>"
  let ?h = "(vbufs s)(v \<mapsto> ?b)"
  have s1: "sender out vcp (s\<lparr>vbufs := ?h\<rparr>) vc L N u" by (rule sender_upd [OF s(1) v(1,2)]) simp
  then have e: "extwin_list ?h (ext_window vc) (u_ext u)" using s(2) by (simp add: sender_def queues_def)
  obtain q h where h: "ext_window_add (ext_window vc) v ?h = Some (q, h)" "extwin_list h q (u_ext u @ [v])" "q_count q = q_count (ext_window vc) + 1"
    using ext_window_add_ok [OF e, of v ?b] v(1) by (auto simp: loose_def)
  have k: "keeps core ?h h" "keeps desc_next ?h h" "keeps sendwin_msg ?h h" "keeps unack_msg ?h h" by (rule ext_window_add_keeps [OF h(1)]; simp)+
  let ?u = "u\<lparr>u_ext := u_ext u @ [v], u_pext := u_ext u @ [v]\<rparr>" and ?vc = "vc\<lparr>ext_window := q\<rparr>"
  let ?s = "s\<lparr>vbufs := h, vcs := (vcs s)(vcp \<mapsto> ?vc)\<rparr>"
  have "queues ?s ?vc ?u"
    using s1 s(2) h(2,3) links_kept [OF k(2), of "\<lambda>x. x"] links_kept [OF k(3)] links_kept [OF k(4)] by (auto simp: sender_def queues_def)
  moreover have "use_ok out vcp h (sending s) L N ?u"
  proof -
    have "waiting out (N + length (u_ext u)) ?b" using v(3) by (simp add: waiting_def body_def free_pending_def)
    then have "holds h v (waiting out (N + length (u_ext u)))" by (intro holds_core(2) [OF k(1)]) (simp add: holds_def)
    moreover have "use_ok out vcp h (sending s) L N u" using use_ok_core [OF k(1)] s1 by (simp add: sender_def)
    ultimately show ?thesis by (auto simp: use_ok_def nth_append less_Suc_eq)
  qed
  moreover have "apart ?u (sending s)" using s(1) v(1) by (auto simp: sender_def apart_def loose_def)
  moreover have "\<forall>a b. h a = Some b \<longrightarrow> a < brk s" using keeps_alloc [OF k(1)] s1 by (auto simp: sender_def)
  ultimately have "sender out vcp ?s ?vc L N ?u" using s(1) by (simp add: sender_def)
  moreover have "q_count (send_window vc) > rdma_default_ud_sendwin_size \<or> (q_head (ext_window vc) \<noteq> NULL \<and> q_head (ext_window vc) \<noteq> Some v)"
    using full S(3) chainD(2) [OF e] v(1) first_mem [of "u_ext u" v]
    by (auto simp: loose_def rdma_default_ud_sendwin_size_def word_less_nat_alt unat_of_nat)
  moreover have "content_size b \<le> MRAIL_MAX_UD_SIZE" using v(3) by (simp add: waiting_def)
  ultimately have "ud_post_send vcp v s = Some ?s" "sender out vcp ?s ?vc L N ?u"
    using v(2) S(2) h(1) by (auto simp: ud_post_send_def put_vbuf_def put_vc_def)
  then show ?thesis by blast
qed

section \<open>The sending side of a channel\<close>

definition channel_inv :: "(nat \<Rightarrow> 8 word \<times> byte list) \<Rightarrow> nat \<Rightarrow> ib \<Rightarrow> vc \<Rightarrow> nat \<Rightarrow> use \<Rightarrow> bool" where
  "channel_inv out vcp s vc L u \<longleftrightarrow> sender out vcp s vc L (L + length (u_win u)) u \<and> seqnum_next_tosend vc = word_of_nat (L + length (u_win u))
     \<and> u_pext u = u_ext u \<and> length (u_win u) \<le> 401 \<and> (u_ext u \<noteq> [] \<longrightarrow> 400 \<le> length (u_win u))"

definition written :: "nat \<Rightarrow> use \<Rightarrow> nat" where
  "written L u = L + length (u_win u) + length (u_ext u)"

lemma post_new_ok:
  assumes s: "channel_inv out vcp s vc L u" and v: "loose u (sending s) v" "vbufs s v = Some b" "waiting out (written L u) b"
  shows "\<exists>s' vc' u'. ud_post_send vcp v s = Some s' \<and> channel_inv out vcp s' vc' L u' \<and> written L u' = Suc (written L u) \<and> length (u_win u) \<le> length (u_win u')"
proof -
  let ?N = "L + length (u_win u)"
  have S: "sender out vcp s vc L ?N u" "u_pext u = u_ext u" "length (u_win u) \<le> 401" using s by (auto simp: channel_inv_def)
  show ?thesis
  proof (cases "400 < length (u_win u) \<or> u_ext u \<noteq> []")
    case True
    then have full: "400 < length (u_win u) \<and> length (u_win u) < 65536 \<or> u_ext u \<noteq> []" using S(3) by auto
    obtain s' q where s': "ud_post_send vcp v s = Some s'" "sender out vcp s' (vc\<lparr>ext_window := q\<rparr>) L ?N (u\<lparr>u_ext := u_ext u @ [v], u_pext := u_ext u @ [v]\<rparr>)"
      using post_wait_ok [OF S(1,2) v(1,2) _ full] v(3) by (auto simp: written_def)
    have "channel_inv out vcp s' (vc\<lparr>ext_window := q\<rparr>) L (u\<lparr>u_ext := u_ext u @ [v], u_pext := u_ext u @ [v]\<rparr>)"
      using s s'(2) True by (auto simp: channel_inv_def)
    then show ?thesis using s'(1) by (intro exI [of _ s'] exI) (auto simp: written_def)
  next
    case False
    then have e: "u_ext u = []" "u\<lparr>u_ext := tl (u_ext u)\<rparr> = u" "length (u_win u) \<le> 400" by auto
    have s1: "sender out vcp s vc L (Suc ?N) u" using sender_next [OF S(1)] unfolding e(2) .
    have "q_head (ext_window vc) = NULL" using S(1,2) e(1) by (auto simp: sender_def queues_def dest: chainD(2))
    moreover have "waiting out ?N b" using v(3) e(1) by (simp add: written_def)
    ultimately obtain s' vc' x where s': "ud_post_send vcp v s = Some s'" "sender out vcp s' vc' L (Suc ?N) (u\<lparr>u_extq := x, u_win := u_win u @ [v]\<rparr>)"
        "seqnum_next_tosend vc' = word_of_nat (Suc ?N)"
      using post_send_ok [OF s1 refl e(3) _ v(1,2)] s by (auto simp: channel_inv_def)
    have "channel_inv out vcp s' vc' L (u\<lparr>u_extq := x, u_win := u_win u @ [v]\<rparr>)" using s s' e by (simp add: channel_inv_def)
    then show ?thesis using s'(1) by (intro exI [of _ s'] exI) (auto simp: written_def)
  qed
qed

lemma packet_send_ok:
  assumes s: "channel_inv out vcp s vc L u" and p: "out (written L u) = (ty, pl)" "length pl \<le> payload_max"
  shows "\<exists>s' vc' u'. packet_send vcp ty pl s = Some (SPAWN_SUCCESS, s') \<and> channel_inv out vcp s' vc' L u' \<and> written L u' = Suc (written L u) \<and> length (u_win u) \<le> length (u_win u')"
proof -
  let ?N = "L + length (u_win u)"
  have S: "sender out vcp s vc L ?N u" using s by (auto simp: channel_inv_def)
  obtain v b s1 vs where g: "vbuf_get s = Some (v, s1)" "sender out vcp s1 vc L ?N (u\<lparr>u_free := vs\<rparr>)" "loose (u\<lparr>u_free := vs\<rparr>) (sending s1) v"
      "vbufs s1 v = Some b" "\<not> in_sendwin b" "flags b = 0"
    using vbuf_get_ok [OF S] by blast
  let ?c = "b\<lparr>header := \<lparr>ptype = ty, srcid = 0xfcfcfcfcfcfcfcfc, pseqnum = 0xfcfc, acknum = 0xfcfc\<rparr>, payload := pl, content_size := header_size + length pl\<rparr>"
  let ?s = "s1\<lparr>vbufs := (vbufs s1)(v \<mapsto> ?c)\<rparr>" and ?u = "u\<lparr>u_free := vs\<rparr>"
  have "sender out vcp ?s vc L ?N ?u" by (rule sender_upd [OF g(2,3,4)]) simp
  then have "channel_inv out vcp ?s vc L ?u" using s by (simp add: channel_inv_def)
  moreover have "waiting out (written L ?u) ?c"
    using p g(5,6) by (simp add: waiting_def body_def free_pending_def written_def payload_max_def header_size_def MRAIL_MAX_UD_SIZE_def)
  ultimately obtain s' vc' u' where "ud_post_send vcp v ?s = Some s'" "channel_inv out vcp s' vc' L u'" "written L u' = Suc (written L ?u)" "length (u_win ?u) \<le> length (u_win u')"
    using post_new_ok [of out vcp ?s vc L ?u v ?c] g(3) by auto
  moreover have "\<not> MRAIL_MAX_UD_SIZE - header_size < length pl" using p(2) by (simp add: payload_max_def)
  ultimately show ?thesis using g(1,4) by (auto simp: packet_send_def put_vbuf_def written_def)
qed

section \<open>Writing\<close>

function pieces :: "byte list \<Rightarrow> byte list list" where
  "pieces bs = (if bs = [] then [] else take payload_max bs # pieces (drop payload_max bs))"
  by auto
termination
  by (relation "measure length") (use payload_max_pos in auto)

declare pieces.simps [simp del]

lemma concat_pieces: "concat (pieces bs) = bs"
proof (induction bs rule: pieces.induct)
  case (1 bs)
  then show ?case by (subst pieces.simps) simp
qed

lemma write_packets_ok:
  assumes "channel_inv out vcp s vc L u" "\<forall>i<length (pieces bs). out (written L u + i) = (PKT_UD_DATA, pieces bs ! i)"
  shows "\<exists>s' vc' u'. write_packets vcp bs s = Some (SPAWN_SUCCESS, s') \<and> channel_inv out vcp s' vc' L u' \<and> written L u' = written L u + length (pieces bs)
    \<and> length (u_win u) \<le> length (u_win u')"
  using assms
proof (induction bs arbitrary: s vc u rule: pieces.induct)
  case (1 bs)
  show ?case
  proof (cases "bs = []")
    case True
    then show ?thesis using 1(2) by (auto simp: write_packets.simps [of vcp "[]"] pieces.simps [of "[]"])
  next
    case False
    have p: "pieces bs = take payload_max bs # pieces (drop payload_max bs)" using False by (subst pieces.simps) simp
    have "out (written L u) = (PKT_UD_DATA, take payload_max bs)" using 1(3) p by (auto dest: spec [of _ 0])
    then obtain s1 vc1 u1 where s1: "packet_send vcp PKT_UD_DATA (take payload_max bs) s = Some (SPAWN_SUCCESS, s1)" "channel_inv out vcp s1 vc1 L u1"
        "written L u1 = Suc (written L u)" "length (u_win u) \<le> length (u_win u1)"
      using packet_send_ok [OF 1(2), of PKT_UD_DATA "take payload_max bs"] by auto
    have "\<forall>i<length (pieces (drop payload_max bs)). out (written L u1 + i) = (PKT_UD_DATA, pieces (drop payload_max bs) ! i)"
      using 1(3) p s1(3) by (auto dest: spec [of _ "Suc _"])
    from 1(1) [OF False s1(2) this] show ?thesis
      using s1(1,3,4) p False by (fastforce simp: write_packets.simps [of vcp bs])
  qed
qed

section \<open>Acknowledgements\<close>

lemma send_window_remove_core:
  assumes "send_window_remove q v h = Some (q', h')" "h v = Some b"
  shows "keeps core (h(v \<mapsto> b\<lparr>in_sendwin := False\<rparr>)) h'"
proof -
  obtain q1 h1 where h1: "q_unlink sendwin_msg sendwin_msg_update q v h = Some (q1, h1)" "write_vbuf (Some v) (in_sendwin_update (\<lambda>_. False)) h1 = Some h'"
    using assms(1) by (auto simp: send_window_remove_def split: bind_splits)
  have k: "keeps core h h1" by (rule sendwin.unlink_keeps [OF h1(1)]) simp
  obtain c where c: "h1 v = Some c" "core c = core b" using keeps_get [OF k assms(2)] by blast
  have "h' = h1(v \<mapsto> c\<lparr>in_sendwin := False\<rparr>)" using h1(2) c(1) by simp
  moreover have "core (c\<lparr>in_sendwin := False\<rparr>) = core (b\<lparr>in_sendwin := False\<rparr>)" using c(2) by (simp add: core_def)
  ultimately show ?thesis using k by (simp add: keeps_def)
qed

text \<open>The first packet of the window leaves it and the queue.\<close>

lemma window_pop:
  assumes s: "sender out vcp s vc L N u" and w: "u_win u = v # vs"
  shows "\<exists>s' q b. (unwindow vcp v s \<bind> unack v) = Some s' \<and> sender out vcp s' (vc\<lparr>send_window := q\<rparr>) (Suc L) N (u\<lparr>u_win := vs\<rparr>)
    \<and> vbufs s' v = Some b \<and> \<not> in_sendwin b \<and> \<not> free_pending b \<and> sending s' = sending s"
proof -
  have S: "queues s vc u" "use_ok out vcp (vbufs s) (sending s) L N u" "vcs s vcp = Some vc" using s by (auto simp: sender_def)
  obtain b where b: "vbufs s v = Some b" "sent out vcp L b" using S(2) w by (auto simp: use_ok_def holds_def dest!: spec [of _ 0])
  have l: "sendwin_list (vbufs s) (send_window vc) ([] @ v # vs)" using S(1) w by (simp add: queues_def)
  obtain q h1 where h1: "send_window_remove (send_window vc) v (vbufs s) = Some (q, h1)" "sendwin_list h1 q vs" "q_count q = q_count (send_window vc) - 1"
    using send_window_remove_ok [OF l] by auto
  have k1: "keeps desc_next (vbufs s) h1" "keeps unack_msg (vbufs s) h1" "keeps extwin_msg (vbufs s) h1" by (rule send_window_remove_keeps [OF h1(1)]; simp)+
  have c1: "keeps core ((vbufs s)(v \<mapsto> b\<lparr>in_sendwin := False\<rparr>)) h1" by (rule send_window_remove_core [OF h1(1) b(1)])
  have ul: "unack_list h1 (unack_queue s) ([] @ v # vs)" using S(1) w links_kept [OF k1(2)] by (simp add: queues_def)
  obtain q2 h2 where h2: "unack_queue_remove (unack_queue s) v h1 = Some (q2, h2)" "unack_list h2 q2 vs" using unack_queue_remove_ok [OF ul] by auto
  have k2: "keeps core h1 h2" "keeps desc_next h1 h2" "keeps sendwin_msg h1 h2" "keeps extwin_msg h1 h2" by (rule unack_queue_remove_keeps [OF h2(1)]; simp)+
  have kd: "keeps desc_next (vbufs s) h2" "keeps extwin_msg (vbufs s) h2" using k1 k2 keeps_trans by blast+
  have c2: "keeps core ((vbufs s)(v \<mapsto> b\<lparr>in_sendwin := False\<rparr>)) h2" by (rule keeps_trans [OF c1 k2(1)])
  obtain b2 where b2: "h2 v = Some b2" "core b2 = core (b\<lparr>in_sendwin := False\<rparr>)" using keeps_get [OF c2, of v] by auto
  let ?u = "u\<lparr>u_win := vs\<rparr>" and ?vc = "vc\<lparr>send_window := q\<rparr>"
  let ?s = "s\<lparr>vbufs := h2, vcs := (vcs s)(vcp \<mapsto> ?vc), unack_queue := q2\<rparr>"
  have "queues ?s ?vc ?u"
    using S(1) h1(2) h2(2) links_kept [OF k2(3)] links_kept [OF kd(2)] links_kept [OF kd(1), of "\<lambda>x. x"] by (auto simp: queues_def)
  moreover have "use_ok out vcp h2 (sending s) (Suc L) N ?u"
  proof -
    have "use_ok out vcp ((vbufs s)(v \<mapsto> b\<lparr>in_sendwin := False\<rparr>)) (sending s) L N u"
      by (rule use_ok_change [OF S(2) b(1)]) (auto simp: sent_def waiting_def busy_def in_progress_def free_pending_def carries_def body_def)
    then have "use_ok out vcp h2 (sending s) L N u" by (rule use_ok_core [OF c2])
    then show ?thesis using w by (auto simp: use_ok_def dest!: spec [of _ "Suc _"])
  qed
  moreover have "apart ?u (sending s)" using s w by (auto simp: sender_def apart_def)
  moreover have "\<forall>a b. h2 a = Some b \<longrightarrow> a < brk s" using keeps_alloc [OF kd(1)] s by (auto simp: sender_def)
  ultimately have "sender out vcp ?s ?vc (Suc L) N ?u" using s h1(3) w by (simp add: sender_def)
  moreover have "(unwindow vcp v s \<bind> unack v) = Some ?s" using h1(1) h2(1) S(3) by (simp add: unwindow_def unack_def put_vc_def)
  moreover have "\<not> in_sendwin b2" "\<not> free_pending b2" using core_cong [OF b2(2)] b(2) by (auto simp: sent_def free_pending_def)
  ultimately show ?thesis using b2(1) by (intro exI [of _ ?s] exI [of _ q] exI [of _ b2]) simp
qed

lemma sender_change:
  assumes s: "sender out vcp s vc L N u" and b: "vbufs s v = Some b"
    and l: "v \<in> set (u_free u @ u_extq u) \<Longrightarrow> desc_next c = desc_next b" "sendwin_msg c = sendwin_msg b" "unack_msg c = unack_msg b" "v \<in> set (u_pext u) \<Longrightarrow> extwin_msg c = extwin_msg b"
    and k: "v \<in> set (u_win u) \<Longrightarrow> (\<And>k. sent out vcp k b \<Longrightarrow> sent out vcp k c)" "v \<in> set (u_ext u) \<Longrightarrow> (\<And>k. waiting out k b \<Longrightarrow> waiting out k c)"
      "v \<in> set (u_extq u @ sending s) \<Longrightarrow> busy out vcp N b \<Longrightarrow> busy out vcp N c" "v \<in> set (u_free u) \<Longrightarrow> \<not> in_sendwin c"
  shows "sender out vcp (s\<lparr>vbufs := (vbufs s)(v \<mapsto> c)\<rparr>) vc L N u"
proof -
  let ?h = "(vbufs s)(v \<mapsto> c)"
  have kp: "keeps sendwin_msg (vbufs s) ?h" "keeps unack_msg (vbufs s) ?h" using b l by (auto intro: keeps_upd)
  have c: "use_ok out vcp (vbufs s) (sending s) L N u" using s by (simp add: sender_def)
  have "use_ok out vcp ?h (sending s) L N u" by (rule use_ok_change [OF c b]) (use k in auto)
  moreover have "extwin_list ?h (ext_window vc) (u_pext u)" using s b l(4) by (intro chain_same) (auto simp: sender_def queues_def)
  moreover have "chain desc_next ?h (free_queue (free_head s) (u_free u)) (u_free u)" "sendq_list ?h (ext_send_queue (ud s)) (u_extq u)"
    using s b l(1) by (auto simp: sender_def queues_def intro!: chain_same)
  ultimately show ?thesis using s b links_kept [OF kp(1)] links_kept [OF kp(2)] by (auto simp: sender_def queues_def)
qed

lemma chain_cons:
  assumes c: "chain nx h q xs" and v: "v \<notin> set xs" "h v = Some b" "nx b = first xs" and q: "q_head q' = Some v" "q_tail q' = endof (v # xs)"
  shows "chain nx h q' (v # xs)"
proof (rule chainI)
  show "distinct (v # xs)" using chainD(1) [OF c] v(1) by simp
  show "\<exists>w. h a = Some w \<and> nx w = nxt (v # xs) a" if "a \<in> set (v # xs)" for a
    using that chain_get [OF c, of a] v by (cases "a = v") auto
qed (use q in simp_all)

lemma sender_busy: "sender out vcp s vc L N u \<Longrightarrow> v \<in> set (u_extq u @ sending s) \<Longrightarrow> \<exists>b. vbufs s v = Some b \<and> busy out vcp N b"
  unfolding sender_def use_ok_def holds_def by blast

lemma release_ok:
  assumes s: "sender out vcp s vc L N u" and v: "v \<notin> set (u_win u) \<union> set (u_ext u) \<union> set (u_free u) \<union> set (u_pext u)" "vbufs s v = Some b" "\<not> in_sendwin b"
  shows "\<exists>s' x. vbuf_release v s = Some s' \<and> sender out vcp s' vc L N (u\<lparr>u_free := x\<rparr>) \<and> sending s' = sending s"
proof (cases "in_progress b")
  case True
  let ?c = "b\<lparr>flags := or (flags b) UD_VBUF_FREE_PENDING\<rparr>"
  have "sender out vcp (s\<lparr>vbufs := (vbufs s)(v \<mapsto> ?c)\<rparr>) vc L N u"
    using v(1,3) flag_bits(4) [of "flags b"]
    by (intro sender_change [OF s v(2)]) (auto simp: busy_def in_progress_def carries_def body_def)
  moreover have "vbuf_release v s = Some (s\<lparr>vbufs := (vbufs s)(v \<mapsto> ?c)\<rparr>)"
    using True v(2) by (simp add: vbuf_release_def put_vbuf_def in_progress_def)
  ultimately show ?thesis by (intro exI [of _ "s\<lparr>vbufs := (vbufs s)(v \<mapsto> ?c)\<rparr>"] exI [of _ "u_free u"]) simp
next
  case False
  have "v \<notin> set (u_extq u @ sending s)" using False sender_busy [OF s, of v] v(2) by (auto simp: busy_def)
  then have l: "loose u (sending s) v" using v(1) by (auto simp: loose_def)
  have f: "chain desc_next (vbufs s) (free_queue (free_head s) (u_free u)) (u_free u)" using s by (simp add: sender_def queues_def)
  have hd: "free_head s = first (u_free u)" "free_head s \<noteq> Some v" using chainD(2) [OF f] v(1) first_mem [of "u_free u" v] by auto
  let ?h = "(vbufs s)(v \<mapsto> freed (free_head s) b)" and ?u = "u\<lparr>u_free := v # u_free u\<rparr>"
  have s1: "sender out vcp (s\<lparr>vbufs := ?h\<rparr>) vc L N u" using v(1) by (intro sender_upd [OF s l v(2)]) simp
  have "chain desc_next ?h (free_queue (Some v) (v # u_free u)) (v # u_free u)"
    using chain_upd [OF f, of v "freed (free_head s) b"] v(1) hd(1) by (intro chain_cons) (auto simp: freed_def)
  moreover have "holds ?h v (\<lambda>b. \<not> in_sendwin b)" using v(3) by (simp add: holds_def freed_def)
  moreover have "apart ?u (sending s)" using s l by (auto simp: sender_def apart_def loose_def)
  ultimately have "sender out vcp (s\<lparr>vbufs := ?h, free_head := Some v\<rparr>) vc L N ?u"
    using s1 by (auto simp: sender_def queues_def use_ok_def)
  moreover have "vbuf_release v s = Some (s\<lparr>vbufs := ?h, free_head := Some v\<rparr>)"
    using vbuf_release_idle [OF v(2) _ hd(2)] False by (simp add: in_progress_def)
  ultimately show ?thesis by (intro exI [of _ "s\<lparr>vbufs := ?h, free_head := Some v\<rparr>"] exI [of _ "v # u_free u"]) simp
qed

text \<open>One packet is acknowledged.\<close>

lemma ack_one:
  assumes s: "sender out vcp s vc L N u" "u_pext u = u_ext u" and w: "u_win u = v # vs"
  shows "\<exists>s' q x. (unwindow vcp v s \<bind> unack v \<bind> vbuf_release v) = Some s' \<and> sender out vcp s' (vc\<lparr>send_window := q\<rparr>) (Suc L) N (u\<lparr>u_win := vs, u_free := x\<rparr>)"
proof -
  obtain s1 q b where s1: "(unwindow vcp v s \<bind> unack v) = Some s1" "sender out vcp s1 (vc\<lparr>send_window := q\<rparr>) (Suc L) N (u\<lparr>u_win := vs\<rparr>)"
      "vbufs s1 v = Some b" "\<not> in_sendwin b"
    using window_pop [OF s(1) w] by blast
  have "distinct (v # vs)" "v \<notin> set (u_ext u) \<union> set (u_free u)" using s(1) w by (auto simp: sender_def queues_def apart_def chain_def)
  then show ?thesis using release_ok [OF s1(2) _ s1(3,4)] s(2) s1(1) by auto
qed

text \<open>
  An acknowledgement of all packets before the \<open>r\<close>-th, which may be old: those packets are dropped from
  the window.
\<close>

lemma ack_test:
  assumes "r \<le> N" "N \<le> L + 401" "L \<le> N" "L \<le> r + 60000"
  shows "INCL_BETWEEN (uint (word_of_nat r - 1 :: u16)) (uint (word_of_nat L :: u16)) (uint (word_of_nat N :: u16)) \<longleftrightarrow> L < r"
proof -
  have n: "unat (word_of_nat N - word_of_nat L :: u16) = N - L" using assms by (intro unat_diff_num) auto
  have "unat (word_of_nat r - 1 - word_of_nat L :: u16) \<le> N - L \<longleftrightarrow> L < r"
  proof (cases "L < r")
    case True
    then have "(word_of_nat r - 1 :: u16) = word_of_nat (r - 1)" by (simp add: of_nat_diff)
    then have "unat (word_of_nat r - 1 - word_of_nat L :: u16) = r - 1 - L" using unat_diff_num [of L "r - 1"] True assms by simp
    then show ?thesis using True assms by simp
  next
    case False
    have "(word_of_nat r - 1 - word_of_nat L :: u16) = word_of_nat r - word_of_nat (Suc L)" by simp
    moreover have "unat (word_of_nat r - word_of_nat (Suc L) :: u16) = 65536 - (Suc L - r)" using False assms by (intro unat_diff_old) auto
    ultimately have "unat (word_of_nat r - 1 - word_of_nat L :: u16) = 65536 - (Suc L - r)" by (simp only:)
    then show ?thesis using False assms by simp
  qed
  then show ?thesis using n by (simp only: incl_between)
qed

lemma ack_loop_ok:
  assumes "sender out vcp s vc L (L + length (u_win u)) u" "u_pext u = u_ext u" "seqnum_next_tosend vc = word_of_nat (L + length (u_win u))"
    "length (u_win u) \<le> 401" "r \<le> L + length (u_win u)" "L \<le> r + 60000"
  shows "\<exists>s' q x. ack_loop vcp (word_of_nat r - 1) s = Some s' \<and> sender out vcp s' (vc\<lparr>send_window := q\<rparr>) (max L r) (L + length (u_win u))
    (u\<lparr>u_win := drop (r - L) (u_win u), u_free := x\<rparr>)"
  using assms
proof (induction "u_win u" arbitrary: s vc L u)
  case Nil
  have vc: "vcs s vcp = Some vc" "q_head (send_window vc) = NULL" using Nil by (auto simp: sender_def queues_def dest: chainD(2))
  then have "ack_loop vcp (word_of_nat r - 1) s = Some s" by (subst ack_loop.simps) simp
  moreover have "u\<lparr>u_win := drop (r - L) (u_win u), u_free := u_free u\<rparr> = u" by (cases u) (use Nil(1) in simp)
  moreover have "max L r = L" using Nil(1) Nil(6) by simp
  ultimately show ?case using Nil(2) by (intro exI [of _ s] exI [of _ "send_window vc"] exI [of _ "u_free u"]) (simp only: vc.surjective, simp)
next
  case (Cons v vs)
  have w: "u_win u = v # vs" using Cons(2) by simp
  let ?N = "L + length (u_win u)"
  have vc: "vcs s vcp = Some vc" "q_head (send_window vc) = Some v" using Cons w by (auto simp: sender_def queues_def dest: chainD(2))
  obtain b where b: "vbufs s v = Some b" "seqnum b = word_of_nat L" using Cons(3) w by (auto simp: sender_def use_ok_def holds_def sent_def dest!: spec [of _ 0])
  have t: "INCL_BETWEEN (uint (word_of_nat r - 1 :: u16)) (uint (seqnum b)) (uint (seqnum_next_tosend vc)) \<longleftrightarrow> L < r"
    unfolding b(2) Cons(5) using Cons(6,7,8) by (intro ack_test) auto
  show ?case
  proof (cases "L < r")
    case False
    then have "ack_loop vcp (word_of_nat r - 1) s = Some s" using vc b(1) t by (subst ack_loop.simps) simp
    moreover have "u\<lparr>u_win := drop (r - L) (u_win u), u_free := u_free u\<rparr> = u" using False by simp
    ultimately show ?thesis using Cons(3) False by (intro exI [of _ s] exI [of _ "send_window vc"] exI [of _ "u_free u"]) (simp add: max_def)
  next
    case True
    obtain s1 q x where s1: "(unwindow vcp v s \<bind> unack v \<bind> vbuf_release v) = Some s1" "sender out vcp s1 (vc\<lparr>send_window := q\<rparr>) (Suc L) ?N (u\<lparr>u_win := vs, u_free := x\<rparr>)"
      using ack_one [OF Cons(3,4) w] by blast
    have step: "ack_loop vcp (word_of_nat r - 1) s = ack_loop vcp (word_of_nat r - 1) s1"
      using vc b(1) t True s1(1) by (subst ack_loop.simps) (auto split: bind_splits)
    let ?u = "u\<lparr>u_win := vs, u_free := x\<rparr>"
    have N: "?N = Suc L + length (u_win ?u)" using w by simp
    obtain s' q' x' where "ack_loop vcp (word_of_nat r - 1) s1 = Some s'"
        "sender out vcp s' (vc\<lparr>send_window := q, send_window := q'\<rparr>) (max (Suc L) r) ?N (?u\<lparr>u_win := drop (r - Suc L) (u_win ?u), u_free := x'\<rparr>)"
      using Cons(1) [of ?u s1 "vc\<lparr>send_window := q\<rparr>" "Suc L"] s1(2) Cons(4-8) w True unfolding N [symmetric] by auto
    moreover have "drop (r - L) (u_win u) = drop (r - Suc L) vs" using w True by (simp add: drop_Cons' Suc_diff_Suc)
    ultimately show ?thesis using step True by (intro exI [of _ s'] exI [of _ q'] exI [of _ x']) simp
  qed
qed

text \<open>
  The queue of waiting packets is emptied from its head, and the end of it is corrected after the loop only:
  the channel the invariant is about has the right end.
\<close>

definition mended :: "vc \<Rightarrow> nat list \<Rightarrow> vc" where
  "mended vc xs = vc\<lparr>ext_window := (ext_window vc)\<lparr>q_tail := endof xs\<rparr>\<rparr>"

definition flushing :: "(nat \<Rightarrow> 8 word \<times> byte list) \<Rightarrow> nat \<Rightarrow> ib \<Rightarrow> vc \<Rightarrow> nat \<Rightarrow> use \<Rightarrow> bool" where
  "flushing out vcp s vc L u \<longleftrightarrow> vcs s vcp = Some vc \<and> (u_ext u \<noteq> [] \<longrightarrow> q_tail (ext_window vc) = endof (u_ext u)) \<and> u_pext u = u_ext u
     \<and> seqnum_next_tosend vc = word_of_nat (L + length (u_win u)) \<and> length (u_win u) \<le> 401
     \<and> sender out vcp (s\<lparr>vcs := (vcs s)(vcp \<mapsto> mended vc (u_ext u))\<rparr>) (mended vc (u_ext u)) L (L + length (u_win u)) u"

lemma mended_same: "q_tail (ext_window vc) = endof xs \<Longrightarrow> mended vc xs = vc"
  by (simp add: mended_def)

lemma flushing_sender:
  assumes "flushing out vcp s vc L u" "q_tail (ext_window vc) = endof (u_ext u)"
  shows "sender out vcp s vc L (L + length (u_win u)) u"
proof -
  have "s\<lparr>vcs := (vcs s)(vcp \<mapsto> vc)\<rparr> = s" using assms(1) by (simp add: flushing_def fun_upd_idem)
  then show ?thesis using assms by (simp add: flushing_def mended_same)
qed

lemma vcs_vbufs: "s\<lparr>vcs := f, vbufs := h\<rparr> = s\<lparr>vbufs := h, vcs := f\<rparr>"
  by simp

lemma flush_pop:
  assumes s: "sender out vcp s vc L N u" "u_pext u = v # vs" "v \<notin> set (u_ext u) \<union> set (u_free u)"
    and q: "q_head q = first vs" "q_tail q = endof vs" "q_count q = q_count (ext_window vc) - 1" and b: "vbufs s v = Some b"
  shows "sender out vcp (s\<lparr>vbufs := (vbufs s)(v \<mapsto> b\<lparr>extwin_msg := m\<rparr>), vcs := (vcs s)(vcp \<mapsto> vc\<lparr>ext_window := q, ext_win_send_count := n\<rparr>)\<rparr>)
    (vc\<lparr>ext_window := q, ext_win_send_count := n\<rparr>) L N (u\<lparr>u_pext := vs\<rparr>)"
proof -
  have e: "extwin_list (vbufs s) (ext_window vc) (v # vs)" "q_count (ext_window vc) = word_of_nat (length (v # vs))"
    using s(1) unfolding s(2) [symmetric] by (auto simp: sender_def queues_def)
  have "extwin_list (vbufs s) q vs" by (rule chain_tl [OF e(1) q(1,2)])
  moreover have "q_count q = word_of_nat (length vs)" using q(3) e(2) by simp
  ultimately have "sender out vcp (s\<lparr>vcs := (vcs s)(vcp \<mapsto> vc\<lparr>ext_window := q, ext_win_send_count := n\<rparr>)\<rparr>) (vc\<lparr>ext_window := q, ext_win_send_count := n\<rparr>) L N (u\<lparr>u_pext := vs\<rparr>)"
    using s(1) by (auto simp: sender_def queues_def apart_def use_ok_def)
  from sender_change [OF this, of v b "b\<lparr>extwin_msg := m\<rparr>"] chainD(1) [OF e(1)] b s(3)
  have "sender out vcp (s\<lparr>vcs := (vcs s)(vcp \<mapsto> vc\<lparr>ext_window := q, ext_win_send_count := n\<rparr>), vbufs := (vbufs s)(v \<mapsto> b\<lparr>extwin_msg := m\<rparr>)\<rparr>)
    (vc\<lparr>ext_window := q, ext_win_send_count := n\<rparr>) L N (u\<lparr>u_pext := vs\<rparr>)"
    by (simp add: sent_def busy_def waiting_def carries_def body_def free_pending_def in_progress_def)
  then show ?thesis by (simp only: vcs_vbufs)
qed

lemma flush_step:
  assumes f: "flushing out vcp s vc L u" and e: "u_ext u = v # vs" and w: "length (u_win u) < 400"
  shows "\<exists>s' vc' u'. flush_loop vcp (Some v) s = flush_loop vcp (first vs) s' \<and> flushing out vcp s' vc' L u' \<and> u_ext u' = vs
    \<and> length (u_win u') = Suc (length (u_win u))"
proof -
  let ?N = "L + length (u_win u)"
  have F: "q_tail (ext_window vc) = endof (u_ext u)" "u_pext u = v # vs" "seqnum_next_tosend vc = word_of_nat ?N" using f e by (auto simp: flushing_def)
  have S: "sender out vcp s vc L ?N u" by (rule flushing_sender [OF f F(1)])
  then have vc: "vcs s vcp = Some vc" "q_count (send_window vc) = word_of_nat (length (u_win u))" "extwin_list (vbufs s) (ext_window vc) (v # vs)"
    using F(2) by (auto simp: sender_def queues_def)
  obtain b where b: "vbufs s v = Some b" "waiting out ?N b" using S e by (auto simp: sender_def use_ok_def holds_def dest!: spec [of _ 0])
  have nx: "lnext (extwin_msg b) = first vs" "q_head (ext_window vc) = Some v" using vc(3) b(1) by (auto simp: chain_def)
  have s1: "sender out vcp s vc L (Suc ?N) (u\<lparr>u_ext := vs\<rparr>)" using sender_next [OF S] e by simp
  have d: "v \<notin> set vs" using chainD(1) [OF vc(3)] by simp
  have l: "loose (u\<lparr>u_ext := vs\<rparr>) (sending s) v" using S e d by (auto simp: sender_def apart_def loose_def)
  obtain s2 vc2 x where s2: "ud_post_send vcp v s = Some s2" "sender out vcp s2 vc2 L (Suc ?N) (u\<lparr>u_ext := vs, u_extq := x, u_win := u_win u @ [v]\<rparr>)"
      "seqnum_next_tosend vc2 = word_of_nat (Suc ?N)" "ext_window vc2 = ext_window vc"
    using post_send_ok [OF s1 _ _ F(3) l b] w nx(2) by auto
  have vc2: "vcs s2 vcp = Some vc2" using s2(2) by (simp add: sender_def)
  obtain c where c: "vbufs s2 v = Some c" using s2(2) by (auto simp: sender_def use_ok_def holds_def nth_append dest!: spec [of _ "length (u_win u)"])
  let ?q = "(ext_window vc)\<lparr>q_head := first vs, q_count := q_count (ext_window vc) - 1\<rparr>" and ?n = "ext_win_send_count vc2 + 1"
  let ?vc = "vc2\<lparr>ext_window := ?q, ext_win_send_count := ?n\<rparr>"
  let ?s = "s2\<lparr>vbufs := (vbufs s2)(v \<mapsto> c\<lparr>extwin_msg := \<lparr>lnext = NULL, lprev = NULL\<rparr>\<rparr>), vcs := (vcs s2)(vcp \<mapsto> ?vc)\<rparr>"
  let ?u = "u\<lparr>u_ext := vs, u_extq := x, u_win := u_win u @ [v], u_pext := vs\<rparr>"
  have "flush_loop vcp (Some v) s = flush_loop vcp (first vs) ?s"
    using vc(1,2) w b(1) nx(1) s2(1,4) vc2 c
    by (subst flush_loop.simps) (simp add: put_vc_def put_vbuf_def Let_def rdma_default_ud_sendwin_size_def word_less_nat_alt unat_of_nat)
  moreover have m: "mended ?vc vs = vc2\<lparr>ext_window := ?q\<lparr>q_tail := endof vs\<rparr>, ext_win_send_count := ?n\<rparr>" by (simp add: mended_def)
  moreover have "sender out vcp (?s\<lparr>vcs := (vcs ?s)(vcp \<mapsto> mended ?vc vs)\<rparr>) (mended ?vc vs) L (Suc ?N) ?u"
    using flush_pop [OF s2(2) _ _ _ _ _ c, of vs "?q\<lparr>q_tail := endof vs\<rparr>" ?n "\<lparr>lnext = NULL, lprev = NULL\<rparr>"] F(2) l s2(4) 
    by (simp add: m loose_def)
  moreover have "vs \<noteq> [] \<longrightarrow> q_tail ?q = endof vs" using F(1) e by (cases vs rule: rev_cases) auto
  ultimately show ?thesis using s2(3) w by (intro exI [of _ ?s] exI [of _ ?vc] exI [of _ ?u]) (simp add: flushing_def)
qed

lemma flush_loop_ok:
  assumes "flushing out vcp s vc L u"
  shows "\<exists>s' vc' u'. flush_loop vcp (first (u_ext u)) s = Some s' \<and> flushing out vcp s' vc' L u' \<and> written L u' = written L u \<and> length (u_win u) \<le> length (u_win u')
    \<and> (u_ext u' = [] \<or> 400 \<le> length (u_win u'))"
  using assms
proof (induction "u_ext u" arbitrary: s vc u)
  case Nil
  then have "flush_loop vcp (first (u_ext u)) s = Some s" by (subst flush_loop.simps) (simp flip: Nil(1))
  then show ?case using Nil by (intro exI [of _ s] exI [of _ vc] exI [of _ u]) simp
next
  case (Cons v vs)
  have e: "u_ext u = v # vs" using Cons(2) by simp
  show ?case
  proof (cases "length (u_win u) < 400")
    case True
    then obtain s1 vc1 u1 where s1: "flush_loop vcp (Some v) s = flush_loop vcp (first vs) s1" "flushing out vcp s1 vc1 L u1" "u_ext u1 = vs"
        "length (u_win u1) = Suc (length (u_win u))"
      using flush_step [OF Cons(3) e] by blast
    have "written L u1 = written L u" using s1(3,4) e by (simp add: written_def)
    then show ?thesis using Cons(1) [OF s1(3) [symmetric] s1(2)] s1(1,3,4) e by fastforce
  next
    case False
    have "vcs s vcp = Some vc" "q_count (send_window vc) = word_of_nat (length (u_win u))" "length (u_win u) \<le> 401"
      using Cons(3) by (auto simp: flushing_def sender_def mended_def)
    then have "flush_loop vcp (first (u_ext u)) s = Some s"
      using False e by (subst flush_loop.simps) (simp add: rdma_default_ud_sendwin_size_def word_less_nat_alt unat_of_nat)
    then show ?thesis using Cons(3) False by (intro exI [of _ s] exI [of _ vc] exI [of _ u]) simp
  qed
qed

lemma flush_ok:
  assumes s: "sender out vcp s vc L (L + length (u_win u)) u" "u_pext u = u_ext u" "seqnum_next_tosend vc = word_of_nat (L + length (u_win u))" "length (u_win u) \<le> 401"
  shows "\<exists>s' vc' u'. ud_flush_ext_window vcp s = Some s' \<and> channel_inv out vcp s' vc' L u' \<and> written L u' = written L u \<and> length (u_win u) \<le> length (u_win u')"
proof -
  have e: "extwin_list (vbufs s) (ext_window vc) (u_ext u)" "vcs s vcp = Some vc" using s(1,2) by (auto simp: sender_def queues_def)
  have "mended vc (u_ext u) = vc" "s\<lparr>vcs := (vcs s)(vcp \<mapsto> vc)\<rparr> = s"
    using chainD(3) [OF e(1)] e(2) by (simp_all add: mended_same fun_upd_idem)
  then have "flushing out vcp s vc L u" using s chainD(3) [OF e(1)] e(2) by (simp add: flushing_def)
  then obtain s1 vc1 u1 where s1: "flush_loop vcp (first (u_ext u)) s = Some s1" "flushing out vcp s1 vc1 L u1" "written L u1 = written L u" "length (u_win u) \<le> length (u_win u1)"
      "u_ext u1 = [] \<or> 400 \<le> length (u_win u1)"
    using flush_loop_ok by blast
  have hd: "q_head (ext_window vc) = first (u_ext u)" using chainD(2) [OF e(1)] .
  have F: "vcs s1 vcp = Some vc1" "q_head (ext_window vc1) = first (u_ext u1)" "q_count (ext_window vc1) = word_of_nat (length (u_ext u1))"
    using s1(2) by (auto simp: flushing_def sender_def queues_def mended_def dest: chainD(2))
  show ?thesis
  proof (cases "u_ext u1 = []")
    case True
    then have "ud_flush_ext_window vcp s = Some (s1\<lparr>vcs := (vcs s1)(vcp \<mapsto> mended vc1 [])\<rparr>)"
      using e(2) hd s1(1) F by (simp add: ud_flush_ext_window_def put_vc_def mended_def)
    moreover have "channel_inv out vcp (s1\<lparr>vcs := (vcs s1)(vcp \<mapsto> mended vc1 [])\<rparr>) (mended vc1 []) L u1"
      using s1(2) True by (auto simp: channel_inv_def flushing_def mended_def)
    ultimately show ?thesis using s1(3,4) by blast
  next
    case False
    then have "ud_flush_ext_window vcp s = Some s1" using e(2) hd s1(1) F by (cases "u_ext u1") (simp_all add: ud_flush_ext_window_def)
    moreover have "channel_inv out vcp s1 vc1 L u1"
      using s1(2,5) False flushing_sender [OF s1(2)] by (auto simp: channel_inv_def flushing_def)
    ultimately show ?thesis using s1(3,4) by blast
  qed
qed

lemma process_ack_ok:
  assumes s: "channel_inv out vcp s vc L u" and r: "r \<le> L + length (u_win u)" "L \<le> r + 60000"
  shows "\<exists>s' vc' u'. ud_process_ack vcp (word_of_nat r - 1) s = Some s' \<and> channel_inv out vcp s' vc' (max L r) u' \<and> written (max L r) u' = written L u
    \<and> L + length (u_win u) \<le> max L r + length (u_win u')"
proof -
  have C: "sender out vcp s vc L (L + length (u_win u)) u" "u_pext u = u_ext u" "seqnum_next_tosend vc = word_of_nat (L + length (u_win u))" "length (u_win u) \<le> 401"
    using s by (auto simp: channel_inv_def)
  let ?u = "\<lambda>x. u\<lparr>u_win := drop (r - L) (u_win u), u_free := x\<rparr>"
  obtain s1 q x where s1: "ack_loop vcp (word_of_nat r - 1) s = Some s1" "sender out vcp s1 (vc\<lparr>send_window := q\<rparr>) (max L r) (L + length (u_win u)) (?u x)"
    using ack_loop_ok [OF C r] by blast
  have N: "L + length (u_win u) = max L r + length (u_win (?u x))" "length (u_win (?u x)) \<le> 401" using r C(4) by auto
  have w: "written (max L r) (?u x) = written L u" using N(1) by (simp add: written_def)
  have q: "vcs s1 vcp = Some (vc\<lparr>send_window := q\<rparr>)" "q_count q = word_of_nat (length (u_win (?u x)))" "q_head (ext_window vc) = first (u_ext u)"
    using s1(2) C(2) by (auto simp: sender_def queues_def dest: chainD(2))
  show ?thesis
  proof (cases "u_ext u \<noteq> [] \<and> length (u_win (?u x)) < 400")
    case True
    then have "ud_process_ack vcp (word_of_nat r - 1) s = ud_flush_ext_window vcp s1"
      using s1(1) q N(2) by (cases "u_ext u") (auto simp: ud_process_ack_def rdma_default_ud_sendwin_size_def word_less_nat_alt unat_of_nat)
    moreover have "sender out vcp s1 (vc\<lparr>send_window := q\<rparr>) (max L r) (max L r + length (u_win (?u x))) (?u x)" using s1(2) N(1) by (simp only:)
    ultimately show ?thesis using flush_ok [of out vcp s1 "vc\<lparr>send_window := q\<rparr>" "max L r" "?u x"] C(2,3) N w by (fastforce simp del: length_drop)
  next
    case False
    then have "ud_process_ack vcp (word_of_nat r - 1) s = Some s1"
      using s1(1) q N(2) by (auto simp: ud_process_ack_def rdma_default_ud_sendwin_size_def word_less_nat_alt unat_of_nat)
    moreover have "channel_inv out vcp s1 (vc\<lparr>send_window := q\<rparr>) (max L r) (?u x)"
      using s1(2) C(2,3) N False unfolding channel_inv_def by (auto simp del: length_drop)
    ultimately show ?thesis using w N(1) by (metis order_refl)
  qed
qed

end
