(* ===== verification/Ib_Calm.thy ===== *)
theory Ib_Calm
  imports Ib_Api
begin

text \<open>
  What sending and the handling of acknowledgements and completions leave alone, in a process in which no channel
  is being closed: no channel is closed by them, and how often a packet was sent again does not change.
\<close>

definition calm :: "nat \<Rightarrow> ib \<Rightarrow> bool" where
  "calm T s \<longleftrightarrow> (\<forall>a b. vbufs s a = Some b \<longrightarrow> unat (retry_count b) \<le> T)
     \<and> (\<forall>i vc. vcs s i = Some vc \<longrightarrow> state vc \<noteq> VC_STATE_CLOSING \<and> \<not> remote_closed vc)"

lemma calm_keeps:
  assumes "calm T s" "keeps retry_count (vbufs s) h"
  shows "calm T (s\<lparr>vbufs := h\<rparr>)"
proof -
  have "unat (retry_count b) \<le> T" if b: "h a = Some b" for a b
  proof -
    have "map_option retry_count (vbufs s a) = Some (retry_count b)" using assms(2) b unfolding keeps_def by (metis option.simps(9))
    then obtain c where "vbufs s a = Some c" "retry_count c = retry_count b" by auto
    then show ?thesis using assms(1) unfolding calm_def by metis
  qed
  then show ?thesis using assms(1) by (simp add: calm_def)
qed

lemma calm_other [simp]:
  "calm T (s\<lparr>ud := x\<rparr>) = calm T s" "calm T (s\<lparr>sending := xs\<rparr>) = calm T s" "calm T (s\<lparr>posted := ps\<rparr>) = calm T s"
  "calm T (s\<lparr>free_head := p\<rparr>) = calm T s" "calm T (s\<lparr>unack_queue := q\<rparr>) = calm T s" "calm T (s\<lparr>ticks := n\<rparr>) = calm T s" "calm T (s\<lparr>last_check := t\<rparr>) = calm T s"
  by (simp_all add: calm_def)

lemma calm_put_vbuf:
  assumes "put_vbuf v f s = Some s'" "calm T s" "\<And>b. retry_count (f b) = retry_count b \<or> retry_count (f b) = 0"
  shows "calm T s'"
proof -
  obtain b where b: "vbufs s v = Some b" "s' = s\<lparr>vbufs := (vbufs s)(v \<mapsto> f b)\<rparr>" using assms(1) by (auto simp: put_vbuf_def write_vbuf_def)
  have "unat (retry_count (f b)) \<le> T" using assms(2,3) b(1) by (metis calm_def le0 unsigned_0)
  then show ?thesis using assms(2) b by (simp add: calm_def)
qed

lemma calm_put_vc:
  assumes "put_vc vcp f s = Some s'" "calm T s" "\<And>vc. state (f vc) = state vc \<and> remote_closed (f vc) = remote_closed vc"
  shows "calm T s'"
  using assms by (auto simp: put_vc_def calm_def split: if_splits)

lemma calm_region: "calm T s \<Longrightarrow> calm T (fresh_region n s)"
  by (auto simp: calm_def fresh_region_def zero_vbuf_def split: if_splits)

lemma calm_vbuf_get: "vbuf_get s = Some (v, s') \<Longrightarrow> calm T s \<Longrightarrow> calm T s'"
  unfolding vbuf_get_def vbuf_region_alloc_def Let_def using calm_region
  by (auto split: bind_splits if_splits dest!: calm_put_vbuf)

lemma calm_vbuf_release: "vbuf_release v s = Some s' \<Longrightarrow> calm T s \<Longrightarrow> calm T s'"
  unfolding vbuf_release_def Let_def
  by (auto split: bind_splits if_splits intro: calm_put_vbuf elim!: calm_put_vbuf)

lemma calm_post_wqe: "post_wqe vcp v s = Some s' \<Longrightarrow> calm T s \<Longrightarrow> calm T s'"
  unfolding post_wqe_def ibv_post_send_def Let_def
  by (auto split: bind_splits dest: calm_put_vc)

lemma calm_queue_ext: "queue_ext v s = Some s' \<Longrightarrow> calm T s \<Longrightarrow> calm T s'"
  unfolding queue_ext_def by (auto split: bind_splits intro!: calm_keeps intro: ext_sendq_add_keeps)

lemma calm_post_sr: "ibv_ud_post_sr v vcp s = Some s' \<Longrightarrow> calm T s \<Longrightarrow> calm T s'"
  by (auto simp: ibv_ud_post_sr_def split: if_splits dest: calm_queue_ext calm_post_wqe)

lemma calm_track_send: "track_send vcp v s = Some s' \<Longrightarrow> calm T s \<Longrightarrow> calm T s'"
  unfolding track_send_def
  by (auto split: bind_splits dest!: calm_put_vbuf calm_put_vc send_window_add_keeps [where g = retry_count] unack_queue_add_keeps [where g = retry_count]
    intro!: calm_keeps)

lemma calm_number_packet: "number_packet vcp vc v s = Some s' \<Longrightarrow> calm T s \<Longrightarrow> calm T s'"
  unfolding number_packet_def
  by (auto split: bind_splits dest!: calm_put_vc elim!: calm_put_vbuf)

lemma calm_post_send: "ud_post_send vcp v s = Some s' \<Longrightarrow> calm T s \<Longrightarrow> calm T s'"
proof -
  assume s: "ud_post_send vcp v s = Some s'" "calm T s"
  obtain s1 vc where s1: "put_vbuf v (\<lambda>b. b\<lparr>vbuf_vc := Some vcp, header := (header b)\<lparr>srcid := writeid vc\<rparr>\<rparr>) s = Some s1"
    and c: "(\<exists>q h. ext_window_add (ext_window vc) v (vbufs s1) = Some (q, h) \<and> put_vc vcp (\<lambda>vc. vc\<lparr>ext_window := q\<rparr>) (s1\<lparr>vbufs := h\<rparr>) = Some s')
      \<or> (\<exists>s2 s3. number_packet vcp vc v s1 = Some s2 \<and> ibv_ud_post_sr v vcp s2 = Some s3
         \<and> (let t = s3\<lparr>ticks := Suc (ticks s3), last_check := clock s3 (ticks s3)\<rparr> in s' = t \<or> track_send vcp v t = Some s'))"
    using s(1) by (auto simp: ud_post_send_def spawn_clock_time_us_def Let_def split: bind_splits if_splits)
  have "calm T s1" by (rule calm_put_vbuf [OF s1 s(2)]) simp
  from c show ?thesis
  proof (elim disjE exE conjE)
    fix q h assume h: "ext_window_add (ext_window vc) v (vbufs s1) = Some (q, h)" "put_vc vcp (\<lambda>vc. vc\<lparr>ext_window := q\<rparr>) (s1\<lparr>vbufs := h\<rparr>) = Some s'"
    show ?thesis by (rule calm_put_vc [OF h(2)]) (use \<open>calm T s1\<close> ext_window_add_keeps [OF h(1), of retry_count] calm_keeps in auto)
  next
    fix s2 s3 assume "number_packet vcp vc v s1 = Some s2" "ibv_ud_post_sr v vcp s2 = Some s3"
      "let t = s3\<lparr>ticks := Suc (ticks s3), last_check := clock s3 (ticks s3)\<rparr> in s' = t \<or> track_send vcp v t = Some s'"
    moreover from this have "calm T s3" using \<open>calm T s1\<close> calm_number_packet calm_post_sr by blast
    ultimately show ?thesis using calm_track_send [of vcp v _ s' T] by (auto simp: Let_def)
  qed
qed

lemma calm_unwindow: "unwindow vcp v s = Some s' \<Longrightarrow> calm T s \<Longrightarrow> calm T s'"
  unfolding unwindow_def
  by (auto split: bind_splits dest!: send_window_remove_keeps [where g = retry_count] elim!: calm_put_vc intro!: calm_keeps)

lemma calm_unack: "unack v s = Some s' \<Longrightarrow> calm T s \<Longrightarrow> calm T s'"
  unfolding unack_def
  by (auto split: bind_splits dest!: unack_queue_remove_keeps [where g = retry_count] intro!: calm_keeps)

lemma calm_ack_loop_imp: "ack_loop vcp num s = Some s' \<Longrightarrow> calm T s \<longrightarrow> calm T s'"
  by (erule ack_loop.raw_induct [where P = "\<lambda>_ _ s s'. calm T s \<longrightarrow> calm T s'", rotated])
    (auto split: bind_splits option.splits if_splits dest!: calm_unwindow calm_unack calm_vbuf_release)

lemmas calm_ack_loop = calm_ack_loop_imp [rule_format]

lemma calm_flush_loop_imp: "flush_loop vcp cur s = Some s' \<Longrightarrow> calm T s \<longrightarrow> calm T s'"
  by (erule flush_loop.raw_induct [where P = "\<lambda>_ _ s s'. calm T s \<longrightarrow> calm T s'", rotated])
    (auto split: bind_splits option.splits if_splits simp: Let_def dest!: calm_post_send calm_put_vc calm_put_vbuf)

lemmas calm_flush_loop = calm_flush_loop_imp [rule_format]

lemma calm_process_ack: "ud_process_ack vcp num s = Some s' \<Longrightarrow> calm T s \<Longrightarrow> calm T s'"
  unfolding ud_process_ack_def ud_flush_ext_window_def
  by (auto split: bind_splits if_splits dest!: calm_ack_loop calm_flush_loop elim!: calm_put_vc)

lemma calm_packet_send: "packet_send vcp ty pl s = Some (rc, s') \<Longrightarrow> calm T s \<Longrightarrow> calm T s'"
  unfolding packet_send_def
  by (auto split: bind_splits if_splits dest!: calm_vbuf_get calm_post_send elim!: calm_put_vbuf)

lemma calm_write_packets: "write_packets vcp bs s = Some (rc, s') \<Longrightarrow> calm T s \<Longrightarrow> calm T s'"
proof (induction vcp bs s rule: write_packets.induct)
  case (1 vcp bs s)
  show ?case using 1(2,3)
    by (subst (asm) write_packets.simps) (auto split: bind_splits if_splits dest!: 1(1) dest: calm_packet_send)
qed

lemma calm_credit_loop_imp: "credit_loop cur s = Some s' \<Longrightarrow> calm T s \<longrightarrow> calm T s'"
  by (erule credit_loop.raw_induct [where P = "\<lambda>_ s s'. calm T s \<longrightarrow> calm T s'", rotated])
    (auto split: bind_splits option.splits if_splits simp: Let_def dest!: calm_post_wqe calm_put_vbuf)

lemmas calm_credit_loop = calm_credit_loop_imp [rule_format]

end
