(* ===== verification/Ib_Resend.thy ===== *)
theory Ib_Resend
  imports Ib_Send Ib_Calm
begin

text \<open>
  Completions of sends, packets that waited for the card, and sending again: what they keep of
  the invariant of \<open>Ib_Send\<close>.
\<close>

section \<open>Completions\<close>

lemma sender_done:
  assumes s: "sender out vcp s vc L N u" and v: "v \<in> set (sending s)"
  shows "sender out vcp (s\<lparr>sending := remove1 v (sending s), ud := (ud s)\<lparr>num_sends_posted := n\<rparr>\<rparr>) vc L N u"
    "v \<notin> set (u_extq u @ remove1 v (sending s)) \<union> set (u_free u) \<union> set (u_ext u)"
proof -
  have d: "distinct (u_extq u @ sending s)" "v \<notin> set (u_extq u)" "v \<notin> set (u_free u)" "v \<notin> set (u_ext u)" using s v by (auto simp: sender_def apart_def)
  then have r: "set (remove1 v (sending s)) = set (sending s) - {v}" by simp
  have "apart u (remove1 v (sending s))" using s d(1) r by (auto simp: sender_def apart_def)
  moreover have "use_ok out vcp (vbufs s) (remove1 v (sending s)) L N u" using s r by (auto simp: sender_def use_ok_def)
  ultimately show "sender out vcp (s\<lparr>sending := remove1 v (sending s), ud := (ud s)\<lparr>num_sends_posted := n\<rparr>\<rparr>) vc L N u"
    using s by (simp add: sender_def queues_def)
  show "v \<notin> set (u_extq u @ remove1 v (sending s)) \<union> set (u_free u) \<union> set (u_ext u)" using d r by simp
qed

text \<open>The flags of a buffer that the card has not got.\<close>

lemma sender_flags:
  assumes s: "sender out vcp s vc L N u" and b: "vbufs s v = Some b" "v \<notin> set (u_extq u @ sending s)"
    and f: "and f 1 \<noteq> 0 \<Longrightarrow> free_pending b"
  shows "sender out vcp (s\<lparr>vbufs := (vbufs s)(v \<mapsto> b\<lparr>flags := f\<rparr>)\<rparr>) vc L N u"
proof (rule sender_change [OF s b(1)])
  show "v \<in> set (u_free u) \<Longrightarrow> \<not> in_sendwin (b\<lparr>flags := f\<rparr>)" using s b(1) by (auto simp: sender_def use_ok_def holds_def)
qed (use f b(2) in \<open>auto simp: sent_def waiting_def free_pending_def carries_def body_def\<close>)

lemma cq_send_ok:
  assumes s: "channel_inv out vcp s vc L u" "calm T s" and v: "v \<in> set (sending s)"
  shows "\<exists>s' vc' u'. cq_send v s = Some s' \<and> channel_inv out vcp s' vc' L u' \<and> written L u' = written L u \<and> u_win u' = u_win u"
proof -
  let ?N = "L + length (u_win u)"
  have S: "sender out vcp s vc L ?N u" "u_pext u = u_ext u" using s by (auto simp: channel_inv_def)
  have vc: "vcs s vcp = Some vc" "state vc \<noteq> VC_STATE_CLOSING" using S(1) s(2) by (auto simp: sender_def calm_def)
  obtain b where b: "vbufs s v = Some b" "busy out vcp ?N b" using sender_busy [OF S(1), of v] v by auto
  let ?f = "and (flags b) (not 2)" and ?vc = "vc\<lparr>sends_outstanding := sends_outstanding vc - 1\<rparr>"
  let ?s1 = "s\<lparr>sending := remove1 v (sending s), ud := (ud s)\<lparr>num_sends_posted := num_sends_posted (ud s) - 1\<rparr>, vcs := (vcs s)(vcp \<mapsto> ?vc)\<rparr>"
  let ?s2 = "?s1\<lparr>vbufs := (vbufs s)(v \<mapsto> b\<lparr>flags := ?f\<rparr>)\<rparr>"
  note d = sender_done [OF S(1) v]
  have s1: "sender out vcp ?s1 ?vc L ?N u" using sender_vc [OF d(1), of ?vc] by simp
  have s2: "sender out vcp ?s2 ?vc L ?N u"
    using sender_flags [OF s1, of v b ?f] b(1) d(2) flag_bits(6) [of "flags b"] by (simp add: free_pending_def)
  have C: "channel_inv out vcp t ?vc L (u\<lparr>u_free := x\<rparr>)" if "sender out vcp t ?vc L ?N (u\<lparr>u_free := x\<rparr>)" for t x using that s(1) by (simp add: channel_inv_def)
  show ?thesis
  proof (cases "free_pending b")
    case False
    then have "cq_send v s = Some ?s2" using b vc by (simp add: cq_send_def put_vc_def put_vbuf_def busy_def in_progress_def free_pending_def)
    moreover have "channel_inv out vcp ?s2 ?vc L u" using C [of ?s2 "u_free u"] s2 by simp
    ultimately show ?thesis by blast
  next
    case True
    let ?s3 = "?s1\<lparr>vbufs := (vbufs s)(v \<mapsto> b\<lparr>flags := and ?f (not 1)\<rparr>)\<rparr>"
    have s3: "sender out vcp ?s3 ?vc L ?N u"
      using sender_flags [OF s1, of v b "and ?f (not 1)"] b(1) d(2) flag_bits(7) [of ?f] by simp
    have "v \<notin> set (u_win u)" using S(1) b(1) True by (auto simp: sender_def use_ok_def holds_def sent_def in_set_conv_nth)
    then obtain s' x where s': "vbuf_release v ?s3 = Some s'" "sender out vcp s' ?vc L ?N (u\<lparr>u_free := x\<rparr>)"
      using release_ok [OF s3, of v "b\<lparr>flags := and ?f (not 1)\<rparr>"] d(2) S(2) b(2) True by (auto simp: busy_def)
    have "cq_send v s = Some s'" using b vc True s'(1) by (simp add: cq_send_def put_vc_def put_vbuf_def busy_def in_progress_def free_pending_def)
    then show ?thesis using C [OF s'(2)] by (intro exI [of _ s'] exI [of _ ?vc] exI [of _ "u\<lparr>u_free := x\<rparr>"]) (simp add: written_def)
  qed
qed

section \<open>Room for sends\<close>

lemma credit_step:
  assumes s: "sender out vcp s vc L N u" and e: "u_extq u = v # vs" and a: "send_wqes_avail (ud s) > 0"
  shows "\<exists>s' n. credit_loop (Some v) s = credit_loop (first vs) s' \<and> sender out vcp s' (vc\<lparr>sends_outstanding := n\<rparr>) L N (u\<lparr>u_extq := vs\<rparr>)"
proof -
  let ?q = "ext_send_queue (ud s)" and ?u = "u\<lparr>u_extq := vs\<rparr>"
  have q: "sendq_list (vbufs s) ?q (v # vs)" "apart u (sending s)" using s e by (auto simp: sender_def queues_def)
  obtain b where b: "vbufs s v = Some b" "busy out vcp N b" using sender_busy [OF s, of v] e by auto
  have n: "desc_next b = first vs" "v \<notin> set vs" using q(1) b(1) by (auto simp: chain_def)
  define q' where "q' = (let q = ?q\<lparr>q_head := first vs\<rparr>; q = (if first vs = NULL then q\<lparr>q_tail := NULL\<rparr> else q) in q\<lparr>q_count := q_count q - 1\<rparr>)"
  let ?c = "b\<lparr>desc_next := NULL\<rparr>"
  let ?s1 = "s\<lparr>ud := (ud s)\<lparr>ext_send_queue := q'\<rparr>\<rparr>"
  have "q_tail ?q = endof (v # vs)" using chainD(3) [OF q(1)] .
  then have "q_head q' = first vs" "q_tail q' = endof vs" by (cases vs; simp add: q'_def Let_def)+
  then have "sendq_list (vbufs s) q' vs" by (intro chain_tl [OF q(1)])
  then have "sender out vcp ?s1 vc L N ?u" using s e by (auto simp: sender_def queues_def apart_def use_ok_def)
  moreover have l: "v \<notin> set vs \<union> set (sending s) \<union> set (u_free u) \<union> set (u_ext u)" using q(2) e by (auto simp: apart_def)
  ultimately have s2: "sender out vcp (?s1\<lparr>vbufs := (vbufs s)(v \<mapsto> ?c)\<rparr>) vc L N ?u"
    using sender_change [of out vcp ?s1 vc L N ?u v b ?c] b(1) by (auto simp: sent_def free_pending_def carries_def body_def)
  have "holds ((vbufs s)(v \<mapsto> ?c)) v (busy out vcp N)"
    using b(2) by (simp add: holds_def busy_def carries_def body_def free_pending_def in_progress_def)
  then obtain s3 where s3: "post_wqe vcp v (?s1\<lparr>vbufs := (vbufs s)(v \<mapsto> ?c)\<rparr>) = Some s3"
      "sender out vcp s3 (vc\<lparr>sends_outstanding := sends_outstanding vc + 1\<rparr>) L N ?u"
    using post_wqe_ok [OF s2, of v] l by auto
  let ?s4 = "s3\<lparr>ud := (ud s3)\<lparr>ext_sendq_count := ext_sendq_count (ud s3) + 1\<rparr>\<rparr>"
  have "sender out vcp ?s4 (vc\<lparr>sends_outstanding := sends_outstanding vc + 1\<rparr>) L N ?u" using s3(2) by (simp add: sender_def queues_def)
  moreover have "credit_loop (Some v) s = credit_loop (first vs) ?s4"
    using a b n(1) s3(1) by (subst credit_loop.simps; cases vs) (simp_all add: q'_def Let_def put_vbuf_def busy_def)
  ultimately show ?thesis by blast
qed

lemma credit_loop_ok:
  assumes "sender out vcp s vc L N u"
  shows "\<exists>s' n x. credit_loop (first (u_extq u)) s = Some s' \<and> sender out vcp s' (vc\<lparr>sends_outstanding := n\<rparr>) L N (u\<lparr>u_extq := x\<rparr>)"
  using assms
proof (induction "u_extq u" arbitrary: s vc u)
  case Nil
  have "credit_loop (first (u_extq u)) s = Some s" by (subst credit_loop.simps) (simp flip: Nil(1))
  then show ?case using Nil(2) by (intro exI [of _ s] exI [of _ "sends_outstanding vc"] exI [of _ "u_extq u"]) simp
next
  case (Cons v vs)
  have e: "u_extq u = v # vs" using Cons(2) by simp
  show ?case
  proof (cases "send_wqes_avail (ud s) > 0")
    case True
    obtain s1 n where s1: "credit_loop (Some v) s = credit_loop (first vs) s1" "sender out vcp s1 (vc\<lparr>sends_outstanding := n\<rparr>) L N (u\<lparr>u_extq := vs\<rparr>)"
      using credit_step [OF Cons(3) e True] by blast
    from Cons(1) [of "u\<lparr>u_extq := vs\<rparr>", OF _ s1(2)] obtain s' n' x where
      "credit_loop (first vs) s1 = Some s'" "sender out vcp s' (vc\<lparr>sends_outstanding := n'\<rparr>) L N (u\<lparr>u_extq := x\<rparr>)" by auto
    then show ?thesis using s1(1) e by auto
  next
    case False
    then have "credit_loop (first (u_extq u)) s = Some s" using e by (subst credit_loop.simps) simp
    then show ?thesis using Cons(3) by (intro exI [of _ s] exI [of _ "sends_outstanding vc"] exI [of _ "u_extq u"]) simp
  qed
qed

lemma update_credits_ok:
  assumes s: "channel_inv out vcp s vc L u"
  shows "\<exists>s' vc' u'. ud_update_send_credits m s = Some s' \<and> channel_inv out vcp s' vc' L u' \<and> written L u' = written L u \<and> u_win u' = u_win u"
proof -
  let ?s = "s\<lparr>ud := (ud s)\<lparr>send_wqes_avail := send_wqes_avail (ud s) + m\<rparr>\<rparr>"
  have s0: "sender out vcp s vc L (L + length (u_win u)) u" using s by (simp add: channel_inv_def)
  then have s1: "sender out vcp ?s vc L (L + length (u_win u)) u" by (simp add: sender_def queues_def)
  obtain s' n x where "credit_loop (first (u_extq u)) ?s = Some s'" "sender out vcp s' (vc\<lparr>sends_outstanding := n\<rparr>) L (L + length (u_win u)) (u\<lparr>u_extq := x\<rparr>)"
    using credit_loop_ok [OF s1] by blast
  moreover have "q_head (ext_send_queue (ud s)) = first (u_extq u)" using s0 by (auto simp: sender_def queues_def dest: chainD(2))
  moreover have "channel_inv out vcp s' (vc\<lparr>sends_outstanding := n\<rparr>) L (u\<lparr>u_extq := x\<rparr>)" using calculation(2) s by (simp add: channel_inv_def)
  ultimately show ?thesis
    by (intro exI [of _ s'] exI [of _ "vc\<lparr>sends_outstanding := n\<rparr>"] exI [of _ "u\<lparr>u_extq := x\<rparr>"]) (simp add: ud_update_send_credits_def written_def)
qed

section \<open>Sending again\<close>

text \<open>The buffer as it is sent again.\<close>

definition again :: "vc \<Rightarrow> vbuf \<Rightarrow> vbuf" where
  "again vc b = b\<lparr>retry_count := retry_count b + 1, header := (header b)\<lparr>acknum := seqnum_next_toack vc\<rparr>, flags := or (flags b) UD_VBUF_SEND_INPROGRESS\<rparr>"

lemma again_ok:
  assumes s: "sender out vcp s vc L N u" and v: "vbufs s v = Some b" "v \<in> set (u_win u)" "\<not> in_progress b"
    and i: "i < length (u_win u)" "u_win u ! i = v" "L + i < N"
  shows "sender out vcp (s\<lparr>vbufs := (vbufs s)(v \<mapsto> again vc b)\<rparr>) vc L N u" "busy out vcp N (again vc b)"
    "v \<notin> set (u_extq u @ sending s) \<union> set (u_free u) \<union> set (u_ext u)"
proof -
  have b: "sent out vcp (L + i) b" using s i v(1) by (auto simp: sender_def use_ok_def holds_def)
  show l: "v \<notin> set (u_extq u @ sending s) \<union> set (u_free u) \<union> set (u_ext u)"
    using sender_busy [OF s, of v] s v by (auto simp: busy_def sender_def apart_def)
  have f: "free_pending (again vc b) = free_pending b" "in_progress (again vc b)" "carries out k (again vc b) = carries out k b" for k
    using flag_bits(1,2) [of "flags b"] by (simp_all add: free_pending_def in_progress_def again_def carries_def body_def)
  then have "sent out vcp k b \<Longrightarrow> sent out vcp k (again vc b)" for k by (simp add: sent_def) (simp add: again_def)
  then show "sender out vcp (s\<lparr>vbufs := (vbufs s)(v \<mapsto> again vc b)\<rparr>) vc L N u"
    using l by (intro sender_change [OF s v(1)]) (auto simp: again_def)
  show "busy out vcp N (again vc b)" using f b i(3) by (auto simp: busy_def sent_def again_def)
qed

lemma queue_ext_frame: "queue_ext v s = Some s' \<Longrightarrow> (\<And>f w. g (desc_next_update f w) = g w) \<Longrightarrow> keeps g (vbufs s) (vbufs s') \<and> vcs s' = vcs s"
  by (auto simp: queue_ext_def split: bind_splits intro: ext_sendq_add_keeps)

text \<open>The buffer is handed to the card, or waits for it.\<close>

lemma post_again_ok:
  assumes s: "sender out vcp s vc L N u" and v: "holds (vbufs s) v (busy out vcp N)" "v \<notin> set (u_extq u @ sending s) \<union> set (u_free u) \<union> set (u_ext u)"
  shows "\<exists>s' n x. (if send_wqes_avail (ud s) > 0 then post_wqe vcp v s else queue_ext v s) = Some s' \<and> sender out vcp s' (vc\<lparr>sends_outstanding := n\<rparr>) L N (u\<lparr>u_extq := x\<rparr>)
    \<and> keeps retry_count (vbufs s) (vbufs s')"
proof (cases "send_wqes_avail (ud s) > 0")
  case True
  obtain s' where "post_wqe vcp v s = Some s'" "sender out vcp s' (vc\<lparr>sends_outstanding := sends_outstanding vc + 1\<rparr>) L N u" "vbufs s' = vbufs s"
    using post_wqe_ok [OF s v] by blast
  then show ?thesis using True by (intro exI [of _ s'] exI [of _ "sends_outstanding vc + 1"] exI [of _ "u_extq u"]) simp
next
  case False
  obtain s' where "queue_ext v s = Some s'" "sender out vcp s' vc L N (u\<lparr>u_extq := u_extq u @ [v]\<rparr>)" using queue_ext_ok [OF s v] by blast
  moreover from this have "keeps retry_count (vbufs s) (vbufs s')" using queue_ext_frame [where g = retry_count] by simp
  ultimately show ?thesis using False by (intro exI [of _ s'] exI [of _ "sends_outstanding vc"] exI [of _ "u_extq u @ [v]"]) simp
qed

text \<open>A packet of the window is sent again, unless the card still has it; its count of retries grows.\<close>

lemma resend_ok:
  assumes s: "sender out vcp s vc L N u" "calm (Suc T) s" and v: "vbufs s v = Some b" "v \<in> set (u_win u)" and N: "N = L + length (u_win u)"
    and T: "unat (retry_count b) \<le> T" "T < 1000" and d: "\<forall>k. fst (out k) \<noteq> PKT_UD_DISCONNECT"
  shows "\<exists>s' vc' x. ud_resend v s = Some s' \<and> sender out vcp s' vc' L N (u\<lparr>u_extq := x\<rparr>) \<and> seqnum_next_tosend vc' = seqnum_next_tosend vc \<and> calm (Suc T) s'
    \<and> (\<forall>a. a \<noteq> v \<longrightarrow> map_option retry_count (vbufs s' a) = map_option retry_count (vbufs s a))"
proof (cases "in_progress b")
  case True
  then have "ud_resend v s = Some s" using v(1) by (simp add: ud_resend_def in_progress_def)
  then show ?thesis using s by (intro exI [of _ s] exI [of _ vc] exI [of _ "u_extq u"]) simp
next
  case False
  obtain i where i: "i < length (u_win u)" "u_win u ! i = v" using v(2) by (auto simp: in_set_conv_nth)
  note A = again_ok [OF s(1) v False i] 
  have b: "sent out vcp (L + i) b" "vcs s vcp = Some vc" using s i v(1) by (auto simp: sender_def use_ok_def holds_def)
  have p: "ptype (header b) \<noteq> PKT_UD_DISCONNECT" using b(1) d by (metis carries_def body_def fst_conv sent_def)
  have r: "unat (retry_count b + 1) = Suc (unat (retry_count b))" using T by (simp add: unat_word_ariths)
  then have r: "\<not> retry_count b + 1 > rdma_ud_max_retry_count" "unat (retry_count (again vc b)) \<le> Suc T"
    using T by (auto simp: word_less_nat_alt rdma_ud_max_retry_count_def again_def)
  let ?vc = "vc\<lparr>ack_need_tosend := False\<rparr>" and ?s0 = "s\<lparr>vbufs := (vbufs s)(v \<mapsto> again vc b)\<rparr>"
  let ?s = "?s0\<lparr>vcs := (vcs s)(vcp \<mapsto> ?vc)\<rparr>"
  have s1: "sender out vcp ?s ?vc L N u" using sender_vc [OF A(1), of ?vc] N i by simp
  have h1: "holds (vbufs ?s) v (busy out vcp N)" using A(2) N i by (simp add: holds_def)
  have c1: "calm (Suc T) ?s" using s(2) r(2) b(2) by (auto simp: calm_def)
  obtain s2 n x where s2: "(if send_wqes_avail (ud ?s) > 0 then post_wqe vcp v ?s else queue_ext v ?s) = Some s2"
      "sender out vcp s2 (?vc\<lparr>sends_outstanding := n\<rparr>) L N (u\<lparr>u_extq := x\<rparr>)" "keeps retry_count (vbufs ?s) (vbufs s2)"
    using post_again_ok [OF s1 h1] A(3) N i by auto
  have c2: "calm (Suc T) s2" using s2(1) calm_post_wqe [OF _ c1] calm_queue_ext [OF _ c1] by (auto split: if_splits)
  let ?vc3 = "?vc\<lparr>sends_outstanding := n, resend_count := resend_count vc + 1\<rparr>"
  let ?s3 = "s2\<lparr>vcs := (vcs s2)(vcp \<mapsto> ?vc3)\<rparr>"
  have "sender out vcp ?s3 ?vc3 L N (u\<lparr>u_extq := x\<rparr>)" using sender_vc [OF s2(2), of ?vc3] by simp
  moreover have v2: "vcs s2 vcp = Some (?vc\<lparr>sends_outstanding := n\<rparr>)" using s2(2) by (simp add: sender_def)
  then have "ud_resend v s = Some ?s3"
    using v(1) b p r(1) False s2(1)
    by (cases "0 < send_wqes_avail (ud s)") (simp_all add: ud_resend_def put_vbuf_def put_vc_def in_progress_def sent_def again_def vcs_vbufs)
  moreover have "calm (Suc T) ?s3" using calm_put_vc [of vcp "\<lambda>vc. vc\<lparr>resend_count := resend_count vc + 1\<rparr>" s2 ?s3] c2 v2 by (simp add: put_vc_def)
  moreover have "\<forall>a. a \<noteq> v \<longrightarrow> map_option retry_count (vbufs ?s3 a) = map_option retry_count (vbufs s a)" using s2(3) by (simp add: keeps_def)
  ultimately show ?thesis by (intro exI [of _ ?s3] exI [of _ ?vc3] exI [of _ x]) simp
qed

lemma sender_stamp:
  assumes "sender out vcp s vc L N u" "vbufs s v = Some b"
  shows "sender out vcp (s\<lparr>vbufs := (vbufs s)(v \<mapsto> b\<lparr>timestamp := t\<rparr>)\<rparr>) vc L N u"
proof (rule sender_change [OF assms])
  have c: "core (b\<lparr>timestamp := t\<rparr>) = core b" by simp
  show "sent out vcp k b \<Longrightarrow> sent out vcp k (b\<lparr>timestamp := t\<rparr>)" "waiting out k b \<Longrightarrow> waiting out k (b\<lparr>timestamp := t\<rparr>)"
    "busy out vcp N b \<Longrightarrow> busy out vcp N (b\<lparr>timestamp := t\<rparr>)" for k by (simp_all add: core_cong [OF c])
  show "v \<in> set (u_free u) \<Longrightarrow> \<not> in_sendwin (b\<lparr>timestamp := t\<rparr>)" using assms by (auto simp: sender_def use_ok_def holds_def)
qed simp_all

lemma unack_next:
  assumes "sender out vcp s vc L N u" "u_win u = xs @ v # vs" "vbufs s v = Some b"
  shows "lnext (unack_msg b) = first vs"
proof -
  have "chain (\<lambda>v. lnext (unack_msg v)) (vbufs s) (unack_queue s) (u_win u)" using assms(1) by (simp add: sender_def queues_def)
  then have "lnext (unack_msg b) = nxt (u_win u) v" "distinct (u_win u)" using assms(2,3) by (auto simp: chain_def)
  then show ?thesis unfolding assms(2) by (simp add: nxt_middle)
qed

text \<open>One step of the walk over the packets that are not acknowledged.\<close>

lemma resend_step:
  assumes s: "sender out vcp s vc L N u" "calm (Suc T) s" and w: "u_win u = xs @ v # vs" and N: "N = L + length (u_win u)"
    and T: "\<forall>a\<in>set (v # vs). holds (vbufs s) a (\<lambda>b. unat (retry_count b) \<le> T)" "T < 1000" and d: "\<forall>k. fst (out k) \<noteq> PKT_UD_DISCONNECT"
  shows "\<exists>s' vc' x now'. resend_loop (Some v) now s = resend_loop (first vs) now' s' \<and> sender out vcp s' vc' L N (u\<lparr>u_extq := x\<rparr>)
    \<and> seqnum_next_tosend vc' = seqnum_next_tosend vc \<and> calm (Suc T) s' \<and> (\<forall>a\<in>set vs. holds (vbufs s') a (\<lambda>b. unat (retry_count b) \<le> T))"
proof -
  obtain b where b: "vbufs s v = Some b" "unat (retry_count b) \<le> T" using T(1) by (auto simp: holds_def)
  define late where "late \<longleftrightarrow> now - timestamp b > rdma_ud_min_retry_timeout * int (if retry_count b > 1 then LOG2 (retry_count b) else 1)
    \<or> now - timestamp b > rdma_ud_max_retry_timeout"
  show ?thesis
  proof (cases late)
    case False
    then have "resend_loop (Some v) now s = resend_loop (first vs) now s"
      using b(1) unack_next [OF s(1) w] by (subst resend_loop.simps) (simp add: late_def Let_def)
    then show ?thesis using s T(1) by (intro exI [of _ s] exI [of _ vc] exI [of _ "u_extq u"] exI [of _ now]) simp
  next
    case True
    obtain s1 vc1 x where s1: "ud_resend v s = Some s1" "sender out vcp s1 vc1 L N (u\<lparr>u_extq := x\<rparr>)" "seqnum_next_tosend vc1 = seqnum_next_tosend vc" "calm (Suc T) s1"
        "\<forall>a. a \<noteq> v \<longrightarrow> map_option retry_count (vbufs s1 a) = map_option retry_count (vbufs s a)"
      using resend_ok [OF s b(1) _ N b(2) T(2) d] w by auto
    obtain c where c: "vbufs s1 v = Some c" 
      using use_ok_alloc [of out vcp "vbufs s1" "sending s1" L N "u\<lparr>u_extq := x\<rparr>" v] s1(2) w by (auto simp: sender_def)
    let ?s2 = "s1\<lparr>vbufs := (vbufs s1)(v \<mapsto> c\<lparr>timestamp := now\<rparr>)\<rparr>"
    let ?s3 = "?s2\<lparr>ticks := Suc (ticks s1)\<rparr>"
    have s3: "sender out vcp ?s3 vc1 L N (u\<lparr>u_extq := x\<rparr>)" using sender_stamp [OF s1(2) c, of now] by (simp add: sender_def queues_def)
    have "resend_loop (Some v) now s = resend_loop (first vs) (clock s1 (ticks s1)) ?s3"
      using True b(1) s1(1) c unack_next [OF s3, of xs v vs] w by (subst resend_loop.simps) (simp add: late_def Let_def put_vbuf_def spawn_clock_time_us_def)
    moreover have "calm (Suc T) ?s3" using calm_put_vbuf [of v "timestamp_update (\<lambda>_. now)" s1 ?s2] s1(4) c by (simp add: put_vbuf_def)
    moreover have "v \<notin> set vs" using s(1) w by (auto simp: sender_def queues_def chain_def)
    then have "\<forall>a\<in>set vs. holds (vbufs ?s3) a (\<lambda>b. unat (retry_count b) \<le> T)" using s1(5) T(1) by (fastforce simp: holds_def)
    ultimately show ?thesis using s3 s1(3) by blast
  qed
qed

lemma resend_loop_ok:
  assumes "sender out vcp s vc L N u" "calm (Suc T) s" "u_win u = xs @ vs" "N = L + length (u_win u)"
    "\<forall>a\<in>set vs. holds (vbufs s) a (\<lambda>b. unat (retry_count b) \<le> T)" "T < 1000" "\<forall>k. fst (out k) \<noteq> PKT_UD_DISCONNECT"
  shows "\<exists>s' vc' x. resend_loop (first vs) now s = Some s' \<and> sender out vcp s' vc' L N (u\<lparr>u_extq := x\<rparr>)
    \<and> seqnum_next_tosend vc' = seqnum_next_tosend vc \<and> calm (Suc T) s'"
  using assms
proof (induction vs arbitrary: s vc u xs now)
  case Nil
  have "resend_loop (first []) now s = Some s" by (subst resend_loop.simps) simp
  then show ?case using Nil by (intro exI [of _ s] exI [of _ vc] exI [of _ "u_extq u"]) simp
next
  case (Cons v vs)
  obtain s1 vc1 x now1 where s1: "resend_loop (Some v) now s = resend_loop (first vs) now1 s1" "sender out vcp s1 vc1 L N (u\<lparr>u_extq := x\<rparr>)"
      "seqnum_next_tosend vc1 = seqnum_next_tosend vc" "calm (Suc T) s1" "\<forall>a\<in>set vs. holds (vbufs s1) a (\<lambda>b. unat (retry_count b) \<le> T)"
    using resend_step [OF Cons.prems] by blast
  have "u_win (u\<lparr>u_extq := x\<rparr>) = (xs @ [v]) @ vs" "N = L + length (u_win (u\<lparr>u_extq := x\<rparr>))" using Cons.prems(3,4) by simp_all
  from Cons.IH [OF s1(2,4) this s1(5) Cons.prems(6,7), of now1] show ?case using s1(1,3) by auto
qed

lemma check_resend_ok:
  assumes s: "channel_inv out vcp s vc L u" "calm T s" and T: "T < 1000" and d: "\<forall>k. fst (out k) \<noteq> PKT_UD_DISCONNECT"
  shows "\<exists>r s' vc' u'. ud_check_resend s = Some (r, s') \<and> channel_inv out vcp s' vc' L u' \<and> written L u' = written L u \<and> u_win u' = u_win u \<and> calm (Suc T) s'"
proof -
  let ?N = "L + length (u_win u)"
  have S: "sender out vcp s vc L ?N u" using s by (simp add: channel_inv_def)
  then have hd: "q_head (unack_queue s) = first (u_win u)" by (auto simp: sender_def queues_def dest: chainD(2))
  have c: "calm (Suc T) s" using s(2) by (auto simp: calm_def intro: le_SucI)
  show ?thesis
  proof (cases "u_win u = []")
    case True
    then show ?thesis using s hd c by (auto simp: ud_check_resend_def)
  next
    case False
    let ?s = "s\<lparr>ticks := Suc (ticks s)\<rparr>"
    have s1: "sender out vcp ?s vc L ?N u" using S by (simp add: sender_def queues_def)
    have "\<forall>a\<in>set (u_win u). holds (vbufs ?s) a (\<lambda>b. unat (retry_count b) \<le> T)"
    proof
      fix a assume "a \<in> set (u_win u)"
      then obtain b where "vbufs s a = Some b" using use_ok_alloc [of out vcp "vbufs s" "sending s" L ?N u a] S by (auto simp: sender_def)
      then show "holds (vbufs ?s) a (\<lambda>b. unat (retry_count b) \<le> T)" using s(2) by (auto simp: holds_def calm_def)
    qed
    then obtain s' vc' x where s': "resend_loop (first (u_win u)) (clock s (ticks s)) ?s = Some s'" "sender out vcp s' vc' L ?N (u\<lparr>u_extq := x\<rparr>)"
        "seqnum_next_tosend vc' = seqnum_next_tosend vc" "calm (Suc T) s'"
      using resend_loop_ok [OF s1, of T "[]" "u_win u" "clock s (ticks s)"] c T d by auto
    have "ud_check_resend s = Some (False, s')" using False hd s'(1) by (cases "u_win u") (simp_all add: ud_check_resend_def spawn_clock_time_us_def)
    moreover have "channel_inv out vcp s' vc' L (u\<lparr>u_extq := x\<rparr>)" using s(1) s'(2,3) by (simp add: channel_inv_def)
    ultimately show ?thesis using s'(4) by (intro exI [of _ False] exI [of _ s'] exI [of _ vc'] exI [of _ "u\<lparr>u_extq := x\<rparr>"]) (simp add: written_def)
  qed
qed

lemma calm_cq_send: "cq_send v s = Some s' \<Longrightarrow> calm T s \<Longrightarrow> calm T s'"
proof -
  assume s: "cq_send v s = Some s'" "calm T s"
  obtain b vcp s1 vc where s1: "vbufs s v = Some b" "vbuf_vc b = Some vcp"
      "put_vc vcp (\<lambda>vc. vc\<lparr>sends_outstanding := sends_outstanding vc - 1\<rparr>) (s\<lparr>sending := remove1 v (sending s), ud := (ud s)\<lparr>num_sends_posted := num_sends_posted (ud s) - 1\<rparr>\<rparr>) = Some s1"
      "vcs s1 vcp = Some vc"
    using s(1) by (auto simp: cq_send_def Let_def split: bind_splits)
  have c1: "calm T s1" by (rule calm_put_vc [OF s1(3)]) (use s(2) in simp_all)
  then have "\<not> (state vc = VC_STATE_CLOSING \<and> sends_outstanding vc = 0)" using s1(4) by (auto simp: calm_def)
  then show ?thesis using s(1) s1 c1
    by (auto simp: cq_send_def Let_def split: bind_splits if_splits dest!: calm_put_vbuf dest: calm_vbuf_release)
qed

lemma calm_update_credits: "ud_update_send_credits m s = Some s' \<Longrightarrow> calm T s \<Longrightarrow> calm T s'"
  using calm_credit_loop [of _ _ s' T] by (simp add: ud_update_send_credits_def Let_def)

end
