(* ===== verification/Ib_Recv_Spec.thy ===== *)
theory Ib_Recv_Spec
  imports Ib_Recv
begin

text \<open>What the receiving side of an InfiniBand channel does over any sequence of arrivals.\<close>

section \<open>Arrivals\<close>

text \<open>
  A packet that comes in: the card has written it to a buffer, and \<open>cq_poll\<close> notes its channel and its
  sequence number in the buffer.
\<close>

definition fill :: "nat \<Rightarrow> (8 word \<times> byte list) \<Rightarrow> u16 \<Rightarrow> vbuf \<Rightarrow> vbuf" where
  "fill vcp m n b = b\<lparr>header := (header b)\<lparr>ptype := fst m, pseqnum := n\<rparr>, payload := snd m, content_size := header_size + length (snd m),
     vbuf_vc := Some vcp, seqnum := n\<rparr>"

fun receive_all :: "(nat \<Rightarrow> 8 word \<times> byte list) \<Rightarrow> nat \<Rightarrow> (nat \<times> nat) list \<Rightarrow> ib \<Rightarrow> ib option" where
  "receive_all msgs vcp [] s = Some s"
| "receive_all msgs vcp ((v, k) # arr) s = do {
     s \<leftarrow> put_vbuf v (fill vcp (msgs k) (word_of_nat k)) s;
     s \<leftarrow> mv2_ud_place_recvwin v s;
     receive_all msgs vcp arr s }"

text \<open>The first packet that has not come in.\<close>

function missing :: "nat \<Rightarrow> nat list \<Rightarrow> nat" where
  "missing n ks = (if n \<in> set ks then missing (Suc n) ks else n)"
  by auto
termination
proof (relation "measure (\<lambda>(n, ks). Suc (Max (set ks)) - n)")
  fix n :: nat and ks :: "nat list" assume n: "n \<in> set ks"
  then have "n \<le> Max (set ks)" by simp
  then show "((Suc n, ks), n, ks) \<in> measure (\<lambda>(n, ks). Suc (Max (set ks)) - n)" by simp
qed simp

declare missing.simps [simp del]

text \<open>
  No packet is older than 60000 when it comes in, or more than 2501 ahead of the first that is missing:
  numbers of sixteen bits say no more.
\<close>

fun timely :: "nat list \<Rightarrow> nat list \<Rightarrow> bool" where
  "timely seen [] = True"
| "timely seen (k # ks) \<longleftrightarrow> missing 0 seen \<le> k + 60000 \<and> k \<le> missing 0 seen + 2501 \<and> timely (k # seen) ks"

lemma missing_unique:
  assumes "n \<le> r" "\<forall>i. n \<le> i \<and> i < r \<longrightarrow> i \<in> set ks" "r \<notin> set ks"
  shows "missing n ks = r"
  using assms
proof (induction n ks rule: missing.induct)
  case (1 n ks)
  show ?case
  proof (cases "n = r")
    case True
    then show ?thesis using 1(4) by (subst missing.simps) simp
  next
    case False
    then have "n \<in> set ks" using 1(2,3) by simp
    moreover from this have "missing (Suc n) ks = r" using 1 False by auto
    ultimately show ?thesis by (subst missing.simps) simp
  qed
qed

lemma got_missing:
  assumes "got R xs num = set seen" "settled R xs num"
  shows "missing 0 seen = R"
proof (rule missing_unique)
  show "\<forall>i. 0 \<le> i \<and> i < R \<longrightarrow> i \<in> set seen" using assms(1) by (auto simp: got_def)
  have "R \<notin> got R xs num" using assms(2) by (auto simp: got_def settled_def)
  then show "R \<notin> set seen" using assms(1) by simp
qed simp

lemma fill_arrived:
  assumes "vbufs s v = Some b" "and (flags b) UD_VBUF_SEND_INPROGRESS = 0" "free_head s \<noteq> Some v"
  shows "put_vbuf v (fill vcp (msgs k) (word_of_nat k)) s = Some (s\<lparr>vbufs := (vbufs s)(v \<mapsto> fill vcp (msgs k) (word_of_nat k) b)\<rparr>)"
    "arrived msgs (s\<lparr>vbufs := (vbufs s)(v \<mapsto> fill vcp (msgs k) (word_of_nat k) b)\<rparr>) vcp v k"
  using assms by (simp_all add: put_vbuf_def arrived_def fill_def body_def)

text \<open>The buffers that are still to be filled.\<close>

definition idle :: "ib \<Rightarrow> nat set \<Rightarrow> bool" where
  "idle s V \<longleftrightarrow> (\<forall>v\<in>V. \<exists>b. vbufs s v = Some b \<and> and (flags b) UD_VBUF_SEND_INPROGRESS = 0) \<and> (\<forall>v. free_head s = Some v \<longrightarrow> v \<notin> V)"

lemma idle_entered:
  assumes "idle s V" "v \<notin> V" "entered msgs (s\<lparr>vbufs := (vbufs s)(v \<mapsto> b)\<rparr>) vcp vc R as xs num v k s' vc' bs ys"
  shows "idle s' V"
proof -
  have "\<exists>b. vbufs s' a = Some b \<and> and (flags b) UD_VBUF_SEND_INPROGRESS = 0" if a: "a \<in> V" for a
  proof -
    obtain c where c: "vbufs s a = Some c" "and (flags c) UD_VBUF_SEND_INPROGRESS = 0" using assms(1) a by (auto simp: idle_def)
    have "map_option others (vbufs s' a) = Some (others c)" using assms(3) a assms(2) c(1) by (auto simp: entered_def keeps_but_def)
    then obtain d where "vbufs s' a = Some d" "others d = others c" by auto
    moreover from this have "flags d = flags c" by (metis others_flags)
    ultimately show ?thesis using c(2) by simp
  qed
  moreover have "free_head s' = free_head s \<or> free_head s' = Some v" using assms(3) by (auto simp: entered_def split: if_splits)
  ultimately show ?thesis using assms(1,2) by (auto simp: idle_def)
qed

lemma missing_set: "set ks = set ls \<Longrightarrow> missing n ks = missing n ls"
proof (induction n ks rule: missing.induct)
  case (1 n ks)
  then show ?case by (cases "n \<in> set ks") (simp_all add: missing.simps [of n])
qed

section \<open>All arrivals\<close>

lemma receive_all_ok:
  assumes "vcs s vcp = Some vc" "recv_inv msgs (vbufs s) vc R as xs num" "settled R xs num" "got R xs num = set seen"
    "idle s (fst ` set arr)" "distinct (map fst arr)" "fst ` set arr \<inter> (set as \<union> set xs) = {}" "timely seen (map snd arr)"
    "seqnum_next_toack vc = word_of_nat R - 1"
  shows "\<exists>s' vc' R' bs ys num'. receive_all msgs vcp arr s = Some s' \<and> vcs s' vcp = Some vc' \<and> recv_inv msgs (vbufs s') vc' R' (as @ bs) ys num'
    \<and> R' = missing 0 (map snd arr @ seen) \<and> R' = R + length bs \<and> seqnum_next_toack vc' = word_of_nat R' - 1"
  using assms
proof (induction arr arbitrary: s vc R as xs num seen)
  case Nil
  then show ?case using got_missing [OF Nil(4,3)]
    by (intro exI [of _ s] exI [of _ vc] exI [of _ R] exI [of _ "[]"] exI [of _ xs] exI [of _ num]) simp
next
  case (Cons a arr)
  obtain v k where a: "a = (v, k)" by (cases a)
  note P = Cons.prems [unfolded a]
  have R: "missing 0 seen = R" by (rule got_missing [OF P(4,3)])
  obtain b where b: "vbufs s v = Some b" "and (flags b) UD_VBUF_SEND_INPROGRESS = 0" "free_head s \<noteq> Some v" using P(5) by (auto simp: idle_def)
  have v: "v \<notin> set as" "v \<notin> set xs" using P(7) by auto
  let ?s = "s\<lparr>vbufs := (vbufs s)(v \<mapsto> fill vcp (msgs k) (word_of_nat k) b)\<rparr>"
  note f = fill_arrived [OF b, where vcp = vcp and msgs = msgs and k = k]
  have "recv_inv msgs (vbufs ?s) vc R as xs num" using recv_inv_upd [OF P(2) v, of _ "num v"] by simp
  moreover have "vcs ?s vcp = Some vc" using P(1) by simp
  ultimately obtain s1 vc1 bs ys where s1: "mv2_ud_place_recvwin v ?s = Some s1" "entered msgs ?s vcp vc R as xs num v k s1 vc1 bs ys"
      "settled (R + length bs) ys (num(v := k))"
    using place_recvwin_ok [OF _ _ P(3) f(2) v] P(8) R by auto
  have E: "vcs s1 vcp = Some vc1" "recv_inv msgs (vbufs s1) vc1 (R + length bs) (as @ bs) ys (num(v := k))"
      "got (R + length bs) ys (num(v := k)) = set (k # seen)" "set bs \<union> set ys \<subseteq> insert v (set xs)"
      "seqnum_next_toack vc1 = word_of_nat (R + length bs) - 1"
    using s1(2) P(4,9) framed_vc by (fastforce simp: entered_def)+
  have "v \<notin> fst ` set arr" "distinct (map fst arr)" using P(6) by (auto simp: image_iff)
  moreover have "idle s (fst ` set arr)" using P(5) by (auto simp: idle_def)
  ultimately have "idle s1 (fst ` set arr)" using idle_entered s1(2) by blast
  moreover have "fst ` set arr \<inter> (set (as @ bs) \<union> set ys) = {}"
  proof -
    have "fst ` set arr \<inter> (set as \<union> insert v (set xs)) = {}" using P(7) \<open>v \<notin> fst ` set arr\<close> by simp
    then show ?thesis using E(4) unfolding set_append by blast
  qed
  ultimately obtain s' vc' R' cs zs num' where "receive_all msgs vcp arr s1 = Some s'" "vcs s' vcp = Some vc'"
      "recv_inv msgs (vbufs s') vc' R' ((as @ bs) @ cs) zs num'" "R' = missing 0 (map snd arr @ k # seen)" "R' = R + length bs + length cs"
      "seqnum_next_toack vc' = word_of_nat R' - 1"
    using Cons.IH [OF E(1,2) s1(3) E(3) _ \<open>distinct (map fst arr)\<close> _ _ E(5)] P(8) by (auto simp: ac_simps)
  moreover have "missing 0 (map snd arr @ k # seen) = missing 0 (map snd (a # arr) @ seen)" using a by (intro missing_set) auto
  moreover have "receive_all msgs vcp (a # arr) s = receive_all msgs vcp arr s1" using a f(1) s1(1) by simp
  ultimately show ?case
    by (intro exI [of _ s'] exI [of _ vc'] exI [of _ R'] exI [of _ "bs @ cs"] exI [of _ zs] exI [of _ num']) simp
qed

text \<open>A new channel.\<close>

lemma recv_inv_init: "recv_inv msgs h (vc_init vc) 0 [] [] num" "seqnum_next_toack (vc_init vc) = word_of_nat 0 - 1"
  by (simp_all add: recv_inv_def vc_init_def in_order_def ahead_def chain_def backs_def MESSAGE_QUEUE_INIT_def)

text \<open>
  Whatever order packets come in, and however often, the application gets those up to the first that is
  missing, in the order they were sent in and once each; that number, less one, is what is
  acknowledged.
\<close>

theorem receive_in_order:
  assumes "vcs s vcp = Some (vc_init vc)" "idle s (set vs)" "distinct vs" "length vs = length ks" "timely [] ks"
  shows "\<exists>s' vc' as. receive_all msgs vcp (zip vs ks) s = Some s' \<and> vcs s' vcp = Some vc' \<and> apprecv_list (vbufs s') (app_recv_window vc') as
    \<and> map (\<lambda>a. body (the (vbufs s' a))) as = map msgs [0..<missing 0 ks] \<and> seqnum_next_toack vc' = word_of_nat (missing 0 ks) - 1"
proof -
  have z: "map fst (zip vs ks) = vs" "map snd (zip vs ks) = ks" using assms(4) by simp_all
  have f: "fst ` set (zip vs ks) = set vs" using arg_cong [OF z(1), of set] by simp
  have "got 0 [] (\<lambda>_. 0) = set []" "settled 0 [] (\<lambda>_. 0)" by (simp_all add: got_def settled_def)
  from receive_all_ok [where msgs = msgs and arr = "zip vs ks", OF assms(1) recv_inv_init(1) this(2,1), unfolded z f] assms recv_inv_init(2)
  obtain s' vc' R' bs ys num' where "receive_all msgs vcp (zip vs ks) s = Some s'" "vcs s' vcp = Some vc'" "recv_inv msgs (vbufs s') vc' R' bs ys num'"
      "R' = missing 0 ks" "R' = length bs" "seqnum_next_toack vc' = word_of_nat R' - 1" by auto
  then show ?thesis by (intro exI [of _ s'] exI [of _ vc'] exI [of _ bs]) (auto simp: recv_inv_def in_order_def)
qed

text \<open>A process with a new channel and four buffers; packets 1, 0, 1 and 3 come in, in this order.\<close>

definition four_buffers :: ib where
  "four_buffers = \<lparr>vbufs = (\<lambda>a. if a < 4 then Some zero_vbuf else None), vcs = [0 \<mapsto> vc_init blank_vc], vc_info_id = 1, vc_infos = 1, vc_array = True,
     ud = \<lparr>send_wqes_avail = 10, num_sends_posted = 0, num_recvs_posted = 4, credit_preserve = 0, ext_send_queue = MESSAGE_QUEUE_INIT, ext_sendq_count = 0\<rparr>,
     unack_queue = MESSAGE_QUEUE_INIT, free_head = NULL, brk = 4, connect_head = [], connected_head = [], count_conn = 1, shutdown = False,
     local_lid = 1, local_qpn = 2, ah_ok = (\<lambda>_. True), recv_flag = False, sending = [], receiving = [0, 1, 2, 3], posted = [],
     clock = int, ticks = 0, last_check = 0\<rparr>"

theorem receive_in_order_witness:
  "\<exists>s' vc' as. receive_all (\<lambda>k. (PKT_UD_DATA, [char_of k])) 0 (zip [0, 1, 2, 3] [1, 0, 1, 3]) four_buffers = Some s' \<and> vcs s' 0 = Some vc'
    \<and> apprecv_list (vbufs s') (app_recv_window vc') as
    \<and> map (\<lambda>a. body (the (vbufs s' a))) as = [(PKT_UD_DATA, [char_of (0 :: nat)]), (PKT_UD_DATA, [char_of (1 :: nat)])]
    \<and> seqnum_next_toack vc' = 1"
proof -
  have i: "idle four_buffers (set [0, 1, 2, 3])" by (simp add: idle_def four_buffers_def zero_vbuf_def)
  have "timely [] [1, 0, 1, 3]" by (simp add: missing.simps)
  moreover have "missing 0 [1, 0, 1, 3] = 2" by (simp add: missing.simps)
  ultimately show ?thesis
    using receive_in_order [where s = four_buffers and vcp = 0 and vc = blank_vc and vs = "[0, 1, 2, 3]" and ks = "[1, 0, 1, 3]"
      and msgs = "\<lambda>k. (PKT_UD_DATA, [char_of k])", OF _ i]
    by (simp add: four_buffers_def upt_rec del: map_eq_conv)
qed

end
