(* ===== verification/Ib_Link.thy ===== *)
theory Ib_Link
  imports Ib_Resend Ib_Recv_Spec
begin

text \<open>
  Two processes and a network between them that loses packets, delivers them more than once and in any order.
\<close>

section \<open>The system\<close>

text \<open>
  The process that sends and the one that receives; the numbers of the packets that came in, the last one
  first; what the receiver had to acknowledge at the start and after each of them, likewise; and how many packets
  the sender knows to be received.
\<close>

record ib_link =
  tx :: ib
  rx :: ib
  seen :: "nat list"
  heard :: "u16 list"
  acked :: nat

text \<open>
  The application writes; the network delivers the \<open>i\<close>-th packet that was posted, packet \<open>k\<close> of the channel, to
  buffer \<open>v\<close>; the acknowledgement of \<open>j\<close> arrivals ago gets to the sender; the timeout thread looks for packets
  to send again; the card reports a packet as sent.
\<close>

datatype ib_event = Write "byte list" | Arrive nat nat nat | Acknowledge nat | Retry | Sent nat

definition deliver :: "nat \<Rightarrow> wire_packet \<Rightarrow> vbuf \<Rightarrow> vbuf" where
  "deliver vcp p b = b\<lparr>header := wire_header p, payload := wire_payload p, content_size := header_size + length (wire_payload p),
     vbuf_vc := Some vcp, seqnum := pseqnum (wire_header p)\<rparr>"

definition sent_wc :: "nat \<Rightarrow> ibv_wc" where
  "sent_wc v = \<lparr>wc_success = True, wc_opcode = IBV_WC_SEND, wr_id = v, slid = 0, src_qp = 0,
     wc_header = \<lparr>ptype = 0, srcid = 0, pseqnum = 0, acknum = 0\<rparr>, wc_payload = []\<rparr>"

fun link_step :: "ib_channel \<Rightarrow> nat \<Rightarrow> nat \<Rightarrow> ib_event \<Rightarrow> ib_link \<Rightarrow> ib_link option" where
  "link_step ch a b (Write bs) l = do { (rc, s) \<leftarrow> spawn_net_write_ib ch bs (tx l); Some (l\<lparr>tx := s\<rparr>) }"
| "link_step ch a b (Arrive i k v) l = do {
     s \<leftarrow> put_vbuf v (deliver b (posted (tx l) ! i)) (rx l);
     s \<leftarrow> mv2_ud_place_recvwin v s;
     vc \<leftarrow> vcs s b;
     Some (l\<lparr>rx := s, seen := k # seen l, heard := seqnum_next_toack vc # heard l\<rparr>) }"
| "link_step ch a b (Acknowledge j) l = do {
     s \<leftarrow> ud_process_ack a (heard l ! j) (tx l);
     Some (l\<lparr>tx := s, acked := max (acked l) (missing 0 (drop j (seen l)))\<rparr>) }"
| "link_step ch a b Retry l = do { (r, s) \<leftarrow> ud_check_resend (tx l); Some (l\<lparr>tx := s\<rparr>) }"
| "link_step ch a b (Sent v) l = do { (r, s) \<leftarrow> cq_poll [sent_wc v] (tx l); Some (l\<lparr>tx := s\<rparr>) }"

text \<open>
  What is asked of the network and the card. A packet that arrives was posted, as packet \<open>k\<close> of the stream; neither packets nor
  acknowledgements are so old that their numbers mean something else. The card reports what it has.
\<close>

definition out_of :: "byte list list \<Rightarrow> nat \<Rightarrow> 8 word \<times> byte list" where
  "out_of ps k = (PKT_UD_DATA, if k < length ps then ps ! k else [])"

definition sent_count :: "nat \<Rightarrow> ib_link \<Rightarrow> nat" where
  "sent_count a l = (case vcs (tx l) a of None \<Rightarrow> 0 | Some vc \<Rightarrow> acked l + unat (q_count (send_window vc)))"

fun lawful :: "byte list list \<Rightarrow> nat \<Rightarrow> ib_event \<Rightarrow> ib_link \<Rightarrow> bool" where
  "lawful ps a (Arrive i k v) l \<longleftrightarrow> i < length (posted (tx l)) \<and> k < sent_count a l \<and> missing 0 (seen l) \<le> k + 60000
     \<and> pseqnum (wire_header (posted (tx l) ! i)) = word_of_nat k
     \<and> (ptype (wire_header (posted (tx l) ! i)), wire_payload (posted (tx l) ! i)) = out_of ps k"
| "lawful ps a (Acknowledge j) l \<longleftrightarrow> j < length (heard l) \<and> acked l \<le> missing 0 (drop j (seen l)) + 60000"
| "lawful ps a (Sent v) l \<longleftrightarrow> v \<in> set (sending (tx l))"
| "lawful ps a _ l \<longleftrightarrow> True"

fun run_link :: "ib_channel \<Rightarrow> nat \<Rightarrow> nat \<Rightarrow> ib_event list \<Rightarrow> ib_link \<Rightarrow> ib_link option" where
  "run_link ch a b [] l = Some l"
| "run_link ch a b (e # es) l = do { l \<leftarrow> link_step ch a b e l; run_link ch a b es l }"

fun lawful_run :: "byte list list \<Rightarrow> ib_channel \<Rightarrow> nat \<Rightarrow> nat \<Rightarrow> ib_event list \<Rightarrow> ib_link \<Rightarrow> bool" where
  "lawful_run ps ch a b [] l \<longleftrightarrow> True"
| "lawful_run ps ch a b (e # es) l \<longleftrightarrow> lawful ps a e l \<and> (case link_step ch a b e l of None \<Rightarrow> True | Some l \<Rightarrow> lawful_run ps ch a b es l)"

text \<open>What is written, in packets; the packets that arrive; the buffers they arrive in; how often packets are sent again.\<close>

fun packet_stream :: "ib_event list \<Rightarrow> byte list list" where
  "packet_stream [] = []"
| "packet_stream (Write bs # es) = pieces bs @ packet_stream es"
| "packet_stream (_ # es) = packet_stream es"

fun arrivals :: "ib_event list \<Rightarrow> nat list" where
  "arrivals [] = []"
| "arrivals (Arrive i k v # es) = k # arrivals es"
| "arrivals (_ # es) = arrivals es"

fun arrival_bufs :: "ib_event list \<Rightarrow> nat list" where
  "arrival_bufs [] = []"
| "arrival_bufs (Arrive i k v # es) = v # arrival_bufs es"
| "arrival_bufs (_ # es) = arrival_bufs es"

fun retries :: "ib_event list \<Rightarrow> nat" where
  "retries [] = 0"
| "retries (Retry # es) = Suc (retries es)"
| "retries (_ # es) = retries es"

section \<open>The invariant\<close>

definition sending_side :: "(nat \<Rightarrow> 8 word \<times> byte list) \<Rightarrow> nat \<Rightarrow> nat \<Rightarrow> nat \<Rightarrow> ib_link \<Rightarrow> vc \<Rightarrow> use \<Rightarrow> bool" where
  "sending_side out a T W l vc u \<longleftrightarrow> channel_inv out a (tx l) vc (acked l) u \<and> calm T (tx l) \<and> written (acked l) u = W"

definition receiving_side :: "(nat \<Rightarrow> 8 word \<times> byte list) \<Rightarrow> nat \<Rightarrow> nat list \<Rightarrow> ib_link \<Rightarrow> vc \<Rightarrow> nat list \<Rightarrow> nat list \<Rightarrow> (nat \<Rightarrow> nat) \<Rightarrow> bool" where
  "receiving_side out b vs l vc as xs num \<longleftrightarrow> vcs (rx l) b = Some vc \<and> recv_inv out (vbufs (rx l)) vc (length as) as xs num
     \<and> settled (length as) xs num \<and> got (length as) xs num = set (seen l) \<and> seqnum_next_toack vc = word_of_nat (length as) - 1
     \<and> idle (rx l) (set vs) \<and> set vs \<inter> (set as \<union> set xs) = {}"

definition in_step :: "ib_link \<Rightarrow> use \<Rightarrow> bool" where
  "in_step l u \<longleftrightarrow> acked l \<le> missing 0 (seen l) \<and> set (seen l) \<subseteq> {..<acked l + length (u_win u)}
     \<and> heard l = map (\<lambda>j. word_of_nat (missing 0 (drop j (seen l))) - 1) [0..<Suc (length (seen l))]"

lemma receiving_missing: "receiving_side out b vs l vc as xs num \<Longrightarrow> missing 0 (seen l) = length as"
  by (rule got_missing) (auto simp: receiving_side_def)

lemma missing_mono:
  assumes "set ks \<subseteq> set ls"
  shows "missing n ks \<le> missing n ls"
  using assms
proof (induction n ls rule: missing.induct)
  case (1 n ls)
  have ge: "m \<le> missing m qs" for m qs
    by (induction m qs rule: missing.induct) (subst missing.simps, auto)
  show ?case
  proof (cases "n \<in> set ks")
    case True
    then show ?thesis using 1 by (subst (1 2) missing.simps) auto
  next
    case False
    then have "missing n ks = n" by (subst missing.simps) simp
    then show ?thesis using ge by simp
  qed
qed

lemma missing_bound: "set ks \<subseteq> {..<m} \<Longrightarrow> missing 0 ks \<le> m"
proof -
  assume "set ks \<subseteq> {..<m}"
  moreover have "missing 0 [0..<m] = m" by (rule missing_unique) auto
  ultimately show ?thesis using missing_mono [of ks "[0..<m]" 0] by (simp add: atLeast0LessThan)
qed

section \<open>Steps\<close>

lemma in_step_grow: "in_step l u \<Longrightarrow> length (u_win u) \<le> length (u_win u') \<Longrightarrow> in_step (l\<lparr>tx := s\<rparr>) u'"
  by (fastforce simp: in_step_def)

lemma receiving_tx [simp]: "receiving_side out b vs (l\<lparr>tx := s\<rparr>) vc as xs num = receiving_side out b vs l vc as xs num"
  "receiving_side out b vs (l\<lparr>tx := s, acked := n\<rparr>) vc as xs num = receiving_side out b vs l vc as xs num"
  by (simp_all add: receiving_side_def)

lemma write_ok:
  assumes s: "sending_side out a T W l vc u" and ch: "ch_data ch = Some a" and p: "\<forall>i<length (pieces bs). out (W + i) = (PKT_UD_DATA, pieces bs ! i)"
  shows "\<exists>s' vc' u'. link_step ch a b (Write bs) l = Some (l\<lparr>tx := s'\<rparr>) \<and> sending_side out a T (W + length (pieces bs)) (l\<lparr>tx := s'\<rparr>) vc' u'
    \<and> length (u_win u) \<le> length (u_win u')"
proof -
  have S: "channel_inv out a (tx l) vc (acked l) u" "calm T (tx l)" "written (acked l) u = W" using s by (auto simp: sending_side_def)
  have "vcs (tx l) a = Some vc" using S(1) by (simp add: channel_inv_def sender_def)
  moreover from this have "\<not> remote_closed vc" using S(2) by (auto simp: calm_def)
  moreover obtain s' vc' u' where s': "write_packets a bs (tx l) = Some (SPAWN_SUCCESS, s')" "channel_inv out a s' vc' (acked l) u'"
      "written (acked l) u' = W + length (pieces bs)" "length (u_win u) \<le> length (u_win u')"
    using write_packets_ok [OF S(1), of bs] p S(3) by auto
  moreover have "calm T s'" by (rule calm_write_packets [OF s'(1) S(2)])
  ultimately show ?thesis using ch by (intro exI [of _ s'] exI [of _ vc'] exI [of _ u']) (simp add: spawn_net_write_ib_def sending_side_def)
qed

lemma retry_ok:
  assumes s: "sending_side out a T W l vc u" and T: "T < 1000" and d: "\<forall>k. fst (out k) \<noteq> PKT_UD_DISCONNECT"
  shows "\<exists>s' vc' u'. link_step ch a b Retry l = Some (l\<lparr>tx := s'\<rparr>) \<and> sending_side out a (Suc T) W (l\<lparr>tx := s'\<rparr>) vc' u' \<and> length (u_win u) \<le> length (u_win u')"
proof -
  have S: "channel_inv out a (tx l) vc (acked l) u" "calm T (tx l)" "written (acked l) u = W" using s by (auto simp: sending_side_def)
  obtain r s' vc' u' where s': "ud_check_resend (tx l) = Some (r, s')" "channel_inv out a s' vc' (acked l) u'" "written (acked l) u' = written (acked l) u"
      "u_win u' = u_win u" "calm (Suc T) s'"
    using check_resend_ok [OF S(1,2) T d] by blast
  then show ?thesis using S(3) by (intro exI [of _ s'] exI [of _ vc'] exI [of _ u']) (simp add: sending_side_def)
qed

lemma sent_ok:
  assumes s: "sending_side out a T W l vc u" and v: "v \<in> set (sending (tx l))"
  shows "\<exists>s' vc' u'. link_step ch a b (Sent v) l = Some (l\<lparr>tx := s'\<rparr>) \<and> sending_side out a T W (l\<lparr>tx := s'\<rparr>) vc' u' \<and> length (u_win u) \<le> length (u_win u')"
proof -
  have S: "channel_inv out a (tx l) vc (acked l) u" "calm T (tx l)" "written (acked l) u = W" using s by (auto simp: sending_side_def)
  obtain s1 vc1 u1 where s1: "cq_send v (tx l) = Some s1" "channel_inv out a s1 vc1 (acked l) u1" "written (acked l) u1 = written (acked l) u" "u_win u1 = u_win u"
    using cq_send_ok [OF S(1,2) v] by blast
  obtain s2 vc2 u2 where s2: "ud_update_send_credits 1 s1 = Some s2" "channel_inv out a s2 vc2 (acked l) u2" "written (acked l) u2 = written (acked l) u1" "u_win u2 = u_win u1"
    using update_credits_ok [OF s1(2)] by blast
  have "calm T s2" using calm_update_credits [OF s2(1) calm_cq_send [OF s1(1) S(2)]] .
  then show ?thesis using s1 s2 S(3) by (intro exI [of _ s2] exI [of _ vc2] exI [of _ u2]) (simp add: sending_side_def cq_poll_def sent_wc_def)
qed

lemma ack_ok:
  assumes s: "sending_side out a T W l vc u" and i: "in_step l u" and j: "lawful ps a (Acknowledge j) l"
  shows "\<exists>s' vc' u' n. link_step ch a b (Acknowledge j) l = Some (l\<lparr>tx := s', acked := n\<rparr>) \<and> sending_side out a T W (l\<lparr>tx := s', acked := n\<rparr>) vc' u'
    \<and> in_step (l\<lparr>tx := s', acked := n\<rparr>) u'"
proof -
  have S: "channel_inv out a (tx l) vc (acked l) u" "calm T (tx l)" "written (acked l) u = W" using s by (auto simp: sending_side_def)
  let ?r = "missing 0 (drop j (seen l))"
  have h: "heard l ! j = word_of_nat ?r - 1" using i j by (simp add: in_step_def del: upt_Suc)
  have r: "?r \<le> missing 0 (seen l)" by (intro missing_mono) (auto dest: in_set_dropD)
  moreover have R: "missing 0 (seen l) \<le> acked l + length (u_win u)" by (rule missing_bound) (use i in \<open>simp add: in_step_def\<close>)
  ultimately obtain s' vc' u' where s': "ud_process_ack a (word_of_nat ?r - 1) (tx l) = Some s'" "channel_inv out a s' vc' (max (acked l) ?r) u'"
      "written (max (acked l) ?r) u' = written (acked l) u" "acked l + length (u_win u) \<le> max (acked l) ?r + length (u_win u')"
    using process_ack_ok [OF S(1), of ?r] j by auto
  let ?l = "l\<lparr>tx := s', acked := max (acked l) ?r\<rparr>"
  have "calm T s'" by (rule calm_process_ack [OF s'(1) S(2)])
  then have "sending_side out a T W ?l vc' u'" using s' S(3) by (simp add: sending_side_def)
  moreover have "in_step ?l u'" using i r s'(4) by (fastforce simp: in_step_def)
  ultimately show ?thesis using h s'(1) by (intro exI [of _ s'] exI [of _ vc'] exI [of _ u'] exI [of _ "max (acked l) ?r"]) simp
qed

lemma arrive_ok:
  assumes s: "sending_side out a T W l vc u" and r: "receiving_side out b (v # vs) l wc as xs num" and i: "in_step l u"
    and k: "lawful ps a (Arrive i k v) l" and o: "out = out_of ps" and d: "distinct (v # vs)"
  shows "\<exists>l' wc' as' xs' num'. link_step ch a b (Arrive i k v) l = Some l' \<and> tx l' = tx l \<and> acked l' = acked l \<and> receiving_side out b vs l' wc' as' xs' num' \<and> in_step l' u"
proof -
  let ?p = "posted (tx l) ! i" and ?R = "length as"
  have W: "length (u_win u) \<le> 401" "sent_count a l = acked l + length (u_win u)"
    using s by (auto simp: sending_side_def channel_inv_def sender_def sent_count_def unat_of_nat)
  have R: "vcs (rx l) b = Some wc" "recv_inv out (vbufs (rx l)) wc ?R as xs num" "settled ?R xs num" "got ?R xs num = set (seen l)"
      "seqnum_next_toack wc = word_of_nat ?R - 1" "idle (rx l) (set (v # vs))" "v \<notin> set as" "v \<notin> set xs" "set vs \<inter> (set as \<union> set xs) = {}"
    using r by (auto simp: receiving_side_def)
  have m: "missing 0 (seen l) = ?R" by (rule receiving_missing [OF r])
  have k': "?R \<le> k + 60000" "k \<le> ?R + 2501" "k < acked l + length (u_win u)" using k i W m by (auto simp: in_step_def)
  obtain c where c: "vbufs (rx l) v = Some c" "and (flags c) UD_VBUF_SEND_INPROGRESS = 0" "free_head (rx l) \<noteq> Some v" using R(6) by (auto simp: idle_def)
  let ?s = "(rx l)\<lparr>vbufs := (vbufs (rx l))(v \<mapsto> deliver b ?p c)\<rparr>"
  have A: "arrived out ?s b v k" using c k o by (simp add: arrived_def deliver_def body_def)
  have "recv_inv out (vbufs ?s) wc ?R as xs num" using recv_inv_upd [OF R(2,7,8), of _ "num v"] by simp
  moreover have "vcs ?s b = Some wc" using R(1) by simp
  ultimately obtain s1 wc1 bs ys where s1: "mv2_ud_place_recvwin v ?s = Some s1" "entered out ?s b wc ?R as xs num v k s1 wc1 bs ys"
      "settled (?R + length bs) ys (num(v := k))"
    using place_recvwin_ok [OF _ _ R(3) A R(7,8) k'(1,2)] by blast
  have E: "vcs s1 b = Some wc1" "recv_inv out (vbufs s1) wc1 (?R + length bs) (as @ bs) ys (num(v := k))"
      "got (?R + length bs) ys (num(v := k)) = set (k # seen l)" "set bs \<union> set ys \<subseteq> insert v (set xs)"
      "seqnum_next_toack wc1 = word_of_nat (?R + length bs) - 1"
    using s1(2) R(4,5) framed_vc by (fastforce simp: entered_def)+
  have "idle (rx l) (set vs)" using R(6) by (auto simp: idle_def)
  then have id: "idle s1 (set vs)" using idle_entered s1(2) d by (metis distinct.simps(2))
  let ?l = "l\<lparr>rx := s1, seen := k # seen l, heard := seqnum_next_toack wc1 # heard l\<rparr>"
  have dj: "set vs \<inter> (set (as @ bs) \<union> set ys) = {}" using R(9) E(4) d unfolding set_append distinct.simps by blast
  have rs: "receiving_side out b vs ?l wc1 (as @ bs) ys (num(v := k))" using E id dj s1(3) by (simp add: receiving_side_def)
  have m': "missing 0 (k # seen l) = ?R + length bs" using receiving_missing [OF rs] by simp
  have "in_step ?l u" using i k'(3) m m' E(5) by (simp add: in_step_def upt_rec [of 0 "Suc (Suc _)"] map_Suc_upt [symmetric] del: upt_Suc)
  moreover have "link_step ch a b (Arrive i k v) l = Some ?l" using c(1) s1(1) E(1) by (simp add: put_vbuf_def)
  ultimately show ?thesis using rs by (intro exI [of _ ?l]) auto
qed

section \<open>All steps\<close>

definition link_inv :: "(nat \<Rightarrow> 8 word \<times> byte list) \<Rightarrow> nat \<Rightarrow> nat \<Rightarrow> nat \<Rightarrow> nat \<Rightarrow> nat list \<Rightarrow> ib_link \<Rightarrow> bool" where
  "link_inv out a b T W vs l \<longleftrightarrow> (\<exists>vc u wc as xs num. sending_side out a T W l vc u \<and> receiving_side out b vs l wc as xs num \<and> in_step l u)"

lemma link_inv_tx:
  assumes "receiving_side out b vs l wc as xs num" "in_step l u" "sending_side out a T W (l\<lparr>tx := s\<rparr>) vc u'" "length (u_win u) \<le> length (u_win u')"
  shows "link_inv out a b T W vs (l\<lparr>tx := s\<rparr>)"
  using assms(1,3) in_step_grow [OF assms(2,4)] unfolding link_inv_def by fastforce

lemma link_write:
  assumes I: "sending_side out a T W l vc u" "receiving_side out b vs l wc as xs num" "in_step l u" and ch: "ch_data ch = Some a"
    and o: "out = out_of ps" "\<forall>i<length (pieces bs @ qs). ps ! (W + i) = (pieces bs @ qs) ! i" "W + length (pieces bs @ qs) \<le> length ps"
  shows "\<exists>l'. link_step ch a b (Write bs) l = Some l' \<and> link_inv out a b T (W + length (pieces bs)) vs l'"
    "\<forall>i<length qs. ps ! (W + length (pieces bs) + i) = qs ! i"
proof -
  have "out (W + i) = (PKT_UD_DATA, pieces bs ! i)" if "i < length (pieces bs)" for i
    using o that by (auto simp: out_of_def nth_append dest: spec [of _ i])
  then show "\<exists>l'. link_step ch a b (Write bs) l = Some l' \<and> link_inv out a b T (W + length (pieces bs)) vs l'"
    using write_ok [OF I(1) ch, of bs b] link_inv_tx [OF I(2,3)] by blast
  show "\<forall>i<length qs. ps ! (W + length (pieces bs) + i) = qs ! i"
    using o(2) by (auto simp: nth_append add.assoc dest: spec [of _ "length (pieces bs) + _"])
qed

lemma link_step_ok:
  assumes i: "link_inv out a b T W (arrival_bufs (e # es)) l" and e: "lawful ps a e l" and ch: "ch_data ch = Some a"
    and o: "out = out_of ps" "\<forall>i<length (packet_stream (e # es)). ps ! (W + i) = packet_stream (e # es) ! i" "W + length (packet_stream (e # es)) \<le> length ps"
    and T: "T + retries (e # es) \<le> 1000" and d: "distinct (arrival_bufs (e # es))"
  shows "\<exists>l' T' W'. link_step ch a b e l = Some l' \<and> link_inv out a b T' W' (arrival_bufs es) l' \<and> T' + retries es \<le> 1000
    \<and> (\<forall>i<length (packet_stream es). ps ! (W' + i) = packet_stream es ! i) \<and> W' + length (packet_stream es) = W + length (packet_stream (e # es))"
proof -
  obtain vc u wc as xs num where I: "sending_side out a T W l vc u" "receiving_side out b (arrival_bufs (e # es)) l wc as xs num" "in_step l u"
    using i by (auto simp: link_inv_def)
  show ?thesis
  proof (cases e)
    case (Write bs)
    note w = link_write [OF I(1) _ I(3) ch o(1), of b "arrival_bufs es" wc as xs num bs "packet_stream es"]
    obtain l' where "link_step ch a b e l = Some l'" "link_inv out a b T (W + length (pieces bs)) (arrival_bufs es) l'"
      using w(1) I(2) o(2,3) Write by auto
    then show ?thesis using w(2) I(2) o(2,3) T Write by (intro exI [of _ l'] exI [of _ T] exI [of _ "W + length (pieces bs)"]) simp
  next
    case (Arrive i k v)
    then show ?thesis using arrive_ok [OF I(1) _ I(3), of b v "arrival_bufs es" wc as xs num ps i k ch] I(1,2) e d o T
      by (fastforce simp: link_inv_def sending_side_def)
  next
    case (Acknowledge j)
    obtain l' where "link_step ch a b e l = Some l'" "link_inv out a b T W (arrival_bufs es) l'"
      using ack_ok [OF I(1,3), of ps j ch b] e I(2) unfolding link_inv_def Acknowledge by fastforce
    then show ?thesis using T o Acknowledge by (intro exI [of _ l'] exI [of _ T] exI [of _ W]) simp
  next
    case Retry
    have "\<forall>k. fst (out k) \<noteq> PKT_UD_DISCONNECT" by (simp add: o(1) out_of_def)
    then obtain l' where "link_step ch a b e l = Some l'" "link_inv out a b (Suc T) W (arrival_bufs es) l'"
      using retry_ok [OF I(1), of ch b] link_inv_tx [OF _ I(3)] I(2) T Retry by auto
    then show ?thesis using T o Retry by (intro exI [of _ l'] exI [of _ "Suc T"] exI [of _ W]) simp
  next
    case (Sent v)
    obtain l' where "link_step ch a b e l = Some l'" "link_inv out a b T W (arrival_bufs es) l'"
      using sent_ok [OF I(1), of v ch b] link_inv_tx [OF _ I(3)] I(2) e Sent by auto
    then show ?thesis using T o Sent by (intro exI [of _ l'] exI [of _ T] exI [of _ W]) simp
  qed
qed

lemma run_link_ok:
  assumes "link_inv out a b T W (arrival_bufs es) l" "lawful_run ps ch a b es l" "ch_data ch = Some a"
    "out = out_of ps" "\<forall>i<length (packet_stream es). ps ! (W + i) = packet_stream es ! i" "W + length (packet_stream es) \<le> length ps"
    "T + retries es \<le> 1000" "distinct (arrival_bufs es)"
  shows "\<exists>l' T'. run_link ch a b es l = Some l' \<and> link_inv out a b T' (W + length (packet_stream es)) [] l'"
  using assms
proof (induction es arbitrary: l T W)
  case Nil
  then show ?case by auto
next
  case (Cons e es)
  obtain l' T' W' where l': "link_step ch a b e l = Some l'" "link_inv out a b T' W' (arrival_bufs es) l'" "T' + retries es \<le> 1000"
      "\<forall>i<length (packet_stream es). ps ! (W' + i) = packet_stream es ! i" "W' + length (packet_stream es) = W + length (packet_stream (e # es))"
    using link_step_ok [OF Cons.prems(1) _ Cons.prems(3-8)] Cons.prems(2) by auto
  have "lawful_run ps ch a b es l'" using Cons.prems(2) l'(1) by simp
  moreover have "distinct (arrival_bufs es)" using Cons.prems(8) by (cases e) auto
  ultimately show ?case using Cons.IH [OF l'(2) _ Cons.prems(3,4) l'(4) _ l'(3)] l'(1,5) Cons.prems(6) by auto
qed

section \<open>A new channel\<close>

definition fresh_channel :: "vc \<Rightarrow> bool" where
  "fresh_channel vc \<longleftrightarrow> seqnum_next_tosend vc = 0 \<and> seqnum_next_torecv vc = 0 \<and> seqnum_next_toack vc = - 1 \<and> state vc \<noteq> VC_STATE_CLOSING \<and> \<not> remote_closed vc
     \<and> send_window vc = MESSAGE_QUEUE_INIT \<and> ext_window vc = MESSAGE_QUEUE_INIT \<and> recv_window vc = MESSAGE_QUEUE_INIT \<and> app_recv_window vc = MESSAGE_QUEUE_INIT"

text \<open>A process that has one channel and has not sent anything; \<open>fs\<close> are its free buffers.\<close>

definition ready :: "ib \<Rightarrow> nat \<Rightarrow> nat list \<Rightarrow> bool" where
  "ready s a fs \<longleftrightarrow> (\<exists>vc. vcs s = [a \<mapsto> vc] \<and> fresh_channel vc) \<and> chain desc_next (vbufs s) (free_queue (free_head s) fs) fs
     \<and> ext_send_queue (ud s) = MESSAGE_QUEUE_INIT \<and> unack_queue s = MESSAGE_QUEUE_INIT \<and> sending s = [] \<and> posted s = []
     \<and> (\<forall>v b. vbufs s v = Some b \<longrightarrow> v < brk s \<and> \<not> in_sendwin b \<and> retry_count b = 0)"

definition new_link :: "ib \<Rightarrow> ib \<Rightarrow> ib_link" where
  "new_link s t = \<lparr>tx = s, rx = t, seen = [], heard = [- 1], acked = 0\<rparr>"

lemma link_inv_init:
  assumes s: "ready s a fs" and t: "vcs t b = Some wc" "fresh_channel wc" "idle t (set vs)"
  shows "link_inv out a b 0 0 vs (new_link s t)"
proof -
  obtain vc where vc: "vcs s = [a \<mapsto> vc]" "fresh_channel vc" using s by (auto simp: ready_def)
  let ?u = "\<lparr>u_free = fs, u_extq = [], u_win = [], u_ext = [], u_pext = []\<rparr>"
  have f: "\<forall>v\<in>set fs. holds (vbufs s) v (\<lambda>b. \<not> in_sendwin b)" using s unfolding ready_def chain_def holds_def by blast
  have "sender out a s vc 0 0 ?u" using s vc f
    by (auto simp: ready_def fresh_channel_def sender_def queues_def apart_def use_ok_def chain_def backs_def MESSAGE_QUEUE_INIT_def)
  then have "channel_inv out a s vc 0 ?u" using vc(2) by (simp add: channel_inv_def fresh_channel_def)
  moreover have "calm 0 s" using s vc by (auto simp: calm_def ready_def fresh_channel_def split: if_splits)
  ultimately have "sending_side out a 0 0 (new_link s t) vc ?u" by (simp add: sending_side_def new_link_def written_def)
  moreover have "receiving_side out b vs (new_link s t) wc [] [] (\<lambda>_. 0)" using t
    by (simp add: receiving_side_def new_link_def recv_inv_def fresh_channel_def in_order_def ahead_def chain_def backs_def MESSAGE_QUEUE_INIT_def settled_def got_def)
  moreover have "in_step (new_link s t) ?u" by (simp add: in_step_def new_link_def missing.simps)
  ultimately show ?thesis unfolding link_inv_def by blast
qed

lemma run_link_seen: "run_link ch a b es l = Some l' \<Longrightarrow> seen l' = rev (arrivals es) @ seen l"
proof (induction es arbitrary: l)
  case (Cons e es)
  then show ?case by (cases e) (auto split: bind_splits)
qed simp

lemma link_run:
  assumes "ready s a fs" "vcs t b = Some wc" "fresh_channel wc" "idle t (set (arrival_bufs es))" "distinct (arrival_bufs es)"
    "ch_data ch = Some a" "retries es \<le> 1000" "lawful_run (packet_stream es) ch a b es (new_link s t)"
  shows "\<exists>l T vc u wc as xs num. run_link ch a b es (new_link s t) = Some l \<and> sending_side (out_of (packet_stream es)) a T (length (packet_stream es)) l vc u
    \<and> receiving_side (out_of (packet_stream es)) b [] l wc as xs num \<and> in_step l u \<and> set (seen l) = set (arrivals es) \<and> missing 0 (arrivals es) = length as"
proof -
  obtain l T where l: "run_link ch a b es (new_link s t) = Some l" "link_inv (out_of (packet_stream es)) a b T (length (packet_stream es)) [] l"
    using run_link_ok [OF link_inv_init [OF assms(1-4)] assms(8,6) refl] assms(5,7) by auto
  then obtain vc u wc' as xs num where I: "sending_side (out_of (packet_stream es)) a T (length (packet_stream es)) l vc u"
      "receiving_side (out_of (packet_stream es)) b [] l wc' as xs num" "in_step l u" by (auto simp: link_inv_def)
  have n: "set (seen l) = set (arrivals es)" using run_link_seen [OF l(1)] by (simp add: new_link_def)
  then have "missing 0 (arrivals es) = length as" using missing_set [OF n, of 0] receiving_missing [OF I(2)] by simp
  then show ?thesis using l(1) I n by blast
qed



text \<open>Two messages; the second comes first, the first comes twice, and is sent again once.\<close>

definition two_free :: ib where
  "two_free = four_buffers\<lparr>vbufs := [0 \<mapsto> zero_vbuf\<lparr>desc_next := Some 1\<rparr>, 1 \<mapsto> zero_vbuf], free_head := Some 0, brk := 2, receiving := [], clock := (\<lambda>n. int n * 100000)\<rparr>"

definition two_messages :: "ib_event list" where
  "two_messages = [Write ''ab'', Sent 0, Write ''c'', Arrive 1 1 0, Retry, Arrive 0 0 1, Acknowledge 0, Arrive 2 0 2]"

abbreviation ibud :: ib_channel where
  "ibud \<equiv> \<lparr>ch_type = SPAWN_NET_TYPE_IBUD, ch_name = None, ch_data = Some 0\<rparr>"

lemma two_new: "fresh_channel (vc_init blank_vc)"
  by (simp add: fresh_channel_def vc_init_def)

lemma two_ready: "ready two_free 0 [0, 1]"
proof -
  have "\<exists>vc. vcs two_free = [0 \<mapsto> vc] \<and> fresh_channel vc" using two_new by (auto simp: two_free_def four_buffers_def)
  then show ?thesis by (simp add: ready_def two_free_def four_buffers_def chain_def endof_def zero_vbuf_def)
qed


lemma two_stream: "packet_stream two_messages = [''ab'', ''c'']"
  by (simp add: two_messages_def pieces.simps payload_max_def MRAIL_MAX_UD_SIZE_def header_size_def)


lemmas ib_eval = link_step.simps spawn_net_write_ib_def write_packets.simps packet_send_def vbuf_get_def put_vbuf_def put_vc_def write_vbuf_def ud_post_send_def number_packet_def ibv_ud_post_sr_def post_wqe_def ibv_post_send_def
    track_send_def send_window_add_def unack_queue_add_def q_append_def spawn_clock_time_us_def payload_max_def MRAIL_MAX_UD_SIZE_def header_size_def
    mv2_ud_place_recvwin_def INCL_BETWEEN_def recv_win_wrap.simps rdma_default_ud_recvwin_size_def rdma_default_ud_sendwin_size_def MAX_SEQ_NUM_def app_recv_def apprecv_window_add_def advance_def move_recvwin.simps place_ahead_def recv_window_add_def
    two_free_def four_buffers_def new_link_def vc_init_def blank_vc_def zero_vbuf_def MESSAGE_QUEUE_INIT_def missing.simps out_of_def sent_count_def deliver_def cq_poll_def sent_wc_def cq_send_def ud_update_send_credits_def credit_loop.simps
    ud_check_resend_def resend_loop.simps ud_resend_def queue_ext_def ud_process_ack_def ack_loop.simps unwindow_def unack_def vbuf_release_def send_window_remove_def unack_queue_remove_def q_unlink_def Let_def recv_window_remove_def read_vbuf_def rdma_ud_min_retry_timeout_def rdma_ud_max_retry_timeout_def rdma_ud_max_retry_count_def LOG2_def two_messages_def


lemma two_lawful: "lawful_run [''ab'', ''c''] ibud 0 0 two_messages (new_link two_free four_buffers)"
  by (simp add: ib_eval)



end
