(* ===== verification/Ib_Read.thy ===== *)
theory Ib_Read
  imports Ib_Send
begin

text \<open>Reading from an InfiniBand channel: the packets the application has not read are a stream of bytes.\<close>

definition whole :: "vbuf \<Rightarrow> bool" where
  "whole b \<longleftrightarrow> content_size b = header_size + length (payload b) \<and> and (flags b) UD_VBUF_SEND_INPROGRESS = 0"

definition bytes :: "vheap \<Rightarrow> nat \<Rightarrow> byte list" where
  "bytes h a = payload (the (h a))"

text \<open>
  The packets \<open>as\<close> wait to be read, the first of them has not been read to its end, and the free list has the buffers \<open>fs\<close>.
\<close>

definition to_read :: "ib \<Rightarrow> nat \<Rightarrow> vc \<Rightarrow> nat list \<Rightarrow> nat list \<Rightarrow> bool" where
  "to_read s vcp vc as fs \<longleftrightarrow> vcs s vcp = Some vc \<and> apprecv_list (vbufs s) (app_recv_window vc) as \<and> q_count (app_recv_window vc) = word_of_nat (length as)
     \<and> (\<forall>a\<in>set as. \<exists>b. vbufs s a = Some b \<and> whole b) \<and> chain desc_next (vbufs s) (free_queue (free_head s) fs) fs \<and> set as \<inter> set fs = {}
     \<and> (if as = [] then nread vc = 0 else nread vc = 0 \<or> nread vc < length (bytes (vbufs s) (hd as)))"

text \<open>What is still to be read.\<close>

definition unread :: "ib \<Rightarrow> vc \<Rightarrow> nat list \<Rightarrow> byte list" where
  "unread s vc as = drop (nread vc) (concat (map (bytes (vbufs s)) as))"

lemma unread_Cons: "to_read s vcp vc (v # as) fs \<Longrightarrow> unread s vc (v # as) = drop (nread vc) (bytes (vbufs s) v) @ concat (map (bytes (vbufs s)) as)"
  by (auto simp: unread_def to_read_def)

text \<open>The first packet has been read to its end, and is dropped.\<close>

lemma drop_packet:
  assumes r: "to_read s vcp vc (v # as) fs"
  shows "\<exists>s1 s2 s' vc'. app_retrieve vcp s = Some (Some v, s1) \<and> vbuf_release v s1 = Some s2 \<and> put_vc vcp (\<lambda>vc. vc\<lparr>nread := 0\<rparr>) s2 = Some s'
    \<and> to_read s' vcp vc' as (v # fs) \<and> unread s' vc' as = concat (map (bytes (vbufs s)) as)"
proof -
  have R: "vcs s vcp = Some vc" "apprecv_list (vbufs s) (app_recv_window vc) (v # as)" "q_count (app_recv_window vc) = word_of_nat (length (v # as))"
      "\<forall>a\<in>set (v # as). \<exists>b. vbufs s a = Some b \<and> whole b" "chain desc_next (vbufs s) (free_queue (free_head s) fs) fs" "set (v # as) \<inter> set fs = {}"
    using r by (simp_all add: to_read_def)
  have d: "v \<notin> set as" using chainD(1) [OF R(2)] by simp
  obtain q h where q: "apprecv_window_retrieve_and_remove (app_recv_window vc) (vbufs s) = Some (Some v, q, h)" "apprecv_list h q as" "q_count q = q_count (app_recv_window vc) - 1"
    using apprecv_window_retrieve_ok [OF R(2)] R(3) by auto
  have k: "keeps (\<lambda>b. (payload b, content_size b, flags b)) (vbufs s) h" by (rule apprecv_window_retrieve_keeps [OF q(1)]) simp
  have g: "\<exists>b c. vbufs s a = Some b \<and> h a = Some c \<and> payload c = payload b \<and> whole c" if "a \<in> set (v # as)" for a
    using that R(4) keeps_get [OF k] by (fastforce simp: whole_def)
  obtain c where c: "h v = Some c" "whole c" using g [of v] by auto
  let ?s1 = "s\<lparr>vbufs := h, vcs := (vcs s)(vcp \<mapsto> vc\<lparr>app_recv_window := q\<rparr>)\<rparr>"
  let ?h = "h(v \<mapsto> freed (free_head s) c)" and ?vc = "vc\<lparr>app_recv_window := q, nread := 0\<rparr>"
  let ?s2 = "?s1\<lparr>vbufs := ?h, free_head := Some v\<rparr>"
  let ?s3 = "?s2\<lparr>vcs := (vcs s)(vcp \<mapsto> ?vc)\<rparr>"
  have "app_retrieve vcp s = Some (Some v, ?s1)" using R(1) q(1) by (simp add: app_retrieve_def put_vc_def)
  moreover have "free_head s \<noteq> Some v" using R(6) chainD(2) [OF R(5)] first_mem [of fs v] by auto
  then have "vbuf_release v ?s1 = Some ?s2" using vbuf_release_idle [of ?s1 v c] c by (simp add: whole_def)
  moreover have "put_vc vcp (\<lambda>vc. vc\<lparr>nread := 0\<rparr>) ?s2 = Some ?s3" by (simp add: put_vc_def)
  moreover have "chain desc_next h (free_queue (free_head s) fs) fs"
    by (rule chain_cong [OF keeps_same_on [OF apprecv_window_retrieve_keeps [OF q(1)]] R(5)]) simp
  then have "chain desc_next ?h (free_queue (Some v) (v # fs)) (v # fs)"
    using chain_upd [of desc_next h _ fs v "freed (free_head s) c"] R(6) chainD(2) [OF R(5)] by (intro chain_cons) (auto simp: freed_def)
  then have "to_read ?s3 vcp ?vc as (v # fs)"
    unfolding to_read_def using chain_upd [OF q(2) d, of "freed (free_head s) c"] q(3) R(3,6) g d by auto
  moreover have "unread ?s3 ?vc as = concat (map (bytes (vbufs s)) as)"
    unfolding unread_def using g d by (auto simp: bytes_def intro!: arg_cong [where f = concat] map_cong) (metis option.sel)
  ultimately show ?thesis by blast
qed

lemma wait_packet_ready: "vcs s vcp = Some vc \<Longrightarrow> q_head (app_recv_window vc) = Some v \<Longrightarrow> wait_packet vcp ts s = Some (Some v, ts, s)"
  by (cases ts) simp_all

text \<open>
  One round of the loop, with \<open>acc\<close> read of \<open>n\<close> bytes: the packet has more than is asked for, or is taken as a whole.
\<close>

lemma read_packets_done: "n \<le> length acc \<Longrightarrow> read_packets vcp n acc ts s = Some (Some acc, ts, s)"
  by (subst read_packets.simps) simp

lemma read_packet:
  assumes r: "to_read s vcp vc (v # as) fs" and n: "length acc < n"
  shows "n - length acc < length (drop (nread vc) (bytes (vbufs s) v)) \<Longrightarrow> \<exists>s' vc'. to_read s' vcp vc' (v # as) fs
      \<and> read_packets vcp n acc ts s = Some (Some (acc @ take (n - length acc) (unread s vc (v # as))), ts, s')
      \<and> unread s' vc' (v # as) = drop (n - length acc) (unread s vc (v # as))"
    and "length (drop (nread vc) (bytes (vbufs s) v)) \<le> n - length acc \<Longrightarrow> \<exists>s' vc'. to_read s' vcp vc' as (v # fs)
      \<and> read_packets vcp n acc ts s = read_packets vcp n (acc @ drop (nread vc) (bytes (vbufs s) v)) ts s'
      \<and> unread s vc (v # as) = drop (nread vc) (bytes (vbufs s) v) @ unread s' vc' as"
proof -
  let ?p = "bytes (vbufs s) v"
  have u: "unread s vc (v # as) = drop (nread vc) ?p @ concat (map (bytes (vbufs s)) as)" by (rule unread_Cons [OF r])
  obtain b where b: "vbufs s v = Some b" "whole b" "?p = payload b" using r by (auto simp: to_read_def bytes_def)
  have vc: "vcs s vcp = Some vc" "q_head (app_recv_window vc) = Some v" using r by (auto simp: to_read_def dest: chainD(2))
  note w = wait_packet_ready [OF vc, of ts]
  have pr: "content_size b - header_size - nread vc = length (drop (nread vc) ?p)" using b by (simp add: whole_def)
  {
    assume m: "n - length acc < length (drop (nread vc) ?p)"
    let ?vc = "vc\<lparr>nread := nread vc + (n - length acc)\<rparr>"
    let ?s = "s\<lparr>vcs := (vcs s)(vcp \<mapsto> ?vc)\<rparr>" and ?acc = "acc @ take (n - length acc) (drop (nread vc) ?p)"
    have "read_packets vcp n acc ts s = read_packets vcp n ?acc ts ?s"
      using n w vc(1) b(1,3) pr m by (subst read_packets.simps) (simp add: put_vc_def)
    moreover have "read_packets vcp n ?acc ts ?s = Some (Some ?acc, ts, ?s)" using n m by (intro read_packets_done) simp
    moreover have "to_read ?s vcp ?vc (v # as) fs" using r m b(3) unfolding to_read_def by (auto simp: bytes_def)
    moreover have "unread ?s ?vc (v # as) = drop (n - length acc) (unread s vc (v # as))" using m by (simp add: unread_def add.commute)
    ultimately show "\<exists>s' vc'. to_read s' vcp vc' (v # as) fs \<and> read_packets vcp n acc ts s = Some (Some (acc @ take (n - length acc) (unread s vc (v # as))), ts, s')
      \<and> unread s' vc' (v # as) = drop (n - length acc) (unread s vc (v # as))" using m u by (intro exI [of _ ?s] exI [of _ ?vc]) simp
  next
    assume m: "length (drop (nread vc) ?p) \<le> n - length acc"
    obtain s1 s2 s3 vc3 where p: "app_retrieve vcp s = Some (Some v, s1)" "vbuf_release v s1 = Some s2" "put_vc vcp (\<lambda>vc. vc\<lparr>nread := 0\<rparr>) s2 = Some s3"
        "to_read s3 vcp vc3 as (v # fs)" "unread s3 vc3 as = concat (map (bytes (vbufs s)) as)"
      using drop_packet [OF r] by blast
    moreover have "read_packets vcp n acc ts s = read_packets vcp n (acc @ drop (nread vc) ?p) ts s3"
      using n w vc(1) b(1,3) pr m p(1-3) by (subst read_packets.simps) simp
    ultimately show "\<exists>s' vc'. to_read s' vcp vc' as (v # fs) \<and> read_packets vcp n acc ts s = read_packets vcp n (acc @ drop (nread vc) ?p) ts s'
      \<and> unread s vc (v # as) = drop (nread vc) ?p @ unread s' vc' as" using u by (intro exI [of _ s3] exI [of _ vc3]) simp
  }
qed

lemma read_packets_ok:
  assumes "to_read s vcp vc as fs" "length acc \<le> n" "n \<le> length acc + length (unread s vc as)"
  shows "\<exists>s' vc' ds as'. read_packets vcp n acc ts s = Some (Some (acc @ take (n - length acc) (unread s vc as)), ts, s')
    \<and> as = ds @ as' \<and> to_read s' vcp vc' as' (rev ds @ fs) \<and> unread s' vc' as' = drop (n - length acc) (unread s vc as)"
  using assms
proof (induction as arbitrary: s vc acc fs)
  case Nil
  then have "n = length acc" by (simp add: unread_def)
  then show ?case using Nil(1) by (intro exI [of _ s] exI [of _ vc] exI [of _ "[]"]) (simp add: read_packets_done)
next
  case (Cons v as)
  let ?d = "drop (nread vc) (bytes (vbufs s) v)"
  consider "n = length acc" | "length acc < n" "n - length acc < length ?d" | "length acc < n" "length ?d \<le> n - length acc" using Cons.prems(2) by linarith
  then show ?case
  proof cases
    case 1
    then show ?thesis
      using Cons.prems(1) by (intro exI [of _ s] exI [of _ vc] exI [of _ "[]"] exI [of _ "v # as"]) (simp add: read_packets_done)
  next
    case 2
    then show ?thesis using read_packet(1) [OF Cons.prems(1) 2] by (metis append_Nil rev.simps(1))
  next
    case 3
    obtain s' vc' where p: "to_read s' vcp vc' as (v # fs)" "read_packets vcp n acc ts s = read_packets vcp n (acc @ ?d) ts s'" "unread s vc (v # as) = ?d @ unread s' vc' as"
      using read_packet(2) [OF Cons.prems(1) 3] by blast
    have "length (acc @ ?d) \<le> n" "n \<le> length (acc @ ?d) + length (unread s' vc' as)" using 3 Cons.prems(3) p(3) by simp_all
    from Cons.IH [OF p(1) this] obtain s2 vc2 ds as' where i: "read_packets vcp n (acc @ ?d) ts s' = Some (Some ((acc @ ?d) @ take (n - length (acc @ ?d)) (unread s' vc' as)), ts, s2)"
        "as = ds @ as'" "to_read s2 vcp vc2 as' (rev ds @ v # fs)" "unread s2 vc2 as' = drop (n - length (acc @ ?d)) (unread s' vc' as)" by blast
    have "take (n - length acc) (unread s vc (v # as)) = ?d @ take (n - length (acc @ ?d)) (unread s' vc' as)"
      "drop (n - length acc) (unread s vc (v # as)) = drop (n - length (acc @ ?d)) (unread s' vc' as)"
      using p(3) 3 by (simp_all add: diff_diff_add add.commute)
    then show ?thesis using i p(2) by (intro exI [of _ s2] exI [of _ vc2] exI [of _ "v # ds"] exI [of _ as']) simp
  qed
qed

text \<open>
  C7. A read of \<open>n\<close> bytes, with as many there, returns the first \<open>n\<close> of them, whatever packets they came in, and
  leaves the rest. The packets that were read to the end, the first \<open>ds\<close>, are put on the free list one after the other; those
  after them stay in the queue, and the first of these has not been read to its end.
\<close>

theorem read_stream:
  assumes "to_read s vcp vc as fs" "n \<le> length (unread s vc as)" "ch_data ch = Some vcp"
  shows "\<exists>s' vc' ds as'. spawn_net_read_ib ch n ts s = Some (Some (SPAWN_SUCCESS, take n (unread s vc as)), ts, s')
    \<and> as = ds @ as' \<and> to_read s' vcp vc' as' (rev ds @ fs) \<and> unread s' vc' as' = drop n (unread s vc as)"
  using read_packets_ok [OF assms(1), of "[]" n ts] assms(2,3) by (fastforce simp: spawn_net_read_ib_def)

text \<open>Two packets, with two and three bytes, of which three are read.\<close>

definition packet :: "byte list \<Rightarrow> ptr \<Rightarrow> ptr \<Rightarrow> vbuf" where
  "packet bs next prev = zero_vbuf\<lparr>payload := bs, content_size := header_size + length bs, apprecvwin_msg := \<lparr>lnext = next, lprev = prev\<rparr>\<rparr>"

definition two_packets_vc :: vc where
  "two_packets_vc = (vc_init blank_vc)\<lparr>app_recv_window := \<lparr>q_head = Some 0, q_tail = Some 1, q_count = 2\<rparr>\<rparr>"

definition two_packets :: ib where
  "two_packets = \<lparr>vbufs = [0 \<mapsto> packet ''ab'' (Some 1) NULL, 1 \<mapsto> packet ''cde'' NULL (Some 0)], vcs = [0 \<mapsto> two_packets_vc], vc_info_id = 1, vc_infos = 1, vc_array = True,
     ud = \<lparr>send_wqes_avail = 10, num_sends_posted = 0, num_recvs_posted = 0, credit_preserve = 0, ext_send_queue = MESSAGE_QUEUE_INIT, ext_sendq_count = 0\<rparr>,
     unack_queue = MESSAGE_QUEUE_INIT, free_head = NULL, brk = 2, connect_head = [], connected_head = [], count_conn = 1, shutdown = False,
     local_lid = 1, local_qpn = 2, ah_ok = (\<lambda>_. True), recv_flag = False, sending = [], receiving = [], posted = [], clock = int, ticks = 0, last_check = 0\<rparr>"

lemma two_packets_to_read: "to_read two_packets 0 two_packets_vc [0, 1] []" "unread two_packets two_packets_vc [0, 1] = ''abcde''"
  by (simp_all add: to_read_def two_packets_def two_packets_vc_def packet_def zero_vbuf_def whole_def chain_def endof_def vc_init_def blank_vc_def bytes_def unread_def)

theorem read_stream_witness:
  "\<exists>s' vc' ds as'. spawn_net_read_ib \<lparr>ch_type = SPAWN_NET_TYPE_IBUD, ch_name = None, ch_data = Some 0\<rparr> 3 [] two_packets = Some (Some (SPAWN_SUCCESS, ''abc''), [], s')
    \<and> [0, 1] = ds @ as' \<and> to_read s' 0 vc' as' (rev ds) \<and> unread s' vc' as' = ''de''"
  using read_stream [OF two_packets_to_read(1), of 3 "\<lparr>ch_type = SPAWN_NET_TYPE_IBUD, ch_name = None, ch_data = Some 0\<rparr>" "[]"]
  unfolding two_packets_to_read(2) by simp

end
