(* ===== verification/Ib_Name_Spec.thy ===== *)
theory Ib_Name_Spec
  imports Ib_Api
begin

text \<open>Names and requests of the InfiniBand transport are read as they were written; the logarithm of the retries.\<close>

section \<open>Hexadecimal numbers\<close>

lemma hex_digit_props: "\<forall>d\<in>set [0..<16]. hex_value (hex_digit d) = Some d \<and> \<not> is_space (hex_digit d)
  \<and> hex_digit d \<notin> set [CHR ''-'', CHR ''+'', CHR ''x'', CHR ''X'', CHR '':'', NUL]"
  by code_simp

lemma hex_digit_value: "d < 16 \<Longrightarrow> hex_value (hex_digit d) = Some d"
  using hex_digit_props by simp

definition hex_of :: "string \<Rightarrow> nat" where
  "hex_of ds = foldl (\<lambda>n c. 16 * n + the (hex_value c)) 0 ds"

definition is_hex :: "char \<Rightarrow> bool" where
  "is_hex c \<longleftrightarrow> (\<exists>d<16. c = hex_digit d)"

lemma is_hex_props: "is_hex c \<Longrightarrow> hex_value c \<noteq> None \<and> \<not> is_space c \<and> c \<noteq> CHR ''-'' \<and> c \<noteq> CHR ''+'' \<and> c \<noteq> CHR ''x'' \<and> c \<noteq> CHR ''X'' \<and> c \<noteq> CHR '':'' \<and> c \<noteq> NUL"
  unfolding is_hex_def using hex_digit_props by auto

lemma hex_of_hex: "(\<forall>c\<in>set (hex n). is_hex c) \<and> hex_of (hex n) = n"
proof (induction n rule: hex.induct)
  case (1 n)
  show ?case
  proof (cases "n < 16")
    case True
    then show ?thesis by (subst (1 2) hex.simps) (auto simp: is_hex_def hex_of_def hex_digit_value)
  next
    case False
    then have "hex n = hex (n div 16) @ [hex_digit (n mod 16)]" by (subst hex.simps) simp
    moreover have "is_hex (hex_digit (n mod 16))" unfolding is_hex_def by (rule exI [of _ "n mod 16"]) simp
    ultimately show ?thesis using 1 [OF False] by (auto simp: hex_of_def hex_digit_value)
  qed
qed

lemma hex_length: "n < 16 ^ w \<Longrightarrow> 0 < w \<Longrightarrow> length (hex n) \<le> w"
proof (induction w arbitrary: n)
  case (Suc w)
  show ?case
  proof (cases "n < 16")
    case True
    then show ?thesis by (subst hex.simps) simp
  next
    case False
    then have "0 < w" using Suc.prems by (cases w) auto
    moreover have "n div 16 < 16 ^ w" using Suc.prems(1) by (simp add: less_mult_imp_div_less mult.commute)
    ultimately show ?thesis using Suc.IH [of "n div 16"] False by (subst hex.simps) simp
  qed
qed simp

lemma hex_pad_props:
  assumes "n < 16 ^ w" "0 < w"
  shows "length (hex_pad w n) = w" "\<forall>c\<in>set (hex_pad w n). is_hex c" "hex_of (hex_pad w n) = n"
proof -
  have z: "is_hex CHR ''0''" unfolding is_hex_def by (rule exI [of _ 0]) (simp add: hex_digit_def)
  have "hex_value CHR ''0'' = Some 0" by (simp add: hex_value_def)
  then have "hex_of (replicate k CHR ''0'' @ ds) = hex_of ds" for k ds by (induction k) (simp_all add: hex_of_def)
  then show "hex_of (hex_pad w n) = n" using hex_of_hex by (simp add: hex_pad_def)
  show "length (hex_pad w n) = w" using hex_length [OF assms] by (simp add: hex_pad_def)
  show "\<forall>c\<in>set (hex_pad w n). is_hex c" using z hex_of_hex [of n] by (auto simp: hex_pad_def)
qed

text \<open>A number that fits the width is read back.\<close>

lemma scan_hex_pad:
  assumes "n < 16 ^ w" "0 < w" "w \<le> 8"
  shows "scan_hex w (hex_pad w n @ t) = Some (word_of_nat n, t)"
proof -
  note h = hex_pad_props [OF assms(1,2)]
  obtain c ds where c: "hex_pad w n = c # ds" using h(1) assms(2) by (cases "hex_pad w n") auto
  have p: "\<not> is_space c" "c \<noteq> CHR ''-''" "c \<noteq> CHR ''+''" using h(2) c is_hex_props by auto
  have d: "dropWhile is_space (hex_pad w n @ t) = hex_pad w n @ t" using c p by simp
  have tk: "take w (hex_pad w n @ t) = hex_pad w n" "drop w (hex_pad w n @ t) = t" using h(1) by simp_all
  have s: "scan_sign (hex_pad w n) = (False, hex_pad w n)" using c p by (simp add: scan_sign_def)
  have x: "scan_0x (hex_pad w n) = hex_pad w n"
  proof -
    have "\<forall>e\<in>set ds. e \<noteq> CHR ''x'' \<and> e \<noteq> CHR ''X''" using h(2) c is_hex_props by auto
    then show ?thesis using c by (cases ds) (auto simp: scan_0x_def has_prefix_def)
  qed
  have tw: "takeWhile (\<lambda>c. hex_value c \<noteq> None) (hex_pad w n) = hex_pad w n" using h(2) is_hex_props by (intro takeWhile_eq_all_conv [THEN iffD2]) blast
  have "word_of_nat (foldl (\<lambda>n c. 16 * n + the (hex_value c)) 0 (hex_pad w n)) = (word_of_nat n :: 32 word)" using h(3) by (simp add: hex_of_def)
  then show ?thesis unfolding scan_hex_def Let_def d tk s x tw prod.case using c by simp
qed

lemma scan_fields_pad:
  assumes "n < 16 ^ w" "0 < w" "w \<le> 8"
  shows "scan_fields (w # ws) (hex_pad w n @ CHR '':'' # t) = word_of_nat n # scan_fields ws t" "scan_fields [w] (hex_pad w n) = [word_of_nat n]"
  using scan_hex_pad [OF assms, of "CHR '':'' # t"] scan_hex_pad [OF assms, of "[]"] by simp_all

lemma split_host_name: "split_host (dec (length host) @ CHR '':'' # host @ CHR '':'' # t) = Some (host, t)"
proof -
  have "CHR '':'' \<notin> set (dec (length host))" using set_dec by blast
  then show ?thesis using scan_colon_append [of "dec (length host)" "host @ CHR '':'' # t"] by (simp add: split_host_def)
qed

lemma takeWhile_stop: "c \<notin> set p \<Longrightarrow> takeWhile (\<lambda>x. x \<noteq> c) (p @ [c]) = p"
  by (induction p) auto

lemma cstring_hex_pad: "n < 16 ^ w \<Longrightarrow> 0 < w \<Longrightarrow> NUL \<notin> set (hex_pad w n)"
  using hex_pad_props(2) is_hex_props by blast

lemma lid_bounds: "unat (l :: u16) < 16 ^ 4" "unat (l :: u16) mod 2 ^ 32 = unat l"
proof -
  have "unat l < 2 ^ 16" by (rule order_less_le_trans [OF unsigned_less]) simp
  then show "unat l < 16 ^ 4" "unat l mod 2 ^ 32 = unat l" by simp_all
qed

text \<open>
  C36. The host, the address and the identifier in the name of an endpoint are what \<open>spawn_net_connect_ib\<close> gets from it,
  when the queue pair number and the identifier have at most 24 bits.
\<close>

theorem ib_name_parse:
  assumes "q < 2 ^ 24" "epid < 2 ^ 24"
  shows "has_prefix ''IBUD:'' (ib_name host l q epid)
    \<and> map_option (\<lambda>(h, p). (h, scan_fields [4, 6, 6] p)) (split_host (drop 5 (ib_name host l q epid))) = Some (host, [ucast l, q, ucast epid])"
proof -
  have b: "unat q < 16 ^ 6" "unat epid < 16 ^ 6" using assms by (simp_all add: word_less_nat_alt)
  have m: "unat q mod 2 ^ 32 = unat q" "unat epid mod 2 ^ 32 = unat epid" using b by simp_all
  have w: "word_of_nat (unat l) = (ucast l :: 32 word)" "word_of_nat (unat q) = q" "word_of_nat (unat epid) = (ucast epid :: 32 word)"
    by simp_all
  let ?p = "hex32 4 l @ CHR '':'' # hex32 6 q @ CHR '':'' # hex32 6 epid"
  have "split_host (drop 5 (ib_name host l q epid)) = Some (host, ?p)" using split_host_name by (simp add: ib_name_def)
  moreover have "scan_fields [4, 6, 6] ?p = [ucast l, q, ucast epid]"
    unfolding m lid_bounds(2) using scan_fields_pad [OF lid_bounds(1)] scan_fields_pad [OF b(1)] scan_fields_pad [OF b(2)] w by simp
  moreover have "has_prefix ''IBUD:'' (ib_name host l q epid)" by (simp add: ib_name_def has_prefix_def)
  ultimately show ?thesis by simp
qed

theorem ib_name_parse_witness:
  "has_prefix ''IBUD:'' (ib_name ''node:1'' 0x1f 0xabc 7)
    \<and> map_option (\<lambda>(h, p). (h, scan_fields [4, 6, 6] p)) (split_host (drop 5 (ib_name ''node:1'' 0x1f 0xabc 7))) = Some (''node:1'', [0x1f, 0xabc, 7])"
  using ib_name_parse [where q = "0xabc" and epid = 7 and host = "''node:1''" and l = "0x1f"] by simp

lemma ucast_narrow:
  fixes r :: u64
  assumes "unat r < 16 ^ 6"
  shows "(ucast (ucast r :: 32 word) :: u64) = r"
proof -
  have "(ucast (ucast (word_of_nat n :: u64) :: 32 word) :: u64) = word_of_nat n" if "n < 16 ^ 6" for n
    using that by (simp add: unsigned_of_nat take_bit_nat_eq_self)
  from this [OF assms] show ?thesis by simp
qed

text \<open>
  C37. A request for a connection is queued with the endpoint, the write identifier and the address that the sender
  put in it, unless one from the same channel waits or has been accepted: then only the buffer is released.
\<close>

theorem connreq_queued:
  assumes "vbufs s v = Some b" "payload b = connect_payload host epid rid l q" "NUL \<notin> set host"
    "epid < 2 ^ 24" "rid < 2 ^ 24" "q < 2 ^ 24"
  shows "ud_process_connreq v l q s =
    (if (\<exists>e\<in>set (connect_head s). req_lid e = ucast l \<and> req_qpn e = q \<and> req_id e = rid)
        \<or> (\<exists>e\<in>set (connected_head s). conn_lid e = ucast l \<and> conn_qpn e = q \<and> conn_id e = ucast rid)
     then vbuf_release v s
     else Some (s\<lparr>connect_head := connect_head s @ [\<lparr>req_vbuf = v, req_epid = ucast epid, req_lid = ucast l, req_qpn = q, req_id = rid, req_name = host\<rparr>]\<rparr>))"
proof -
  have b: "unat epid < 16 ^ 6" "unat rid < 16 ^ 6" "unat q < 16 ^ 6" using assms by (simp_all add: word_less_nat_alt)
  have m: "unat epid mod 2 ^ 32 = unat epid" "unat rid mod 2 ^ 32 = unat rid" "unat q mod 2 ^ 32 = unat q" using b by simp_all
  have w: "word_of_nat (unat l) = (ucast l :: 32 word)" "word_of_nat (unat q) = q" "word_of_nat (unat rid) = (ucast rid :: 32 word)"
      "word_of_nat (unat epid) = epid"
    by simp_all
  have r: "(ucast (ucast rid :: 32 word) :: u64) = rid" by (rule ucast_narrow [OF b(2)])
  define f where "f = hex32 6 epid @ CHR '':'' # hex32 6 rid @ CHR '':'' # hex32 4 l @ CHR '':'' # hex32 6 q"
  define p where "p = dec (length host) @ CHR '':'' # host @ CHR '':'' # f"
  have "NUL \<notin> set p"
    unfolding p_def f_def m lid_bounds(2)
    using assms(3) set_dec cstring_hex_pad [OF b(1)] cstring_hex_pad [OF b(2)] cstring_hex_pad [OF b(3)] cstring_hex_pad [OF lid_bounds(1)] by auto
  then have tw: "takeWhile (\<lambda>c. c \<noteq> NUL) (p @ [NUL]) = p" by (rule takeWhile_stop)
  have pl: "payload b = p @ [NUL]" using assms(2) by (simp add: connect_payload_def p_def f_def)
  have sh: "split_host p = Some (host, f)" unfolding p_def by (rule split_host_name)
  have "scan_fields [6, 6, 4, 6] f = [epid, ucast rid, ucast l, q]"
    unfolding f_def m lid_bounds(2)
    using scan_fields_pad [OF lid_bounds(1)] scan_fields_pad [OF b(1)] scan_fields_pad [OF b(2)] scan_fields_pad [OF b(3)] w by simp
  then show ?thesis using assms(1) by (auto simp: ud_process_connreq_def pl tw sh r simp del: scan_fields.simps)
qed

definition request_state :: "connect_list list \<Rightarrow> ib \<Rightarrow> ib" where
  "request_state es s = s\<lparr>connect_head := es, connected_head := [],
     vbufs := [0 \<mapsto> zero_vbuf\<lparr>payload := connect_payload ''node1'' 3 5 0x1f 0xabc\<rparr>], free_head := NULL\<rparr>"

theorem connreq_queued_witness:
  "(\<forall>s. ud_process_connreq 0 0x1f 0xabc (request_state [] s) = Some ((request_state [] s)\<lparr>connect_head :=
      [\<lparr>req_vbuf = 0, req_epid = 3, req_lid = 0x1f, req_qpn = 0xabc, req_id = 5, req_name = ''node1''\<rparr>]\<rparr>))"
  using connreq_queued [where s = "request_state [] s" and v = 0 and host = "''node1''" and epid = 3 and rid = 5 and l = "0x1f" and q = "0xabc" for s]
  by (simp add: request_state_def)

section \<open>The logarithm\<close>

lemma and_push_mask:
  fixes v :: u16
  assumes "n + k \<le> 16"
  shows "and v (push_bit n (mask k)) = 0 \<longleftrightarrow> unat v div 2 ^ n mod 2 ^ k = 0"
proof -
  have l: "bit v i \<Longrightarrow> i < 16" for i using bit_imp_le_length [of v i] by simp
  have "and v (push_bit n (mask k)) = 0 \<longleftrightarrow> (\<forall>i. \<not> (bit v i \<and> n \<le> i \<and> i - n < k))"
    using assms l by (auto simp: bit_eq_iff bit_simps) (metis l less_imp_diff_less)
  also have "\<dots> \<longleftrightarrow> (\<forall>j. \<not> (j < k \<and> bit v (n + j)))" by (metis add_diff_cancel_left' le_add1 le_add_diff_inverse)
  also have "\<dots> \<longleftrightarrow> take_bit k (drop_bit n v) = 0"
    using l by (fastforce simp: bit_eq_iff bit_simps)
  also have "\<dots> \<longleftrightarrow> unat (take_bit k (drop_bit n v)) = 0" by (simp add: unat_eq_0)
  also have "unat (take_bit k (drop_bit n v)) = unat v div 2 ^ n mod 2 ^ k"
  proof -
    have "unat v < 2 ^ 16" by (rule order_less_le_trans [OF unsigned_less]) simp
    then show ?thesis by (simp only: unsigned_take_bit_eq unsigned_drop_bit_eq) (simp add: take_bit_eq_mod drop_bit_eq_div)
  qed
  finally show ?thesis .
qed

text \<open>One halving of the search.\<close>

lemma log_step:
  fixes v :: u16
  assumes "r + 2 * k \<le> 16" "unat v < 2 ^ (r + 2 * k)" "2 ^ r \<le> unat v"
  defines "r' \<equiv> (if and v (push_bit (r + k) (mask k)) \<noteq> 0 then r + k else r)"
  shows "unat v < 2 ^ (r' + k) \<and> 2 ^ r' \<le> unat v \<and> r' + k \<le> 16"
proof -
  have "unat v < 2 ^ k * 2 ^ (r + k)" using assms(2) by (simp add: power_add mult_2 mult.left_commute)
  then have "unat v div 2 ^ (r + k) < 2 ^ k" by (rule less_mult_imp_div_less)
  then have "and v (push_bit (r + k) (mask k)) = 0 \<longleftrightarrow> unat v < 2 ^ (r + k)"
    using and_push_mask [of "r + k" k v] assms(1) by (simp add: div_eq_0_iff)
  then show ?thesis using assms by (auto simp: r'_def mult_2 add.assoc not_less)
qed

text \<open>
  \<open>LOG2\<close> is the logarithm, rounded down, of every number of sixteen bits but zero.
\<close>

theorem log2_correct:
  assumes "v \<noteq> 0"
  shows "2 ^ LOG2 v \<le> unat v \<and> unat v < 2 ^ (LOG2 v + 1)"
proof -
  have m: "(0xFF00 :: u16) = push_bit (0 + 8) (mask 8)" "(0x0F :: u16) = mask 4" "(0x03 :: u16) = mask 2" "(0x01 :: u16) = mask 1"
    by (simp_all add: mask_eq_exp_minus_1)
  define a where "a = (if and v (push_bit (0 + 8) (mask 8)) \<noteq> 0 then 0 + 8 else (0 :: nat))"
  define b where "b = (if and v (push_bit (a + 4) (mask 4)) \<noteq> 0 then a + 4 else a)"
  define c where "c = (if and v (push_bit (b + 2) (mask 2)) \<noteq> 0 then b + 2 else b)"
  define d where "d = (if and v (push_bit (c + 1) (mask 1)) \<noteq> 0 then c + 1 else c)"
  have L: "LOG2 v = d" unfolding LOG2_def Let_def m d_def c_def b_def a_def by (simp only: add_0)
  have "unat v < 2 ^ (0 + 2 * 8)" by (rule order_less_le_trans [OF unsigned_less]) simp
  moreover have "2 ^ 0 \<le> unat v" using assms by (simp add: Suc_le_eq unat_gt_0)
  ultimately have 1: "unat v < 2 ^ (a + 8) \<and> 2 ^ a \<le> unat v \<and> a + 8 \<le> 16" unfolding a_def by (intro log_step) simp_all
  then have 2: "unat v < 2 ^ (b + 4) \<and> 2 ^ b \<le> unat v \<and> b + 4 \<le> 16" unfolding b_def by (intro log_step) simp_all
  then have 3: "unat v < 2 ^ (c + 2) \<and> 2 ^ c \<le> unat v \<and> c + 2 \<le> 16" unfolding c_def by (intro log_step) simp_all
  then have "unat v < 2 ^ (d + 1) \<and> 2 ^ d \<le> unat v \<and> d + 1 \<le> 16" unfolding d_def by (intro log_step) simp_all
  then show ?thesis using L by simp
qed

theorem log2_correct_witness: "2 ^ LOG2 1000 \<le> unat (1000 :: u16) \<and> unat (1000 :: u16) < 2 ^ (LOG2 1000 + 1)"
  by (rule log2_correct) simp

end
