(* ===== verification/Ib_Error_Spec.thy ===== *)
theory Ib_Error_Spec
  imports Ib_Api Ib_Recv_Spec
begin

text \<open>
  Packets for channels that are not there. The buffer of such a packet is released, but the
  number of buffers the card has for receiving is not lowered.
\<close>

definition stray :: "ib \<Rightarrow> ibv_wc \<Rightarrow> bool" where
  "stray s wc \<longleftrightarrow> wc_success wc \<and> wc_opcode wc = IBV_WC_RECV \<and> ptype (wc_header wc) \<noteq> PKT_UD_CONNECT
     \<and> (vc_info_id s \<le> unat (srcid (wc_header wc)) \<or> vcs s (unat (srcid (wc_header wc))) = None)"

text \<open>Buffers that the card may have: not in use for sending, and not at the head of the free list.\<close>

definition spare :: "ib \<Rightarrow> nat list \<Rightarrow> bool" where
  "spare s vs \<longleftrightarrow> (\<forall>v\<in>set vs. free_head s \<noteq> Some v \<and> (\<exists>b. vbufs s v = Some b \<and> and (flags b) UD_VBUF_SEND_INPROGRESS = 0))"

lemma cq_recv_stray:
  assumes w: "stray s wc" and v: "spare s (wr_id wc # vs)" "distinct (wr_id wc # vs)"
  shows "\<exists>s'. cq_recv wc s = Some (False, s') \<and> ud s' = ud s \<and> vcs s' = vcs s \<and> vc_info_id s' = vc_info_id s \<and> receiving s' = remove1 (wr_id wc) (receiving s) \<and> spare s' vs"
proof -
  let ?v = "wr_id wc"
  obtain b where b: "vbufs s ?v = Some b" "and (flags b) UD_VBUF_SEND_INPROGRESS = 0" "free_head s \<noteq> Some ?v" using v(1) by (auto simp: spare_def)
  let ?b = "b\<lparr>header := wc_header wc, payload := wc_payload wc, content_size := header_size + length (wc_payload wc)\<rparr>"
  let ?s = "s\<lparr>receiving := remove1 ?v (receiving s), vbufs := (vbufs s)(?v \<mapsto> ?b)\<rparr>"
  let ?t = "?s\<lparr>vbufs := (vbufs s)(?v \<mapsto> freed (free_head s) ?b), free_head := Some ?v\<rparr>"
  have "vbuf_release ?v ?s = Some ?t" using vbuf_release_idle [of ?s ?v ?b] b by simp
  then have "cq_recv wc s = Some (False, ?t)" using w b(1) by (auto simp: cq_recv_def stray_def put_vbuf_def Let_def split: option.splits)
  moreover have "spare ?t vs" using v by (auto simp: spare_def)
  ultimately show ?thesis by (intro exI [of _ ?t]) simp
qed

text \<open>What such packets leave as it was.\<close>

definition untouched :: "ib \<Rightarrow> ib \<Rightarrow> bool" where
  "untouched s s' \<longleftrightarrow> ud s' = ud s \<and> vcs s' = vcs s \<and> vc_info_id s' = vc_info_id s"

lemma stray_untouched: "untouched s s' \<Longrightarrow> stray s' wc = stray s wc"
  by (simp add: untouched_def stray_def)

lemma cq_entries_stray:
  assumes "\<forall>wc\<in>set wcs. stray s wc" "spare s (map wr_id wcs @ vs)" "distinct (map wr_id wcs @ vs)"
  shows "\<exists>s'. cq_entries wcs 0 False s = Some (0, False, s') \<and> untouched s s' \<and> receiving s' = fold remove1 (map wr_id wcs) (receiving s) \<and> spare s' vs"
  using assms
proof (induction wcs arbitrary: s)
  case (Cons wc wcs)
  obtain s1 where s1: "cq_recv wc s = Some (False, s1)" "untouched s s1" "receiving s1 = remove1 (wr_id wc) (receiving s)" "spare s1 (map wr_id wcs @ vs)"
    using cq_recv_stray [of s wc "map wr_id wcs @ vs"] Cons.prems by (auto simp: untouched_def)
  have "\<forall>wc\<in>set wcs. stray s1 wc" using Cons.prems(1) stray_untouched [OF s1(2)] by simp
  from Cons.IH [OF this s1(4)] show ?case using Cons.prems(1,3) s1(1-3) by (auto simp: stray_def untouched_def)
qed (simp add: untouched_def)

lemma drain_loop_stray:
  assumes "\<forall>wc\<in>set (concat polls). stray s wc" "spare s (map wr_id (concat polls))" "distinct (map wr_id (concat polls))" "[] \<notin> set polls"
  shows "\<exists>s'. drain_loop polls False s = Some (False, s') \<and> untouched s s' \<and> receiving s' = fold remove1 (map wr_id (concat polls)) (receiving s)"
  using assms
proof (induction polls arbitrary: s)
  case (Cons wcs polls)
  obtain s1 where s1: "cq_entries wcs 0 False s = Some (0, False, s1)" "untouched s s1" "receiving s1 = fold remove1 (map wr_id wcs) (receiving s)"
      "spare s1 (map wr_id (concat polls))"
    using cq_entries_stray [of wcs s "map wr_id (concat polls)"] Cons.prems by auto
  have "\<forall>wc\<in>set (concat polls). stray s1 wc" using Cons.prems(1) stray_untouched [OF s1(2)] by simp
  from Cons.IH [OF this s1(4)] show ?case using Cons.prems(3,4) s1(1-3) by (auto simp: cq_poll_def untouched_def)
qed (simp add: untouched_def)

text \<open>
  C40. When packets for channels that are closed have come in in all buffers the card has for receiving, it has none
  left, and the count of these buffers, by which the code decides whether to post new ones, is
  what it was. Nothing is received from then on.
\<close>

theorem stray_packets_starve:
  assumes "\<forall>wc\<in>set (concat polls). stray s wc" "spare s (receiving s)" "distinct (receiving s)" "map wr_id (concat polls) = receiving s" "[] \<notin> set polls"
  shows "\<exists>s'. cq_drain polls s = Some s' \<and> receiving s' = [] \<and> num_recvs_posted (ud s') = num_recvs_posted (ud s)"
proof -
  obtain s' where s': "drain_loop polls False s = Some (False, s')" "untouched s s'" "receiving s' = fold remove1 (receiving s) (receiving s)"
    using drain_loop_stray [of polls s] assms by auto
  have "fold remove1 xs xs = []" for xs :: "nat list" by (induction xs) simp_all
  then show ?thesis using s' by (simp add: cq_drain_def untouched_def)
qed

text \<open>A process with four buffers and no channel 7.\<close>

definition stray_wc :: "nat \<Rightarrow> ibv_wc" where
  "stray_wc v = \<lparr>wc_success = True, wc_opcode = IBV_WC_RECV, wr_id = v, slid = 1, src_qp = 2,
     wc_header = \<lparr>ptype = PKT_UD_DATA, srcid = 7, pseqnum = 0, acknum = 0\<rparr>, wc_payload = ''x''\<rparr>"

theorem stray_packets_starve_witness:
  "\<exists>s'. cq_drain [map stray_wc [0, 1, 2], [stray_wc 3]] four_buffers = Some s' \<and> receiving s' = [] \<and> num_recvs_posted (ud s') = 4"
proof -
  have "\<forall>wc\<in>set (concat [map stray_wc [0, 1, 2], [stray_wc 3]]). stray four_buffers wc" by (simp add: stray_def stray_wc_def four_buffers_def)
  moreover have "spare four_buffers (receiving four_buffers)" by (simp add: spare_def four_buffers_def zero_vbuf_def)
  ultimately show ?thesis using stray_packets_starve [of "[map stray_wc [0, 1, 2], [stray_wc 3]]" four_buffers] by (simp add: four_buffers_def stray_wc_def)
qed

end
