(* ===== verification/Ib_Open.thy ===== *)
theory Ib_Open
  imports Ib_Api
begin

text \<open>
  Opening and closing endpoints of the InfiniBand transport, and the threads that run between (\<open>src/src/spawn_net_ib.c\<close>).
\<close>

section \<open>The card\<close>

text \<open>What is taken from the verbs library, and memory that is kept; \<open>held\<close> below is what has not been given back.\<close>

datatype hca_res = Device_list | Device_context | Protection_domain | Port_list | Comp_channel | Completion_queue | Queue_pair | Ctx_memory

text \<open>What the calls answer; \<open>modify_rc\<close> is for the calls of \<open>ibv_modify_qp\<close> in their order.\<close>

record verbs =
  fork_rc :: int
  num_devices :: "int option"
  open_ok :: bool
  pd_ok :: bool
  device_rc :: int
  channel_ok :: bool
  cq_ok :: bool
  port_lid :: u16
  qp_num :: "32 word option"
  modify_rc :: "nat \<Rightarrow> int"
  spin_rc :: int
  mutex_rc :: int
  getrlimit_rc :: int
  setrlimit_rc :: int
  attr_rc :: int
  stacksize_rc :: int
  gethostname_ok :: "string option"

text \<open>A failure to query a port is only reported.\<close>

definition hca_open :: "int \<Rightarrow> verbs \<Rightarrow> hca_res list \<Rightarrow> int \<times> hca_res list" where
  "hca_open devnum v hs =
     (if fork_rc v \<noteq> 0 then (- 1, hs)
      else case num_devices v of
        None \<Rightarrow> (- 1, hs)
      | Some n \<Rightarrow>
          let hs = Device_list # hs in
          if devnum \<ge> n then (- 1, remove1 Device_list hs)
          else if \<not> open_ok v then (- 1, remove1 Device_list hs)
          else let hs = Device_context # hs in
          if \<not> pd_ok v then (- 1, (remove1 Device_list \<circ> remove1 Device_context) hs)
          else let hs = Protection_domain # hs in
          if device_rc v \<noteq> 0 then (- 1, (remove1 Device_list \<circ> remove1 Device_context \<circ> remove1 Protection_domain) hs)
          else let hs = Port_list # hs in
          if \<not> channel_ok v then (- 1, (remove1 Device_list \<circ> remove1 Device_context \<circ> remove1 Protection_domain \<circ> remove1 Port_list) hs)
          else let hs = Comp_channel # hs in
          if \<not> cq_ok v
          then (- 1, (remove1 Device_list \<circ> remove1 Device_context \<circ> remove1 Protection_domain \<circ> remove1 Port_list \<circ> remove1 Comp_channel) hs)
          else let hs = Completion_queue # hs in
          (0, (remove1 Device_list \<circ> remove1 Port_list) hs))"

definition qp_transition :: "verbs \<Rightarrow> int" where
  "qp_transition v = (if modify_rc v 0 \<noteq> 0 then 1 else if modify_rc v 1 \<noteq> 0 then 1 else if modify_rc v 2 \<noteq> 0 then 1 else 0)"

definition qp_create :: "verbs \<Rightarrow> hca_res list \<Rightarrow> 32 word option \<times> hca_res list" where
  "qp_create v hs =
     (case qp_num v of
        None \<Rightarrow> (None, hs)
      | Some q \<Rightarrow>
          let hs = Queue_pair # hs in
          if qp_transition v \<noteq> 0 then (None, remove1 Queue_pair hs) else (Some q, hs))"

section \<open>The process\<close>

text \<open>
  \<open>regions_freed\<close>: the list of the regions that buffers were allocated in still has elements that were freed.
\<close>

record ib_proc =
  net :: ib
  count_open :: int
  ud_ep_id :: u64
  vc_self :: ptr
  force_shutdown :: bool
  regions_freed :: bool
  held :: "hca_res list"

definition RDMA_DEFAULT_MAX_UD_SEND_WQE :: int where "RDMA_DEFAULT_MAX_UD_SEND_WQE = 2048"
definition EINVAL_code :: int where "EINVAL_code = 22"

text \<open>The channel a process has to itself.\<close>

definition create_self :: "ib_proc \<Rightarrow> ib_proc option" where
  "create_self p = do {
     let s = (net p)\<lparr>recv_flag := False\<rparr>;
     (vcp, s) \<leftarrow> vc_alloc s;
     s \<leftarrow> put_vc vcp (\<lambda>vc. vc\<lparr>writeid := readid vc\<rparr>) s;
     (rc, s) \<leftarrow> vc_set_addr vcp (local_lid s) (local_qpn s) s;
     s \<leftarrow> put_vc vcp (\<lambda>vc. vc\<lparr>state := VC_STATE_CONNECTED\<rparr>) s;
     Some (p\<lparr>net := s, vc_self := Some vcp\<rparr>) }"

text \<open>The first component is whether it succeeds. A lock that cannot be created ends the process.\<close>

definition ud_ctx_create :: "verbs \<Rightarrow> ib_proc \<Rightarrow> (bool \<times> ib_proc) option" where
  "ud_ctx_create v p =
     (if spin_rc v \<noteq> 0 \<or> mutex_rc v \<noteq> 0 then None
      else if getrlimit_rc v \<noteq> 0 then Some (False, p)
      else if setrlimit_rc v \<noteq> 0 then Some (False, p)
      else
        let (q, hs) = qp_create v (Ctx_memory # held p);
            p = p\<lparr>held := hs\<rparr>
        in case q of
          None \<Rightarrow> Some (False, p)
        | Some q \<Rightarrow> do {
            s \<leftarrow> ud_post_recv_buffers (nat RDMA_DEFAULT_MAX_UD_RECV_WQE) (net p);
            let c = \<lparr>send_wqes_avail = RDMA_DEFAULT_MAX_UD_SEND_WQE - 50, num_sends_posted = 0, num_recvs_posted = RDMA_DEFAULT_MAX_UD_RECV_WQE,
              credit_preserve = RDMA_DEFAULT_MAX_UD_RECV_WQE div 4, ext_send_queue = MESSAGE_QUEUE_INIT, ext_sendq_count = 0\<rparr>;
            let p = p\<lparr>net := s\<lparr>ud := c, unack_queue := MESSAGE_QUEUE_INIT, local_lid := port_lid v, local_qpn := q\<rparr>\<rparr>;
            if attr_rc v \<noteq> 0 then Some (False, p)
            else if stacksize_rc v \<noteq> 0 \<and> stacksize_rc v \<noteq> EINVAL_code then Some (False, p)
            else do { p \<leftarrow> create_self p; Some (True, p) } })"

definition spawn_net_open_ib :: "verbs \<Rightarrow> ib_proc \<Rightarrow> (ib_endpoint option \<times> ib_proc) option" where
  "spawn_net_open_ib v p = do {
     (ok, p) \<leftarrow> (if count_open p = 0
       then let (rc, hs) = hca_open 0 v (held p); p = p\<lparr>held := hs\<rparr> in if rc \<noteq> 0 then Some (False, p) else ud_ctx_create v p
       else Some (True, p));
     if \<not> ok then Some (None, p)
     else do {
       let p = p\<lparr>count_open := count_open p + 1\<rparr>;
       let epid = ud_ep_id p;
       let p = p\<lparr>ud_ep_id := ud_ep_id p + 1\<rparr>;
       (case gethostname_ok v of
          None \<Rightarrow> Some (None, p)
        | Some host \<Rightarrow> Some (Some \<lparr>ep_type = SPAWN_NET_TYPE_IBUD, ep_name = Some (ib_name host (local_lid (net p)) (local_qpn (net p)) epid),
            ep_data = Some epid\<rparr>, p)) } }"

section \<open>Threads\<close>

text \<open>
  The rest of the timeout thread when it has been told to stop, with what the receive thread does meanwhile. It ends when all packets
  are acknowledged, when it is to give up at once, or when its timer expires. The first component of the results here is
  whether the wait is over.
\<close>

definition shutdown_timeout :: int where "shutdown_timeout = 25000 * 10"

fun join_timeout :: "bool \<Rightarrow> int option \<Rightarrow> other list \<Rightarrow> ib \<Rightarrow> (bool \<times> ib) option" where
  "join_timeout cancel fin [] s = Some (False, s)"
| "join_timeout cancel fin (Recv_Thread polls # ts) s = do { s \<leftarrow> cq_drain polls s; join_timeout cancel fin ts s }"
| "join_timeout cancel fin (Timeout_Thread polls # ts) s = do {
     s \<leftarrow> ud_check_acks s;
     s \<leftarrow> cq_drain polls s;
     (unack_empty, s) \<leftarrow> ud_check_resend s;
     if cancel \<or> unack_empty then Some (True, s)
     else
       (case fin of
          None \<Rightarrow> let (t, s) = spawn_clock_time_us s in join_timeout cancel (Some (t + shutdown_timeout)) ts s
        | Some t \<Rightarrow> let (now, s) = spawn_clock_time_us s in if now > t then Some (True, s) else join_timeout cancel fin ts s) }"

text \<open>The receive thread ends when the message has come that tells it to.\<close>

fun join_recv :: "ibv_wc list list list \<Rightarrow> ib \<Rightarrow> (bool \<times> ib) option" where
  "join_recv [] s = Some (False, s)"
| "join_recv (polls # rs) s = do { s \<leftarrow> cq_drain polls s; if shutdown s then Some (True, s) else join_recv rs s }"

section \<open>Closing\<close>

definition close_vc :: "nat \<Rightarrow> ib \<Rightarrow> ib option" where
  "close_vc vcp s = do {
     s \<leftarrow> put_vc vcp (\<lambda>vc. vc\<lparr>local_closed := True, remote_closed := True\<rparr>) s;
     vc_free vcp s }"

fun free_vcs :: "nat list \<Rightarrow> ib \<Rightarrow> ib option" where
  "free_vcs [] s = Some s"
| "free_vcs (i # is) s = do { s \<leftarrow> (if vcs s i = None then Some s else close_vc i s); free_vcs is s }"

fun drain_sends :: "ibv_wc list list list \<Rightarrow> ib \<Rightarrow> (bool \<times> ib) option" where
  "drain_sends ps s =
     (if num_sends_posted (ud s) > 0 then
        (case ps of [] \<Rightarrow> Some (False, s) | polls # ps \<Rightarrow> do { s \<leftarrow> cq_drain polls s; drain_sends ps s })
      else Some (True, s))"

text \<open>All regions are freed; the list of them is not changed.\<close>

definition vbuf_finalize :: "ib_proc \<Rightarrow> ib_proc option" where
  "vbuf_finalize p =
     (if regions_freed p then None else Some (p\<lparr>net := (net p)\<lparr>vbufs := Map.empty, free_head := NULL\<rparr>, regions_freed := True\<rparr>))"

definition give_back :: "(hca_res \<Rightarrow> int) \<Rightarrow> hca_res list \<Rightarrow> hca_res list" where
  "give_back rc hs = fold (\<lambda>r hs. if r \<in> set hs \<and> rc r = 0 then remove1 r hs else hs)
     [Queue_pair, Completion_queue, Comp_channel, Protection_domain, Device_context] hs"

text \<open>
  What the others do meanwhile: \<open>c_others\<close> until the timeout thread ends, \<open>c_last\<close> for its last look at the completions, \<open>c_recv\<close> until the receive thread
  ends, \<open>c_sends\<close> until all sends are complete; \<open>c_cancel\<close> is the setting to give up at once, and \<open>c_rc\<close> what giving back a resource returns.
\<close>

record closing =
  c_cancel :: bool
  c_others :: "other list"
  c_last :: "ibv_wc list list"
  c_recv :: "ibv_wc list list list"
  c_sends :: "ibv_wc list list list"
  c_rc :: "hca_res \<Rightarrow> int"

definition stop_threads :: "closing \<Rightarrow> ib_proc \<Rightarrow> (bool \<times> ib_proc) option" where
  "stop_threads c p = do {
     let p = p\<lparr>force_shutdown := True\<rparr>;
     (ok, s) \<leftarrow> join_timeout (c_cancel c) None (c_others c) (net p);
     if \<not> ok then Some (False, p\<lparr>net := s\<rparr>)
     else do {
       s \<leftarrow> cq_drain (c_last c) s;
       s \<leftarrow> ud_check_acks s;
       self \<leftarrow> vc_self p;
       (rc, s) \<leftarrow> packet_send self PKT_UD_SHUTDOWN [] s;
       (ok, s) \<leftarrow> join_recv (c_recv c) s;
       if \<not> ok then Some (False, p\<lparr>net := s\<rparr>)
       else do { s \<leftarrow> close_vc self s; Some (True, p\<lparr>net := s, vc_self := NULL\<rparr>) } } }"

definition ud_ctx_destroy :: "closing \<Rightarrow> ib_proc \<Rightarrow> (bool \<times> ib_proc) option" where
  "ud_ctx_destroy c p = do {
     (ok, p) \<leftarrow> stop_threads c p;
     if \<not> ok then Some (False, p)
     else do {
       s \<leftarrow> free_vcs [0..<vc_info_id (net p)] (net p);
       (ok, s) \<leftarrow> drain_sends (c_sends c) s;
       let p = p\<lparr>net := s\<rparr>;
       if \<not> ok then Some (False, p)
       else do {
         p \<leftarrow> vbuf_finalize p;
         Some (True, p\<lparr>held := remove1 Ctx_memory (give_back (c_rc c) (held p)), net := (net p)\<lparr>vcs := Map.empty, vc_array := False\<rparr>\<rparr>) } } }"

text \<open>The result is the return code and the caller's pointer; \<open>None\<close> in its place while the call waits.\<close>

definition spawn_net_close_ib :: "closing \<Rightarrow> ib_endpoint option \<Rightarrow> ib_proc \<Rightarrow> ((int \<times> ib_endpoint option) option \<times> ib_proc) option" where
  "spawn_net_close_ib c pep p = do {
     let p = p\<lparr>count_open := count_open p - 1\<rparr>;
     (ok, p) \<leftarrow> (if count_open p = 0 then ud_ctx_destroy c p else Some (True, p));
     if \<not> ok then Some (None, p)
     else do { ep \<leftarrow> pep; Some (Some (SPAWN_SUCCESS, None), p) } }"

end
