(* ===== verification/Ib_Ids.thy ===== *)
theory Ib_Ids
  imports Ib_Open
begin

text \<open>
  How many channels a process has had, which also is the identifier of the next one, changes only when a channel is created:
  sending, receiving, the threads and the closing of channels leave it alone.
\<close>

named_theorems ids

lemma ids_put [ids]:
  "put_vc vcp f s = Some s' \<Longrightarrow> vc_info_id s' = vc_info_id s"
  "put_vbuf v g s = Some s' \<Longrightarrow> vc_info_id s' = vc_info_id s"
  by (auto simp: put_vc_def put_vbuf_def)

lemma ids_vbuf_get [ids]: "vbuf_get s = Some (v, s') \<Longrightarrow> vc_info_id s' = vc_info_id s"
  by (auto simp: vbuf_get_def vbuf_region_alloc_def fresh_region_def Let_def split: bind_splits if_splits dest!: ids)

lemma ids_vbuf_release [ids]: "vbuf_release v s = Some s' \<Longrightarrow> vc_info_id s' = vc_info_id s"
  by (auto simp: vbuf_release_def Let_def split: bind_splits if_splits dest!: ids)

lemma ids_post [ids]:
  "post_wqe vcp v s = Some s' \<Longrightarrow> vc_info_id s' = vc_info_id s"
  "queue_ext v s = Some s' \<Longrightarrow> vc_info_id s' = vc_info_id s"
  by (auto simp: post_wqe_def ibv_post_send_def queue_ext_def Let_def split: bind_splits dest!: ids)

lemma ids_post_sr [ids]: "ibv_ud_post_sr v vcp s = Some s' \<Longrightarrow> vc_info_id s' = vc_info_id s"
  by (auto simp: ibv_ud_post_sr_def split: if_splits dest!: ids)

lemma ids_track [ids]:
  "track_send vcp v s = Some s' \<Longrightarrow> vc_info_id s' = vc_info_id s"
  "number_packet vcp vc v s = Some s' \<Longrightarrow> vc_info_id s' = vc_info_id s"
  by (auto simp: track_send_def number_packet_def split: bind_splits dest!: ids)

lemma ids_post_send [ids]: "ud_post_send vcp v s = Some s' \<Longrightarrow> vc_info_id s' = vc_info_id s"
  by (auto simp: ud_post_send_def spawn_clock_time_us_def Let_def split: bind_splits if_splits dest!: ids)

lemma ids_unlink [ids]:
  "unwindow vcp v s = Some s' \<Longrightarrow> vc_info_id s' = vc_info_id s"
  "unack v s = Some s' \<Longrightarrow> vc_info_id s' = vc_info_id s"
  by (auto simp: unwindow_def unack_def split: bind_splits dest!: ids)

section \<open>Loops\<close>

lemma ids_ack_loop [ids]: "ack_loop vcp num s = Some s' \<Longrightarrow> vc_info_id s' = vc_info_id s"
  by (erule ack_loop.raw_induct [where P = "\<lambda>_ _ s s'. vc_info_id s' = vc_info_id s", rotated])
    (auto split: bind_splits option.splits if_splits dest!: ids)

lemma ids_flush_loop [ids]: "flush_loop vcp cur s = Some s' \<Longrightarrow> vc_info_id s' = vc_info_id s"
  by (erule flush_loop.raw_induct [where P = "\<lambda>_ _ s s'. vc_info_id s' = vc_info_id s", rotated])
    (auto split: bind_splits option.splits if_splits simp: Let_def dest!: ids)

lemma ids_process_ack [ids]: "ud_process_ack vcp num s = Some s' \<Longrightarrow> vc_info_id s' = vc_info_id s"
  by (auto simp: ud_process_ack_def ud_flush_ext_window_def split: bind_splits if_splits dest!: ids)

lemma ids_send_ack [ids]: "ud_send_ack vcp s = Some s' \<Longrightarrow> vc_info_id s' = vc_info_id s"
  by (auto simp: ud_send_ack_def split: bind_splits dest!: ids)

lemma ids_check_acks: "check_acks es s = Some s' \<Longrightarrow> vc_info_id s' = vc_info_id s"
  by (induction es arbitrary: s) (auto split: bind_splits if_splits dest!: ids)

lemma ids_ud_check_acks [ids]: "ud_check_acks s = Some s' \<Longrightarrow> vc_info_id s' = vc_info_id s"
  by (simp add: ud_check_acks_def ids_check_acks)

lemma ids_resend [ids]: "ud_resend v s = Some s' \<Longrightarrow> vc_info_id s' = vc_info_id s"
  by (auto simp: ud_resend_def ud_toss_packet_def split: bind_splits if_splits option.splits dest!: ids)

lemma ids_resend_loop [ids]: "resend_loop cur now s = Some s' \<Longrightarrow> vc_info_id s' = vc_info_id s"
  by (erule resend_loop.raw_induct [where P = "\<lambda>_ _ s s'. vc_info_id s' = vc_info_id s", rotated])
    (auto split: bind_splits option.splits if_splits simp: Let_def spawn_clock_time_us_def dest!: ids)

lemma ids_check_resend [ids]: "ud_check_resend s = Some (e, s') \<Longrightarrow> vc_info_id s' = vc_info_id s"
  by (auto simp: ud_check_resend_def spawn_clock_time_us_def Let_def split: bind_splits if_splits dest!: ids)

lemma ids_credit_loop [ids]: "credit_loop cur s = Some s' \<Longrightarrow> vc_info_id s' = vc_info_id s"
  by (erule credit_loop.raw_induct [where P = "\<lambda>_ s s'. vc_info_id s' = vc_info_id s", rotated])
    (auto split: bind_splits option.splits if_splits simp: Let_def dest!: ids)

lemma ids_update_send_credits [ids]: "ud_update_send_credits num s = Some s' \<Longrightarrow> vc_info_id s' = vc_info_id s"
  by (auto simp: ud_update_send_credits_def Let_def dest!: ids)

section \<open>Closing a channel\<close>

lemma ids_purge_ext_sendq [ids]: "purge_ext_sendq vcp prev cur s = Some s' \<Longrightarrow> vc_info_id s' = vc_info_id s"
  by (erule purge_ext_sendq.raw_induct [where P = "\<lambda>_ _ _ s s'. vc_info_id s' = vc_info_id s", rotated])
    (auto split: bind_splits option.splits if_splits simp: Let_def dest!: ids)

lemma ids_purge_send_window [ids]: "purge_send_window vcp cur s = Some s' \<Longrightarrow> vc_info_id s' = vc_info_id s"
  by (erule purge_send_window.raw_induct [where P = "\<lambda>_ _ s s'. vc_info_id s' = vc_info_id s", rotated])
    (auto split: bind_splits option.splits simp: Let_def dest!: ids)

lemma ids_release_all [ids]: "release_all get upd cur s = Some s' \<Longrightarrow> vc_info_id s' = vc_info_id s"
  by (erule release_all.raw_induct [where P = "\<lambda>_ _ _ s s'. vc_info_id s' = vc_info_id s", rotated])
    (auto split: bind_splits option.splits simp: Let_def dest!: ids)

lemma ids_purge_queues [ids]: "vc_purge_queues vcp s = Some s' \<Longrightarrow> vc_info_id s' = vc_info_id s"
  by (auto simp: vc_purge_queues_def split: bind_splits dest!: ids)

lemma ids_vc_free [ids]: "vc_free vcp s = Some s' \<Longrightarrow> vc_info_id s' = vc_info_id s"
  by (auto simp: vc_free_def vc_purge_connected_def vc_delete_def Let_def split: bind_splits if_splits dest!: ids)

lemma ids_close_vc [ids]: "close_vc vcp s = Some s' \<Longrightarrow> vc_info_id s' = vc_info_id s"
  by (auto simp: close_vc_def split: bind_splits dest!: ids)

lemma ids_free_vcs [ids]: "free_vcs is s = Some s' \<Longrightarrow> vc_info_id s' = vc_info_id s"
  by (induction "is" arbitrary: s) (auto split: bind_splits if_splits dest!: ids)

section \<open>Packets that come in\<close>

lemma ids_app_recv [ids]: "app_recv vcp v s = Some s' \<Longrightarrow> vc_info_id s' = vc_info_id s"
  by (auto simp: app_recv_def split: bind_splits dest!: ids)

lemma ids_move_recvwin [ids]: "move_recvwin vcp s = Some s' \<Longrightarrow> vc_info_id s' = vc_info_id s"
  by (erule move_recvwin.raw_induct [where P = "\<lambda>_ s s'. vc_info_id s' = vc_info_id s", rotated])
    (auto split: bind_splits option.splits if_splits dest!: ids)

lemma ids_place_ahead [ids]: "place_ahead vcp vc v s = Some s' \<Longrightarrow> vc_info_id s' = vc_info_id s"
  by (auto simp: place_ahead_def split: bind_splits if_splits dest!: ids)

lemma ids_place_recvwin [ids]: "mv2_ud_place_recvwin v s = Some s' \<Longrightarrow> vc_info_id s' = vc_info_id s"
  by (auto simp: mv2_ud_place_recvwin_def Let_def simp del: recv_win_wrap.simps split: bind_splits if_splits dest!: ids)

lemma ids_process_recv [ids]: "ud_process_recv v s = Some s' \<Longrightarrow> vc_info_id s' = vc_info_id s"
  by (auto simp: ud_process_recv_def Let_def split: bind_splits if_splits dest!: ids)

lemma ids_post_recv_buffers [ids]: "ud_post_recv_buffers n s = Some s' \<Longrightarrow> vc_info_id s' = vc_info_id s"
proof (induction n arbitrary: s)
  case (Suc n)
  then obtain v s1 where "vbuf_get s = Some (v, s1)" "ud_post_recv_buffers n (s1\<lparr>receiving := receiving s1 @ [v]\<rparr>) = Some s'"
    by (auto split: bind_splits)
  then show ?case using Suc.IH ids_vbuf_get by fastforce
qed simp

lemma ids_replenish [ids]: "replenish s = Some s' \<Longrightarrow> vc_info_id s' = vc_info_id s"
  by (auto simp: replenish_def Let_def split: bind_splits if_splits dest!: ids)

lemma ids_connreq [ids]: "ud_process_connreq v sl sq s = Some s' \<Longrightarrow> vc_info_id s' = vc_info_id s"
  by (auto simp: ud_process_connreq_def split: bind_splits if_splits list.splits dest!: ids)

section \<open>Completions\<close>

lemma ids_cq_send [ids]: "cq_send v s = Some s' \<Longrightarrow> vc_info_id s' = vc_info_id s"
  by (auto simp: cq_send_def vc_delete_def Let_def split: bind_splits if_splits dest!: ids)

lemma ids_cq_recv [ids]: "cq_recv wc s = Some (r, s') \<Longrightarrow> vc_info_id s' = vc_info_id s"
  by (auto simp: cq_recv_def Let_def split: bind_splits if_splits option.splits dest!: ids)

lemma ids_cq_entries [ids]: "cq_entries wcs n g s = Some (n', g', s') \<Longrightarrow> vc_info_id s' = vc_info_id s"
  by (induction wcs arbitrary: n g s) (auto split: bind_splits if_splits wc_opcode.splits dest!: ids)

lemma ids_cq_poll [ids]: "cq_poll wcs s = Some (g, s') \<Longrightarrow> vc_info_id s' = vc_info_id s"
  by (auto simp: cq_poll_def split: bind_splits if_splits dest!: ids)

lemma ids_drain_loop [ids]: "drain_loop polls new s = Some (new', s') \<Longrightarrow> vc_info_id s' = vc_info_id s"
  by (induction polls arbitrary: new s) (auto split: bind_splits if_splits dest!: ids)

lemma ids_cq_drain [ids]: "cq_drain polls s = Some s' \<Longrightarrow> vc_info_id s' = vc_info_id s"
  by (auto simp: cq_drain_def split: bind_splits if_splits dest!: ids)

section \<open>Threads\<close>

lemma ids_join_timeout [ids]: "join_timeout c fin ts s = Some (ok, s') \<Longrightarrow> vc_info_id s' = vc_info_id s"
proof (induction ts arbitrary: c fin s)
  case (Cons t ts)
  show ?case
  proof (cases t)
    case (Recv_Thread polls)
    then show ?thesis using Cons.prems by (auto split: bind_splits dest!: Cons.IH ids_cq_drain)
  next
    case (Timeout_Thread polls)
    then obtain s1 s2 e s3 where s: "ud_check_acks s = Some s1" "cq_drain polls s1 = Some s2" "ud_check_resend s2 = Some (e, s3)"
      using Cons.prems by (auto split: bind_splits)
    have same: "vc_info_id s3 = vc_info_id s" using s by (auto dest!: ids)
    show ?thesis using Cons.prems s same Timeout_Thread
      by (auto simp: spawn_clock_time_us_def Let_def split: if_splits option.splits dest!: Cons.IH)
  qed
qed simp

lemma ids_join_recv [ids]: "join_recv rs s = Some (ok, s') \<Longrightarrow> vc_info_id s' = vc_info_id s"
  by (induction rs arbitrary: s) (auto split: bind_splits if_splits dest!: ids)

lemma ids_drain_sends [ids]: "drain_sends ps s = Some (ok, s') \<Longrightarrow> vc_info_id s' = vc_info_id s"
proof (induction ps arbitrary: s)
  case Nil
  then show ?case by (subst (asm) drain_sends.simps) (auto simp del: drain_sends.simps split: if_splits)
next
  case (Cons polls ps)
  from Cons.prems show ?case
    by (subst (asm) drain_sends.simps) (auto simp del: drain_sends.simps split: if_splits bind_splits dest!: Cons.IH ids_cq_drain)
qed

lemma ids_packet_send [ids]: "packet_send vcp ty pl s = Some (rc, s') \<Longrightarrow> vc_info_id s' = vc_info_id s"
  by (auto simp: packet_send_def split: bind_splits if_splits dest!: ids)

lemma ids_stop_threads [ids]: "stop_threads c p = Some (ok, p') \<Longrightarrow> vc_info_id (net p') = vc_info_id (net p)"
  by (auto simp: stop_threads_def Let_def split: bind_splits if_splits dest!: ids)

lemma ids_close: "spawn_net_close_ib c pep p = Some (r, p') \<Longrightarrow> vc_info_id (net p') = vc_info_id (net p)"
  by (auto simp: spawn_net_close_ib_def ud_ctx_destroy_def vbuf_finalize_def Let_def simp del: drain_sends.simps split: bind_splits if_splits dest!: ids)

end
