(* ===== verification/Ib_Open_Spec.thy ===== *)
theory Ib_Open_Spec
  imports Ib_Ids Ib_Link
begin

text \<open>What opening and closing an endpoint of the InfiniBand transport takes and gives back.\<close>

text \<open>
  C38. When the card cannot be opened, whatever call of the verbs library fails, everything that was taken from the library before is given back; when it is
  opened, the context, the protection domain, the channel and the queue for completions are kept, and nothing else.
\<close>

theorem hca_open_no_leak:
  "case hca_open devnum v hs of (rc, hs') \<Rightarrow>
     (rc = 0 \<and> hs' = [Completion_queue, Comp_channel, Protection_domain, Device_context] @ hs) \<or> (rc = - 1 \<and> hs' = hs)"
  by (simp add: hca_open_def Let_def split: option.splits)

section \<open>Opening again\<close>

definition card_ok :: "verbs \<Rightarrow> bool" where
  "card_ok v \<longleftrightarrow> fork_rc v = 0 \<and> (case num_devices v of None \<Rightarrow> False | Some n \<Rightarrow> n > 0) \<and> open_ok v \<and> pd_ok v \<and> device_rc v = 0 \<and> channel_ok v \<and> cq_ok v
     \<and> qp_num v \<noteq> None \<and> qp_transition v = 0 \<and> getrlimit_rc v = 0 \<and> setrlimit_rc v = 0 \<and> attr_rc v = 0 \<and> stacksize_rc v = 0"

lemma post_recv_array:
  "ud_post_recv_buffers n s = Some s' \<Longrightarrow> vc_array s' = vc_array s \<and> vc_info_id s' = vc_info_id s"
proof (induction n arbitrary: s)
  case (Suc n)
  obtain v s1 where s1: "vbuf_get s = Some (v, s1)" "ud_post_recv_buffers n (s1\<lparr>receiving := receiving s1 @ [v]\<rparr>) = Some s'"
    using Suc.prems by (auto split: bind_splits)
  have "vc_array s1 = vc_array s \<and> vc_info_id s1 = vc_info_id s"
    using s1(1) by (auto simp: vbuf_get_def put_vbuf_def vbuf_region_alloc_def fresh_region_def Let_def split: bind_splits if_splits)
  then show ?case using Suc.IH [OF s1(2)] by simp
qed simp

text \<open>Without the array, only the first channel can be created.\<close>

lemma vc_alloc_no_array: "\<not> vc_array s \<Longrightarrow> vc_info_id s \<noteq> 0 \<Longrightarrow> vc_alloc s = None"
  by (simp add: vc_alloc_def vc_grow_def Let_def)

lemma ctx_create_no_array:
  assumes "\<not> vc_array (net p)" "vc_info_id (net p) \<noteq> 0" "card_ok v"
  shows "ud_ctx_create v p = None"
proof -
  obtain q where q: "qp_create v (Ctx_memory # held p) = (Some q, Queue_pair # Ctx_memory # held p)" using assms(3) by (auto simp: card_ok_def qp_create_def)
  have "vc_alloc (s\<lparr>ud := c, unack_queue := MESSAGE_QUEUE_INIT, local_lid := l, local_qpn := q, recv_flag := False\<rparr>) = None"
    if "ud_post_recv_buffers n (net p) = Some s" for n s c l
    using post_recv_array [OF that] assms(1,2) by (intro vc_alloc_no_array) simp_all
  then show ?thesis using assms(3) q by (auto simp: ud_ctx_create_def create_self_def card_ok_def Let_def split: Option.bind_splits)
qed

lemma close_last:
  assumes "spawn_net_close_ib c pep p = Some (Some r, p')" "count_open p = 1"
  shows "count_open p' = 0" "\<not> vc_array (net p')"
  using assms by (auto simp: spawn_net_close_ib_def ud_ctx_destroy_def stop_threads_def vbuf_finalize_def Let_def split: bind_splits if_splits)

text \<open>
  C39. When the last endpoint of a process that has had a channel was closed, opening another follows a null pointer, though the card can
  be opened: the array of channels has been freed, but neither the number of channels nor its capacity were reset. (Opening
  an endpoint creates the channel the process has to itself, so that every process that has one to close has had a channel.)
\<close>

theorem reopen_crashes:
  assumes "spawn_net_close_ib c pep p = Some (Some r, p')" "count_open p = 1" "vc_info_id (net p) \<noteq> 0" "card_ok v"
  shows "spawn_net_open_ib v p' = None"
proof -
  obtain hs where h: "hca_open 0 v (held p') = (0, hs)"
    using assms(4) by (auto simp: hca_open_def card_ok_def Let_def split: option.splits)
  show ?thesis
    using close_last [OF assms(1,2)] ids_close [OF assms(1)] assms(3,4) h ctx_create_no_array [of "p'\<lparr>held := hs\<rparr>" v]
    by (simp add: spawn_net_open_ib_def)
qed

text \<open>A process that has opened an endpoint and closes it; the message that ends the receive thread comes in at once.\<close>

definition self_open :: ib_proc where
  "self_open = \<lparr>net = four_buffers\<lparr>vbufs := [0 \<mapsto> zero_vbuf, 1 \<mapsto> zero_vbuf], free_head := Some 0, brk := 2, receiving := [1],
       vcs := [0 \<mapsto> (vc_init blank_vc)\<lparr>state := VC_STATE_CONNECTED, has_ah := True, lid := 1, qpn := 2, readid := 0, writeid := 0\<rparr>]\<rparr>,
     count_open = 1, ud_ep_id = 1, vc_self = Some 0, force_shutdown = False, regions_freed = False,
     held = [Queue_pair, Ctx_memory, Completion_queue, Comp_channel, Protection_domain, Device_context]\<rparr>"

definition self_close :: closing where
  "self_close = \<lparr>c_cancel = False, c_others = [Timeout_Thread []], c_last = [],
     c_recv = [[[(sent_wc 1)\<lparr>wc_opcode := IBV_WC_RECV, slid := 1, src_qp := 2,
       wc_header := \<lparr>ptype = PKT_UD_SHUTDOWN, srcid = 0, pseqnum = 0, acknum = - 1\<rparr>\<rparr>]]],
     c_sends = [[[sent_wc 0]]], c_rc = (\<lambda>_. 0)\<rparr>"

definition self_endpoint :: ib_endpoint where
  "self_endpoint = \<lparr>ep_type = SPAWN_NET_TYPE_IBUD, ep_name = None, ep_data = Some 0\<rparr>"

definition good_card :: verbs where
  "good_card = \<lparr>fork_rc = 0, num_devices = Some 1, open_ok = True, pd_ok = True, device_rc = 0, channel_ok = True, cq_ok = True, port_lid = 1, qp_num = Some 2,
     modify_rc = (\<lambda>_. 0), spin_rc = 0, mutex_rc = 0, getrlimit_rc = 0, setrlimit_rc = 0, attr_rc = 0, stacksize_rc = 0, gethostname_ok = Some ''n1''\<rparr>"

lemmas close_eval = ib_eval spawn_net_close_ib_def ud_ctx_destroy_def stop_threads_def vbuf_finalize_def close_vc_def vc_free_def vc_purge_queues_def purge_ext_sendq.simps
  purge_send_window.simps release_all.simps vc_purge_connected_def vc_delete_def ud_check_acks_def cq_drain_def cq_recv_def ud_process_recv_def replenish_def self_open_def self_close_def
  give_back_def

lemma self_closes: "\<exists>p'. spawn_net_close_ib self_close (Some self_endpoint) self_open = Some (Some (SPAWN_SUCCESS, None), p')"
  by (simp add: close_eval)

theorem reopen_crashes_witness:
  "\<exists>p'. spawn_net_close_ib self_close (Some self_endpoint) self_open = Some (Some (SPAWN_SUCCESS, None), p') \<and> spawn_net_open_ib good_card p' = None"
proof -
  obtain p' where p: "spawn_net_close_ib self_close (Some self_endpoint) self_open = Some (Some (SPAWN_SUCCESS, None), p')"
    using self_closes by blast
  have "card_ok good_card" by (simp add: card_ok_def good_card_def qp_transition_def)
  then have "spawn_net_open_ib good_card p' = None" using reopen_crashes [OF p] by (simp add: self_open_def four_buffers_def)
  then show ?thesis using p by blast
qed

end
