(* ===== verification/Spec2Isabelle.thy ===== *)
theory Spec2Isabelle
  imports Strmap_Spec Net_Util_Spec Lwgrp_Spec Net_Dispatch_Spec Lwgrp_Create_Spec Ib_Link Ib_Read Ib_Name_Spec
    Ib_Error_Spec Ib_Open_Spec
begin

text \<open>
  A verification of SpawnNet (LLNL), a C library with which processes that have been started on many
  nodes find and connect to each other, and then exchange what they know.

  \<^bold>\<open>The program.\<close> \<open>spawn_net.c\<close> offers endpoints and channels and passes each call on to one of three
  transports: \<open>spawn_net_tcp.c\<close>, \<open>spawn_net_fifo.c\<close> (named pipes on one node) and \<open>spawn_net_ib.c\<close>
  (InfiniBand, compiled in on request). \<open>spawn_net_util.c\<close> sends strings and string maps over a
  channel. \<open>strmap.c\<close> is the map, an AVL tree with parent pointers. \<open>lwgrp.c\<close> makes groups: a process
  of a group has channels to the processes whose ranks differ by a power of two, and on these run
  the collective operations, a distributed sort, and the splitting of a group in smaller ones.
  \<open>spawn_util.c\<close> has memory and byte order.

  \<^bold>\<open>The map\<close> (\<open>strmap.c\<close>). Theory \<open>Strmap\<close> has every function, on a heap that maps addresses to nodes
  and is passed along; \<open>None\<close> stands for undefined behaviour (a null or dangling pointer) and for a
  loop that does not end. Loops are \<open>partial_function\<close>, so that to give a result means to end.
  \<open>Strmap_Tree\<close> states when a heap holds a tree and shows rotations and searches on it;
  \<open>Strmap_Refine\<close> and \<open>Strmap_Unset\<close> show that insertion and deletion with rebalancing refine
  functions on balanced trees; \<open>Strmap_Ops\<close>, \<open>Strmap_Iter\<close> and \<open>Strmap_Pack\<close> treat the rest, the
  iteration, and the packed form; \<open>Strmap_Spec\<close> has the properties, with a locale for maps that the
  code's functions interpret.

  \<^bold>\<open>Processes.\<close> Theory \<open>Net\<close> has programs that read and write on channels as a datatype of interaction
  trees, networks of them with one step per message, and shows that the result does not depend on
  the schedule; a property that all processes complete covers every schedule. \<open>Net_Exchange\<close> has
  lemmas on groups of processes that exchange messages in pairs. \<open>Net_Util\<close> and \<open>Net_Util_Spec\<close> are
  \<open>spawn_net_util.c\<close>: strings and maps arrive as they were sent.

  \<^bold>\<open>Collective operations\<close> (\<open>lwgrp.c\<close>). \<open>Lwgrp\<close> has the group record and the exchange of one round in
  its plain and its blocking variant, each an interpretation of a locale in which the collectives
  are proved once. \<open>Lwgrp_Coll\<close> (reductions, scans, shift), \<open>Lwgrp_Gather\<close> (allgather) and
  \<open>Lwgrp_Barrier\<close> (no process leaves before all have entered) follow. \<open>Bitonic\<close> proves the sorting network
  for any number of processes, \<open>Lwgrp_Sort\<close> that the distributed sort computes it, \<open>Lwgrp_Split\<close> and
  \<open>Lwgrp_Comm_Split\<close> that a split gives each process the group, rank and neighbours it should have.
  The split functions end with a call of \<open>lwgrp_create\<close>; the models return its arguments. The
  properties are in \<open>Lwgrp_Spec\<close>.

  \<^bold>\<open>Building a group\<close> (\<open>lwgrp.c\<close>). \<open>Conn\<close> has programs that also connect and accept, over a transport
  where connecting waits for the other side (FIFO) or does not (TCP), and shows that every run ends.
  \<open>Lwgrp_Connect\<close> has \<open>lwgrp_create\<close>, \<open>lwgrp_connect\<close>, its helpers, its blocking variant (which nothing calls; only
  modelled), and \<open>lwgrp_free\<close>. \<open>Lwgrp_Link\<close> is a judgement on the program of one process, \<open>Lwgrp_Link_Net\<close>
  the invariant of all of them, \<open>Lwgrp_Link_Live\<close> that they cannot wait for each other in a circle.
  \<open>Lwgrp_Create_Spec\<close> concludes: all processes return, with groups that satisfy what the theorems on
  collective operations assume. The loop that accepts connections has as fuel the length of the
  array it fills; that this is enough is part of the result, as running out is \<open>CFail\<close>.

  \<^bold>\<open>Transports.\<close> \<open>Posix\<close> has the kernel as a parameter: an answer to each system call, from a script
  that can hold partial transfers, interruptions and errors. \<open>Tcp\<close> and \<open>Tcp_Spec\<close> are \<open>spawn_net_tcp.c\<close>;
  \<open>Fifo\<close> is \<open>spawn_net_fifo.c\<close>, \<open>Fifo_Queue\<close> its packet queue on a heap as a list, \<open>Fifo_Spec\<close> its properties.
  \<open>Net_Types\<close> has endpoints and channels, and a locale for a reader of messages which the TCP, the FIFO
  and the combined functions interpret. \<open>Net_Dispatch\<close> and \<open>Net_Dispatch_Spec\<close> are \<open>spawn_net.c\<close>, with the
  InfiniBand functions as parameters.

  \<^bold>\<open>InfiniBand\<close> (\<open>spawn_net_ib.c\<close>). Packets go over an unreliable service; each channel numbers them, keeps
  them until they are acknowledged, and sends them again. \<open>Ib_Queue\<close> has the buffers and the queues they are linked
  in, with a locale for a pair of links that the five pairs of the code interpret: the queues are lists.
  \<open>Ib_Recvwin\<close> is the window of packets that came early, ordered by numbers modulo \<open>2 ^ 16\<close>. \<open>Ib\<close> has the state of a process
  and receiving, \<open>Ib_Flow\<close> sending, acknowledgements, sending again and closing, \<open>Ib_Api\<close> the completions, the
  threads as what happens while a call waits, and the functions of the interface. A failed assertion and a dangling pointer
  are \<open>None\<close>. \<open>Ib_Recv\<close> and \<open>Ib_Recv_Spec\<close> show that the application gets the packets in order and once. \<open>Ib_Send\<close> has the
  invariant of the sending side, for a process with one channel, with the writes and acknowledgements, \<open>Ib_Resend\<close> the completions and sending again,
  and \<open>Ib_Calm\<close> what none of these change. \<open>Ib_Link\<close> puts two processes and a network that loses, repeats and
  reorders packets together, as sequences of events; data goes in one direction, and the receiver's acknowledgements come back late, out of order or
  not at all. It assumes that no packet or acknowledgement is older than 60000 packets when it arrives, since numbers have sixteen bits,
  and that the timeout thread looks at most 1000 times for packets to send again, since the code gives a packet up after as many;
  that the receive window is not overrun is proved. \<open>Ib_Read\<close> treats reading, \<open>Ib_Name_Spec\<close> names, connection requests and the back-off,
  \<open>Ib_Error_Spec\<close> packets for channels that are closed. \<open>Ib_Open\<close> has opening and closing, with the answers of the verbs library as a parameter and
  what is taken from it as a list, and the ends of the two threads; \<open>Ib_Open_Spec\<close> its properties.

  \<^bold>\<open>Machine integers.\<close> Lengths and sums that the code keeps in 64 bits are words, \<open>int\<close> values on a
  channel are bytes that are read back with their sign. Ranks and sizes are natural numbers; where
  the code's types bound them a theorem says so (groups of at most \<open>2 ^ 31\<close> or \<open>2 ^ 63\<close> processes).

  \<^bold>\<open>Not modelled.\<close> Of \<open>spawn_net_ib.c\<close> the registration of memory with the card, huge pages, and the list of regions but for the fact
  that it keeps freed elements. \<open>spawn_clock.c\<close> measures the clock in floating point; the one function of it that is used, the time, is a parameter.
  \<open>spawn_err\<close> and \<open>spawn_dbg\<close> of \<open>spawn_util.c\<close> print. The programs under \<open>examples\<close> and \<open>test\<close> are clients.
\<close>

end
